(* ===== verification/Prelude.thy ===== *)
theory Prelude
  imports Main "HOL-Library.Word" "HOL-Library.Sublist" "HOL-Library.List_Lexorder"
    "HOL-Library.Char_ord"
begin

unbundle bit_operations_syntax

text \<open>
  The shared part of the development: the types the components name (bytes, tokens,
  positions, sequence ids), the pieces of the C and C++ string library the sources use
  (\<open>std::string::find\<close>, \<open>isspace\<close>, \<open>toupper\<close>, \<open>strncpy\<close>, the
  view of a buffer as a C string), the narrowing of sizes to \<open>int32_t\<close>, and the
  generic lemmas on lists that the component theories use.
\<close>

type_synonym byte = "8 word"
type_synonym uint32 = "32 word"
type_synonym llama_token = int
type_synonym llama_pos = int
type_synonym llama_seq_id = int

text \<open>\<open>llama-cparams.h\<close>.\<close>

definition LLAMA_MAX_SEQ :: nat where
  "LLAMA_MAX_SEQ = 64"

named_theorems sub_intros \<open>rules that place a text inside a longer text\<close>
named_theorems int_width \<open>facts on values that fit an integer width\<close>

section \<open>Sublists and prefixes\<close>

lemma sublist_consI [sub_intros]: "sublist x b \<Longrightarrow> sublist x (c # b)"
  by (simp add: sublist_Cons_right)

lemma sublist_appI1 [sub_intros]: "sublist x a \<Longrightarrow> sublist x (a @ b)"
  by (auto simp: sublist_append)

lemma sublist_appI2 [sub_intros]: "sublist x b \<Longrightarrow> sublist x (a @ b)"
  by (auto simp: sublist_append)

lemma sublist_concat_map [sub_intros]:
  assumes "m \<in> set ms" and "sublist x (f m)"
  shows "sublist x (concat (map f ms))"
proof -
  from assms(1) obtain as bs where "ms = as @ m # bs"
    by (meson split_list)
  with assms(2) show ?thesis
    by (auto intro: sub_intros)
qed

lemma prefix_sublist_trans: "sublist x a \<Longrightarrow> prefix a b \<Longrightarrow> sublist x b"
  by (auto simp: prefix_def intro: sub_intros)

lemma prefix_concat_map: "prefix (concat (map f ms)) (concat (map f (ms @ ns)) @ t)"
  by simp

section \<open>Strings of the C and C++ library\<close>

abbreviation nl :: string where "nl \<equiv> [CHR 0x0A]"
abbreviation nl2 :: string where "nl2 \<equiv> [CHR 0x0A, CHR 0x0A]"

text \<open>
  \<open>std::string::find\<close>: the first index at which the needle occurs, \<open>None\<close> for
  \<open>npos\<close>.
\<close>

fun str_find :: "string \<Rightarrow> string \<Rightarrow> nat option" where
  "str_find needle [] = (if needle = [] then Some 0 else None)"
| "str_find needle (c # s) =
     (if prefix needle (c # s) then Some 0 else map_option Suc (str_find needle s))"

lemma str_find_None: "str_find needle s = None \<longleftrightarrow> \<not> sublist needle s"
  by (induction s) (auto simp: sublist_Cons_right)

lemma str_find_Some: "str_find needle s = Some i \<Longrightarrow> sublist needle s"
  using str_find_None [of needle s] by simp

lemma str_find_Some_prefix:
  "str_find needle s = Some i \<Longrightarrow> prefix needle (drop i s) \<and> i + length needle \<le> length s"
proof (induction s arbitrary: i)
  case Nil
  then show ?case by (auto split: if_splits)
next
  case (Cons c s)
  show ?case
  proof (cases "prefix needle (c # s)")
    case True
    with Cons.prems show ?thesis
      using prefix_length_le [OF True] by auto
  next
    case False
    with Cons.prems obtain j where "str_find needle s = Some j" and "i = Suc j"
      by auto
    with Cons.IH show ?thesis by auto
  qed
qed

lemma str_find_first:
  "str_find needle s = Some i \<Longrightarrow> j < i \<Longrightarrow> \<not> prefix needle (drop j s)"
proof (induction s arbitrary: i j)
  case Nil
  then show ?case by (auto split: if_splits)
next
  case (Cons c s)
  then show ?case
    by (cases j) (auto split: if_splits)
qed

lemma str_find_take_clean:
  assumes "str_find needle s = Some i" and "needle \<noteq> []"
  shows "\<not> sublist needle (take i s)"
proof
  assume "sublist needle (take i s)"
  then obtain ps ss where split: "take i s = ps @ needle @ ss"
    by (auto simp: sublist_def)
  have "length (ps @ needle @ ss) \<le> i"
    by (simp flip: split)
  with assms(2) have len: "length ps < i"
    by (cases needle) auto
  have "s = ps @ needle @ ss @ drop i s"
    using split by (metis append.assoc append_take_drop_id)
  then have "prefix needle (drop (length ps) s)"
    by (metis append_eq_conv_conj prefixI)
  with str_find_first [OF assms(1) len] show False by blast
qed

text \<open>\<open>isspace\<close> and \<open>toupper\<close> in the C locale.\<close>

definition isspace :: "char \<Rightarrow> bool" where
  "isspace c = (c = CHR 0x20 \<or> c = CHR 0x09 \<or> c = CHR 0x0A \<or> c = CHR 0x0B \<or>
     c = CHR 0x0C \<or> c = CHR 0x0D)"

definition toupper :: "char \<Rightarrow> char" where
  "toupper c = (let n = (of_char c :: nat) in
     if 97 \<le> n \<and> n \<le> 122 then char_of (n - 32) else c)"

text \<open>A \<open>char *\<close> read as a C string ends at its first zero byte.\<close>

definition c_str :: "string \<Rightarrow> string" where
  "c_str s = takeWhile (\<lambda>c. c \<noteq> CHR 0x00) s"

definition nul_free :: "string \<Rightarrow> bool" where
  "nul_free s = (CHR 0x00 \<notin> set s)"

lemma c_str_nul_free [simp]: "nul_free s \<Longrightarrow> c_str s = s"
  by (auto simp: c_str_def nul_free_def takeWhile_eq_all_conv)

lemma nul_free_c_str [simp]: "nul_free (c_str s)"
  unfolding c_str_def nul_free_def by (auto dest: set_takeWhileD)

lemma nul_free_simps [simp]:
  "nul_free []"
  "nul_free (a @ b) \<longleftrightarrow> nul_free a \<and> nul_free b"
  "nul_free (c # a) \<longleftrightarrow> c \<noteq> CHR 0x00 \<and> nul_free a"
  by (auto simp: nul_free_def)

lemma c_str_append: "c_str (s @ t) = (if nul_free s then s @ c_str t else c_str s)"
  by (induction s) (auto simp: c_str_def)

lemma nul_free_concat_map:
  "(\<And>m. m \<in> set ms \<Longrightarrow> nul_free (f m)) \<Longrightarrow> nul_free (concat (map f ms))"
  by (induction ms) auto

text \<open>
  \<open>strncpy(buf, src, n)\<close> into a buffer of at least \<open>n\<close> bytes: the bytes of the
  C string, cut at \<open>n\<close>, then zeros up to \<open>n\<close>; what lies beyond is kept.
\<close>

definition strncpy :: "string \<Rightarrow> string \<Rightarrow> nat \<Rightarrow> string" where
  "strncpy buf src n =
     (let t = take n (c_str src) in t @ replicate (n - length t) (CHR 0x00) @ drop n buf)"

lemma length_strncpy: "n \<le> length buf \<Longrightarrow> length (strncpy buf src n) = length buf"
  by (simp add: strncpy_def Let_def)

lemma take_strncpy:
  assumes "nul_free src" and "length src \<le> n"
  shows "take (length src) (strncpy buf src n) = src"
  using assms by (simp add: strncpy_def Let_def)

lemma strncpy_exact:
  assumes "nul_free src" and "length src = n" and "length buf = n"
  shows "strncpy buf src n = src"
  using assms by (simp add: strncpy_def Let_def)

section \<open>Integer widths\<close>

text \<open>
  \<open>return dest.size();\<close> from a function of type \<open>int32_t\<close>: the size is cut to 32
  bits and read as two's complement.
\<close>

definition int32_of_size :: "nat \<Rightarrow> int" where
  "int32_of_size n = sint (word_of_nat n :: 32 word)"

lemma int32_of_size_small [int_width, simp]:
  assumes "n < 2 ^ 31"
  shows "int32_of_size n = int n"
proof -
  have "signed_take_bit 31 (int n) = int n"
    using assms by (intro signed_take_bit_int_eq_self) auto
  then show ?thesis
    by (simp add: int32_of_size_def signed_of_nat)
qed

lemma int32_of_size_bounds:
  "- (2 ^ 31) \<le> int32_of_size n \<and> int32_of_size n < 2 ^ 31"
  unfolding int32_of_size_def
  using sint_ge [of "word_of_nat n :: 32 word"] sint_lt [of "word_of_nat n :: 32 word"]
  by simp

lemma uint32_of_int_small [int_width]:
  assumes "0 \<le> n" and "n < 2 ^ 32"
  shows "uint (word_of_int n :: uint32) = n"
  using assms by (simp add: unsigned_of_int take_bit_int_eq_self)

text \<open>A property of all bytes is a finite check.\<close>

lemma all_byte: "(\<forall>b::byte. P b) \<longleftrightarrow> list_all (\<lambda>n. P (word_of_nat n)) [0..<256]"
proof
  assume "list_all (\<lambda>n. P (word_of_nat n)) [0..<256]"
  then have *: "P (word_of_nat n)" if "n < 256" for n
    using that by (simp add: list_all_iff)
  show "\<forall>b::byte. P b"
  proof
    fix b :: byte
    have "P (word_of_nat (unat b))"
      using unsigned_less [of b] by (intro *) simp
    then show "P b" by simp
  qed
qed (simp add: list_all_iff)

text \<open>The bytes of a string, and the string of some bytes.\<close>

definition bytes_of :: "string \<Rightarrow> byte list" where
  "bytes_of s = map of_char s"

definition chars_of :: "byte list \<Rightarrow> string" where
  "chars_of bs = map (\<lambda>b. char_of (unat b)) bs"

lemma bytes_of_append [simp]: "bytes_of (a @ b) = bytes_of a @ bytes_of b"
  by (simp add: bytes_of_def)

lemma length_bytes_of [simp]: "length (bytes_of s) = length s" "length (chars_of bs) = length bs"
  by (simp_all add: bytes_of_def chars_of_def)

lemma unat_of_char: "unat (of_char c :: byte) = of_char c"
  by (cases c) (simp add: of_char_def)

lemma chars_of_bytes_of [simp]: "chars_of (bytes_of s) = s"
  by (induction s) (simp_all add: bytes_of_def chars_of_def unat_of_char)

section \<open>Rounding up\<close>

text \<open>\<open>GGML_PAD\<close>: rounds up to a multiple of a power of two.\<close>

definition GGML_PAD :: "'a::ring_bit_operations \<Rightarrow> 'a \<Rightarrow> 'a" where
  "GGML_PAD x n = (x + n - 1) AND NOT (n - 1)"

lemma and_not_mask: "x AND NOT (mask k) = push_bit k (drop_bit k x)" for x :: "'a::ring_bit_operations"
  by (rule bit_eqI) (auto simp: bit_simps)

lemma GGML_PAD_pow2: "GGML_PAD x (2 ^ k) = push_bit k (drop_bit k (x + 2 ^ k - 1))"
  for x :: "'a::ring_bit_operations"
proof -
  have "2 ^ k - 1 = (mask k :: 'a)"
    by (simp add: mask_eq_exp_minus_1)
  then show ?thesis
    by (simp add: GGML_PAD_def and_not_mask add_diff_eq [symmetric])
qed

lemma GGML_PAD_int:
  fixes x :: int
  shows "x \<le> GGML_PAD x (2 ^ k)" and "GGML_PAD x (2 ^ k) < x + 2 ^ k" and "2 ^ k dvd GGML_PAD x (2 ^ k)"
proof -
  let ?y = "x + 2 ^ k - 1"
  have e: "GGML_PAD x (2 ^ k) = ?y div 2 ^ k * 2 ^ k"
    by (simp add: GGML_PAD_pow2 push_bit_eq_mult drop_bit_eq_div)
  have m: "?y = ?y div 2 ^ k * 2 ^ k + ?y mod 2 ^ k" "0 \<le> ?y mod 2 ^ k" "?y mod 2 ^ k < 2 ^ k"
    by (simp_all only: div_mult_mod_eq) simp_all
  show "x \<le> GGML_PAD x (2 ^ k)" "GGML_PAD x (2 ^ k) < x + 2 ^ k" "2 ^ k dvd GGML_PAD x (2 ^ k)"
    using m unfolding e by (linarith, linarith, simp)
qed

lemma GGML_PAD_unat:
  fixes n :: nat
  assumes "k < LENGTH('a::len)" and "n + 2 ^ k \<le> 2 ^ LENGTH('a)"
  shows "unat (GGML_PAD (word_of_nat n :: 'a word) (2 ^ k)) = (n + 2 ^ k - 1) div 2 ^ k * 2 ^ k"
proof -
  have p: "(1::nat) \<le> 2 ^ k" by simp
  have "word_of_nat n + 2 ^ k - 1 = (word_of_nat (n + 2 ^ k - 1) :: 'a word)"
  proof -
    have "word_of_nat (n + 2 ^ k - 1) = word_of_nat (n + 2 ^ k) - (word_of_nat 1 :: 'a word)"
      by (rule of_nat_diff) (use p in linarith)
    then show ?thesis by simp
  qed
  then have "GGML_PAD (word_of_nat n :: 'a word) (2 ^ k) = push_bit k (drop_bit k (word_of_nat (n + 2 ^ k - 1)))"
    by (simp add: GGML_PAD_pow2)
  moreover have "take_bit LENGTH('a) (n + 2 ^ k - 1) = n + 2 ^ k - 1"
    using assms(2) p by (intro take_bit_nat_eq_self) linarith
  moreover from this have "unat (word_of_nat (n + 2 ^ k - 1) :: 'a word) = n + 2 ^ k - 1"
    by (simp add: unat_of_nat take_bit_eq_mod)
  ultimately have "unat (GGML_PAD (word_of_nat n :: 'a word) (2 ^ k)) =
      take_bit LENGTH('a) (push_bit k (drop_bit k (n + 2 ^ k - 1)))"
    by (simp add: unsigned_push_bit_eq unsigned_drop_bit_eq)
  also have "\<dots> = (n + 2 ^ k - 1) div 2 ^ k * 2 ^ k"
  proof -
    have "(n + 2 ^ k - 1) div 2 ^ k * 2 ^ k \<le> n + 2 ^ k - 1" by simp
    also have "\<dots> < 2 ^ LENGTH('a)" using assms(2) p by linarith
    finally show ?thesis
      by (simp add: take_bit_eq_mod push_bit_eq_mult drop_bit_eq_div)
  qed
  finally show ?thesis .
qed

lemma GGML_PAD_unat32:
  assumes "k < 32" and "n + 2 ^ k \<le> 2 ^ 32"
  shows "unat (GGML_PAD (word_of_nat n :: uint32) (2 ^ k)) = (n + 2 ^ k - 1) div 2 ^ k * 2 ^ k"
  using GGML_PAD_unat [where 'a = 32 and k = k and n = n] assms by simp

end
