(* ===== verification/Chat_Template.thy ===== *)
theory Chat_Template
  imports Prelude
begin

text \<open>
  The chat templates of \<open>llama.cpp/src/llama-chat.cpp\<close> and the C interface
  \<open>llama_chat_apply_template\<close> of \<open>llama.cpp/src/llama.cpp\<close> that the app's
  \<open>LLMInference\<close> calls on every query: the table of built-in names, the detection of a
  template from a Jinja text, the rendering of a conversation by each template, and the
  copy into the caller's buffer.

  A message is a \<open>llama_chat_message\<close>. A loop of the source that writes each message
  independently of the others is \<open>concat (map ... chat)\<close>; a loop that carries local
  variables from one message to the next is a \<open>foldl\<close> over the string stream and those
  variables.
\<close>

record chat_message =
  role :: string
  content :: string

section \<open>Template names and detection\<close>

datatype llm_chat_template =
    TMPL_CHATML
  | TMPL_LLAMA_2
  | TMPL_LLAMA_2_SYS
  | TMPL_LLAMA_2_SYS_BOS
  | TMPL_LLAMA_2_SYS_STRIP
  | TMPL_MISTRAL_V1
  | TMPL_MISTRAL_V3
  | TMPL_MISTRAL_V3_TEKKEN
  | TMPL_MISTRAL_V7
  | TMPL_MISTRAL_V7_TEKKEN
  | TMPL_PHI_3
  | TMPL_PHI_4
  | TMPL_FALCON_3
  | TMPL_ZEPHYR
  | TMPL_MONARCH
  | TMPL_GEMMA
  | TMPL_ORION
  | TMPL_OPENCHAT
  | TMPL_VICUNA
  | TMPL_VICUNA_ORCA
  | TMPL_DEEPSEEK
  | TMPL_DEEPSEEK_2
  | TMPL_DEEPSEEK_3
  | TMPL_COMMAND_R
  | TMPL_LLAMA_3
  | TMPL_CHATGLM_3
  | TMPL_CHATGLM_4
  | TMPL_GLMEDGE
  | TMPL_MINICPM
  | TMPL_EXAONE_3
  | TMPL_EXAONE_4
  | TMPL_RWKV_WORLD
  | TMPL_GRANITE
  | TMPL_GIGACHAT
  | TMPL_MEGREZ
  | TMPL_YANDEX
  | TMPL_BAILING
  | TMPL_LLAMA4
  | TMPL_SMOLVLM
  | TMPL_DOTS1
  | TMPL_HUNYUAN_MOE
  | TMPL_KIMI_K2
  | TMPL_UNKNOWN

text \<open>
  The constructors are the enum's constants, with \<open>TMPL_\<close> for
  \<open>LLM_CHAT_TEMPLATE_\<close>.
\<close>

definition LLM_CHAT_TEMPLATES :: "(string \<times> llm_chat_template) list" where
  "LLM_CHAT_TEMPLATES = [
    (''chatml'', TMPL_CHATML),
    (''llama2'', TMPL_LLAMA_2),
    (''llama2-sys'', TMPL_LLAMA_2_SYS),
    (''llama2-sys-bos'', TMPL_LLAMA_2_SYS_BOS),
    (''llama2-sys-strip'', TMPL_LLAMA_2_SYS_STRIP),
    (''mistral-v1'', TMPL_MISTRAL_V1),
    (''mistral-v3'', TMPL_MISTRAL_V3),
    (''mistral-v3-tekken'', TMPL_MISTRAL_V3_TEKKEN),
    (''mistral-v7'', TMPL_MISTRAL_V7),
    (''mistral-v7-tekken'', TMPL_MISTRAL_V7_TEKKEN),
    (''phi3'', TMPL_PHI_3),
    (''phi4'', TMPL_PHI_4),
    (''falcon3'', TMPL_FALCON_3),
    (''zephyr'', TMPL_ZEPHYR),
    (''monarch'', TMPL_MONARCH),
    (''gemma'', TMPL_GEMMA),
    (''orion'', TMPL_ORION),
    (''openchat'', TMPL_OPENCHAT),
    (''vicuna'', TMPL_VICUNA),
    (''vicuna-orca'', TMPL_VICUNA_ORCA),
    (''deepseek'', TMPL_DEEPSEEK),
    (''deepseek2'', TMPL_DEEPSEEK_2),
    (''deepseek3'', TMPL_DEEPSEEK_3),
    (''command-r'', TMPL_COMMAND_R),
    (''llama3'', TMPL_LLAMA_3),
    (''chatglm3'', TMPL_CHATGLM_3),
    (''chatglm4'', TMPL_CHATGLM_4),
    (''glmedge'', TMPL_GLMEDGE),
    (''minicpm'', TMPL_MINICPM),
    (''exaone3'', TMPL_EXAONE_3),
    (''exaone4'', TMPL_EXAONE_4),
    (''rwkv-world'', TMPL_RWKV_WORLD),
    (''granite'', TMPL_GRANITE),
    (''gigachat'', TMPL_GIGACHAT),
    (''megrez'', TMPL_MEGREZ),
    (''yandex'', TMPL_YANDEX),
    (''bailing'', TMPL_BAILING),
    (''llama4'', TMPL_LLAMA4),
    (''smolvlm'', TMPL_SMOLVLM),
    (''hunyuan-moe'', TMPL_HUNYUAN_MOE),
    (''kimi-k2'', TMPL_KIMI_K2)]"

text \<open>\<open>std::map::at\<close>: \<open>None\<close> stands for the \<open>std::out_of_range\<close> it throws.\<close>

definition llm_chat_template_from_str :: "string \<Rightarrow> llm_chat_template option" where
  "llm_chat_template_from_str name = map_of LLM_CHAT_TEMPLATES name"

text \<open>The byte strings of the source's non-ASCII literals.\<close>

definition LU8_user :: string where
  "LU8_user = ''<'' @ [CHR 0xE7, CHR 0x94, CHR 0xA8, CHR 0xE6, CHR 0x88, CHR 0xB7] @ ''>''"

definition LU8_bar :: string where
  "LU8_bar = [CHR 0xEF, CHR 0xBD, CHR 0x9C]"

definition LU8_low :: string where
  "LU8_low = [CHR 0xE2, CHR 0x96, CHR 0x81]"

definition LU8_Assistant :: string where
  "LU8_Assistant = ''<'' @ LU8_bar @ ''Assistant'' @ LU8_bar @ ''>''"

definition LU8_User :: string where
  "LU8_User = ''<'' @ LU8_bar @ ''User'' @ LU8_bar @ ''>''"

definition LU8_eos :: string where
  "LU8_eos = ''<'' @ LU8_bar @ ''end'' @ LU8_low @ ''of'' @ LU8_low @ ''sentence'' @ LU8_bar @ ''>''"

definition yandex_assistant :: string where
  "yandex_assistant =
    [CHR 0x20, CHR 0xD0, CHR 0x90, CHR 0xD1, CHR 0x81, CHR 0xD1, CHR 0x81, CHR 0xD0,
     CHR 0xB8, CHR 0xD1, CHR 0x81, CHR 0xD1, CHR 0x82, CHR 0xD0, CHR 0xB5, CHR 0xD0,
     CHR 0xBD, CHR 0xD1, CHR 0x82, CHR 0x3A]"

definition yandex_user :: string where
  "yandex_user =
    [CHR 0x20, CHR 0xD0, CHR 0x9F, CHR 0xD0, CHR 0xBE, CHR 0xD0, CHR 0xBB, CHR 0xD1,
     CHR 0x8C, CHR 0xD0, CHR 0xB7, CHR 0xD0, CHR 0xBE, CHR 0xD0, CHR 0xB2, CHR 0xD0,
     CHR 0xB0, CHR 0xD1, CHR 0x82, CHR 0xD0, CHR 0xB5, CHR 0xD0, CHR 0xBB, CHR 0xD1,
     CHR 0x8C, CHR 0x3A, CHR 0x20]"

definition tmpl_contains :: "string \<Rightarrow> string \<Rightarrow> bool" where
  "tmpl_contains tmpl needle = (str_find needle tmpl \<noteq> None)"

lemma tmpl_contains_sublist: "tmpl_contains tmpl needle \<longleftrightarrow> sublist needle tmpl"
  using str_find_None [of needle tmpl] by (auto simp: tmpl_contains_def)

definition llm_chat_detect_template :: "string \<Rightarrow> llm_chat_template" where
  \<open>llm_chat_detect_template tmpl =
     (case llm_chat_template_from_str tmpl of Some t \<Rightarrow> t | None \<Rightarrow>
      (let has = tmpl_contains tmpl; bsl = [CHR 0x5C] in
       if has ''<|im_start|>'' then
         (if has ''<|im_sep|>'' then TMPL_PHI_4
          else if has ''<end_of_utterance>'' then TMPL_SMOLVLM
          else TMPL_CHATML)
       else if str_find ''mistral'' tmpl = Some 0 \<or> has ''[INST]'' then
         (if has ''[SYSTEM_PROMPT]'' then TMPL_MISTRAL_V7
          else if has ([CHR 0x27] @ '' [INST] ' + system_message'') \<or> has ''[AVAILABLE_TOOLS]'' then
            (if has '' [INST]'' then TMPL_MISTRAL_V1
             else if has ''"[INST]"'' then TMPL_MISTRAL_V3_TEKKEN
             else TMPL_MISTRAL_V3)
          else
            (if has ''content.strip()'' then TMPL_LLAMA_2_SYS_STRIP
             else if has ''bos_token + '[INST]'' then TMPL_LLAMA_2_SYS_BOS
             else if has ''<<SYS>>'' then TMPL_LLAMA_2_SYS
             else TMPL_LLAMA_2))
       else if has ''<|assistant|>'' \<and> has ''<|end|>'' then TMPL_PHI_3
       else if has ''[gMASK]<sop>'' then TMPL_CHATGLM_4
       else if has ''<|assistant|>'' \<and> has ''<|user|>'' then
         (if has ''</s>'' then TMPL_FALCON_3 else TMPL_GLMEDGE)
       else if has ''<|{{ item['role'] }}|>'' \<and> has ''<|begin_of_image|>'' then TMPL_GLMEDGE
       else if has ''<|user|>'' \<and> has ''<|endoftext|>'' then TMPL_ZEPHYR
       else if has ''bos_token + message['role']'' then TMPL_MONARCH
       else if has ''<start_of_turn>'' then TMPL_GEMMA
       else if has ([CHR 0x27] @ bsl @ ''n'' @ bsl @ ''nAssistant: ' + eos_token'') then TMPL_ORION
       else if has ''GPT4 Correct '' then TMPL_OPENCHAT
       else if has ''USER: '' \<and> has ''ASSISTANT: '' then
         (if has ''SYSTEM: '' then TMPL_VICUNA_ORCA else TMPL_VICUNA)
       else if has ''### Instruction:'' \<and> has ''<|EOT|>'' then TMPL_DEEPSEEK
       else if has ''<|START_OF_TURN_TOKEN|>'' \<and> has ''<|USER_TOKEN|>'' then TMPL_COMMAND_R
       else if has ''<|start_header_id|>'' \<and> has ''<|end_header_id|>'' then TMPL_LLAMA_3
       else if has ''[gMASK]sop'' then TMPL_CHATGLM_3
       else if has LU8_user then TMPL_MINICPM
       else if has ([CHR 0x27] @ ''Assistant: ' + message['content'] + eos_token'') then TMPL_DEEPSEEK_2
       else if has LU8_Assistant \<and> has LU8_User \<and> has LU8_eos then TMPL_DEEPSEEK_3
       else if has ''[|system|]'' \<and> has ''[|assistant|]'' \<and> has ''[|endofturn|]'' then
         (if has ''[|tool|]'' then TMPL_EXAONE_4 else TMPL_EXAONE_3)
       else if has ''rwkv-world'' \<or>
               has (''{{- 'User: ' + message['content']|trim + '' @ [CHR 0x27] @ bsl @ ''n'' @ bsl @ ''n' -}}'')
         then TMPL_RWKV_WORLD
       else if has ''<|start_of_role|>'' then TMPL_GRANITE
       else if has ''message['role'] + additional_special_tokens[0] + message['content'] + additional_special_tokens[1]''
         then TMPL_GIGACHAT
       else if has ''<|role_start|>'' then TMPL_MEGREZ
       else if has yandex_assistant then TMPL_YANDEX
       else if has ''<role>ASSISTANT</role>'' \<and> has ([CHR 0x27] @ ''HUMAN'' @ [CHR 0x27]) then TMPL_BAILING
       else if has ''<|header_start|>'' \<and> has ''<|header_end|>'' then TMPL_LLAMA4
       else if has ''<|endofuserprompt|>'' then TMPL_DOTS1
       else if has ''<|startoftext|>'' \<and> has ''<|extra_4|>'' then TMPL_HUNYUAN_MOE
       else if has ''<|im_assistant|>assistant<|im_middle|>'' then TMPL_KIMI_K2
       else TMPL_UNKNOWN))\<close>

section \<open>Rendering\<close>

text \<open>\<open>trim\<close>: whitespace is dropped from the front, then from the back.\<close>

definition trim :: "string \<Rightarrow> string" where
  "trim s = rev (dropWhile isspace (rev (dropWhile isspace s)))"

text \<open>The generation prompt a template appends when \<open>add_ass\<close> is set.\<close>

abbreviation ass_prompt :: "bool \<Rightarrow> string \<Rightarrow> string" where
  "ass_prompt add_ass s \<equiv> (if add_ass then s else [])"

definition chat_chatml :: "chat_message list \<Rightarrow> bool \<Rightarrow> string" where
  "chat_chatml chat add_ass =
     concat (map (\<lambda>m. ''<|im_start|>'' @ role m @ nl @ content m @ ''<|im_end|>'' @ nl) chat) @
     ass_prompt add_ass (''<|im_start|>assistant'' @ nl)"

definition chat_mistral_v7 :: "llm_chat_template \<Rightarrow> chat_message list \<Rightarrow> bool \<Rightarrow> string" where
  "chat_mistral_v7 tmpl chat add_ass =
     (let trailing_space = (if tmpl = TMPL_MISTRAL_V7 then '' '' else []) in
      concat (map (\<lambda>m.
        if role m = ''system'' then
          ''[SYSTEM_PROMPT]'' @ trailing_space @ content m @ ''[/SYSTEM_PROMPT]''
        else if role m = ''user'' then ''[INST]'' @ trailing_space @ content m @ ''[/INST]''
        else trailing_space @ content m @ ''</s>'') chat))"

text \<open>The loops with a state carry the stream \<open>ss\<close> and the loop's local variable.\<close>

definition mistral_step ::
  "llm_chat_template \<Rightarrow> string \<times> bool \<Rightarrow> chat_message \<Rightarrow> string \<times> bool" where
  "mistral_step tmpl = (\<lambda>(ss, is_inside_turn) m.
     let leading_space = (if tmpl = TMPL_MISTRAL_V1 then '' '' else []);
         trailing_space = (if tmpl = TMPL_MISTRAL_V3_TEKKEN then [] else '' '');
         trim_assistant_message = (tmpl = TMPL_MISTRAL_V3);
         ss = (if \<not> is_inside_turn then ss @ leading_space @ ''[INST]'' @ trailing_space else ss);
         is_inside_turn = True
     in if role m = ''system'' then (ss @ content m @ nl2, is_inside_turn)
        else if role m = ''user'' then (ss @ content m @ leading_space @ ''[/INST]'', is_inside_turn)
        else (ss @ trailing_space @ (if trim_assistant_message then trim (content m) else content m)
                @ ''</s>'', False))"

definition chat_mistral :: "llm_chat_template \<Rightarrow> chat_message list \<Rightarrow> bool \<Rightarrow> string" where
  "chat_mistral tmpl chat add_ass = fst (foldl (mistral_step tmpl) ([], False) chat)"

definition llama2_step ::
  "llm_chat_template \<Rightarrow> string \<times> bool \<Rightarrow> chat_message \<Rightarrow> string \<times> bool" where
  "llama2_step tmpl = (\<lambda>(ss, is_inside_turn) m.
     let support_system_message = (tmpl \<noteq> TMPL_LLAMA_2);
         add_bos_inside_history = (tmpl = TMPL_LLAMA_2_SYS_BOS);
         strip_message = (tmpl = TMPL_LLAMA_2_SYS_STRIP);
         c = (if strip_message then trim (content m) else content m);
         ss = (if \<not> is_inside_turn
               then ss @ (if add_bos_inside_history then ''<s>[INST] '' else ''[INST] '') else ss);
         is_inside_turn = True
     in if role m = ''system'' then
          (if support_system_message
           then (ss @ ''<<SYS>>'' @ nl @ c @ nl @ ''<</SYS>>'' @ nl2, is_inside_turn)
           else (ss @ c @ nl, is_inside_turn))
        else if role m = ''user'' then (ss @ c @ '' [/INST]'', is_inside_turn)
        else (ss @ c @ ''</s>'', False))"

definition chat_llama2 :: "llm_chat_template \<Rightarrow> chat_message list \<Rightarrow> bool \<Rightarrow> string" where
  "chat_llama2 tmpl chat add_ass = fst (foldl (llama2_step tmpl) (''[INST] '', True) chat)"

definition chat_phi3 :: "chat_message list \<Rightarrow> bool \<Rightarrow> string" where
  "chat_phi3 chat add_ass =
     concat (map (\<lambda>m. ''<|'' @ role m @ ''|>'' @ nl @ content m @ ''<|end|>'' @ nl) chat) @
     ass_prompt add_ass (''<|assistant|>'' @ nl)"

definition chat_phi4 :: "chat_message list \<Rightarrow> bool \<Rightarrow> string" where
  "chat_phi4 chat add_ass =
     concat (map (\<lambda>m. ''<|im_start|>'' @ role m @ ''<|im_sep|>'' @ content m @ ''<|im_end|>'') chat) @
     ass_prompt add_ass ''<|im_start|>assistant<|im_sep|>''"

definition chat_falcon3 :: "chat_message list \<Rightarrow> bool \<Rightarrow> string" where
  "chat_falcon3 chat add_ass =
     concat (map (\<lambda>m. ''<|'' @ role m @ ''|>'' @ nl @ content m @ nl) chat) @
     ass_prompt add_ass (''<|assistant|>'' @ nl)"

definition chat_zephyr :: "chat_message list \<Rightarrow> bool \<Rightarrow> string" where
  "chat_zephyr chat add_ass =
     concat (map (\<lambda>m. ''<|'' @ role m @ ''|>'' @ nl @ content m @ ''<|endoftext|>'' @ nl) chat) @
     ass_prompt add_ass (''<|assistant|>'' @ nl)"

text \<open>
  \<open>message == chat.front()\<close> compares pointers into the message array, so it holds for
  the first message only: the flag says whether a message was seen.
\<close>

definition monarch_step :: "string \<times> bool \<Rightarrow> chat_message \<Rightarrow> string \<times> bool" where
  "monarch_step = (\<lambda>(ss, seen) m.
     let bos = (if \<not> seen then [] else ''<s>'')
     in (ss @ bos @ role m @ nl @ content m @ ''</s>'' @ nl, True))"

definition chat_monarch :: "chat_message list \<Rightarrow> bool \<Rightarrow> string" where
  "chat_monarch chat add_ass =
     fst (foldl monarch_step ([], False) chat) @ ass_prompt add_ass (''<s>assistant'' @ nl)"

definition gemma_step :: "string \<times> string \<Rightarrow> chat_message \<Rightarrow> string \<times> string" where
  "gemma_step = (\<lambda>(ss, system_prompt) m.
     if role m = ''system'' then (ss, system_prompt @ trim (content m))
     else
       let r = (if role m = ''assistant'' then ''model'' else role m);
           ss = ss @ ''<start_of_turn>'' @ r @ nl;
           (ss, system_prompt) =
             (if system_prompt \<noteq> [] \<and> r \<noteq> ''model''
              then (ss @ system_prompt @ nl2, []) else (ss, system_prompt))
       in (ss @ trim (content m) @ ''<end_of_turn>'' @ nl, system_prompt))"

definition chat_gemma :: "chat_message list \<Rightarrow> bool \<Rightarrow> string" where
  "chat_gemma chat add_ass =
     fst (foldl gemma_step ([], []) chat) @ ass_prompt add_ass (''<start_of_turn>model'' @ nl)"

definition orion_step :: "string \<times> string \<Rightarrow> chat_message \<Rightarrow> string \<times> string" where
  "orion_step = (\<lambda>(ss, system_prompt) m.
     if role m = ''system'' then (ss, system_prompt @ content m)
     else if role m = ''user'' then
       (let ss = ss @ ''Human: '';
            (ss, system_prompt) =
              (if system_prompt \<noteq> [] then (ss @ system_prompt @ nl2, []) else (ss, system_prompt))
        in (ss @ content m @ nl2 @ ''Assistant: </s>'', system_prompt))
     else (ss @ content m @ ''</s>'', system_prompt))"

definition chat_orion :: "chat_message list \<Rightarrow> bool \<Rightarrow> string" where
  "chat_orion chat add_ass = fst (foldl orion_step ([], []) chat)"

text \<open>\<open>role[0] = toupper(role[0])\<close>; on the empty string it rewrites the terminator.\<close>

definition capitalise :: "string \<Rightarrow> string" where
  "capitalise r = (case r of [] \<Rightarrow> [] | c # cs \<Rightarrow> toupper c # cs)"

definition chat_openchat :: "chat_message list \<Rightarrow> bool \<Rightarrow> string" where
  "chat_openchat chat add_ass =
     concat (map (\<lambda>m.
       if role m = ''system'' then content m @ ''<|end_of_turn|>''
       else ''GPT4 Correct '' @ capitalise (role m) @ '': '' @ content m @ ''<|end_of_turn|>'') chat) @
     ass_prompt add_ass ''GPT4 Correct Assistant:''"

definition chat_vicuna :: "llm_chat_template \<Rightarrow> chat_message list \<Rightarrow> bool \<Rightarrow> string" where
  "chat_vicuna tmpl chat add_ass =
     concat (map (\<lambda>m.
       if role m = ''system'' then
         (if tmpl = TMPL_VICUNA_ORCA then ''SYSTEM: '' @ content m @ nl else content m @ nl2)
       else if role m = ''user'' then ''USER: '' @ content m @ nl
       else if role m = ''assistant'' then ''ASSISTANT: '' @ content m @ ''</s>'' @ nl
       else []) chat) @
     ass_prompt add_ass ''ASSISTANT:''"

definition chat_deepseek :: "chat_message list \<Rightarrow> bool \<Rightarrow> string" where
  "chat_deepseek chat add_ass =
     concat (map (\<lambda>m.
       if role m = ''system'' then content m
       else if role m = ''user'' then ''### Instruction:'' @ nl @ content m @ nl
       else if role m = ''assistant'' then ''### Response:'' @ nl @ content m @ nl @ ''<|EOT|>'' @ nl
       else []) chat) @
     ass_prompt add_ass (''### Response:'' @ nl)"

definition chat_command_r :: "chat_message list \<Rightarrow> bool \<Rightarrow> string" where
  "chat_command_r chat add_ass =
     concat (map (\<lambda>m.
       if role m = ''system'' then
         ''<|START_OF_TURN_TOKEN|><|SYSTEM_TOKEN|>'' @ trim (content m) @ ''<|END_OF_TURN_TOKEN|>''
       else if role m = ''user'' then
         ''<|START_OF_TURN_TOKEN|><|USER_TOKEN|>'' @ trim (content m) @ ''<|END_OF_TURN_TOKEN|>''
       else if role m = ''assistant'' then
         ''<|START_OF_TURN_TOKEN|><|CHATBOT_TOKEN|>'' @ trim (content m) @ ''<|END_OF_TURN_TOKEN|>''
       else []) chat) @
     ass_prompt add_ass ''<|START_OF_TURN_TOKEN|><|CHATBOT_TOKEN|>''"

definition chat_llama3 :: "chat_message list \<Rightarrow> bool \<Rightarrow> string" where
  "chat_llama3 chat add_ass =
     concat (map (\<lambda>m. ''<|start_header_id|>'' @ role m @ ''<|end_header_id|>'' @ nl2 @
       trim (content m) @ ''<|eot_id|>'') chat) @
     ass_prompt add_ass (''<|start_header_id|>assistant<|end_header_id|>'' @ nl2)"

definition chat_chatglm3 :: "chat_message list \<Rightarrow> bool \<Rightarrow> string" where
  "chat_chatglm3 chat add_ass =
     ''[gMASK]'' @ ''sop'' @
     concat (map (\<lambda>m. ''<|'' @ role m @ ''|>'' @ nl @ '' '' @ content m) chat) @
     ass_prompt add_ass ''<|assistant|>''"

definition chat_chatglm4 :: "chat_message list \<Rightarrow> bool \<Rightarrow> string" where
  "chat_chatglm4 chat add_ass =
     ''[gMASK]'' @ ''<sop>'' @
     concat (map (\<lambda>m. ''<|'' @ role m @ ''|>'' @ nl @ content m) chat) @
     ass_prompt add_ass (''<|assistant|>'' @ nl)"

definition chat_glmedge :: "chat_message list \<Rightarrow> bool \<Rightarrow> string" where
  "chat_glmedge chat add_ass =
     concat (map (\<lambda>m. ''<|'' @ role m @ ''|>'' @ nl @ content m) chat) @
     ass_prompt add_ass ''<|assistant|>''"

definition chat_minicpm :: "chat_message list \<Rightarrow> bool \<Rightarrow> string" where
  "chat_minicpm chat add_ass =
     concat (map (\<lambda>m.
       if role m = ''user'' then LU8_user @ trim (content m) @ ''<AI>''
       else trim (content m)) chat)"

definition chat_deepseek2 :: "chat_message list \<Rightarrow> bool \<Rightarrow> string" where
  "chat_deepseek2 chat add_ass =
     concat (map (\<lambda>m.
       if role m = ''system'' then content m @ nl2
       else if role m = ''user'' then ''User: '' @ content m @ nl2
       else if role m = ''assistant'' then ''Assistant: '' @ content m @ LU8_eos
       else []) chat) @
     ass_prompt add_ass ''Assistant:''"

definition chat_deepseek3 :: "chat_message list \<Rightarrow> bool \<Rightarrow> string" where
  "chat_deepseek3 chat add_ass =
     concat (map (\<lambda>m.
       if role m = ''system'' then content m @ nl2
       else if role m = ''user'' then LU8_User @ content m
       else if role m = ''assistant'' then LU8_Assistant @ content m @ LU8_eos
       else []) chat) @
     ass_prompt add_ass LU8_Assistant"

definition chat_exaone3 :: "chat_message list \<Rightarrow> bool \<Rightarrow> string" where
  "chat_exaone3 chat add_ass =
     concat (map (\<lambda>m.
       if role m = ''system'' then ''[|system|]'' @ trim (content m) @ ''[|endofturn|]'' @ nl
       else if role m = ''user'' then ''[|user|]'' @ trim (content m) @ nl
       else if role m = ''assistant'' then ''[|assistant|]'' @ trim (content m) @ ''[|endofturn|]'' @ nl
       else []) chat) @
     ass_prompt add_ass ''[|assistant|]''"

definition chat_exaone4 :: "chat_message list \<Rightarrow> bool \<Rightarrow> string" where
  "chat_exaone4 chat add_ass =
     concat (map (\<lambda>m.
       if role m = ''system'' then ''[|system|]'' @ trim (content m) @ ''[|endofturn|]'' @ nl
       else if role m = ''user'' then ''[|user|]'' @ trim (content m) @ nl
       else if role m = ''assistant'' then ''[|assistant|]'' @ trim (content m) @ ''[|endofturn|]'' @ nl
       else if role m = ''tool'' then ''[|tool|]'' @ trim (content m) @ ''[|endofturn|]'' @ nl
       else []) chat) @
     ass_prompt add_ass ''[|assistant|]''"

text \<open>The loop over indices tests \<open>i == chat.size() - 1\<close>: the rest of the list is empty.\<close>

fun rwkv_loop :: "chat_message list \<Rightarrow> string" where
  "rwkv_loop [] = []"
| "rwkv_loop (m # rest) =
     (if role m = ''system'' then ''System: '' @ trim (content m) @ nl2
      else if role m = ''user'' then
        ''User: '' @ trim (content m) @ nl2 @ (if rest = [] then ''Assistant:'' else [])
      else if role m = ''assistant'' then ''Assistant: '' @ trim (content m) @ nl2
      else []) @ rwkv_loop rest"

definition chat_rwkv_world :: "chat_message list \<Rightarrow> bool \<Rightarrow> string" where
  "chat_rwkv_world chat add_ass = rwkv_loop chat"

definition chat_granite :: "chat_message list \<Rightarrow> bool \<Rightarrow> string" where
  "chat_granite chat add_ass =
     concat (map (\<lambda>m. ''<|start_of_role|>'' @ role m @ ''<|end_of_role|>'' @
       (if role m = ''assistant_tool_call'' then ''<|tool_call|>'' else []) @
       content m @ ''<|end_of_text|>'' @ nl) chat) @
     ass_prompt add_ass (''<|start_of_role|>assistant<|end_of_role|>'' @ nl)"

definition chat_gigachat :: "chat_message list \<Rightarrow> bool \<Rightarrow> string" where
  "chat_gigachat chat add_ass =
     (let has_system = (chat \<noteq> [] \<and> role (hd chat) = ''system'') in
      (if has_system then ''<s>'' @ content (hd chat) @ ''<|message_sep|>'' else ''<s>'') @
      concat (map (\<lambda>m.
        if role m = ''user'' then
          ''user<|role_sep|>'' @ content m @ ''<|message_sep|>'' @
          ''available functions<|role_sep|>[]<|message_sep|>''
        else if role m = ''assistant'' then
          ''assistant<|role_sep|>'' @ content m @ ''<|message_sep|>''
        else []) (drop (if has_system then 1 else 0) chat)) @
      ass_prompt add_ass ''assistant<|role_sep|>'')"

definition chat_megrez :: "chat_message list \<Rightarrow> bool \<Rightarrow> string" where
  "chat_megrez chat add_ass =
     concat (map (\<lambda>m. ''<|role_start|>'' @ role m @ ''<|role_end|>'' @ content m @ ''<|turn_end|>'') chat) @
     ass_prompt add_ass ''<|role_start|>assistant<|role_end|>''"

definition chat_yandex :: "chat_message list \<Rightarrow> bool \<Rightarrow> string" where
  "chat_yandex chat add_ass =
     ''<s>'' @
     concat (map (\<lambda>m.
       if role m = ''user'' then yandex_user @ content m @ nl2
       else if role m = ''assistant'' then yandex_assistant @ '' '' @ content m @ nl2
       else []) chat) @
     ass_prompt add_ass (yandex_assistant @ ''[SEP]'')"

definition chat_bailing :: "chat_message list \<Rightarrow> bool \<Rightarrow> string" where
  "chat_bailing chat add_ass =
     concat (map (\<lambda>m.
       ''<role>'' @ (if role m = ''user'' then ''HUMAN'' else map toupper (role m)) @ ''</role>'' @
       content m) chat) @
     ass_prompt add_ass ''<role>ASSISTANT</role>''"

definition chat_llama4 :: "chat_message list \<Rightarrow> bool \<Rightarrow> string" where
  "chat_llama4 chat add_ass =
     concat (map (\<lambda>m. ''<|header_start|>'' @ role m @ ''<|header_end|>'' @ nl2 @
       trim (content m) @ ''<|eot|>'') chat) @
     ass_prompt add_ass (''<|header_start|>assistant<|header_end|>'' @ nl2)"

definition chat_smolvlm :: "chat_message list \<Rightarrow> bool \<Rightarrow> string" where
  "chat_smolvlm chat add_ass =
     ''<|im_start|>'' @
     concat (map (\<lambda>m.
       if role m = ''system'' then content m @ nl2
       else if role m = ''user'' then ''User: '' @ content m @ ''<end_of_utterance>'' @ nl
       else ''Assistant: '' @ content m @ ''<end_of_utterance>'' @ nl) chat) @
     ass_prompt add_ass ''Assistant:''"

definition chat_dots1 :: "chat_message list \<Rightarrow> bool \<Rightarrow> string" where
  "chat_dots1 chat add_ass =
     concat (map (\<lambda>m.
       if role m = ''system'' then ''<|system|>'' @ content m @ ''<|endofsystem|>''
       else if role m = ''user'' then ''<|userprompt|>'' @ content m @ ''<|endofuserprompt|>''
       else ''<|response|>'' @ content m @ ''<|endofresponse|>'') chat) @
     ass_prompt add_ass ''<|response|>''"

definition chat_hunyuan_moe :: "chat_message list \<Rightarrow> bool \<Rightarrow> string" where
  "chat_hunyuan_moe chat add_ass =
     concat (map (\<lambda>m.
       if role m = ''system'' then ''<|startoftext|>'' @ content m @ ''<|extra_4|>''
       else if role m = ''assistant'' then ''<|startoftext|>'' @ content m @ ''<|eos|>''
       else ''<|startoftext|>'' @ content m @ ''<|extra_0|>'') chat)"

definition chat_kimi_k2 :: "chat_message list \<Rightarrow> bool \<Rightarrow> string" where
  "chat_kimi_k2 chat add_ass =
     concat (map (\<lambda>m.
       (if role m = ''system'' then ''<|im_system|>system<|im_middle|>''
        else if role m = ''user'' then ''<|im_user|>user<|im_middle|>''
        else if role m = ''assistant'' then ''<|im_assistant|>assistant<|im_middle|>''
        else if role m = ''tool'' then ''<|im_system|>tool<|im_middle|>''
        else []) @ content m @ ''<|im_end|>'') chat) @
     ass_prompt add_ass ''<|im_assistant|>assistant<|im_middle|>''"

text \<open>
  \<open>llm_chat_apply_template\<close> with its string result; \<open>None\<close> is the
  \<open>-1\<close> of an unsupported template. The C++ function returns the text's size.
\<close>

definition llm_chat_apply_template ::
  "llm_chat_template \<Rightarrow> chat_message list \<Rightarrow> bool \<Rightarrow> string option" where
  "llm_chat_apply_template tmpl chat add_ass =
     (case tmpl of
        TMPL_CHATML \<Rightarrow> Some (chat_chatml chat add_ass)
      | TMPL_LLAMA_2 \<Rightarrow> Some (chat_llama2 TMPL_LLAMA_2 chat add_ass)
      | TMPL_LLAMA_2_SYS \<Rightarrow> Some (chat_llama2 TMPL_LLAMA_2_SYS chat add_ass)
      | TMPL_LLAMA_2_SYS_BOS \<Rightarrow> Some (chat_llama2 TMPL_LLAMA_2_SYS_BOS chat add_ass)
      | TMPL_LLAMA_2_SYS_STRIP \<Rightarrow> Some (chat_llama2 TMPL_LLAMA_2_SYS_STRIP chat add_ass)
      | TMPL_MISTRAL_V1 \<Rightarrow> Some (chat_mistral TMPL_MISTRAL_V1 chat add_ass)
      | TMPL_MISTRAL_V3 \<Rightarrow> Some (chat_mistral TMPL_MISTRAL_V3 chat add_ass)
      | TMPL_MISTRAL_V3_TEKKEN \<Rightarrow> Some (chat_mistral TMPL_MISTRAL_V3_TEKKEN chat add_ass)
      | TMPL_MISTRAL_V7 \<Rightarrow> Some (chat_mistral_v7 TMPL_MISTRAL_V7 chat add_ass)
      | TMPL_MISTRAL_V7_TEKKEN \<Rightarrow> Some (chat_mistral_v7 TMPL_MISTRAL_V7_TEKKEN chat add_ass)
      | TMPL_PHI_3 \<Rightarrow> Some (chat_phi3 chat add_ass)
      | TMPL_PHI_4 \<Rightarrow> Some (chat_phi4 chat add_ass)
      | TMPL_FALCON_3 \<Rightarrow> Some (chat_falcon3 chat add_ass)
      | TMPL_ZEPHYR \<Rightarrow> Some (chat_zephyr chat add_ass)
      | TMPL_MONARCH \<Rightarrow> Some (chat_monarch chat add_ass)
      | TMPL_GEMMA \<Rightarrow> Some (chat_gemma chat add_ass)
      | TMPL_ORION \<Rightarrow> Some (chat_orion chat add_ass)
      | TMPL_OPENCHAT \<Rightarrow> Some (chat_openchat chat add_ass)
      | TMPL_VICUNA \<Rightarrow> Some (chat_vicuna TMPL_VICUNA chat add_ass)
      | TMPL_VICUNA_ORCA \<Rightarrow> Some (chat_vicuna TMPL_VICUNA_ORCA chat add_ass)
      | TMPL_DEEPSEEK \<Rightarrow> Some (chat_deepseek chat add_ass)
      | TMPL_DEEPSEEK_2 \<Rightarrow> Some (chat_deepseek2 chat add_ass)
      | TMPL_DEEPSEEK_3 \<Rightarrow> Some (chat_deepseek3 chat add_ass)
      | TMPL_COMMAND_R \<Rightarrow> Some (chat_command_r chat add_ass)
      | TMPL_LLAMA_3 \<Rightarrow> Some (chat_llama3 chat add_ass)
      | TMPL_CHATGLM_3 \<Rightarrow> Some (chat_chatglm3 chat add_ass)
      | TMPL_CHATGLM_4 \<Rightarrow> Some (chat_chatglm4 chat add_ass)
      | TMPL_GLMEDGE \<Rightarrow> Some (chat_glmedge chat add_ass)
      | TMPL_MINICPM \<Rightarrow> Some (chat_minicpm chat add_ass)
      | TMPL_EXAONE_3 \<Rightarrow> Some (chat_exaone3 chat add_ass)
      | TMPL_EXAONE_4 \<Rightarrow> Some (chat_exaone4 chat add_ass)
      | TMPL_RWKV_WORLD \<Rightarrow> Some (chat_rwkv_world chat add_ass)
      | TMPL_GRANITE \<Rightarrow> Some (chat_granite chat add_ass)
      | TMPL_GIGACHAT \<Rightarrow> Some (chat_gigachat chat add_ass)
      | TMPL_MEGREZ \<Rightarrow> Some (chat_megrez chat add_ass)
      | TMPL_YANDEX \<Rightarrow> Some (chat_yandex chat add_ass)
      | TMPL_BAILING \<Rightarrow> Some (chat_bailing chat add_ass)
      | TMPL_LLAMA4 \<Rightarrow> Some (chat_llama4 chat add_ass)
      | TMPL_SMOLVLM \<Rightarrow> Some (chat_smolvlm chat add_ass)
      | TMPL_DOTS1 \<Rightarrow> Some (chat_dots1 chat add_ass)
      | TMPL_HUNYUAN_MOE \<Rightarrow> Some (chat_hunyuan_moe chat add_ass)
      | TMPL_KIMI_K2 \<Rightarrow> Some (chat_kimi_k2 chat add_ass)
      | TMPL_UNKNOWN \<Rightarrow> None)"

text \<open>
  \<open>llama_chat_apply_template\<close> of \<open>llama.cpp\<close>: a null template is
  \<open>chatml\<close>; a null or empty buffer is not written. The result is the returned
  \<open>int32_t\<close> and the buffer after the call.
\<close>

definition llama_chat_apply_template ::
  "string option \<Rightarrow> chat_message list \<Rightarrow> bool \<Rightarrow> string option \<Rightarrow> int \<Rightarrow> int \<times> string option" where
  "llama_chat_apply_template tmpl chat add_ass buf len =
     (let curr_tmpl = (case tmpl of None \<Rightarrow> ''chatml'' | Some t \<Rightarrow> t);
          detected = llm_chat_detect_template curr_tmpl
      in case llm_chat_apply_template detected chat add_ass of
           None \<Rightarrow> (-1, buf)
         | Some formatted \<Rightarrow>
             (let res = int32_of_size (length formatted) in
              if res < 0 then (res, buf)
              else (res, case buf of None \<Rightarrow> None
                         | Some b \<Rightarrow> Some (if len > 0 then strncpy b formatted (nat len) else b))))"

text \<open>
  \<open>llama_chat_builtin_templates\<close>: the names in the order of the \<open>std::map\<close>, at
  most \<open>len\<close> of them, and the number of templates.
\<close>

definition llama_chat_builtin_templates :: "nat \<Rightarrow> int \<times> string list" where
  "llama_chat_builtin_templates len =
     (int (length LLM_CHAT_TEMPLATES),
      take (min len (length LLM_CHAT_TEMPLATES)) (sort (map fst LLM_CHAT_TEMPLATES)))"

section \<open>Lemmas on the pieces\<close>

lemma trim_sublist [simp, sub_intros]: "sublist (trim s) s"
proof -
  have "suffix (dropWhile isspace s) s"
    by (rule suffix_dropWhile)
  moreover have "prefix (trim s) (dropWhile isspace s)"
    unfolding trim_def suffix_to_prefix [symmetric]
    by (metis rev_rev_ident suffix_dropWhile suffix_to_prefix)
  ultimately show ?thesis
    unfolding prefix_def suffix_def sublist_def by metis
qed

lemma nul_free_sublist: "sublist a b \<Longrightarrow> nul_free b \<Longrightarrow> nul_free a"
  by (auto simp: sublist_def)

lemma nul_free_trim [simp]: "nul_free s \<Longrightarrow> nul_free (trim s)"
  by (rule nul_free_sublist [OF trim_sublist])

lemma of_char_toupper: "toupper c = CHR 0x00 \<Longrightarrow> c = CHR 0x00"
proof -
  assume z: "toupper c = CHR 0x00"
  show ?thesis
  proof (cases "97 \<le> (of_char c :: nat) \<and> (of_char c :: nat) \<le> 122")
    case True
    have "(of_char c :: nat) - 32 < 256"
      using True by arith
    moreover have "(of_char (char_of ((of_char c :: nat) - 32) :: char) :: nat) = 0"
      using z True by (simp add: toupper_def Let_def)
    ultimately have "(of_char c :: nat) - 32 = 0"
      by simp
    with True show ?thesis by simp
  next
    case False
    with z show ?thesis by (auto simp: toupper_def Let_def split: if_splits)
  qed
qed

lemma nul_free_map_toupper [simp]: "nul_free r \<Longrightarrow> nul_free (map toupper r)"
  by (auto simp: nul_free_def dest: of_char_toupper [OF sym])

lemma nul_free_capitalise [simp]: "nul_free r \<Longrightarrow> nul_free (capitalise r)"
  by (auto simp: capitalise_def split: list.splits dest: of_char_toupper)

definition msg_nul_free :: "chat_message \<Rightarrow> bool" where
  "msg_nul_free m = (nul_free (role m) \<and> nul_free (content m))"

lemma msg_nul_free_simps [simp]:
  "msg_nul_free \<lparr>role = r, content = c\<rparr> \<longleftrightarrow> nul_free r \<and> nul_free c"
  by (simp add: msg_nul_free_def)

lemma msg_nul_freeD [simp]:
  "msg_nul_free m \<Longrightarrow> nul_free (role m)"
  "msg_nul_free m \<Longrightarrow> nul_free (content m)"
  by (simp_all add: msg_nul_free_def)

section \<open>The contract of a rendering loop\<close>

text \<open>
  What every loop over the messages promises about the stream it writes: it only appends,
  it writes the (trimmed) content of a user message, and it writes no zero byte unless a
  message holds one. \<open>carried_nul_free\<close> says the same of the loop's local variable.
\<close>

locale chat_loop =
  fixes step :: "string \<times> 's \<Rightarrow> chat_message \<Rightarrow> string \<times> 's"
    and carried_nul_free :: "'s \<Rightarrow> bool"
  assumes step_grows: "prefix (fst s) (fst (step s m))"
    and step_user: "role m = ''user'' \<Longrightarrow> sublist (trim (content m)) (fst (step s m))"
    and step_nul_free: "nul_free (fst s) \<Longrightarrow> carried_nul_free (snd s) \<Longrightarrow> msg_nul_free m \<Longrightarrow>
      nul_free (fst (step s m)) \<and> carried_nul_free (snd (step s m))"
begin

lemma loop_grows: "prefix (fst s) (fst (foldl step s ms))"
proof (induction ms arbitrary: s)
  case Nil
  show ?case by simp
next
  case (Cons m ms)
  then show ?case
    by (simp, meson prefix_order.trans step_grows)
qed

lemma loop_append: "prefix (fst (foldl step s ms)) (fst (foldl step s (ms @ ns)))"
  by (simp add: loop_grows)

lemma loop_user:
  assumes "m \<in> set ms" and "role m = ''user''"
  shows "sublist (trim (content m)) (fst (foldl step s ms))"
proof -
  from assms(1) obtain as bs where ms: "ms = as @ m # bs"
    by (meson split_list)
  have "sublist (trim (content m)) (fst (step (foldl step s as) m))"
    by (rule step_user [OF assms(2)])
  then have "sublist (trim (content m)) (fst (foldl step (step (foldl step s as) m) bs))"
    using loop_grows by (rule prefix_sublist_trans)
  then show ?thesis by (simp add: ms)
qed

lemma loop_nul_free:
  assumes "nul_free (fst s)" and "carried_nul_free (snd s)" and "\<forall>m \<in> set ms. msg_nul_free m"
  shows "nul_free (fst (foldl step s ms))"
  using assms
proof (induction ms arbitrary: s)
  case Nil
  then show ?case by simp
next
  case (Cons m ms)
  then show ?case using step_nul_free [of s m] by simp
qed

end

interpretation mistral: chat_loop "mistral_step tmpl" "\<lambda>_. True" for tmpl
  by unfold_locales (auto simp: mistral_step_def Let_def sub_intros)

interpretation llama2: chat_loop "llama2_step tmpl" "\<lambda>_. True" for tmpl
  by unfold_locales (auto simp: llama2_step_def Let_def sub_intros)

interpretation monarch: chat_loop monarch_step "\<lambda>_. True"
  by unfold_locales (auto simp: monarch_step_def Let_def sub_intros)

interpretation gemma: chat_loop gemma_step nul_free
  by unfold_locales (auto simp: gemma_step_def Let_def sub_intros)

interpretation orion: chat_loop orion_step nul_free
  by unfold_locales (auto simp: orion_step_def Let_def sub_intros)

lemmas chat_stateful =
  chat_mistral_def chat_llama2_def chat_monarch_def chat_gemma_def chat_orion_def

lemmas chat_stateless =
  chat_chatml_def chat_mistral_v7_def chat_phi3_def chat_phi4_def chat_falcon3_def chat_zephyr_def
  chat_openchat_def chat_vicuna_def chat_deepseek_def chat_command_r_def chat_llama3_def
  chat_chatglm3_def chat_chatglm4_def chat_glmedge_def chat_minicpm_def chat_deepseek2_def
  chat_deepseek3_def chat_exaone3_def chat_exaone4_def chat_granite_def chat_megrez_def
  chat_yandex_def chat_bailing_def chat_llama4_def chat_smolvlm_def chat_dots1_def
  chat_hunyuan_moe_def chat_kimi_k2_def

section \<open>Correctness of the rendering\<close>

lemma apply_template_supported:
  "llm_chat_apply_template t chat a = None \<longleftrightarrow> t = TMPL_UNKNOWN"
  by (simp add: llm_chat_apply_template_def split: llm_chat_template.split)

lemma gigachat_split:
  "chat_gigachat chat a = chat_gigachat chat False @ ass_prompt a ''assistant<|role_sep|>''"
  by (simp add: chat_gigachat_def Let_def)

lemma gigachat_prefix: "prefix (chat_gigachat chat False) (chat_gigachat (chat @ ext) a)"
  by (cases chat) (auto simp: chat_gigachat_def Let_def)

lemma rwkv_user: "m \<in> set ms \<Longrightarrow> role m = ''user'' \<Longrightarrow> sublist (trim (content m)) (rwkv_loop ms)"
  by (induction ms) (auto simp: sub_intros)

lemma rwkv_nul_free: "\<forall>m \<in> set ms. msg_nul_free m \<Longrightarrow> nul_free (rwkv_loop ms)"
  by (induction ms) auto


lemma stateful_prefix:
  "prefix (chat_mistral t chat False) (chat_mistral t (chat @ ext) a)"
  "prefix (chat_llama2 t chat False) (chat_llama2 t (chat @ ext) a)"
  "prefix (chat_monarch chat False) (chat_monarch (chat @ ext) a)"
  "prefix (chat_gemma chat False) (chat_gemma (chat @ ext) a)"
  "prefix (chat_orion chat False) (chat_orion (chat @ ext) a)"
  by (simp_all add: chat_stateful prefix_prefix mistral.loop_grows llama2.loop_grows
      monarch.loop_grows gemma.loop_grows orion.loop_grows)

lemma apply_template_prefix:
  assumes "llm_chat_apply_template t chat False = Some p"
    and "llm_chat_apply_template t (chat @ ext) a = Some q"
    and "t \<noteq> TMPL_RWKV_WORLD"
  shows "prefix p q"
  using assms
  by (cases t)
    (auto simp: llm_chat_apply_template_def stateful_prefix gigachat_prefix chat_stateless Let_def)

lemma stateful_user:
  assumes "m \<in> set chat" and "role m = ''user''"
  shows "sublist (trim (content m)) (chat_mistral t chat a)"
    and "sublist (trim (content m)) (chat_llama2 t chat a)"
    and "sublist (trim (content m)) (chat_monarch chat a)"
    and "sublist (trim (content m)) (chat_gemma chat a)"
    and "sublist (trim (content m)) (chat_orion chat a)"
  unfolding chat_stateful
  using mistral.loop_user [OF assms] llama2.loop_user [OF assms] monarch.loop_user [OF assms]
    gemma.loop_user [OF assms] orion.loop_user [OF assms]
  by (auto intro: sub_intros)

lemma gigachat_user:
  assumes "m \<in> set chat" and "role m = ''user''"
  shows "sublist (trim (content m)) (chat_gigachat chat a)"
proof -
  have "m \<in> set (drop (if chat \<noteq> [] \<and> role (hd chat) = ''system'' then 1 else 0) chat)"
    using assms by (cases chat) auto
  then show ?thesis
    unfolding chat_gigachat_def Let_def
    by (intro sublist_appI2 [OF sublist_appI1] sublist_concat_map) (auto simp: assms sub_intros)
qed

lemma apply_template_user:
  assumes "llm_chat_apply_template t chat a = Some q"
    and m: "m \<in> set chat" "role m = ''user''"
  shows "sublist (trim (content m)) q"
  using assms(1)
  by (cases t)
    (auto simp: llm_chat_apply_template_def stateful_user [OF m] gigachat_user [OF m]
      chat_rwkv_world_def rwkv_user [OF m] chat_stateless Let_def m sub_intros
      sublist_concat_map [OF m(1)] simp del: append.simps)


lemma nul_free_literals [simp]:
  "nul_free LU8_user" "nul_free LU8_eos" "nul_free LU8_User" "nul_free LU8_Assistant"
  "nul_free yandex_user" "nul_free yandex_assistant"
  by (simp_all add: LU8_user_def LU8_eos_def LU8_User_def LU8_Assistant_def LU8_bar_def LU8_low_def
      yandex_user_def yandex_assistant_def)

lemma stateful_nul_free:
  assumes "\<forall>m \<in> set chat. msg_nul_free m"
  shows "nul_free (chat_mistral t chat a)"
    and "nul_free (chat_llama2 t chat a)"
    and "nul_free (chat_monarch chat a)"
    and "nul_free (chat_gemma chat a)"
    and "nul_free (chat_orion chat a)"
  using assms
  by (simp_all add: chat_stateful mistral.loop_nul_free llama2.loop_nul_free
      monarch.loop_nul_free gemma.loop_nul_free orion.loop_nul_free)

lemma gigachat_nul_free:
  assumes "\<forall>m \<in> set chat. msg_nul_free m"
  shows "nul_free (chat_gigachat chat a)"
proof -
  have "\<forall>m \<in> set (drop n chat). msg_nul_free m" for n
    using assms set_drop_subset by fast
  then show ?thesis
    using assms by (cases chat) (auto simp: chat_gigachat_def Let_def intro!: nul_free_concat_map)
qed

lemma apply_template_nul_free:
  assumes "llm_chat_apply_template t chat a = Some q"
    and m: "\<forall>m \<in> set chat. msg_nul_free m"
  shows "nul_free q"
  using assms(1)
  by (cases t)
    (use m in \<open>auto simp: llm_chat_apply_template_def stateful_nul_free [OF m] gigachat_nul_free [OF m]
      chat_rwkv_world_def rwkv_nul_free [OF m] chat_stateless Let_def
      intro!: nul_free_concat_map\<close>)

text \<open>The C interface on a supported template.\<close>

lemma llama_chat_apply_template_Some:
  assumes "llm_chat_apply_template (llm_chat_detect_template (case tmpl of None \<Rightarrow> ''chatml'' | Some t \<Rightarrow> t))
      chat a = Some q"
    and "length q < 2 ^ 31"
  shows "llama_chat_apply_template tmpl chat a buf len =
    (int (length q), case buf of None \<Rightarrow> None
       | Some b \<Rightarrow> Some (if len > 0 then strncpy b q (nat len) else b))"
  using assms by (simp add: llama_chat_apply_template_def Let_def)

section \<open>Properties\<close>

text \<open>
  Every name of the built-in table is detected as its own template: the names a caller may
  pass (the ones \<open>llama_chat_builtin_templates\<close> lists) and the detection agree.
\<close>

theorem chat_names_detected:
  "map (\<lambda>(name, t). llm_chat_detect_template name) LLM_CHAT_TEMPLATES = map snd LLM_CHAT_TEMPLATES"
  by (simp add: llm_chat_detect_template_def llm_chat_template_from_str_def LLM_CHAT_TEMPLATES_def)

text \<open>
  The renderer supports exactly the templates the enum names: it fails (the C++ \<open>-1\<close>)
  if and only if the template is \<open>UNKNOWN\<close>, whatever the conversation.
\<close>

theorem chat_template_supported:
  "llm_chat_apply_template t chat add_ass = None \<longleftrightarrow> t = TMPL_UNKNOWN"
  by (rule apply_template_supported)

text \<open>
  C19. Incremental rendering. For every template but RWKV_WORLD, the text of a conversation
  without the generation prompt is a prefix of the text of every longer conversation, so the
  text of the new messages alone can be appended to what the model has read. \<open>LLMInference\<close>
  relies on it: it feeds the model the rendered text from the old length on.
\<close>

theorem chat_render_incremental:
  assumes "llm_chat_apply_template t chat False = Some p"
    and "llm_chat_apply_template t (chat @ ext) add_ass = Some q"
    and "t \<noteq> TMPL_RWKV_WORLD"
  shows "q = p @ drop (length p) q"
  using apply_template_prefix [OF assms] by (auto simp: prefix_def)

theorem chat_render_incremental_witness:
  "\<exists>p q. llm_chat_apply_template TMPL_CHATML [\<lparr>role = ''user'', content = ''a''\<rparr>] False = Some p \<and>
     llm_chat_apply_template TMPL_CHATML
       ([\<lparr>role = ''user'', content = ''a''\<rparr>] @ [\<lparr>role = ''assistant'', content = ''b''\<rparr>]) True = Some q \<and>
     q = p @ drop (length p) q"
proof -
  have 1: "llm_chat_apply_template TMPL_CHATML [\<lparr>role = ''user'', content = ''a''\<rparr>] False =
      Some (chat_chatml [\<lparr>role = ''user'', content = ''a''\<rparr>] False)"
    and 2: "llm_chat_apply_template TMPL_CHATML
       ([\<lparr>role = ''user'', content = ''a''\<rparr>] @ [\<lparr>role = ''assistant'', content = ''b''\<rparr>]) True =
      Some (chat_chatml ([\<lparr>role = ''user'', content = ''a''\<rparr>] @
        [\<lparr>role = ''assistant'', content = ''b''\<rparr>]) True)"
    by (simp_all add: llm_chat_apply_template_def)
  show ?thesis
    using chat_render_incremental [OF 1 2] 1 2 by blast
qed

text \<open>
  No template drops what the user wrote: the content of every user message, up to the
  whitespace at its ends, occurs in the rendered text.
\<close>

theorem chat_keeps_user_messages:
  assumes "llm_chat_apply_template t chat add_ass = Some q"
    and "m \<in> set chat" and "role m = ''user''"
  shows "sublist (trim (content m)) q"
  by (rule apply_template_user [OF assms])

theorem chat_keeps_user_messages_witness:
  "sublist (trim '' hi '') (chat_gemma [\<lparr>role = ''user'', content = '' hi ''\<rparr>] True)"
  using chat_keeps_user_messages
    [of TMPL_GEMMA "[\<lparr>role = ''user'', content = '' hi ''\<rparr>]" True _ "\<lparr>role = ''user'', content = '' hi ''\<rparr>"]
  by (simp add: llm_chat_apply_template_def)

text \<open>
  The C interface: for zero-free messages and a text below \<open>2^31\<close> bytes the call returns
  the text's length, and a buffer that is large enough holds the whole text in its first
  bytes and keeps its size.
\<close>

theorem chat_apply_buffer:
  assumes "llm_chat_apply_template (llm_chat_detect_template tmpl) chat add_ass = Some q"
    and "\<forall>m \<in> set chat. msg_nul_free m"
    and "length q < 2 ^ 31" and "length q \<le> length buf" and "0 < length buf"
  shows "\<exists>buf'. llama_chat_apply_template (Some tmpl) chat add_ass (Some buf) (int (length buf)) =
      (int (length q), Some buf') \<and> length buf' = length buf \<and> take (length q) buf' = q"
  using assms(3-5) apply_template_nul_free [OF assms(1,2)] llama_chat_apply_template_Some [of "Some tmpl"] assms(1)
  by (simp add: length_strncpy take_strncpy)

theorem chat_apply_buffer_witness:
  "\<exists>buf'. llama_chat_apply_template (Some ''glmedge'') [\<lparr>role = ''u'', content = ''a''\<rparr>] False
      (Some (replicate 8 CHR ''x'')) 8 = (7, Some buf') \<and>
    take (length (''<|u|>'' @ nl @ ''a'')) buf' = ''<|u|>'' @ nl @ ''a''"
proof -
  have "llm_chat_apply_template (llm_chat_detect_template ''glmedge'') [\<lparr>role = ''u'', content = ''a''\<rparr>] False
      = Some (''<|u|>'' @ nl @ ''a'')"
    by (simp add: llm_chat_detect_template_def llm_chat_template_from_str_def LLM_CHAT_TEMPLATES_def
        llm_chat_apply_template_def chat_glmedge_def)
  from chat_apply_buffer [OF this, of "replicate 8 CHR ''x''"] show ?thesis
    by auto
qed

end
