(* ===== verification/LLM_Inference.thy ===== *)
theory LLM_Inference
  imports Complex_Main Chat_Template
begin

text \<open>
  The app's inference engine, \<open>smollm/src/main/cpp/LLMInference.cpp\<close> and \<open>.h\<close>: the
  class \<open>LLMInference\<close> with its messages, its formatted prompt, its streamed response
  and its stop words, and one definition per method.

  The neural network, the sampler's random choice, the tokenizer of the loaded model and the
  clock are parameters: the record \<open>engine\<close> holds the functions of \<open>llama.h\<close> the class
  calls, over an abstract context state \<open>'c\<close>. A method that throws returns \<open>Inl\<close> with
  the error, and the state it had changed up to there.
\<close>

section \<open>UTF-8 validation of the pending bytes\<close>

text \<open>
  \<open>LLMInference::_isValidUtf8\<close>: the length announced by the leading byte (\<open>None\<close> for
  a byte that leads nothing), the inner loop over the continuation bytes, and the outer loop.
  The end of the list is the terminating zero byte.
\<close>

definition utf8_num :: "byte \<Rightarrow> nat option" where
  "utf8_num b =
     (if b AND 0x80 = 0x00 then Some 1
      else if b AND 0xE0 = 0xC0 then Some 2
      else if b AND 0xF0 = 0xE0 then Some 3
      else if b AND 0xF8 = 0xF0 then Some 4
      else None)"

fun utf8_conts :: "nat \<Rightarrow> byte list \<Rightarrow> byte list option" where
  "utf8_conts 0 bs = Some bs"
| "utf8_conts (Suc n) [] = None"
| "utf8_conts (Suc n) (b # bs) = (if b AND 0xC0 \<noteq> 0x80 then None else utf8_conts n bs)"

lemma utf8_conts_length: "utf8_conts n bs = Some r \<Longrightarrow> length bs = n + length r"
  by (induction n bs rule: utf8_conts.induct) (auto split: if_splits)

function utf8_loop :: "byte list \<Rightarrow> bool" where
  "utf8_loop [] = True"
| "utf8_loop (b # bs) =
     (if b = 0x00 then True
      else case utf8_num b of None \<Rightarrow> False
        | Some num \<Rightarrow> (case utf8_conts (num - 1) bs of None \<Rightarrow> False | Some r \<Rightarrow> utf8_loop r))"
  by pat_completeness auto
termination
  by (relation "measure length") (auto dest: utf8_conts_length)

definition isValidUtf8 :: "string option \<Rightarrow> bool" where
  "isValidUtf8 response =
     (case response of None \<Rightarrow> True | Some s \<Rightarrow> utf8_loop (bytes_of (c_str s)))"

section \<open>The class and the functions it calls\<close>

record 'c engine =
  llama_n_ctx :: "'c \<Rightarrow> uint32"
  llama_kv_self_used_cells :: "'c \<Rightarrow> int"
  llama_decode :: "'c \<Rightarrow> llama_token list \<Rightarrow> int \<times> 'c"
  llama_sampler_sample :: "'c \<Rightarrow> llama_token \<times> 'c"
  llama_vocab_is_eog :: "llama_token \<Rightarrow> bool"
  common_token_to_piece :: "llama_token \<Rightarrow> string"
  common_tokenize :: "string \<Rightarrow> llama_token list option"
  llama_model_chat_template :: "string option"

text \<open>
  \<open>_batch.token\<close> is a pointer: null in a new object, \<open>_promptTokens.data()\<close> after
  \<open>startCompletion\<close>, \<open>&_currToken\<close> after a generated token. The tokens it denotes
  are read through it when the batch is decoded.
\<close>

datatype token_ptr = Null | PromptTokens | CurrToken

text \<open>The sampler chain of \<open>loadModel\<close>; a \<open>float\<close> is its bit pattern.\<close>

datatype sampler_init = MinP uint32 nat | Temp uint32 | Dist uint32

datatype llm_error =
    LoadModelFailed
  | NewContextNull
  | TemplateFailed
  | TokenizeFailed
  | BadRange
  | ContextSizeReached
  | DecodeFailed

record 'c llm =
  ctx :: 'c
  sampler :: "sampler_init list"
  currToken :: llama_token
  batch_token :: token_ptr
  batch_n_tokens :: int
  messages :: "chat_message list"
  formattedMessages :: string
  promptTokens :: "llama_token list"
  prevLen :: int
  chatTemplate :: string
  response :: string
  cacheResponseTokens :: string
  storeChats :: bool
  responseGenerationTime :: int
  responseNumTokens :: int
  nCtxUsed :: int
  stopWords :: "string list"

definition batch_tokens :: "'c llm \<Rightarrow> llama_token list" where
  "batch_tokens s =
     (case batch_token s of Null \<Rightarrow> [] | PromptTokens \<Rightarrow> promptTokens s | CurrToken \<Rightarrow> [currToken s])"

text \<open>\<open>new LLMInference()\<close> zeroes the members; \<open>loadModel\<close> fills them.\<close>

record load_params =
  lp_minP :: uint32
  lp_temperature :: uint32
  lp_storeChats :: bool
  lp_contextSize :: int
  lp_chatTemplate :: string
  lp_nThreads :: int
  lp_useMmap :: bool
  lp_useMlock :: bool

definition loadModel ::
  "'c engine \<Rightarrow> (string \<Rightarrow> bool \<Rightarrow> bool \<Rightarrow> 'm option) \<Rightarrow> ('m \<Rightarrow> uint32 \<Rightarrow> int \<Rightarrow> 'c option) \<Rightarrow>
   string \<Rightarrow> load_params \<Rightarrow> llm_error + 'c llm" where
  "loadModel E llama_model_load_from_file llama_init_from_model model_path p =
     (case llama_model_load_from_file model_path (lp_useMmap p) (lp_useMlock p) of
        None \<Rightarrow> Inl LoadModelFailed
      | Some model \<Rightarrow>
          (case llama_init_from_model model (word_of_int (lp_contextSize p)) (lp_nThreads p) of
             None \<Rightarrow> Inl NewContextNull
           | Some c \<Rightarrow> Inr \<lparr>
               ctx = c,
               sampler = [MinP (lp_minP p) 1, Temp (lp_temperature p), Dist 0xFFFFFFFF],
               currToken = 0, batch_token = Null, batch_n_tokens = 0,
               messages = [],
               formattedMessages = replicate (unat (llama_n_ctx E c)) (CHR 0x00),
               promptTokens = [], prevLen = 0,
               chatTemplate = c_str (lp_chatTemplate p),
               response = [], cacheResponseTokens = [],
               storeChats = lp_storeChats p,
               responseGenerationTime = 0, responseNumTokens = 0, nCtxUsed = 0,
               stopWords = [] \<rparr>))"

text \<open>\<open>strdup\<close> copies a C string.\<close>

definition addChatMessage :: "string \<Rightarrow> string \<Rightarrow> 'c llm \<Rightarrow> 'c llm" where
  "addChatMessage message r s =
     s\<lparr>messages := messages s @ [\<lparr>role = c_str r, content = c_str message\<rparr>]\<rparr>"

text \<open>
  Tokens per second; \<open>None\<close> where the floating-point division is by zero. (The rounding of
  \<open>float\<close> is not modelled.)
\<close>

definition getResponseGenerationTime :: "'c llm \<Rightarrow> rat option" where
  "getResponseGenerationTime s =
     (if responseGenerationTime s = 0 then None
      else Some (of_int (responseNumTokens s) / (of_int (responseGenerationTime s) / 1000000)))"

definition getContextSizeUsed :: "'c llm \<Rightarrow> int" where
  "getContextSizeUsed s = nCtxUsed s"

definition setStopWords :: "string list \<Rightarrow> 'c llm \<Rightarrow> 'c llm" where
  "setStopWords ws s = s\<lparr>stopWords := ws\<rparr>"

text \<open>\<open>std::vector<char>::resize\<close>.\<close>

definition vec_resize :: "string \<Rightarrow> nat \<Rightarrow> string" where
  "vec_resize v n = take n v @ replicate (n - length v) (CHR 0x00)"

text \<open>
  \<open>llama_chat_apply_template\<close> into \<open>_formattedMessages\<close>: once, and again after a
  resize when the text did not fit.
\<close>

definition apply_into ::
  "string \<Rightarrow> chat_message list \<Rightarrow> string \<Rightarrow> int \<times> string" where
  "apply_into tmpl msgs buf =
     (case llama_chat_apply_template (Some tmpl) msgs True (Some buf) (int32_of_size (length buf)) of
        (n, b) \<Rightarrow> (n, case b of Some b \<Rightarrow> b | None \<Rightarrow> buf))"

definition format_messages ::
  "string \<Rightarrow> chat_message list \<Rightarrow> string \<Rightarrow> int \<times> string" where
  "format_messages tmpl msgs buf =
     (let (newLen, buf1) = apply_into tmpl msgs buf in
      if newLen > int32_of_size (length buf1)
      then apply_into tmpl msgs (vec_resize buf1 (nat newLen))
      else (newLen, buf1))"

text \<open>
  The range constructor \<open>std::string(begin() + _prevLen, begin() + newLen)\<close>; a range
  that is not inside the vector is undefined behaviour, \<open>None\<close>.
\<close>

definition char_range :: "string \<Rightarrow> int \<Rightarrow> int \<Rightarrow> string option" where
  "char_range v i j =
     (if 0 \<le> i \<and> i \<le> j \<and> j \<le> int (length v)
      then Some (take (nat (j - i)) (drop (nat i) v)) else None)"

definition startCompletion :: "'c engine \<Rightarrow> string \<Rightarrow> 'c llm \<Rightarrow> (llm_error + unit) \<times> 'c llm" where
  "startCompletion E query s =
     (let s = (if \<not> storeChats s
               then s\<lparr>prevLen := 0,
                      formattedMessages := replicate (unat (llama_n_ctx E (ctx s))) (CHR 0x00)\<rparr>
               else s);
          s = s\<lparr>responseGenerationTime := 0, responseNumTokens := 0\<rparr>;
          s = addChatMessage query ''user'' s;
          (newLen, buf) = format_messages (chatTemplate s) (messages s) (formattedMessages s);
          s = s\<lparr>formattedMessages := buf\<rparr>
      in if newLen < 0 then (Inl TemplateFailed, s)
         else case char_range buf (prevLen s) newLen of
             None \<Rightarrow> (Inl BadRange, s)
           | Some prompt \<Rightarrow>
               (case common_tokenize E prompt of
                  None \<Rightarrow> (Inl TokenizeFailed, s)
                | Some toks \<Rightarrow>
                    (Inr (), s\<lparr>promptTokens := toks, batch_token := PromptTokens,
                               batch_n_tokens := int32_of_size (length toks)\<rparr>)))"

text \<open>The loop over the stop words: the first non-empty one that occurs, and where.\<close>

fun find_stop :: "string list \<Rightarrow> string \<Rightarrow> nat option" where
  "find_stop [] r = None"
| "find_stop (sw # sws) r =
     (if sw \<noteq> [] then
        (case str_find sw r of Some pos \<Rightarrow> Some pos | None \<Rightarrow> find_stop sws r)
      else find_stop sws r)"

text \<open>
  \<open>completionLoop\<close>, with the two readings of the clock. The context guard compares an
  \<open>int\<close> with a \<open>uint32_t\<close>: the sum is converted to unsigned.
\<close>

definition emit_piece :: "'c llm \<Rightarrow> string \<times> 'c llm" where
  "emit_piece s =
     (if isValidUtf8 (Some (cacheResponseTokens s)) then
        (let r = response s @ cacheResponseTokens s; valid_utf8_piece = cacheResponseTokens s in
         case find_stop (stopWords s) r of
           Some pos \<Rightarrow>
             (''[EOG]'', (addChatMessage (take pos r) ''assistant'' s)
                \<lparr>response := [], cacheResponseTokens := []\<rparr>)
         | None \<Rightarrow> (valid_utf8_piece, s\<lparr>response := r, cacheResponseTokens := []\<rparr>))
      else ([], s))"

definition completionLoop ::
  "'c engine \<Rightarrow> int \<Rightarrow> int \<Rightarrow> 'c llm \<Rightarrow> (llm_error + string) \<times> 'c llm" where
  "completionLoop E t_start t_end s =
     (let contextSize = llama_n_ctx E (ctx s);
          s = s\<lparr>nCtxUsed := llama_kv_self_used_cells E (ctx s)\<rparr>
      in if (word_of_int (nCtxUsed s + batch_n_tokens s) :: uint32) > contextSize
         then (Inl ContextSizeReached, s)
         else
           (let (ret, c) = llama_decode E (ctx s) (batch_tokens s);
                s = s\<lparr>ctx := c\<rparr>
            in if ret < 0 then (Inl DecodeFailed, s)
               else
                 (let (tok, c) = llama_sampler_sample E (ctx s);
                      s = s\<lparr>ctx := c, currToken := tok\<rparr>
                  in if llama_vocab_is_eog E tok
                     then (Inr ''[EOG]'',
                           (addChatMessage (response s) ''assistant'' s)\<lparr>response := []\<rparr>)
                     else
                       (let piece = common_token_to_piece E tok;
                            s = s\<lparr>responseGenerationTime := responseGenerationTime s + (t_end - t_start),
                                  responseNumTokens := responseNumTokens s + 1,
                                  cacheResponseTokens := cacheResponseTokens s @ piece,
                                  batch_token := CurrToken, batch_n_tokens := 1\<rparr>;
                            (out, s) = emit_piece s
                        in (Inr out, s)))))"

definition stopCompletion :: "'c engine \<Rightarrow> 'c llm \<Rightarrow> (llm_error + unit) \<times> 'c llm" where
  "stopCompletion E s =
     (let s = (if storeChats s then addChatMessage (response s) ''assistant'' s else s);
          s = s\<lparr>response := []\<rparr>;
          n = fst (llama_chat_apply_template (llama_model_chat_template E) (messages s) False None 0);
          s = s\<lparr>prevLen := n\<rparr>
      in if n < 0 then (Inl TemplateFailed, s) else (Inr (), s))"

section \<open>UTF-8: the loop against the shape of the text\<close>

text \<open>
  The reference: a character is a leading byte of one of four ranges followed by as many
  continuation bytes (\<open>0x80\<close> to \<open>0xBF\<close>) as it announces; a text is a sequence of
  characters.
\<close>

definition utf8_len :: "byte \<Rightarrow> nat option" where
  "utf8_len b =
     (if b < 0x80 then Some 1 else if b < 0xC0 then None else if b < 0xE0 then Some 2
      else if b < 0xF0 then Some 3 else if b < 0xF8 then Some 4 else None)"

definition utf8_cont :: "byte \<Rightarrow> bool" where
  "utf8_cont b = (0x80 \<le> b \<and> b < 0xC0)"

fun utf8_char :: "byte list \<Rightarrow> bool" where
  "utf8_char [] = False"
| "utf8_char (b # cs) = (utf8_len b = Some (Suc (length cs)) \<and> list_all utf8_cont cs)"

definition utf8_text :: "byte list \<Rightarrow> bool" where
  "utf8_text bs = (\<exists>chars. (\<forall>c \<in> set chars. utf8_char c) \<and> concat chars = bs)"

lemma utf8_num_len: "utf8_num b = utf8_len b"
proof -
  have "\<forall>b. utf8_num b = utf8_len b"
    unfolding all_byte by code_simp
  then show ?thesis by blast
qed

lemma utf8_cont_mask: "b AND 0xC0 = 0x80 \<longleftrightarrow> utf8_cont b"
proof -
  have "\<forall>b. (b AND 0xC0 = 0x80) = utf8_cont b"
    unfolding all_byte by code_simp
  then show ?thesis by blast
qed

lemma utf8_conts_append:
  "list_all utf8_cont cs \<Longrightarrow> utf8_conts (length cs) (cs @ r) = Some r"
  by (induction cs) (auto simp: utf8_cont_mask)

lemma utf8_conts_Some:
  "utf8_conts n bs = Some r \<Longrightarrow> \<exists>cs. bs = cs @ r \<and> length cs = n \<and> list_all utf8_cont cs"
proof (induction n bs rule: utf8_conts.induct)
  case (3 n b bs)
  then obtain cs where "bs = cs @ r" "length cs = n" "list_all utf8_cont cs" "utf8_cont b"
    by (auto simp: utf8_cont_mask split: if_splits)
  then show ?case by (intro exI [of _ "b # cs"]) simp
qed auto

lemma utf8_text_Nil [simp]: "utf8_text []"
  unfolding utf8_text_def by (intro exI [of _ "[]"]) simp

lemma utf8_text_char: "utf8_char c \<Longrightarrow> utf8_text r \<Longrightarrow> utf8_text (c @ r)"
  unfolding utf8_text_def by (metis concat.simps(2) set_ConsD)

lemma utf8_loop_char:
  assumes "utf8_char c" and "0 \<notin> set c"
  shows "utf8_loop (c @ r) = utf8_loop r"
proof (cases c)
  case Nil
  with assms show ?thesis by simp
next
  case (Cons b cs)
  with assms show ?thesis
    by (auto simp: utf8_num_len utf8_conts_append)
qed

lemma utf8_loop_imp_text: "utf8_loop bs \<Longrightarrow> 0 \<notin> set bs \<Longrightarrow> utf8_text bs"
proof (induction bs rule: utf8_loop.induct)
  case (2 b bs)
  from "2.prems" obtain num r where num: "utf8_num b = Some num"
    and r: "utf8_conts (num - 1) bs = Some r" and loop: "utf8_loop r" and b: "b \<noteq> 0"
    by (auto split: option.splits)
  obtain cs where cs: "bs = cs @ r" "length cs = num - 1" "list_all utf8_cont cs"
    using utf8_conts_Some [OF r] by blast
  have "0 < num"
    using num by (auto simp: utf8_num_def split: if_splits)
  with num cs have "utf8_char (b # cs)"
    by (simp add: utf8_num_len)
  moreover have "utf8_text r"
    using "2.IH" [OF _ num r loop] "2.prems"(2) b cs(1) by simp
  ultimately show ?case
    using utf8_text_char [of "b # cs" r] cs(1) by simp
qed simp

lemma utf8_loop_append:
  assumes "utf8_text bs" and "0 \<notin> set bs"
  shows "utf8_loop (bs @ r) = utf8_loop r"
proof -
  from assms(1) obtain chars where "\<forall>c \<in> set chars. utf8_char c" "concat chars = bs"
    unfolding utf8_text_def by blast
  then show ?thesis using assms(2)
    by (induction chars arbitrary: bs) (auto simp: utf8_loop_char)
qed

lemma zero_bytes_of: "nul_free s \<Longrightarrow> 0 \<notin> set (bytes_of s)"
proof
  assume "nul_free s" and "0 \<in> set (bytes_of s)"
  then obtain c where c: "c \<in> set s" "(of_char c :: byte) = 0"
    by (auto simp: bytes_of_def)
  have "(of_char c :: nat) = unat (of_char c :: byte)"
    by (rule unat_of_char [symmetric])
  with c(2) have "char_of (of_char c :: nat) = CHR 0x00"
    by (simp add: char_of_def)
  then have "c = CHR 0x00" by simp
  with c \<open>nul_free s\<close> show False by (simp add: nul_free_def)
qed

lemma isValidUtf8_text: "isValidUtf8 (Some s) \<longleftrightarrow> utf8_text (bytes_of (c_str s))"
  using utf8_loop_append [of "bytes_of (c_str s)" "[]"] utf8_loop_imp_text [of "bytes_of (c_str s)"]
    zero_bytes_of [of "c_str s"]
  by (auto simp: isValidUtf8_def)

text \<open>A byte that can stand nowhere in a text poisons every extension.\<close>

definition utf8_poison :: "string \<Rightarrow> bool" where
  "utf8_poison s = (\<exists>c \<in> set (c_str s). (of_char c :: byte) \<ge> 0xF8)"

lemma utf8_char_no_poison: "utf8_char cs \<Longrightarrow> b \<in> set cs \<Longrightarrow> b < 0xF8"
proof -
  assume c: "utf8_char cs" and b: "b \<in> set cs"
  have "\<forall>x::byte. utf8_len x \<noteq> None \<or> utf8_cont x \<longrightarrow> x < 0xF8"
    unfolding all_byte by code_simp
  with c b show ?thesis
    by (cases cs) (auto simp: list_all_iff)
qed

lemma utf8_poison_invalid: "utf8_poison s \<Longrightarrow> \<not> isValidUtf8 (Some s)"
proof
  assume p: "utf8_poison s" and "isValidUtf8 (Some s)"
  then obtain chars where chars: "\<forall>c \<in> set chars. utf8_char c"
      "concat chars = bytes_of (c_str s)"
    unfolding isValidUtf8_text utf8_text_def by blast
  from p obtain c where "c \<in> set (c_str s)" and c: "(of_char c :: byte) \<ge> 0xF8"
    unfolding utf8_poison_def by blast
  then have "of_char c \<in> set (concat chars)"
    by (simp add: chars bytes_of_def)
  with chars(1) have "(of_char c :: byte) < 0xF8"
    by (auto dest: utf8_char_no_poison)
  with c show False by simp
qed

lemma utf8_poison_append: "utf8_poison s \<Longrightarrow> utf8_poison (s @ t)"
  by (auto simp: utf8_poison_def c_str_append)

section \<open>The prompt\<close>

lemma length_vec_resize [simp]: "length (vec_resize v n) = n"
  by (simp add: vec_resize_def)

lemma apply_into_text:
  assumes "llm_chat_apply_template (llm_chat_detect_template tmpl) msgs True = Some q"
    and "length q < 2 ^ 31" and "length buf < 2 ^ 31"
  shows "apply_into tmpl msgs buf = (int (length q), strncpy buf q (length buf))"
  using llama_chat_apply_template_Some [of "Some tmpl" msgs True q "Some buf" "int (length buf)"] assms
  by (auto simp: apply_into_def strncpy_def)

text \<open>
  With a supported template, zero-free messages and sizes below \<open>2^31\<close>, one call or two
  leave the whole text at the front of the buffer.
\<close>

lemma format_messages_text:
  assumes q: "llm_chat_apply_template (llm_chat_detect_template tmpl) msgs True = Some q"
    and msgs: "\<forall>m \<in> set msgs. msg_nul_free m"
    and small: "length q < 2 ^ 31" "length buf < 2 ^ 31"
  shows "\<exists>buf'. format_messages tmpl msgs buf = (int (length q), buf') \<and>
    length q \<le> length buf' \<and> take (length q) buf' = q"
proof (cases "length q \<le> length buf")
  case True
  then show ?thesis
    using small apply_into_text [OF q small] apply_template_nul_free [OF q msgs]
    by (simp add: format_messages_def length_strncpy take_strncpy)
next
  case False
  let ?b = "strncpy buf q (length buf)"
  have b: "length ?b = length buf"
    by (simp add: length_strncpy)
  have "apply_into tmpl msgs (vec_resize ?b (length q)) =
      (int (length q), strncpy (vec_resize ?b (length q)) q (length q))"
    using apply_into_text [OF q small(1), of "vec_resize ?b (length q)"] small by simp
  with False show ?thesis
    using small b apply_into_text [OF q small] apply_template_nul_free [OF q msgs]
    by (simp add: format_messages_def length_strncpy strncpy_exact)
qed

lemma char_range_text:
  assumes "take n v = q" and "length q = n" and "0 \<le> i" and "i \<le> int n"
  shows "char_range v i (int n) = Some (drop (nat i) q)"
proof -
  have "n \<le> length v"
    using assms(1,2) by (metis length_take min.absorb_iff2 min.cobounded1)
  then show ?thesis
    using assms by (auto simp: char_range_def drop_take nat_diff_distrib')
qed

lemma addChatMessage_simps [simp]:
  "messages (addChatMessage c r s) = messages s @ [\<lparr>role = c_str r, content = c_str c\<rparr>]"
  "ctx (addChatMessage c r s) = ctx s"
  "prevLen (addChatMessage c r s) = prevLen s"
  "chatTemplate (addChatMessage c r s) = chatTemplate s"
  "formattedMessages (addChatMessage c r s) = formattedMessages s"
  "response (addChatMessage c r s) = response s"
  "cacheResponseTokens (addChatMessage c r s) = cacheResponseTokens s"
  "storeChats (addChatMessage c r s) = storeChats s"
  "stopWords (addChatMessage c r s) = stopWords s"
  "currToken (addChatMessage c r s) = currToken s"
  "promptTokens (addChatMessage c r s) = promptTokens s"
  "nCtxUsed (addChatMessage c r s) = nCtxUsed s"
  "batch_token (addChatMessage c r s) = batch_token s"
  "batch_n_tokens (addChatMessage c r s) = batch_n_tokens s"
  by (simp_all add: addChatMessage_def)

lemma c_str_user [simp]: "c_str ''user'' = ''user''"
  and c_str_assistant [simp]: "c_str ''assistant'' = ''assistant''"
  by simp_all

text \<open>The messages and the cursor a \<open>startCompletion\<close> works with.\<close>

definition start_messages :: "string \<Rightarrow> 'c llm \<Rightarrow> chat_message list" where
  "start_messages query s = messages s @ [\<lparr>role = ''user'', content = c_str query\<rparr>]"

lemma startCompletion_messages:
  "messages (snd (startCompletion E query s)) = start_messages query s"
  by (auto simp: startCompletion_def start_messages_def Let_def split: prod.splits option.splits)

lemma startCompletion_frame:
  "response (snd (startCompletion E query s)) = response s"
  "cacheResponseTokens (snd (startCompletion E query s)) = cacheResponseTokens s"
  "stopWords (snd (startCompletion E query s)) = stopWords s"
  "chatTemplate (snd (startCompletion E query s)) = chatTemplate s"
  "storeChats (snd (startCompletion E query s)) = storeChats s"
  "ctx (snd (startCompletion E query s)) = ctx s"
  by (auto simp: startCompletion_def Let_def split: prod.splits option.splits)

lemma startCompletion_eq:
  assumes q: "llm_chat_apply_template (llm_chat_detect_template (chatTemplate s)) (start_messages query s) True
      = Some q"
    and msgs: "\<forall>m \<in> set (messages s). msg_nul_free m"
    and small: "length q < 2 ^ 31" "length (formattedMessages s) < 2 ^ 31"
      "unat (llama_n_ctx E (ctx s)) < 2 ^ 31"
    and pos: "storeChats s \<longrightarrow> 0 \<le> prevLen s \<and> prevLen s \<le> int (length q)"
  shows "\<exists>s0. startCompletion E query s =
    (case common_tokenize E (drop (if storeChats s then nat (prevLen s) else 0) q) of
       None \<Rightarrow> (Inl TokenizeFailed, s0)
     | Some toks \<Rightarrow> (Inr (), s0\<lparr>promptTokens := toks, batch_token := PromptTokens,
                       batch_n_tokens := int32_of_size (length toks)\<rparr>))"
proof -
  define buf where "buf = (if storeChats s then formattedMessages s
    else replicate (unat (llama_n_ctx E (ctx s))) (CHR 0x00))"
  define i where "i = (if storeChats s then prevLen s else 0)"
  have m: "\<forall>m \<in> set (start_messages query s). msg_nul_free m"
    using msgs by (auto simp: start_messages_def)
  have "length buf < 2 ^ 31"
    using small by (simp add: buf_def)
  from format_messages_text [OF q m small(1) this] obtain buf'
    where f: "format_messages (chatTemplate s) (start_messages query s) buf = (int (length q), buf')"
      and b: "take (length q) buf' = q"
    by blast
  have r: "char_range buf' i (int (length q)) = Some (drop (nat i) q)"
    using pos by (intro char_range_text b) (auto simp: i_def)
  show ?thesis
    using f r
    by (cases "storeChats s")
      (auto simp: startCompletion_def Let_def buf_def i_def start_messages_def split: option.split)
qed

section \<open>The streaming loop\<close>

lemma batch_tokens_nCtxUsed [simp]: "batch_tokens (s\<lparr>nCtxUsed := n\<rparr>) = batch_tokens s"
  by (simp add: batch_tokens_def split: token_ptr.split)

lemmas loop_defs = completionLoop_def emit_piece_def Let_def

text \<open>A call that ends no response appends to the stream exactly what it returns.\<close>

lemma emit_piece_stream:
  assumes "emit_piece s = (out, s')" and "messages s' = messages s"
  shows "response s' = response s @ out \<and>
    response s' @ cacheResponseTokens s' = response s @ cacheResponseTokens s"
  using assms by (auto simp: emit_piece_def Let_def split: if_splits option.splits)

lemma completionLoop_stream:
  assumes "completionLoop E t0 t1 s = (Inr out, s')" and "messages s' = messages s"
  shows "response s' = response s @ out \<and>
    response s' @ cacheResponseTokens s' =
      response s @ cacheResponseTokens s @ common_token_to_piece E (currToken s')"
  using assms
  by (auto simp: loop_defs split: prod.splits if_splits option.splits)


lemma find_stop_None: "find_stop sws r = None \<longleftrightarrow> (\<forall>sw \<in> set sws. sw \<noteq> [] \<longrightarrow> \<not> sublist sw r)"
  by (induction sws) (auto split: option.splits simp: str_find_None dest: str_find_Some)

lemma find_stop_Some:
  "find_stop sws r = Some pos \<Longrightarrow>
    \<exists>sw \<in> set sws. sw \<noteq> [] \<and> str_find sw r = Some pos"
  by (induction sws) (auto split: if_splits option.splits)

section \<open>The engine as a state machine\<close>

text \<open>
  Every public method that changes the object is a step; a step shows the text it returns to
  the caller (nothing for the methods that return none).
\<close>

inductive llm_step :: "'c engine \<Rightarrow> 'c llm \<Rightarrow> string \<Rightarrow> 'c llm \<Rightarrow> bool" where
  add_message: "llm_step E s [] (addChatMessage m r s)"
| set_stop_words: "llm_step E s [] (setStopWords ws s)"
| start: "startCompletion E query s = (res, s') \<Longrightarrow> llm_step E s [] s'"
| loop_returns: "completionLoop E t0 t1 s = (Inr out, s') \<Longrightarrow> llm_step E s out s'"
| loop_throws: "completionLoop E t0 t1 s = (Inl e, s') \<Longrightarrow> llm_step E s [] s'"
| stop: "stopCompletion E s = (res, s') \<Longrightarrow> llm_step E s [] s'"

inductive_cases llm_stepE: "llm_step E s out s'"

inductive llm_run :: "'c engine \<Rightarrow> 'c llm \<Rightarrow> string list \<Rightarrow> 'c llm \<Rightarrow> bool" where
  run_nil: "llm_run E s [] s"
| run_step: "llm_step E s out s' \<Longrightarrow> llm_run E s' outs s'' \<Longrightarrow> llm_run E s (out # outs) s''"

lemma emit_piece_poison:
  assumes "emit_piece s = (out, s')" and "utf8_poison (cacheResponseTokens s)"
  shows "out = [] \<and> s' = s"
  using assms utf8_poison_invalid by (auto simp: emit_piece_def)

lemma completionLoop_poison:
  assumes "completionLoop E t0 t1 s = (res, s')" and "utf8_poison (cacheResponseTokens s)"
  shows "utf8_poison (cacheResponseTokens s') \<and> (\<forall>out. res = Inr out \<longrightarrow> out = [] \<or> out = ''[EOG]'')"
  using assms
  by (auto simp: completionLoop_def Let_def utf8_poison_append split: prod.splits if_splits
      dest!: emit_piece_poison)

lemma startCompletion_cache:
  "startCompletion E query s = (res, s') \<Longrightarrow> cacheResponseTokens s' = cacheResponseTokens s"
  using startCompletion_frame(2) [of E query s] by simp

lemma stopCompletion_cache:
  "stopCompletion E s = (res, s') \<Longrightarrow> cacheResponseTokens s' = cacheResponseTokens s"
  by (auto simp: stopCompletion_def Let_def split: if_splits)

lemma llm_step_poison:
  assumes "llm_step E s out s'" and "utf8_poison (cacheResponseTokens s)"
  shows "utf8_poison (cacheResponseTokens s') \<and> (out = [] \<or> out = ''[EOG]'')"
  using assms
  by (auto elim!: llm_stepE simp: setStopWords_def startCompletion_cache stopCompletion_cache
      dest: completionLoop_poison)

text \<open>The run of \<open>SmolLM.getResponse\<close>: calls until the text \<open>[EOG]\<close> is returned.\<close>

fun response_loop ::
  "'c engine \<Rightarrow> (int \<times> int) list \<Rightarrow> string \<Rightarrow> 'c llm \<Rightarrow> ((llm_error + string) \<times> 'c llm) option" where
  "response_loop E [] acc s = None"
| "response_loop E ((t0, t1) # ts) acc s =
     (case completionLoop E t0 t1 s of
        (Inl e, s') \<Rightarrow> Some (Inl e, s')
      | (Inr piece, s') \<Rightarrow>
          if piece = ''[EOG]'' then Some (Inr acc, s') else response_loop E ts (acc @ piece) s')"

lemma completionLoop_messages:
  assumes "completionLoop E t0 t1 s = (Inr out, s')"
  shows "messages s' = messages s \<or>
    (out = ''[EOG]'' \<and> llama_vocab_is_eog E (currToken s') \<and> response s' = [] \<and>
       messages s' = messages s @ [\<lparr>role = ''assistant'', content = c_str (response s)\<rparr>]) \<or>
    (\<exists>pos. out = ''[EOG]'' \<and> \<not> llama_vocab_is_eog E (currToken s') \<and> response s' = [] \<and>
       cacheResponseTokens s' = [] \<and>
       (let full = response s @ cacheResponseTokens s @ common_token_to_piece E (currToken s') in
        find_stop (stopWords s) full = Some pos \<and>
        messages s' = messages s @ [\<lparr>role = ''assistant'', content = c_str (take pos full)\<rparr>]))"
  using assms
  by (auto simp: loop_defs split: prod.splits if_splits option.splits)



section \<open>Properties\<close>

text \<open>
  The UTF-8 check of the pending bytes accepts exactly the byte strings that are sequences
  of a leading byte and the continuation bytes it announces: the bit masks and the pointer loop
  agree with the description by byte ranges. (Over-long forms and surrogates are accepted.)
\<close>

theorem utf8_check_shape:
  "isValidUtf8 (Some s) \<longleftrightarrow> utf8_text (bytes_of (c_str s))"
  by (rule isValidUtf8_text)

text \<open>
  C6. Streaming conserves text. A call of \<open>completionLoop\<close> that does not end the response
  returns exactly what it appends to the stored response, and the stored response followed by
  the pending bytes is what it was, followed by the piece of the new token: no byte is lost,
  repeated or reordered while characters arrive split over tokens.
\<close>

theorem completion_conserves_text:
  assumes "completionLoop E t0 t1 s = (Inr out, s')" and "messages s' = messages s"
  shows "response s' = response s @ out \<and>
    response s' @ cacheResponseTokens s' =
      response s @ cacheResponseTokens s @ common_token_to_piece E (currToken s')"
  using assms by (rule completionLoop_stream)

text \<open>A concrete engine: the context counts the decoded tokens, token 0 ends the text.\<close>

definition demo_engine :: "(nat \<times> llama_token list) engine" where
  "demo_engine = \<lparr>
     llama_n_ctx = (\<lambda>c. 64),
     llama_kv_self_used_cells = (\<lambda>c. int (fst c)),
     llama_decode = (\<lambda>c toks. if toks = [] then (-1, c) else (0, (fst c + length toks, snd c))),
     llama_sampler_sample = (\<lambda>c. case snd c of [] \<Rightarrow> (0, c) | t # ts \<Rightarrow> (t, (fst c, ts))),
     llama_vocab_is_eog = (\<lambda>t. t = 0),
     common_token_to_piece = (\<lambda>t. if t = 1 then ''ab'' else if t = 2 then [CHR 0xC3]
       else if t = 3 then [CHR 0xA9] else if t = 4 then [CHR 0xFF] else ''<e>''),
     common_tokenize = (\<lambda>str. Some (map (\<lambda>c. 1) str)),
     llama_model_chat_template = Some ''glmedge'' \<rparr>"

definition demo_llm :: "llama_token list \<Rightarrow> (nat \<times> llama_token list) llm" where
  "demo_llm toks = \<lparr>
     ctx = (0, toks), sampler = [], currToken = 0, batch_token = CurrToken, batch_n_tokens = 1,
     messages = [], formattedMessages = replicate 64 (CHR 0x00), promptTokens = [], prevLen = 0,
     chatTemplate = ''glmedge'', response = [], cacheResponseTokens = [], storeChats = True,
     responseGenerationTime = 0, responseNumTokens = 0, nCtxUsed = 0, stopWords = [] \<rparr>"

lemmas demo_defs = demo_engine_def demo_llm_def

theorem completion_conserves_text_witness:
  "\<exists>s'. completionLoop demo_engine 0 5 (demo_llm [1]) = (Inr ''ab'', s') \<and> response s' = ''ab''"
proof -
  have "isValidUtf8 (Some ''ab'')"
    by code_simp
  then obtain s' where "completionLoop demo_engine 0 5 (demo_llm [1]) = (Inr ''ab'', s')"
    "messages s' = messages (demo_llm [1])"
    by (simp add: demo_defs loop_defs batch_tokens_def)
  with completion_conserves_text [OF this] show ?thesis
    by (simp add: demo_llm_def)
qed



text \<open>
  Stop words. While the response goes on, the stored response never contains a stop word: a
  call that adds no message keeps it free of every non-empty stop word.
\<close>

theorem stop_words_end_response:
  assumes "completionLoop E t0 t1 s = (Inr out, s')" and "messages s' = messages s"
    and "\<forall>sw \<in> set (stopWords s). sw \<noteq> [] \<longrightarrow> \<not> sublist sw (response s)"
  shows "\<forall>sw \<in> set (stopWords s'). sw \<noteq> [] \<longrightarrow> \<not> sublist sw (response s')"
  using assms
  by (auto simp: loop_defs find_stop_None split: prod.splits if_splits option.splits)

theorem stop_words_end_response_witness:
  "\<exists>s'. completionLoop demo_engine 0 1 ((demo_llm [1])\<lparr>stopWords := [''<e>'']\<rparr>) = (Inr ''ab'', s') \<and>
    \<not> sublist ''<e>'' (response s') \<and> stopWords s' = [''<e>'']"
proof -
  have "isValidUtf8 (Some ''ab'')"
    by code_simp
  then obtain s' where r: "completionLoop demo_engine 0 1 ((demo_llm [1])\<lparr>stopWords := [''<e>'']\<rparr>) = (Inr ''ab'', s')"
    and m: "messages s' = messages ((demo_llm [1])\<lparr>stopWords := [''<e>'']\<rparr>)"
    and sw: "stopWords s' = [''<e>'']"
    by (simp add: demo_defs loop_defs batch_tokens_def)
  have "\<forall>sw \<in> set (stopWords ((demo_llm [1])\<lparr>stopWords := [''<e>'']\<rparr>)). sw \<noteq> [] \<longrightarrow>
      \<not> sublist sw (response ((demo_llm [1])\<lparr>stopWords := [''<e>'']\<rparr>))"
    by (simp add: demo_llm_def)
  from stop_words_end_response [OF r m this] r sw show ?thesis
    by simp
qed

text \<open>
  C37. What is stored when a stop word ends a response: the text up to the first occurrence of a
  stop word of the list, and no occurrence of that word.
\<close>

theorem stop_word_trims_message:
  assumes "completionLoop E t0 t1 s = (Inr out, s')" and "messages s' \<noteq> messages s"
    and "\<not> llama_vocab_is_eog E (currToken s')"
    and "full = response s @ cacheResponseTokens s @ common_token_to_piece E (currToken s')"
  shows "\<exists>sw \<in> set (stopWords s). \<exists>pos. str_find sw full = Some pos \<and>
    messages s' = messages s @ [\<lparr>role = ''assistant'', content = c_str (take pos full)\<rparr>] \<and>
    \<not> sublist sw (take pos full) \<and> response s' = [] \<and> cacheResponseTokens s' = []"
proof -
  from completionLoop_messages [OF assms(1)] assms obtain pos where
    f: "find_stop (stopWords s) full = Some pos"
    and m: "messages s' = messages s @ [\<lparr>role = ''assistant'', content = c_str (take pos full)\<rparr>]"
    and e: "response s' = []" "cacheResponseTokens s' = []"
    by (auto simp: Let_def)
  from find_stop_Some [OF f] obtain sw where "sw \<in> set (stopWords s)" "sw \<noteq> []"
    "str_find sw full = Some pos"
    by blast
  then show ?thesis
    using m e str_find_take_clean by blast
qed

theorem stop_word_trims_message_witness:
  "\<exists>s'. completionLoop demo_engine 0 1 ((demo_llm [5])\<lparr>stopWords := [''<e>''], response := ''ab''\<rparr>) =
      (Inr ''[EOG]'', s') \<and> messages s' = [\<lparr>role = ''assistant'', content = ''ab''\<rparr>]"
proof -
  let ?s = "(demo_llm [5])\<lparr>stopWords := [''<e>''], response := ''ab''\<rparr>"
  have "isValidUtf8 (Some ''<e>'')"
    by code_simp
  then obtain s' where r: "completionLoop demo_engine 0 1 ?s = (Inr ''[EOG]'', s')"
    and m: "messages s' \<noteq> messages ?s" and t: "currToken s' = 5"
    by (simp add: demo_defs loop_defs batch_tokens_def addChatMessage_def)
  have "\<not> llama_vocab_is_eog demo_engine (currToken s')"
    by (simp add: demo_engine_def t)
  from stop_word_trims_message [OF r m this refl] r show ?thesis
    by (simp add: demo_llm_def demo_engine_def t)
qed

text \<open>
  The context guard. The call fails with "context size reached" exactly when the cells in
  use and the batch together exceed the context, and then nothing was decoded; the comparison at
  32 bits is the comparison of the numbers as long as the sum is a non-negative 32-bit value.
\<close>

theorem context_guard:
  assumes "0 \<le> llama_kv_self_used_cells E (ctx s) + batch_n_tokens s"
    and "llama_kv_self_used_cells E (ctx s) + batch_n_tokens s < 2 ^ 32"
  shows "(fst (completionLoop E t0 t1 s) = Inl ContextSizeReached \<longleftrightarrow>
      int (unat (llama_n_ctx E (ctx s))) < llama_kv_self_used_cells E (ctx s) + batch_n_tokens s) \<and>
    (fst (completionLoop E t0 t1 s) = Inl ContextSizeReached \<longrightarrow>
      ctx (snd (completionLoop E t0 t1 s)) = ctx s)"
proof -
  let ?n = "llama_kv_self_used_cells E (ctx s) + batch_n_tokens s"
  have "uint (word_of_int ?n :: uint32) = ?n"
    using assms by (rule uint32_of_int_small)
  then have "(word_of_int ?n :: uint32) > llama_n_ctx E (ctx s) \<longleftrightarrow>
      int (unat (llama_n_ctx E (ctx s))) < ?n"
    by (simp add: word_less_def)
  then show ?thesis
    by (simp add: loop_defs split: prod.split option.split)
qed

theorem context_guard_witness:
  "fst (completionLoop demo_engine 0 1 ((demo_llm [1])\<lparr>ctx := (64, [1])\<rparr>)) = Inl ContextSizeReached"
  using context_guard [of demo_engine "(demo_llm [1])\<lparr>ctx := (64, [1])\<rparr>" 0 1]
  by (simp add: demo_defs)

text \<open>
  Only a negative result of \<open>llama_decode\<close> is an error. A positive one (1: no slot in the
  KV cache, 2: aborted), for which \<open>llama.h\<close> says that the tokens were not or not all
  processed, is taken as success: the call samples a token and returns text.
\<close>

theorem decode_warning_taken_as_success:
  assumes "\<not> (word_of_int (llama_kv_self_used_cells E (ctx s) + batch_n_tokens s) :: uint32) >
      llama_n_ctx E (ctx s)"
  shows "fst (completionLoop E t0 t1 s) = Inl DecodeFailed \<longleftrightarrow>
      fst (llama_decode E (ctx s) (batch_tokens s)) < 0"
    (is "?l = ?r")
  using assms by (auto simp: loop_defs split: prod.splits option.splits if_splits)

theorem decode_warning_taken_as_success_witness:
  "fst (completionLoop (demo_engine\<lparr>llama_decode := (\<lambda>c toks. (1, c))\<rparr>) 0 1 (demo_llm [1]))
     \<noteq> Inl DecodeFailed"
  using decode_warning_taken_as_success
    [of "demo_engine\<lparr>llama_decode := (\<lambda>c toks. (1, c))\<rparr>" "demo_llm [1]" 0 1]
  by (simp add: demo_defs)

text \<open>
  C36. A byte that belongs to no UTF-8 text (\<open>0xF8\<close> and above) in the pending bytes blocks
  the stream for good: whatever methods run afterwards, new queries included, every text the
  engine returns is empty or the end marker. Nothing but a stop word clears the pending bytes, and
  stop words are looked for only when they are valid.
\<close>

theorem invalid_byte_blocks_stream:
  assumes "llm_run E s outs s'" and "utf8_poison (cacheResponseTokens s)"
  shows "set outs \<subseteq> {[], ''[EOG]''} \<and> utf8_poison (cacheResponseTokens s')"
  using assms
proof (induction rule: llm_run.induct)
  case (run_nil E s)
  then show ?case by simp
next
  case (run_step E s out s' outs s'')
  with llm_step_poison [OF run_step(1)] show ?case by auto
qed

theorem invalid_byte_blocks_stream_witness:
  "llm_run demo_engine ((demo_llm [1])\<lparr>cacheResponseTokens := [CHR 0xFF]\<rparr>) [[]]
      (snd (completionLoop demo_engine 0 1 ((demo_llm [1])\<lparr>cacheResponseTokens := [CHR 0xFF]\<rparr>))) \<and>
    utf8_poison (cacheResponseTokens
      (snd (completionLoop demo_engine 0 1 ((demo_llm [1])\<lparr>cacheResponseTokens := [CHR 0xFF]\<rparr>))))"
proof -
  let ?s = "(demo_llm [1])\<lparr>cacheResponseTokens := [CHR 0xFF]\<rparr>"
  have "\<not> isValidUtf8 (Some (CHR 0xFF # ''ab''))"
    by code_simp
  then obtain s' where c: "completionLoop demo_engine 0 1 ?s = (Inr [], s')"
    by (simp add: demo_defs loop_defs batch_tokens_def)
  have r: "llm_run demo_engine ?s [[]] s'"
    by (intro run_step [OF loop_returns [OF c]] run_nil)
  have "utf8_poison (cacheResponseTokens ?s)"
    unfolding utf8_poison_def c_str_def by simp
  from invalid_byte_blocks_stream [OF r this] r c show ?thesis
    by simp
qed

text \<open>
  The prompt of a query. With a supported template, zero-free messages, a text and buffers
  below \<open>2^31\<close> bytes and a cursor inside the text, \<open>startCompletion\<close> succeeds and the
  batch holds the tokens of the rendered conversation from the cursor on.
\<close>

theorem startCompletion_tokenizes_rest:
  assumes "llm_chat_apply_template (llm_chat_detect_template (chatTemplate s)) (start_messages query s) True
      = Some q"
    and "\<forall>m \<in> set (messages s). msg_nul_free m"
    and "length q < 2 ^ 31" and "length (formattedMessages s) < 2 ^ 31"
    and "unat (llama_n_ctx E (ctx s)) < 2 ^ 31"
    and "storeChats s \<longrightarrow> 0 \<le> prevLen s \<and> prevLen s \<le> int (length q)"
    and "common_tokenize E (drop (if storeChats s then nat (prevLen s) else 0) q) = Some toks"
    and "length toks < 2 ^ 31"
  shows "\<exists>s'. startCompletion E query s = (Inr (), s') \<and> batch_tokens s' = toks \<and>
    batch_n_tokens s' = int (length toks) \<and> messages s' = start_messages query s"
proof -
  obtain s0 where "startCompletion E query s = (Inr (), s0\<lparr>promptTokens := toks,
      batch_token := PromptTokens, batch_n_tokens := int32_of_size (length toks)\<rparr>)"
    using startCompletion_eq [OF assms(1-6)] assms(7) by auto
  with startCompletion_messages [of E query s] assms(8) show ?thesis
    by (auto simp: batch_tokens_def)
qed

lemma demo_render:
  "llm_chat_detect_template ''glmedge'' = TMPL_GLMEDGE"
  "llm_chat_apply_template TMPL_GLMEDGE chat a = Some (chat_glmedge chat a)"
  by (simp_all add: llm_chat_detect_template_def llm_chat_template_from_str_def LLM_CHAT_TEMPLATES_def
      llm_chat_apply_template_def)

theorem startCompletion_tokenizes_rest_witness:
  "\<exists>s'. startCompletion demo_engine ''hi'' (demo_llm []) = (Inr (), s') \<and>
    batch_n_tokens s' = int (length (''<|user|>'' @ nl @ ''hi<|assistant|>''))"
proof -
  have q: "llm_chat_apply_template (llm_chat_detect_template (chatTemplate (demo_llm [])))
      (start_messages ''hi'' (demo_llm [])) True = Some (''<|user|>'' @ nl @ ''hi<|assistant|>'')"
    by (simp add: demo_llm_def demo_render start_messages_def chat_glmedge_def c_str_def)
  show ?thesis
    using startCompletion_tokenizes_rest [OF q, of demo_engine]
    by (force simp: demo_defs)
qed

text \<open>
  C1. Two turns. When chats are stored and the model's own template is detected as the template
  the engine was loaded with (and is not RWKV_WORLD), the query after a finished turn feeds the
  model exactly the text that continues what it has read: the rendering of the finished
  conversation followed by the new prompt is the rendering of the whole conversation.
\<close>

theorem next_turn_continues_text:
  assumes "stopCompletion E s = (Inr (), s1)" and "startCompletion E query s1 = (Inr (), s2)"
    and "storeChats s"
    and "llm_chat_detect_template (case llama_model_chat_template E of None \<Rightarrow> ''chatml'' | Some t \<Rightarrow> t) = T"
    and "llm_chat_detect_template (chatTemplate s) = T" and "T \<noteq> TMPL_RWKV_WORLD"
    and "llm_chat_apply_template T (messages s1) False = Some p" and "length p < 2 ^ 31"
    and "llm_chat_apply_template T (messages s2) True = Some q" and "length q < 2 ^ 31"
    and "\<forall>m \<in> set (messages s). msg_nul_free m"
    and "length (formattedMessages s) < 2 ^ 31" and "unat (llama_n_ctx E (ctx s)) < 2 ^ 31"
  shows "\<exists>t. q = p @ t \<and> common_tokenize E t = Some (promptTokens s2)"
proof -
  have s1: "prevLen s1 = int (length p)" "storeChats s1" "chatTemplate s1 = chatTemplate s"
    "formattedMessages s1 = formattedMessages s" "ctx s1 = ctx s"
    and m1: "\<forall>m \<in> set (messages s1). msg_nul_free m"
    using assms(1,3,11) llama_chat_apply_template_Some
        [of "llama_model_chat_template E" "messages s1" False p None 0] assms(4,7,8)
    by (auto simp: stopCompletion_def Let_def split: if_splits)
  have m2: "messages s2 = start_messages query s1"
    using startCompletion_messages [of E query s1] assms(2) by simp
  then have "prefix p q"
    using apply_template_prefix [OF assms(7) _ assms(6)] assms(9) by (auto simp: start_messages_def)
  then obtain t where q: "q = p @ t" by (auto simp: prefix_def)
  have "llm_chat_apply_template (llm_chat_detect_template (chatTemplate s1)) (start_messages query s1) True = Some q"
    using assms(5,9) s1 m2 by simp
  from startCompletion_eq [OF this m1 assms(10), of E] assms(2,12,13) s1 q
  have "common_tokenize E t = Some (promptTokens s2)"
    by (auto split: option.splits)
  with q show ?thesis by blast
qed

lemma demo_glmedge_loaded: "llm_chat_detect_template (chatTemplate (demo_llm toks)) = TMPL_GLMEDGE"
  by (simp add: demo_llm_def demo_render)

theorem next_turn_continues_text_witness:
  "\<exists>s1 s2 t. stopCompletion demo_engine ((demo_llm [])\<lparr>response := ''ok''\<rparr>) = (Inr (), s1) \<and>
    startCompletion demo_engine ''go'' s1 = (Inr (), s2) \<and>
    chat_glmedge (messages s2) True = chat_glmedge (messages s1) False @ t \<and>
    common_tokenize demo_engine t = Some (promptTokens s2)"
proof -
  let ?s = "(demo_llm [])\<lparr>response := ''ok''\<rparr>"
  let ?m1 = "[\<lparr>role = ''assistant'', content = ''ok''\<rparr>]"
  let ?m2 = "?m1 @ [\<lparr>role = ''user'', content = ''go''\<rparr>]"
  let ?s1 = "?s\<lparr>messages := ?m1, response := [], prevLen := 16\<rparr>"
  have s1: "stopCompletion demo_engine ?s = (Inr (), ?s1)"
    by (simp add: stopCompletion_def Let_def demo_defs llama_chat_apply_template_def demo_render
        addChatMessage_def chat_glmedge_def c_str_def)
  have "\<exists>s2. startCompletion demo_engine ''go'' ?s1 = (Inr (), s2)"
    using startCompletion_tokenizes_rest [of ?s1 "''go''" "chat_glmedge ?m2 True" demo_engine]
    by (simp add: demo_render start_messages_def c_str_def chat_glmedge_def demo_defs) blast
  then obtain s2 where s2: "startCompletion demo_engine ''go'' ?s1 = (Inr (), s2)" by blast
  have m2: "messages s2 = ?m2"
    using startCompletion_messages [of demo_engine "''go''" ?s1] s2
    by (simp add: start_messages_def c_str_def)
  have "\<exists>t. chat_glmedge (messages s2) True = chat_glmedge (messages ?s1) False @ t \<and>
      common_tokenize demo_engine t = Some (promptTokens s2)"
    by (rule next_turn_continues_text [OF s1 s2, of TMPL_GLMEDGE])
      (simp_all add: demo_render demo_glmedge_loaded demo_defs m2 chat_glmedge_def)
  with s1 s2 show ?thesis by blast
qed

text \<open>
  When chats are stored, a turn that the model ends itself is recorded twice:
  \<open>completionLoop\<close> adds the response as an assistant message and clears it, and the
  \<open>stopCompletion\<close> that \<open>SmolLM\<close> calls next adds the now empty response as a second
  assistant message.
\<close>

theorem ended_turn_recorded_twice:
  assumes "completionLoop E t0 t1 s = (Inr out, s')" and "llama_vocab_is_eog E (currToken s')"
    and "messages s' \<noteq> messages s" and "storeChats s" and "stopCompletion E s' = (res, s'')"
  shows "messages s'' = messages s @
    [\<lparr>role = ''assistant'', content = c_str (response s)\<rparr>, \<lparr>role = ''assistant'', content = []\<rparr>]"
proof -
  have "storeChats s'"
    using assms(1,4) by (auto simp: loop_defs split: prod.splits if_splits option.splits)
  moreover have "response s' = []"
    and "messages s' = messages s @ [\<lparr>role = ''assistant'', content = c_str (response s)\<rparr>]"
    using completionLoop_messages [OF assms(1)] assms(2,3) by auto
  ultimately show ?thesis
    using assms(5) by (auto simp: stopCompletion_def Let_def split: if_splits)
qed

theorem ended_turn_recorded_twice_witness:
  "\<exists>s' s''. completionLoop demo_engine 0 1 ((demo_llm [0])\<lparr>response := ''ok''\<rparr>) = (Inr ''[EOG]'', s') \<and>
    stopCompletion demo_engine s' = (Inr (), s'') \<and>
    messages s'' = [\<lparr>role = ''assistant'', content = ''ok''\<rparr>, \<lparr>role = ''assistant'', content = []\<rparr>]"
proof -
  let ?s = "(demo_llm [0])\<lparr>response := ''ok''\<rparr>"
  obtain s' where c: "completionLoop demo_engine 0 1 ?s = (Inr ''[EOG]'', s')" and t: "currToken s' = 0"
    and m: "messages s' = [\<lparr>role = ''assistant'', content = ''ok''\<rparr>]" and r: "response s' = []"
    by (simp add: demo_defs loop_defs batch_tokens_def addChatMessage_def c_str_def)
  obtain res s'' where st: "stopCompletion demo_engine s' = (res, s'')"
    by fastforce
  have "res = Inr ()"
    using st by (auto simp: stopCompletion_def Let_def demo_engine_def llama_chat_apply_template_def
        demo_render m r addChatMessage_def chat_glmedge_def c_str_def split: if_splits)
  moreover have "llama_vocab_is_eog demo_engine (currToken s')" "messages s' \<noteq> messages ?s" "storeChats ?s"
    by (simp_all add: demo_defs t m)
  ultimately show ?thesis
    using ended_turn_recorded_twice [OF c _ _ _ st] c st by (auto simp: demo_llm_def c_str_def)
qed

text \<open>
  With \<open>storeChats\<close> off the conversation is not forgotten: every query is appended to all
  earlier messages, and the prompt fed to the model is the rendering of the whole history from its
  beginning.
\<close>

theorem history_kept_without_store:
  assumes "startCompletion E query s = (Inr (), s')" and "\<not> storeChats s"
    and "llm_chat_apply_template (llm_chat_detect_template (chatTemplate s)) (start_messages query s) True
      = Some q"
    and "\<forall>m \<in> set (messages s). msg_nul_free m"
    and "length q < 2 ^ 31" and "length (formattedMessages s) < 2 ^ 31"
    and "unat (llama_n_ctx E (ctx s)) < 2 ^ 31"
  shows "messages s' = messages s @ [\<lparr>role = ''user'', content = c_str query\<rparr>] \<and>
    common_tokenize E q = Some (promptTokens s')"
proof -
  have "storeChats s \<longrightarrow> 0 \<le> prevLen s \<and> prevLen s \<le> int (length q)"
    using assms(2) by simp
  from startCompletion_eq [OF assms(3-7) this] startCompletion_messages [of E query s] assms(1,2)
  show ?thesis
    by (auto simp: start_messages_def split: option.splits)
qed

theorem history_kept_without_store_witness:
  "\<exists>s'. startCompletion demo_engine ''b'' ((demo_llm [])\<lparr>storeChats := False,
      messages := [\<lparr>role = ''user'', content = ''a''\<rparr>]\<rparr>) = (Inr (), s') \<and>
    messages s' = [\<lparr>role = ''user'', content = ''a''\<rparr>, \<lparr>role = ''user'', content = ''b''\<rparr>]"
proof -
  let ?s = "(demo_llm [])\<lparr>storeChats := False, messages := [\<lparr>role = ''user'', content = ''a''\<rparr>]\<rparr>"
  let ?q = "chat_glmedge [\<lparr>role = ''user'', content = ''a''\<rparr>, \<lparr>role = ''user'', content = ''b''\<rparr>] True"
  have q: "llm_chat_apply_template (llm_chat_detect_template (chatTemplate ?s)) (start_messages ''b'' ?s) True
      = Some ?q"
    by (simp add: demo_llm_def demo_render start_messages_def c_str_def)
  have "\<exists>s'. startCompletion demo_engine ''b'' ?s = (Inr (), s')"
    using startCompletion_tokenizes_rest [OF q, of demo_engine]
    by (simp add: demo_defs chat_glmedge_def) blast
  then obtain s' where s': "startCompletion demo_engine ''b'' ?s = (Inr (), s')" by blast
  from history_kept_without_store [OF s' _ q] s' show ?thesis
    by (simp add: demo_defs chat_glmedge_def c_str_def)
qed

text \<open>
  With stop words the streamed text and the stored message can differ: a stop word that
  arrives over several tokens has been streamed in part before it is recognised. Some run streams
  \<open>ab\<close> and stores \<open>a\<close>.
\<close>

theorem stop_word_streamed_in_part:
  "\<exists>s'. response_loop demo_engine [(0, 1), (1, 2)] [] ((demo_llm [1, 5])\<lparr>stopWords := [''b<'']\<rparr>) =
      Some (Inr ''ab'', s') \<and>
    messages s' = [\<lparr>role = ''assistant'', content = ''a''\<rparr>]"
proof -
  have "isValidUtf8 (Some ''ab'')" "isValidUtf8 (Some ''<e>'')"
    by code_simp+
  then show ?thesis
    by (simp add: demo_defs loop_defs batch_tokens_def addChatMessage_def c_str_def)
qed

end
