(* ===== verification/KV_Cells.thy ===== *)
theory KV_Cells
  imports Prelude "HOL-Library.Multiset"
begin

text \<open>
  The cells of the KV cache, \<open>llama.cpp/src/llama-kv-cells.h\<close>: the class
  \<open>llama_kv_cells_unified\<close> with its arrays and the two indices it maintains beside them,
  the set of used cells and the positions of each sequence.

  \<open>std::bitset<LLAMA_MAX_SEQ>\<close> is a set of sequence ids; \<open>std::map<llama_pos, int>\<close>,
  which counts how often a position occurs in a sequence, is a multiset of positions; the array
  \<open>seq_pos[LLAMA_MAX_SEQ]\<close> is a function of the sequence id. Positions are \<open>int32_t\<close>
  values whose overflow is undefined in C++; the model does not bound them. The asserts of the
  source are compiled out of a release build: they are not part of the definitions but
  hypotheses of the lemmas.
\<close>

section \<open>State and operations\<close>

record kv_cells =
  kc_has_shift :: bool
  kc_used :: "nat set"
  kc_pos :: "llama_pos list"
  kc_shift :: "llama_pos list"
  kc_seq :: "nat set list"
  kc_seq_pos :: "nat \<Rightarrow> llama_pos multiset"

definition new_cells :: kv_cells where
  "new_cells = \<lparr>kc_has_shift = False, kc_used = {}, kc_pos = [], kc_shift = [], kc_seq = [],
     kc_seq_pos = (\<lambda>_. {#})\<rparr>"

definition cells_size :: "kv_cells \<Rightarrow> nat" where
  "cells_size c = length (kc_pos c)"

definition cells_reset :: "kv_cells \<Rightarrow> kv_cells" where
  "cells_reset c = c\<lparr>
     kc_pos := map (\<lambda>_. -1) (kc_pos c),
     kc_shift := map (\<lambda>_. 0) (kc_shift c),
     kc_seq := map (\<lambda>_. {}) (kc_seq c),
     kc_has_shift := False,
     kc_used := {},
     kc_seq_pos := (\<lambda>s. {#})\<rparr>"

definition cells_reset_shift :: "kv_cells \<Rightarrow> kv_cells" where
  "cells_reset_shift c = c\<lparr>kc_has_shift := False, kc_shift := map (\<lambda>_. 0) (kc_shift c)\<rparr>"

text \<open>\<open>std::vector::resize\<close> keeps the front and appends default values.\<close>

definition resize_with :: "'a \<Rightarrow> 'a list \<Rightarrow> nat \<Rightarrow> 'a list" where
  "resize_with d xs n = take n xs @ replicate (n - length xs) d"

definition cells_resize :: "kv_cells \<Rightarrow> nat \<Rightarrow> kv_cells" where
  "cells_resize c n = cells_reset (c\<lparr>
     kc_pos := resize_with 0 (kc_pos c) n,
     kc_shift := resize_with 0 (kc_shift c) n,
     kc_seq := resize_with {} (kc_seq c) n\<rparr>)"

definition cells_is_empty :: "kv_cells \<Rightarrow> nat \<Rightarrow> bool" where
  "cells_is_empty c i = (kc_pos c ! i = -1)"

definition cells_get_used :: "kv_cells \<Rightarrow> nat" where
  "cells_get_used c = card (kc_used c)"

definition cells_used_min :: "kv_cells \<Rightarrow> nat" where
  "cells_used_min c = (if kc_used c = {} then 0 else Min (kc_used c))"

definition cells_used_max_p1 :: "kv_cells \<Rightarrow> nat" where
  "cells_used_max_p1 c = (if kc_used c = {} then 0 else Max (kc_used c) + 1)"

definition cells_get_has_shift :: "kv_cells \<Rightarrow> bool" where
  "cells_get_has_shift c = kc_has_shift c"

text \<open>The helpers that keep \<open>seq_pos\<close>: one position of one sequence, or a whole cell.\<close>

definition seq_pos_dec :: "nat \<Rightarrow> llama_pos \<Rightarrow> kv_cells \<Rightarrow> kv_cells" where
  "seq_pos_dec s p c = c\<lparr>kc_seq_pos := (kc_seq_pos c)(s := kc_seq_pos c s - {#p#})\<rparr>"

definition seq_pos_inc :: "nat \<Rightarrow> llama_pos \<Rightarrow> kv_cells \<Rightarrow> kv_cells" where
  "seq_pos_inc s p c = c\<lparr>kc_seq_pos := (kc_seq_pos c)(s := add_mset p (kc_seq_pos c s))\<rparr>"

definition seq_pos_rm :: "nat \<Rightarrow> kv_cells \<Rightarrow> kv_cells" where
  "seq_pos_rm i c = fold (\<lambda>s c. if s \<in> kc_seq c ! i then seq_pos_dec s (kc_pos c ! i) c else c)
     [0..<LLAMA_MAX_SEQ] c"

definition seq_pos_add :: "nat \<Rightarrow> kv_cells \<Rightarrow> kv_cells" where
  "seq_pos_add i c = fold (\<lambda>s c. if s \<in> kc_seq c ! i then seq_pos_inc s (kc_pos c ! i) c else c)
     [0..<LLAMA_MAX_SEQ] c"

definition cells_mv :: "kv_cells \<Rightarrow> nat \<Rightarrow> nat \<Rightarrow> kv_cells" where
  "cells_mv c isrc idst =
     (let c = c\<lparr>kc_pos := (kc_pos c)[idst := kc_pos c ! isrc],
                kc_shift := (kc_shift c)[idst := kc_shift c ! isrc],
                kc_seq := (kc_seq c)[idst := kc_seq c ! isrc]\<rparr>;
          c = c\<lparr>kc_pos := (kc_pos c)[isrc := -1],
                kc_shift := (kc_shift c)[isrc := 0],
                kc_seq := (kc_seq c)[isrc := {}]\<rparr>
      in c\<lparr>kc_used := insert idst (kc_used c - {isrc})\<rparr>)"

text \<open>Copies of a range of cells, or of listed cells: positions and sequences only.\<close>

definition cells_cp :: "kv_cells \<Rightarrow> nat list \<Rightarrow> kv_cells" where
  "cells_cp c idxs = (cells_resize new_cells (length idxs))
     \<lparr>kc_pos := map (\<lambda>idx. kc_pos c ! idx) idxs, kc_seq := map (\<lambda>idx. kc_seq c ! idx) idxs\<rparr>"

definition cells_cp_range :: "kv_cells \<Rightarrow> nat \<Rightarrow> nat \<Rightarrow> kv_cells" where
  "cells_cp_range c i n = cells_cp c [i..<i + n]"

text \<open>One step of the loop of \<open>set\<close>, and the two loops.\<close>

definition cells_set1 :: "nat \<Rightarrow> llama_pos \<Rightarrow> nat set \<Rightarrow> kv_cells \<Rightarrow> kv_cells" where
  "cells_set1 idx p S c =
     (let c = (if kc_pos c ! idx = -1 \<and> p \<noteq> -1 then c\<lparr>kc_used := insert idx (kc_used c)\<rparr> else c);
          c = (if kc_pos c ! idx \<noteq> -1 \<and> p = -1 then c\<lparr>kc_used := kc_used c - {idx}\<rparr> else c);
          c = (if kc_pos c ! idx \<noteq> -1 then seq_pos_rm idx c else c);
          c = c\<lparr>kc_pos := (kc_pos c)[idx := p], kc_seq := (kc_seq c)[idx := S]\<rparr>
      in if kc_pos c ! idx \<noteq> -1 then seq_pos_add idx c else c)"

definition cells_set :: "kv_cells \<Rightarrow> nat list \<Rightarrow> kv_cells \<Rightarrow> kv_cells" where
  "cells_set c idxs other =
     fold (\<lambda>j c. cells_set1 (idxs ! j) (kc_pos other ! j) (kc_seq other ! j) c)
       [0..<length (kc_pos other)] c"

definition cells_set_range :: "kv_cells \<Rightarrow> nat \<Rightarrow> kv_cells \<Rightarrow> kv_cells" where
  "cells_set_range c i other = cells_set c [i..<i + length (kc_pos other)] other"

definition cells_rm :: "nat \<Rightarrow> kv_cells \<Rightarrow> kv_cells" where
  "cells_rm i c =
     (let c = seq_pos_rm i c;
          c = c\<lparr>kc_seq := (kc_seq c)[i := {}]\<rparr>
      in c\<lparr>kc_pos := (kc_pos c)[i := -1], kc_shift := (kc_shift c)[i := 0],
           kc_used := kc_used c - {i}\<rparr>)"

definition cells_seq_rm :: "nat \<Rightarrow> nat \<Rightarrow> kv_cells \<Rightarrow> bool \<times> kv_cells" where
  "cells_seq_rm i seq_id c =
     (let c = c\<lparr>kc_seq := (kc_seq c)[i := kc_seq c ! i - {seq_id}]\<rparr>;
          c = seq_pos_dec seq_id (kc_pos c ! i) c
      in if kc_seq c ! i = {}
         then (True, c\<lparr>kc_pos := (kc_pos c)[i := -1], kc_shift := (kc_shift c)[i := 0],
                       kc_used := kc_used c - {i}\<rparr>)
         else (False, c))"

definition cells_seq_keep :: "nat \<Rightarrow> nat \<Rightarrow> kv_cells \<Rightarrow> bool \<times> kv_cells" where
  "cells_seq_keep i seq_id c =
     (if seq_id \<in> kc_seq c ! i then
        (let c = seq_pos_rm i c;
             c = c\<lparr>kc_seq := (kc_seq c)[i := {seq_id}]\<rparr>
         in (False, seq_pos_inc seq_id (kc_pos c ! i) c))
      else if kc_seq c ! i \<noteq> {} then
        (let c = seq_pos_rm i c;
             c = c\<lparr>kc_seq := (kc_seq c)[i := {}]\<rparr>
         in (True, c\<lparr>kc_pos := (kc_pos c)[i := -1], kc_shift := (kc_shift c)[i := 0],
                     kc_used := kc_used c - {i}\<rparr>))
      else (False, c))"

definition cells_seq_count :: "kv_cells \<Rightarrow> nat \<Rightarrow> nat" where
  "cells_seq_count c i = card (kc_seq c ! i)"

definition cells_seq_has :: "kv_cells \<Rightarrow> nat \<Rightarrow> nat \<Rightarrow> bool" where
  "cells_seq_has c i seq_id = (seq_id \<in> kc_seq c ! i)"

definition cells_seq_add :: "nat \<Rightarrow> nat \<Rightarrow> kv_cells \<Rightarrow> kv_cells" where
  "cells_seq_add i seq_id c =
     (let c = c\<lparr>kc_seq := (kc_seq c)[i := insert seq_id (kc_seq c ! i)]\<rparr>
      in seq_pos_inc seq_id (kc_pos c ! i) c)"

text \<open>\<open>seq_get\<close>: the first set bit, \<open>None\<close> for the \<open>-1\<close> of no bit.\<close>

definition cells_seq_get :: "kv_cells \<Rightarrow> nat \<Rightarrow> nat option" where
  "cells_seq_get c i = find (\<lambda>s. s \<in> kc_seq c ! i) [0..<LLAMA_MAX_SEQ]"

definition cells_seq_pos_min :: "kv_cells \<Rightarrow> nat \<Rightarrow> llama_pos" where
  "cells_seq_pos_min c seq_id =
     (if kc_seq_pos c seq_id = {#} then -1 else Min_mset (kc_seq_pos c seq_id))"

definition cells_seq_pos_max :: "kv_cells \<Rightarrow> nat \<Rightarrow> llama_pos" where
  "cells_seq_pos_max c seq_id =
     (if kc_seq_pos c seq_id = {#} then -1 else Max_mset (kc_seq_pos c seq_id))"

definition cells_pos_get :: "kv_cells \<Rightarrow> nat \<Rightarrow> llama_pos" where
  "cells_pos_get c i = kc_pos c ! i"

definition cells_get_shift :: "kv_cells \<Rightarrow> nat \<Rightarrow> llama_pos" where
  "cells_get_shift c i = kc_shift c ! i"

definition cells_pos_in :: "kv_cells \<Rightarrow> nat \<Rightarrow> llama_pos \<Rightarrow> llama_pos \<Rightarrow> bool" where
  "cells_pos_in c i p0 p1 = (kc_pos c ! i \<ge> p0 \<and> kc_pos c ! i < p1)"

definition cells_pos_set :: "nat \<Rightarrow> llama_pos \<Rightarrow> kv_cells \<Rightarrow> kv_cells" where
  "cells_pos_set i p c = c\<lparr>kc_pos := (kc_pos c)[i := p], kc_used := insert i (kc_used c)\<rparr>"

definition cells_pos_add :: "nat \<Rightarrow> llama_pos \<Rightarrow> kv_cells \<Rightarrow> bool \<times> kv_cells" where
  "cells_pos_add i d c =
     (let c = seq_pos_rm i c;
          c = c\<lparr>kc_pos := (kc_pos c)[i := kc_pos c ! i + d],
                kc_shift := (kc_shift c)[i := kc_shift c ! i + d], kc_has_shift := True\<rparr>
      in if kc_pos c ! i < 0
         then (True, c\<lparr>kc_seq := (kc_seq c)[i := {}], kc_pos := (kc_pos c)[i := -1],
                       kc_shift := (kc_shift c)[i := 0], kc_used := kc_used c - {i}\<rparr>)
         else (False, seq_pos_add i c))"

text \<open>C++ integer division truncates towards zero.\<close>

definition c_div :: "int \<Rightarrow> int \<Rightarrow> int" where
  "c_div a b = sgn a * sgn b * (\<bar>a\<bar> div \<bar>b\<bar>)"

definition cells_pos_div :: "nat \<Rightarrow> int \<Rightarrow> kv_cells \<Rightarrow> kv_cells" where
  "cells_pos_div i d c =
     (let p_old = kc_pos c ! i;
          c = seq_pos_rm i c;
          c = c\<lparr>kc_pos := (kc_pos c)[i := c_div (kc_pos c ! i) d]\<rparr>;
          c = c\<lparr>kc_shift := (kc_shift c)[i := kc_shift c ! i + (p_old - kc_pos c ! i)]\<rparr>;
          c = seq_pos_add i c
      in c\<lparr>kc_has_shift := True\<rparr>)"

section \<open>The indices as functions of the cells\<close>

text \<open>The positions at which a sequence occurs, computed from the arrays.\<close>

definition occ1 :: "llama_pos \<Rightarrow> nat set \<Rightarrow> nat \<Rightarrow> llama_pos multiset" where
  "occ1 p S s = (if s \<in> S then {#p#} else {#})"

definition occ :: "llama_pos list \<Rightarrow> nat set list \<Rightarrow> nat \<Rightarrow> llama_pos multiset" where
  "occ p q s = (\<Sum>i<length p. occ1 (p ! i) (q ! i) s)"

lemma set_occ1 [simp]: "set_mset (occ1 p S s) = (if s \<in> S then {p} else {})"
  by (simp add: occ1_def)

lemma occ1_empty [simp]: "occ1 p {} s = {#}"
  by (simp add: occ1_def)

lemma occ_split:
  assumes "i < length p"
  shows "occ p q s = occ1 (p ! i) (q ! i) s + (\<Sum>j\<in>{..<length p} - {i}. occ1 (p ! j) (q ! j) s)"
  unfolding occ_def using assms by (subst sum.remove [of _ i]) auto

text \<open>Writing one cell removes its old contribution and adds the new one.\<close>

lemma occ_update:
  assumes "i < length p" and "length q = length p"
  shows "occ (p[i := x]) (q[i := S]) s = occ p q s - occ1 (p ! i) (q ! i) s + occ1 x S s"
proof -
  have "(\<Sum>j\<in>{..<length p} - {i}. occ1 (p[i := x] ! j) (q[i := S] ! j) s) =
    (\<Sum>j\<in>{..<length p} - {i}. occ1 (p ! j) (q ! j) s)"
    by (rule sum.cong) auto
  with assms show ?thesis
    using occ_split [of i "p[i := x]" "q[i := S]" s] occ_split [of i p q s] by simp
qed

lemma set_occ: "set_mset (occ p q s) = {p ! i |i. i < length p \<and> s \<in> q ! i}"
  unfolding occ_def by (subst set_mset_sum) (auto split: if_splits)

lemma occ1_subset: "i < length p \<Longrightarrow> occ1 (p ! i) (q ! i) s \<subseteq># occ p q s"
  by (simp add: occ_split [of i p q s])

text \<open>
  The invariant: the arrays have one length, an empty cell holds nothing, and the two indices are
  what the arrays say.
\<close>

definition cell_ok :: "llama_pos \<Rightarrow> llama_pos \<Rightarrow> nat set \<Rightarrow> bool" where
  "cell_ok p sh S = (-1 \<le> p \<and> (p = -1 \<longrightarrow> S = {} \<and> sh = 0) \<and> S \<subseteq> {..<LLAMA_MAX_SEQ})"

definition kv_inv :: "kv_cells \<Rightarrow> bool" where
  "kv_inv c =
     (length (kc_shift c) = length (kc_pos c) \<and> length (kc_seq c) = length (kc_pos c) \<and>
      (\<forall>i < length (kc_pos c). cell_ok (kc_pos c ! i) (kc_shift c ! i) (kc_seq c ! i)) \<and>
      kc_used c = {i. i < length (kc_pos c) \<and> kc_pos c ! i \<noteq> -1} \<and>
      kc_seq_pos c = occ (kc_pos c) (kc_seq c))"

section \<open>Every operation is the write of one cell\<close>

text \<open>
  The abstract operation: cell \<open>i\<close> becomes \<open>(p, sh, S)\<close>, and the indices follow.
  Under the invariant and its asserts, every operation of the class that changes a cell is one
  such write.
\<close>

definition put_cell :: "nat \<Rightarrow> llama_pos \<Rightarrow> llama_pos \<Rightarrow> nat set \<Rightarrow> kv_cells \<Rightarrow> kv_cells" where
  "put_cell i p sh S c = c\<lparr>
     kc_pos := (kc_pos c)[i := p], kc_shift := (kc_shift c)[i := sh], kc_seq := (kc_seq c)[i := S],
     kc_used := (if p = -1 then kc_used c - {i} else insert i (kc_used c)),
     kc_seq_pos := (\<lambda>s. kc_seq_pos c s - occ1 (kc_pos c ! i) (kc_seq c ! i) s + occ1 p S s)\<rparr>"

lemma put_cell_simps [simp]:
  "kc_has_shift (put_cell i p sh S c) = kc_has_shift c"
  "kc_pos (put_cell i p sh S c) = (kc_pos c)[i := p]"
  "kc_shift (put_cell i p sh S c) = (kc_shift c)[i := sh]"
  "kc_seq (put_cell i p sh S c) = (kc_seq c)[i := S]"
  "cells_size (put_cell i p sh S c) = cells_size c"
  by (simp_all add: put_cell_def cells_size_def)

lemma kv_invD:
  assumes "kv_inv c" and "i < cells_size c"
  shows "-1 \<le> kc_pos c ! i" and "kc_pos c ! i = -1 \<Longrightarrow> kc_seq c ! i = {}"
    and "kc_pos c ! i = -1 \<Longrightarrow> kc_shift c ! i = 0" and "kc_seq c ! i \<subseteq> {..<LLAMA_MAX_SEQ}"
    and "i \<in> kc_used c \<longleftrightarrow> kc_pos c ! i \<noteq> -1"
    and "length (kc_seq c) = cells_size c" and "length (kc_shift c) = cells_size c"
    and "s \<in> kc_seq c ! i \<Longrightarrow> kc_pos c ! i \<noteq> -1"
  using assms by (auto simp: kv_inv_def cell_ok_def cells_size_def)

lemma kv_inv_lengths:
  assumes "kv_inv c"
  shows "length (kc_seq c) = length (kc_pos c)" and "length (kc_shift c) = length (kc_pos c)"
  using assms by (auto simp: kv_inv_def)

lemma kv_inv_put:
  assumes inv: "kv_inv c" and i: "i < cells_size c" and ok: "cell_ok p sh S"
  shows "kv_inv (put_cell i p sh S c)"
proof -
  have "kc_seq_pos (put_cell i p sh S c) = occ ((kc_pos c)[i := p]) ((kc_seq c)[i := S])"
    using inv i by (auto simp: put_cell_def kv_inv_def cells_size_def occ_update)
  moreover have "kc_used (put_cell i p sh S c) =
    {j. j < length (kc_pos c) \<and> (kc_pos c)[i := p] ! j \<noteq> -1}"
    using inv i by (auto simp: put_cell_def kv_inv_def cells_size_def nth_list_update)
  ultimately show ?thesis
    using inv i ok by (auto simp: kv_inv_def cells_size_def nth_list_update)
qed

lemma kv_inv_has_shift [simp]: "kv_inv (c\<lparr>kc_has_shift := b\<rparr>) = kv_inv c"
  by (simp add: kv_inv_def)

text \<open>The two loops over the sequence ids.\<close>

lemma seq_pos_rm_fold:
  "distinct xs \<Longrightarrow>
   fold (\<lambda>s c. if s \<in> kc_seq c ! i then seq_pos_dec s (kc_pos c ! i) c else c) xs c =
   c\<lparr>kc_seq_pos := (\<lambda>s. if s \<in> set xs then kc_seq_pos c s - occ1 (kc_pos c ! i) (kc_seq c ! i) s
     else kc_seq_pos c s)\<rparr>"
  by (induction xs arbitrary: c) (auto simp: seq_pos_dec_def occ1_def intro!: kv_cells.equality)

lemma seq_pos_add_fold:
  "distinct xs \<Longrightarrow>
   fold (\<lambda>s c. if s \<in> kc_seq c ! i then seq_pos_inc s (kc_pos c ! i) c else c) xs c =
   c\<lparr>kc_seq_pos := (\<lambda>s. if s \<in> set xs then kc_seq_pos c s + occ1 (kc_pos c ! i) (kc_seq c ! i) s
     else kc_seq_pos c s)\<rparr>"
  by (induction xs arbitrary: c) (auto simp: seq_pos_inc_def occ1_def intro!: kv_cells.equality)

lemma seq_pos_rm_eq:
  assumes "kc_seq c ! i \<subseteq> {..<LLAMA_MAX_SEQ}"
  shows "seq_pos_rm i c =
    c\<lparr>kc_seq_pos := (\<lambda>s. kc_seq_pos c s - occ1 (kc_pos c ! i) (kc_seq c ! i) s)\<rparr>"
  unfolding seq_pos_rm_def using assms
  by (subst seq_pos_rm_fold) (auto simp: occ1_def fun_eq_iff intro!: kv_cells.equality)

lemma seq_pos_add_eq:
  assumes "kc_seq c ! i \<subseteq> {..<LLAMA_MAX_SEQ}"
  shows "seq_pos_add i c =
    c\<lparr>kc_seq_pos := (\<lambda>s. kc_seq_pos c s + occ1 (kc_pos c ! i) (kc_seq c ! i) s)\<rparr>"
  unfolding seq_pos_add_def using assms
  by (subst seq_pos_add_fold) (auto simp: occ1_def fun_eq_iff intro!: kv_cells.equality)

named_theorems cell_put \<open>operations of the cells as writes of one cell\<close>

lemma cells_rm_put [cell_put]:
  assumes "kv_inv c" and "i < cells_size c"
  shows "cells_rm i c = put_cell i (-1) 0 {} c"
  using kv_invD [OF assms]
  by (simp add: cells_rm_def seq_pos_rm_eq put_cell_def)

lemma cells_seq_rm_put [cell_put]:
  assumes "kv_inv c" and "i < cells_size c" and "s \<in> kc_seq c ! i"
  shows "cells_seq_rm i s c =
    (if kc_seq c ! i = {s} then (True, put_cell i (-1) 0 {} c)
     else (False, put_cell i (kc_pos c ! i) (kc_shift c ! i) (kc_seq c ! i - {s}) c))"
proof -
  note k = kv_invD [OF assms(1,2)]
  have u: "insert i (kc_used c) = kc_used c"
    using k assms(3) by auto
  have d: "(kc_seq_pos c)(s := kc_seq_pos c s - {#kc_pos c ! i#}) =
    (\<lambda>t. kc_seq_pos c t - occ1 (kc_pos c ! i) (kc_seq c ! i) t + occ1 (kc_pos c ! i) (kc_seq c ! i - {s}) t)"
    if "kc_seq c ! i \<noteq> {s} \<or> True"
  proof
    fix t
    have "occ1 (kc_pos c ! i) (kc_seq c ! i) t \<subseteq># kc_seq_pos c t"
      using assms by (auto simp: kv_inv_def cells_size_def intro!: occ1_subset)
    with assms(3) show "((kc_seq_pos c)(s := kc_seq_pos c s - {#kc_pos c ! i#})) t =
      kc_seq_pos c t - occ1 (kc_pos c ! i) (kc_seq c ! i) t + occ1 (kc_pos c ! i) (kc_seq c ! i - {s}) t"
      by (auto simp: occ1_def)
  qed
  show ?thesis
  proof (cases "kc_seq c ! i = {s}")
    case True
    with assms k show ?thesis
      by (auto simp: cells_seq_rm_def Let_def seq_pos_dec_def put_cell_def cells_size_def occ1_def
        intro!: kv_cells.equality)
  next
    case False
    with assms(3) have "kc_seq c ! i - {s} \<noteq> {}" by auto
    with False assms k u d show ?thesis
      by (simp add: cells_seq_rm_def Let_def seq_pos_dec_def put_cell_def cells_size_def)
  qed
qed

lemma cells_seq_keep_put [cell_put]:
  assumes "kv_inv c" and "i < cells_size c"
  shows "cells_seq_keep i s c =
    (if s \<in> kc_seq c ! i then (False, put_cell i (kc_pos c ! i) (kc_shift c ! i) {s} c)
     else if kc_seq c ! i \<noteq> {} then (True, put_cell i (-1) 0 {} c)
     else (False, c))"
proof -
  note k = kv_invD [OF assms]
  have u: "insert i (kc_used c) = kc_used c" if "s \<in> kc_seq c ! i"
    using k that by auto
  show ?thesis
    using assms k u
    by (auto simp: cells_seq_keep_def Let_def seq_pos_rm_eq seq_pos_inc_def put_cell_def cells_size_def occ1_def
        intro!: kv_cells.equality)
qed

lemma cells_seq_add_put [cell_put]:
  assumes "kv_inv c" and "i < cells_size c" and "kc_pos c ! i \<noteq> -1" and "s \<notin> kc_seq c ! i"
  shows "cells_seq_add i s c =
    put_cell i (kc_pos c ! i) (kc_shift c ! i) (insert s (kc_seq c ! i)) c"
proof -
  note k = kv_invD [OF assms(1,2)]
  have u: "insert i (kc_used c) = kc_used c"
    using k assms(3) by auto
  have "occ1 (kc_pos c ! i) (kc_seq c ! i) t \<subseteq># kc_seq_pos c t" for t
    using assms by (auto simp: kv_inv_def cells_size_def intro!: occ1_subset)
  then have "kc_seq_pos c t - occ1 (kc_pos c ! i) (kc_seq c ! i) t + occ1 (kc_pos c ! i) (kc_seq c ! i) t = kc_seq_pos c t" for t
    by simp
  with assms(4) have d: "(kc_seq_pos c)(s := add_mset (kc_pos c ! i) (kc_seq_pos c s)) =
    (\<lambda>t. kc_seq_pos c t - occ1 (kc_pos c ! i) (kc_seq c ! i) t + occ1 (kc_pos c ! i) (insert s (kc_seq c ! i)) t)"
    by (auto simp: occ1_def fun_eq_iff)
  with assms k u show ?thesis
    by (simp add: cells_seq_add_def seq_pos_inc_def put_cell_def)
qed

lemma cells_pos_set_put [cell_put]:
  assumes "kv_inv c" and "i < cells_size c" and "kc_pos c ! i = -1" and "p \<noteq> -1"
  shows "cells_pos_set i p c = put_cell i p 0 {} c"
proof -
  note k = kv_invD [OF assms(1,2)]
  have "(kc_shift c)[i := 0] = kc_shift c" and "(kc_seq c)[i := {}] = kc_seq c"
    using k(2,3) assms(3) by (metis list_update_id)+
  with assms k(2) show ?thesis
    by (auto simp: cells_pos_set_def put_cell_def occ1_def intro!: kv_cells.equality)
qed

lemma cells_pos_add_put [cell_put]:
  assumes "kv_inv c" and "i < cells_size c" and "kc_pos c ! i \<noteq> -1"
  shows "cells_pos_add i d c =
    (if kc_pos c ! i + d < 0 then (True, (put_cell i (-1) 0 {} c)\<lparr>kc_has_shift := True\<rparr>)
     else (False, (put_cell i (kc_pos c ! i + d) (kc_shift c ! i + d) (kc_seq c ! i) c)
       \<lparr>kc_has_shift := True\<rparr>))"
proof -
  note k = kv_invD [OF assms(1,2)]
  have u: "insert i (kc_used c) = kc_used c"
    using k assms(3) by auto
  show ?thesis
    using k u assms
    by (auto simp: cells_pos_add_def Let_def seq_pos_rm_eq seq_pos_add_eq put_cell_def cells_size_def
      intro!: kv_cells.equality)
qed

lemma cells_pos_div_put [cell_put]:
  assumes "kv_inv c" and "i < cells_size c" and "kc_pos c ! i \<noteq> -1" and "0 < d"
  shows "cells_pos_div i d c =
    (put_cell i (c_div (kc_pos c ! i) d)
      (kc_shift c ! i + (kc_pos c ! i - c_div (kc_pos c ! i) d)) (kc_seq c ! i) c)
      \<lparr>kc_has_shift := True\<rparr>"
proof -
  note k = kv_invD [OF assms(1,2)]
  have u: "insert i (kc_used c) = kc_used c"
    using k assms(3) by auto
  have "0 \<le> kc_pos c ! i"
    using k(1) assms(3) by linarith
  then have "0 \<le> c_div (kc_pos c ! i) d"
    using assms(4) by (auto simp: c_div_def sgn_if pos_imp_zdiv_nonneg_iff)
  then have n: "c_div (kc_pos c ! i) d \<noteq> -1" by linarith
  show ?thesis
    using k u n assms
    by (auto simp: cells_pos_div_def Let_def seq_pos_rm_eq seq_pos_add_eq put_cell_def cells_size_def
      intro!: kv_cells.equality)
qed

lemma cells_set1_put [cell_put]:
  assumes "kv_inv c" and "i < cells_size c" and "S \<subseteq> {..<LLAMA_MAX_SEQ}" and "p = -1 \<longrightarrow> S = {}"
  shows "cells_set1 i p S c = put_cell i p (kc_shift c ! i) S c"
proof -
  note k = kv_invD [OF assms(1,2)]
  have z: "occ1 (kc_pos c ! i) (kc_seq c ! i) t = {#}" if "kc_pos c ! i = -1" for t
    using k(2) that by (simp add: occ1_def)
  show ?thesis
    using k z assms
    by (auto simp: cells_set1_def Let_def seq_pos_rm_eq seq_pos_add_eq put_cell_def cells_size_def insert_absorb
      intro!: kv_cells.equality)
qed

lemma cells_mv_put [cell_put]:
  assumes "kv_inv c" and "i < cells_size c" and "j < cells_size c"
    and "kc_pos c ! i \<noteq> -1" and "kc_pos c ! j = -1"
  shows "cells_mv c i j =
    put_cell i (-1) 0 {} (put_cell j (kc_pos c ! i) (kc_shift c ! i) (kc_seq c ! i) c)"
proof -
  note k = kv_invD [OF assms(1,2)] kv_invD [OF assms(1,3)]
  have ij: "i \<noteq> j" using assms by auto
  have sub: "occ1 (kc_pos c ! i) (kc_seq c ! i) t \<subseteq># kc_seq_pos c t" for t
    using assms by (auto simp: kv_inv_def cells_size_def intro!: occ1_subset)
  then have sp: "kc_seq_pos c t - occ1 (kc_pos c ! j) (kc_seq c ! j) t + occ1 (kc_pos c ! i) (kc_seq c ! i) t
     - occ1 (kc_pos c ! i) (kc_seq c ! i) t = kc_seq_pos c t" for t
    using k(10) assms(5) by simp
  show ?thesis
    using ij assms k sp
    by (auto simp: cells_mv_def Let_def put_cell_def cells_size_def
      intro!: kv_cells.equality)
qed


section \<open>Runs of the cells\<close>

text \<open>
  What a client may do: every operation under the assertion the source states for it. \<open>set\<close>
  writes back saved cells (\<open>kv_saved\<close>, what \<open>cp\<close> returns) over cells that carry no shift.
\<close>

definition kv_saved :: "kv_cells \<Rightarrow> bool" where
  "kv_saved d = (length (kc_seq d) = length (kc_pos d) \<and>
     (\<forall>j < length (kc_pos d). cell_ok (kc_pos d ! j) 0 (kc_seq d ! j)))"

inductive cells_step :: "kv_cells \<Rightarrow> kv_cells \<Rightarrow> bool" where
  resize: "cells_step c (cells_resize c n)"
| reset: "cells_step c (cells_reset c)"
| reset_shift: "cells_step c (cells_reset_shift c)"
| mv: "\<lbrakk>i < cells_size c; j < cells_size c; \<not> cells_is_empty c i; cells_is_empty c j\<rbrakk> \<Longrightarrow>
    cells_step c (cells_mv c i j)"
| rm: "\<lbrakk>i < cells_size c; \<not> cells_is_empty c i\<rbrakk> \<Longrightarrow> cells_step c (cells_rm i c)"
| seq_rm: "\<lbrakk>i < cells_size c; cells_seq_has c i s\<rbrakk> \<Longrightarrow> cells_step c (snd (cells_seq_rm i s c))"
| seq_keep: "\<lbrakk>i < cells_size c; s < LLAMA_MAX_SEQ\<rbrakk> \<Longrightarrow>
    cells_step c (snd (cells_seq_keep i s c))"
| seq_add: "\<lbrakk>i < cells_size c; s < LLAMA_MAX_SEQ; \<not> cells_is_empty c i; \<not> cells_seq_has c i s\<rbrakk> \<Longrightarrow>
    cells_step c (cells_seq_add i s c)"
| pos_set: "\<lbrakk>i < cells_size c; cells_is_empty c i; 0 \<le> p\<rbrakk> \<Longrightarrow> cells_step c (cells_pos_set i p c)"
| pos_add: "\<lbrakk>i < cells_size c; \<not> cells_is_empty c i\<rbrakk> \<Longrightarrow> cells_step c (snd (cells_pos_add i d c))"
| pos_div: "\<lbrakk>i < cells_size c; \<not> cells_is_empty c i; 0 < d\<rbrakk> \<Longrightarrow> cells_step c (cells_pos_div i d c)"
| set_idxs: "\<lbrakk>kv_saved d; length idxs = cells_size d; set idxs \<subseteq> {..<cells_size c};
    \<forall>i\<in>set idxs. cells_get_shift c i = 0\<rbrakk> \<Longrightarrow> cells_step c (cells_set c idxs d)"

inductive cells_reachable :: "kv_cells \<Rightarrow> bool" where
  new: "cells_reachable new_cells"
| step: "cells_reachable c \<Longrightarrow> cells_step c c' \<Longrightarrow> cells_reachable c'"

lemma occ_empty: "occ p (map (\<lambda>_. {}) q) s = {#}" if "length p = length q"
  using that by (simp add: occ_def)

lemma occ_Nil [simp]: "occ [] q s = {#}"
  by (simp add: occ_def)

lemma kv_inv_reset:
  "length (kc_seq c) = length (kc_pos c) \<Longrightarrow> length (kc_shift c) = length (kc_pos c) \<Longrightarrow>
   kv_inv (cells_reset c)"
  by (auto simp: kv_inv_def cells_reset_def cell_ok_def occ_empty fun_eq_iff)

lemma length_resize_with [simp]: "length (resize_with d xs n) = n"
  by (simp add: resize_with_def)

lemma kv_inv_resize: "kv_inv (cells_resize c n)"
  unfolding cells_resize_def by (rule kv_inv_reset) simp_all

lemma kv_inv_new: "kv_inv new_cells"
  by (simp add: kv_inv_def new_cells_def fun_eq_iff)

lemma kv_inv_reset_shift: "kv_inv c \<Longrightarrow> kv_inv (cells_reset_shift c)"
  by (auto simp: kv_inv_def cells_reset_shift_def cell_ok_def)

text \<open>\<open>set\<close> as a sequence of writes.\<close>

lemma kv_saved_cp: "kv_inv c \<Longrightarrow> set idxs \<subseteq> {..<cells_size c} \<Longrightarrow> kv_saved (cells_cp c idxs)"
  by (auto simp: kv_saved_def cells_cp_def kv_inv_def cell_ok_def cells_size_def set_conv_nth)

lemma cells_set1_saved:
  assumes "kv_inv c" and "kv_saved d" and "j < cells_size d" and "i < cells_size c"
    and "kc_shift c ! i = 0"
  shows "cells_set1 i (kc_pos d ! j) (kc_seq d ! j) c = put_cell i (kc_pos d ! j) 0 (kc_seq d ! j) c"
    and "kv_inv (put_cell i (kc_pos d ! j) 0 (kc_seq d ! j) c)"
  using assms cells_set1_put [OF assms(1,4), of "kc_seq d ! j" "kc_pos d ! j"]
  by (auto simp: kv_saved_def cell_ok_def cells_size_def intro!: kv_inv_put)

lemma cells_set_fold:
  assumes "kv_inv c" and "kv_saved d" and "set js \<subseteq> {..<cells_size d}"
    and "\<forall>j\<in>set js. idxs ! j < cells_size c \<and> kc_shift c ! (idxs ! j) = 0"
  shows "fold (\<lambda>j c. cells_set1 (idxs ! j) (kc_pos d ! j) (kc_seq d ! j) c) js c =
      fold (\<lambda>j. put_cell (idxs ! j) (kc_pos d ! j) 0 (kc_seq d ! j)) js c \<and>
    kv_inv (fold (\<lambda>j. put_cell (idxs ! j) (kc_pos d ! j) 0 (kc_seq d ! j)) js c)"
  using assms
proof (induction js arbitrary: c)
  case Nil
  then show ?case by simp
next
  case (Cons j js)
  let ?c = "put_cell (idxs ! j) (kc_pos d ! j) 0 (kc_seq d ! j) c"
  have j: "j < cells_size d" and i: "idxs ! j < cells_size c" and sh: "kc_shift c ! (idxs ! j) = 0"
    using Cons.prems by auto
  note k = cells_set1_saved [OF Cons.prems(1,2) j i sh]
  have id: "(kc_shift c)[idxs ! j := 0] = kc_shift c"
    using sh by (metis list_update_id)
  with Cons.IH [OF k(2) Cons.prems(2)] Cons.prems k(1) show ?case by simp
qed

lemma cells_set_put:
  assumes "kv_inv c" and "kv_saved d" and "length idxs = cells_size d"
    and "set idxs \<subseteq> {..<cells_size c}" and "\<forall>i\<in>set idxs. cells_get_shift c i = 0"
  shows "cells_set c idxs d =
      fold (\<lambda>j. put_cell (idxs ! j) (kc_pos d ! j) 0 (kc_seq d ! j)) [0..<cells_size d] c \<and>
    kv_inv (cells_set c idxs d)"
proof -
  have "\<forall>j\<in>set [0..<cells_size d]. idxs ! j < cells_size c \<and> kc_shift c ! (idxs ! j) = 0"
  proof
    fix j assume "j \<in> set [0..<cells_size d]"
    then have "idxs ! j \<in> set idxs" using assms(3) by auto
    with assms(4,5) show "idxs ! j < cells_size c \<and> kc_shift c ! (idxs ! j) = 0"
      by (auto simp: cells_get_shift_def)
  qed
  moreover have "set [0..<cells_size d] \<subseteq> {..<cells_size d}"
    by auto
  ultimately have "fold (\<lambda>j c. cells_set1 (idxs ! j) (kc_pos d ! j) (kc_seq d ! j) c) [0..<cells_size d] c =
      fold (\<lambda>j. put_cell (idxs ! j) (kc_pos d ! j) 0 (kc_seq d ! j)) [0..<cells_size d] c \<and>
    kv_inv (fold (\<lambda>j. put_cell (idxs ! j) (kc_pos d ! j) 0 (kc_seq d ! j)) [0..<cells_size d] c)"
    by (intro cells_set_fold [OF assms(1,2)])
  then show ?thesis
    unfolding cells_set_def cells_size_def by simp
qed

lemma fold_put_simps:
  "kc_pos (fold (\<lambda>j. put_cell (f j) (p j) 0 (q j)) js c) = fold (\<lambda>j xs. xs[f j := p j]) js (kc_pos c)"
  "kc_seq (fold (\<lambda>j. put_cell (f j) (p j) 0 (q j)) js c) = fold (\<lambda>j xs. xs[f j := q j]) js (kc_seq c)"
  "kc_shift (fold (\<lambda>j. put_cell (f j) (p j) 0 (q j)) js c) = fold (\<lambda>j xs. xs[f j := 0]) js (kc_shift c)"
  "kc_has_shift (fold (\<lambda>j. put_cell (f j) (p j) 0 (q j)) js c) = kc_has_shift c"
  "cells_size (fold (\<lambda>j. put_cell (f j) (p j) 0 (q j)) js c) = cells_size c"
  by (induction js arbitrary: c) simp_all

lemma length_fold_update [simp]: "length (fold (\<lambda>j xs. xs[f j := g j]) js xs) = length xs"
  by (induction js arbitrary: xs) simp_all

lemma fold_update_replicate: "fold (\<lambda>j xs. xs[f j := a]) js (replicate n a) = replicate n a"
proof (induction js)
  case (Cons j js)
  have "(replicate n a)[f j := a] = replicate n a"
    by (metis list_update_beyond list_update_id length_replicate not_le nth_replicate)
  with Cons show ?case by simp
qed simp

lemma nth_fold_update_other:
  "x \<notin> f ` set js \<Longrightarrow> fold (\<lambda>j xs. xs[f j := g j]) js xs ! x = xs ! x"
  by (induction js arbitrary: xs) auto

lemma nth_fold_update:
  "inj_on f (set js) \<Longrightarrow> distinct js \<Longrightarrow> j \<in> set js \<Longrightarrow> f j < length xs \<Longrightarrow>
   fold (\<lambda>j xs. xs[f j := g j]) js xs ! f j = g j"
proof (induction js arbitrary: xs)
  case (Cons k js)
  show ?case
  proof (cases "j = k")
    case True
    have "f k \<notin> f ` set js"
      using Cons.prems(1,2) by (auto simp: inj_on_def)
    with True Cons.prems(4) show ?thesis by (simp add: nth_fold_update_other)
  next
    case False
    with Cons.prems Cons.IH show ?thesis by simp
  qed
qed simp

text \<open>What \<open>set\<close> leaves in the arrays.\<close>

lemma cells_set_arrays:
  assumes "kv_inv c" and "kv_saved d" and "length idxs = cells_size d"
    and "set idxs \<subseteq> {..<cells_size c}" and "\<forall>i\<in>set idxs. cells_get_shift c i = 0"
    and "distinct idxs"
  shows "j < cells_size d \<Longrightarrow> kc_pos (cells_set c idxs d) ! (idxs ! j) = kc_pos d ! j"
    and "j < cells_size d \<Longrightarrow> kc_seq (cells_set c idxs d) ! (idxs ! j) = kc_seq d ! j"
    and "x \<notin> set idxs \<Longrightarrow> kc_pos (cells_set c idxs d) ! x = kc_pos c ! x"
    and "x \<notin> set idxs \<Longrightarrow> kc_seq (cells_set c idxs d) ! x = kc_seq c ! x"
    and "cells_size (cells_set c idxs d) = cells_size c"
    and "kc_has_shift (cells_set c idxs d) = kc_has_shift c"
proof -
  note eq = cells_set_put [OF assms(1-5), THEN conjunct1]
  have inj: "inj_on ((!) idxs) (set [0..<cells_size d])"
    using assms(3,6) by (simp add: inj_on_nth)
  have im: "(!) idxs ` set [0..<cells_size d] = set idxs"
    using assms(3) by (metis list.set_map map_nth)
  have lt: "j < cells_size d \<Longrightarrow> idxs ! j < length (kc_pos c)" for j
    using assms(3,4) by (metis cells_size_def lessThan_iff nth_mem subsetD)
  have lq: "length (kc_seq c) = length (kc_pos c)"
    using assms(1) by (simp add: kv_inv_def)
  show "j < cells_size d \<Longrightarrow> kc_pos (cells_set c idxs d) ! (idxs ! j) = kc_pos d ! j"
    "j < cells_size d \<Longrightarrow> kc_seq (cells_set c idxs d) ! (idxs ! j) = kc_seq d ! j"
    unfolding eq fold_put_simps using lt lq by (simp_all add: nth_fold_update [OF inj])
  show "x \<notin> set idxs \<Longrightarrow> kc_pos (cells_set c idxs d) ! x = kc_pos c ! x"
    "x \<notin> set idxs \<Longrightarrow> kc_seq (cells_set c idxs d) ! x = kc_seq c ! x"
    unfolding eq fold_put_simps im [symmetric] by (rule nth_fold_update_other; simp)+
  show "cells_size (cells_set c idxs d) = cells_size c"
    "kc_has_shift (cells_set c idxs d) = kc_has_shift c"
    unfolding eq fold_put_simps by simp_all
qed

lemma kv_inv_step:
  assumes "cells_step c c'" and "kv_inv c"
  shows "kv_inv c'"
  using assms
proof (cases rule: cells_step.cases)
  case resize
  then show ?thesis by (simp add: kv_inv_resize)
next
  case reset
  with assms(2) show ?thesis by (simp add: kv_inv_reset kv_inv_lengths)
next
  case reset_shift
  with assms(2) show ?thesis by (simp add: kv_inv_reset_shift)
next
  case (mv i j)
  note k = kv_invD [OF assms(2) mv(2)]
  have "kv_inv (put_cell j (kc_pos c ! i) (kc_shift c ! i) (kc_seq c ! i) c)"
    using k mv by (intro kv_inv_put [OF assms(2) mv(3)]) (auto simp: cell_ok_def cells_is_empty_def)
  with mv assms(2) show ?thesis
    by (auto simp: cell_put cells_is_empty_def cell_ok_def intro!: kv_inv_put)
next
  case (set_idxs d idxs)
  with assms(2) cells_set_put show ?thesis by blast
next
  case (pos_div i d)
  note k = kv_invD [OF assms(2) pos_div(2)]
  have "0 \<le> c_div (kc_pos c ! i) d"
    using k(1) pos_div by (auto simp: c_div_def sgn_if pos_imp_zdiv_nonneg_iff cells_is_empty_def)
  with pos_div assms(2) k show ?thesis
    by (auto simp: cell_put cells_is_empty_def cell_ok_def intro!: kv_inv_put)
next
  case (pos_add i d)
  note k = kv_invD [OF assms(2) pos_add(2)]
  from pos_add assms(2) k show ?thesis
    by (auto simp: cell_put cells_is_empty_def cell_ok_def intro!: kv_inv_put)
next
  case (seq_rm i s)
  note k = kv_invD [OF assms(2) seq_rm(2)]
  from seq_rm assms(2) k show ?thesis
    by (auto simp: cell_put cells_seq_has_def cell_ok_def intro!: kv_inv_put)
next
  case (seq_keep i s)
  note k = kv_invD [OF assms(2) seq_keep(2)]
  from seq_keep assms(2) k show ?thesis
    by (auto simp: cell_put cell_ok_def intro!: kv_inv_put)
next
  case (seq_add i s)
  note k = kv_invD [OF assms(2) seq_add(2)]
  from seq_add assms(2) k show ?thesis
    by (auto simp: cell_put cells_is_empty_def cells_seq_has_def cell_ok_def intro!: kv_inv_put)
qed (auto simp: cell_put cells_is_empty_def cell_ok_def intro!: kv_inv_put)


lemma kv_inv_reachable: "cells_reachable c \<Longrightarrow> kv_inv c"
  by (induction rule: cells_reachable.induct) (auto intro: kv_inv_new kv_inv_step)

section \<open>What the queries answer\<close>

text \<open>The positions of a sequence in the cells.\<close>

definition seq_positions :: "kv_cells \<Rightarrow> nat \<Rightarrow> llama_pos set" where
  "seq_positions c s = {kc_pos c ! i |i. i < cells_size c \<and> s \<in> kc_seq c ! i}"

lemma finite_seq_positions [simp]: "finite (seq_positions c s)"
  by (simp add: seq_positions_def)

lemma seq_positions_set: "kv_inv c \<Longrightarrow> set_mset (kc_seq_pos c s) = seq_positions c s"
  by (simp add: kv_inv_def set_occ seq_positions_def cells_size_def)

lemma seq_positions_nonneg: "kv_inv c \<Longrightarrow> p \<in> seq_positions c s \<Longrightarrow> 0 \<le> p"
  using kv_invD(1,8) [of c] by (fastforce simp: seq_positions_def)

lemma cells_seq_pos_empty:
  assumes "kv_inv c"
  shows "seq_positions c s = {} \<Longrightarrow> cells_seq_pos_min c s = -1"
    and "seq_positions c s = {} \<Longrightarrow> cells_seq_pos_max c s = -1"
  using seq_positions_set [OF assms, of s]
  by (auto simp: cells_seq_pos_min_def cells_seq_pos_max_def)

lemma cells_seq_pos_Min:
  assumes "kv_inv c" and "seq_positions c s \<noteq> {}"
  shows "cells_seq_pos_min c s = Min (seq_positions c s)"
    and "cells_seq_pos_max c s = Max (seq_positions c s)"
  using seq_positions_set [OF assms(1), of s] assms(2)
  by (auto simp: cells_seq_pos_min_def cells_seq_pos_max_def)

text \<open>
  C15. In every state the class can be brought into by its own operations under their asserts,
  the indices agree with the arrays: the number of used cells is the number of cells with a
  position, \<open>used_min\<close> is the first of these cells and \<open>used_max_p1\<close> the one behind the last, both 0 if
  there are none, and \<open>seq_pos_min\<close> and \<open>seq_pos_max\<close> are the least and the greatest position at which
  the sequence occurs, or \<open>-1\<close> when it does not occur.
\<close>

theorem cells_indices_agree:
  assumes "cells_reachable c"
  shows "let U = {i. i < cells_size c \<and> \<not> cells_is_empty c i} in
    cells_get_used c = card U \<and>
    cells_used_min c = (if U = {} then 0 else Min U) \<and>
    cells_used_max_p1 c = (if U = {} then 0 else Max U + 1) \<and>
    cells_used_max_p1 c \<le> cells_size c \<and>
    (\<forall>i < cells_size c. i < cells_used_min c \<or> cells_used_max_p1 c \<le> i \<longrightarrow> cells_is_empty c i) \<and>
    cells_seq_pos_min c s = (if seq_positions c s = {} then -1 else Min (seq_positions c s)) \<and>
    cells_seq_pos_max c s = (if seq_positions c s = {} then -1 else Max (seq_positions c s))"
proof -
  define U where "U = {i. i < cells_size c \<and> \<not> cells_is_empty c i}"
  have inv: "kv_inv c"
    using assms(1) by (rule kv_inv_reachable)
  then have used: "kc_used c = U"
    by (auto simp: kv_inv_def cells_size_def cells_is_empty_def U_def)
  then have fin: "finite U" by (simp add: U_def)
  have "cells_is_empty c i" if "i < cells_size c" and "i < cells_used_min c \<or> cells_used_max_p1 c \<le> i" for i
  proof (rule ccontr)
    assume "\<not> cells_is_empty c i"
    with that(1) have "i \<in> U" by (simp add: U_def)
    with Min_le [OF fin, of i] Max_ge [OF fin, of i] that(2) show False
      by (auto simp: cells_used_min_def cells_used_max_p1_def used split: if_splits)
  qed
  moreover have "cells_used_max_p1 c \<le> cells_size c"
    using used Max_in [OF fin] by (auto simp: cells_used_max_p1_def Suc_le_eq U_def)
  ultimately show ?thesis
    using used cells_seq_pos_empty [OF inv] cells_seq_pos_Min [OF inv]
    unfolding Let_def by (fold U_def) (auto simp: cells_get_used_def cells_used_min_def cells_used_max_p1_def)
qed

definition demo_cells :: kv_cells where
  "demo_cells = cells_seq_add 1 0 (cells_pos_set 1 7 (cells_seq_add 0 0 (cells_pos_set 0 4
     (cells_resize new_cells 3))))"

lemma demo_cells_reachable: "cells_reachable demo_cells"
  unfolding demo_cells_def
  by (intro cells_reachable.step [OF _ cells_step.seq_add] cells_reachable.step [OF _ cells_step.pos_set]
      cells_reachable.step [OF _ cells_step.resize] cells_reachable.new;
    simp add: cells_resize_def cells_reset_def resize_with_def new_cells_def cells_size_def cells_is_empty_def
      cells_pos_set_def cells_seq_add_def seq_pos_inc_def cells_seq_has_def LLAMA_MAX_SEQ_def eval_nat_numeral)

lemma demo_cells_used: "{i. i < cells_size demo_cells \<and> \<not> cells_is_empty demo_cells i} = {0, 1}"
  by (auto simp: demo_cells_def cells_resize_def cells_reset_def resize_with_def new_cells_def cells_size_def
      cells_is_empty_def cells_pos_set_def cells_seq_add_def seq_pos_inc_def eval_nat_numeral less_Suc_eq)

theorem cells_indices_agree_witness:
  "cells_reachable demo_cells \<and> cells_get_used demo_cells = 2 \<and> cells_used_min demo_cells = 0 \<and>
    cells_used_max_p1 demo_cells = 2"
  using cells_indices_agree [OF demo_cells_reachable, unfolded demo_cells_used Let_def] demo_cells_reachable by simp

text \<open>
  Removing one sequence from a cell: the other cells keep their position and their
  sequences, the cell keeps the other sequences, and it is freed exactly when that was its last
  sequence, which is what the result reports; the invariant of the indices holds again.
\<close>

theorem cells_seq_rm_effect:
  assumes "kv_inv c" and "i < cells_size c" and "cells_seq_has c i s"
  shows "kv_inv (snd (cells_seq_rm i s c)) \<and>
    fst (cells_seq_rm i s c) = cells_is_empty (snd (cells_seq_rm i s c)) i \<and>
    (\<forall>j t. j < cells_size c \<longrightarrow> cells_seq_has (snd (cells_seq_rm i s c)) j t =
       (cells_seq_has c j t \<and> \<not> (j = i \<and> t = s))) \<and>
    (\<forall>j. j < cells_size c \<longrightarrow> kc_pos (snd (cells_seq_rm i s c)) ! j =
       (if j = i \<and> kc_seq c ! i = {s} then -1 else kc_pos c ! j)) \<and>
    cells_get_used (snd (cells_seq_rm i s c)) =
      cells_get_used c - (if kc_seq c ! i = {s} then 1 else 0)"
proof -
  have s: "s \<in> kc_seq c ! i"
    using assms(3) by (simp add: cells_seq_has_def)
  note k = kv_invD [OF assms(1,2)]
  note eq = cells_seq_rm_put [OF assms(1,2) s]
  have ne: "kc_pos c ! i \<noteq> -1"
    using k(2) s by auto
  have inv: "kv_inv (snd (cells_seq_rm i s c))"
    using kv_inv_step [OF cells_step.seq_rm [OF assms(2,3)] assms(1)] .
  have "insert i (kc_used c) = kc_used c" and "finite (kc_used c)"
    using k(5) ne assms(1) by (auto simp: kv_inv_def)
  with inv show ?thesis
    using k ne s assms unfolding eq
    by (auto simp: cells_is_empty_def cells_seq_has_def nth_list_update cells_size_def
        cells_get_used_def put_cell_def)
qed

theorem cells_seq_rm_effect_witness:
  "kc_pos (snd (cells_seq_rm 1 0 demo_cells)) ! 1 = -1 \<and> kc_pos (snd (cells_seq_rm 1 0 demo_cells)) ! 0 = 4"
proof -
  have d: "kv_inv demo_cells"
    by (rule kv_inv_reachable [OF demo_cells_reachable])
  have v: "kc_pos demo_cells = [4, 7, -1]" "kc_seq demo_cells = [{0}, {0}, {}]"
    by (simp_all add: demo_cells_def cells_resize_def cells_reset_def resize_with_def new_cells_def
      cells_pos_set_def cells_seq_add_def seq_pos_inc_def eval_nat_numeral)
  show ?thesis
    using cells_seq_rm_effect [OF d, of 1 0] v
    by (auto simp: cells_size_def cells_seq_has_def)
qed

lemma cells_set_cp_back:
  assumes "kv_inv c" and "kv_inv c'" and "cells_size c' = cells_size c" and "distinct idxs"
    and "set idxs \<subseteq> {..<cells_size c}"
    and "\<forall>i < cells_size c. cells_get_shift c i = 0 \<and> cells_get_shift c' i = 0"
    and "\<forall>i < cells_size c. i \<notin> set idxs \<longrightarrow> kc_pos c' ! i = kc_pos c ! i \<and> kc_seq c' ! i = kc_seq c ! i"
    and "kc_has_shift c' = kc_has_shift c"
  shows "cells_set c' idxs (cells_cp c idxs) = c"
proof -
  let ?d = "cells_cp c idxs" and ?r = "cells_set c' idxs (cells_cp c idxs)"
  have sd: "cells_size ?d = length idxs" and pd: "kc_pos ?d = map ((!) (kc_pos c)) idxs"
    and qd: "kc_seq ?d = map ((!) (kc_seq c)) idxs"
    by (auto simp: cells_cp_def cells_size_def)
  have saved: "kv_saved ?d"
    using assms(1,5) by (rule kv_saved_cp)
  have hyp: "set idxs \<subseteq> {..<cells_size c'}" "\<forall>i\<in>set idxs. cells_get_shift c' i = 0"
    using assms(3,5,6) by auto
  note ar = cells_set_arrays [OF assms(2) saved sd [symmetric] hyp assms(4)]
  have inv: "kv_inv ?r"
    using cells_set_put [OF assms(2) saved sd [symmetric] hyp] by blast
  have at: "kc_pos ?r ! i = kc_pos c ! i \<and> kc_seq ?r ! i = kc_seq c ! i" if i: "i < cells_size c" for i
  proof (cases "i \<in> set idxs")
    case True
    then obtain j where "j < length idxs" and "i = idxs ! j" by (auto simp: in_set_conv_nth)
    with ar(1,2) [of j] sd show ?thesis by (simp add: pd qd)
  next
    case False
    with ar(3,4) assms(7) i show ?thesis by simp
  qed
  have sz: "cells_size ?r = cells_size c"
    using ar(5) assms(3) by simp
  have pos: "kc_pos ?r = kc_pos c" and seq: "kc_seq ?r = kc_seq c"
    using at sz kv_inv_lengths [OF inv] kv_inv_lengths [OF assms(1)]
    by (auto intro!: nth_equalityI simp: cells_size_def)
  have z: "kc_shift c = replicate (cells_size c) 0" "kc_shift c' = replicate (cells_size c) 0"
    using assms(1-3,6) by (auto simp: list_eq_iff_nth_eq kv_inv_lengths cells_size_def cells_get_shift_def)
  then have "kc_shift ?r = kc_shift c"
    unfolding cells_set_put [OF assms(2) saved sd [symmetric] hyp, THEN conjunct1] fold_put_simps
    by (simp add: fold_update_replicate)
  then show ?thesis
    using inv assms(1,8) ar(6) pos seq by (auto simp: kv_inv_def intro!: kv_cells.equality)
qed


text \<open>
  Saving and restoring: cells copied with \<open>cp\<close> from distinct indices and written back
  with \<open>set\<close> into any later state of the cache of the same size hold the saved positions and
  sequences again, every other cell is untouched, and the indices are those of the arrays: if
  only the saved cells were changed in between, the cache is the saved one, shifts and all.
\<close>

theorem cells_restore_exact:
  assumes "kv_inv c" and "kv_inv c'" and "cells_size c' = cells_size c" and "distinct idxs"
    and "set idxs \<subseteq> {..<cells_size c}"
    and "\<forall>i < cells_size c. cells_get_shift c i = 0 \<and> cells_get_shift c' i = 0"
    and "\<forall>i < cells_size c. i \<notin> set idxs \<longrightarrow> kc_pos c' ! i = kc_pos c ! i \<and> kc_seq c' ! i = kc_seq c ! i"
    and "kc_has_shift c' = kc_has_shift c"
  shows "cells_set c' idxs (cells_cp c idxs) = c"
  using assms by (rule cells_set_cp_back)

theorem cells_restore_exact_witness:
  "cells_set (cells_rm 1 demo_cells) [1] (cells_cp demo_cells [1]) = demo_cells"
proof -
  have d: "kv_inv demo_cells"
    by (rule kv_inv_reachable [OF demo_cells_reachable])
  have v: "kc_pos demo_cells = [4, 7, -1]" "kc_seq demo_cells = [{0}, {0}, {}]"
    "kc_shift demo_cells = [0, 0, 0]" "kc_has_shift demo_cells = False"
    by (simp_all add: demo_cells_def cells_resize_def cells_reset_def resize_with_def new_cells_def
      cells_pos_set_def cells_seq_add_def seq_pos_inc_def eval_nat_numeral)
  have sz: "cells_size demo_cells = 3"
    by (simp add: cells_size_def v)
  have r: "cells_rm 1 demo_cells = put_cell 1 (-1) 0 {} demo_cells"
    using d sz by (intro cells_rm_put) auto
  have "kv_inv (put_cell 1 (-1) 0 {} demo_cells)"
    using d sz by (intro kv_inv_put) (auto simp: cell_ok_def)
  then show ?thesis
    unfolding r using d sz by (intro cells_restore_exact)
      (auto simp: v cells_get_shift_def nth_list_update less_Suc_eq eval_nat_numeral)
qed

end
