(* ===== verification/Batch.thy ===== *)
theory Batch
  imports Prelude
begin

text \<open>
  Batches of tokens and their division into micro-batches: \<open>llama.cpp/src/llama-batch.cpp\<close>
  and \<open>llama-batch.h\<close>. A \<open>llama_batch\<close> comes from the caller with optional arrays;
  \<open>llama_batch_allocr::init\<close> validates it, fills in what is missing, computes statistics and
  checks its consistency against the memory; the three split functions then hand out
  \<open>llama_ubatch\<close>es until every token is used.

  Null pointers are \<open>None\<close>, arrays are ls, \<open>std::bitset\<close> and \<open>std::set\<close> are
  sets. A \<open>float\<close> is its bit pattern: the batches only copy embeddings. The pointers of the
  stored batch that the code redirects to vectors of the allocator (\<open>pos\<close>,
  \<open>n_seq_id\<close>, \<open>seq_id\<close>, \<open>output\<close>) are the contents of these vectors, which
  nothing changes until the next \<open>clear\<close>. The memory is optional and is seen through the
  bounds of its sequences. Debug output (\<open>ubatch_print\<close>) is left out.
\<close>

type_synonym float_bits = uint32

section \<open>Data\<close>

record llama_batch =
  b_n_tokens :: int
  b_token :: "llama_token list option"
  b_embd :: "float_bits list option"
  b_pos :: "llama_pos list option"
  b_n_seq_id :: "int list option"
  b_seq_id :: "llama_seq_id list list option"
  b_logits :: "int list option"

record llama_ubatch =
  ub_equal_seqs :: bool
  ub_n_tokens :: nat
  ub_n_seq_tokens :: nat
  ub_n_seqs :: nat
  ub_n_seqs_unq :: nat
  ub_token :: "llama_token list option"
  ub_embd :: "float_bits list option"
  ub_pos :: "llama_pos list"
  ub_n_seq_id :: "int list"
  ub_seq_id :: "llama_seq_id list list"
  ub_seq_id_unq :: "llama_seq_id list"
  ub_seq_idx :: "int list"
  ub_output :: "int list"

definition empty_ubatch :: llama_ubatch where
  "empty_ubatch = \<lparr>ub_equal_seqs = False, ub_n_tokens = 0, ub_n_seq_tokens = 0, ub_n_seqs = 0,
     ub_n_seqs_unq = 0, ub_token = None, ub_embd = None, ub_pos = [], ub_n_seq_id = [],
     ub_seq_id = [], ub_seq_id_unq = [], ub_seq_idx = [], ub_output = []\<rparr>"

text \<open>\<open>batch = {}\<close>.\<close>

definition empty_batch :: llama_batch where
  "empty_batch = \<lparr>b_n_tokens = 0, b_token = None, b_embd = None, b_pos = None, b_n_seq_id = None,
     b_seq_id = None, b_logits = None\<rparr>"

definition llama_batch_get_one :: "llama_token list \<Rightarrow> int \<Rightarrow> llama_batch" where
  "llama_batch_get_one tokens n = \<lparr>b_n_tokens = n, b_token = Some tokens, b_embd = None,
     b_pos = None, b_n_seq_id = None, b_seq_id = None, b_logits = None\<rparr>"

text \<open>The memory as the batches see it: the least and the greatest position of a sequence.\<close>

record mem_view =
  mv_seq_pos_min :: "nat \<Rightarrow> llama_pos"
  mv_seq_pos_max :: "nat \<Rightarrow> llama_pos"

record balloc =
  ba_n_pos_per_embd :: nat
  ba_batch :: llama_batch
  ba_n_embd :: nat
  ba_n_seq_max :: nat
  ba_n_outputs :: nat
  ba_seq_id_unq :: "llama_seq_id list"
  ba_seq_idx :: "int list"
  ba_has_cpl :: bool
  ba_seq_pos :: "nat \<Rightarrow> llama_pos set"
  ba_seq_cpl :: "nat \<Rightarrow> nat \<Rightarrow> bool"
  ba_seq_set :: "nat set list"
  ba_seq_set_map :: "nat set \<Rightarrow> nat list"
  ba_out_ids :: "nat list"
  ba_n_used :: nat
  ba_used :: "bool list"

definition new_balloc :: "nat \<Rightarrow> balloc" where
  "new_balloc n_pos = \<lparr>ba_n_pos_per_embd = n_pos, ba_batch = empty_batch, ba_n_embd = 0,
     ba_n_seq_max = 0, ba_n_outputs = 0, ba_seq_id_unq = [], ba_seq_idx = replicate LLAMA_MAX_SEQ (-1),
     ba_has_cpl = False, ba_seq_pos = (\<lambda>_. {}), ba_seq_cpl = (\<lambda>_ _. False), ba_seq_set = [],
     ba_seq_set_map = (\<lambda>_. []), ba_out_ids = [], ba_n_used = 0, ba_used = []\<rparr>"

text \<open>The arrays of the stored batch once \<open>init\<close> has filled them.\<close>

abbreviation the_pos :: "balloc \<Rightarrow> llama_pos list" where
  "the_pos a \<equiv> the (b_pos (ba_batch a))"
abbreviation the_n_seq_id :: "balloc \<Rightarrow> int list" where
  "the_n_seq_id a \<equiv> the (b_n_seq_id (ba_batch a))"
abbreviation the_seq_id :: "balloc \<Rightarrow> llama_seq_id list list" where
  "the_seq_id a \<equiv> the (b_seq_id (ba_batch a))"
abbreviation the_logits :: "balloc \<Rightarrow> int list" where
  "the_logits a \<equiv> the (b_logits (ba_batch a))"

text \<open>The sequence ids of token \<open>i\<close>, in the order of the inner loops.\<close>

definition seq_ids_of :: "int list \<Rightarrow> llama_seq_id list list \<Rightarrow> nat \<Rightarrow> llama_seq_id list" where
  "seq_ids_of n_seq_id seq_id i = map (\<lambda>s. seq_id ! i ! s) [0..<nat (n_seq_id ! i)]"

section \<open>The stages of init\<close>

definition balloc_clear :: "balloc \<Rightarrow> balloc" where
  "balloc_clear a = a\<lparr>ba_n_outputs := 0, ba_batch := empty_batch, ba_seq_id_unq := [],
     ba_seq_pos := (\<lambda>_. {}), ba_seq_cpl := (\<lambda>_ _. False), ba_seq_set := [],
     ba_seq_set_map := (\<lambda>_. []), ba_seq_idx := map (\<lambda>_. -1) (ba_seq_idx a)\<rparr>"

definition get_n_tokens :: "balloc \<Rightarrow> nat" where
  "get_n_tokens a = nat (b_n_tokens (ba_batch a))"

definition get_n_outputs :: "balloc \<Rightarrow> nat" where
  "get_n_outputs a = ba_n_outputs a"

definition get_n_used :: "balloc \<Rightarrow> nat" where
  "get_n_used a = ba_n_used a"

definition get_out_ids :: "balloc \<Rightarrow> nat list" where
  "get_out_ids a = ba_out_ids a"

definition balloc_seq_pos_min :: "balloc \<Rightarrow> nat \<Rightarrow> llama_pos" where
  "balloc_seq_pos_min a s = (if ba_seq_pos a s = {} then -1 else Min (ba_seq_pos a s))"

definition balloc_seq_pos_max :: "balloc \<Rightarrow> nat \<Rightarrow> llama_pos" where
  "balloc_seq_pos_max a s = (if ba_seq_pos a s = {} then -1 else Max (ba_seq_pos a s))"

definition split_reset :: "balloc \<Rightarrow> balloc" where
  "split_reset a = a\<lparr>ba_out_ids := [], ba_n_used := 0, ba_used := replicate (get_n_tokens a) False\<rparr>"

text \<open>Validation of the caller's batch: the token ids and the sequence ids.\<close>

definition batch_valid :: "llama_batch \<Rightarrow> nat \<Rightarrow> nat \<Rightarrow> bool" where
  "batch_valid b n_vocab n_seq_max =
     (n_seq_max \<le> LLAMA_MAX_SEQ \<and>
      (case b_token b of None \<Rightarrow> True
       | Some token \<Rightarrow> list_all (\<lambda>i. 0 \<le> token ! i \<and> token ! i < int n_vocab) [0..<nat (b_n_tokens b)]) \<and>
      (case b_seq_id b of None \<Rightarrow> True
       | Some seq_id \<Rightarrow> list_all (\<lambda>i. list_all (\<lambda>s. 0 \<le> s \<and> s < int n_seq_max)
           (seq_ids_of (the (b_n_seq_id b)) seq_id i)) [0..<nat (b_n_tokens b)]))"

text \<open>
  The positions: each token takes the next position of its first sequence, and every sequence of
  the token continues behind it.
\<close>

definition pos_start :: "mem_view option \<Rightarrow> nat \<Rightarrow> llama_pos" where
  "pos_start memory s = (case memory of None \<Rightarrow> 0 | Some m \<Rightarrow> mv_seq_pos_max m s + 1)"

definition pos_step :: "llama_batch \<Rightarrow> (nat \<Rightarrow> llama_pos) \<times> llama_pos list \<Rightarrow> nat \<Rightarrow>
    (nat \<Rightarrow> llama_pos) \<times> llama_pos list" where
  "pos_step b st i =
     (let (p0, pos) = st;
          p = p0 (nat (the (b_seq_id b) ! i ! 0))
      in (fold (\<lambda>s f. f(nat s := p + 1)) (seq_ids_of (the (b_n_seq_id b)) (the (b_seq_id b)) i) p0,
          pos @ [p]))"

definition fill_pos :: "llama_batch \<Rightarrow> mem_view option \<Rightarrow> llama_pos list" where
  "fill_pos b memory =
     snd (foldl (pos_step b) (pos_start memory, []) [0..<nat (b_n_tokens b)])"

definition fill_logits :: "llama_batch \<Rightarrow> bool \<Rightarrow> int list" where
  "fill_logits b output_all =
     (let n = nat (b_n_tokens b) in
      case b_logits b of
        None \<Rightarrow> if output_all then replicate n 1 else (replicate n 0)[n - 1 := 1]
      | Some logits \<Rightarrow>
          if output_all \<and> list_ex (\<lambda>i. logits ! i = 0) [0..<n] then replicate n 1 else logits)"

definition batch_fill :: "llama_batch \<Rightarrow> mem_view option \<Rightarrow> bool \<Rightarrow> llama_batch" where
  "batch_fill b memory output_all =
     (let n = nat (b_n_tokens b);
          b = (if b_n_seq_id b = None then b\<lparr>b_n_seq_id := Some (replicate n 1)\<rparr> else b);
          b = (if b_seq_id b = None then b\<lparr>b_seq_id := Some (replicate n [0])\<rparr> else b);
          b = (if b_pos b = None then b\<lparr>b_pos := Some (fill_pos b memory)\<rparr> else b)
      in b\<lparr>b_logits := Some (fill_logits b output_all)\<rparr>)"

text \<open>Statistics: outputs, positions and coupling of the sequences, sequence sets.\<close>

definition couple_step :: "llama_batch \<Rightarrow> nat \<Rightarrow> balloc \<Rightarrow> balloc" where
  "couple_step b i a =
     (let s0 = nat (the (b_seq_id b) ! i ! 0) in
      fold (\<lambda>s a. let s1 = nat (the (b_seq_id b) ! i ! s);
                      a = a\<lparr>ba_seq_pos := (ba_seq_pos a)(s1 := insert (the (b_pos b) ! i) (ba_seq_pos a s1))\<rparr>
                  in if 0 < s
                     then a\<lparr>ba_seq_cpl := (ba_seq_cpl a)(s1 := (ba_seq_cpl a s1)(s0 := True)), ba_has_cpl := True\<rparr>
                     else a)
        [0..<nat (the (b_n_seq_id b) ! i)] a)"

definition token_seq_set :: "llama_batch \<Rightarrow> nat \<Rightarrow> nat set" where
  "token_seq_set b i = set (map nat (seq_ids_of (the (b_n_seq_id b)) (the (b_seq_id b)) i))"

definition seq_set_step :: "llama_batch \<Rightarrow> nat \<Rightarrow> balloc \<Rightarrow> balloc" where
  "seq_set_step b i a =
     (let cur = token_seq_set b i
      in a\<lparr>ba_seq_set := ba_seq_set a @ [cur],
           ba_seq_set_map := (ba_seq_set_map a)(cur := ba_seq_set_map a cur @ [i])\<rparr>)"

text \<open>Number the sequence ids that occur, in increasing order.\<close>

definition unq_step :: "nat set \<Rightarrow> nat \<Rightarrow> int list \<times> llama_seq_id list \<Rightarrow> int list \<times> llama_seq_id list" where
  "unq_step unq s st =
     (let (seq_idx, seq_id_unq) = st in
      if s \<in> unq then (seq_idx[s := int (length seq_id_unq)], seq_id_unq @ [int s])
      else (seq_idx, seq_id_unq))"

definition balloc_stats :: "balloc \<Rightarrow> nat \<Rightarrow> nat \<Rightarrow> balloc" where
  "balloc_stats a n_embd n_seq_max =
     (let b = ba_batch a;
          is = [0..<nat (b_n_tokens b)];
          a = a\<lparr>ba_n_embd := n_embd, ba_n_seq_max := n_seq_max\<rparr>;
          a = a\<lparr>ba_n_outputs := ba_n_outputs a + length (filter (\<lambda>i. the (b_logits b) ! i \<noteq> 0) is)\<rparr>;
          a = a\<lparr>ba_has_cpl := False\<rparr>;
          a = fold (couple_step b) is a;
          a = fold (seq_set_step b) is a;
          (seq_idx, seq_id_unq) = fold (unq_step (\<Union> (token_seq_set b ` set is))) [0..<n_seq_max]
            (ba_seq_idx a, ba_seq_id_unq a)
      in a\<lparr>ba_seq_idx := seq_idx, ba_seq_id_unq := seq_id_unq\<rparr>)"

text \<open>
  The consistency checks: a sequence continues what the memory holds of it, without gaps;
  coupled sequences have the same bounds in the memory.
\<close>

definition seq_consistent :: "balloc \<Rightarrow> mem_view option \<Rightarrow> nat \<Rightarrow> bool" where
  "seq_consistent a memory s =
     (ba_seq_pos a s = {} \<or>
      (let p0 = (case memory of None \<Rightarrow> -1 | Some m \<Rightarrow> mv_seq_pos_max m s) in
       (p0 \<ge> 0 \<longrightarrow>
          (if b_token (ba_batch a) \<noteq> None then balloc_seq_pos_min a s = p0 + 1
           else balloc_seq_pos_min a s = p0 \<or> balloc_seq_pos_min a s = p0 + 1)) \<and>
       \<not> (balloc_seq_pos_max a s - balloc_seq_pos_min a s + 1 > int (card (ba_seq_pos a s)))))"

definition coupled_consistent :: "balloc \<Rightarrow> mem_view option \<Rightarrow> nat \<Rightarrow> bool" where
  "coupled_consistent a memory n_seq_max =
     (case memory of None \<Rightarrow> True
      | Some m \<Rightarrow> list_all (\<lambda>s0. list_all (\<lambda>s1. ba_seq_cpl a s0 s1 \<longrightarrow>
            mv_seq_pos_min m s0 = mv_seq_pos_min m s1 \<and> mv_seq_pos_max m s0 = mv_seq_pos_max m s1)
          [0..<n_seq_max]) [0..<n_seq_max])"

text \<open>
  The last check. The arrays \<open>cur_seq_set\<close> and \<open>cur_seq_pos\<close> are the state of the
  loop; the loop narrows the first and never writes the second. \<open>None\<close> is the early return.
\<close>

definition order_step :: "balloc \<Rightarrow> nat \<times> nat \<Rightarrow> (nat \<Rightarrow> nat set) \<times> (nat \<Rightarrow> llama_pos) \<Rightarrow>
    ((nat \<Rightarrow> nat set) \<times> (nat \<Rightarrow> llama_pos)) option" where
  "order_step a is st =
     (let (i, s) = is; (cur_seq_set, cur_seq_pos) = st;
          pos = the_pos a ! i;
          seq_id = nat (the_seq_id a ! i ! s);
          cur_seq_set = cur_seq_set(seq_id := cur_seq_set seq_id \<inter> ba_seq_set a ! i)
      in if cur_seq_set seq_id = {} then None
         else if pos < cur_seq_pos seq_id then None
         else Some (cur_seq_set, cur_seq_pos))"

definition order_ok :: "balloc \<Rightarrow> bool" where
  "order_ok a =
     (fold (\<lambda>is st. Option.bind st (order_step a is))
        (concat (map (\<lambda>i. map (Pair i) [0..<nat (the_n_seq_id a ! i)]) [0..<get_n_tokens a]))
        (Some ((\<lambda>_. {..<LLAMA_MAX_SEQ}), (\<lambda>_. -1))) \<noteq> None)"

text \<open>\<open>init\<close>: \<open>None\<close> is the failed assertion, the boolean is what it returns.\<close>

definition balloc_init :: "balloc \<Rightarrow> llama_batch \<Rightarrow> nat \<Rightarrow> mem_view option \<Rightarrow> nat \<Rightarrow> nat \<Rightarrow> bool \<Rightarrow>
    (bool \<times> balloc) option" where
  "balloc_init a batch_inp n_vocab memory n_embd n_seq_max output_all =
     (let a = balloc_clear a;
          a = a\<lparr>ba_batch := batch_inp\<rparr>
      in if \<not> 0 < b_n_tokens batch_inp then None
         else if \<not> batch_valid batch_inp n_vocab n_seq_max then Some (False, a)
         else
           (let a = a\<lparr>ba_batch := batch_fill batch_inp memory output_all\<rparr>;
                a = balloc_stats a n_embd n_seq_max
            in if \<not> list_all (seq_consistent a memory) [0..<n_seq_max] then Some (False, a)
               else if \<not> coupled_consistent a memory n_seq_max then Some (False, a)
               else if \<not> order_ok a then Some (False, a)
               else Some (True, split_reset a)))"

section \<open>Micro-batches\<close>

definition ubatch_reserve :: "balloc \<Rightarrow> nat \<Rightarrow> nat \<Rightarrow> llama_ubatch \<times> balloc" where
  "ubatch_reserve a n_seq_tokens n_seqs =
     (let n_tokens = n_seq_tokens * n_seqs;
          a = split_reset (balloc_clear a)
      in (\<lparr>ub_equal_seqs = True, ub_n_tokens = n_tokens, ub_n_seq_tokens = n_seq_tokens,
           ub_n_seqs = n_seqs, ub_n_seqs_unq = n_seqs,
           ub_token = Some (replicate n_tokens 0), ub_embd = None, ub_pos = replicate n_tokens 0,
           ub_n_seq_id = replicate n_tokens 0, ub_seq_id = replicate n_tokens [],
           ub_seq_id_unq = map int [0..<n_seqs],
           ub_seq_idx = fold (\<lambda>s xs. xs[s := int s]) [0..<n_seqs] (replicate LLAMA_MAX_SEQ (-1)),
           ub_output = replicate n_tokens 0\<rparr>, a))"

definition ubatch_add :: "balloc \<Rightarrow> nat list \<Rightarrow> nat \<Rightarrow> bool \<Rightarrow> llama_ubatch \<times> balloc" where
  "ubatch_add a idxs n_seqs equal_seqs =
     (let b = ba_batch a;
          n_tokens = length idxs;
          n_pos_cur = (if b_embd b \<noteq> None then ba_n_pos_per_embd a else 1);
          unq = \<Union> (set (map (token_seq_set b) idxs));
          (seq_idx, seq_id_unq) = fold (unq_step unq) [0..<ba_n_seq_max a] (replicate LLAMA_MAX_SEQ (-1), [])
      in (\<lparr>ub_equal_seqs = equal_seqs, ub_n_tokens = n_tokens, ub_n_seq_tokens = n_tokens div n_seqs,
           ub_n_seqs = n_seqs, ub_n_seqs_unq = length seq_id_unq,
           ub_token = map_option (\<lambda>token. map ((!) token) idxs) (b_token b),
           ub_embd = map_option (\<lambda>embd. concat (map (\<lambda>i.
               take (ba_n_embd a) (drop (i * ba_n_embd a) embd)) idxs)) (b_embd b),
           ub_pos = concat (map (\<lambda>j. map (\<lambda>i. the_pos a ! (j * get_n_tokens a + i)) idxs) [0..<n_pos_cur]),
           ub_n_seq_id = map ((!) (the_n_seq_id a)) idxs,
           ub_seq_id = map ((!) (the_seq_id a)) idxs,
           ub_seq_id_unq = seq_id_unq, ub_seq_idx = seq_idx,
           ub_output = map ((!) (the_logits a)) idxs\<rparr>,
          a\<lparr>ba_out_ids := ba_out_ids a @ filter (\<lambda>i. the_logits a ! i \<noteq> 0) idxs\<rparr>))"

text \<open>The first unused token.\<close>

definition first_unused :: "bool list \<Rightarrow> nat" where
  "first_unused used = length (takeWhile id used)"

function simple_loop :: "nat \<Rightarrow> nat \<Rightarrow> nat list \<Rightarrow> bool list \<Rightarrow> nat \<Rightarrow> nat list \<times> bool list \<times> nat" where
  "simple_loop n_ubatch cur idxs used n_used =
     (let idxs = idxs @ [cur];
          used = used[cur := True];
          n_used = n_used + 1;
          cur = cur + 1
      in if length used \<le> cur then (idxs, used, n_used)
         else if n_ubatch \<le> length idxs then (idxs, used, n_used)
         else simple_loop n_ubatch cur idxs used n_used)"
  by pat_completeness auto
termination
  by (relation "measure (\<lambda>(n_ubatch, cur, idxs, used, n_used). length used - cur)") auto

declare simple_loop.simps [simp del]

definition split_simple :: "balloc \<Rightarrow> nat \<Rightarrow> llama_ubatch \<times> balloc" where
  "split_simple a n_ubatch =
     (let cur = first_unused (ba_used a) in
      if length (ba_used a) \<le> cur then (empty_ubatch, a)
      else (let (idxs, used, n_used) = simple_loop n_ubatch cur [] (ba_used a) (ba_n_used a)
            in ubatch_add (a\<lparr>ba_used := used, ba_n_used := n_used\<rparr>) idxs (length idxs) False))"

text \<open>
  \<open>split_equal\<close>: first the sequence sets that take part, then one token of each of them
  per round.
\<close>

fun equal_sets :: "balloc \<Rightarrow> nat \<Rightarrow> bool \<Rightarrow> nat list \<Rightarrow> nat set list \<Rightarrow> llama_seq_id \<Rightarrow> nat set list" where
  "equal_sets a n_ubatch sequential [] cur_seq_set last_seq_id = cur_seq_set"
| "equal_sets a n_ubatch sequential (i # is) cur_seq_set last_seq_id =
     (if ba_used a ! i then equal_sets a n_ubatch sequential is cur_seq_set last_seq_id
      else
        let add = list_all (\<lambda>S. S \<inter> ba_seq_set a ! i = {}) cur_seq_set;
            add = (if sequential
              then add \<and> (cur_seq_set = [] \<or> the_seq_id a ! i ! 0 = last_seq_id + 1) else add)
        in if add
           then (let cur_seq_set = cur_seq_set @ [ba_seq_set a ! i];
                     last_seq_id = the_seq_id a ! i ! 0
                 in if n_ubatch < length cur_seq_set then cur_seq_set
                    else equal_sets a n_ubatch sequential is cur_seq_set last_seq_id)
           else equal_sets a n_ubatch sequential is cur_seq_set last_seq_id)"

text \<open>
  The rounds. \<open>ls\<close> are the batch indices of each sequence set and \<open>cur\<close> the position
  in each; without any sequence set the function is not called (the first test).
\<close>

function equal_loop :: "nat \<Rightarrow> nat list list \<Rightarrow> nat list \<Rightarrow> nat list list \<Rightarrow> bool list \<Rightarrow> nat \<Rightarrow>
    nat list list \<times> bool list \<times> nat" where
  "equal_loop n_ubatch ls cur idxs used n_used =
     (if ls = [] then (idxs, used, n_used)
      else if \<not> list_all (\<lambda>s. cur ! s < length (ls ! s)) [0..<length ls] then (idxs, used, n_used)
      else
        let now = map (\<lambda>s. ls ! s ! (cur ! s)) [0..<length ls];
            idxs = map (\<lambda>s. idxs ! s @ [now ! s]) [0..<length ls];
            used = fold (\<lambda>idx u. u[idx := True]) now used;
            n_used = n_used + length ls;
            cur = map (\<lambda>s. cur ! s + 1) [0..<length ls]
        in if n_ubatch < (length (idxs ! 0) + 1) * length ls then (idxs, used, n_used)
           else equal_loop n_ubatch ls cur idxs used n_used)"
  by pat_completeness auto
termination
proof (relation "measure (\<lambda>(n_ubatch, ls, cur, idxs, used, n_used). length (ls ! 0) - cur ! 0)", goal_cases)
  case (2 n_ubatch ls cur)
  then have "cur ! 0 < length (ls ! 0)"
    by (simp add: list_all_iff)
  with 2 show ?case by simp
qed simp

declare equal_loop.simps [simp del]

definition split_equal :: "balloc \<Rightarrow> nat \<Rightarrow> bool \<Rightarrow> llama_ubatch \<times> balloc" where
  "split_equal a n_ubatch sequential =
     (if sequential \<and> ba_has_cpl a then (empty_ubatch, a)
      else
        let cur_seq_set = equal_sets a n_ubatch sequential [0..<get_n_tokens a] [] (-1);
            n_seqs = length cur_seq_set
        in if n_seqs = 0 then (empty_ubatch, a)
           else
             let ls = map (ba_seq_set_map a) cur_seq_set;
                 cur = map (\<lambda>l. length (takeWhile (\<lambda>i. ba_used a ! i) l)) ls;
                 (idxs_per_seq, used, n_used) =
                   equal_loop n_ubatch ls cur (replicate n_seqs []) (ba_used a) (ba_n_used a)
             in ubatch_add (a\<lparr>ba_used := used, ba_n_used := n_used\<rparr>) (concat idxs_per_seq) n_seqs True)"

text \<open>
  \<open>split_seq\<close>: the tokens whose sequence set is contained in that of the token before. The
  inner loop looks for the next one; \<open>None\<close> is the end of the batch.
\<close>

function seq_next :: "balloc \<Rightarrow> bool list \<Rightarrow> nat set \<Rightarrow> nat \<Rightarrow> nat" where
  "seq_next a used S cur =
     (let cur = cur + 1 in
      if cur < get_n_tokens a \<and> (used ! cur \<or> S \<inter> ba_seq_set a ! cur \<noteq> ba_seq_set a ! cur)
      then seq_next a used S cur else cur)"
  by pat_completeness auto
termination
  by (relation "measure (\<lambda>(a, used, S, cur). get_n_tokens a - cur)") auto

declare seq_next.simps [simp del]

lemma seq_next_less: "cur < seq_next a used S cur"
proof (induction a used S cur rule: seq_next.induct)
  case (1 a used S cur)
  show ?case
    using 1 [OF refl] by (subst seq_next.simps) (auto simp: Let_def simp del: not_less intro: Suc_lessD)
qed

function seq_loop :: "balloc \<Rightarrow> nat \<Rightarrow> nat set \<Rightarrow> nat \<Rightarrow> nat list \<Rightarrow> bool list \<Rightarrow> nat \<Rightarrow>
    nat list \<times> bool list \<times> nat" where
  "seq_loop a n_ubatch S cur idxs used n_used =
     (let idxs = idxs @ [cur];
          used = used[cur := True];
          n_used = n_used + 1
      in if n_ubatch \<le> length idxs then (idxs, used, n_used)
         else
           let cur = seq_next a used S cur
           in if get_n_tokens a \<le> cur then (idxs, used, n_used)
              else seq_loop a n_ubatch (ba_seq_set a ! cur) cur idxs used n_used)"
  by pat_completeness auto
termination
proof (relation "measure (\<lambda>(a, n_ubatch, S, cur, idxs, used, n_used). get_n_tokens a - cur)")
qed (auto intro: diff_less_mono2 less_le_trans [OF seq_next_less] simp: not_le dest: order.strict_trans [OF seq_next_less])

declare seq_loop.simps [simp del]

definition split_seq :: "balloc \<Rightarrow> nat \<Rightarrow> llama_ubatch \<times> balloc" where
  "split_seq a n_ubatch =
     (let cur = first_unused (ba_used a) in
      if length (ba_used a) \<le> cur then (empty_ubatch, a)
      else (let (idxs, used, n_used) = seq_loop a n_ubatch (ba_seq_set a ! cur) cur [] (ba_used a) (ba_n_used a)
            in ubatch_add (a\<lparr>ba_used := used, ba_n_used := n_used\<rparr>) idxs 1 True))"


section \<open>Splitting in order\<close>

text \<open>Tokens \<open>k\<close> onwards of \<open>n\<close> are unused: the state that \<open>split_simple\<close> works on.\<close>

definition used_upto :: "nat \<Rightarrow> nat \<Rightarrow> bool list" where
  "used_upto k n = map (\<lambda>i. i < k) [0..<n]"

lemma length_used_upto [simp]: "length (used_upto k n) = n"
  by (simp add: used_upto_def)

lemma first_unused_upto [simp]: "k \<le> n \<Longrightarrow> first_unused (used_upto k n) = k"
proof -
  assume "k \<le> n"
  then have "[0..<n] = [0..<k] @ [k..<n]"
    by (metis le_add_diff_inverse upt_add_eq_append zero_le)
  then have "takeWhile id (used_upto k n) = map (\<lambda>i. i < k) [0..<k]"
    by (cases "k < n") (auto simp: used_upto_def takeWhile_append takeWhile_eq_Nil_iff hd_map)
  then show ?thesis by (simp add: first_unused_def)
qed

lemma used_upto_Suc: "(used_upto k n)[k := True] = used_upto (Suc k) n"
proof (rule nth_equalityI)
  fix i assume "i < length ((used_upto k n)[k := True])"
  then show "(used_upto k n)[k := True] ! i = used_upto (Suc k) n ! i"
    by (cases "i = k") (auto simp: used_upto_def)
qed simp

lemma used_upto_0: "used_upto 0 n = replicate n False"
  by (auto simp: used_upto_def intro!: nth_equalityI)

lemma simple_loop_upto:
  assumes "cur < n" and "length idxs < n_ubatch \<or> idxs = []"
    and "k = min (max 1 (n_ubatch - length idxs)) (n - cur)"
  shows "simple_loop n_ubatch cur idxs (used_upto cur n) n_used =
    (idxs @ [cur..<cur + k], used_upto (cur + k) n, n_used + k)"
  using assms
proof (induction "n - cur" arbitrary: cur idxs n_used k rule: less_induct)
  case (less cur idxs n_used k)
  show ?case
  proof (cases "n \<le> Suc cur \<or> n_ubatch \<le> Suc (length idxs)")
    case True
    with less.prems have "k = 1"
      by auto
    with True show ?thesis
      by (subst simple_loop.simps) (auto simp: Let_def used_upto_Suc)
  next
    case False
    define m where "m = min (max 1 (n_ubatch - length (idxs @ [cur]))) (n - Suc cur)"
    from False have "1 \<le> n - Suc cur" and "1 \<le> n_ubatch - length (idxs @ [cur])"
      by auto
    then have m: "m = min (n_ubatch - length (idxs @ [cur])) (n - Suc cur)"
      unfolding m_def by simp
    have "1 \<le> n_ubatch - length idxs"
      using False by linarith
    then have "k = min (n_ubatch - length idxs) (n - cur)"
      using less.prems(3) by simp
    moreover have "n - cur = Suc (n - Suc cur)" and "n_ubatch - length idxs = Suc (n_ubatch - length (idxs @ [cur]))"
      using False by auto
    ultimately have k: "k = Suc m"
      using m by simp
    have "simple_loop n_ubatch (Suc cur) (idxs @ [cur]) (used_upto (Suc cur) n) (Suc n_used) =
      ((idxs @ [cur]) @ [Suc cur..<Suc cur + m], used_upto (Suc cur + m) n, Suc n_used + m)"
      using False less.prems(1) by (intro less.hyps) (auto simp: m_def)
    with False k show ?thesis
      by (subst simple_loop.simps) (simp add: Let_def used_upto_Suc upt_conv_Cons)
  qed
qed

text \<open>
  The loop around a split function that \<open>init_batch\<close> of the memories runs: split until an
  empty micro-batch. It need not end for an arbitrary split function.
\<close>

partial_function (option) split_all ::
    "(balloc \<Rightarrow> llama_ubatch \<times> balloc) \<Rightarrow> balloc \<Rightarrow> (llama_ubatch list \<times> balloc) option" where
  "split_all split a =
     (let (ubatch, a) = split a in
      if ub_n_tokens ubatch = 0 then Some ([], a)
      else Option.bind (split_all split a) (\<lambda>(ubatches, a). Some (ubatch # ubatches, a)))"

declare split_all.simps [code]

text \<open>A text batch with all arrays filled in.\<close>

definition batch_filled :: "balloc \<Rightarrow> nat \<Rightarrow> bool" where
  "batch_filled a n =
     (b_n_tokens (ba_batch a) = int n \<and> b_embd (ba_batch a) = None \<and>
      (\<exists>token. b_token (ba_batch a) = Some token \<and> length token = n) \<and>
      length (the_pos a) = n \<and> length (the_n_seq_id a) = n \<and> length (the_seq_id a) = n \<and>
      length (the_logits a) = n)"

lemma map_nth_slice: "k + m \<le> length xs \<Longrightarrow> map ((!) xs) [k..<k + m] = take m (drop k xs)"
  by (auto intro!: nth_equalityI)

text \<open>The fields of a micro-batch of a text batch.\<close>

lemma ubatch_add_simps [simp]:
  "ub_n_tokens (fst (ubatch_add a idxs n_seqs e)) = length idxs"
  "ub_n_seqs (fst (ubatch_add a idxs n_seqs e)) = n_seqs"
  "ub_n_seq_tokens (fst (ubatch_add a idxs n_seqs e)) = length idxs div n_seqs"
  "ub_equal_seqs (fst (ubatch_add a idxs n_seqs e)) = e"
  "ub_token (fst (ubatch_add a idxs n_seqs e)) = map_option (\<lambda>token. map ((!) token) idxs) (b_token (ba_batch a))"
  "ub_n_seq_id (fst (ubatch_add a idxs n_seqs e)) = map ((!) (the_n_seq_id a)) idxs"
  "ub_seq_id (fst (ubatch_add a idxs n_seqs e)) = map ((!) (the_seq_id a)) idxs"
  "ub_output (fst (ubatch_add a idxs n_seqs e)) = map ((!) (the_logits a)) idxs"
  "snd (ubatch_add a idxs n_seqs e) =
     a\<lparr>ba_out_ids := ba_out_ids a @ filter (\<lambda>i. the_logits a ! i \<noteq> 0) idxs\<rparr>"
  by (simp_all add: ubatch_add_def Let_def case_prod_beta)

lemma ubatch_add_pos [simp]:
  "b_embd (ba_batch a) = None \<Longrightarrow> ub_pos (fst (ubatch_add a idxs n_seqs e)) = map ((!) (the_pos a)) idxs"
  by (simp add: ubatch_add_def Let_def case_prod_beta)

lemma split_simple_upto:
  assumes "batch_filled a n" and "ba_used a = used_upto c n" and "c < n" and "1 \<le> n_ubatch"
    and k: "k = min n_ubatch (n - c)"
  shows "split_simple a n_ubatch =
    ubatch_add (a\<lparr>ba_used := used_upto (c + k) n, ba_n_used := ba_n_used a + k\<rparr>) [c..<c + k] k False"
proof -
  have "simple_loop n_ubatch c [] (used_upto c n) (ba_n_used a) =
    ([c..<c + k], used_upto (c + k) n, ba_n_used a + k)"
    using assms by (subst simple_loop_upto [where k = k]) auto
  with assms(2,3) show ?thesis
    by (simp add: split_simple_def)
qed

lemma split_simple_done:
  "ba_used a = used_upto n n \<Longrightarrow> split_simple a n_ubatch = (empty_ubatch, a)"
  by (simp add: split_simple_def)

lemma split_all_simple:
  assumes "batch_filled a n" and "ba_used a = used_upto c n" and "c \<le> n" and "1 \<le> n_ubatch"
    and "ba_n_used a = c"
  shows "\<exists>us a'. split_all (\<lambda>a. split_simple a n_ubatch) a = Some (us, a') \<and>
    (\<forall>u\<in>set us. 1 \<le> ub_n_tokens u \<and> ub_n_tokens u \<le> n_ubatch) \<and>
    concat (map ub_pos us) = drop c (the_pos a) \<and>
    concat (map (\<lambda>u. the (ub_token u)) us) = drop c (the (b_token (ba_batch a))) \<and>
    concat (map ub_seq_id us) = drop c (the_seq_id a) \<and>
    concat (map ub_output us) = drop c (the_logits a) \<and>
    ba_n_used a' = n \<and> ba_batch a' = ba_batch a \<and>
    ba_out_ids a' = ba_out_ids a @ filter (\<lambda>i. the_logits a ! i \<noteq> 0) [c..<n]"
  using assms
proof (induction "n - c" arbitrary: a c rule: less_induct)
  case less
  show ?case
  proof (cases "c = n")
    case True
    with less.prems show ?thesis
      by (subst split_all.simps) (auto simp: split_simple_done empty_ubatch_def batch_filled_def)
  next
    case False
    define k where "k = min n_ubatch (n - c)"
    let ?a = "a\<lparr>ba_used := used_upto (c + k) n, ba_n_used := ba_n_used a + k\<rparr>"
    let ?u = "fst (ubatch_add ?a [c..<c + k] k False)" and ?a' = "snd (ubatch_add ?a [c..<c + k] k False)"
    have k: "0 < k" "c + k \<le> n" "k \<le> n_ubatch"
      using False less.prems unfolding k_def by auto
    have split: "split_simple a n_ubatch = (?u, ?a')"
      using less.prems False split_simple_upto [of a n c n_ubatch k] unfolding prod.collapse by (simp add: k_def)
    have "\<exists>us a''. split_all (\<lambda>a. split_simple a n_ubatch) ?a' = Some (us, a'') \<and>
      (\<forall>u\<in>set us. 1 \<le> ub_n_tokens u \<and> ub_n_tokens u \<le> n_ubatch) \<and>
      concat (map ub_pos us) = drop (c + k) (the_pos ?a') \<and>
      concat (map (\<lambda>u. the (ub_token u)) us) = drop (c + k) (the (b_token (ba_batch ?a'))) \<and>
      concat (map ub_seq_id us) = drop (c + k) (the_seq_id ?a') \<and>
      concat (map ub_output us) = drop (c + k) (the_logits ?a') \<and>
      ba_n_used a'' = n \<and> ba_batch a'' = ba_batch ?a' \<and>
      ba_out_ids a'' = ba_out_ids ?a' @ filter (\<lambda>i. the_logits ?a' ! i \<noteq> 0) [c + k..<n]"
      using less.prems k by (intro less.hyps) (auto simp: batch_filled_def)
    then obtain us a'' where rest: "split_all (\<lambda>a. split_simple a n_ubatch) ?a' = Some (us, a'')"
      and us: "\<forall>u\<in>set us. 1 \<le> ub_n_tokens u \<and> ub_n_tokens u \<le> n_ubatch"
      "concat (map ub_pos us) = drop (c + k) (the_pos a)"
      "concat (map (\<lambda>u. the (ub_token u)) us) = drop (c + k) (the (b_token (ba_batch a)))"
      "concat (map ub_seq_id us) = drop (c + k) (the_seq_id a)"
      "concat (map ub_output us) = drop (c + k) (the_logits a)"
      "ba_n_used a'' = n" "ba_batch a'' = ba_batch a"
      "ba_out_ids a'' = ba_out_ids ?a' @ filter (\<lambda>i. the_logits a ! i \<noteq> 0) [c + k..<n]"
      by auto
    have all: "split_all (\<lambda>a. split_simple a n_ubatch) a = Some (?u # us, a'')"
      using k rest by (subst split_all.simps) (simp add: split)
    have app: "take k (drop c xs) @ drop (c + k) xs = drop c xs" for xs :: "'x list"
      by (metis append_take_drop_id drop_drop add.commute)
    have "[c..<n] = [c..<c + k] @ [c + k..<n]"
      using k by (metis le_add1 le_add_diff_inverse upt_add_eq_append)
    then have out: "ba_out_ids a'' = ba_out_ids a @ filter (\<lambda>i. the_logits a ! i \<noteq> 0) [c..<n]"
      using us(8) by simp
    have "ub_pos ?u = take k (drop c (the_pos a))" "ub_seq_id ?u = take k (drop c (the_seq_id a))"
      "ub_output ?u = take k (drop c (the_logits a))"
      "the (ub_token ?u) = take k (drop c (the (b_token (ba_batch a))))"
      using less.prems(1) k by (auto simp: batch_filled_def map_nth_slice)
    with all us out k show ?thesis
      by (intro exI [of _ "?u # us"] exI [of _ a'']) (simp add: app del: drop_drop)
  qed
qed


section \<open>Text batches of one sequence\<close>

lemma seq_ids_of_single [simp]:
  "i < n \<Longrightarrow> seq_ids_of (replicate n 1) (replicate n [s]) i = [s]"
  by (simp add: seq_ids_of_def)

lemma fill_pos_single:
  assumes "b_n_seq_id b = Some (replicate n 1)" and "b_seq_id b = Some (replicate n [0])"
    and "b_n_tokens b = int n"
  shows "fill_pos b memory = map (\<lambda>i. pos_start memory 0 + int i) [0..<n]"
proof -
  have "foldl (pos_step b) (pos_start memory, []) [0..<k] =
    ((pos_start memory)(0 := pos_start memory 0 + int k), map (\<lambda>i. pos_start memory 0 + int i) [0..<k])"
    if "k \<le> n" for k
    using that
  proof (induction k)
    case (Suc k)
    then show ?case
      using assms by (simp add: pos_step_def Let_def fun_upd_def fun_eq_iff)
  qed simp
  with assms(3) show ?thesis
    by (simp add: fill_pos_def)
qed

text \<open>A filled batch whose tokens all belong to sequence 0.\<close>

definition single_seq :: "llama_batch \<Rightarrow> nat \<Rightarrow> bool" where
  "single_seq b n = (b_n_tokens b = int n \<and> b_n_seq_id b = Some (replicate n 1) \<and>
     b_seq_id b = Some (replicate n [0]))"

lemma batch_fill_single:
  assumes "b_n_tokens b = int n" and "b_n_seq_id b = None" and "b_seq_id b = None"
  shows "single_seq (batch_fill b memory output_all) n \<and>
    b_pos (batch_fill b memory output_all) =
      Some (case b_pos b of None \<Rightarrow> map (\<lambda>i. pos_start memory 0 + int i) [0..<n] | Some ps \<Rightarrow> ps) \<and>
    b_token (batch_fill b memory output_all) = b_token b \<and>
    b_embd (batch_fill b memory output_all) = b_embd b \<and>
    b_n_tokens (batch_fill b memory output_all) = int n"
  using assms by (auto simp: batch_fill_def Let_def single_seq_def fill_pos_single split: option.splits)

lemma token_seq_set_single [simp]:
  "single_seq b n \<Longrightarrow> i < n \<Longrightarrow> token_seq_set b i = {0}"
  by (simp add: token_seq_set_def single_seq_def)

lemma couple_single:
  assumes "single_seq b n" and "b_pos b = Some ps" and "length ps = n" and "k \<le> n"
  shows "fold (couple_step b) [0..<k] a =
    a\<lparr>ba_seq_pos := (ba_seq_pos a)(0 := ba_seq_pos a 0 \<union> set (take k ps))\<rparr>"
  using assms(4)
proof (induction k)
  case 0
  then show ?case by simp
next
  case (Suc k)
  then have "fold (couple_step b) [0..<Suc k] a = couple_step b k
    (a\<lparr>ba_seq_pos := (ba_seq_pos a)(0 := ba_seq_pos a 0 \<union> set (take k ps))\<rparr>)"
    by (simp add: fun_upd_def)
  also have "\<dots> = a\<lparr>ba_seq_pos := (ba_seq_pos a)(0 := ba_seq_pos a 0 \<union> set (take (Suc k) ps))\<rparr>"
    using assms Suc.prems by (auto simp: couple_step_def single_seq_def take_Suc_conv_app_nth)
  finally show ?case .
qed

lemma seq_set_single:
  assumes "single_seq b n" and "k \<le> n"
  shows "fold (seq_set_step b) [0..<k] a =
    a\<lparr>ba_seq_set := ba_seq_set a @ replicate k {0},
      ba_seq_set_map := (ba_seq_set_map a)({0} := ba_seq_set_map a {0} @ [0..<k])\<rparr>"
  using assms(2)
proof (induction k)
  case (Suc k)
  then have "fold (seq_set_step b) [0..<Suc k] a = seq_set_step b k
    (a\<lparr>ba_seq_set := ba_seq_set a @ replicate k {0},
      ba_seq_set_map := (ba_seq_set_map a)({0} := ba_seq_set_map a {0} @ [0..<k])\<rparr>)"
    by (simp add: fun_upd_def)
  also have "\<dots> = a\<lparr>ba_seq_set := ba_seq_set a @ replicate (Suc k) {0},
      ba_seq_set_map := (ba_seq_set_map a)({0} := ba_seq_set_map a {0} @ [0..<Suc k])\<rparr>"
    using assms(1) Suc.prems by (simp add: seq_set_step_def replicate_append_same Let_def)
  finally show ?case .
qed simp

text \<open>The statistics of such a batch, on an allocator that was cleared.\<close>

lemma stats_single:
  assumes "single_seq b n" and "b_pos b = Some ps" and "length ps = n"
  shows "ba_batch (balloc_stats (balloc_clear a\<lparr>ba_batch := b\<rparr>) e m) = b"
    and "ba_seq_pos (balloc_stats (balloc_clear a\<lparr>ba_batch := b\<rparr>) e m) = (\<lambda>s. if s = 0 then set ps else {})"
    and "ba_seq_cpl (balloc_stats (balloc_clear a\<lparr>ba_batch := b\<rparr>) e m) = (\<lambda>_ _. False)"
    and "ba_has_cpl (balloc_stats (balloc_clear a\<lparr>ba_batch := b\<rparr>) e m) = False"
    and "ba_seq_set (balloc_stats (balloc_clear a\<lparr>ba_batch := b\<rparr>) e m) = replicate n {0}"
    and "ba_seq_set_map (balloc_stats (balloc_clear a\<lparr>ba_batch := b\<rparr>) e m) {0} = [0..<n]"
  using assms(1) couple_single [OF assms le_refl] seq_set_single [OF assms(1) le_refl] assms(3)
  by (auto simp: balloc_stats_def Let_def balloc_clear_def single_seq_def case_prod_beta fun_eq_iff)

lemma order_ok_single:
  assumes "single_seq (ba_batch a) n" and "b_pos (ba_batch a) = Some ps" and "length ps = n"
    and "ba_seq_set a = replicate n {0}" and "\<forall>p\<in>set ps. -1 \<le> p"
  shows "order_ok a"
proof -
  have n: "get_n_tokens a = n"
    using assms(1) by (simp add: get_n_tokens_def single_seq_def)
  have "\<exists>f. fold (\<lambda>is st. Option.bind st (order_step a is)) xs (Some (g, \<lambda>_. -1)) = Some (f, \<lambda>_. -1)"
    if "set xs \<subseteq> {0..<n} \<times> {0}" and "0 \<in> g 0" for xs g
    using that
  proof (induction xs arbitrary: g)
    case (Cons x xs)
    then obtain i where x: "x = (i, 0)" and i: "i < n" by auto
    have "ps ! i \<in> set ps" using i assms(3) by simp
    then have p: "\<not> ps ! i < -1" using assms(5) by force
    have "order_step a x (g, \<lambda>_. -1) = Some (g(0 := g 0 \<inter> {0}), \<lambda>_. -1)"
      using assms i p x Cons.prems(2) by (auto simp: order_step_def single_seq_def)
    with Cons.IH [of "g(0 := g 0 \<inter> {0})"] Cons.prems show ?case by (simp add: fun_upd_def)
  qed simp
  note scan = this
  let ?xs = "concat (map (\<lambda>i. map (Pair i) [0..<nat (the_n_seq_id a ! i)]) [0..<get_n_tokens a])"
  have "set ?xs \<subseteq> {0..<n} \<times> {0}"
    using assms(1) n by (auto simp: single_seq_def)
  from scan [OF this, of "\<lambda>_. {..<LLAMA_MAX_SEQ}"] show ?thesis
    by (auto simp: order_ok_def LLAMA_MAX_SEQ_def)
qed

lemma seq_consistent_empty: "ba_seq_pos a s = {} \<Longrightarrow> seq_consistent a memory s"
  by (simp add: seq_consistent_def)

lemma coupled_none: "ba_seq_cpl a = (\<lambda>_ _. False) \<Longrightarrow> coupled_consistent a memory m"
  by (auto simp: coupled_consistent_def list_all_iff split: option.splits)

lemma Min_Max_range: "a \<le> b \<Longrightarrow> Min {a..b::int} = a \<and> Max {a..b} = b"
  by (auto intro!: Min_eqI Max_eqI)

text \<open>Consecutive integers are the sets as large as their span.\<close>

lemma span_card:
  fixes S :: "int set"
  assumes "finite S" and "S \<noteq> {}"
  shows "\<not> (Max S - Min S + 1 > int (card S)) \<longleftrightarrow> S = {Min S..Max S}"
proof -
  have sub: "S \<subseteq> {Min S..Max S}"
    using assms(1) by auto
  have le: "Min S \<le> Max S"
    using assms by simp
  show ?thesis
  proof
    assume "\<not> (Max S - Min S + 1 > int (card S))"
    with le have "card {Min S..Max S} \<le> card S" by simp
    with sub show "S = {Min S..Max S}" by (simp add: card_seteq)
  next
    assume "S = {Min S..Max S}"
    then have "card S = card {Min S..Max S}" by simp
    with le show "\<not> (Max S - Min S + 1 > int (card S))" by simp
  qed
qed

lemma init_single:
  assumes "b_n_tokens b = int n" and "0 < n" and "b_n_seq_id b = None" and "b_seq_id b = None"
    and "b_token b = Some token" and "length token = n" and "\<forall>t\<in>set token. 0 \<le> t \<and> t < int n_vocab"
    and "1 \<le> n_seq_max" and "n_seq_max \<le> LLAMA_MAX_SEQ"
    and ps: "ps = (case b_pos b of None \<Rightarrow> map (\<lambda>i. pos_start memory 0 + int i) [0..<n] | Some ps \<Rightarrow> ps)"
    and "length ps = n" and "\<forall>p\<in>set ps. -1 \<le> p"
  shows "\<exists>a'. balloc_init a b n_vocab memory e n_seq_max output_all =
      Some (set ps = {Min (set ps)..Max (set ps)} \<and>
        (case memory of None \<Rightarrow> True
         | Some m \<Rightarrow> 0 \<le> mv_seq_pos_max m 0 \<longrightarrow> Min (set ps) = mv_seq_pos_max m 0 + 1), a') \<and>
    ba_batch a' = batch_fill b memory output_all \<and>
    (set ps = {Min (set ps)..Max (set ps)} \<and>
        (case memory of None \<Rightarrow> True
         | Some m \<Rightarrow> 0 \<le> mv_seq_pos_max m 0 \<longrightarrow> Min (set ps) = mv_seq_pos_max m 0 + 1) \<longrightarrow>
      ba_used a' = replicate n False \<and> ba_n_used a' = 0 \<and> ba_out_ids a' = [])"
proof -
  let ?b = "batch_fill b memory output_all"
  let ?a = "balloc_stats (balloc_clear a\<lparr>ba_batch := ?b\<rparr>) e n_seq_max"
  have fill: "single_seq ?b n" "b_pos ?b = Some ps" "b_token ?b = Some token" "b_n_tokens ?b = int n"
    using batch_fill_single [OF assms(1,3,4), of memory output_all] assms(5) ps by simp_all
  note st = stats_single [OF fill(1,2) assms(11), of a e n_seq_max]
  have valid: "batch_valid b n_vocab n_seq_max"
    using assms(1,4-7,9) by (auto simp: batch_valid_def list_all_iff)
  have ne: "set ps \<noteq> {}" using assms(2,11) by auto
  have cons0: "seq_consistent ?a memory 0 \<longleftrightarrow> set ps = {Min (set ps)..Max (set ps)} \<and>
        (case memory of None \<Rightarrow> True
         | Some m \<Rightarrow> 0 \<le> mv_seq_pos_max m 0 \<longrightarrow> Min (set ps) = mv_seq_pos_max m 0 + 1)"
    using ne fill st(1,2) span_card [OF finite_set ne]
    by (auto simp: seq_consistent_def balloc_seq_pos_min_def balloc_seq_pos_max_def Let_def split: option.splits)
  have rest: "seq_consistent ?a memory s" if "s \<noteq> 0" for s
    using that st(2) by (intro seq_consistent_empty) simp
  have cons: "list_all (seq_consistent ?a memory) [0..<n_seq_max] \<longleftrightarrow> seq_consistent ?a memory 0"
  proof
    assume "seq_consistent ?a memory 0"
    with rest have "seq_consistent ?a memory s" for s by (cases "s = 0") auto
    then show "list_all (seq_consistent ?a memory) [0..<n_seq_max]" by (simp add: list_all_iff)
  next
    assume "list_all (seq_consistent ?a memory) [0..<n_seq_max]"
    with assms(8) show "seq_consistent ?a memory 0" by (auto simp: list_all_iff)
  qed
  have ord: "order_ok ?a"
    using fill st assms(11,12) by (intro order_ok_single [of ?a n ps]) simp_all
  have n: "get_n_tokens ?a = n"
    using fill(4) st(1) by (simp add: get_n_tokens_def)
  have "balloc_init a b n_vocab memory e n_seq_max output_all =
    (if seq_consistent ?a memory 0 then Some (True, split_reset ?a) else Some (False, ?a))"
    using assms(1,2) valid cons ord coupled_none [OF st(3)]
    by (simp add: balloc_init_def Let_def)
  then show ?thesis
    using cons0 st(1) n by (auto simp: split_reset_def)
qed


text \<open>
  C17. A plain text batch (\<open>llama_batch_get_one\<close>: tokens only) behind a memory whose
  sequence 0 ends at \<open>p\<close> is accepted, and the micro-batches of \<open>split_simple\<close>,
  taken together, are exactly the batch: the tokens in their order, the positions
  \<open>p + 1, p + 2, \<dots>\<close>, sequence 0 for each, at least one and at most \<open>n_ubatch\<close>
  tokens in every micro-batch, all tokens used, and one output, the last token's.
\<close>

theorem text_batch_split:
  assumes "tokens \<noteq> []" and "\<forall>t\<in>set tokens. 0 \<le> t \<and> t < int n_vocab"
    and "1 \<le> n_seq_max" and "n_seq_max \<le> LLAMA_MAX_SEQ" and "1 \<le> n_ubatch"
    and "-1 \<le> mv_seq_pos_max m 0"
  shows "\<exists>a' us a''. balloc_init a (llama_batch_get_one tokens (int (length tokens))) n_vocab (Some m)
      n_embd n_seq_max False = Some (True, a') \<and>
    split_all (\<lambda>a. split_simple a n_ubatch) a' = Some (us, a'') \<and>
    (\<forall>u\<in>set us. 1 \<le> ub_n_tokens u \<and> ub_n_tokens u \<le> n_ubatch) \<and>
    concat (map (\<lambda>u. the (ub_token u)) us) = tokens \<and>
    concat (map ub_pos us) = map (\<lambda>i. mv_seq_pos_max m 0 + 1 + int i) [0..<length tokens] \<and>
    concat (map ub_seq_id us) = replicate (length tokens) [0] \<and>
    get_n_used a'' = length tokens \<and> get_out_ids a'' = [length tokens - 1]"
proof -
  let ?n = "length tokens" and ?b = "llama_batch_get_one tokens (int (length tokens))"
  let ?ps = "map (\<lambda>i. mv_seq_pos_max m 0 + 1 + int i) [0..<?n]"
  let ?f = "batch_fill ?b (Some m) False"
  have b: "b_n_tokens ?b = int ?n" "b_n_seq_id ?b = None" "b_seq_id ?b = None" "b_pos ?b = None"
    "b_token ?b = Some tokens" "b_embd ?b = None" "b_logits ?b = None"
    by (simp_all add: llama_batch_get_one_def)
  have n: "0 < ?n" using assms(1) by simp
  have set_ps: "set ?ps = {mv_seq_pos_max m 0 + 1..mv_seq_pos_max m 0 + int ?n}"
  proof -
    have "set ?ps = (\<lambda>i. mv_seq_pos_max m 0 + 1 + int i) ` {0..<?n}" by simp
    also have "\<dots> = {mv_seq_pos_max m 0 + 1..mv_seq_pos_max m 0 + int ?n}"
    proof (intro equalityI subsetI)
      fix x assume "x \<in> {mv_seq_pos_max m 0 + 1..mv_seq_pos_max m 0 + int ?n}"
      then show "x \<in> (\<lambda>i. mv_seq_pos_max m 0 + 1 + int i) ` {0..<?n}"
        by (intro image_eqI [of _ _ "nat (x - mv_seq_pos_max m 0 - 1)"]) auto
    qed auto
    finally show ?thesis .
  qed
  have "1 \<le> int ?n" using n by linarith
  then have mm: "Min (set ?ps) = mv_seq_pos_max m 0 + 1" "Max (set ?ps) = mv_seq_pos_max m 0 + int ?n"
    unfolding set_ps using Min_Max_range [of "mv_seq_pos_max m 0 + 1" "mv_seq_pos_max m 0 + int ?n"] by simp_all
  have span: "set ?ps = {Min (set ?ps)..Max (set ?ps)}" "Min (set ?ps) = mv_seq_pos_max m 0 + 1"
    unfolding mm using set_ps by simp_all
  obtain a' where a': "balloc_init a ?b n_vocab (Some m) n_embd n_seq_max False = Some (True, a')"
    and bat: "ba_batch a' = ?f" and used: "ba_used a' = replicate ?n False" "ba_n_used a' = 0" "ba_out_ids a' = []"
    using init_single [OF b(1) n b(2,3,5) refl assms(2-4), where ps = ?ps and memory = "Some m" and a = a
        and e = n_embd and output_all = False] span assms(6) b(4)
    by (auto simp: pos_start_def)
  note fill = batch_fill_single [OF b(1-3), of "Some m" False]
  have log: "b_logits ?f = Some ((replicate ?n 0)[?n - 1 := 1])"
    by (simp add: batch_fill_def Let_def fill_logits_def llama_batch_get_one_def)
  have arr: "the_pos a' = ?ps" "the_seq_id a' = replicate ?n [0]"
    "the_n_seq_id a' = replicate ?n 1" "the_logits a' = (replicate ?n 0)[?n - 1 := 1]"
    "the (b_token (ba_batch a')) = tokens"
    using fill log b(4,5) bat by (auto simp: single_seq_def pos_start_def)
  have "batch_filled a' ?n"
    using fill arr bat b(5,6) by (simp add: batch_filled_def)
  from split_all_simple [OF this, of 0 n_ubatch] used assms(5)
  obtain us a'' where sp: "split_all (\<lambda>a. split_simple a n_ubatch) a' = Some (us, a'')"
    "\<forall>u\<in>set us. 1 \<le> ub_n_tokens u \<and> ub_n_tokens u \<le> n_ubatch"
    "concat (map ub_pos us) = ?ps" "concat (map (\<lambda>u. the (ub_token u)) us) = tokens"
    "concat (map ub_seq_id us) = replicate ?n [0]" "ba_n_used a'' = ?n"
    "ba_out_ids a'' = filter (\<lambda>i. the_logits a' ! i \<noteq> 0) [0..<?n]"
    by (auto simp: arr used_upto_0)
  have "[0..<?n] = [0..<?n - 1] @ [?n - 1]"
    using n by (metis Suc_pred' upt_Suc_append zero_le)
  then have "filter (\<lambda>i. the_logits a' ! i \<noteq> 0) [0..<?n] = [?n - 1]"
    using n by (auto simp: arr filter_empty_conv)
  with a' sp show ?thesis
    by (auto simp: get_n_used_def get_out_ids_def)
qed

theorem text_batch_split_witness:
  "\<exists>a' us a''. balloc_init (new_balloc 1) (llama_batch_get_one [5, 6, 7] (int (length [5, 6, 7::int]))) 10
      (Some \<lparr>mv_seq_pos_min = \<lambda>_. -1, mv_seq_pos_max = \<lambda>_. -1\<rparr>) 8 1 False = Some (True, a') \<and>
    split_all (\<lambda>a. split_simple a 2) a' = Some (us, a'') \<and> concat (map ub_pos us) = [0, 1, 2]"
  using text_batch_split [of "[5, 6, 7]" 10 1 2 "\<lparr>mv_seq_pos_min = \<lambda>_. -1, mv_seq_pos_max = \<lambda>_. -1\<rparr>"
      "new_balloc 1" 8]
  by (auto simp: LLAMA_MAX_SEQ_def upt_rec)

text \<open>
  A text batch of sequence 0 with explicit positions and valid tokens: \<open>init\<close> accepts
  it exactly when the set of its positions is a gapless range that starts right behind the memory.
  The order of the positions plays no role, although the last check of \<open>init\<close> is documented
  to disallow decreasing positions: its \<open>cur_seq_pos\<close> is never updated.
\<close>

theorem init_ignores_position_order:
  assumes "0 < length tokens" and "length positions = length tokens"
    and "\<forall>t\<in>set tokens. 0 \<le> t \<and> t < int n_vocab" and "\<forall>p\<in>set positions. 0 \<le> p"
    and "1 \<le> n_seq_max" and "n_seq_max \<le> LLAMA_MAX_SEQ"
  shows "map_option fst (balloc_init a ((llama_batch_get_one tokens (int (length tokens)))\<lparr>b_pos := Some positions\<rparr>)
      n_vocab memory n_embd n_seq_max output_all) =
    Some (set positions = {Min (set positions)..Max (set positions)} \<and>
      (case memory of None \<Rightarrow> True
       | Some m \<Rightarrow> 0 \<le> mv_seq_pos_max m 0 \<longrightarrow> Min (set positions) = mv_seq_pos_max m 0 + 1))"
proof -
  let ?b = "(llama_batch_get_one tokens (int (length tokens)))\<lparr>b_pos := Some positions\<rparr>"
  have "\<forall>p\<in>set positions. -1 \<le> p" using assms(4) by auto
  with init_single [of ?b "length tokens" tokens n_vocab n_seq_max positions memory a n_embd output_all] assms
  show ?thesis
    by (auto simp: llama_batch_get_one_def)
qed

theorem init_ignores_position_order_witness:
  "map_option fst (balloc_init (new_balloc 1)
     ((llama_batch_get_one [7, 8, 9] (int (length [7, 8, 9::int])))\<lparr>b_pos := Some [2, 0, 1]\<rparr>) 10 None 8 1 False) =
   Some True"
proof -
  have "{0, 1, 2} = {0..2::int}" by auto
  then have "set [2, 0, 1::int] = {Min (set [2, 0, 1])..Max (set [2, 0, 1])}"
    by auto
  with init_ignores_position_order [of "[7, 8, 9]" "[2, 0, 1]" 10 1 "new_balloc 1" None 8 False]
  show ?thesis
    by (simp add: LLAMA_MAX_SEQ_def) blast
qed


section \<open>What init guarantees\<close>

lemma couple_inner:
  "ba_seq_pos (fold (\<lambda>s a. let s1 = f s; a = a\<lparr>ba_seq_pos := (ba_seq_pos a)(s1 := insert p (ba_seq_pos a s1))\<rparr>
      in if 0 < s then a\<lparr>ba_seq_cpl := (ba_seq_cpl a)(s1 := (ba_seq_cpl a s1)(s0 := True)), ba_has_cpl := True\<rparr>
         else a) ss a) t = ba_seq_pos a t \<union> (if t \<in> f ` set ss then {p} else {})"
  "ba_seq_cpl (fold (\<lambda>s a. let s1 = f s; a = a\<lparr>ba_seq_pos := (ba_seq_pos a)(s1 := insert p (ba_seq_pos a s1))\<rparr>
      in if 0 < s then a\<lparr>ba_seq_cpl := (ba_seq_cpl a)(s1 := (ba_seq_cpl a s1)(s0 := True)), ba_has_cpl := True\<rparr>
         else a) ss a) t u \<longleftrightarrow> ba_seq_cpl a t u \<or> u = s0 \<and> (\<exists>s\<in>set ss. 0 < s \<and> f s = t)"
  by (induction ss arbitrary: a) (auto simp: Let_def)

lemma couple_step_simps:
  "ba_seq_pos (couple_step b i a) t = ba_seq_pos a t \<union>
     (if t \<in> token_seq_set b i then {the (b_pos b) ! i} else {})"
  "ba_seq_cpl (couple_step b i a) t u \<longleftrightarrow> ba_seq_cpl a t u \<or> u = nat (the (b_seq_id b) ! i ! 0) \<and>
     (\<exists>s < nat (the (b_n_seq_id b) ! i). 0 < s \<and> nat (the (b_seq_id b) ! i ! s) = t)"
  unfolding couple_step_def Let_def [of "nat (the (b_seq_id b) ! i ! 0)"] couple_inner
  by (auto simp: token_seq_set_def seq_ids_of_def)

lemma couple_fold_simps:
  "ba_seq_pos (fold (couple_step b) is a) t = ba_seq_pos a t \<union>
     {the (b_pos b) ! i |i. i \<in> set is \<and> t \<in> token_seq_set b i}"
  "ba_seq_cpl (fold (couple_step b) is a) t u \<longleftrightarrow> ba_seq_cpl a t u \<or>
     (\<exists>i\<in>set is. u = nat (the (b_seq_id b) ! i ! 0) \<and>
       (\<exists>s < nat (the (b_n_seq_id b) ! i). 0 < s \<and> nat (the (b_seq_id b) ! i ! s) = t))"
  by (induction "is" arbitrary: a) (auto simp: couple_step_simps split: if_splits)

lemma couple_fold_frame [simp]:
  "ba_batch (fold (couple_step b) is a) = ba_batch a"
  "ba_seq_set (fold (couple_step b) is a) = ba_seq_set a"
  "ba_seq_set_map (fold (couple_step b) is a) = ba_seq_set_map a"
proof -
  have "ba_batch (couple_step b i a) = ba_batch a \<and> ba_seq_set (couple_step b i a) = ba_seq_set a \<and>
    ba_seq_set_map (couple_step b i a) = ba_seq_set_map a" for i a
  proof -
    have "ba_batch (fold (\<lambda>s a. let s1 = f s; a = a\<lparr>ba_seq_pos := (ba_seq_pos a)(s1 := insert p (ba_seq_pos a s1))\<rparr>
      in if 0 < s then a\<lparr>ba_seq_cpl := (ba_seq_cpl a)(s1 := (ba_seq_cpl a s1)(s0 := True)), ba_has_cpl := True\<rparr>
         else a) ss a) = ba_batch a \<and>
      ba_seq_set (fold (\<lambda>s a. let s1 = f s; a = a\<lparr>ba_seq_pos := (ba_seq_pos a)(s1 := insert p (ba_seq_pos a s1))\<rparr>
      in if 0 < s then a\<lparr>ba_seq_cpl := (ba_seq_cpl a)(s1 := (ba_seq_cpl a s1)(s0 := True)), ba_has_cpl := True\<rparr>
         else a) ss a) = ba_seq_set a \<and>
      ba_seq_set_map (fold (\<lambda>s a. let s1 = f s; a = a\<lparr>ba_seq_pos := (ba_seq_pos a)(s1 := insert p (ba_seq_pos a s1))\<rparr>
      in if 0 < s then a\<lparr>ba_seq_cpl := (ba_seq_cpl a)(s1 := (ba_seq_cpl a s1)(s0 := True)), ba_has_cpl := True\<rparr>
         else a) ss a) = ba_seq_set_map a" for f p s0 ss
      by (induction ss arbitrary: a) (auto simp: Let_def)
    then show ?thesis by (simp add: couple_step_def)
  qed
  then show "ba_batch (fold (couple_step b) is a) = ba_batch a"
    "ba_seq_set (fold (couple_step b) is a) = ba_seq_set a"
    "ba_seq_set_map (fold (couple_step b) is a) = ba_seq_set_map a"
    by (induction "is" arbitrary: a) auto
qed

lemma seq_set_fold_simps:
  "ba_batch (fold (seq_set_step b) is a) = ba_batch a"
  "ba_seq_pos (fold (seq_set_step b) is a) = ba_seq_pos a"
  "ba_seq_cpl (fold (seq_set_step b) is a) = ba_seq_cpl a"
  "ba_seq_set (fold (seq_set_step b) is a) = ba_seq_set a @ map (token_seq_set b) is"
  "ba_seq_set_map (fold (seq_set_step b) is a) S = ba_seq_set_map a S @ filter (\<lambda>i. token_seq_set b i = S) is"
  by (induction "is" arbitrary: a) (auto simp: seq_set_step_def Let_def)

lemma balloc_stats_simps:
  fixes a b e m
  defines "r \<equiv> balloc_stats (balloc_clear a\<lparr>ba_batch := b\<rparr>) e m"
  shows "ba_batch r = b"
    and "ba_seq_pos r t = {the (b_pos b) ! i |i. i < nat (b_n_tokens b) \<and> t \<in> token_seq_set b i}"
    and "ba_seq_cpl r t u \<longleftrightarrow> (\<exists>i < nat (b_n_tokens b). u = nat (the (b_seq_id b) ! i ! 0) \<and>
       (\<exists>s < nat (the (b_n_seq_id b) ! i). 0 < s \<and> nat (the (b_seq_id b) ! i ! s) = t))"
    and "ba_seq_set r = map (token_seq_set b) [0..<nat (b_n_tokens b)]"
    and "ba_seq_set_map r S = filter (\<lambda>i. token_seq_set b i = S) [0..<nat (b_n_tokens b)]"
  unfolding r_def balloc_stats_def Let_def case_prod_beta
  by (auto simp: seq_set_fold_simps couple_fold_simps balloc_clear_def)

text \<open>The positions at which a sequence occurs in the batch.\<close>

definition batch_positions :: "llama_batch \<Rightarrow> nat \<Rightarrow> llama_pos set" where
  "batch_positions b s = {the (b_pos b) ! i |i. i < nat (b_n_tokens b) \<and> s \<in> token_seq_set b i}"

lemma batch_fill_frame [simp]:
  "b_n_tokens (batch_fill b memory oa) = b_n_tokens b" "b_token (batch_fill b memory oa) = b_token b"
  by (simp_all add: batch_fill_def Let_def)

text \<open>
  C38. What \<open>init\<close> establishes when it returns true: every token id is in the vocabulary; each
  sequence of the batch covers a gapless range of positions, which, when the memory holds some of that
  sequence, starts right behind its last position, or for a batch of embeddings perhaps at its last
  position; two sequences that share a token have the same
  least and the same greatest position in the memory; and no token is marked used yet.
\<close>

theorem init_establishes:
  assumes "balloc_init a b n_vocab memory n_embd n_seq_max output_all = Some (True, a')"
  shows "0 < b_n_tokens b \<and> ba_batch a' = batch_fill b memory output_all \<and>
    (\<forall>token. b_token b = Some token \<longrightarrow>
      (\<forall>i < get_n_tokens a'. 0 \<le> token ! i \<and> token ! i < int n_vocab)) \<and>
    (\<forall>s < n_seq_max. let P = batch_positions (ba_batch a') s in P \<noteq> {} \<longrightarrow> P = {Min P..Max P} \<and>
      (\<forall>m. memory = Some m \<and> 0 \<le> mv_seq_pos_max m s \<longrightarrow>
        Min P = mv_seq_pos_max m s + 1 \<or> b_token b = None \<and> Min P = mv_seq_pos_max m s)) \<and>
    (\<forall>m i s. memory = Some m \<and> i < get_n_tokens a' \<and> 0 < s \<and> s < nat (the_n_seq_id a' ! i) \<and>
      nat (the_seq_id a' ! i ! s) < n_seq_max \<and> nat (the_seq_id a' ! i ! 0) < n_seq_max \<longrightarrow>
      mv_seq_pos_min m (nat (the_seq_id a' ! i ! s)) = mv_seq_pos_min m (nat (the_seq_id a' ! i ! 0)) \<and>
      mv_seq_pos_max m (nat (the_seq_id a' ! i ! s)) = mv_seq_pos_max m (nat (the_seq_id a' ! i ! 0))) \<and>
    ba_used a' = replicate (get_n_tokens a') False \<and> get_n_used a' = 0 \<and> get_out_ids a' = []"
proof -
  let ?f = "batch_fill b memory output_all"
  let ?a = "balloc_stats (balloc_clear a\<lparr>ba_batch := ?f\<rparr>) n_embd n_seq_max"
  note st = balloc_stats_simps [where a = a and b = ?f and e = n_embd and m = n_seq_max]
  have pos: "0 < b_n_tokens b" and valid: "batch_valid b n_vocab n_seq_max"
    and cons: "list_all (seq_consistent ?a memory) [0..<n_seq_max]"
    and cpl: "coupled_consistent ?a memory n_seq_max" and a': "a' = split_reset ?a"
    using assms by (auto simp: balloc_init_def Let_def split: if_splits)
  have bat: "ba_batch a' = ?f" and n: "get_n_tokens a' = nat (b_n_tokens b)"
    using st(1) by (simp_all add: a' split_reset_def get_n_tokens_def)
  have P: "ba_seq_pos ?a s = batch_positions ?f s" for s
    using st(2) by (simp add: batch_positions_def)
  have tok: "0 \<le> token ! i \<and> token ! i < int n_vocab" if "b_token b = Some token" "i < get_n_tokens a'" for token i
    using valid that n by (auto simp: batch_valid_def list_all_iff)
  have seq: "P = {Min P..Max P} \<and> (\<forall>m. memory = Some m \<and> 0 \<le> mv_seq_pos_max m s \<longrightarrow>
        Min P = mv_seq_pos_max m s + 1 \<or> b_token b = None \<and> Min P = mv_seq_pos_max m s)"
    if "s < n_seq_max" and "P = batch_positions ?f s" and ne: "P \<noteq> {}" for s P
  proof -
    have fin: "finite P" using that(2) by (simp add: batch_positions_def)
    have PP: "ba_seq_pos ?a s = P"
      using P that(2) by simp
    have "seq_consistent ?a memory s"
      using cons that(1) by (auto simp: list_all_iff)
    then have c: "(case memory of None \<Rightarrow> -1 | Some m \<Rightarrow> mv_seq_pos_max m s) \<ge> 0 \<longrightarrow>
          (if b_token b \<noteq> None then Min P = (case memory of None \<Rightarrow> -1 | Some m \<Rightarrow> mv_seq_pos_max m s) + 1
           else Min P = (case memory of None \<Rightarrow> -1 | Some m \<Rightarrow> mv_seq_pos_max m s) \<or>
             Min P = (case memory of None \<Rightarrow> -1 | Some m \<Rightarrow> mv_seq_pos_max m s) + 1)"
      and "\<not> (Max P - Min P + 1 > int (card P))"
      unfolding seq_consistent_def balloc_seq_pos_min_def balloc_seq_pos_max_def PP Let_def if_not_P [OF ne] st(1)
        batch_fill_frame using ne by blast+
    then have "P = {Min P..Max P}"
      using span_card [OF fin ne] by blast
    with c show ?thesis by (auto split: if_splits)
  qed
  have coup: "mv_seq_pos_min m (nat (the_seq_id a' ! i ! s)) = mv_seq_pos_min m (nat (the_seq_id a' ! i ! 0)) \<and>
      mv_seq_pos_max m (nat (the_seq_id a' ! i ! s)) = mv_seq_pos_max m (nat (the_seq_id a' ! i ! 0))"
    if "memory = Some m" "i < get_n_tokens a'" "0 < s" "s < nat (the_n_seq_id a' ! i)"
      "nat (the_seq_id a' ! i ! s) < n_seq_max" "nat (the_seq_id a' ! i ! 0) < n_seq_max" for m i s
  proof -
    have "ba_seq_cpl ?a (nat (the_seq_id a' ! i ! s)) (nat (the_seq_id a' ! i ! 0))"
      using that(2-4) n bat st(3) by auto
    then show ?thesis
      using cpl that(1,5,6) by (auto simp: coupled_consistent_def list_all_iff)
  qed
  have reset: "ba_used a' = replicate (get_n_tokens a') False \<and> get_n_used a' = 0 \<and> get_out_ids a' = []"
    by (simp add: a' split_reset_def get_n_used_def get_out_ids_def get_n_tokens_def)
  show ?thesis
    unfolding Let_def
  proof (intro conjI)
    show "\<forall>s<n_seq_max. batch_positions (ba_batch a') s \<noteq> {} \<longrightarrow>
      batch_positions (ba_batch a') s = {Min (batch_positions (ba_batch a') s)..Max (batch_positions (ba_batch a') s)} \<and>
      (\<forall>m. memory = Some m \<and> 0 \<le> mv_seq_pos_max m s \<longrightarrow>
        Min (batch_positions (ba_batch a') s) = mv_seq_pos_max m s + 1 \<or>
        b_token b = None \<and> Min (batch_positions (ba_batch a') s) = mv_seq_pos_max m s)"
      unfolding bat using seq [OF _ refl] by blast
    show "\<forall>m i s. memory = Some m \<and> i < get_n_tokens a' \<and> 0 < s \<and> s < nat (the_n_seq_id a' ! i) \<and>
      nat (the_seq_id a' ! i ! s) < n_seq_max \<and> nat (the_seq_id a' ! i ! 0) < n_seq_max \<longrightarrow>
      mv_seq_pos_min m (nat (the_seq_id a' ! i ! s)) = mv_seq_pos_min m (nat (the_seq_id a' ! i ! 0)) \<and>
      mv_seq_pos_max m (nat (the_seq_id a' ! i ! s)) = mv_seq_pos_max m (nat (the_seq_id a' ! i ! 0))"
      using coup by blast
  qed (use pos bat tok reset in blast)+
qed

text \<open>A token of two sequences, both of which the memory holds up to position 2, and the refusal when one is shorter.\<close>

definition coupled_batch :: llama_batch where
  "coupled_batch = \<lparr>b_n_tokens = 1, b_token = Some [5], b_embd = None, b_pos = Some [3], b_n_seq_id = Some [2],
     b_seq_id = Some [[0, 1]], b_logits = None\<rparr>"

definition coupled_memory :: "llama_pos \<Rightarrow> mem_view" where
  "coupled_memory p = \<lparr>mv_seq_pos_min = (\<lambda>s. if s = 0 then 0 else p), mv_seq_pos_max = (\<lambda>s. 2)\<rparr>"

theorem init_establishes_witness:
  "\<exists>a'. balloc_init (new_balloc 1) coupled_batch 10 (Some (coupled_memory 0)) 8 2 False = Some (True, a') \<and>
     mv_seq_pos_min (coupled_memory 0) 1 = mv_seq_pos_min (coupled_memory 0) 0 \<and> get_n_used a' = 0 \<and>
     fst (the (balloc_init (new_balloc 1) coupled_batch 10 (Some (coupled_memory 1)) 8 2 False)) = False"
proof -
  let ?r = "balloc_init (new_balloc 1) coupled_batch 10 (Some (coupled_memory 0)) 8 2 False"
  have "map_option fst ?r = Some True" "map_option (\<lambda>r. the_seq_id (snd r)) ?r = Some [[0, 1]]"
    "map_option (\<lambda>r. the_n_seq_id (snd r)) ?r = Some [2]" "map_option (\<lambda>r. get_n_tokens (snd r)) ?r = Some 1"
    by code_simp+
  then obtain a' where a': "?r = Some (True, a')" "the_seq_id a' = [[0, 1]]" "the_n_seq_id a' = [2]" "get_n_tokens a' = 1"
    by auto
  from init_establishes [OF a'(1)] have
    "\<forall>m i s. Some (coupled_memory 0) = Some m \<and> i < get_n_tokens a' \<and> 0 < s \<and> s < nat (the_n_seq_id a' ! i) \<and>
      nat (the_seq_id a' ! i ! s) < 2 \<and> nat (the_seq_id a' ! i ! 0) < 2 \<longrightarrow>
      mv_seq_pos_min m (nat (the_seq_id a' ! i ! s)) = mv_seq_pos_min m (nat (the_seq_id a' ! i ! 0)) \<and>
      mv_seq_pos_max m (nat (the_seq_id a' ! i ! s)) = mv_seq_pos_max m (nat (the_seq_id a' ! i ! 0))" and used: "get_n_used a' = 0"
    by blast+
  from this(1) [rule_format, of "coupled_memory 0" 0 1]
  have "mv_seq_pos_min (coupled_memory 0) 1 = mv_seq_pos_min (coupled_memory 0) 0" by (simp add: a')
  moreover have "fst (the (balloc_init (new_balloc 1) coupled_batch 10 (Some (coupled_memory 1)) 8 2 False)) = False" by code_simp
  ultimately show ?thesis using a'(1) used by blast
qed

section \<open>Equal splits\<close>

text \<open>The sequence sets that \<open>split_equal\<close> selects.\<close>

lemma equal_sets_length:
  "length acc \<le> n_ubatch \<Longrightarrow> length (equal_sets a n_ubatch sq is acc l) \<le> Suc n_ubatch"
  by (induction a n_ubatch sq "is" acc l rule: equal_sets.induct) (auto simp: Let_def)

lemma equal_sets_prefix: "prefix acc (equal_sets a n_ubatch sq is acc l)"
proof (induction "is" arbitrary: acc l)
  case (Cons i "is")
  have "prefix acc (equal_sets a n_ubatch sq is (acc @ [S]) l')" for S l'
    using Cons.IH by (rule append_prefixD)
  with Cons.IH show ?case
    by (auto simp: Let_def)
qed simp

lemma equal_sets_source:
  "S \<in> set (equal_sets a n_ubatch sq is acc l) \<Longrightarrow>
   S \<in> set acc \<or> (\<exists>i\<in>set is. \<not> ba_used a ! i \<and> S = ba_seq_set a ! i)"
  by (induction a n_ubatch sq "is" acc l rule: equal_sets.induct) (auto simp: Let_def split: if_splits)

lemma equal_sets_nonempty:
  "i \<in> set is \<Longrightarrow> \<not> ba_used a ! i \<Longrightarrow> equal_sets a n_ubatch sq is [] l \<noteq> []"
proof (induction "is" arbitrary: l)
  case (Cons j js)
  then show ?case
    using equal_sets_prefix [of "[ba_seq_set a ! j]" a n_ubatch sq js "the_seq_id a ! j ! 0"]
    by (auto simp: Let_def prefix_def)
qed simp

lemma equal_sets_disjoint:
  "pairwise disjnt (set acc) \<Longrightarrow> distinct acc \<Longrightarrow> (\<forall>i\<in>set is. ba_seq_set a ! i \<noteq> {}) \<Longrightarrow>
   distinct (equal_sets a n_ubatch sq is acc l) \<and> pairwise disjnt (set (equal_sets a n_ubatch sq is acc l))"
proof (induction a n_ubatch sq "is" acc l rule: equal_sets.induct)
  case (2 a n_ubatch sq i "is" acc l)
  show ?case
  proof (cases "ba_used a ! i")
    case True
    with 2 show ?thesis by simp
  next
    case False
    let ?S = "ba_seq_set a ! i"
    show ?thesis
    proof (cases "list_all (\<lambda>S. S \<inter> ?S = {}) acc")
      case dis: True
      then have d: "\<forall>S\<in>set acc. disjnt ?S S \<and> disjnt S ?S"
        by (auto simp: disjnt_def list_all_iff)
      then have "pairwise disjnt (set (acc @ [?S]))"
        using "2.prems"(1) by (simp add: pairwise_insert)
      moreover have "?S \<notin> set acc"
        using d "2.prems"(3) by (auto simp: disjnt_def)
      then have "distinct (acc @ [?S])"
        using "2.prems"(2) by simp
      moreover note dis
      ultimately have "distinct (acc @ [?S])" "pairwise disjnt (set (acc @ [?S]))"
        by blast+
      with 2 False dis show ?thesis by (auto simp: Let_def)
    next
      case False
      with 2 \<open>\<not> ba_used a ! i\<close> show ?thesis by (auto simp: Let_def)
    qed
  qed
qed simp

text \<open>The rounds: every selected list gives up the same number of its next tokens.\<close>

lemma fold_mark:
  "length (fold (\<lambda>idx u. u[idx := True]) now used) = length used"
  "i < length used \<Longrightarrow> fold (\<lambda>idx u. u[idx := True]) now used ! i \<longleftrightarrow> used ! i \<or> i \<in> set now"
proof -
  show "length (fold (\<lambda>idx u. u[idx := True]) now used) = length used"
    by (induction now arbitrary: used) auto
  show "i < length used \<Longrightarrow> fold (\<lambda>idx u. u[idx := True]) now used ! i \<longleftrightarrow> used ! i \<or> i \<in> set now"
  proof (induction now arbitrary: used)
    case (Cons x now)
    then have "used[x := True] ! i \<longleftrightarrow> used ! i \<or> i = x"
      by (cases "x = i") auto
    with Cons show ?case by auto
  qed simp
qed

text \<open>The result of \<open>r\<close> rounds.\<close>

definition equal_taken :: "nat list list \<Rightarrow> nat list \<Rightarrow> nat \<Rightarrow> nat \<Rightarrow> nat list" where
  "equal_taken ls cur r s = map (\<lambda>j. ls ! s ! (cur ! s + j)) [0..<r]"

lemma equal_taken_0 [simp]: "equal_taken ls cur 0 s = []"
  by (simp add: equal_taken_def)

lemma length_equal_taken [simp]: "length (equal_taken ls cur r s) = r"
  by (simp add: equal_taken_def)

lemma equal_taken_Suc:
  "s < length ls \<Longrightarrow> equal_taken ls cur (Suc r) s =
     ls ! s ! (cur ! s) # equal_taken ls (map (\<lambda>s. cur ! s + 1) [0..<length ls]) r s"
  by (simp add: equal_taken_def upt_conv_Cons map_Suc_upt [symmetric] del: upt_Suc)

lemma equal_loop_rounds:
  assumes "ls \<noteq> []" and "length idxs = length ls" and "\<forall>s < length ls. length (idxs ! s) = q"
    and "length cur = length ls" and "\<forall>s < length ls. cur ! s \<le> length (ls ! s)"
  shows "\<exists>r idxs' used'. equal_loop n_ubatch ls cur idxs used n_used =
      (idxs', used', n_used + r * length ls) \<and>
    (\<forall>s < length ls. cur ! s + r \<le> length (ls ! s)) \<and>
    ((\<forall>s < length ls. cur ! s < length (ls ! s)) \<longrightarrow> 0 < r) \<and>
    (q + r) * length ls \<le> max n_ubatch ((q + 1) * length ls) \<and>
    idxs' = map (\<lambda>s. idxs ! s @ equal_taken ls cur r s) [0..<length ls] \<and>
    length used' = length used \<and>
    (\<forall>i < length used. used' ! i \<longleftrightarrow> used ! i \<or> (\<exists>s < length ls. i \<in> set (equal_taken ls cur r s)))"
  using assms
proof (induction "length (ls ! 0) - cur ! 0" arbitrary: cur idxs used n_used q rule: less_induct)
  case (less cur idxs used n_used q)
  let ?L = "length ls"
  show ?case
  proof (cases "\<forall>s < ?L. cur ! s < length (ls ! s)")
    case False
    then have "equal_loop n_ubatch ls cur idxs used n_used = (idxs, used, n_used)"
      using less.prems(1) by (subst equal_loop.simps) (auto simp: list_all_iff)
    moreover have "idxs = map (\<lambda>s. idxs ! s @ []) [0..<?L]"
      using less.prems(2) by (auto intro!: nth_equalityI)
    ultimately show ?thesis
      using False less.prems(5) by (intro exI [of _ 0] exI [of _ idxs] exI [of _ used]) auto
  next
    case True
    define now where "now = map (\<lambda>s. ls ! s ! (cur ! s)) [0..<?L]"
    define idxs1 where "idxs1 = map (\<lambda>s. idxs ! s @ [now ! s]) [0..<?L]"
    define used1 where "used1 = fold (\<lambda>idx u. u[idx := True]) now used"
    define cur1 where "cur1 = map (\<lambda>s. cur ! s + 1) [0..<?L]"
    have L: "0 < ?L" using less.prems(1) by simp
    have step: "equal_loop n_ubatch ls cur idxs used n_used =
      (if n_ubatch < (q + 2) * ?L then (idxs1, used1, n_used + ?L)
       else equal_loop n_ubatch ls cur1 idxs1 used1 (n_used + ?L))"
      using True less.prems(1,3) L unfolding now_def idxs1_def used1_def cur1_def
      by (subst equal_loop.simps) (simp add: list_all_iff Let_def)
    have one: "idxs1 = map (\<lambda>s. idxs ! s @ equal_taken ls cur 1 s) [0..<?L]"
      unfolding idxs1_def now_def by (simp add: equal_taken_def)
    have u1: "length used1 = length used"
      "\<And>i. i < length used \<Longrightarrow> used1 ! i \<longleftrightarrow> used ! i \<or> (\<exists>s < ?L. i = ls ! s ! (cur ! s))"
      unfolding used1_def fold_mark now_def by (auto simp: fold_mark)
    show ?thesis
    proof (cases "n_ubatch < (q + 2) * ?L")
      case stop: True
      with step one u1 True show ?thesis
        by (intro exI [of _ 1] exI [of _ idxs1] exI [of _ used1]) (auto simp: equal_taken_def Suc_le_eq)
    next
      case False
      have "cur1 ! 0 = cur ! 0 + 1" using L by (simp add: cur1_def)
      then have "length (ls ! 0) - cur1 ! 0 < length (ls ! 0) - cur ! 0"
        using True L by auto
      from less.hyps [OF this less.prems(1), of idxs1 "q + 1" used1 "n_used + ?L"]
      obtain r idxs' used' where r: "equal_loop n_ubatch ls cur1 idxs1 used1 (n_used + ?L) =
          (idxs', used', n_used + ?L + r * ?L)"
        "\<forall>s < ?L. cur1 ! s + r \<le> length (ls ! s)"
        "(q + 1 + r) * ?L \<le> max n_ubatch ((q + 2) * ?L)"
        "idxs' = map (\<lambda>s. idxs1 ! s @ equal_taken ls cur1 r s) [0..<?L]"
        "length used' = length used1"
        "\<forall>i < length used1. used' ! i \<longleftrightarrow> used1 ! i \<or> (\<exists>s < ?L. i \<in> set (equal_taken ls cur1 r s))"
        using less.prems(3) True by (auto simp: idxs1_def cur1_def Suc_le_eq)
      have tk: "equal_taken ls cur (Suc r) s = ls ! s ! (cur ! s) # equal_taken ls cur1 r s" if "s < ?L" for s
        using equal_taken_Suc [OF that] unfolding cur1_def .
      have "idxs' = map (\<lambda>s. idxs ! s @ equal_taken ls cur (Suc r) s) [0..<?L]"
        using r(4) tk by (simp add: idxs1_def now_def)
      moreover have "(q + Suc r) * ?L \<le> max n_ubatch ((q + 1) * ?L)"
        using r(3) False by simp
      moreover have "\<forall>i < length used. used' ! i \<longleftrightarrow> used ! i \<or> (\<exists>s < ?L. i \<in> set (equal_taken ls cur (Suc r) s))"
        using r(6) u1 tk by auto
      moreover have "\<forall>s < ?L. cur ! s + Suc r \<le> length (ls ! s)"
        using r(2) by (auto simp: cur1_def)
      ultimately show ?thesis
        using step False r(1,5) u1(1) by (intro exI [of _ "Suc r"] exI [of _ idxs'] exI [of _ used']) simp
    qed
  qed
qed


text \<open>
  The state between two equal splits: every token has a sequence set, the index of the sequence
  sets is right, tokens of one sequence set are used in their order, and the counter is the number
  of used tokens.
\<close>

definition equal_ok :: "balloc \<Rightarrow> bool" where
  "equal_ok a = (length (ba_used a) = get_n_tokens a \<and>
     (\<forall>i < get_n_tokens a. ba_seq_set a ! i \<noteq> {}) \<and>
     (\<forall>S. ba_seq_set_map a S = filter (\<lambda>i. ba_seq_set a ! i = S) [0..<get_n_tokens a]) \<and>
     (\<forall>j < get_n_tokens a. \<forall>i < j. ba_seq_set a ! i = ba_seq_set a ! j \<longrightarrow> ba_used a ! j \<longrightarrow> ba_used a ! i) \<and>
     ba_n_used a = card {i. i < get_n_tokens a \<and> ba_used a ! i})"

text \<open>The tokens of one sequence set: the first unused one splits the list.\<close>

lemma equal_cur:
  assumes ok: "equal_ok a" and l: "l = ba_seq_set_map a S" and c: "c = length (takeWhile ((!) (ba_used a)) l)"
  shows "c \<le> length l" and "j < length l \<Longrightarrow> ba_used a ! (l ! j) \<longleftrightarrow> j < c"
    and "j < length l \<Longrightarrow> l ! j < get_n_tokens a \<and> ba_seq_set a ! (l ! j) = S"
    and "distinct l" and "sorted l"
    and "i < get_n_tokens a \<Longrightarrow> ba_seq_set a ! i = S \<Longrightarrow> \<not> ba_used a ! i \<Longrightarrow> c < length l"
proof -
  have l': "l = filter (\<lambda>i. ba_seq_set a ! i = S) [0..<get_n_tokens a]"
    using ok l by (simp add: equal_ok_def)
  show cl: "c \<le> length l" by (simp add: c length_takeWhile_le)
  show sl: "sorted l" and "distinct l" by (simp_all add: l' sorted_wrt_filter)
  have mem: "l ! j < get_n_tokens a \<and> ba_seq_set a ! (l ! j) = S" if "j < length l" for j
    using nth_mem [OF that] unfolding l' by auto
  then show "j < length l \<Longrightarrow> l ! j < get_n_tokens a \<and> ba_seq_set a ! (l ! j) = S" by blast
  have lt: "l ! i < l ! j" if "i < j" "j < length l" for i j
    using sl \<open>distinct l\<close> that by (metis linorder_not_less nat_less_le nth_eq_iff_index_eq order.strict_trans sorted_wrt_nth_less
        strict_sorted_iff)
  show "ba_used a ! (l ! j) \<longleftrightarrow> j < c" if j: "j < length l"
  proof
    assume "j < c"
    then show "ba_used a ! (l ! j)"
      using set_takeWhileD nth_mem takeWhile_nth unfolding c by metis
  next
    assume u: "ba_used a ! (l ! j)"
    show "j < c"
    proof (rule ccontr)
      assume "\<not> j < c"
      then have cj: "c \<le> j" and "c < length l" using j by auto
      then have "\<not> ba_used a ! (l ! c)"
        unfolding c using nth_length_takeWhile by metis
      moreover have "ba_used a ! (l ! c)" if "c < j"
        using ok u mem [OF j] mem [OF \<open>c < length l\<close>] lt [OF that j] by (auto simp: equal_ok_def)
      ultimately show False using cj u by (cases "c = j") auto
    qed
  qed
  show "i < get_n_tokens a \<Longrightarrow> ba_seq_set a ! i = S \<Longrightarrow> \<not> ba_used a ! i \<Longrightarrow> c < length l"
  proof -
    assume "i < get_n_tokens a" "ba_seq_set a ! i = S" "\<not> ba_used a ! i"
    then have "i \<in> set l" and "\<not> ba_used a ! i" by (auto simp: l')
    then have "takeWhile ((!) (ba_used a)) l \<noteq> l" by (metis set_takeWhileD)
    then show "c < length l"
      using cl unfolding c by (metis le_neq_implies_less takeWhile_eq_take take_all order_refl)
  qed
qed

lemma equal_taken_nth: "j < r \<Longrightarrow> equal_taken ls cur r s ! j = ls ! s ! (cur ! s + j)"
  by (simp add: equal_taken_def)

lemma sum_list_const: "(\<And>x. x \<in> set xs \<Longrightarrow> f x = c) \<Longrightarrow> sum_list (map f xs) = c * length xs" for c :: nat
  by (induction xs) auto

lemma split_equal_blocks:
  assumes ok: "equal_ok a" and sq: "\<not> (sequential \<and> ba_has_cpl a)"
    and un: "i < get_n_tokens a" "\<not> ba_used a ! i"
  shows "\<exists>blocks used' r n_seqs.
    split_equal a n_ubatch sequential =
      ubatch_add (a\<lparr>ba_used := used', ba_n_used := ba_n_used a + r * n_seqs\<rparr>) (concat blocks) n_seqs True \<and>
    length blocks = n_seqs \<and> 0 < n_seqs \<and> n_seqs \<le> n_ubatch + 1 \<and> 0 < r \<and>
    r * n_seqs \<le> max n_ubatch n_seqs \<and>
    (\<forall>b\<in>set blocks. length b = r \<and> sorted b \<and> (\<exists>S. \<forall>i\<in>set b. ba_seq_set a ! i = S)) \<and>
    distinct (concat blocks) \<and>
    (\<forall>i\<in>set (concat blocks). i < get_n_tokens a \<and> \<not> ba_used a ! i) \<and>
    length used' = length (ba_used a) \<and>
    (\<forall>i < get_n_tokens a. used' ! i \<longleftrightarrow> ba_used a ! i \<or> i \<in> set (concat blocks)) \<and>
    equal_ok (a\<lparr>ba_used := used', ba_n_used := ba_n_used a + r * n_seqs\<rparr>)"
proof -
  define sets where "sets = equal_sets a n_ubatch sequential [0..<get_n_tokens a] [] (-1)"
  define ls where "ls = map (ba_seq_set_map a) sets"
  define cur where "cur = map (\<lambda>l. length (takeWhile ((!) (ba_used a)) l)) ls"
  let ?L = "length sets"
  have ne: "sets \<noteq> []" unfolding sets_def
    using un by (intro equal_sets_nonempty [of i]) auto
  have dis: "distinct sets" "pairwise disjnt (set sets)"
    unfolding sets_def using equal_sets_disjoint [of "[]" "[0..<get_n_tokens a]" a n_ubatch sequential "-1"] ok
    by (auto simp: equal_ok_def)
  have src: "\<exists>i < get_n_tokens a. \<not> ba_used a ! i \<and> sets ! s = ba_seq_set a ! i" if "s < ?L" for s
    using equal_sets_source [of "sets ! s" a n_ubatch sequential "[0..<get_n_tokens a]" "[]" "-1"] that
    unfolding sets_def by (auto simp: nth_mem)
  have lens: "length ls = ?L" "length cur = ?L" by (simp_all add: ls_def cur_def)
  have cs: "cur ! s = length (takeWhile ((!) (ba_used a)) (ls ! s))" "ls ! s = ba_seq_set_map a (sets ! s)" if "s < ?L" for s
    using that by (simp_all add: cur_def ls_def)
  note ec = equal_cur [OF ok cs(2) cs(1)]
  have curlt: "cur ! s < length (ls ! s)" if "s < ?L" for s
    using src [OF that] ec(6) [OF that that] by auto
  obtain r idxs used' where loop: "equal_loop n_ubatch ls cur (replicate ?L []) (ba_used a) (ba_n_used a) =
      (idxs, used', ba_n_used a + r * ?L)"
    and r: "\<forall>s < ?L. cur ! s + r \<le> length (ls ! s)" "0 < r" "r * ?L \<le> max n_ubatch ?L"
    and idxs: "idxs = map (\<lambda>s. equal_taken ls cur r s) [0..<?L]"
    and used': "length used' = length (ba_used a)"
      "\<forall>i < length (ba_used a). used' ! i \<longleftrightarrow> ba_used a ! i \<or> (\<exists>s < ?L. i \<in> set (equal_taken ls cur r s))"
  proof -
    have "ls \<noteq> []" using ne by (simp add: ls_def)
    have el: "map (\<lambda>s. replicate ?L [] ! s @ equal_taken ls cur r s) [0..<?L] =
      map (\<lambda>s. equal_taken ls cur r s) [0..<?L]" for r
      by (auto intro!: map_cong)
    obtain r idxs' used' where q: "equal_loop n_ubatch ls cur (replicate ?L []) (ba_used a) (ba_n_used a) =
        (idxs', used', ba_n_used a + r * ?L)"
      "\<forall>s < ?L. cur ! s + r \<le> length (ls ! s)" "0 < r" "r * ?L \<le> max n_ubatch ?L"
      "idxs' = map (\<lambda>s. equal_taken ls cur r s) [0..<?L]"
      "length used' = length (ba_used a)"
      "\<forall>i < length (ba_used a). used' ! i \<longleftrightarrow> ba_used a ! i \<or> (\<exists>s < ?L. i \<in> set (equal_taken ls cur r s))"
      using equal_loop_rounds [OF \<open>ls \<noteq> []\<close>, of "replicate ?L []" 0 cur n_ubatch "ba_used a" "ba_n_used a"] lens curlt
      by (auto simp: less_imp_le el)
    show ?thesis by (rule that [OF q])
  qed
  have tk: "equal_taken ls cur r s = take r (drop (cur ! s) (ls ! s))" if "s < ?L" for s
    using r(1) that by (auto simp: equal_taken_def intro!: nth_equalityI)
  have at: "ls ! s ! j < get_n_tokens a \<and> ba_seq_set a ! (ls ! s ! j) = sets ! s"
    if "s < ?L" "j < length (ls ! s)" for s j
    using ec(3) that by blast
  have el: "\<exists>j. cur ! s \<le> j \<and> j < cur ! s + r \<and> i = ls ! s ! j" if "i \<in> set (equal_taken ls cur r s)" for s i
  proof -
    from that obtain x where "x < r" "i = ls ! s ! (cur ! s + x)"
      by (auto simp: equal_taken_def)
    then show ?thesis by (intro exI [of _ "cur ! s + x"]) simp
  qed
  have elD: "i < get_n_tokens a \<and> \<not> ba_used a ! i \<and> ba_seq_set a ! i = sets ! s"
    if i: "i \<in> set (equal_taken ls cur r s)" and s: "s < ?L" for s i
  proof -
    obtain j where j: "cur ! s \<le> j" "j < cur ! s + r" "i = ls ! s ! j"
      using el [OF i] by blast
    then have "j < length (ls ! s)" using r(1) s by (meson less_le_trans)
    with at [OF s this] ec(2) [OF s s this] j show ?thesis by auto
  qed
  have set_idxs: "set (concat idxs) = (\<Union>s<?L. set (equal_taken ls cur r s))"
    unfolding idxs by auto
  have sd: "sorted (equal_taken ls cur r s)" "distinct (equal_taken ls cur r s)" if "s < ?L" for s
    using ec(4,5) [OF that that] by (simp_all add: tk [OF that] sorted_wrt_take sorted_wrt_drop)
  have sep: "set (equal_taken ls cur r s) \<inter> set (equal_taken ls cur r t) = {}" if "s < ?L" "t < ?L" "s \<noteq> t" for s t
  proof -
    have "sets ! s \<noteq> sets ! t" using that dis(1) by (simp add: nth_eq_iff_index_eq)
    then show ?thesis using elD that by (metis disjoint_iff)
  qed
  have dc: "distinct (concat idxs)"
  proof (rule distinct_concat)
    have "inj_on (equal_taken ls cur r) {0..<?L}"
    proof (rule inj_onI, rule ccontr)
      fix s t assume st: "s \<in> {0..<?L}" "t \<in> {0..<?L}" "equal_taken ls cur r s = equal_taken ls cur r t" "s \<noteq> t"
      then have "set (equal_taken ls cur r s) = {}" using sep [of s t] by auto
      then have "r = 0" by (metis length_equal_taken list.size(3) set_empty)
      with r(2) show False by simp
    qed
    then show "distinct idxs" by (simp add: idxs distinct_map)
    show "distinct ys" if "ys \<in> set idxs" for ys
      using that sd(2) by (auto simp: idxs)
    show "set ys \<inter> set zs = {}" if "ys \<in> set idxs" "zs \<in> set idxs" "ys \<noteq> zs" for ys zs
    proof -
      from that obtain s t where "s < ?L" "t < ?L" "ys = equal_taken ls cur r s" "zs = equal_taken ls cur r t"
        by (auto simp: idxs)
      with sep [of s t] that(3) show ?thesis by blast
    qed
  qed
  have len: "length (concat idxs) = r * ?L"
    by (simp add: length_concat idxs comp_def) (simp add: sum_list_triv)
  have lu: "length (ba_used a) = get_n_tokens a" and cnt: "ba_n_used a = card {i. i < get_n_tokens a \<and> ba_used a ! i}"
    using ok by (auto simp: equal_ok_def)
  have u': "used' ! i \<longleftrightarrow> ba_used a ! i \<or> i \<in> set (concat idxs)" if "i < get_n_tokens a" for i
    unfolding set_idxs using used'(2) that lu by auto
  have cs': "i < get_n_tokens a \<and> \<not> ba_used a ! i" if "i \<in> set (concat idxs)" for i
    using that elD unfolding set_idxs by blast
  have card: "card {i. i < get_n_tokens a \<and> used' ! i} = ba_n_used a + r * ?L"
  proof -
    have "{i. i < get_n_tokens a \<and> used' ! i} = {i. i < get_n_tokens a \<and> ba_used a ! i} \<union> set (concat idxs)"
      using u' cs' by blast
    moreover have "{i. i < get_n_tokens a \<and> ba_used a ! i} \<inter> set (concat idxs) = {}"
      using cs' by blast
    moreover have "card (set (concat idxs)) = r * ?L"
      using dc len by (simp only: distinct_card)
    moreover have "finite {i. i < get_n_tokens a \<and> ba_used a ! i}"
      by simp
    ultimately show ?thesis
      using cnt by (simp only: card_Un_disjoint finite_set)
  qed
  have order: "used' ! i" if "j < get_n_tokens a" "i < j" "ba_seq_set a ! i = ba_seq_set a ! j" "used' ! j" for i j
  proof (cases "ba_used a ! j")
    case True
    with that ok have "ba_used a ! i" unfolding equal_ok_def by blast
    with u' that show ?thesis by simp
  next
    case False
    note hyp = that
    from False obtain s where s: "s < ?L" and js: "j \<in> set (equal_taken ls cur r s)"
      using hyp u' [unfolded set_idxs] by blast
    obtain q where q: "cur ! s \<le> q" "q < cur ! s + r" "j = ls ! s ! q"
      using el [OF js] by blast
    have ql: "q < length (ls ! s)" using q(2) r(1) s by (meson less_le_trans)
    have "i \<in> set (ls ! s)"
      using ok that(1-3) elD [OF js s] cs(2) [OF s] by (auto simp: equal_ok_def)
    then obtain p where p: "p < length (ls ! s)" "i = ls ! s ! p" by (auto simp: in_set_conv_nth)
    have "p < q"
    proof (rule ccontr)
      assume "\<not> p < q"
      then have "ls ! s ! q \<le> ls ! s ! p" using ec(5) [OF s s] p(1) by (simp add: sorted_nth_mono)
      with p q that(2) show False by simp
    qed
    show ?thesis
    proof (cases "p < cur ! s")
      case True
      then have "ba_used a ! i" using ec(2) [OF s s p(1)] p(2) by simp
      with u' that show ?thesis by simp
    next
      case False
      then have "i \<in> set (equal_taken ls cur r s)"
        using p q \<open>p < q\<close> by (auto simp: equal_taken_def intro!: image_eqI [of _ _ "p - cur ! s"])
      with u' [unfolded set_idxs] that s show ?thesis by auto
    qed
  qed
  have ok': "equal_ok (a\<lparr>ba_used := used', ba_n_used := ba_n_used a + r * ?L\<rparr>)"
    using ok order card used'(1) unfolding equal_ok_def get_n_tokens_def by simp
  have bl: "\<forall>b\<in>set idxs. length b = r \<and> sorted b \<and> (\<exists>S. \<forall>i\<in>set b. ba_seq_set a ! i = S)"
    using sd(1) elD by (auto simp: idxs)
  have "split_equal a n_ubatch sequential =
    ubatch_add (a\<lparr>ba_used := used', ba_n_used := ba_n_used a + r * ?L\<rparr>) (concat idxs) ?L True"
    unfolding split_equal_def if_not_P [OF sq] using ne loop unfolding sets_def ls_def cur_def Let_def by simp
  moreover have "?L \<le> n_ubatch + 1"
    using equal_sets_length [of "[]" n_ubatch a sequential "[0..<get_n_tokens a]" "-1"] by (simp add: sets_def)
  moreover have "\<forall>i\<in>set (concat idxs). i < get_n_tokens a \<and> \<not> ba_used a ! i"
    using elD unfolding set_idxs by blast
  moreover have "length idxs = ?L" by (simp add: idxs)
  ultimately show ?thesis
    using ne r(2,3) bl dc used'(1) u' ok'
    by (intro exI [of _ idxs] exI [of _ used'] exI [of _ r] exI [of _ ?L]) auto
qed


lemma equal_ok_out_ids [simp]: "equal_ok (a\<lparr>ba_out_ids := x\<rparr>) = equal_ok a"
  by (simp add: equal_ok_def get_n_tokens_def)

lemma card_concat_blocks: "\<forall>b\<in>set blocks. length b = r \<Longrightarrow> length (concat blocks) = r * length blocks"
  by (induction blocks) auto

text \<open>
  \<open>split_equal\<close>, as long as a token is unused (and the split is not a sequential one of
  coupled sequences): the micro-batch is not empty and consists of \<open>n_seqs\<close> blocks of
  \<open>n_seq_tokens\<close> tokens each, the tokens of a block in batch order and of one sequence set;
  no token is taken twice or was used before, those taken are marked used and counted. Its size is
  bounded by the larger of \<open>n_ubatch\<close> and the number of sequence sets, which can be
  \<open>n_ubatch + 1\<close>: the test that stops the selection comes one set too late.
\<close>

theorem split_equal_round:
  assumes "equal_ok a" and "\<not> (sequential \<and> ba_has_cpl a)" and "i < get_n_tokens a"
    and "\<not> ba_used a ! i" and "split_equal a n_ubatch sequential = (u, a')"
  shows "0 < ub_n_tokens u \<and> ub_n_tokens u = ub_n_seqs u * ub_n_seq_tokens u \<and>
    ub_n_seqs u \<le> n_ubatch + 1 \<and> ub_n_tokens u \<le> max n_ubatch (ub_n_seqs u) \<and>
    get_n_used a' = get_n_used a + ub_n_tokens u \<and> equal_ok a' \<and>
    (\<exists>blocks. length blocks = ub_n_seqs u \<and> distinct (concat blocks) \<and>
      (\<forall>b\<in>set blocks. length b = ub_n_seq_tokens u \<and> sorted b \<and> (\<exists>S. \<forall>j\<in>set b. ba_seq_set a ! j = S)) \<and>
      (\<forall>j\<in>set (concat blocks). j < get_n_tokens a \<and> \<not> ba_used a ! j) \<and>
      (\<forall>j < get_n_tokens a. ba_used a' ! j \<longleftrightarrow> ba_used a ! j \<or> j \<in> set (concat blocks)) \<and>
      ub_seq_id u = map ((!) (the_seq_id a)) (concat blocks))"
proof -
  obtain blocks used' r n_seqs where b:
    "split_equal a n_ubatch sequential =
      ubatch_add (a\<lparr>ba_used := used', ba_n_used := ba_n_used a + r * n_seqs\<rparr>) (concat blocks) n_seqs True"
    "length blocks = n_seqs" "0 < n_seqs" "n_seqs \<le> n_ubatch + 1" "0 < r" "r * n_seqs \<le> max n_ubatch n_seqs"
    "\<forall>b\<in>set blocks. length b = r \<and> sorted b \<and> (\<exists>S. \<forall>i\<in>set b. ba_seq_set a ! i = S)"
    "distinct (concat blocks)" "\<forall>i\<in>set (concat blocks). i < get_n_tokens a \<and> \<not> ba_used a ! i"
    "\<forall>i < get_n_tokens a. used' ! i \<longleftrightarrow> ba_used a ! i \<or> i \<in> set (concat blocks)"
    "equal_ok (a\<lparr>ba_used := used', ba_n_used := ba_n_used a + r * n_seqs\<rparr>)"
    using split_equal_blocks [OF assms(1-4), of n_ubatch] by blast
  have len: "length (concat blocks) = r * n_seqs"
    using card_concat_blocks b(2,7) by blast
  have u: "u = fst (ubatch_add (a\<lparr>ba_used := used', ba_n_used := ba_n_used a + r * n_seqs\<rparr>) (concat blocks) n_seqs True)"
    and a': "a' = snd (ubatch_add (a\<lparr>ba_used := used', ba_n_used := ba_n_used a + r * n_seqs\<rparr>) (concat blocks) n_seqs True)"
    using assms(5) b(1) by simp_all
  have f: "ub_n_tokens u = r * n_seqs" "ub_n_seqs u = n_seqs" "ub_n_seq_tokens u = r"
    "ub_seq_id u = map ((!) (the_seq_id a)) (concat blocks)"
    unfolding u ubatch_add_simps len using b(3) by simp_all
  have g: "get_n_used a' = get_n_used a + r * n_seqs" "equal_ok a'" "ba_used a' = used'"
    unfolding a' ubatch_add_simps get_n_used_def using b(11) by simp_all
  show ?thesis
    unfolding f g using b f(4) g(2) by (intro conjI exI [of _ blocks]) (simp_all add: mult.commute)
qed


text \<open>The state after a successful \<open>init\<close>.\<close>

lemma init_state:
  fixes b memory output_all
  defines "f \<equiv> batch_fill b memory output_all"
  assumes "balloc_init a b n_vocab memory n_embd n_seq_max output_all = Some (True, a')"
  shows "ba_batch a' = f" and "get_n_tokens a' = nat (b_n_tokens b)"
    and "ba_seq_set a' = map (token_seq_set f) [0..<nat (b_n_tokens b)]"
    and "ba_seq_set_map a' S = filter (\<lambda>i. token_seq_set f i = S) [0..<nat (b_n_tokens b)]"
    and "ba_used a' = replicate (nat (b_n_tokens b)) False" and "ba_n_used a' = 0"
proof -
  let ?a = "balloc_stats (balloc_clear a\<lparr>ba_batch := f\<rparr>) n_embd n_seq_max"
  note st = balloc_stats_simps [where a = a and b = f and e = n_embd and m = n_seq_max]
  have a': "a' = split_reset ?a"
    using assms(2) by (auto simp: balloc_init_def Let_def f_def split: if_splits)
  show "ba_batch a' = f" "get_n_tokens a' = nat (b_n_tokens b)"
    "ba_seq_set a' = map (token_seq_set f) [0..<nat (b_n_tokens b)]"
    "ba_seq_set_map a' S = filter (\<lambda>i. token_seq_set f i = S) [0..<nat (b_n_tokens b)]"
    "ba_used a' = replicate (nat (b_n_tokens b)) False" "ba_n_used a' = 0"
    using st(1,4,5) by (simp_all add: a' split_reset_def get_n_tokens_def f_def)
qed

lemma init_equal_ok:
  assumes "balloc_init a b n_vocab memory n_embd n_seq_max output_all = Some (True, a')"
    and "\<forall>i < get_n_tokens a'. token_seq_set (ba_batch a') i \<noteq> {}"
  shows "equal_ok a'"
  using assms(2) unfolding equal_ok_def init_state [OF assms(1)] by (auto intro!: filter_cong)

lemma split_equal_n_seqs:
  assumes "split_equal a n_ubatch sequential = (u, a')" and "\<not> (sequential \<and> ba_has_cpl a)"
    and "equal_sets a n_ubatch sequential [0..<get_n_tokens a] [] (-1) = sets" and "sets \<noteq> []"
  shows "ub_n_seqs u = length sets"
proof -
  have "ub_n_seqs (fst (split_equal a n_ubatch sequential)) = length sets"
    unfolding split_equal_def if_not_P [OF assms(2)] using assms(3,4) by (simp add: Let_def case_prod_beta)
  with assms(1) show ?thesis by simp
qed

definition two_seqs :: llama_batch where
  "two_seqs = \<lparr>b_n_tokens = 2, b_token = Some [7, 8], b_embd = None, b_pos = Some [0, 0],
     b_n_seq_id = Some [1, 1], b_seq_id = Some [[0], [1]], b_logits = None\<rparr>"

lemma two_seqs_fill:
  "token_seq_set (batch_fill two_seqs None False) 0 = {0}"
  "token_seq_set (batch_fill two_seqs None False) (Suc 0) = {Suc 0}"
  by (simp_all add: batch_fill_def Let_def token_seq_set_def seq_ids_of_def two_seqs_def)

lemma two_seqs_accepted: "map_option fst (balloc_init (new_balloc 1) two_seqs 10 None 8 2 False) = Some True"
  by code_simp

theorem split_equal_round_witness:
  "\<exists>a' u a''. balloc_init (new_balloc 1) two_seqs 10 None 8 2 False = Some (True, a') \<and>
    split_equal a' 1 False = (u, a'') \<and> ub_n_tokens u = 2"
proof -
  obtain a' where a': "balloc_init (new_balloc 1) two_seqs 10 None 8 2 False = Some (True, a')"
    using two_seqs_accepted by auto
  note st = init_state [OF a']
  have n: "nat (b_n_tokens two_seqs) = Suc (Suc 0)" by (simp add: two_seqs_def)
  have ok: "equal_ok a'"
    using init_equal_ok [OF a'] two_seqs_fill unfolding st n by (auto simp: less_Suc_eq)
  obtain u a'' where s: "split_equal a' 1 False = (u, a'')"
    by (cases "split_equal a' 1 False")
  have "equal_sets a' 1 False [0..<get_n_tokens a'] [] (-1) = [{0}, {1}]"
    unfolding st(2) n by (simp add: upt_rec st(3,5) n two_seqs_fill)
  from split_equal_n_seqs [OF s _ this] have "ub_n_seqs u = 2" by simp
  with split_equal_round [OF ok _ _ _ s, of 0] a' s st(5) n st(2) show ?thesis
    by auto
qed

section \<open>The micro-batches of a text batch\<close>

text \<open>Where \<open>split_simple\<close> cuts: start and length of each micro-batch.\<close>

function chunks :: "nat \<Rightarrow> nat \<Rightarrow> nat \<Rightarrow> (nat \<times> nat) list" where
  "chunks m c n = (if m = 0 \<or> n \<le> c then [] else (c, min m (n - c)) # chunks m (c + min m (n - c)) n)"
  by pat_completeness auto
termination
  by (relation "measure (\<lambda>(m, c, n). n - c)") auto

declare chunks.simps [simp del]

definition chunk_ubatch :: "balloc \<Rightarrow> nat \<times> nat \<Rightarrow> llama_ubatch" where
  "chunk_ubatch a ck = fst (ubatch_add a [fst ck..<fst ck + snd ck] (snd ck) False)"

lemma chunk_ubatch_cong:
  assumes "ba_batch a' = ba_batch a" and "ba_n_pos_per_embd a' = ba_n_pos_per_embd a"
    and "ba_n_seq_max a' = ba_n_seq_max a" and "ba_n_embd a' = ba_n_embd a"
  shows "chunk_ubatch a' = chunk_ubatch a"
  using assms by (simp add: fun_eq_iff chunk_ubatch_def ubatch_add_def Let_def case_prod_beta get_n_tokens_def)

lemma split_all_chunks:
  assumes "batch_filled a n" and "ba_used a = used_upto c n" and "c \<le> n" and "1 \<le> m" and "ba_n_used a = c"
  shows "\<exists>a'. split_all (\<lambda>a. split_simple a m) a = Some (map (chunk_ubatch a) (chunks m c n), a') \<and>
    ba_n_used a' = n \<and> ba_batch a' = ba_batch a \<and> ba_n_outputs a' = ba_n_outputs a \<and>
    ba_out_ids a' = ba_out_ids a @ filter (\<lambda>i. the_logits a ! i \<noteq> 0) [c..<n]"
  using assms
proof (induction "n - c" arbitrary: a c rule: less_induct)
  case less
  show ?case
  proof (cases "c = n")
    case True
    with less.prems show ?thesis
      by (subst split_all.simps) (auto simp: split_simple_done empty_ubatch_def chunks.simps)
  next
    case False
    define k where "k = min m (n - c)"
    let ?a = "a\<lparr>ba_used := used_upto (c + k) n, ba_n_used := ba_n_used a + k\<rparr>"
    let ?a' = "snd (ubatch_add ?a [c..<c + k] k False)"
    have k: "0 < k" "c + k \<le> n"
      using False less.prems unfolding k_def by auto
    have cong: "chunk_ubatch ?a = chunk_ubatch a" "chunk_ubatch ?a' = chunk_ubatch a"
      by (rule chunk_ubatch_cong; simp)+
    have split: "split_simple a m = (chunk_ubatch a (c, k), ?a')"
      using less.prems False split_simple_upto [of a n c m k] unfolding cong(1) [symmetric] chunk_ubatch_def
      by (simp add: k_def prod_eq_iff)
    have "\<exists>a''. split_all (\<lambda>a. split_simple a m) ?a' = Some (map (chunk_ubatch ?a') (chunks m (c + k) n), a'') \<and>
      ba_n_used a'' = n \<and> ba_batch a'' = ba_batch ?a' \<and> ba_n_outputs a'' = ba_n_outputs ?a' \<and>
      ba_out_ids a'' = ba_out_ids ?a' @ filter (\<lambda>i. the_logits ?a' ! i \<noteq> 0) [c + k..<n]"
      using less.prems k by (intro less.hyps) (auto simp: batch_filled_def)
    then obtain a'' where rest: "split_all (\<lambda>a. split_simple a m) ?a' = Some (map (chunk_ubatch a) (chunks m (c + k) n), a'')"
      "ba_n_used a'' = n" "ba_batch a'' = ba_batch a" "ba_n_outputs a'' = ba_n_outputs a"
      "ba_out_ids a'' = ba_out_ids ?a' @ filter (\<lambda>i. the_logits a ! i \<noteq> 0) [c + k..<n]"
      unfolding cong(2) by auto
    have "ub_n_tokens (chunk_ubatch a (c, k)) \<noteq> 0"
      using k by (simp add: chunk_ubatch_def)
    then have all: "split_all (\<lambda>a. split_simple a m) a =
        Some (chunk_ubatch a (c, k) # map (chunk_ubatch a) (chunks m (c + k) n), a'')"
      using rest(1) by (subst split_all.simps) (simp add: split)
    have ch: "chunks m c n = (c, k) # chunks m (c + k) n"
      using False less.prems unfolding k_def by (subst chunks.simps) auto
    have "[c..<n] = [c..<c + k] @ [c + k..<n]"
      using k by (metis le_add1 le_add_diff_inverse upt_add_eq_append)
    then have "ba_out_ids a'' = ba_out_ids a @ filter (\<lambda>i. the_logits a ! i \<noteq> 0) [c..<n]"
      using rest(5) by simp
    with all ch rest show ?thesis by simp
  qed
qed

text \<open>A text batch of sequence 0 from position \<open>p\<close> on, with one output.\<close>

definition text_filled :: "balloc \<Rightarrow> llama_token list \<Rightarrow> llama_pos \<Rightarrow> bool" where
  "text_filled a tokens p =
     (let n = length tokens in
      single_seq (ba_batch a) n \<and> b_embd (ba_batch a) = None \<and> b_token (ba_batch a) = Some tokens \<and>
      b_pos (ba_batch a) = Some (map (\<lambda>i. p + int i) [0..<n]) \<and>
      b_logits (ba_batch a) = Some ((replicate n 0)[n - 1 := 1]) \<and>
      1 \<le> ba_n_seq_max a \<and> ba_n_outputs a = 1 \<and>
      ba_used a = replicate n False \<and> ba_n_used a = 0 \<and> ba_out_ids a = [])"

lemma text_filledD:
  assumes "text_filled a tokens p"
  shows "b_n_tokens (ba_batch a) = int (length tokens)" and "b_embd (ba_batch a) = None"
    and "b_token (ba_batch a) = Some tokens" and "the_pos a = map (\<lambda>i. p + int i) [0..<length tokens]"
    and "the_n_seq_id a = replicate (length tokens) 1" and "the_seq_id a = replicate (length tokens) [0]"
    and "the_logits a = (replicate (length tokens) 0)[length tokens - 1 := 1]"
    and "batch_filled a (length tokens)" and "get_n_tokens a = length tokens" and "get_n_outputs a = 1"
  using assms by (auto simp: text_filled_def Let_def single_seq_def batch_filled_def get_n_tokens_def get_n_outputs_def)

lemma last_output:
  assumes "0 < n"
  shows "filter (\<lambda>i. (replicate n (0::int))[n - 1 := 1] ! i \<noteq> 0) [0..<n] = [n - 1]"
proof -
  have "[0..<n] = [0..<n - 1] @ [n - 1]"
    using assms by (metis Suc_pred' upt_Suc_append zero_le)
  then show ?thesis
    using assms by (auto simp: filter_empty_conv)
qed

lemma text_init:
  assumes "tokens \<noteq> []" and "\<forall>t\<in>set tokens. 0 \<le> t \<and> t < int n_vocab"
    and "1 \<le> n_seq_max" and "n_seq_max \<le> LLAMA_MAX_SEQ" and "-1 \<le> mv_seq_pos_max m 0"
  shows "\<exists>a'. balloc_init a (llama_batch_get_one tokens (int (length tokens))) n_vocab (Some m)
      e n_seq_max False = Some (True, a') \<and> text_filled a' tokens (mv_seq_pos_max m 0 + 1)"
proof -
  let ?n = "length tokens" and ?b = "llama_batch_get_one tokens (int (length tokens))"
  let ?ps = "map (\<lambda>i. mv_seq_pos_max m 0 + 1 + int i) [0..<?n]"
  let ?f = "batch_fill ?b (Some m) False"
  let ?a = "balloc_stats (balloc_clear a\<lparr>ba_batch := ?f\<rparr>) e n_seq_max"
  have b: "b_n_tokens ?b = int ?n" "b_n_seq_id ?b = None" "b_seq_id ?b = None" "b_pos ?b = None"
    "b_token ?b = Some tokens" "b_embd ?b = None" "b_logits ?b = None"
    by (simp_all add: llama_batch_get_one_def)
  have n: "0 < ?n" using assms(1) by simp
  have img: "set ?ps = {mv_seq_pos_max m 0 + 1..mv_seq_pos_max m 0 + int ?n}"
  proof (intro equalityI subsetI)
    fix x assume "x \<in> {mv_seq_pos_max m 0 + 1..mv_seq_pos_max m 0 + int ?n}"
    then have "x = mv_seq_pos_max m 0 + 1 + int (nat (x - mv_seq_pos_max m 0 - 1))"
      and "nat (x - mv_seq_pos_max m 0 - 1) < ?n" by auto
    then show "x \<in> set ?ps" unfolding set_map set_upt by (metis atLeastLessThan_iff image_eqI zero_le)
  qed auto
  have "1 \<le> int ?n" using n by linarith
  then have mm: "Min (set ?ps) = mv_seq_pos_max m 0 + 1" "Max (set ?ps) = mv_seq_pos_max m 0 + int ?n"
    unfolding img using Min_Max_range [of "mv_seq_pos_max m 0 + 1" "mv_seq_pos_max m 0 + int ?n"] by simp_all
  have "set ?ps = {Min (set ?ps)..Max (set ?ps)}" "Min (set ?ps) = mv_seq_pos_max m 0 + 1"
    unfolding mm using img by simp_all
  with init_single [OF b(1) n b(2,3,5) refl assms(2-4), where ps = ?ps and memory = "Some m" and a = a
      and e = e and output_all = False] assms(5) b(4)
  obtain a' where a': "balloc_init a ?b n_vocab (Some m) e n_seq_max False = Some (True, a')"
    and bat: "ba_batch a' = ?f" and used: "ba_used a' = replicate ?n False" "ba_n_used a' = 0" "ba_out_ids a' = []"
    by (auto simp: pos_start_def)
  have fill: "single_seq ?f ?n" "b_pos ?f = Some ?ps" "b_token ?f = Some tokens" "b_embd ?f = None" "b_n_tokens ?f = int ?n"
    using batch_fill_single [OF b(1-3), of "Some m" False] b(4-6) by (simp_all add: pos_start_def)
  have log: "b_logits ?f = Some ((replicate ?n 0)[?n - 1 := 1])"
    by (simp add: batch_fill_def Let_def fill_logits_def llama_batch_get_one_def)
  have "a' = split_reset ?a"
    using a' by (auto simp: balloc_init_def Let_def split: if_splits)
  then have st: "ba_n_outputs a' = 1" "ba_n_seq_max a' = n_seq_max"
    using fill(1,2,5) log last_output [OF n] couple_single [of ?f ?n ?ps ?n] seq_set_single [of ?f ?n ?n] b(4)
    by (auto simp: split_reset_def balloc_stats_def Let_def case_prod_beta balloc_clear_def pos_start_def)
  show ?thesis
    using a' bat used st fill log b assms(3) by (auto simp: text_filled_def Let_def pos_start_def)
qed

lemma unq_single:
  "fold (unq_step {0}) [0..<Suc m] (xs, ys) = (xs[0 := int (length ys)], ys @ [0])"
proof -
  have "fold (unq_step {0}) [Suc 0..<Suc k] st = st" for k st
    by (induction k) (auto simp: unq_step_def case_prod_beta)
  then show ?thesis
    by (subst upt_conv_Cons) (auto simp: unq_step_def simp del: upt_Suc)
qed

lemma text_chunk:
  assumes "text_filled a tokens p" and "1 \<le> k" and "c + k \<le> length tokens"
  defines "u \<equiv> chunk_ubatch a (c, k)"
  shows "ub_n_tokens u = k" and "ub_pos u = map (\<lambda>i. p + int i) [c..<c + k]"
    and "ub_n_seq_id u = replicate k 1" and "ub_seq_id u = replicate k [0]" and "ub_seq_id_unq u = [0]"
    and "the (ub_token u) = take k (drop c tokens)"
    and "ub_output u = map (\<lambda>i. if i = length tokens - 1 then 1 else 0) [c..<c + k]"
proof -
  note t = text_filledD [OF assms(1)]
  show "ub_n_tokens u = k" by (simp add: u_def chunk_ubatch_def)
  show "ub_pos u = map (\<lambda>i. p + int i) [c..<c + k]"
    using assms(3) t(2,4) by (auto simp: u_def chunk_ubatch_def)
  show "ub_n_seq_id u = replicate k 1" "ub_seq_id u = replicate k [0]"
    using assms(3) t(5,6) by (auto simp: u_def chunk_ubatch_def intro!: nth_equalityI)
  show "the (ub_token u) = take k (drop c tokens)"
    using assms(3) t(3) by (simp add: u_def chunk_ubatch_def map_nth_slice)
  show "ub_output u = map (\<lambda>i. if i = length tokens - 1 then 1 else 0) [c..<c + k]"
    using assms(3) t(7) by (auto simp: u_def chunk_ubatch_def nth_list_update)
  have single: "token_seq_set (ba_batch a) i = {0}" if "i \<in> set [c..<c + k]" for i
    using that assms(1,3) token_seq_set_single [of "ba_batch a" "length tokens" i]
    by (simp add: text_filled_def Let_def)
  have "set (map (token_seq_set (ba_batch a)) [c..<c + k]) = (\<lambda>_. {0}) ` set [c..<c + k]"
    using single by simp
  then have unq: "\<Union> (set (map (token_seq_set (ba_batch a)) [c..<c + k])) = {0}"
    using assms(2) by simp
  obtain m where m: "ba_n_seq_max a = Suc m"
    using assms(1) by (cases "ba_n_seq_max a") (simp_all add: text_filled_def Let_def)
  have "ub_seq_id_unq u = snd (fold (unq_step (\<Union> (set (map (token_seq_set (ba_batch a)) [c..<c + k]))))
      [0..<ba_n_seq_max a] (replicate LLAMA_MAX_SEQ (-1), []))"
    by (simp add: u_def chunk_ubatch_def ubatch_add_def Let_def case_prod_beta)
  then show "ub_seq_id_unq u = [0]"
    unfolding unq m unq_single by simp
qed

lemma chunks_within:
  "(c', k) \<in> set (chunks m c n) \<Longrightarrow> c \<le> c' \<and> 1 \<le> k \<and> k \<le> m \<and> c' + k \<le> n"
proof (induction m c n rule: chunks.induct)
  case (1 m c n)
  show ?case
  proof (cases "m = 0 \<or> n \<le> c")
    case True
    with "1.prems" show ?thesis by (subst (asm) chunks.simps) simp
  next
    case False
    with "1.prems" consider "(c', k) = (c, min m (n - c))" | "(c', k) \<in> set (chunks m (c + min m (n - c)) n)"
      by (subst (asm) chunks.simps) auto
    then show ?thesis
      using False "1.IH" by cases auto
  qed
qed

end
