(* ===== verification/KV_Cache.thy ===== *)
theory KV_Cache
  imports KV_Cells Batch
begin

text \<open>
  The KV cache, \<open>llama.cpp/src/llama-kv-cache-unified.cpp\<close> and
  \<open>llama-kv-cache-unified.h\<close>: the bookkeeping of \<open>llama_kv_cache_unified\<close>, that is
  which cell holds which position of which sequence. The tensors behind the cells and the graphs
  that shift and move them are not modelled; where the code continues according to their success,
  that is an argument.

  A failed \<open>GGML_ASSERT\<close> aborts the process and is \<open>None\<close>. Asserts of the C library
  are compiled out and are hypotheses of the lemmas.
\<close>

datatype llama_swa_type = LLAMA_SWA_TYPE_NONE | LLAMA_SWA_TYPE_STANDARD | LLAMA_SWA_TYPE_CHUNKED

record kv_cache =
  kv_n_seq_max :: nat
  kv_n_stream :: nat
  kv_n_pad :: uint32
  kv_n_swa :: nat
  kv_supports_set_rows :: bool
  kv_swa_type :: llama_swa_type
  kv_v_heads :: "nat list"
  kv_v_cells :: "kv_cells list"
  kv_seq_to_stream :: "nat list"
  kv_sc_info :: "(nat \<times> nat) list"

text \<open>\<open>slot_info\<close>: where the tokens of a micro-batch go; the empty one is a failure.\<close>

record slot_info =
  si_s0 :: llama_seq_id
  si_s1 :: llama_seq_id
  si_strm :: "nat list"
  si_idxs :: "nat list list"

definition empty_slot :: slot_info where
  "empty_slot = \<lparr>si_s0 = 0, si_s1 = 0, si_strm = [], si_idxs = []\<rparr>"

definition slot_empty :: "slot_info \<Rightarrow> bool" where
  "slot_empty si = (si_idxs si = [])"

definition slot_size :: "slot_info \<Rightarrow> nat" where
  "slot_size si = length (si_idxs si ! 0)"

definition slot_n_stream :: "slot_info \<Rightarrow> nat" where
  "slot_n_stream si = length (si_strm si)"

definition slot_head :: "slot_info \<Rightarrow> nat option" where
  "slot_head si = (if length (si_idxs si) = 1 \<and> si_idxs si ! 0 \<noteq> [] then Some (si_idxs si ! 0 ! 0) else None)"

section \<open>Construction\<close>

definition get_padding :: "bool \<Rightarrow> uint32" where
  "get_padding flash_attn = (if flash_attn then 256 else 32)"

text \<open>The constructor, without the tensors. The last argument is the environment's LLAMA\_SET\_ROWS.\<close>

definition new_kv_cache :: "bool \<Rightarrow> nat \<Rightarrow> nat \<Rightarrow> uint32 \<Rightarrow> nat \<Rightarrow> llama_swa_type \<Rightarrow> bool \<Rightarrow> kv_cache option" where
  "new_kv_cache unified kv_size n_seq_max n_pad n_swa swa_type set_rows =
     (let n_stream = (if unified then 1 else n_seq_max);
          seq_to_stream = replicate LLAMA_MAX_SEQ 0;
          seq_to_stream = (if 1 < n_stream then [0..<n_stream] else seq_to_stream)
      in if \<not> kv_size mod unat n_pad = 0 then None
         else if \<not> (n_stream = 1 \<or> n_stream = n_seq_max) then None
         else if \<not> set_rows \<and> \<not> unified then None
         else Some \<lparr>kv_n_seq_max = n_seq_max, kv_n_stream = n_stream, kv_n_pad = n_pad, kv_n_swa = n_swa,
           kv_supports_set_rows = set_rows, kv_swa_type = swa_type,
           kv_v_heads = replicate n_stream 0,
           kv_v_cells = replicate n_stream (cells_resize new_cells kv_size),
           kv_seq_to_stream = seq_to_stream, kv_sc_info = []\<rparr>)"

section \<open>Queries\<close>

text \<open>The guard of every operation on a sequence, and the cells and the head of its stream.\<close>

definition seq_valid :: "kv_cache \<Rightarrow> llama_seq_id \<Rightarrow> bool" where
  "seq_valid kv seq_id = (0 \<le> seq_id \<and> nat seq_id < length (kv_seq_to_stream kv))"

definition stream_of :: "kv_cache \<Rightarrow> llama_seq_id \<Rightarrow> nat" where
  "stream_of kv seq_id = kv_seq_to_stream kv ! nat seq_id"

definition set_stream :: "nat \<Rightarrow> kv_cells \<Rightarrow> nat \<Rightarrow> kv_cache \<Rightarrow> kv_cache" where
  "set_stream s cells head kv = kv\<lparr>kv_v_cells := (kv_v_cells kv)[s := cells], kv_v_heads := (kv_v_heads kv)[s := head]\<rparr>"

definition kv_get_size :: "kv_cache \<Rightarrow> nat" where
  "kv_get_size kv = cells_size (kv_v_cells kv ! (kv_seq_to_stream kv ! 0))"

definition kv_get_has_shift :: "kv_cache \<Rightarrow> bool" where
  "kv_get_has_shift kv = list_ex (\<lambda>s. cells_get_has_shift (kv_v_cells kv ! s)) [0..<kv_n_stream kv]"

definition kv_get_n_kv :: "kv_cache \<Rightarrow> uint32" where
  "kv_get_n_kv kv = fold (\<lambda>s result.
       max (min (of_nat (cells_size (kv_v_cells kv ! s)))
         (max (kv_n_pad kv) (GGML_PAD (of_nat (cells_used_max_p1 (kv_v_cells kv ! s))) (kv_n_pad kv)))) result)
     [0..<kv_n_stream kv] 0"

definition kv_seq_pos_min :: "kv_cache \<Rightarrow> llama_seq_id \<Rightarrow> llama_pos option" where
  "kv_seq_pos_min kv seq_id = (if seq_valid kv seq_id
     then Some (cells_seq_pos_min (kv_v_cells kv ! stream_of kv seq_id) (nat seq_id)) else None)"

definition kv_seq_pos_max :: "kv_cache \<Rightarrow> llama_seq_id \<Rightarrow> llama_pos option" where
  "kv_seq_pos_max kv seq_id = (if seq_valid kv seq_id
     then Some (cells_seq_pos_max (kv_v_cells kv ! stream_of kv seq_id) (nat seq_id)) else None)"

text \<open>Positions outside the attention window. \<open>p1 / n_swa\<close> is unsigned; positions are not negative.\<close>

definition is_masked_swa :: "kv_cache \<Rightarrow> llama_pos \<Rightarrow> llama_pos \<Rightarrow> bool" where
  "is_masked_swa kv p0 p1 =
     (case kv_swa_type kv of
        LLAMA_SWA_TYPE_NONE \<Rightarrow> False
      | LLAMA_SWA_TYPE_STANDARD \<Rightarrow> p1 - p0 \<ge> int (kv_n_swa kv)
      | LLAMA_SWA_TYPE_CHUNKED \<Rightarrow> p0 < (p1 div int (kv_n_swa kv)) * int (kv_n_swa kv))"

section \<open>Operations on sequences\<close>

definition POS_MAX :: llama_pos where
  "POS_MAX = 2147483647"

definition norm_p0 :: "llama_pos \<Rightarrow> llama_pos" where
  "norm_p0 p0 = (if p0 < 0 then 0 else p0)"

definition norm_p1 :: "llama_pos \<Rightarrow> llama_pos" where
  "norm_p1 p1 = (if p1 < 0 then POS_MAX else p1)"

definition kv_clear :: "kv_cache \<Rightarrow> kv_cache" where
  "kv_clear kv = fold (\<lambda>s kv. set_stream s (cells_reset (kv_v_cells kv ! s)) 0 kv) [0..<kv_n_stream kv] kv"

text \<open>
  One cell of a loop that frees cells: the cells and the first freed index, which is the size
  while nothing was freed.
\<close>

definition freed :: "nat \<Rightarrow> bool \<times> kv_cells \<Rightarrow> nat \<Rightarrow> kv_cells \<times> nat" where
  "freed i r new_head = (snd r, if fst r \<and> new_head = cells_size (snd r) then i else new_head)"

definition seq_rm_step :: "nat \<Rightarrow> llama_pos \<Rightarrow> llama_pos \<Rightarrow> nat \<Rightarrow> kv_cells \<times> nat \<Rightarrow> kv_cells \<times> nat" where
  "seq_rm_step seq_id p0 p1 i st =
     (let (cells, new_head) = st in
      if \<not> cells_pos_in cells i p0 p1 then (cells, new_head)
      else if cells_seq_has cells i seq_id then freed i (cells_seq_rm i seq_id cells) new_head
      else (cells, new_head))"

text \<open>
  The code has a second branch for a negative \<open>seq_id\<close>, which the assertion before it makes
  unreachable.
\<close>

definition kv_seq_rm :: "kv_cache \<Rightarrow> llama_seq_id \<Rightarrow> llama_pos \<Rightarrow> llama_pos \<Rightarrow> kv_cache option" where
  "kv_seq_rm kv seq_id p0 p1 =
     (if \<not> seq_valid kv seq_id then None
      else
        let s = stream_of kv seq_id;
            cells = kv_v_cells kv ! s; head = kv_v_heads kv ! s;
            (cells, new_head) = fold (seq_rm_step (nat seq_id) (norm_p0 p0) (norm_p1 p1))
              [0..<cells_size cells] (cells, cells_size cells)
        in Some (set_stream s cells (if new_head \<noteq> cells_size cells \<and> new_head < head then new_head else head) kv))"

definition seq_cp_step :: "nat \<Rightarrow> nat \<Rightarrow> llama_pos \<Rightarrow> llama_pos \<Rightarrow> nat \<Rightarrow> kv_cells \<Rightarrow> kv_cells" where
  "seq_cp_step src dst p0 p1 i cells =
     (if \<not> cells_pos_in cells i p0 p1 then cells
      else if cells_seq_has cells i src then cells_seq_add i dst cells
      else cells)"

definition seq_cp_stream_step :: "nat \<Rightarrow> nat \<Rightarrow> kv_cells \<Rightarrow> nat \<Rightarrow> kv_cells \<Rightarrow> kv_cells" where
  "seq_cp_stream_step src dst cells0 i cells1 =
     (if cells_seq_has cells0 i src then
        (let pos = cells_pos_get cells0 i;
             shift = cells_get_shift cells0 i;
             pos = (if shift \<noteq> 0 then pos - shift else pos);
             cells1 = cells_pos_set i pos cells1;
             cells1 = cells_seq_add i dst cells1
         in if shift \<noteq> 0 then snd (cells_pos_add i shift cells1) else cells1)
      else cells1)"

definition kv_seq_cp :: "kv_cache \<Rightarrow> llama_seq_id \<Rightarrow> llama_seq_id \<Rightarrow> llama_pos \<Rightarrow> llama_pos \<Rightarrow> kv_cache option" where
  "kv_seq_cp kv src dst p0 p1 =
     (if \<not> seq_valid kv src then None
      else if \<not> seq_valid kv dst then None
      else
        let s0 = stream_of kv src; s1 = stream_of kv dst in
        if s0 = s1 then
          (if src = dst then Some kv
           else
             let cells = kv_v_cells kv ! s0;
                 cells = fold (seq_cp_step (nat src) (nat dst) (norm_p0 p0) (norm_p1 p1)) [0..<cells_size cells] cells
             in Some (kv\<lparr>kv_v_cells := (kv_v_cells kv)[s0 := cells]\<rparr>))
        else
          let is_full = \<not> (p0 > 0 \<and> p0 + 1 < int (kv_get_size kv)) \<and> \<not> (p1 > 0 \<and> p1 + 1 < int (kv_get_size kv)) in
          if \<not> is_full then None
          else
            let kv = kv\<lparr>kv_sc_info := kv_sc_info kv @ [(s0, s1)]\<rparr>;
                cells0 = kv_v_cells kv ! s0;
                cells1 = cells_reset (kv_v_cells kv ! s1);
                cells1 = fold (seq_cp_stream_step (nat src) (nat dst) cells0) [0..<cells_size cells0] cells1
            in Some (set_stream s1 cells1 (kv_v_heads kv ! s0) kv))"

definition seq_keep_step :: "nat \<Rightarrow> nat \<Rightarrow> kv_cells \<times> nat \<Rightarrow> kv_cells \<times> nat" where
  "seq_keep_step seq_id i st = (let (cells, new_head) = st in freed i (cells_seq_keep i seq_id cells) new_head)"

definition kv_seq_keep :: "kv_cache \<Rightarrow> llama_seq_id \<Rightarrow> kv_cache option" where
  "kv_seq_keep kv seq_id =
     (if \<not> seq_valid kv seq_id then None
      else
        let s = stream_of kv seq_id;
            cells = kv_v_cells kv ! s; head = kv_v_heads kv ! s;
            (cells, new_head) = fold (seq_keep_step (nat seq_id)) [0..<cells_size cells] (cells, cells_size cells)
        in Some (set_stream s cells (if new_head \<noteq> cells_size cells \<and> new_head < head then new_head else head) kv))"

definition seq_add_step :: "nat \<Rightarrow> llama_pos \<Rightarrow> llama_pos \<Rightarrow> llama_pos \<Rightarrow> nat \<Rightarrow> kv_cells \<times> nat \<Rightarrow> kv_cells \<times> nat" where
  "seq_add_step seq_id p0 p1 shift i st =
     (let (cells, new_head) = st in
      if \<not> cells_pos_in cells i p0 p1 then (cells, new_head)
      else if cells_seq_has cells i seq_id then freed i (cells_pos_add i shift cells) new_head
      else (cells, new_head))"

definition kv_seq_add :: "kv_cache \<Rightarrow> llama_seq_id \<Rightarrow> llama_pos \<Rightarrow> llama_pos \<Rightarrow> llama_pos \<Rightarrow> kv_cache option" where
  "kv_seq_add kv seq_id p0 p1 shift =
     (if \<not> seq_valid kv seq_id then None
      else if shift = 0 then Some kv
      else if norm_p0 p0 = norm_p1 p1 then Some kv
      else
        let s = stream_of kv seq_id;
            cells = kv_v_cells kv ! s;
            (cells, new_head) = fold (seq_add_step (nat seq_id) (norm_p0 p0) (norm_p1 p1) shift)
              [0..<cells_size cells] (cells, cells_size cells)
        in Some (set_stream s cells (if new_head \<noteq> cells_size cells then new_head else 0) kv))"

definition seq_div_step :: "nat \<Rightarrow> llama_pos \<Rightarrow> llama_pos \<Rightarrow> int \<Rightarrow> nat \<Rightarrow> kv_cells \<Rightarrow> kv_cells" where
  "seq_div_step seq_id p0 p1 d i cells =
     (if \<not> cells_pos_in cells i p0 p1 then cells
      else if cells_seq_has cells i seq_id then cells_pos_div i d cells
      else cells)"

definition kv_seq_div :: "kv_cache \<Rightarrow> llama_seq_id \<Rightarrow> llama_pos \<Rightarrow> llama_pos \<Rightarrow> int \<Rightarrow> kv_cache option" where
  "kv_seq_div kv seq_id p0 p1 d =
     (if \<not> seq_valid kv seq_id then None
      else if d = 1 then Some kv
      else if norm_p0 p0 = norm_p1 p1 then Some kv
      else
        let s = stream_of kv seq_id;
            cells = kv_v_cells kv ! s;
            cells = fold (seq_div_step (nat seq_id) (norm_p0 p0) (norm_p1 p1) d) [0..<cells_size cells] cells
        in Some (kv\<lparr>kv_v_cells := (kv_v_cells kv)[s := cells]\<rparr>))"

section \<open>Finding and filling a slot\<close>

text \<open>
  The cells that a new token may take: empty ones, and those of a single sequence whose position
  has left the attention window.
\<close>

definition can_use :: "kv_cache \<Rightarrow> kv_cells \<Rightarrow> nat \<Rightarrow> bool" where
  "can_use kv cells idx =
     (cells_is_empty cells idx \<or>
      (cells_seq_count cells idx = 1 \<and>
       is_masked_swa kv (cells_pos_get cells idx)
         (cells_seq_pos_max cells (the (cells_seq_get cells idx)) + 1)))"

text \<open>The inner loop tests \<open>k\<close> cells from the head on; a contiguous search breaks at the first bad one.\<close>

fun test_cells :: "(nat \<Rightarrow> bool) \<Rightarrow> bool \<Rightarrow> nat \<Rightarrow> nat \<Rightarrow> nat \<Rightarrow> nat list \<Rightarrow> nat \<times> nat \<times> nat list" where
  "test_cells can cont 0 head tested idxs = (head, tested, idxs)"
| "test_cells can cont (Suc k) head tested idxs =
     (let idx = head; head = head + 1; tested = tested + 1 in
      if can idx then test_cells can cont k head tested (idxs @ [idx])
      else if cont then (head, tested, idxs)
      else test_cells can cont k head tested idxs)"

text \<open>
  The outer loop: wrap around at the end, test, stop when enough cells are found or all cells have
  been tested. The outer \<open>None\<close> is a loop that never returns, the inner one a failed search.
\<close>

partial_function (option) slot_loop ::
    "nat \<Rightarrow> (nat \<Rightarrow> bool) \<Rightarrow> nat \<Rightarrow> bool \<Rightarrow> nat \<Rightarrow> nat \<Rightarrow> nat list \<Rightarrow> nat list option option" where
  "slot_loop sz can n_tokens cont head tested idxs =
     (let n_test = (if cont then n_tokens else 1) in
      if head + n_test > sz then slot_loop sz can n_tokens cont 0 (tested + (sz - head)) idxs
      else
        (let (head, tested, idxs) = test_cells can cont n_test head tested idxs in
         if length idxs = n_tokens then Some (Some idxs)
         else
           (let idxs = (if cont then [] else idxs) in
            if tested \<ge> sz then Some None
            else slot_loop sz can n_tokens cont head tested idxs)))"

declare slot_loop.simps [code]

text \<open>The slot in one stream; \<open>head_cur\<close> restarts at 0 when many cells before it are unused.\<close>

definition stream_slot :: "kv_cache \<Rightarrow> kv_cells \<Rightarrow> nat \<Rightarrow> nat \<Rightarrow> bool \<Rightarrow> nat list option option" where
  "stream_slot kv cells head n_tokens cont =
     (let head_cur = (if head > cells_get_used cells + 2 * n_tokens then 0 else head) in
      if n_tokens > cells_size cells then Some None
      else slot_loop (cells_size cells) (can_use kv cells) n_tokens cont head_cur 0 [])"

fun find_streams :: "kv_cache \<Rightarrow> llama_ubatch \<Rightarrow> nat \<Rightarrow> bool \<Rightarrow> nat list \<Rightarrow> slot_info \<Rightarrow> slot_info option" where
  "find_streams kv ubatch n_tokens cont [] res = Some res"
| "find_streams kv ubatch n_tokens cont (s # ss) res =
     (let seq_id = ub_seq_id_unq ubatch ! s in
      if 1 < kv_n_stream kv \<and> \<not> (ub_n_seq_id ubatch ! (s * n_tokens) = 1 \<and>
          ub_seq_id ubatch ! (s * n_tokens) ! 0 = seq_id) then None
      else
        let strm = stream_of kv seq_id;
            res = res\<lparr>si_s0 := min (si_s0 res) (int strm), si_s1 := max (si_s1 res) (int strm),
              si_strm := (si_strm res)[s := strm]\<rparr>
        in case stream_slot kv (kv_v_cells kv ! strm) (kv_v_heads kv ! strm) n_tokens cont of
             None \<Rightarrow> None
           | Some None \<Rightarrow> Some empty_slot
           | Some (Some idxs) \<Rightarrow>
               if length idxs < n_tokens then Some empty_slot
               else find_streams kv ubatch n_tokens cont ss (res\<lparr>si_idxs := (si_idxs res)[s := idxs]\<rparr>))"

definition find_slot :: "kv_cache \<Rightarrow> llama_ubatch \<Rightarrow> bool \<Rightarrow> slot_info option" where
  "find_slot kv ubatch cont =
     (if 1 < kv_n_stream kv \<and> \<not> ub_n_tokens ubatch mod ub_n_seqs_unq ubatch = 0 then None
      else
        let n_seqs = (if 1 < kv_n_stream kv then ub_n_seqs_unq ubatch else 1);
            n_tokens = (if 1 < kv_n_stream kv then ub_n_tokens ubatch div n_seqs else ub_n_tokens ubatch)
        in find_streams kv ubatch n_tokens cont [0..<n_seqs]
             \<lparr>si_s0 = int LLAMA_MAX_SEQ, si_s1 = 0, si_strm = replicate n_seqs 0, si_idxs = replicate n_seqs []\<rparr>)"

text \<open>
  \<open>apply_ubatch\<close>: one token into its cell, remembering the greatest overwritten position of
  each sequence; then purge what lies before it; then advance the heads.
\<close>

definition apply_token :: "slot_info \<Rightarrow> llama_ubatch \<Rightarrow> nat \<times> nat \<Rightarrow> kv_cache \<times> (nat \<Rightarrow> llama_pos) \<Rightarrow>
    kv_cache \<times> (nat \<Rightarrow> llama_pos)" where
  "apply_token sinfo ubatch sii st =
     (let (s, ii) = sii; (kv, rm) = st;
          i = s * slot_size sinfo + ii;
          strm = si_strm sinfo ! s;
          cells = kv_v_cells kv ! strm;
          idx = si_idxs sinfo ! s ! ii;
          (cells, rm) = (if \<not> cells_is_empty cells idx
            then (let seq_id = the (cells_seq_get cells idx);
                      pos = cells_pos_get cells idx
                  in (cells_rm idx cells, rm(seq_id := max (rm seq_id) pos)))
            else (cells, rm));
          cells = cells_pos_set idx (ub_pos ubatch ! i) cells;
          cells = fold (\<lambda>k cells. cells_seq_add idx (nat (ub_seq_id ubatch ! i ! k)) cells)
            [0..<nat (ub_n_seq_id ubatch ! i)] cells
      in (kv\<lparr>kv_v_cells := (kv_v_cells kv)[strm := cells]\<rparr>, rm))"

definition purge_seq :: "(nat \<Rightarrow> llama_pos) \<Rightarrow> nat \<Rightarrow> kv_cache option \<Rightarrow> kv_cache option" where
  "purge_seq rm s r =
     Option.bind r (\<lambda>kv.
       if rm s = -1 then Some kv
       else if \<not> s < length (kv_seq_to_stream kv) then None
       else
         let p = cells_seq_pos_min (kv_v_cells kv ! stream_of kv (int s)) s in
         if p \<le> rm s then kv_seq_rm kv (int s) p (rm s + 1) else Some kv)"

definition apply_ubatch :: "kv_cache \<Rightarrow> slot_info \<Rightarrow> llama_ubatch \<Rightarrow> kv_cache option" where
  "apply_ubatch kv sinfo ubatch =
     (let (kv, rm) = fold (apply_token sinfo ubatch)
            (concat (map (\<lambda>s. map (Pair s) [0..<slot_size sinfo]) [0..<slot_n_stream sinfo])) (kv, \<lambda>_. -1)
      in Option.bind (fold (purge_seq rm) [0..<LLAMA_MAX_SEQ] (Some kv)) (\<lambda>kv.
           Some (kv\<lparr>kv_v_heads := fold (\<lambda>s heads. heads[si_strm sinfo ! s := last (si_idxs sinfo ! s) + 1])
             [0..<slot_n_stream sinfo] (kv_v_heads kv)\<rparr>)))"


section \<open>Preparing a batch\<close>

text \<open>What \<open>prepare\<close> remembers of a micro-batch: the slot, the old heads, the old cells.\<close>

record prep_state =
  ps_sinfo :: slot_info
  ps_v_heads_old :: "nat list"
  ps_v_cells :: "kv_cells list"

text \<open>Place the micro-batches one after the other; the boolean is \<open>success\<close>.\<close>

fun prepare_place :: "kv_cache \<Rightarrow> llama_ubatch list \<Rightarrow> slot_info list \<Rightarrow> prep_state list \<Rightarrow>
    (bool \<times> kv_cache \<times> slot_info list \<times> prep_state list) option" where
  "prepare_place kv [] res states = Some (True, kv, res, states)"
| "prepare_place kv (ubatch # ubatches) res states =
     (let cont = (if kv_supports_set_rows kv then False else True) in
      case find_slot kv ubatch cont of
        None \<Rightarrow> None
      | Some sinfo_new \<Rightarrow>
          if slot_empty sinfo_new then Some (False, kv, res, states)
          else
            let res = res @ [sinfo_new];
                state = \<lparr>ps_sinfo = sinfo_new, ps_v_heads_old = kv_v_heads kv,
                  ps_v_cells = map (\<lambda>s. cells_cp (kv_v_cells kv ! (si_strm sinfo_new ! s)) (si_idxs sinfo_new ! s))
                    [0..<slot_n_stream sinfo_new]\<rparr>
            in case apply_ubatch kv sinfo_new ubatch of
                 None \<Rightarrow> None
               | Some kv \<Rightarrow> prepare_place kv ubatches res (states @ [state]))"

text \<open>Restore one stream: the head of stream \<open>strm[s]\<close> becomes entry \<open>s\<close> of the old heads.\<close>

definition restore_stream :: "prep_state \<Rightarrow> nat \<Rightarrow> kv_cache \<Rightarrow> kv_cache" where
  "restore_stream st s kv =
     (let strm = si_strm (ps_sinfo st) ! s
      in set_stream strm (cells_set (kv_v_cells kv ! strm) (si_idxs (ps_sinfo st) ! s) (ps_v_cells st ! s))
           (ps_v_heads_old st ! s) kv)"

definition restore_state :: "prep_state \<Rightarrow> kv_cache \<Rightarrow> kv_cache" where
  "restore_state st kv = fold (restore_stream st) [0..<slot_n_stream (ps_sinfo st)] kv"

definition kv_prepare :: "kv_cache \<Rightarrow> llama_ubatch list \<Rightarrow> (slot_info list \<times> kv_cache) option" where
  "kv_prepare kv ubatches =
     Option.bind (prepare_place kv ubatches [] []) (\<lambda>(success, kv, res, states).
       if \<not> (states \<noteq> [] \<or> \<not> success) then None
       else
         let kv = fold restore_state (rev states) kv
         in if \<not> success then Some ([], kv) else Some (res, kv))"

text \<open>\<open>init_batch\<close>: the slots and the micro-batches, or \<open>None\<close> for FAILED\_PREPARE.\<close>

definition kv_init_batch :: "kv_cache \<Rightarrow> balloc \<Rightarrow> nat \<Rightarrow>
    ((slot_info list \<times> llama_ubatch list) option \<times> balloc \<times> kv_cache) option" where
  "kv_init_batch kv balloc n_ubatch =
     Option.bind
       (split_all (\<lambda>a. if kv_n_stream kv = 1 then split_simple a n_ubatch else split_equal a n_ubatch True)
         (split_reset balloc))
       (\<lambda>(ubatches, balloc).
         if get_n_used balloc < get_n_tokens balloc then Some (None, balloc, kv)
         else Option.bind (kv_prepare kv ubatches) (\<lambda>(sinfos, kv).
           if sinfos = [] then Some (None, balloc, kv)
           else Some (Some (sinfos, ubatches), balloc, kv)))"

section \<open>Updates: shift and defragmentation\<close>

text \<open>The size of a hole that starts at \<open>i0\<close>.\<close>

definition hole_size :: "kv_cells \<Rightarrow> nat \<Rightarrow> nat \<Rightarrow> nat" where
  "hole_size cells n_used i0 = 1 + length (takeWhile (cells_is_empty cells) [i0 + 1..<n_used])"

text \<open>From the end, the place where \<open>nh\<close> cells not yet moved have been counted.\<close>

fun defrag_source :: "kv_cells \<Rightarrow> nat list \<Rightarrow> nat \<Rightarrow> nat \<Rightarrow> nat \<Rightarrow> nat \<Rightarrow> nat \<Rightarrow> nat \<times> nat" where
  "defrag_source cells ids n_kv i0 nh 0 nf = (0, nf)"
| "defrag_source cells ids n_kv i0 nh (Suc is) nf =
     (if \<not> Suc is > i0 then (Suc is, nf)
      else if cells_is_empty cells (Suc is) \<or> ids ! Suc is \<noteq> n_kv then defrag_source cells ids n_kv i0 nh is nf
      else if nf + 1 = nh then (Suc is, nf + 1)
      else defrag_source cells ids n_kv i0 nh is (nf + 1))"

text \<open>Forward again, moving the cells into the hole; returns the ids, the moves and \<open>stop\<close>.\<close>

fun defrag_move :: "kv_cells \<Rightarrow> nat \<Rightarrow> nat \<Rightarrow> nat \<Rightarrow> nat \<Rightarrow> nat list \<Rightarrow> nat list \<Rightarrow> nat \<Rightarrow> bool \<Rightarrow> nat \<Rightarrow>
    nat list \<times> nat \<times> bool" where
  "defrag_move cells n_kv max_moves i0 nh [] ids n_moves cont nf = (ids, n_moves, False)"
| "defrag_move cells n_kv max_moves i0 nh (i1 # is) ids n_moves cont nf =
     (if cells_is_empty cells i1 \<or> ids ! i1 \<noteq> n_kv then
        (if n_moves = max_moves then (ids, n_moves, True)
         else defrag_move cells n_kv max_moves i0 nh is ids n_moves False nf)
      else
        let ids = ids[i1 := i0 + nf];
            n_moves = (if \<not> cont then n_moves + 1 else n_moves);
            nf = nf + 1
        in if nf = nh then (ids, n_moves, False)
           else defrag_move cells n_kv max_moves i0 nh is ids n_moves True nf)"

function defrag_loop :: "kv_cells \<Rightarrow> nat \<Rightarrow> nat \<Rightarrow> nat \<Rightarrow> nat \<Rightarrow> nat list \<Rightarrow> nat \<Rightarrow> (nat list \<times> nat) option" where
  "defrag_loop cells n_kv n_used max_moves i0 ids n_moves =
     (if n_used \<le> i0 then Some (ids, n_moves)
      else if \<not> cells_is_empty cells i0 then
        defrag_loop cells n_kv n_used max_moves (i0 + 1) (ids[i0 := i0]) n_moves
      else
        let nh = hole_size cells n_used i0;
            (is, nf) = defrag_source cells ids n_kv i0 nh (n_kv - 1) 0
        in if nf \<noteq> nh then None
           else
             let (ids, n_moves, stop) = defrag_move cells n_kv max_moves i0 nh [is..<n_kv] ids n_moves False 0
             in if stop \<or> n_moves = max_moves then Some (ids, n_moves)
                else defrag_loop cells n_kv n_used max_moves (i0 + nh) ids n_moves)"
  by pat_completeness auto
termination
  by (relation "measure (\<lambda>(cells, n_kv, n_used, max_moves, i0, ids, n_moves). n_used - i0)")
    (auto simp: hole_size_def)

declare defrag_loop.simps [simp del]

text \<open>\<open>defrag_prepare\<close>: where each cell moves; the empty list is nothing to do.\<close>

definition defrag_prepare :: "kv_cache \<Rightarrow> uint32 \<Rightarrow> int \<Rightarrow> nat list option" where
  "defrag_prepare kv n_layer n_max_nodes =
     (if \<not> kv_n_stream kv = 1 then None
      else
        let cells = kv_v_cells kv ! 0;
            n_kv = cells_used_max_p1 cells;
            n_used = cells_get_used cells;
            max_moves = unat ((of_int n_max_nodes - 2 * n_layer) div (6 * n_layer))
        in case defrag_loop cells n_kv n_used max_moves 0 (replicate n_kv n_kv) 0 of
             None \<Rightarrow> None
           | Some (ids, n_moves) \<Rightarrow> Some (if n_moves = 0 then [] else ids))"

definition defrag_apply :: "nat list \<Rightarrow> kv_cells \<Rightarrow> kv_cells" where
  "defrag_apply ids cells =
     fold (\<lambda>i cells. if ids ! i = length ids \<or> ids ! i = i then cells else cells_mv cells i (ids ! i))
       [0..<length ids] cells"

text \<open>
  \<open>update\<close>: the boolean result and the cache. \<open>rope\<close> says whether the model has rotary
  positions, \<open>shift_ok\<close> and \<open>defrag_ok\<close> whether the graphs could be computed.
\<close>

definition kv_update :: "kv_cache \<Rightarrow> bool \<Rightarrow> nat list \<Rightarrow> bool \<Rightarrow> bool \<Rightarrow> bool \<Rightarrow> bool \<times> kv_cache" where
  "kv_update kv do_shift ids rope shift_ok defrag_ok =
     (if do_shift \<and> rope \<and> \<not> shift_ok then (False, kv)
      else
        let updated = (do_shift \<and> rope);
            kv = (if do_shift then fold (\<lambda>s kv. kv\<lparr>kv_v_cells := (kv_v_cells kv)
              [s := cells_reset_shift (kv_v_cells kv ! s)]\<rparr>) [0..<kv_n_stream kv] kv else kv)
        in if ids \<noteq> [] then
             (let s = kv_seq_to_stream kv ! 0;
                  kv = set_stream s (defrag_apply ids (kv_v_cells kv ! s)) 0 kv
              in if \<not> defrag_ok then (updated, kv) else (True, kv))
           else (updated, kv))"

section \<open>Inputs of the graph\<close>

text \<open>
  The tensors are flat arrays; each function returns the array it writes. Indices of the rows to
  store:
\<close>

definition set_input_k_idxs :: "kv_cache \<Rightarrow> llama_ubatch \<Rightarrow> slot_info \<Rightarrow> int list \<Rightarrow> int list option" where
  "set_input_k_idxs kv ubatch sinfo data =
     (if \<not> kv_supports_set_rows kv then Some data
      else if \<not> ub_n_tokens ubatch = slot_size sinfo * slot_n_stream sinfo then None
      else Some (fold (\<lambda>s data.
        let offs = int (si_strm sinfo ! s * kv_get_size kv) in
        fold (\<lambda>i data. data[s * slot_size sinfo + i := offs + int (si_idxs sinfo ! s ! i)])
          [0..<slot_size sinfo] data) [0..<slot_n_stream sinfo] data))"

definition set_input_v_idxs :: "kv_cache \<Rightarrow> bool \<Rightarrow> nat \<Rightarrow> llama_ubatch \<Rightarrow> slot_info \<Rightarrow> int list \<Rightarrow> int list option" where
  "set_input_v_idxs kv v_trans n_embd_v_gqa ubatch sinfo data =
     (if \<not> kv_supports_set_rows kv then Some data
      else if \<not> ub_n_tokens ubatch = slot_size sinfo * slot_n_stream sinfo then None
      else if \<not> v_trans then
        Some (fold (\<lambda>s data.
          let offs = int (si_strm sinfo ! s * kv_get_size kv) in
          fold (\<lambda>i data. data[s * slot_size sinfo + i := offs + int (si_idxs sinfo ! s ! i)])
            [0..<slot_size sinfo] data) [0..<slot_n_stream sinfo] data)
      else
        let kv_size = kv_get_size kv in
        Some (fold (\<lambda>s data.
          let offs = int (si_strm sinfo ! s * kv_size * n_embd_v_gqa) in
          fold (\<lambda>i data. fold (\<lambda>j data.
              data[s * slot_size sinfo * n_embd_v_gqa + i * n_embd_v_gqa + j :=
                offs + int (j * kv_size) + int (si_idxs sinfo ! s ! i)])
            [0..<n_embd_v_gqa] data) [0..<slot_size sinfo] data) [0..<slot_n_stream sinfo] data))"

definition set_input_k_shift :: "kv_cache \<Rightarrow> int list \<Rightarrow> int list" where
  "set_input_k_shift kv data =
     fold (\<lambda>s data.
       let cells = kv_v_cells kv ! s in
       fold (\<lambda>i data. data[s * cells_size cells + i :=
           (if cells_is_empty cells i then 0 else cells_get_shift cells i)])
         [0..<cells_size cells] data) [0..<kv_n_stream kv] data"

text \<open>The attention mask: \<open>-INFINITY\<close> or a bias.\<close>

datatype mask_value = NegInfinity | Bias int

definition mask_cell :: "kv_cache \<Rightarrow> bool \<Rightarrow> bool \<Rightarrow> kv_cells \<Rightarrow> llama_seq_id \<Rightarrow> llama_pos \<Rightarrow> nat \<Rightarrow> mask_value option" where
  "mask_cell kv use_alibi causal_attn cells seq_id p1 j =
     (if cells_is_empty cells j then None
      else if \<not> cells_seq_has cells j (nat seq_id) then None
      else
        let p0 = cells_pos_get cells j in
        if causal_attn \<and> p0 > p1 then None
        else if is_masked_swa kv p0 p1 then None
        else Some (Bias (if use_alibi then - \<bar>p0 - p1\<bar> else 0)))"

definition GGML_KQ_MASK_PAD :: int where
  "GGML_KQ_MASK_PAD = 64"

definition set_input_kq_mask :: "kv_cache \<Rightarrow> bool \<Rightarrow> llama_ubatch \<Rightarrow> bool \<Rightarrow> nat \<Rightarrow> nat \<Rightarrow>
    mask_value list \<Rightarrow> mask_value list option" where
  "set_input_kq_mask kv use_alibi ubatch causal_attn n_kv n_stream data =
     (if \<not> ub_n_tokens ubatch mod n_stream = 0 then None
      else
        let n_tps = ub_n_tokens ubatch div n_stream;
            n_tps_pad = nat (GGML_PAD (int n_tps) GGML_KQ_MASK_PAD);
            data = map (\<lambda>_. NegInfinity) data
        in Some (fold (\<lambda>s data. fold (\<lambda>ii data.
             let i = s * n_tps + ii;
                 seq_id = ub_seq_id ubatch ! i ! 0;
                 cells = kv_v_cells kv ! stream_of kv seq_id;
                 p1 = ub_pos ubatch ! i;
                 idst = n_kv * (s * n_tps_pad + ii)
             in fold (\<lambda>j data. case mask_cell kv use_alibi causal_attn cells seq_id p1 j of
                    None \<Rightarrow> data
                  | Some v \<Rightarrow> data[idst + j := v]) [0..<n_kv] data)
           [0..<n_tps] data) [0..<n_stream] data))"


section \<open>The search\<close>

text \<open>\<open>n\<close> usable cells in a row, and the number of steps to a cell around the ring.\<close>

definition window :: "nat \<Rightarrow> (nat \<Rightarrow> bool) \<Rightarrow> nat \<Rightarrow> nat \<Rightarrow> bool" where
  "window sz can n w = (w + n \<le> sz \<and> (\<forall>i. w \<le> i \<and> i < w + n \<longrightarrow> can i))"

definition ring_dist :: "nat \<Rightarrow> nat \<Rightarrow> nat \<Rightarrow> nat" where
  "ring_dist sz head w = (if head \<le> w then w - head else (sz - head) + w)"

lemma upt_head: "[h..<h + Suc k] = h # [Suc h..<Suc h + k]"
  by (simp add: upt_conv_Cons del: upt_Suc)

lemma test_cells_cont:
  "test_cells can True k head tested idxs =
     (let m = length (takeWhile can [head..<head + k]) in
      if m = k then (head + k, tested + k, idxs @ [head..<head + k])
      else (head + m + 1, tested + m + 1, idxs @ [head..<head + m]))"
proof (induction k arbitrary: head tested idxs)
  case (Suc k)
  show ?case
  proof (cases "can head")
    case True
    have "takeWhile can [head..<head + Suc k] = head # takeWhile can [Suc head..<Suc head + k]"
      using True unfolding upt_head by simp
    with True Suc.IH [of "Suc head" "Suc tested" "idxs @ [head]"] show ?thesis
      unfolding upt_head by (auto simp: Let_def upt_conv_Cons [of head] simp del: upt_Suc)
  next
    case False
    then show ?thesis
      unfolding upt_head by (simp add: Let_def)
  qed
qed simp

lemma test_cells_any:
  "test_cells can False k head tested idxs = (head + k, tested + k, idxs @ filter can [head..<head + k])"
proof (induction k arbitrary: head tested idxs)
  case (Suc k)
  then show ?case
    unfolding upt_head by (auto simp: Let_def)
qed simp

lemma takeWhile_upt:
  assumes "m = length (takeWhile can [head..<head + k])"
  shows "m \<le> k" and "\<forall>i. head \<le> i \<and> i < head + m \<longrightarrow> can i" and "m < k \<Longrightarrow> \<not> can (head + m)"
proof -
  show mk: "m \<le> k"
    using length_takeWhile_le [of can "[head..<head + k]"] assms by simp
  show "\<forall>i. head \<le> i \<and> i < head + m \<longrightarrow> can i"
  proof (intro allI impI)
    fix i assume i: "head \<le> i \<and> i < head + m"
    then have "takeWhile can [head..<head + k] ! (i - head) = i"
      using mk assms by (subst takeWhile_nth) auto
    moreover have "i - head < length (takeWhile can [head..<head + k])"
      using i assms by auto
    ultimately show "can i"
      using nth_mem set_takeWhileD by metis
  qed
  show "m < k \<Longrightarrow> \<not> can (head + m)"
    using nth_length_takeWhile [of can "[head..<head + k]"] assms by simp
qed

text \<open>
  The contiguous search: it returns, a slot it finds is a window, and it fails only when there is
  no window. The invariant: every window lies within the steps that remain.
\<close>

lemma slot_loop_cont:
  assumes "1 \<le> n" and "n \<le> sz" and "head \<le> sz"
    and "\<forall>w. window sz can n w \<longrightarrow> ring_dist sz head w + tested < sz"
  shows "\<exists>r. slot_loop sz can n True head tested [] = Some r \<and>
    (case r of Some idxs \<Rightarrow> \<exists>w. window sz can n w \<and> idxs = [w..<w + n]
     | None \<Rightarrow> \<forall>w. \<not> window sz can n w)"
  using assms(3,4)
proof (induction "2 * (sz - tested) + (if head + n > sz then 1 else 0)" arbitrary: head tested rule: less_induct)
  case less
  show ?case
  proof (cases "head + n > sz")
    case True
    have "2 * (sz - (tested + (sz - head))) + (if 0 + n > sz then 1 else 0) <
      2 * (sz - tested) + (if head + n > sz then 1 else 0)"
      using True assms(2) by auto
    moreover have "\<forall>w. window sz can n w \<longrightarrow> ring_dist sz 0 w + (tested + (sz - head)) < sz"
    proof (intro allI impI)
      fix w assume w: "window sz can n w"
      then have "w < head" using True by (auto simp: window_def)
      with less.prems(2) w less.prems(1) show "ring_dist sz 0 w + (tested + (sz - head)) < sz"
        by (auto simp: ring_dist_def)
    qed
    ultimately show ?thesis
      using True less.hyps [of "tested + (sz - head)" 0] by (subst slot_loop.simps) simp
  next
    case False
    define m where "m = length (takeWhile can [head..<head + n])"
    note tw = takeWhile_upt [OF m_def]
    show ?thesis
    proof (cases "m = n")
      case True
      with False tw(2) have "window sz can n head" by (simp add: window_def)
      with True False show ?thesis
        unfolding m_def by (subst slot_loop.simps) (auto simp: test_cells_cont)
    next
      case fail: False
      with tw(1) have mn: "m < n" by simp
      with tw(3) have nc: "\<not> can (head + m)" by simp
      have inv: "ring_dist sz (head + m + 1) w + (tested + m + 1) < sz" if w: "window sz can n w" for w
      proof -
        have d: "ring_dist sz head w + tested < sz" using less.prems(2) w by blast
        have "\<not> (w \<le> head + m \<and> head + m < w + n)"
          using nc w by (auto simp: window_def)
        then consider "head + m < w" | "w + n \<le> head + m" by linarith
        then show ?thesis
          using d mn w False less.prems(1) by cases (auto simp: ring_dist_def window_def split: if_splits)
      qed
      have step: "slot_loop sz can n True head tested [] =
        (if sz \<le> tested + m + 1 then Some None
         else slot_loop sz can n True (head + m + 1) (tested + m + 1) [])"
        using False mn unfolding m_def by (subst slot_loop.simps) (auto simp: test_cells_cont Let_def)
      show ?thesis
      proof (cases "sz \<le> tested + m + 1")
        case True
        with inv have "\<forall>w. \<not> window sz can n w" by fastforce
        with True step show ?thesis by auto
      next
        case cont: False
        have "2 * (sz - (tested + m + 1)) + (if head + m + 1 + n > sz then 1 else 0) <
          2 * (sz - tested) + (if head + n > sz then 1 else 0)"
          using cont by auto
        with inv False mn cont step less.hyps [of "tested + m + 1" "head + m + 1"] show ?thesis by auto
      qed
    qed
  qed
qed



text \<open>
  The cell by cell search: it collects the usable cells and fails only when there are fewer than
  \<open>n\<close> of them.
\<close>

lemma slot_loop_any:
  assumes "1 \<le> n" and "1 \<le> sz" and "head \<le> sz" and "tested < sz"
    and "distinct idxs" and "length idxs < n"
    and "\<forall>i. i \<in> set idxs \<longleftrightarrow> i < sz \<and> can i \<and> \<not> ring_dist sz (if head = sz then 0 else head) i + tested < sz"
  shows "\<exists>r. slot_loop sz can n False head tested idxs = Some r \<and>
    (case r of Some xs \<Rightarrow> distinct xs \<and> length xs = n \<and> set xs \<subseteq> {i. i < sz \<and> can i}
     | None \<Rightarrow> card {i. i < sz \<and> can i} < n)"
  using assms(3-7)
proof (induction "2 * (sz - tested) + (if head = sz then 1 else 0)" arbitrary: head tested idxs rule: less_induct)
  case less
  show ?case
  proof (cases "head = sz")
    case True
    have "2 * (sz - tested) + (if (0::nat) = sz then 1 else 0) < 2 * (sz - tested) + (if head = sz then 1 else 0)"
      using True assms(2) by simp
    moreover have "slot_loop sz can n False head tested idxs = slot_loop sz can n False 0 tested idxs"
      using True by (subst slot_loop.simps) simp
    moreover note less.hyps [of tested 0 idxs]
    ultimately show ?thesis
      using less.prems True assms(2) by simp
  next
    case False
    with less.prems(1) have h: "head < sz" by simp
    define js where "js = (if can head then idxs @ [head] else idxs)"
    have head_new: "head \<notin> set idxs"
      using less.prems(2,5) h by (auto simp: ring_dist_def)
    have dist: "distinct js"
      using less.prems(3) head_new by (simp add: js_def)
    have set_is: "i \<in> set js \<longleftrightarrow> i < sz \<and> can i \<and>
      \<not> ring_dist sz (if head + 1 = sz then 0 else head + 1) i + (tested + 1) < sz" for i
    proof (cases "i = head")
      case True
      with h less.prems(2) show ?thesis
        using less.prems(5) False by (auto simp: js_def ring_dist_def)
    next
      case ne: False
      have "i \<in> set js \<longleftrightarrow> i \<in> set idxs" using ne by (simp add: js_def)
      also have "\<dots> \<longleftrightarrow> i < sz \<and> can i \<and> \<not> ring_dist sz head i + tested < sz"
        using less.prems(5) False by simp
      also have "\<dots> \<longleftrightarrow> i < sz \<and> can i \<and>
        \<not> ring_dist sz (if head + 1 = sz then 0 else head + 1) i + (tested + 1) < sz"
        using ne h by (auto simp: ring_dist_def)
      finally show ?thesis .
    qed
    have step: "slot_loop sz can n False head tested idxs =
      (if length js = n then Some (Some js) else if sz \<le> tested + 1 then Some None
       else slot_loop sz can n False (head + 1) (tested + 1) js)"
      using h by (subst slot_loop.simps) (simp add: js_def Let_def)
    show ?thesis
    proof (cases "length js = n")
      case True
      with step dist set_is show ?thesis by auto
    next
      case ln: False
      then have lt: "length js < n" using less.prems(4) by (auto simp: js_def)
      show ?thesis
      proof (cases "sz \<le> tested + 1")
        case True
        then have "set js = {i. i < sz \<and> can i}"
          using set_is by auto
        then have "card {i. i < sz \<and> can i} < n"
          using lt distinct_card [OF dist] by simp
        with True ln step show ?thesis by auto
      next
        case cont: False
        have "2 * (sz - (tested + 1)) + (if head + 1 = sz then 1 else 0) <
          2 * (sz - tested) + (if head = sz then 1 else 0)"
          using cont by auto
        with set_is cont h dist lt ln step less.hyps [of "tested + 1" "head + 1" js] show ?thesis by auto
      qed
    qed
  qed
qed

section \<open>Passes over the cells\<close>

type_synonym cell = "llama_pos \<times> llama_pos \<times> nat set"

definition cell_at :: "kv_cells \<Rightarrow> nat \<Rightarrow> cell" where
  "cell_at c i = (kc_pos c ! i, kc_shift c ! i, kc_seq c ! i)"

lemma cell_at_put [simp]:
  "kv_inv c \<Longrightarrow> i < cells_size c \<Longrightarrow> j < cells_size c \<Longrightarrow>
   cell_at (put_cell i p sh S c) j = (if j = i then (p, sh, S) else cell_at c j)"
  by (auto simp: cell_at_def kv_inv_lengths cells_size_def nth_list_update)

lemma cell_at_has_shift [simp]: "cell_at (c\<lparr>kc_has_shift := b\<rparr>) j = cell_at c j"
  by (simp add: cell_at_def)

lemma cells_size_has_shift [simp]: "cells_size (c\<lparr>kc_has_shift := b\<rparr>) = cells_size c"
  by (simp add: cells_size_def)

text \<open>
  The contract of a pass: step \<open>i\<close> rewrites cell \<open>i\<close> by a function of its content and
  keeps the invariant, when the content is one it accepts. The pass over all cells then rewrites
  every cell by that function.
\<close>

locale cell_pass =
  fixes step :: "nat \<Rightarrow> kv_cells \<Rightarrow> kv_cells"
    and content :: "cell \<Rightarrow> cell"
    and accepts :: "cell \<Rightarrow> bool"
  assumes step_inv: "kv_inv c \<Longrightarrow> i < cells_size c \<Longrightarrow> accepts (cell_at c i) \<Longrightarrow> kv_inv (step i c)"
    and step_size: "kv_inv c \<Longrightarrow> i < cells_size c \<Longrightarrow> accepts (cell_at c i) \<Longrightarrow>
      cells_size (step i c) = cells_size c"
    and step_at: "kv_inv c \<Longrightarrow> i < cells_size c \<Longrightarrow> accepts (cell_at c i) \<Longrightarrow> j < cells_size c \<Longrightarrow>
      cell_at (step i c) j = (if j = i then content (cell_at c i) else cell_at c j)"
begin

lemma pass_upto:
  assumes "kv_inv c" and "\<forall>i < cells_size c. accepts (cell_at c i)" and "n \<le> cells_size c"
  shows "kv_inv (fold step [0..<n] c) \<and> cells_size (fold step [0..<n] c) = cells_size c \<and>
    (\<forall>j < cells_size c. cell_at (fold step [0..<n] c) j =
      (if j < n then content (cell_at c j) else cell_at c j))"
  using assms(3)
proof (induction n)
  case 0
  with assms(1) show ?case by simp
next
  case (Suc n)
  let ?c = "fold step [0..<n] c"
  have ih: "kv_inv ?c" "cells_size ?c = cells_size c"
    "\<forall>j < cells_size c. cell_at ?c j = (if j < n then content (cell_at c j) else cell_at c j)"
    using Suc by auto
  have n: "n < cells_size ?c" and acc: "accepts (cell_at ?c n)"
    using Suc.prems ih(2,3) assms(2) by auto
  show ?case
    using step_inv [OF ih(1) n acc] step_size [OF ih(1) n acc] step_at [OF ih(1) n acc] ih Suc.prems
    by (auto simp: less_Suc_eq)
qed

lemma pass:
  assumes "kv_inv c" and "\<forall>i < cells_size c. accepts (cell_at c i)"
  shows "kv_inv (fold step [0..<cells_size c] c)"
    and "cells_size (fold step [0..<cells_size c] c) = cells_size c"
    and "j < cells_size c \<Longrightarrow> cell_at (fold step [0..<cells_size c] c) j = content (cell_at c j)"
  using pass_upto [OF assms le_refl] by auto

end

text \<open>The loops that also track the first freed cell.\<close>

lemma fst_fold_pair:
  assumes "\<And>i c h. fst (step i (c, h)) = f i c"
  shows "fst (fold step xs (c, h)) = fold f xs c"
proof (induction xs arbitrary: c h)
  case (Cons x xs)
  have "step x (c, h) = (f x c, snd (step x (c, h)))"
    using assms [of x c h] by (metis prod.collapse)
  with Cons show ?case by (metis fold_simps(2))
qed simp

definition in_range :: "llama_pos \<Rightarrow> llama_pos \<Rightarrow> llama_pos \<Rightarrow> bool" where
  "in_range p0 p1 p = (p0 \<le> p \<and> p < p1)"

lemma in_range_nonneg: "in_range (norm_p0 p0) p1 p \<Longrightarrow> p \<noteq> -1"
  by (auto simp: in_range_def norm_p0_def split: if_splits)

definition rm_content :: "nat \<Rightarrow> llama_pos \<Rightarrow> llama_pos \<Rightarrow> cell \<Rightarrow> cell" where
  "rm_content s p0 p1 = (\<lambda>(p, sh, S).
     if in_range p0 p1 p \<and> s \<in> S then (if S = {s} then (-1, 0, {}) else (p, sh, S - {s})) else (p, sh, S))"

interpretation rm_pass: cell_pass "\<lambda>i c. fst (seq_rm_step s p0 p1 i (c, 0))" "rm_content s p0 p1" "\<lambda>_. True"
  for s p0 p1
proof
  fix c i
  assume c: "kv_inv c" "i < cells_size c"
  let ?c = "fst (seq_rm_step s p0 p1 i (c, 0))"
  note k = kv_invD [OF c]
  have eq: "?c = (if in_range p0 p1 (kc_pos c ! i) \<and> s \<in> kc_seq c ! i
      then (if kc_seq c ! i = {s} then put_cell i (-1) 0 {} c
        else put_cell i (kc_pos c ! i) (kc_shift c ! i) (kc_seq c ! i - {s}) c)
      else c)"
    using c by (auto simp: seq_rm_step_def cells_pos_in_def in_range_def cells_seq_has_def freed_def cells_seq_rm_put)
  show "kv_inv ?c"
    unfolding eq using c k by (auto simp: cell_ok_def intro!: kv_inv_put)
  show "cells_size ?c = cells_size c"
    unfolding eq by simp
  show "cell_at ?c j = (if j = i then rm_content s p0 p1 (cell_at c i) else cell_at c j)"
    if "j < cells_size c" for j
    unfolding eq using c that by (auto simp: rm_content_def) (auto simp: cell_at_def)
qed

definition keep_content :: "nat \<Rightarrow> cell \<Rightarrow> cell" where
  "keep_content s = (\<lambda>(p, sh, S).
     if s \<in> S then (p, sh, {s}) else if S \<noteq> {} then (-1, 0, {}) else (p, sh, S))"

interpretation keep_pass: cell_pass "\<lambda>i c. fst (seq_keep_step s i (c, 0))" "keep_content s" "\<lambda>_. True"
  for s
proof
  fix c i
  assume c: "kv_inv c" "i < cells_size c"
  let ?c = "fst (seq_keep_step s i (c, 0))"
  note k = kv_invD [OF c]
  have eq: "?c = (if s \<in> kc_seq c ! i then put_cell i (kc_pos c ! i) (kc_shift c ! i) {s} c
     else if kc_seq c ! i \<noteq> {} then put_cell i (-1) 0 {} c else c)"
    using c by (simp add: seq_keep_step_def freed_def cells_seq_keep_put)
  show "kv_inv ?c"
    unfolding eq using c k by (auto simp: cell_ok_def intro!: kv_inv_put)
  show "cells_size ?c = cells_size c"
    unfolding eq by simp
  show "cell_at ?c j = (if j = i then keep_content s (cell_at c i) else cell_at c j)"
    if "j < cells_size c" for j
    unfolding eq using c that by (auto simp: keep_content_def) (auto simp: cell_at_def)
qed

definition add_content :: "nat \<Rightarrow> llama_pos \<Rightarrow> llama_pos \<Rightarrow> llama_pos \<Rightarrow> cell \<Rightarrow> cell" where
  "add_content s p0 p1 d = (\<lambda>(p, sh, S).
     if in_range p0 p1 p \<and> s \<in> S then (if p + d < 0 then (-1, 0, {}) else (p + d, sh + d, S)) else (p, sh, S))"

interpretation add_pass: cell_pass "\<lambda>i c. fst (seq_add_step s p0 p1 d i (c, 0))" "add_content s p0 p1 d" "\<lambda>_. True"
  for s p0 p1 d
proof
  fix c i
  assume c: "kv_inv c" "i < cells_size c"
  let ?c = "fst (seq_add_step s p0 p1 d i (c, 0))"
  note k = kv_invD [OF c]
  have eq: "?c = (if in_range p0 p1 (kc_pos c ! i) \<and> s \<in> kc_seq c ! i
      then (if kc_pos c ! i + d < 0 then (put_cell i (-1) 0 {} c)\<lparr>kc_has_shift := True\<rparr>
        else (put_cell i (kc_pos c ! i + d) (kc_shift c ! i + d) (kc_seq c ! i) c)\<lparr>kc_has_shift := True\<rparr>)
      else c)"
    using c k(8) by (auto simp: seq_add_step_def cells_pos_in_def in_range_def cells_seq_has_def freed_def
        cells_pos_add_put)
  show "kv_inv ?c"
    unfolding eq using c k by (auto simp: cell_ok_def intro!: kv_inv_put)
  show "cells_size ?c = cells_size c"
    unfolding eq by simp
  show "cell_at ?c j = (if j = i then add_content s p0 p1 d (cell_at c i) else cell_at c j)"
    if "j < cells_size c" for j
    unfolding eq using c that by (auto simp: add_content_def) (auto simp: cell_at_def)
qed

definition div_content :: "nat \<Rightarrow> llama_pos \<Rightarrow> llama_pos \<Rightarrow> int \<Rightarrow> cell \<Rightarrow> cell" where
  "div_content s p0 p1 d = (\<lambda>(p, sh, S).
     if in_range p0 p1 p \<and> s \<in> S then (c_div p d, sh + (p - c_div p d), S) else (p, sh, S))"

interpretation div_pass: cell_pass "seq_div_step s p0 p1 d" "div_content s p0 p1 d" "\<lambda>_. 0 < d"
  for s p0 p1 d
proof
  fix c i
  assume c: "kv_inv c" "i < cells_size c" and d: "0 < d"
  let ?c = "seq_div_step s p0 p1 d i c"
  note k = kv_invD [OF c]
  have eq: "?c = (if in_range p0 p1 (kc_pos c ! i) \<and> s \<in> kc_seq c ! i
      then (put_cell i (c_div (kc_pos c ! i) d) (kc_shift c ! i + (kc_pos c ! i - c_div (kc_pos c ! i) d))
        (kc_seq c ! i) c)\<lparr>kc_has_shift := True\<rparr>
      else c)"
    using c k(8) d by (auto simp: seq_div_step_def cells_pos_in_def in_range_def cells_seq_has_def cells_pos_div_put)
  have nn: "0 \<le> c_div (kc_pos c ! i) d" if "kc_pos c ! i \<noteq> -1"
    using that k(1) d by (auto simp: c_div_def sgn_if pos_imp_zdiv_nonneg_iff)
  show "kv_inv ?c"
    unfolding eq using c k nn by (auto simp: cell_ok_def intro!: kv_inv_put)
  show "cells_size ?c = cells_size c"
    unfolding eq by simp
  show "cell_at ?c j = (if j = i then div_content s p0 p1 d (cell_at c i) else cell_at c j)"
    if "j < cells_size c" for j
    unfolding eq using c that by (auto simp: div_content_def) (auto simp: cell_at_def)
qed

definition cp_content :: "nat \<Rightarrow> nat \<Rightarrow> llama_pos \<Rightarrow> llama_pos \<Rightarrow> cell \<Rightarrow> cell" where
  "cp_content src dst p0 p1 = (\<lambda>(p, sh, S).
     if in_range p0 p1 p \<and> src \<in> S then (p, sh, insert dst S) else (p, sh, S))"

interpretation cp_pass: cell_pass "seq_cp_step src dst p0 p1" "cp_content src dst p0 p1"
    "\<lambda>(p, sh, S). dst < LLAMA_MAX_SEQ \<and> \<not> (in_range p0 p1 p \<and> src \<in> S \<and> dst \<in> S)"
  for src dst p0 p1
proof
  fix c i
  assume c: "kv_inv c" "i < cells_size c" and
    "case cell_at c i of (p, sh, S) \<Rightarrow> dst < LLAMA_MAX_SEQ \<and> \<not> (in_range p0 p1 p \<and> src \<in> S \<and> dst \<in> S)"
  then have d: "dst < LLAMA_MAX_SEQ" "\<not> (in_range p0 p1 (kc_pos c ! i) \<and> src \<in> kc_seq c ! i \<and> dst \<in> kc_seq c ! i)"
    by (auto simp: cell_at_def)
  let ?c = "seq_cp_step src dst p0 p1 i c"
  note k = kv_invD [OF c]
  have eq: "?c = (if in_range p0 p1 (kc_pos c ! i) \<and> src \<in> kc_seq c ! i
      then put_cell i (kc_pos c ! i) (kc_shift c ! i) (insert dst (kc_seq c ! i)) c else c)"
    using c k(8) d by (auto simp: seq_cp_step_def cells_pos_in_def in_range_def cells_seq_has_def cells_seq_add_put)
  show "kv_inv ?c"
    unfolding eq using c k d by (auto simp: cell_ok_def intro!: kv_inv_put)
  show "cells_size ?c = cells_size c"
    unfolding eq by simp
  show "cell_at ?c j = (if j = i then cp_content src dst p0 p1 (cell_at c i) else cell_at c j)"
    if "j < cells_size c" for j
    unfolding eq using c that by (auto simp: cp_content_def) (auto simp: cell_at_def)
qed



section \<open>The cache as a whole\<close>

text \<open>
  Well-formedness: one cell array and one head per stream, all of one size, the heads inside, the
  map of sequences to streams in range.
\<close>

definition kv_wf :: "kv_cache \<Rightarrow> bool" where
  "kv_wf kv = (0 < kv_n_stream kv \<and> length (kv_v_heads kv) = kv_n_stream kv \<and>
     length (kv_v_cells kv) = kv_n_stream kv \<and>
     (\<forall>c\<in>set (kv_v_cells kv). kv_inv c \<and> cells_size c = kv_get_size kv) \<and>
     (\<forall>h\<in>set (kv_v_heads kv). h \<le> kv_get_size kv) \<and>
     0 < length (kv_seq_to_stream kv) \<and> length (kv_seq_to_stream kv) \<le> LLAMA_MAX_SEQ \<and>
     set (kv_seq_to_stream kv) \<subseteq> {..<kv_n_stream kv})"

text \<open>The cells that hold a sequence.\<close>

definition seq_cells :: "kv_cache \<Rightarrow> llama_seq_id \<Rightarrow> kv_cells" where
  "seq_cells kv seq_id = kv_v_cells kv ! stream_of kv seq_id"

lemma seq_valid_stream:
  "kv_wf kv \<Longrightarrow> seq_valid kv s \<Longrightarrow> stream_of kv s < kv_n_stream kv"
  unfolding kv_wf_def seq_valid_def stream_of_def by (metis lessThan_iff nth_mem subsetD)

lemma kv_wf_cells:
  assumes "kv_wf kv" and "s < kv_n_stream kv"
  shows "kv_inv (kv_v_cells kv ! s)" and "cells_size (kv_v_cells kv ! s) = kv_get_size kv"
    and "kv_v_heads kv ! s \<le> kv_get_size kv"
  using assms by (auto simp: kv_wf_def)

lemma kv_size_stream0: "kv_wf kv \<Longrightarrow> kv_seq_to_stream kv ! 0 < kv_n_stream kv"
  unfolding kv_wf_def by (metis lessThan_iff nth_mem subsetD)

lemma set_stream_simps [simp]:
  "kv_n_stream (set_stream s c h kv) = kv_n_stream kv"
  "kv_seq_to_stream (set_stream s c h kv) = kv_seq_to_stream kv"
  "kv_swa_type (set_stream s c h kv) = kv_swa_type kv"
  "kv_n_swa (set_stream s c h kv) = kv_n_swa kv"
  "kv_supports_set_rows (set_stream s c h kv) = kv_supports_set_rows kv"
  "kv_v_cells (set_stream s c h kv) = (kv_v_cells kv)[s := c]"
  "kv_v_heads (set_stream s c h kv) = (kv_v_heads kv)[s := h]"
  "stream_of (set_stream s c h kv) q = stream_of kv q"
  by (simp_all add: set_stream_def stream_of_def)

lemma kv_get_size_set_stream:
  assumes "kv_wf kv" and "s < kv_n_stream kv" and "cells_size c = kv_get_size kv"
  shows "kv_get_size (set_stream s c h kv) = kv_get_size kv"
proof (cases "kv_seq_to_stream kv ! 0 = s")
  case True
  have "s < length (kv_v_cells kv)"
    using assms(1,2) by (simp add: kv_wf_def)
  with True have "kv_get_size (set_stream s c h kv) = cells_size c"
    by (simp add: kv_get_size_def)
  with assms(3) show ?thesis by simp
next
  case False
  then show ?thesis by (simp add: kv_get_size_def)
qed

lemma kv_wf_set_stream:
  assumes "kv_wf kv" and "s < kv_n_stream kv" and "kv_inv c" and "cells_size c = kv_get_size kv"
    and "h \<le> kv_get_size kv"
  shows "kv_wf (set_stream s c h kv)"
proof -
  have "\<forall>x\<in>set ((kv_v_cells kv)[s := c]). kv_inv x \<and> cells_size x = kv_get_size kv"
    using assms(1,3,4) unfolding kv_wf_def by (metis insertE set_update_subset_insert subsetD)
  moreover have "\<forall>x\<in>set ((kv_v_heads kv)[s := h]). x \<le> kv_get_size kv"
    using assms(1,5) unfolding kv_wf_def by (metis insertE set_update_subset_insert subsetD)
  ultimately show ?thesis
    using assms(1) unfolding kv_wf_def kv_get_size_set_stream [OF assms(1,2,4)] by simp
qed

lemma set_stream_head_id [simp]: "set_stream s c (kv_v_heads kv ! s) kv = kv\<lparr>kv_v_cells := (kv_v_cells kv)[s := c]\<rparr>"
  by (simp add: set_stream_def)

text \<open>The first freed cell stays inside.\<close>

lemma snd_fold_le:
  assumes "\<And>i c h. i < n \<Longrightarrow> h \<le> n \<Longrightarrow> snd (step i (c, h)) \<le> n" and "set xs \<subseteq> {..<n}" and "h \<le> n"
  shows "snd (fold step xs (c, h)) \<le> (n::nat)"
  using assms(2,3)
proof (induction xs arbitrary: c h)
  case (Cons x xs)
  then show ?case
    using assms(1) [of x h c] by (cases "step x (c, h)") auto
qed simp

lemma rm_fold:
  assumes "kv_inv c" and "fold (seq_rm_step s p0 p1) [0..<cells_size c] (c, cells_size c) = (c', h)"
  shows "kv_inv c'" and "cells_size c' = cells_size c" and "h \<le> cells_size c"
    and "j < cells_size c \<Longrightarrow> cell_at c' j = rm_content s p0 p1 (cell_at c j)"
proof -
  have "c' = fold (\<lambda>i c. fst (seq_rm_step s p0 p1 i (c, 0))) [0..<cells_size c] c"
    using fst_fold_pair [of "seq_rm_step s p0 p1" "\<lambda>i c. fst (seq_rm_step s p0 p1 i (c, 0))" "[0..<cells_size c]" c "cells_size c"]
      assms(2) by (auto simp: seq_rm_step_def freed_def)
  then show "kv_inv c'" "cells_size c' = cells_size c"
    "j < cells_size c \<Longrightarrow> cell_at c' j = rm_content s p0 p1 (cell_at c j)"
    using assms(1) by (simp_all add: rm_pass.pass)
  show "h \<le> cells_size c"
  proof -
    have "snd (fold (seq_rm_step s p0 p1) [0..<cells_size c] (c, cells_size c)) \<le> cells_size c"
      by (rule snd_fold_le) (auto simp: seq_rm_step_def freed_def split: if_splits)
    with assms(2) show ?thesis by simp
  qed
qed

lemma keep_fold:
  assumes "kv_inv c" and "fold (seq_keep_step s) [0..<cells_size c] (c, cells_size c) = (c', h)"
  shows "kv_inv c'" and "cells_size c' = cells_size c" and "h \<le> cells_size c"
    and "j < cells_size c \<Longrightarrow> cell_at c' j = keep_content s (cell_at c j)"
proof -
  have "c' = fold (\<lambda>i c. fst (seq_keep_step s i (c, 0))) [0..<cells_size c] c"
    using fst_fold_pair [of "seq_keep_step s" "\<lambda>i c. fst (seq_keep_step s i (c, 0))" "[0..<cells_size c]" c "cells_size c"]
      assms(2) by (auto simp: seq_keep_step_def freed_def)
  then show "kv_inv c'" "cells_size c' = cells_size c"
    "j < cells_size c \<Longrightarrow> cell_at c' j = keep_content s (cell_at c j)"
    using assms(1) by (simp_all add: keep_pass.pass)
  show "h \<le> cells_size c"
  proof -
    have "snd (fold (seq_keep_step s) [0..<cells_size c] (c, cells_size c)) \<le> cells_size c"
      by (rule snd_fold_le) (auto simp: seq_keep_step_def freed_def split: if_splits)
    with assms(2) show ?thesis by simp
  qed
qed

lemma add_fold:
  assumes "kv_inv c" and "fold (seq_add_step s p0 p1 d) [0..<cells_size c] (c, cells_size c) = (c', h)"
  shows "kv_inv c'" and "cells_size c' = cells_size c" and "h \<le> cells_size c"
    and "j < cells_size c \<Longrightarrow> cell_at c' j = add_content s p0 p1 d (cell_at c j)"
proof -
  have "c' = fold (\<lambda>i c. fst (seq_add_step s p0 p1 d i (c, 0))) [0..<cells_size c] c"
    using fst_fold_pair [of "seq_add_step s p0 p1 d" "\<lambda>i c. fst (seq_add_step s p0 p1 d i (c, 0))" "[0..<cells_size c]" c "cells_size c"]
      assms(2) by (auto simp: seq_add_step_def freed_def)
  then show "kv_inv c'" "cells_size c' = cells_size c"
    "j < cells_size c \<Longrightarrow> cell_at c' j = add_content s p0 p1 d (cell_at c j)"
    using assms(1) by (simp_all add: add_pass.pass)
  show "h \<le> cells_size c"
  proof -
    have "snd (fold (seq_add_step s p0 p1 d) [0..<cells_size c] (c, cells_size c)) \<le> cells_size c"
      by (rule snd_fold_le) (auto simp: seq_add_step_def freed_def split: if_splits)
    with assms(2) show ?thesis by simp
  qed
qed

text \<open>Which positions of which sequences a cell holds, and how the operations change it.\<close>

definition cell_holds :: "nat \<Rightarrow> llama_pos \<Rightarrow> cell \<Rightarrow> bool" where
  "cell_holds q p = (\<lambda>(pos, sh, S). pos = p \<and> q \<in> S)"

lemma seq_positions_holds:
  "seq_positions c q = {p. \<exists>i < cells_size c. cell_holds q p (cell_at c i)}"
  by (auto simp: seq_positions_def cell_at_def cell_holds_def)

lemma holds_rm: "cell_holds q p (rm_content s p0 p1 x) \<longleftrightarrow> cell_holds q p x \<and> \<not> (q = s \<and> in_range p0 p1 p)"
  by (cases x) (auto simp: cell_holds_def rm_content_def)

lemma holds_keep: "cell_holds q p (keep_content s x) \<longleftrightarrow> cell_holds q p x \<and> q = s"
  by (cases x) (auto simp: cell_holds_def keep_content_def)

lemma holds_cp: "cell_holds q p (cp_content src dst p0 p1 x) \<longleftrightarrow>
    cell_holds q p x \<or> q = dst \<and> cell_holds src p x \<and> in_range p0 p1 p"
  by (cases x) (auto simp: cell_holds_def cp_content_def)

lemma positions_pass:
  assumes "\<forall>j < cells_size c. cell_at c' j = f (cell_at c j)" and "cells_size c' = cells_size c"
  shows "seq_positions c' q = {p. \<exists>i < cells_size c. cell_holds q p (f (cell_at c i))}"
  using assms by (auto simp: seq_positions_holds)

text \<open>
  C16. \<open>seq_rm\<close> on a well-formed cache removes exactly the positions of the sequence in the
  range \<open>[p0, p1)\<close>, where a negative bound is open; every other sequence in the same stream
  keeps its positions, the other streams are untouched, and the cache stays well-formed. A sequence
  id outside the map aborts, also a negative one, which the interface documents as any sequence.
\<close>

theorem seq_rm_removes_range:
  assumes "kv_wf kv"
  shows "case kv_seq_rm kv seq_id p0 p1 of
      None \<Rightarrow> \<not> seq_valid kv seq_id
    | Some kv' \<Rightarrow> seq_valid kv seq_id \<and> kv_wf kv' \<and>
        seq_positions (seq_cells kv' seq_id) (nat seq_id) =
          {p \<in> seq_positions (seq_cells kv seq_id) (nat seq_id).
             \<not> ((p0 < 0 \<or> p0 \<le> p) \<and> (if p1 < 0 then p < POS_MAX else p < p1))} \<and>
        (\<forall>q. q \<noteq> nat seq_id \<longrightarrow> seq_positions (seq_cells kv' seq_id) q = seq_positions (seq_cells kv seq_id) q) \<and>
        (\<forall>s. s \<noteq> stream_of kv seq_id \<longrightarrow> kv_v_cells kv' ! s = kv_v_cells kv ! s)"
proof (cases "seq_valid kv seq_id")
  case False
  then show ?thesis by (simp add: kv_seq_rm_def)
next
  case True
  let ?s = "stream_of kv seq_id"
  let ?c = "kv_v_cells kv ! ?s"
  have s: "?s < kv_n_stream kv"
    using seq_valid_stream [OF assms True] .
  note w = kv_wf_cells [OF assms s]
  obtain c' h where f: "fold (seq_rm_step (nat seq_id) (norm_p0 p0) (norm_p1 p1)) [0..<cells_size ?c] (?c, cells_size ?c) = (c', h)"
    by fastforce
  note r = rm_fold [OF w(1) f]
  let ?h = "if h \<noteq> cells_size c' \<and> h < kv_v_heads kv ! ?s then h else kv_v_heads kv ! ?s"
  have eq: "kv_seq_rm kv seq_id p0 p1 = Some (set_stream ?s c' ?h kv)"
    using True f by (simp add: kv_seq_rm_def Let_def)
  have wf: "kv_wf (set_stream ?s c' ?h kv)"
    using w r by (intro kv_wf_set_stream [OF assms s]) auto
  have c': "seq_cells (set_stream ?s c' ?h kv) seq_id = c'" "seq_cells kv seq_id = ?c"
    using s assms by (simp_all add: seq_cells_def kv_wf_def)
  have pos: "seq_positions c' q = {p. \<exists>i < cells_size ?c. cell_holds q p (cell_at ?c i) \<and>
      \<not> (q = nat seq_id \<and> in_range (norm_p0 p0) (norm_p1 p1) p)}" for q
    using positions_pass [of ?c c' "rm_content (nat seq_id) (norm_p0 p0) (norm_p1 p1)" q] r(2,4)
    by (simp add: holds_rm)
  have rng: "in_range (norm_p0 p0) (norm_p1 p1) p \<longleftrightarrow>
      (p0 < 0 \<or> p0 \<le> p) \<and> (if p1 < 0 then p < POS_MAX else p < p1)"
    if "p \<in> seq_positions ?c (nat seq_id)" for p
    using seq_positions_nonneg [OF w(1) that] by (auto simp: in_range_def norm_p0_def norm_p1_def)
  have "seq_positions c' (nat seq_id) = {p \<in> seq_positions ?c (nat seq_id).
      \<not> in_range (norm_p0 p0) (norm_p1 p1) p}"
    unfolding pos by (auto simp: seq_positions_holds)
  also have "\<dots> = {p \<in> seq_positions ?c (nat seq_id).
      \<not> ((p0 < 0 \<or> p0 \<le> p) \<and> (if p1 < 0 then p < POS_MAX else p < p1))}"
    by (rule Collect_cong) (metis rng)
  finally have this_seq: "seq_positions c' (nat seq_id) = \<dots>" .
  have other: "seq_positions c' q = seq_positions ?c q" if "q \<noteq> nat seq_id" for q
    unfolding pos using that by (auto simp: seq_positions_holds)
  show ?thesis
    unfolding eq option.case c' this_seq using True wf other by simp
qed

definition demo_kv :: kv_cache where
  "demo_kv = the (new_kv_cache True 32 4 32 0 LLAMA_SWA_TYPE_NONE False)"

lemma demo_kv_new: "new_kv_cache True 32 4 32 0 LLAMA_SWA_TYPE_NONE False = Some demo_kv"
  by (simp add: demo_kv_def new_kv_cache_def)

lemma kv_wf_new:
  assumes "new_kv_cache unified kv_size n_seq_max n_pad n_swa swa set_rows = Some kv" and "0 < n_seq_max"
    and "n_seq_max \<le> LLAMA_MAX_SEQ"
  shows "kv_wf kv"
proof -
  have sz: "cells_size (cells_resize new_cells kv_size) = kv_size"
    by (simp add: cells_resize_def cells_reset_def cells_size_def)
  show ?thesis
    using assms sz kv_inv_resize [of new_cells kv_size]
    by (auto simp: new_kv_cache_def Let_def kv_wf_def kv_get_size_def LLAMA_MAX_SEQ_def split: if_splits)
qed

lemma demo_kv_wf: "kv_wf demo_kv"
  using kv_wf_new [OF demo_kv_new] by (simp add: LLAMA_MAX_SEQ_def)

theorem seq_rm_removes_range_witness:
  "\<exists>kv'. kv_seq_rm demo_kv 0 2 5 = Some kv' \<and> kv_wf kv'"
  using seq_rm_removes_range [OF demo_kv_wf, of 0 2 5]
  by (auto simp: seq_valid_def demo_kv_def new_kv_cache_def LLAMA_MAX_SEQ_def split: option.splits)



text \<open>
  \<open>seq_keep\<close> on a well-formed cache frees everything in the stream of the sequence
  except that sequence, whose positions all stay; the cache stays well-formed.
\<close>

theorem seq_keep_keeps_only:
  assumes "kv_wf kv" and "seq_valid kv seq_id"
  shows "\<exists>kv'. kv_seq_keep kv seq_id = Some kv' \<and> kv_wf kv' \<and>
    seq_positions (seq_cells kv' seq_id) (nat seq_id) = seq_positions (seq_cells kv seq_id) (nat seq_id) \<and>
    (\<forall>q. q \<noteq> nat seq_id \<longrightarrow> seq_positions (seq_cells kv' seq_id) q = {})"
proof -
  let ?s = "stream_of kv seq_id"
  let ?c = "kv_v_cells kv ! ?s"
  have s: "?s < kv_n_stream kv"
    using seq_valid_stream [OF assms] .
  note w = kv_wf_cells [OF assms(1) s]
  obtain c' h where f: "fold (seq_keep_step (nat seq_id)) [0..<cells_size ?c] (?c, cells_size ?c) = (c', h)"
    by fastforce
  note r = keep_fold [OF w(1) f]
  let ?h = "if h \<noteq> cells_size c' \<and> h < kv_v_heads kv ! ?s then h else kv_v_heads kv ! ?s"
  have eq: "kv_seq_keep kv seq_id = Some (set_stream ?s c' ?h kv)"
    using assms(2) f by (simp add: kv_seq_keep_def Let_def)
  have wf: "kv_wf (set_stream ?s c' ?h kv)"
    using w r by (intro kv_wf_set_stream [OF assms(1) s]) auto
  have c': "seq_cells (set_stream ?s c' ?h kv) seq_id = c'" "seq_cells kv seq_id = ?c"
    using s assms by (simp_all add: seq_cells_def kv_wf_def)
  have pos: "seq_positions c' q = {p. \<exists>i < cells_size ?c. cell_holds q p (cell_at ?c i) \<and> q = nat seq_id}" for q
    using positions_pass [of ?c c' "keep_content (nat seq_id)" q] r(2,4) by (simp add: holds_keep)
  have "seq_positions c' (nat seq_id) = seq_positions ?c (nat seq_id)"
    unfolding pos by (simp add: seq_positions_holds)
  moreover have "\<forall>q. q \<noteq> nat seq_id \<longrightarrow> seq_positions c' q = {}"
    unfolding pos by simp
  ultimately show ?thesis
    unfolding eq using wf by (intro exI [of _ "set_stream ?s c' ?h kv"]) (simp add: c')
qed

theorem seq_keep_keeps_only_witness:
  "\<exists>kv'. kv_seq_keep demo_kv 3 = Some kv' \<and> kv_wf kv' \<and> seq_positions (seq_cells kv' 3) 1 = {}"
proof -
  have "seq_valid demo_kv 3"
    by (simp add: seq_valid_def demo_kv_def new_kv_cache_def LLAMA_MAX_SEQ_def)
  from seq_keep_keeps_only [OF demo_kv_wf this] show ?thesis by auto
qed

text \<open>
  \<open>seq_cp\<close> inside a stream, onto a sequence that shares no cell with the source in the
  range: the destination holds the positions it had and those of the source in the range, all
  other sequences keep theirs, no cell is taken or freed.
\<close>

theorem seq_cp_shares_cells:
  assumes "kv_wf kv" and "seq_valid kv src" and "seq_valid kv dst" and "src \<noteq> dst"
    and "stream_of kv src = stream_of kv dst"
    and "\<forall>i < cells_size (seq_cells kv src). \<forall>p. cell_holds (nat src) p (cell_at (seq_cells kv src) i) \<longrightarrow>
      cell_holds (nat dst) p (cell_at (seq_cells kv src) i) \<longrightarrow> \<not> in_range (norm_p0 p0) (norm_p1 p1) p"
  shows "\<exists>kv'. kv_seq_cp kv src dst p0 p1 = Some kv' \<and> kv_wf kv' \<and>
    seq_positions (seq_cells kv' src) (nat dst) = seq_positions (seq_cells kv src) (nat dst) \<union>
      {p \<in> seq_positions (seq_cells kv src) (nat src). in_range (norm_p0 p0) (norm_p1 p1) p} \<and>
    (\<forall>q. q \<noteq> nat dst \<longrightarrow> seq_positions (seq_cells kv' src) q = seq_positions (seq_cells kv src) q) \<and>
    (\<forall>i < cells_size (seq_cells kv src). cells_is_empty (seq_cells kv' src) i = cells_is_empty (seq_cells kv src) i)"
proof -
  let ?s = "stream_of kv src"
  let ?c = "kv_v_cells kv ! ?s"
  let ?f = "cp_content (nat src) (nat dst) (norm_p0 p0) (norm_p1 p1)"
  have s: "?s < kv_n_stream kv"
    using seq_valid_stream [OF assms(1,2)] .
  note w = kv_wf_cells [OF assms(1) s]
  have dst: "nat dst < LLAMA_MAX_SEQ"
    using assms(1,3) by (auto simp: kv_wf_def seq_valid_def)
  define c' where "c' = fold (seq_cp_step (nat src) (nat dst) (norm_p0 p0) (norm_p1 p1)) [0..<cells_size ?c] ?c"
  have acc: "\<forall>i < cells_size ?c. case cell_at ?c i of (p, sh, S) \<Rightarrow> nat dst < LLAMA_MAX_SEQ \<and>
      \<not> (in_range (norm_p0 p0) (norm_p1 p1) p \<and> nat src \<in> S \<and> nat dst \<in> S)"
    using assms(6) dst by (auto simp: cell_holds_def seq_cells_def split: prod.splits)
  have r: "kv_inv c'" "cells_size c' = cells_size ?c" "\<forall>j < cells_size ?c. cell_at c' j = ?f (cell_at ?c j)"
    unfolding c'_def using cp_pass.pass [OF w(1) acc] by blast+
  have eq: "kv_seq_cp kv src dst p0 p1 = Some (set_stream ?s c' (kv_v_heads kv ! ?s) kv)"
    using assms(2-5) by (simp add: kv_seq_cp_def Let_def c'_def)
  have wf: "kv_wf (set_stream ?s c' (kv_v_heads kv ! ?s) kv)"
    using w r by (intro kv_wf_set_stream [OF assms(1) s]) auto
  have sc: "seq_cells (set_stream ?s c' (kv_v_heads kv ! ?s) kv) src = c'" "seq_cells kv src = ?c"
    using s assms(1) by (simp_all add: seq_cells_def kv_wf_def stream_of_def)
  have pos: "seq_positions c' q = {p. \<exists>i < cells_size ?c. cell_holds q p (cell_at ?c i) \<or>
      q = nat dst \<and> cell_holds (nat src) p (cell_at ?c i) \<and> in_range (norm_p0 p0) (norm_p1 p1) p}" for q
    using positions_pass [OF r(3,2), of q] by (simp add: holds_cp)
  have emp: "cells_is_empty c' i = cells_is_empty ?c i" if "i < cells_size ?c" for i
  proof -
    have "fst (cell_at c' i) = fst (cell_at ?c i)"
      using r(3) that by (auto simp: cp_content_def split: prod.splits if_splits)
    then show ?thesis by (simp add: cell_at_def cells_is_empty_def)
  qed
  have "seq_positions c' (nat dst) = seq_positions ?c (nat dst) \<union>
      {p \<in> seq_positions ?c (nat src). in_range (norm_p0 p0) (norm_p1 p1) p}"
    unfolding pos by (auto simp: seq_positions_holds)
  moreover have "\<forall>q. q \<noteq> nat dst \<longrightarrow> seq_positions c' q = seq_positions ?c q"
    unfolding pos by (simp add: seq_positions_holds)
  ultimately show ?thesis
    using eq wf emp
    by (intro exI [of _ "set_stream ?s c' (kv_v_heads kv ! ?s) kv"]) (unfold sc, blast)
qed

theorem seq_cp_shares_cells_witness:
  "\<exists>kv'. kv_seq_cp demo_kv 0 1 (-1) (-1) = Some kv' \<and> kv_wf kv'"
proof -
  have v: "seq_valid demo_kv 0" "seq_valid demo_kv 1" "stream_of demo_kv 0 = stream_of demo_kv 1"
    by (simp_all add: seq_valid_def stream_of_def demo_kv_def new_kv_cache_def LLAMA_MAX_SEQ_def)
  have "kc_seq (seq_cells demo_kv 0) = replicate 32 {}"
    by (simp add: seq_cells_def stream_of_def demo_kv_def new_kv_cache_def LLAMA_MAX_SEQ_def cells_resize_def
        cells_reset_def new_cells_def resize_with_def)
  moreover have "cells_size (seq_cells demo_kv 0) = 32"
    by (simp add: seq_cells_def stream_of_def demo_kv_def new_kv_cache_def LLAMA_MAX_SEQ_def cells_resize_def
        cells_reset_def new_cells_def resize_with_def cells_size_def)
  ultimately show ?thesis
    using seq_cp_shares_cells [OF demo_kv_wf v(1,2) _ v(3), of "-1" "-1"]
    by (auto simp: cell_holds_def cell_at_def)
qed

text \<open>A cache of one cell, which holds position 5 of sequence 0.\<close>

definition one_cell_kv :: kv_cache where
  "one_cell_kv = (let kv = the (new_kv_cache True 1 4 1 0 LLAMA_SWA_TYPE_NONE False)
     in kv\<lparr>kv_v_cells := [cells_seq_add 0 0 (cells_pos_set 0 5 (kv_v_cells kv ! 0))]\<rparr>)"

text \<open>
  Copying the same sequence twice: \<open>seq_cp\<close> does not check whether the destination
  already shares the cell, although \<open>seq_add\<close> of the cells requires it, so the position is
  counted twice. After the destination is removed completely, no cell holds it, and yet
  \<open>seq_pos_max\<close> still reports its old position (in a build without asserts).
\<close>

theorem seq_cp_twice_stale_index:
  "\<exists>kv1 kv2 kv3. kv_seq_cp one_cell_kv 0 1 (-1) (-1) = Some kv1 \<and> kv_seq_cp kv1 0 1 (-1) (-1) = Some kv2 \<and>
    kv_seq_rm kv2 1 (-1) (-1) = Some kv3 \<and>
    kc_seq (kv_v_cells kv3 ! 0) = [{0}] \<and> kv_seq_pos_max kv3 1 = Some 5"
proof -
  have "map_option (\<lambda>kv. (kc_seq (kv_v_cells kv ! 0), kv_seq_pos_max kv 1))
    (Option.bind (kv_seq_cp one_cell_kv 0 1 (-1) (-1)) (\<lambda>kv.
     Option.bind (kv_seq_cp kv 0 1 (-1) (-1)) (\<lambda>kv. kv_seq_rm kv 1 (-1) (-1)))) = Some ([{0}], Some 5)"
    by code_simp
  then show ?thesis
    by (auto simp: map_option_eq_Some bind_eq_Some_conv)
qed



section \<open>Slots of a single stream\<close>

lemma stream_slot_spec:
  assumes "1 \<le> n" and "head \<le> cells_size cells"
  shows "\<exists>r. stream_slot kv cells head n True = Some r \<and>
    (case r of Some idxs \<Rightarrow> \<exists>w. window (cells_size cells) (can_use kv cells) n w \<and> idxs = [w..<w + n]
     | None \<Rightarrow> \<forall>w. \<not> window (cells_size cells) (can_use kv cells) n w)"
    and "\<exists>r. stream_slot kv cells head n False = Some r \<and>
    (case r of Some idxs \<Rightarrow> distinct idxs \<and> length idxs = n \<and> set idxs \<subseteq> {i. i < cells_size cells \<and> can_use kv cells i}
     | None \<Rightarrow> card {i. i < cells_size cells \<and> can_use kv cells i} < n)"
proof -
  let ?sz = "cells_size cells"
  let ?h = "if head > cells_get_used cells + 2 * n then 0 else head"
  have h: "?h \<le> ?sz" using assms(2) by simp
  show "\<exists>r. stream_slot kv cells head n True = Some r \<and>
    (case r of Some idxs \<Rightarrow> \<exists>w. window ?sz (can_use kv cells) n w \<and> idxs = [w..<w + n]
     | None \<Rightarrow> \<forall>w. \<not> window ?sz (can_use kv cells) n w)"
  proof (cases "n \<le> ?sz")
    case True
    have "\<forall>w. window ?sz (can_use kv cells) n w \<longrightarrow> ring_dist ?sz ?h w + 0 < ?sz"
      using h assms(1) by (auto simp: ring_dist_def window_def)
    from slot_loop_cont [OF assms(1) True h this] True show ?thesis
      by (simp add: stream_slot_def)
  next
    case False
    then show ?thesis by (simp add: stream_slot_def window_def)
  qed
  show "\<exists>r. stream_slot kv cells head n False = Some r \<and>
    (case r of Some idxs \<Rightarrow> distinct idxs \<and> length idxs = n \<and> set idxs \<subseteq> {i. i < ?sz \<and> can_use kv cells i}
     | None \<Rightarrow> card {i. i < ?sz \<and> can_use kv cells i} < n)"
  proof (cases "n \<le> ?sz")
    case True
    then have "1 \<le> ?sz" "0 < ?sz" using assms(1) by auto
    moreover have "\<forall>i. i \<in> set [] \<longleftrightarrow> i < ?sz \<and> can_use kv cells i \<and>
        \<not> ring_dist ?sz (if ?h = ?sz then 0 else ?h) i + 0 < ?sz"
      using h by (auto simp: ring_dist_def)
    ultimately show ?thesis
      using slot_loop_any [of n ?sz ?h 0 "[]" "can_use kv cells"] h True assms(1)
      by (simp add: stream_slot_def)
  next
    case False
    have "card {i. i < ?sz \<and> can_use kv cells i} \<le> card {..<?sz}"
      by (intro card_mono) auto
    with False show ?thesis by (simp add: stream_slot_def)
  qed
qed

text \<open>In a cache of one stream every sequence lives in stream 0.\<close>

lemma single_stream:
  assumes "kv_wf kv" and "kv_n_stream kv = 1"
  shows "seq_valid kv s \<Longrightarrow> stream_of kv s = 0" and "kv_seq_to_stream kv ! 0 = 0"
    and "kv_get_size kv = cells_size (kv_v_cells kv ! 0)"
proof -
  show "seq_valid kv s \<Longrightarrow> stream_of kv s = 0"
    using seq_valid_stream [OF assms(1)] assms(2) by fastforce
  show "kv_seq_to_stream kv ! 0 = 0"
    using kv_size_stream0 [OF assms(1)] assms(2) by simp
  then show "kv_get_size kv = cells_size (kv_v_cells kv ! 0)"
    by (simp add: kv_get_size_def)
qed

lemma find_slot_single:
  assumes "kv_wf kv" and "kv_n_stream kv = 1" and "seq_valid kv (ub_seq_id_unq u ! 0)"
  shows "find_slot kv u cont =
    (case stream_slot kv (kv_v_cells kv ! 0) (kv_v_heads kv ! 0) (ub_n_tokens u) cont of
       None \<Rightarrow> None
     | Some None \<Rightarrow> Some empty_slot
     | Some (Some idxs) \<Rightarrow> if length idxs < ub_n_tokens u then Some empty_slot
         else Some \<lparr>si_s0 = 0, si_s1 = 0, si_strm = [0], si_idxs = [idxs]\<rparr>)"
  using assms single_stream(1) [OF assms]
  by (auto simp: find_slot_def Let_def LLAMA_MAX_SEQ_def split: option.splits)

text \<open>
  The contiguous slot search of a one-stream cache is sound and complete: it returns, a slot
  it finds is a run of \<open>n\<close> consecutive usable cells, and it comes back empty exactly when
  there is no such run, wherever the head stands.
\<close>

theorem find_slot_contiguous:
  assumes "kv_wf kv" and "kv_n_stream kv = 1" and "seq_valid kv (ub_seq_id_unq u ! 0)"
    and "1 \<le> ub_n_tokens u"
  shows "\<exists>sinfo. find_slot kv u True = Some sinfo \<and>
    (slot_empty sinfo \<longleftrightarrow>
      \<not> (\<exists>w. w + ub_n_tokens u \<le> kv_get_size kv \<and>
        (\<forall>i. w \<le> i \<and> i < w + ub_n_tokens u \<longrightarrow> can_use kv (kv_v_cells kv ! 0) i))) \<and>
    (\<not> slot_empty sinfo \<longrightarrow>
      (\<exists>w. w + ub_n_tokens u \<le> kv_get_size kv \<and> si_idxs sinfo = [[w..<w + ub_n_tokens u]] \<and> si_strm sinfo = [0] \<and>
        (\<forall>i. w \<le> i \<and> i < w + ub_n_tokens u \<longrightarrow> can_use kv (kv_v_cells kv ! 0) i)))"
proof -
  note w = kv_wf_cells [OF assms(1), of 0]
  have "kv_v_heads kv ! 0 \<le> cells_size (kv_v_cells kv ! 0)"
    using w assms(2) by simp
  from stream_slot_spec(1) [OF assms(4) this, of kv] obtain r where
    r: "stream_slot kv (kv_v_cells kv ! 0) (kv_v_heads kv ! 0) (ub_n_tokens u) True = Some r" and
    c: "case r of Some idxs \<Rightarrow> \<exists>w. window (cells_size (kv_v_cells kv ! 0)) (can_use kv (kv_v_cells kv ! 0)) (ub_n_tokens u) w \<and>
        idxs = [w..<w + ub_n_tokens u]
      | None \<Rightarrow> \<forall>w. \<not> window (cells_size (kv_v_cells kv ! 0)) (can_use kv (kv_v_cells kv ! 0)) (ub_n_tokens u) w"
    by blast
  show ?thesis
  proof (cases r)
    case None
    with r c show ?thesis
      unfolding find_slot_single [OF assms(1-3)] single_stream(3) [OF assms(1,2)]
      by (simp add: slot_empty_def empty_slot_def window_def)
  next
    case (Some idxs)
    with c obtain v where v: "window (cells_size (kv_v_cells kv ! 0)) (can_use kv (kv_v_cells kv ! 0)) (ub_n_tokens u) v"
      and idxs: "idxs = [v..<v + ub_n_tokens u]" by auto
    have "find_slot kv u True = Some \<lparr>si_s0 = 0, si_s1 = 0, si_strm = [0], si_idxs = [[v..<v + ub_n_tokens u]]\<rparr>"
      unfolding find_slot_single [OF assms(1-3)] using r Some idxs by simp
    with v show ?thesis
      unfolding single_stream(3) [OF assms(1,2)] window_def slot_empty_def
      by (intro exI conjI impI) (assumption | simp | blast)+
  qed
qed

text \<open>
  The cell by cell search (non-contiguous slots) of a one-stream cache: it returns, a slot it
  finds consists of \<open>n\<close> different usable cells, and it comes back empty exactly when fewer
  than \<open>n\<close> cells are usable.
\<close>

theorem find_slot_scattered:
  assumes "kv_wf kv" and "kv_n_stream kv = 1" and "seq_valid kv (ub_seq_id_unq u ! 0)"
    and "1 \<le> ub_n_tokens u"
  shows "\<exists>sinfo. find_slot kv u False = Some sinfo \<and>
    (slot_empty sinfo \<longleftrightarrow> card {i. i < kv_get_size kv \<and> can_use kv (kv_v_cells kv ! 0) i} < ub_n_tokens u) \<and>
    (\<not> slot_empty sinfo \<longrightarrow>
      (\<exists>idxs. si_idxs sinfo = [idxs] \<and> si_strm sinfo = [0] \<and> distinct idxs \<and> length idxs = ub_n_tokens u \<and>
        set idxs \<subseteq> {i. i < kv_get_size kv \<and> can_use kv (kv_v_cells kv ! 0) i}))"
proof -
  let ?U = "{i. i < cells_size (kv_v_cells kv ! 0) \<and> can_use kv (kv_v_cells kv ! 0) i}"
  note w = kv_wf_cells [OF assms(1), of 0]
  have "kv_v_heads kv ! 0 \<le> cells_size (kv_v_cells kv ! 0)"
    using w assms(2) by simp
  from stream_slot_spec(2) [OF assms(4) this, of kv] obtain r where
    r: "stream_slot kv (kv_v_cells kv ! 0) (kv_v_heads kv ! 0) (ub_n_tokens u) False = Some r" and
    c: "case r of Some idxs \<Rightarrow> distinct idxs \<and> length idxs = ub_n_tokens u \<and> set idxs \<subseteq> ?U
      | None \<Rightarrow> card ?U < ub_n_tokens u"
    by blast
  show ?thesis
  proof (cases r)
    case None
    with r c show ?thesis
      unfolding find_slot_single [OF assms(1-3)] single_stream(3) [OF assms(1,2)]
      by (simp add: slot_empty_def empty_slot_def)
  next
    case (Some idxs)
    have "finite ?U" by simp
    then have "card (set idxs) \<le> card ?U"
      using c Some by (intro card_mono) auto
    then have "\<not> card ?U < ub_n_tokens u"
      using c Some by (simp add: distinct_card)
    with r c Some show ?thesis
      unfolding find_slot_single [OF assms(1-3)] single_stream(3) [OF assms(1,2)]
      by (simp add: slot_empty_def)
  qed
qed

definition demo_ubatch :: llama_ubatch where
  "demo_ubatch = \<lparr>ub_equal_seqs = False, ub_n_tokens = 3, ub_n_seq_tokens = 1, ub_n_seqs = 3,
     ub_n_seqs_unq = 1, ub_token = Some [5, 6, 7], ub_embd = None, ub_pos = [0, 1, 2],
     ub_n_seq_id = [1, 1, 1], ub_seq_id = [[0], [0], [0]], ub_seq_id_unq = [0],
     ub_seq_idx = 0 # replicate 63 (-1), ub_output = [0, 0, 1]\<rparr>"

lemma demo_kv_simps:
  "kv_n_stream demo_kv = 1" "kv_get_size demo_kv = 32" "seq_valid demo_kv 0"
  "kv_v_cells demo_kv = [cells_resize new_cells 32]" "kv_v_heads demo_kv = [0]"
  "kv_swa_type demo_kv = LLAMA_SWA_TYPE_NONE" "kv_supports_set_rows demo_kv = False"
  by (simp_all add: demo_kv_def new_kv_cache_def LLAMA_MAX_SEQ_def seq_valid_def kv_get_size_def cells_resize_def
      cells_reset_def cells_size_def)

lemma resized_empty: "i < n \<Longrightarrow> cells_is_empty (cells_resize new_cells n) i"
  by (simp add: cells_is_empty_def cells_resize_def cells_reset_def)

theorem find_slot_contiguous_witness:
  "\<exists>sinfo. find_slot demo_kv demo_ubatch True = Some sinfo \<and> \<not> slot_empty sinfo"
proof -
  have "0 + 3 \<le> (32::nat) \<and> (\<forall>i. 0 \<le> i \<and> i < 0 + 3 \<longrightarrow> can_use demo_kv (cells_resize new_cells 32) i)"
    by (simp add: can_use_def resized_empty)
  with find_slot_contiguous [OF demo_kv_wf, of demo_ubatch] show ?thesis
    by (auto simp: demo_kv_simps demo_ubatch_def)
qed

theorem find_slot_scattered_witness:
  "\<exists>sinfo. find_slot demo_kv demo_ubatch False = Some sinfo \<and> \<not> slot_empty sinfo"
proof -
  have "{i. i < 32 \<and> can_use demo_kv (cells_resize new_cells 32) i} = {..<32}"
    by (auto simp: can_use_def resized_empty)
  with find_slot_scattered [OF demo_kv_wf, of demo_ubatch] show ?thesis
    by (auto simp: demo_kv_simps demo_ubatch_def)
qed



section \<open>Placing tokens\<close>

lemma put_put:
  assumes "kv_inv c" and "i < cells_size c"
  shows "put_cell i p' sh' S' (put_cell i p sh S c) = put_cell i p' sh' S' c"
  using kv_inv_lengths [OF assms(1)] assms(2)
  by (auto simp: put_cell_def cells_size_def intro!: kv_cells.equality)

text \<open>Adding the sequences of a token one after the other.\<close>

lemma seq_add_fold_put:
  assumes "kv_inv c" and "i < cells_size c" and "kc_pos c ! i \<noteq> -1" and "distinct ids"
    and "set ids \<inter> kc_seq c ! i = {}" and "set ids \<subseteq> {..<LLAMA_MAX_SEQ}"
  shows "fold (cells_seq_add i) ids c =
    (if ids = [] then c else put_cell i (kc_pos c ! i) (kc_shift c ! i) (kc_seq c ! i \<union> set ids) c)"
  using assms
proof (induction ids arbitrary: c)
  case Nil
  then show ?case by simp
next
  case (Cons s ids)
  let ?c = "put_cell i (kc_pos c ! i) (kc_shift c ! i) (insert s (kc_seq c ! i)) c"
  note k = kv_invD [OF Cons.prems(1,2)]
  have add: "cells_seq_add i s c = ?c"
    using Cons.prems by (intro cells_seq_add_put) auto
  have inv: "kv_inv ?c"
    using k Cons.prems(3,6) by (intro kv_inv_put [OF Cons.prems(1,2)]) (auto simp: cell_ok_def)
  have at: "kc_pos ?c ! i = kc_pos c ! i" "kc_shift ?c ! i = kc_shift c ! i" "kc_seq ?c ! i = insert s (kc_seq c ! i)"
    using Cons.prems(1,2) by (auto simp: kv_inv_lengths cells_size_def)
  have "fold (cells_seq_add i) ids ?c =
    (if ids = [] then ?c else put_cell i (kc_pos ?c ! i) (kc_shift ?c ! i) (kc_seq ?c ! i \<union> set ids) ?c)"
    using Cons.prems at by (intro Cons.IH [OF inv]) auto
  with add at show ?case
    using put_put [OF Cons.prems(1,2)] by (auto simp: insert_absorb)
qed

text \<open>What a micro-batch must provide for \<open>n\<close> tokens.\<close>

definition token_ids :: "llama_ubatch \<Rightarrow> nat \<Rightarrow> nat list" where
  "token_ids u i = map nat (seq_ids_of (ub_n_seq_id u) (ub_seq_id u) i)"

definition ubatch_ok :: "llama_ubatch \<Rightarrow> bool" where
  "ubatch_ok u = (\<forall>i < ub_n_tokens u. 0 \<le> ub_pos u ! i \<and> distinct (token_ids u i) \<and>
     token_ids u i \<noteq> [] \<and> set (token_ids u i) \<subseteq> {..<LLAMA_MAX_SEQ})"

lemma place_empty:
  assumes "kv_inv c" and "i < cells_size c" and "cells_is_empty c i" and "0 \<le> p" and "distinct ids"
    and "ids \<noteq> []" and "set ids \<subseteq> {..<LLAMA_MAX_SEQ}"
  shows "fold (cells_seq_add i) ids (cells_pos_set i p c) = put_cell i p 0 (set ids) c"
    and "kv_inv (put_cell i p 0 (set ids) c)"
proof -
  let ?c = "put_cell i p 0 {} c"
  have ps: "cells_pos_set i p c = ?c"
    using assms by (intro cells_pos_set_put) (auto simp: cells_is_empty_def)
  have inv: "kv_inv ?c"
    using assms by (intro kv_inv_put) (auto simp: cell_ok_def)
  have at: "kc_pos ?c ! i = p" "kc_shift ?c ! i = 0" "kc_seq ?c ! i = {}"
    using assms(1,2) by (auto simp: kv_inv_lengths cells_size_def)
  have "fold (cells_seq_add i) ids ?c = put_cell i p 0 (set ids) ?c"
    using seq_add_fold_put [OF inv, of i ids] assms at by simp
  then show "fold (cells_seq_add i) ids (cells_pos_set i p c) = put_cell i p 0 (set ids) c"
    using put_put [OF assms(1,2)] ps by simp
  show "kv_inv (put_cell i p 0 (set ids) c)"
    using assms by (intro kv_inv_put) (auto simp: cell_ok_def)
qed

text \<open>The single-stream slot, and the cells after its tokens have been placed.\<close>

definition placed :: "llama_ubatch \<Rightarrow> nat list \<Rightarrow> nat list \<Rightarrow> kv_cells \<Rightarrow> kv_cells" where
  "placed u idxs js c = fold (\<lambda>j. put_cell (idxs ! j) (ub_pos u ! j) 0 (set (token_ids u j))) js c"

lemma placed_inv:
  assumes "kv_inv c" and "ubatch_ok u" and "set idxs \<subseteq> {..<cells_size c}" and "length idxs = ub_n_tokens u"
    and "set js \<subseteq> {..<ub_n_tokens u}"
  shows "kv_inv (placed u idxs js c) \<and> cells_size (placed u idxs js c) = cells_size c"
  using assms(1,3,5)
proof (induction js arbitrary: c)
  case Nil
  then show ?case by (simp add: placed_def)
next
  case (Cons j js)
  have "idxs ! j \<in> set idxs" using Cons.prems assms(4) by auto
  then have "idxs ! j < cells_size c" using Cons.prems by auto
  then have "kv_inv (put_cell (idxs ! j) (ub_pos u ! j) 0 (set (token_ids u j)) c)"
    using assms(2) Cons.prems by (intro kv_inv_put) (auto simp: cell_ok_def ubatch_ok_def)
  from Cons.IH [OF this] Cons.prems show ?case
    by (simp add: placed_def)
qed

text \<open>Cells and sequences of the placed tokens.\<close>

lemma placed_arrays:
  assumes "kv_inv c" and "distinct idxs" and "length idxs = n" and "set idxs \<subseteq> {..<cells_size c}" and "k \<le> n"
  shows "j < k \<Longrightarrow> kc_pos (placed u idxs [0..<k] c) ! (idxs ! j) = ub_pos u ! j"
    and "j < k \<Longrightarrow> kc_seq (placed u idxs [0..<k] c) ! (idxs ! j) = set (token_ids u j)"
    and "x \<notin> (!) idxs ` {0..<k} \<Longrightarrow> kc_pos (placed u idxs [0..<k] c) ! x = kc_pos c ! x"
    and "x \<notin> (!) idxs ` {0..<k} \<Longrightarrow> kc_seq (placed u idxs [0..<k] c) ! x = kc_seq c ! x"
    and "kc_has_shift (placed u idxs [0..<k] c) = kc_has_shift c"
    and "kc_shift (placed u idxs [0..<k] c) = fold (\<lambda>j xs. xs[idxs ! j := 0]) [0..<k] (kc_shift c)"
proof -
  have inj: "inj_on ((!) idxs) (set [0..<k])"
    using assms(2,3,5) by (intro inj_on_nth) auto
  have lt: "j < k \<Longrightarrow> idxs ! j < length (kc_pos c)" for j
    using assms(3,4,5) by (metis cells_size_def less_le_trans lessThan_iff nth_mem subsetD)
  have lq: "length (kc_seq c) = length (kc_pos c)"
    using assms(1) by (simp add: kv_inv_def)
  show "j < k \<Longrightarrow> kc_pos (placed u idxs [0..<k] c) ! (idxs ! j) = ub_pos u ! j"
    "j < k \<Longrightarrow> kc_seq (placed u idxs [0..<k] c) ! (idxs ! j) = set (token_ids u j)"
    unfolding placed_def fold_put_simps using lt lq by (simp_all add: nth_fold_update [OF inj])
  show "x \<notin> (!) idxs ` {0..<k} \<Longrightarrow> kc_pos (placed u idxs [0..<k] c) ! x = kc_pos c ! x"
    "x \<notin> (!) idxs ` {0..<k} \<Longrightarrow> kc_seq (placed u idxs [0..<k] c) ! x = kc_seq c ! x"
    unfolding placed_def fold_put_simps by (rule nth_fold_update_other; simp)+
  show "kc_has_shift (placed u idxs [0..<k] c) = kc_has_shift c"
    "kc_shift (placed u idxs [0..<k] c) = fold (\<lambda>j xs. xs[idxs ! j := 0]) [0..<k] (kc_shift c)"
    unfolding placed_def fold_put_simps by simp_all
qed

definition single_slot :: "nat list \<Rightarrow> slot_info" where
  "single_slot idxs = \<lparr>si_s0 = 0, si_s1 = 0, si_strm = [0], si_idxs = [idxs]\<rparr>"

lemma apply_tokens_single:
  assumes "kv_n_stream kv = 1" and "length (kv_v_cells kv) = 1" and "kv_inv (kv_v_cells kv ! 0)"
    and "ubatch_ok u" and "length idxs = ub_n_tokens u" and "distinct idxs"
    and "set idxs \<subseteq> {i. i < cells_size (kv_v_cells kv ! 0) \<and> cells_is_empty (kv_v_cells kv ! 0) i}"
    and "k \<le> ub_n_tokens u"
  shows "fold (apply_token (single_slot idxs) u) (map (Pair 0) [0..<k]) (kv, rm) =
    (kv\<lparr>kv_v_cells := [placed u idxs [0..<k] (kv_v_cells kv ! 0)]\<rparr>, rm)"
  using assms(8)
proof (induction k)
  case 0
  have "[kv_v_cells kv ! 0] = kv_v_cells kv"
    using assms(2) by (cases "kv_v_cells kv") auto
  then show ?case by (simp add: placed_def)
next
  case (Suc k)
  let ?c = "kv_v_cells kv ! 0"
  let ?p = "placed u idxs [0..<k] ?c"
  have sub: "set idxs \<subseteq> {..<cells_size ?c}" using assms(7) by auto
  have "set [0..<k] \<subseteq> {..<ub_n_tokens u}"
    using Suc.prems by auto
  then have p: "kv_inv ?p" "cells_size ?p = cells_size ?c"
    using placed_inv [OF assms(3,4) sub assms(5)] by blast+
  have kn: "k < length idxs" using Suc.prems assms(5) by simp
  then have idx: "idxs ! k \<in> set idxs" by simp
  have "idxs ! k \<notin> (!) idxs ` {0..<k}"
    using assms(6) kn by (auto simp: nth_eq_iff_index_eq)
  then have "kc_pos ?p ! (idxs ! k) = kc_pos ?c ! (idxs ! k)"
    using placed_arrays(3) [OF assms(3,6,5) sub, of k] Suc.prems by simp
  then have emp: "cells_is_empty ?p (idxs ! k)" and lt: "idxs ! k < cells_size ?p"
    using idx assms(7) p(2) by (auto simp: cells_is_empty_def)
  have ok: "0 \<le> ub_pos u ! k" "distinct (token_ids u k)" "token_ids u k \<noteq> []"
    "set (token_ids u k) \<subseteq> {..<LLAMA_MAX_SEQ}"
    using assms(4) Suc.prems by (auto simp: ubatch_ok_def)
  have "fold (\<lambda>j cells. cells_seq_add (idxs ! k) (nat (ub_seq_id u ! k ! j)) cells) [0..<nat (ub_n_seq_id u ! k)] c =
    fold (cells_seq_add (idxs ! k)) (token_ids u k) c" for c
    by (simp add: token_ids_def seq_ids_of_def fold_map comp_def)
  then have "apply_token (single_slot idxs) u (0, k) (kv\<lparr>kv_v_cells := [?p]\<rparr>, rm) =
    (kv\<lparr>kv_v_cells := [put_cell (idxs ! k) (ub_pos u ! k) 0 (set (token_ids u k)) ?p]\<rparr>, rm)"
    using emp place_empty(1) [OF p(1) lt emp ok] by (simp add: apply_token_def single_slot_def Let_def slot_size_def)
  with Suc show ?case by (simp add: placed_def)
qed

lemma purge_none: "fold (purge_seq (\<lambda>_. -1)) xs (Some kv) = Some kv"
  by (induction xs) (auto simp: purge_seq_def)

lemma apply_ubatch_single:
  assumes "kv_n_stream kv = 1" and "length (kv_v_cells kv) = 1" and "length (kv_v_heads kv) = 1"
    and "kv_inv (kv_v_cells kv ! 0)" and "ubatch_ok u" and "length idxs = ub_n_tokens u" and "distinct idxs"
    and "set idxs \<subseteq> {i. i < cells_size (kv_v_cells kv ! 0) \<and> cells_is_empty (kv_v_cells kv ! 0) i}"
  shows "apply_ubatch kv (single_slot idxs) u =
    Some (kv\<lparr>kv_v_cells := [placed u idxs [0..<ub_n_tokens u] (kv_v_cells kv ! 0)], kv_v_heads := [last idxs + 1]\<rparr>)"
proof -
  have h: "(kv_v_heads kv)[0 := last idxs + 1] = [last idxs + 1]"
    using assms(3) by (cases "kv_v_heads kv") auto
  show ?thesis
    using apply_tokens_single [OF assms(1,2,4-8) le_refl, of "\<lambda>_. -1"] assms(6)
    unfolding apply_ubatch_def slot_size_def slot_n_stream_def single_slot_def [symmetric]
    by (simp add: purge_none h single_slot_def [symmetric] fold_simps) (simp add: single_slot_def h [simplified] purge_none)
qed



text \<open>A cache without attention window in one stream: the setting of the chat.\<close>

definition plain_kv :: "kv_cache \<Rightarrow> bool" where
  "plain_kv kv = (kv_wf kv \<and> kv_n_stream kv = 1 \<and> kv_swa_type kv = LLAMA_SWA_TYPE_NONE)"

definition ubatch_fits :: "kv_cache \<Rightarrow> llama_ubatch \<Rightarrow> bool" where
  "ubatch_fits kv u = (ubatch_ok u \<and> 1 \<le> ub_n_tokens u \<and> seq_valid kv (ub_seq_id_unq u ! 0))"

lemma can_use_plain: "plain_kv kv \<Longrightarrow> can_use kv c i = cells_is_empty c i"
  by (simp add: can_use_def is_masked_swa_def plain_kv_def)

lemma plain_cells:
  assumes "plain_kv kv"
  shows "length (kv_v_cells kv) = 1" and "length (kv_v_heads kv) = 1" and "kv_inv (kv_v_cells kv ! 0)"
    and "cells_size (kv_v_cells kv ! 0) = kv_get_size kv" and "kv_v_heads kv ! 0 \<le> kv_get_size kv"
    and "kv_v_cells kv = [kv_v_cells kv ! 0]" and "kv_v_heads kv = [kv_v_heads kv ! 0]"
proof -
  show l: "length (kv_v_cells kv) = 1" "length (kv_v_heads kv) = 1"
    using assms by (auto simp: plain_kv_def kv_wf_def)
  show "kv_inv (kv_v_cells kv ! 0)" "cells_size (kv_v_cells kv ! 0) = kv_get_size kv" "kv_v_heads kv ! 0 \<le> kv_get_size kv"
    using assms kv_wf_cells [of kv 0] by (auto simp: plain_kv_def)
  show "kv_v_cells kv = [kv_v_cells kv ! 0]" "kv_v_heads kv = [kv_v_heads kv ! 0]"
    using l by (cases "kv_v_cells kv"; cases "kv_v_heads kv"; auto)+
qed

lemma find_slot_plain:
  assumes "plain_kv kv" and "ubatch_fits kv u"
  shows "find_slot kv u cont = Some empty_slot \<or>
    (\<exists>idxs. find_slot kv u cont = Some (single_slot idxs) \<and> length idxs = ub_n_tokens u \<and> distinct idxs \<and>
      set idxs \<subseteq> {i. i < kv_get_size kv \<and> cells_is_empty (kv_v_cells kv ! 0) i})"
proof -
  let ?c = "kv_v_cells kv ! 0"
  have a: "kv_wf kv" "kv_n_stream kv = 1" "seq_valid kv (ub_seq_id_unq u ! 0)" "1 \<le> ub_n_tokens u"
    using assms by (auto simp: plain_kv_def ubatch_fits_def)
  note pc = plain_cells [OF assms(1)]
  have h: "kv_v_heads kv ! 0 \<le> cells_size ?c" using pc by simp
  show ?thesis
  proof (cases cont)
    case True
    from stream_slot_spec(1) [OF a(4) h, of kv] obtain r where r: "stream_slot kv ?c (kv_v_heads kv ! 0) (ub_n_tokens u) True = Some r"
      "case r of Some idxs \<Rightarrow> \<exists>w. window (cells_size ?c) (can_use kv ?c) (ub_n_tokens u) w \<and> idxs = [w..<w + ub_n_tokens u]
       | None \<Rightarrow> \<forall>w. \<not> window (cells_size ?c) (can_use kv ?c) (ub_n_tokens u) w" by blast
    show ?thesis
    proof (cases r)
      case None
      with r True show ?thesis unfolding find_slot_single [OF a(1-3)] by simp
    next
      case (Some idxs)
      with r obtain w where "window (cells_size ?c) (can_use kv ?c) (ub_n_tokens u) w" "idxs = [w..<w + ub_n_tokens u]" by auto
      then have "set idxs \<subseteq> {i. i < kv_get_size kv \<and> cells_is_empty ?c i}" "distinct idxs" "length idxs = ub_n_tokens u"
        using pc(4) can_use_plain [OF assms(1)] by (auto simp: window_def)
      with r(1) True Some show ?thesis
        unfolding find_slot_single [OF a(1-3)] single_slot_def by simp
    qed
  next
    case False
    from stream_slot_spec(2) [OF a(4) h, of kv] obtain r where r: "stream_slot kv ?c (kv_v_heads kv ! 0) (ub_n_tokens u) False = Some r"
      "case r of Some idxs \<Rightarrow> distinct idxs \<and> length idxs = ub_n_tokens u \<and> set idxs \<subseteq> {i. i < cells_size ?c \<and> can_use kv ?c i}
       | None \<Rightarrow> card {i. i < cells_size ?c \<and> can_use kv ?c i} < ub_n_tokens u" by blast
    show ?thesis
    proof (cases r)
      case None
      with r False show ?thesis unfolding find_slot_single [OF a(1-3)] by simp
    next
      case (Some idxs)
      with r False show ?thesis
        unfolding find_slot_single [OF a(1-3)] single_slot_def pc(4) can_use_plain [OF assms(1)] by auto
    qed
  qed
qed

lemma set_upt_lessThan: "set [0..<n] \<subseteq> {..<n}"
  by auto

lemma placed_plain:
  assumes "plain_kv kv" and "ubatch_fits kv u" and "length idxs = ub_n_tokens u" and "distinct idxs"
    and "set idxs \<subseteq> {i. i < kv_get_size kv \<and> cells_is_empty (kv_v_cells kv ! 0) i}"
  defines "kv' \<equiv> kv\<lparr>kv_v_cells := [placed u idxs [0..<ub_n_tokens u] (kv_v_cells kv ! 0)], kv_v_heads := [last idxs + 1]\<rparr>"
  shows "apply_ubatch kv (single_slot idxs) u = Some kv'" and "plain_kv kv'" and "kv_get_size kv' = kv_get_size kv"
    and "\<And>s. seq_valid kv' s = seq_valid kv s"
proof -
  let ?c = "kv_v_cells kv ! 0" and ?p = "placed u idxs [0..<ub_n_tokens u] (kv_v_cells kv ! 0)"
  note pc = plain_cells [OF assms(1)]
  have ok: "ubatch_ok u" "1 \<le> ub_n_tokens u" using assms(2) by (auto simp: ubatch_fits_def)
  have sub: "set idxs \<subseteq> {..<cells_size ?c}" using assms(5) pc(4) by auto
  have p: "kv_inv ?p" "cells_size ?p = cells_size ?c"
    using placed_inv [OF pc(3) ok(1) sub assms(3) set_upt_lessThan] by blast+
  show "apply_ubatch kv (single_slot idxs) u = Some kv'"
    unfolding kv'_def using assms(1,5) pc(4)
    by (intro apply_ubatch_single [OF _ pc(1,2,3) ok(1) assms(3,4)]) (auto simp: plain_kv_def)
  have "last idxs \<in> set idxs" using ok(2) assms(3) by (intro last_in_set) auto
  then have last: "last idxs + 1 \<le> kv_get_size kv" using assms(5) by auto
  have eq: "kv' = set_stream 0 ?p (last idxs + 1) kv"
    unfolding kv'_def set_stream_def by (subst (1 2) pc(6), subst pc(7)) simp
  have wf: "kv_wf kv'"
    unfolding eq using assms(1) p pc(4) last by (intro kv_wf_set_stream) (auto simp: plain_kv_def)
  then show "plain_kv kv'"
    using assms(1) by (simp add: plain_kv_def eq)
  show "kv_get_size kv' = kv_get_size kv"
    unfolding eq using assms(1) p(2) pc(4) by (intro kv_get_size_set_stream) (auto simp: plain_kv_def)
  show "seq_valid kv' s = seq_valid kv s" for s
    unfolding eq by (simp add: seq_valid_def)
qed

lemma used_iff: "kv_inv c \<Longrightarrow> kc_used c = {i. i < cells_size c \<and> kc_pos c ! i \<noteq> -1}"
  by (simp add: kv_inv_def cells_size_def)

lemma placed_used:
  assumes "kv_inv c" and "ubatch_ok u" and "length idxs = ub_n_tokens u" and "distinct idxs"
    and "set idxs \<subseteq> {i. i < cells_size c \<and> cells_is_empty c i}"
  shows "kc_used (placed u idxs [0..<ub_n_tokens u] c) = kc_used c \<union> set idxs"
    and "seq_positions (placed u idxs [0..<ub_n_tokens u] c) q =
      seq_positions c q \<union> {ub_pos u ! j |j. j < ub_n_tokens u \<and> q \<in> set (token_ids u j)}"
proof -
  let ?p = "placed u idxs [0..<ub_n_tokens u] c"
  have sub: "set idxs \<subseteq> {..<cells_size c}" using assms(5) by auto
  have p: "kv_inv ?p" "cells_size ?p = cells_size c"
    using placed_inv [OF assms(1,2) sub assms(3) set_upt_lessThan] by blast+
  note ar = placed_arrays [OF assms(1,4,3) sub le_refl, where u = u]
  have im: "(!) idxs ` {0..<ub_n_tokens u} = set idxs"
    using assms(3) by (metis list.set_map map_nth set_upt)
  have in_idxs: "\<exists>j < ub_n_tokens u. i = idxs ! j" if "i \<in> set idxs" for i
    using that assms(3) by (auto simp: in_set_conv_nth)
  have at_in: "kc_pos ?p ! (idxs ! j) = ub_pos u ! j" "kc_seq ?p ! (idxs ! j) = set (token_ids u j)" if "j < ub_n_tokens u" for j
    using ar(1,2) that by auto
  have at_out: "kc_pos ?p ! i = kc_pos c ! i" "kc_seq ?p ! i = kc_seq c ! i" if "i \<notin> set idxs" for i
    using ar(3,4) that unfolding im by auto
  have idx_lt: "idxs ! j < cells_size c" "kc_pos c ! (idxs ! j) = -1" "kc_seq c ! (idxs ! j) = {}" if "j < ub_n_tokens u" for j
  proof -
    have "idxs ! j \<in> set idxs" using that assms(3) by simp
    then show "idxs ! j < cells_size c" "kc_pos c ! (idxs ! j) = -1" using assms(5) by (auto simp: cells_is_empty_def)
    then show "kc_seq c ! (idxs ! j) = {}" using kv_invD(2) [OF assms(1)] by auto
  qed
  have posn: "0 \<le> ub_pos u ! j" if "j < ub_n_tokens u" for j
    using assms(2) that by (auto simp: ubatch_ok_def)
  show "kc_used ?p = kc_used c \<union> set idxs"
  proof (intro set_eqI)
    fix i
    show "i \<in> kc_used ?p \<longleftrightarrow> i \<in> kc_used c \<union> set idxs"
    proof (cases "i \<in> set idxs")
      case True
      then obtain j where "j < ub_n_tokens u" "i = idxs ! j" using in_idxs by blast
      with True show ?thesis
        using at_in(1) [of j] idx_lt(1) [of j] posn [of j] by (simp add: used_iff [OF p(1)] p(2))
    next
      case False
      then show ?thesis using at_out(1) by (simp add: used_iff [OF p(1)] used_iff [OF assms(1)] p(2))
    qed
  qed
  show "seq_positions ?p q = seq_positions c q \<union> {ub_pos u ! j |j. j < ub_n_tokens u \<and> q \<in> set (token_ids u j)}"
  proof (intro set_eqI iffI)
    fix x assume "x \<in> seq_positions ?p q"
    then obtain i where i: "i < cells_size c" "q \<in> kc_seq ?p ! i" "x = kc_pos ?p ! i"
      by (auto simp: seq_positions_def p(2))
    show "x \<in> seq_positions c q \<union> {ub_pos u ! j |j. j < ub_n_tokens u \<and> q \<in> set (token_ids u j)}"
    proof (cases "i \<in> set idxs")
      case True
      then obtain j where "j < ub_n_tokens u" "i = idxs ! j" using in_idxs by blast
      with i at_in show ?thesis by auto
    next
      case False
      with i at_out show ?thesis by (auto simp: seq_positions_def)
    qed
  next
    fix x assume "x \<in> seq_positions c q \<union> {ub_pos u ! j |j. j < ub_n_tokens u \<and> q \<in> set (token_ids u j)}"
    then show "x \<in> seq_positions ?p q"
    proof
      assume "x \<in> seq_positions c q"
      then obtain i where i: "i < cells_size c" "q \<in> kc_seq c ! i" "x = kc_pos c ! i"
        by (auto simp: seq_positions_def)
      then have "i \<notin> set idxs" using in_idxs idx_lt(3) by fastforce
      with i at_out show ?thesis
        unfolding seq_positions_def p(2) by (intro CollectI exI [of _ i]) simp
    next
      assume "x \<in> {ub_pos u ! j |j. j < ub_n_tokens u \<and> q \<in> set (token_ids u j)}"
      then obtain j where j: "j < ub_n_tokens u" "q \<in> set (token_ids u j)" "x = ub_pos u ! j" by auto
      then show ?thesis
        unfolding seq_positions_def p(2) using at_in idx_lt(1) by (intro CollectI exI [of _ "idxs ! j"]) simp
    qed
  qed
qed

text \<open>
  C31. Storing a well-formed micro-batch of valid sequences in a cache of one stream without attention window: when
  \<open>find_slot\<close> finds a slot (contiguous or not), \<open>apply_ubatch\<close> succeeds, every token's
  position is now held by exactly the token's sequences, nothing that was in the cache is lost, the
  number of used cells grows by the number of tokens, and the cache stays well-formed.
\<close>

theorem apply_ubatch_stores:
  assumes "plain_kv kv" and "ubatch_fits kv u" and "find_slot kv u cont = Some sinfo" and "\<not> slot_empty sinfo"
  shows "\<exists>kv'. apply_ubatch kv sinfo u = Some kv' \<and> plain_kv kv' \<and> kv_get_size kv' = kv_get_size kv \<and>
    (\<forall>q. seq_positions (kv_v_cells kv' ! 0) q =
      seq_positions (kv_v_cells kv ! 0) q \<union> {ub_pos u ! j |j. j < ub_n_tokens u \<and> q \<in> set (token_ids u j)}) \<and>
    cells_get_used (kv_v_cells kv' ! 0) = cells_get_used (kv_v_cells kv ! 0) + ub_n_tokens u"
proof -
  let ?c = "kv_v_cells kv ! 0"
  obtain idxs where s: "sinfo = single_slot idxs" and i: "length idxs = ub_n_tokens u" "distinct idxs"
    "set idxs \<subseteq> {i. i < kv_get_size kv \<and> cells_is_empty ?c i}"
    using find_slot_plain [OF assms(1,2), of cont] assms(3,4) by (auto simp: slot_empty_def empty_slot_def)
  note pl = placed_plain [OF assms(1,2) i]
  note pc = plain_cells [OF assms(1)]
  have ok: "ubatch_ok u" using assms(2) by (simp add: ubatch_fits_def)
  have i': "set idxs \<subseteq> {i. i < cells_size ?c \<and> cells_is_empty ?c i}" using i(3) pc(4) by simp
  note pu = placed_used [OF pc(3) ok i(1,2) i']
  have "finite (kc_used ?c)" and "kc_used ?c \<inter> set idxs = {}"
    using i' used_iff [OF pc(3)] by (auto simp: cells_is_empty_def)
  then have "card (kc_used ?c \<union> set idxs) = card (kc_used ?c) + ub_n_tokens u"
    using i(1,2) by (simp add: card_Un_disjoint distinct_card)
  with pl pu show ?thesis
    unfolding s by (auto simp: cells_get_used_def)
qed

lemma demo_plain: "plain_kv demo_kv"
  by (simp add: plain_kv_def demo_kv_wf demo_kv_simps)

lemma demo_fits: "ubatch_fits demo_kv demo_ubatch"
  by (auto simp: ubatch_fits_def ubatch_ok_def demo_ubatch_def demo_kv_simps token_ids_def seq_ids_of_def
      LLAMA_MAX_SEQ_def less_Suc_eq numeral_3_eq_3)

lemma demo_slot: "map_option slot_empty (find_slot demo_kv demo_ubatch True) = Some False"
  by code_simp

theorem apply_ubatch_stores_witness:
  "\<exists>sinfo kv'. find_slot demo_kv demo_ubatch True = Some sinfo \<and> apply_ubatch demo_kv sinfo demo_ubatch = Some kv' \<and>
    plain_kv kv' \<and> cells_get_used (kv_v_cells kv' ! 0) = cells_get_used (kv_v_cells demo_kv ! 0) + 3"
proof -
  obtain sinfo where "find_slot demo_kv demo_ubatch True = Some sinfo" "\<not> slot_empty sinfo"
    using demo_slot by auto
  with apply_ubatch_stores [OF demo_plain demo_fits this] show ?thesis
    by (auto simp: demo_ubatch_def)
qed

section \<open>Preparing leaves the cache as it was\<close>

definition no_shift :: "kv_cache \<Rightarrow> bool" where
  "no_shift kv = (kc_shift (kv_v_cells kv ! 0) = replicate (kv_get_size kv) 0)"

lemma restore_placed:
  assumes "plain_kv kv" and "ubatch_fits kv u" and "length idxs = ub_n_tokens u" and "distinct idxs"
    and "set idxs \<subseteq> {i. i < kv_get_size kv \<and> cells_is_empty (kv_v_cells kv ! 0) i}" and "no_shift kv"
  defines "kv' \<equiv> kv\<lparr>kv_v_cells := [placed u idxs [0..<ub_n_tokens u] (kv_v_cells kv ! 0)], kv_v_heads := [last idxs + 1]\<rparr>"
  shows "restore_state \<lparr>ps_sinfo = single_slot idxs, ps_v_heads_old = kv_v_heads kv,
      ps_v_cells = [cells_cp (kv_v_cells kv ! 0) idxs]\<rparr> kv' = kv" and "no_shift kv'"
proof -
  let ?c = "kv_v_cells kv ! 0" and ?p = "placed u idxs [0..<ub_n_tokens u] (kv_v_cells kv ! 0)"
  note pc = plain_cells [OF assms(1)]
  have ok: "ubatch_ok u" using assms(2) by (simp add: ubatch_fits_def)
  have sub: "set idxs \<subseteq> {..<cells_size ?c}" using assms(5) pc(4) by auto
  have p: "kv_inv ?p" "cells_size ?p = cells_size ?c"
    using placed_inv [OF pc(3) ok sub assms(3) set_upt_lessThan] by blast+
  note ar = placed_arrays [OF pc(3) assms(4,3) sub le_refl, where u = u]
  have im: "(!) idxs ` {0..<ub_n_tokens u} = set idxs"
    using assms(3) by (metis list.set_map map_nth set_upt)
  have sh: "kc_shift ?p = replicate (kv_get_size kv) 0"
    using ar(6) assms(6) by (simp add: no_shift_def fold_update_replicate)
  have zero: "\<forall>i < cells_size ?c. cells_get_shift ?c i = 0 \<and> cells_get_shift ?p i = 0"
    using sh assms(6) pc(4) by (simp add: cells_get_shift_def no_shift_def)
  have out: "\<forall>i < cells_size ?c. i \<notin> set idxs \<longrightarrow> kc_pos ?p ! i = kc_pos ?c ! i \<and> kc_seq ?p ! i = kc_seq ?c ! i"
    using ar(3,4) unfolding im by blast
  have restored: "cells_set ?p idxs (cells_cp ?c idxs) = ?c"
    by (rule cells_set_cp_back [OF pc(3) p assms(4) sub zero out ar(5)])
  show "restore_state \<lparr>ps_sinfo = single_slot idxs, ps_v_heads_old = kv_v_heads kv,
      ps_v_cells = [cells_cp ?c idxs]\<rparr> kv' = kv"
    using restored pc(6,7) by (simp add: restore_state_def restore_stream_def single_slot_def slot_n_stream_def set_stream_def kv'_def)
  show "no_shift kv'"
    using sh placed_plain(3) [OF assms(1-5)] by (simp add: no_shift_def kv'_def)
qed

lemma prepare_place_plain:
  assumes "plain_kv kv" and "no_shift kv" and "\<forall>u\<in>set us. ubatch_fits kv u"
  shows "\<exists>ok kv' res' sts. prepare_place kv us res states = Some (ok, kv', res @ res', states @ sts) \<and>
    length res' = length sts \<and> length res' \<le> length us \<and> (ok \<longleftrightarrow> length res' = length us) \<and>
    fold restore_state (rev sts) kv' = kv"
  using assms
proof (induction us arbitrary: kv res states)
  case Nil
  show ?case
    by (intro exI [of _ True] exI [of _ kv] exI [of _ "[]"]) simp
next
  case (Cons u us)
  let ?cont = "if kv_supports_set_rows kv then False else True"
  have fu: "ubatch_fits kv u" using Cons.prems by simp
  from find_slot_plain [OF Cons.prems(1) fu, of ?cont] show ?case
  proof (elim disjE exE conjE)
    assume "find_slot kv u ?cont = Some empty_slot"
    then have "prepare_place kv (u # us) res states = Some (False, kv, res, states)"
      by (simp add: slot_empty_def empty_slot_def)
    then show ?thesis
      by (intro exI [of _ False] exI [of _ kv] exI [of _ "[]"]) simp
  next
    fix idxs
    assume f: "find_slot kv u ?cont = Some (single_slot idxs)" and i: "length idxs = ub_n_tokens u" "distinct idxs"
      "set idxs \<subseteq> {i. i < kv_get_size kv \<and> cells_is_empty (kv_v_cells kv ! 0) i}"
    let ?kv = "kv\<lparr>kv_v_cells := [placed u idxs [0..<ub_n_tokens u] (kv_v_cells kv ! 0)], kv_v_heads := [last idxs + 1]\<rparr>"
    let ?st = "\<lparr>ps_sinfo = single_slot idxs, ps_v_heads_old = kv_v_heads kv,
      ps_v_cells = [cells_cp (kv_v_cells kv ! 0) idxs]\<rparr>"
    note pl = placed_plain [OF Cons.prems(1) fu i]
    note rs = restore_placed [OF Cons.prems(1) fu i Cons.prems(2)]
    have fits: "\<forall>u\<in>set us. ubatch_fits ?kv u"
      using Cons.prems(3) pl(4) by (auto simp: ubatch_fits_def)
    have step: "prepare_place kv (u # us) res states = prepare_place ?kv us (res @ [single_slot idxs]) (states @ [?st])"
      using f pl(1) by (simp add: slot_empty_def single_slot_def slot_n_stream_def Let_def)
    from Cons.IH [OF pl(2) rs(2) fits, of "res @ [single_slot idxs]" "states @ [?st]"]
    obtain ok kv' res' sts where ih: "prepare_place ?kv us (res @ [single_slot idxs]) (states @ [?st]) =
        Some (ok, kv', (res @ [single_slot idxs]) @ res', (states @ [?st]) @ sts)"
      "length res' = length sts" "length res' \<le> length us" "ok \<longleftrightarrow> length res' = length us"
      "fold restore_state (rev sts) kv' = ?kv" by blast
    show ?thesis
      unfolding step ih(1) using ih(2-5) rs(1)
      by (intro exI [of _ ok] exI [of _ kv'] exI [of _ "single_slot idxs # res'"] exI [of _ "?st # sts"]) simp
  qed
qed

text \<open>
  C30. \<open>prepare\<close> on a cache of one stream without attention window and without pending shifts, for
  well-formed micro-batches of valid sequences: it never aborts, it returns one slot per micro-batch or none at all, and it leaves the cache,
  heads included, exactly as it was, however many micro-batches it had placed before it failed.
\<close>

theorem prepare_restores:
  assumes "plain_kv kv" and "no_shift kv" and "\<forall>u\<in>set us. ubatch_fits kv u" and "us \<noteq> []"
  shows "\<exists>sinfos. kv_prepare kv us = Some (sinfos, kv) \<and> (sinfos = [] \<or> length sinfos = length us)"
proof -
  obtain ok kv' res' sts where p: "prepare_place kv us [] [] = Some (ok, kv', [] @ res', [] @ sts)"
    "length res' = length sts" "length res' \<le> length us" "ok \<longleftrightarrow> length res' = length us"
    "fold restore_state (rev sts) kv' = kv"
    using prepare_place_plain [OF assms(1-3), of "[]" "[]"] by blast
  then have "sts \<noteq> [] \<or> \<not> ok"
    using assms(4) by auto
  with p show ?thesis
    by (auto simp: kv_prepare_def)
qed

theorem prepare_restores_witness:
  "\<exists>sinfos. kv_prepare demo_kv [demo_ubatch] = Some (sinfos, demo_kv)"
proof -
  have "no_shift demo_kv"
    by (simp add: no_shift_def demo_kv_simps) (simp add: cells_resize_def cells_reset_def resize_with_def new_cells_def)
  with prepare_restores [OF demo_plain, of "[demo_ubatch]"] demo_fits show ?thesis by auto
qed

text \<open>A cache of two streams, one per sequence, with different heads, and one token of sequence 1.\<close>

definition two_streams_kv :: kv_cache where
  "two_streams_kv = (the (new_kv_cache False 4 2 1 0 LLAMA_SWA_TYPE_NONE True))\<lparr>kv_v_heads := [3, 1]\<rparr>"

definition seq1_ubatch :: llama_ubatch where
  "seq1_ubatch = \<lparr>ub_equal_seqs = True, ub_n_tokens = 1, ub_n_seq_tokens = 1, ub_n_seqs = 1, ub_n_seqs_unq = 1,
     ub_token = Some [5], ub_embd = None, ub_pos = [0], ub_n_seq_id = [1], ub_seq_id = [[1]],
     ub_seq_id_unq = [1], ub_seq_idx = [-1, 0], ub_output = [1]\<rparr>"

text \<open>
  With several streams \<open>prepare\<close> does not restore the heads: it assigns entry \<open>s\<close>
  of the saved heads to stream \<open>strm[s]\<close>. A micro-batch of sequence 1 alone leaves stream 1
  with the head of stream 0.
\<close>

theorem prepare_restores_wrong_head:
  "\<exists>sinfos kv'. kv_prepare two_streams_kv [seq1_ubatch] = Some (sinfos, kv') \<and> sinfos \<noteq> [] \<and>
    kv_v_heads two_streams_kv = [3, 1] \<and> kv_v_heads kv' = [3, 3]"
proof -
  have "map_option (\<lambda>(sinfos, kv). (sinfos = [], kv_v_heads kv)) (kv_prepare two_streams_kv [seq1_ubatch]) =
    Some (False, [3, 3])"
    by code_simp
  then show ?thesis
    by (auto simp: two_streams_kv_def)
qed



section \<open>Bounds of the attended cells\<close>

lemma GGML_PAD_word:
  fixes n :: nat
  assumes "k < 32" and "n + 2 ^ k \<le> 2 ^ 32"
  shows "n \<le> unat (GGML_PAD (word_of_nat n :: uint32) (2 ^ k))"
    and "unat (GGML_PAD (word_of_nat n :: uint32) (2 ^ k)) < n + 2 ^ k"
proof -
  have p: "(1::nat) \<le> 2 ^ k" by simp
  note e = GGML_PAD_unat32 [OF assms]
  have m: "n + 2 ^ k - 1 = (n + 2 ^ k - 1) div 2 ^ k * 2 ^ k + (n + 2 ^ k - 1) mod 2 ^ k"
    "(n + 2 ^ k - 1) mod 2 ^ k < 2 ^ k" by (simp_all only: div_mult_mod_eq) simp
  show "n \<le> unat (GGML_PAD (word_of_nat n :: uint32) (2 ^ k))"
    "unat (GGML_PAD (word_of_nat n :: uint32) (2 ^ k)) < n + 2 ^ k"
    using m p unfolding e by linarith+
qed

lemma used_max_le: "kv_inv c \<Longrightarrow> cells_used_max_p1 c \<le> cells_size c"
  by (auto simp: cells_used_max_p1_def used_iff Suc_le_eq)

lemma fold_max_ge: "r \<le> fold (\<lambda>s r. max (f s) r) xs (r :: uint32)"
  by (induction xs arbitrary: r) (auto intro: order_trans [OF max.cobounded2])

lemma fold_max_member: "s \<in> set xs \<Longrightarrow> f s \<le> fold (\<lambda>s r. max (f s) r) xs (r :: uint32)"
proof (induction xs arbitrary: r)
  case (Cons x xs)
  show ?case
  proof (cases "s \<in> set xs")
    case True
    with Cons show ?thesis by simp
  next
    case False
    with Cons.prems have "s = x" by simp
    then show ?thesis
      using fold_max_ge [of "max (f x) r" f xs] by simp
  qed
qed simp

lemma fold_max_le:
  "r \<le> b \<Longrightarrow> \<forall>s\<in>set xs. f s \<le> b \<Longrightarrow> fold (\<lambda>s r. max (f s) r) xs (r :: uint32) \<le> b"
  by (induction xs arbitrary: r) auto

text \<open>
  \<open>get_n_kv\<close>, the number of cells the attention looks at, with a padding that is a power
  of two and sizes that fit 32 bits with it: it covers every used cell of every stream and never
  exceeds the size of the cache.
\<close>

theorem n_kv_covers_used:
  assumes "kv_wf kv" and "kv_n_pad kv = 2 ^ k" and "k < 32" and "kv_get_size kv + 2 ^ k \<le> 2 ^ 32"
  shows "(\<forall>s < kv_n_stream kv. \<forall>i < kv_get_size kv. \<not> cells_is_empty (kv_v_cells kv ! s) i \<longrightarrow>
      i < unat (kv_get_n_kv kv)) \<and> unat (kv_get_n_kv kv) \<le> kv_get_size kv"
proof -
  let ?sz = "kv_get_size kv"
  define f where "f s = min (word_of_nat (cells_size (kv_v_cells kv ! s)))
    (max (kv_n_pad kv) (GGML_PAD (word_of_nat (cells_used_max_p1 (kv_v_cells kv ! s))) (kv_n_pad kv)))" for s
  have n: "kv_get_n_kv kv = fold (\<lambda>s r. max (f s) r) [0..<kv_n_stream kv] 0"
    by (simp add: kv_get_n_kv_def f_def)
  have szl: "unat (word_of_nat ?sz :: uint32) = ?sz"
  proof -
    have "(0::nat) < 2 ^ k" by simp
    with assms(4) have "?sz < 2 ^ 32" by linarith
    then show ?thesis by (simp add: unat_of_nat)
  qed
  have fs: "cells_used_max_p1 (kv_v_cells kv ! s) \<le> unat (f s)" "f s \<le> word_of_nat ?sz" if "s < kv_n_stream kv" for s
  proof -
    note w = kv_wf_cells [OF assms(1) that]
    let ?u = "cells_used_max_p1 (kv_v_cells kv ! s)"
    have u: "?u \<le> ?sz" using used_max_le [OF w(1)] w(2) by simp
    then have "?u + 2 ^ k \<le> 2 ^ 32" using assms(4) by linarith
    from GGML_PAD_word(1) [OF assms(3) this]
    have "?u \<le> unat (max (kv_n_pad kv) (GGML_PAD (word_of_nat ?u) (kv_n_pad kv)))"
      unfolding assms(2) by (auto simp: max_def word_le_nat_alt)
    with u szl show "?u \<le> unat (f s)"
      unfolding f_def w(2) by (auto simp: min_def)
    show "f s \<le> word_of_nat ?sz"
      unfolding f_def w(2) by simp
  qed
  have "i < unat (kv_get_n_kv kv)" if s: "s < kv_n_stream kv" and i: "i < ?sz" "\<not> cells_is_empty (kv_v_cells kv ! s) i" for s i
  proof -
    note w = kv_wf_cells [OF assms(1) s]
    have "i \<in> kc_used (kv_v_cells kv ! s)" and fin: "finite (kc_used (kv_v_cells kv ! s))"
      using i w(2) by (simp_all add: used_iff [OF w(1)] cells_is_empty_def)
    then have "i < cells_used_max_p1 (kv_v_cells kv ! s)"
      by (auto simp: cells_used_max_p1_def less_Suc_eq_le)
    also have "\<dots> \<le> unat (f s)" using fs(1) [OF s] .
    also have "\<dots> \<le> unat (kv_get_n_kv kv)"
      using s unfolding n word_le_nat_alt [symmetric] by (intro fold_max_member) simp
    finally show ?thesis .
  qed
  moreover have "kv_get_n_kv kv \<le> word_of_nat ?sz"
    unfolding n by (rule fold_max_le) (use fs(2) in auto)
  then have "unat (kv_get_n_kv kv) \<le> ?sz"
    using szl by (simp add: word_le_nat_alt)
  ultimately show ?thesis by blast
qed

theorem n_kv_covers_used_witness:
  "unat (kv_get_n_kv demo_kv) \<le> 32"
  using n_kv_covers_used [OF demo_kv_wf, of 5]
  by (simp add: demo_kv_simps) (simp add: demo_kv_def new_kv_cache_def)

section \<open>The attention mask\<close>

lemma fold_product:
  "fold (\<lambda>s d. fold (F s) (ys s) d) xs d = fold (\<lambda>(s, i). F s i) (concat (map (\<lambda>s. map (Pair s) (ys s)) xs)) d"
  by (induction xs arbitrary: d) (simp_all add: fold_map comp_def)

lemma fold_write_length [simp]:
  "length (fold (\<lambda>x d. case f x of None \<Rightarrow> d | Some v \<Rightarrow> d[g x := v]) xs d) = length d"
  by (induction xs arbitrary: d) (auto split: option.splits)

lemma fold_write_other:
  "i \<notin> g ` set xs \<Longrightarrow> fold (\<lambda>x d. case f x of None \<Rightarrow> d | Some v \<Rightarrow> d[g x := v]) xs d ! i = d ! i"
  by (induction xs arbitrary: d) (auto split: option.splits)

lemma fold_write:
  "inj_on g (set xs) \<Longrightarrow> distinct xs \<Longrightarrow> x \<in> set xs \<Longrightarrow> g x < length d \<Longrightarrow>
   fold (\<lambda>x d. case f x of None \<Rightarrow> d | Some v \<Rightarrow> d[g x := v]) xs d ! g x =
     (case f x of None \<Rightarrow> d ! g x | Some v \<Rightarrow> v)"
proof (induction xs arbitrary: d)
  case (Cons y xs)
  show ?case
  proof (cases "x = y")
    case True
    have "g y \<notin> g ` set xs"
      using Cons.prems(1,2) by (auto simp: inj_on_def)
    with True Cons.prems(4) show ?thesis by (auto simp: fold_write_other split: option.splits)
  next
    case False
    have "g x \<noteq> g y"
      using False Cons.prems(1,3) by (auto simp: inj_on_def)
    with False Cons.prems show ?thesis
      by (subst fold_simps(2), subst Cons.IH) (auto split: option.splits)
  qed
qed simp



lemma fold_product3:
  "fold (\<lambda>s d. fold (\<lambda>i d. fold (G s i) js d) is d) ss d =
   fold (\<lambda>(s, i, j). G s i j)
     (concat (map (\<lambda>s. map (Pair s) (concat (map (\<lambda>i. map (Pair i) js) is))) ss)) d"
  unfolding fold_product by (simp add: fold_product case_prod_unfold)

lemma distinct_product: "distinct xs \<Longrightarrow> distinct ys \<Longrightarrow> distinct (concat (map (\<lambda>x. map (Pair x) ys) xs))"
  by (induction xs) (auto simp: distinct_map inj_on_def)

lemma mask_index_inj:
  fixes n_kv pad :: nat
  assumes pad: "n_tps \<le> pad"
  shows "inj_on (\<lambda>x. n_kv * (fst x * pad + fst (snd x)) + snd (snd x))
    ({0..<n_stream} \<times> {0..<n_tps} \<times> {0..<n_kv})"
proof (rule inj_onI, clarsimp)
  fix s i j s' i' j'
  assume lt: "i < n_tps" "j < n_kv" "i' < n_tps" "j' < n_kv"
    and eq: "n_kv * (s * pad + i) + j = n_kv * (s' * pad + i') + j'"
  have "(n_kv * (s * pad + i) + j) mod n_kv = j" "(n_kv * (s' * pad + i') + j') mod n_kv = j'"
    "(n_kv * (s * pad + i) + j) div n_kv = s * pad + i" "(n_kv * (s' * pad + i') + j') div n_kv = s' * pad + i'"
    using lt by simp_all
  with eq have j: "j = j'" and si: "s * pad + i = s' * pad + i'" by metis+
  have "(s * pad + i) mod pad = i" "(s' * pad + i') mod pad = i'" "(s * pad + i) div pad = s" "(s' * pad + i') div pad = s'"
    using lt pad by simp_all
  with si j show "s = s' \<and> i = i' \<and> j = j'" by metis
qed

text \<open>
  C32. The attention mask: for token \<open>ii\<close> of stream \<open>s\<close> and cell \<open>j\<close> the entry is
  open exactly when the cell is in use, holds the token's sequence, does not lie in the token's future
  (causal attention) and has not left its window; an open entry is 0, or minus the distance with ALiBi,
  every other one is minus infinity.
\<close>

theorem kq_mask_entry:
  assumes "ub_n_tokens u = n_stream * n_tps" and "0 < n_stream"
    and "pad = nat (GGML_PAD (int n_tps) GGML_KQ_MASK_PAD)" and "length data = n_kv * (pad * n_stream)"
  shows "\<exists>mask. set_input_kq_mask kv use_alibi u causal n_kv n_stream data = Some mask \<and>
    length mask = length data \<and>
    (\<forall>s < n_stream. \<forall>ii < n_tps. \<forall>j < n_kv.
      let i = s * n_tps + ii; q = ub_seq_id u ! i ! 0; cells = kv_v_cells kv ! stream_of kv q;
          p0 = kc_pos cells ! j; p1 = ub_pos u ! i
      in mask ! (n_kv * (s * pad + ii) + j) =
        (if \<not> cells_is_empty cells j \<and> cells_seq_has cells j (nat q) \<and> (causal \<longrightarrow> p0 \<le> p1) \<and>
            \<not> is_masked_swa kv p0 p1
         then Bias (if use_alibi then - \<bar>p0 - p1\<bar> else 0) else NegInfinity))"
proof -
  define L where "L = concat (map (\<lambda>s. map (Pair s) (concat (map (\<lambda>i. map (Pair i) [0..<n_kv]) [0..<n_tps]))) [0..<n_stream])"
  define f where "f = (\<lambda>(s, ii, j). mask_cell kv use_alibi causal
    (kv_v_cells kv ! stream_of kv (ub_seq_id u ! (s * n_tps + ii) ! 0)) (ub_seq_id u ! (s * n_tps + ii) ! 0)
    (ub_pos u ! (s * n_tps + ii)) j)"
  define g where "g = (\<lambda>x. n_kv * (fst x * pad + fst (snd x)) + snd (snd x))"
  define mask where "mask = fold (\<lambda>x d. case f x of None \<Rightarrow> d | Some v \<Rightarrow> d[g x := v]) L (map (\<lambda>_. NegInfinity) data)"
  have n_tps: "ub_n_tokens u div n_stream = n_tps" "ub_n_tokens u mod n_stream = 0"
    using assms(1,2) by simp_all
  have pad: "n_tps \<le> pad"
    using GGML_PAD_int(1) [of "int n_tps" 6] unfolding assms(3) GGML_KQ_MASK_PAD_def by (simp add: nat_le_eq_zle)
  have eq: "set_input_kq_mask kv use_alibi u causal n_kv n_stream data = Some mask"
    unfolding set_input_kq_mask_def n_tps Let_def assms(3) [symmetric] fold_product3 mask_def L_def f_def g_def
    by (simp add: case_prod_unfold)
  have set_L: "set L = {0..<n_stream} \<times> {0..<n_tps} \<times> {0..<n_kv}"
    by (auto simp: L_def)
  have dist: "distinct L"
    unfolding L_def by (intro distinct_product) simp_all
  have inj: "inj_on g (set L)"
    unfolding set_L g_def using mask_index_inj [OF pad] .
  have at: "mask ! (n_kv * (s * pad + ii) + j) = (case f (s, ii, j) of None \<Rightarrow> NegInfinity | Some v \<Rightarrow> v)"
    if "s < n_stream" "ii < n_tps" "j < n_kv" for s ii j
  proof -
    have "s * pad + ii < pad * n_stream"
    proof -
      have "s * pad + ii < Suc s * pad" using that(2) pad by simp
      also have "\<dots> \<le> n_stream * pad" using that(1) by (intro mult_le_mono1) simp
      finally show ?thesis by (simp add: mult.commute)
    qed
    then have "Suc (s * pad + ii) \<le> pad * n_stream" by simp
    then have "n_kv * Suc (s * pad + ii) \<le> n_kv * (pad * n_stream)" by (rule mult_le_mono2)
    then have lt: "g (s, ii, j) < length data"
      using that(3) assms(4) by (simp add: g_def)
    have "(s, ii, j) \<in> set L" using that set_L by simp
    moreover have "map (\<lambda>_. NegInfinity) data ! g (s, ii, j) = NegInfinity"
      using lt by (rule nth_map)
    ultimately have "mask ! g (s, ii, j) = (case f (s, ii, j) of None \<Rightarrow> NegInfinity | Some v \<Rightarrow> v)"
      using fold_write [OF inj dist, of "(s, ii, j)" "map (\<lambda>_. NegInfinity) data" f] lt
      unfolding mask_def by (cases "f (s, ii, j)") simp_all
    then show ?thesis by (simp add: g_def)
  qed
  show ?thesis
    unfolding eq Let_def
    by (intro exI [of _ mask] conjI refl)
      (auto simp: mask_def [THEN arg_cong [where f = length]] at f_def mask_cell_def cells_pos_get_def Let_def)
qed

theorem kq_mask_entry_witness:
  "\<exists>mask. set_input_kq_mask demo_kv False demo_ubatch True 4 1 (replicate (4 * 64) NegInfinity) = Some mask \<and>
    length mask = 256"
proof -
  have "nat (GGML_PAD (int 3) GGML_KQ_MASK_PAD) = 64"
    by (simp add: GGML_PAD_def GGML_KQ_MASK_PAD_def)
  with kq_mask_entry [of demo_ubatch 1 3 64 "replicate (4 * 64) NegInfinity" 4 demo_kv False True] show ?thesis
    by (auto simp: demo_ubatch_def)
qed


end
