(* ===== verification/Llama_Context.thy ===== *)
theory Llama_Context
  imports Complex_Main KV_Cache
begin

text \<open>
  The inference context, \<open>llama.cpp/src/llama-context.cpp\<close>: its construction for a model
  whose memory is the plain KV cache (\<open>llama_model::create_memory\<close>), the pending updates of
  the memory, \<open>decode\<close> with its retry, its return codes and its clean-up, and the output rows.

  The device is a parameter: it computes graphs on a state of its own (the tensors of the cache
  included), may fail, and returns one row of logits per output. Embeddings, encoders, adapters,
  graph building and timing are not modelled.
\<close>

section \<open>Parameters\<close>

record hparams =
  hp_n_ctx_train :: uint32
  hp_causal_attn :: bool
  hp_n_embd :: nat
  hp_n_layer :: uint32
  hp_rope :: bool
  hp_n_swa :: nat
  hp_swa_type :: llama_swa_type
  hp_n_pos_per_embd :: nat
  hp_n_vocab :: nat
  hp_n_tensors :: uint32

datatype attention_type = ATTENTION_UNSPECIFIED | ATTENTION_CAUSAL | ATTENTION_NON_CAUSAL

record context_params =
  pr_n_ctx :: uint32
  pr_n_batch :: uint32
  pr_n_ubatch :: uint32
  pr_n_seq_max :: uint32
  pr_attention_type :: attention_type
  pr_defrag_thold :: rat
  pr_embeddings :: bool
  pr_flash_attn :: bool
  pr_kv_unified :: bool

definition llama_context_default_params :: context_params where
  "llama_context_default_params = \<lparr>pr_n_ctx = 512, pr_n_batch = 2048, pr_n_ubatch = 512, pr_n_seq_max = 1,
     pr_attention_type = ATTENTION_UNSPECIFIED, pr_defrag_thold = -1, pr_embeddings = False,
     pr_flash_attn = False, pr_kv_unified = False\<rparr>"

record cparams =
  cp_n_ctx :: uint32
  cp_n_batch :: uint32
  cp_n_ubatch :: uint32
  cp_n_seq_max :: uint32
  cp_defrag_thold :: rat
  cp_embeddings :: bool
  cp_causal_attn :: bool
  cp_flash_attn :: bool
  cp_kv_unified :: bool

text \<open>
  The context. An output buffer is a list of rows; a row is \<open>None\<close> until it is written, and an
  empty list is a buffer that was never allocated.
\<close>

record ('g, 'r) lctx =
  cx_cparams :: cparams
  cx_hparams :: hparams
  cx_balloc :: balloc
  cx_kv :: kv_cache
  cx_dev :: 'g
  cx_memory_force_optimize :: bool
  cx_n_queued_tokens :: nat
  cx_n_outputs :: nat
  cx_output_ids :: "int list"
  cx_output_swaps :: "(nat \<times> nat) list"
  cx_logits :: "'r option list"

text \<open>Failures of \<open>ggml_status\<close>, and what the device does.\<close>

datatype ggml_failure = GGML_STATUS_ALLOC_FAILED | GGML_STATUS_FAILED | GGML_STATUS_ABORTED

record ('g, 'r) device =
  dv_compute :: "'g \<Rightarrow> kv_cache \<Rightarrow> slot_info \<Rightarrow> llama_ubatch \<Rightarrow> (ggml_failure + 'r list) \<times> 'g"
  dv_alloc_output :: "'g \<Rightarrow> nat \<Rightarrow> bool"
  dv_copy_streams :: "'g \<Rightarrow> (nat \<times> nat) list \<Rightarrow> 'g"
  dv_shift :: "'g \<Rightarrow> kv_cache \<Rightarrow> bool \<times> 'g"
  dv_defrag :: "'g \<Rightarrow> kv_cache \<Rightarrow> nat list \<Rightarrow> bool \<times> 'g"

section \<open>Construction\<close>

text \<open>\<open>create_memory\<close> for a model with the plain KV cache: the cache and the padded context.\<close>

definition create_memory :: "hparams \<Rightarrow> cparams \<Rightarrow> bool \<Rightarrow> (kv_cache \<times> cparams) option" where
  "create_memory hp cp set_rows =
     (let padding = get_padding (cp_flash_attn cp);
          n_ctx_per_stream = cp_n_ctx cp;
          n_ctx_per_stream = (if \<not> cp_kv_unified cp
            then GGML_PAD ((cp_n_ctx cp + cp_n_seq_max cp - 1) div cp_n_seq_max cp) padding
            else GGML_PAD n_ctx_per_stream padding);
          cp = cp\<lparr>cp_n_ctx := (if \<not> cp_kv_unified cp then n_ctx_per_stream * cp_n_seq_max cp else n_ctx_per_stream)\<rparr>
      in Option.bind (new_kv_cache (cp_kv_unified cp) (unat n_ctx_per_stream) (unat (cp_n_seq_max cp)) padding
           (hp_n_swa hp) (hp_swa_type hp) set_rows) (\<lambda>kv. Some (kv, cp)))"

definition context_cparams :: "hparams \<Rightarrow> context_params \<Rightarrow> bool \<Rightarrow> cparams" where
  "context_cparams hp params set_rows =
     (let n_ctx = (if pr_n_ctx params = 0 then hp_n_ctx_train hp else pr_n_ctx params);
          causal = (if pr_attention_type params = ATTENTION_UNSPECIFIED then hp_causal_attn hp
            else pr_attention_type params = ATTENTION_CAUSAL);
          n_batch = (if causal then min n_ctx (pr_n_batch params) else pr_n_batch params);
          n_batch = (if n_batch < 64 then 64 else n_batch);
          n_ubatch = min n_batch (if pr_n_ubatch params = 0 then pr_n_batch params else pr_n_ubatch params);
          kv_unified = (if \<not> set_rows \<and> \<not> pr_kv_unified params then True else pr_kv_unified params)
      in \<lparr>cp_n_ctx = n_ctx, cp_n_batch = n_batch, cp_n_ubatch = n_ubatch,
          cp_n_seq_max = max 1 (pr_n_seq_max params), cp_defrag_thold = pr_defrag_thold params,
          cp_embeddings = pr_embeddings params, cp_causal_attn = causal,
          cp_flash_attn = pr_flash_attn params, cp_kv_unified = kv_unified\<rparr>)"

text \<open>
  \<open>output_reserve\<close>: the number of rows, 0 when the buffer could not be allocated.
\<close>

definition output_reserve :: "('g, 'r) device \<Rightarrow> nat \<Rightarrow> ('g, 'r) lctx \<Rightarrow> nat \<times> ('g, 'r) lctx" where
  "output_reserve dv n_outputs cx =
     (let n_outputs_max = max n_outputs (unat (cp_n_seq_max (cx_cparams cx)));
          cx = (if cx_output_ids cx = [] then cx\<lparr>cx_output_ids := replicate (unat (cp_n_batch (cx_cparams cx))) 0\<rparr> else cx)
      in if length (cx_logits cx) < n_outputs_max \<and> \<not> dv_alloc_output dv (cx_dev cx) n_outputs_max
         then (0, cx\<lparr>cx_logits := []\<rparr>)
         else
           (let cx = (if length (cx_logits cx) < n_outputs_max
                  then cx\<lparr>cx_logits := replicate n_outputs_max None\<rparr> else cx)
            in (n_outputs_max, cx\<lparr>cx_output_ids := map (\<lambda>_. -1) (cx_output_ids cx), cx_n_outputs := 0\<rparr>)))"

text \<open>The constructor; \<open>None\<close> is an exception, a null pointer or a failed assertion.\<close>

definition llama_init_from_model ::
    "('g, 'r) device \<Rightarrow> 'g \<Rightarrow> hparams \<Rightarrow> context_params \<Rightarrow> bool \<Rightarrow> ('g, 'r) lctx option" where
  "llama_init_from_model dv g hp params set_rows =
     (if pr_n_batch params = 0 \<and> pr_n_ubatch params = 0 then None
      else if pr_n_ctx params = 0 \<and> hp_n_ctx_train hp = 0 then None
      else
        let cp = context_cparams hp params set_rows in
        if unat (cp_n_seq_max cp) > LLAMA_MAX_SEQ then None
        else Option.bind (create_memory hp cp set_rows) (\<lambda>(kv, cp).
          let cx = \<lparr>cx_cparams = cp, cx_hparams = hp, cx_balloc = new_balloc (hp_n_pos_per_embd hp),
                cx_kv = kv, cx_dev = g, cx_memory_force_optimize = False, cx_n_queued_tokens = 0,
                cx_n_outputs = 0, cx_output_ids = [], cx_output_swaps = [], cx_logits = []\<rparr>;
              (rows, cx) = output_reserve dv (unat (pr_n_seq_max params)) cx
          in if rows < unat (pr_n_seq_max params) then None else Some cx))"

section \<open>Updates of the memory\<close>

datatype memory_status =
    LLAMA_MEMORY_STATUS_SUCCESS
  | LLAMA_MEMORY_STATUS_NO_UPDATE
  | LLAMA_MEMORY_STATUS_FAILED_PREPARE
  | LLAMA_MEMORY_STATUS_FAILED_COMPUTE

text \<open>
  \<open>llama_kv_cache_unified_context\<close> for an update: the status, the pending shift, the moves
  and the stream copies.
\<close>

record update_context =
  uc_status :: memory_status
  uc_do_shift :: bool
  uc_ids :: "nat list"
  uc_sc_info :: "(nat \<times> nat) list"

definition new_update_context :: "bool \<Rightarrow> nat list \<Rightarrow> (nat \<times> nat) list \<Rightarrow> update_context" where
  "new_update_context do_shift ids sc_info =
     \<lparr>uc_status = (if \<not> do_shift \<and> ids = [] \<and> sc_info = [] then LLAMA_MEMORY_STATUS_NO_UPDATE
        else LLAMA_MEMORY_STATUS_SUCCESS),
      uc_do_shift = do_shift, uc_ids = ids, uc_sc_info = sc_info\<rparr>"

definition graph_max_nodes :: "('g, 'r) lctx \<Rightarrow> uint32" where
  "graph_max_nodes cx = max 1024 (8 * hp_n_tensors (cx_hparams cx))"

text \<open>
  \<open>init_update\<close>: the threshold is compared with an exact quotient, the code rounds it to
  \<open>float\<close>. The pending copies are moved out of the cache.
\<close>

definition do_defrag :: "kv_cache \<Rightarrow> bool \<Rightarrow> rat \<Rightarrow> bool" where
  "do_defrag kv optimize thold =
     (let cells = kv_v_cells kv ! (kv_seq_to_stream kv ! 0);
          n_kv = cells_used_max_p1 cells;
          fragmentation = (if 2048 \<le> n_kv
            then max 0 (1 - of_int (uint (word_of_nat (cells_get_used cells) + kv_n_pad kv)) / of_nat n_kv) else 0)
      in optimize \<or> (0 < thold \<and> thold < fragmentation))"

definition init_update :: "('g, 'r) lctx \<Rightarrow> bool \<Rightarrow> (update_context \<times> kv_cache) option" where
  "init_update cx optimize =
     (let kv = cx_kv cx;
          do_shift = kv_get_has_shift kv
      in Option.bind
           (if kv_n_stream kv = 1 \<and> do_defrag kv optimize (cp_defrag_thold (cx_cparams cx))
            then defrag_prepare kv (hp_n_layer (cx_hparams cx)) (sint (graph_max_nodes cx))
            else Some [])
           (\<lambda>ids. Some (new_update_context do_shift ids (kv_sc_info kv), kv\<lparr>kv_sc_info := []\<rparr>)))"

text \<open>\<open>apply\<close> of an update: copies between streams, the shift, the moves.\<close>

definition apply_update :: "('g, 'r) device \<Rightarrow> update_context \<Rightarrow> ('g, 'r) lctx \<Rightarrow> ('g, 'r) lctx" where
  "apply_update dv uc cx =
     (let g = (if uc_sc_info uc = [] then cx_dev cx else dv_copy_streams dv (cx_dev cx) (uc_sc_info uc));
          rope = hp_rope (cx_hparams cx);
          (shift_ok, g) = (if uc_do_shift uc \<and> rope then dv_shift dv g (cx_kv cx) else (True, g));
          (defrag_ok, g) = (if shift_ok \<and> uc_ids uc \<noteq> [] then dv_defrag dv g (cx_kv cx) (uc_ids uc) else (True, g));
          (_, kv) = kv_update (cx_kv cx) (uc_do_shift uc) (uc_ids uc) rope shift_ok defrag_ok
      in cx\<lparr>cx_kv := kv, cx_dev := g\<rparr>)"

text \<open>
  \<open>kv_self_update\<close>. The result of \<open>apply\<close> is true and is not used; the worst-case
  graph that is reserved afterwards leaves the modelled state alone.
\<close>

definition kv_self_update :: "('g, 'r) device \<Rightarrow> bool \<Rightarrow> ('g, 'r) lctx \<Rightarrow> (bool \<times> ('g, 'r) lctx) option" where
  "kv_self_update dv optimize cx =
     (let optimize = (optimize \<or> cx_memory_force_optimize cx);
          cx = cx\<lparr>cx_memory_force_optimize := False\<rparr>
      in Option.bind (init_update cx optimize) (\<lambda>(uc, kv).
           let cx = cx\<lparr>cx_kv := kv\<rparr> in
           if uc_status uc = LLAMA_MEMORY_STATUS_NO_UPDATE then Some (False, cx)
           else Some (True, apply_update dv uc cx)))"

definition kv_self_defrag_sched :: "('g, 'r) lctx \<Rightarrow> ('g, 'r) lctx" where
  "kv_self_defrag_sched cx = cx\<lparr>cx_memory_force_optimize := True\<rparr>"

section \<open>Decoding\<close>

text \<open>Count the outputs of a micro-batch.\<close>

definition ubatch_outputs :: "nat \<Rightarrow> nat \<Rightarrow> llama_ubatch \<Rightarrow> nat" where
  "ubatch_outputs n_outputs_all n_tokens_all u =
     (if n_outputs_all = n_tokens_all then ub_n_tokens u
      else length (filter (\<lambda>i. ub_output u ! i \<noteq> 0) [0..<ub_n_tokens u]))"

text \<open>
  A micro-batch that failed: the least position of each of its sequences, and the removal of
  everything from there on.
\<close>

definition failed_pos_min :: "llama_ubatch \<Rightarrow> nat \<Rightarrow> llama_pos" where
  "failed_pos_min u =
     fold (\<lambda>i pos_min. let seq_id = nat (ub_seq_id u ! i ! 0)
        in pos_min(seq_id := min (pos_min seq_id) (ub_pos u ! i))) [0..<ub_n_tokens u] (\<lambda>_. POS_MAX)"

definition remove_failed :: "llama_ubatch \<Rightarrow> kv_cache \<Rightarrow> kv_cache option" where
  "remove_failed u kv =
     fold (\<lambda>s r. if failed_pos_min u s = POS_MAX then r
         else Option.bind r (\<lambda>kv. kv_seq_rm kv (int s) (failed_pos_min u s) (-1)))
       [0..<LLAMA_MAX_SEQ] (Some kv)"

fun failure_code :: "ggml_failure \<Rightarrow> int" where
  "failure_code GGML_STATUS_ABORTED = 2"
| "failure_code GGML_STATUS_ALLOC_FAILED = -2"
| "failure_code GGML_STATUS_FAILED = -3"

text \<open>\<open>process_ubatch\<close>: apply the memory context, compute.\<close>

definition process_ubatch :: "('g, 'r) device \<Rightarrow> slot_info \<Rightarrow> llama_ubatch \<Rightarrow> ('g, 'r) lctx \<Rightarrow>
    ((ggml_failure + 'r list) \<times> ('g, 'r) lctx) option" where
  "process_ubatch dv sinfo u cx =
     Option.bind (apply_ubatch (cx_kv cx) sinfo u) (\<lambda>kv.
       let (res, g) = dv_compute dv (cx_dev cx) kv sinfo u
       in Some (res, cx\<lparr>cx_kv := kv, cx_dev := g\<rparr>))"

text \<open>Copy the rows of a micro-batch behind those already extracted.\<close>

definition extract_logits :: "nat \<Rightarrow> nat \<Rightarrow> 'r list \<Rightarrow> 'r option list \<Rightarrow> 'r option list" where
  "extract_logits n_outputs_prev n_outputs rows logits =
     fold (\<lambda>k logits. logits[n_outputs_prev + k := Some (rows ! k)]) [0..<n_outputs] logits"

text \<open>
  The loop over the micro-batches: 0 when all were processed, else the code of the failure;
  \<open>None\<close> is a failed assertion.
\<close>

fun run_ubatches :: "('g, 'r) device \<Rightarrow> nat \<Rightarrow> nat \<Rightarrow> nat \<Rightarrow> (slot_info \<times> llama_ubatch) list \<Rightarrow>
    ('g, 'r) lctx \<Rightarrow> (int \<times> ('g, 'r) lctx) option" where
  "run_ubatches dv n_outputs_all n_tokens_all n_outputs_prev [] cx = Some (0, cx)"
| "run_ubatches dv n_outputs_all n_tokens_all n_outputs_prev ((sinfo, u) # us) cx =
     (let cx = cx\<lparr>cx_n_outputs := ubatch_outputs n_outputs_all n_tokens_all u\<rparr> in
      Option.bind (process_ubatch dv sinfo u cx) (\<lambda>(res, cx).
        case res of
          Inl failure \<Rightarrow>
            Option.bind (remove_failed u (cx_kv cx)) (\<lambda>kv. Some (failure_code failure, cx\<lparr>cx_kv := kv\<rparr>))
        | Inr rows \<Rightarrow>
            if 0 < cx_n_outputs cx \<and> \<not> n_outputs_prev + cx_n_outputs cx \<le> n_outputs_all then None
            else run_ubatches dv n_outputs_all n_tokens_all (n_outputs_prev + cx_n_outputs cx) us
              (cx\<lparr>cx_logits := extract_logits n_outputs_prev (cx_n_outputs cx) rows (cx_logits cx)\<rparr>)))"

text \<open>
  The output mappings: a selection sort of the ids of the outputs, which remembers its swaps.
\<close>

definition min_index :: "nat list \<Rightarrow> nat \<Rightarrow> nat" where
  "min_index ids i = fold (\<lambda>j j_min. if ids ! j < ids ! j_min then j else j_min) [i + 1..<length ids] i"

definition swap :: "nat \<Rightarrow> nat \<Rightarrow> 'a list \<Rightarrow> 'a list" where
  "swap i j xs = xs[i := xs ! j, j := xs ! i]"

definition sort_step :: "nat \<Rightarrow> nat list \<times> (nat \<times> nat) list \<Rightarrow> nat list \<times> (nat \<times> nat) list" where
  "sort_step i st =
     (let (ids, swaps) = st; j_min = min_index ids i in
      if j_min = i then (ids, swaps) else (swap i j_min ids, swaps @ [(i, j_min)]))"

definition set_output_ids :: "nat list \<Rightarrow> int list \<Rightarrow> int list" where
  "set_output_ids out_ids output_ids =
     fold (\<lambda>i output_ids. output_ids[out_ids ! i := int i]) [0..<length out_ids] output_ids"

definition map_outputs :: "('g, 'r) lctx \<Rightarrow> ('g, 'r) lctx option" where
  "map_outputs cx =
     (if \<not> 0 < cx_n_outputs cx then Some cx
      else
        let out_ids = get_out_ids (cx_balloc cx) in
        if \<not> length out_ids = cx_n_outputs cx then None
        else
          let cx = cx\<lparr>cx_output_ids := set_output_ids out_ids (cx_output_ids cx)\<rparr>;
              sorted_output = list_all (\<lambda>i. out_ids ! i = i) [0..<cx_n_outputs cx]
          in if sorted_output then Some cx
             else
               let (out_ids, swaps) = fold sort_step [0..<cx_n_outputs cx - 1] (out_ids, cx_output_swaps cx)
               in Some (cx\<lparr>cx_balloc := (cx_balloc cx)\<lparr>ba_out_ids := out_ids\<rparr>, cx_output_swaps := swaps,
                    cx_output_ids := set_output_ids out_ids (map (\<lambda>_. -1) (cx_output_ids cx))\<rparr>))"

text \<open>
  The search for a place: one retry after an optimization that changed something. The result is
  the slots and the micro-batches, or \<open>None\<close> for the return code 1.
\<close>

function place_batch :: "('g, 'r) device \<Rightarrow> bool \<Rightarrow> ('g, 'r) lctx \<Rightarrow>
    ((slot_info list \<times> llama_ubatch list) option \<times> ('g, 'r) lctx) option" where
  "place_batch dv did_optimize cx =
     Option.bind (kv_init_batch (cx_kv cx) (cx_balloc cx) (unat (cp_n_ubatch (cx_cparams cx))))
       (\<lambda>(r, balloc, kv).
         let cx = cx\<lparr>cx_balloc := balloc, cx_kv := kv\<rparr> in
         case r of
           Some mctx \<Rightarrow> Some (Some mctx, cx)
         | None \<Rightarrow>
             if did_optimize then Some (None, cx)
             else Option.bind (kv_self_update dv True cx) (\<lambda>(updated, cx).
               if updated then place_batch dv True cx else Some (None, cx)))"
  by pat_completeness auto
termination
  by (relation "measure (\<lambda>(dv, did_optimize, cx). if did_optimize then 0 else 1)") auto

declare place_batch.simps [simp del]

text \<open>The memory as \<open>init\<close> of the batch sees it.\<close>

definition kv_view :: "kv_cache \<Rightarrow> mem_view" where
  "kv_view kv = \<lparr>mv_seq_pos_min = (\<lambda>s. the (kv_seq_pos_min kv (int s))),
     mv_seq_pos_max = (\<lambda>s. the (kv_seq_pos_max kv (int s)))\<rparr>"

definition decode :: "('g, 'r) device \<Rightarrow> llama_batch \<Rightarrow> ('g, 'r) lctx \<Rightarrow> (int \<times> ('g, 'r) lctx) option" where
  "decode dv batch_inp cx =
     (if \<not> (b_token batch_inp = None \<longleftrightarrow> b_embd batch_inp \<noteq> None) then None
      else if b_n_tokens batch_inp = 0 then Some (-1, cx)
      else
        let cp = cx_cparams cx; output_all = cp_embeddings cp in
        Option.bind (balloc_init (cx_balloc cx) batch_inp (hp_n_vocab (cx_hparams cx)) (Some (kv_view (cx_kv cx)))
            (hp_n_embd (cx_hparams cx)) (if cp_kv_unified cp then LLAMA_MAX_SEQ else unat (cp_n_seq_max cp)) output_all)
          (\<lambda>(ok, balloc).
            let cx = cx\<lparr>cx_balloc := balloc\<rparr> in
            if \<not> ok then Some (-1, cx)
            else
              let n_tokens_all = get_n_tokens balloc; n_outputs_all = get_n_outputs balloc in
              if output_all \<and> n_outputs_all \<noteq> n_tokens_all then Some (-1, cx)
              else if \<not> n_tokens_all \<le> unat (cp_n_batch cp) then None
              else if \<not> (cp_causal_attn cp \<or> n_tokens_all \<le> unat (cp_n_ubatch cp)) then None
              else
                let cx = cx\<lparr>cx_n_queued_tokens := cx_n_queued_tokens cx + n_tokens_all, cx_output_swaps := []\<rparr> in
                Option.bind (kv_self_update dv False cx) (\<lambda>(_, cx).
                Option.bind (place_batch dv False cx) (\<lambda>(r, cx).
                  case r of
                    None \<Rightarrow> Some (1, cx)
                  | Some (sinfos, ubatches) \<Rightarrow>
                      let (rows, cx) = output_reserve dv n_outputs_all cx in
                      if rows < n_outputs_all then Some (-2, cx)
                      else Option.bind (run_ubatches dv n_outputs_all n_tokens_all 0 (zip sinfos ubatches) cx)
                        (\<lambda>(ret, cx). if ret \<noteq> 0 then Some (ret, cx)
                          else Option.bind (map_outputs (cx\<lparr>cx_n_outputs := n_outputs_all\<rparr>)) (\<lambda>cx. Some (0, cx)))))))"

section \<open>Reading the outputs\<close>

definition output_reorder :: "('g, 'r) lctx \<Rightarrow> ('g, 'r) lctx" where
  "output_reorder cx =
     cx\<lparr>cx_logits := fold (\<lambda>(i0, i1). swap i0 i1) (cx_output_swaps cx) (cx_logits cx), cx_output_swaps := []\<rparr>"

text \<open>
  \<open>get_logits_ith\<close>: the row, \<open>None\<close> for the null pointer. A negative index is added to
  the unsigned number of outputs, so it wraps around instead of getting negative.
\<close>

definition get_logits_ith :: "int \<Rightarrow> ('g, 'r) lctx \<Rightarrow> 'r option option \<times> ('g, 'r) lctx" where
  "get_logits_ith i cx =
     (let cx = output_reorder cx;
          j = (if i < 0 then uint (word_of_nat (cx_n_outputs cx) + word_of_int i :: uint32)
               else if length (cx_output_ids cx) \<le> nat i then -1
               else cx_output_ids cx ! nat i)
      in if cx_logits cx = [] then (None, cx)
         else if j < 0 then (None, cx)
         else if int (cx_n_outputs cx) \<le> j then (None, cx)
         else (Some (cx_logits cx ! nat j), cx))"

text \<open>
  \<open>llama_kv_self_used_cells\<close>: the spans of positions of the sequences, added up.
\<close>

definition kv_self_used_cells :: "('g, 'r) lctx \<Rightarrow> int" where
  "kv_self_used_cells cx =
     sum_list (map (\<lambda>s. let p0 = the (kv_seq_pos_min (cx_kv cx) (int s)); p1 = the (kv_seq_pos_max (cx_kv cx) (int s))
         in if 0 \<le> p0 then p1 - p0 + 1 else 0)
       [0..<unat (cp_n_seq_max (cx_cparams cx))])"

end
