(* ===== verification/Chat_Cache.thy ===== *)
theory Chat_Cache
  imports Llama_Context
begin

text \<open>
  The context in a chat: one sequence, one stream, no attention window, tokens only ever appended.
  The cells then hold the positions from 0 on in order, and what \<open>decode\<close> does to a text
  batch can be said exactly.
\<close>

section \<open>The cells of a chat\<close>

text \<open>Cells whose indices are what the arrays say, and the cells that hold the positions below \<open>k\<close> in order.\<close>

definition cells_of :: "llama_pos list \<Rightarrow> nat set list \<Rightarrow> kv_cells" where
  "cells_of p q = \<lparr>kc_has_shift = False, kc_used = {i. i < length p \<and> p ! i \<noteq> -1}, kc_pos = p,
     kc_shift = replicate (length p) 0, kc_seq = q, kc_seq_pos = occ p q\<rparr>"

definition chat_cells :: "nat \<Rightarrow> nat \<Rightarrow> kv_cells" where
  "chat_cells n k = cells_of (map int [0..<k] @ replicate (n - k) (-1)) (replicate k {0} @ replicate (n - k) {})"

lemma chat_cells_simps [simp]:
  "kc_has_shift (chat_cells n k) = False" "kc_used (chat_cells n k) = {..<k}"
  "k \<le> n \<Longrightarrow> kc_shift (chat_cells n k) = replicate n 0"
  "k \<le> n \<Longrightarrow> cells_size (chat_cells n k) = n"
  "k \<le> n \<Longrightarrow> length (kc_pos (chat_cells n k)) = n" "k \<le> n \<Longrightarrow> length (kc_seq (chat_cells n k)) = n"
proof -
  have "(map int [0..<k] @ replicate (n - k) (-1)) ! i = -1 \<longleftrightarrow> k \<le> i" if "i < k + (n - k)" for i
    using that by (cases "i < k") (simp_all add: nth_append)
  then show "kc_used (chat_cells n k) = {..<k}"
    by (auto simp: chat_cells_def cells_of_def not_le simp del: map_append)
qed (simp_all add: chat_cells_def cells_of_def cells_size_def)

lemma chat_cells_counts [simp]:
  "cells_get_used (chat_cells n k) = k" "cells_used_max_p1 (chat_cells n k) = k"
  "\<not> cells_get_has_shift (chat_cells n k)"
proof -
  show "cells_get_used (chat_cells n k) = k" "\<not> cells_get_has_shift (chat_cells n k)"
    by (simp_all add: cells_get_used_def cells_get_has_shift_def)
  show "cells_used_max_p1 (chat_cells n k) = k"
  proof (cases k)
    case (Suc j)
    then have "Max {..<k} = j" "{..<k} \<noteq> {}" by (auto intro!: Max_eqI)
    then show ?thesis using Suc by (simp add: cells_used_max_p1_def del: lessThan_Suc)
  qed (simp add: cells_used_max_p1_def)
qed

lemma chat_cells_at:
  assumes "k \<le> n" and "i < n"
  shows "kc_pos (chat_cells n k) ! i = (if i < k then int i else -1)"
    and "kc_seq (chat_cells n k) ! i = (if i < k then {0} else {})"
    and "cells_is_empty (chat_cells n k) i \<longleftrightarrow> k \<le> i"
    and "cell_at (chat_cells n k) i = (if i < k then (int i, 0, {0}) else (-1, 0, {}))"
  using assms by (auto simp: chat_cells_def cells_of_def cells_is_empty_def cell_at_def nth_append)

lemma kv_inv_chat:
  assumes "k \<le> n"
  shows "kv_inv (chat_cells n k)"
  using assms by (auto simp: kv_inv_def chat_cells_def cells_of_def cell_ok_def nth_append LLAMA_MAX_SEQ_def)

lemma kv_inv_eqI:
  assumes "kv_inv c" and "kv_inv d" and "cells_size c = cells_size d" and "kc_has_shift c = kc_has_shift d"
    and "\<And>i. i < cells_size c \<Longrightarrow> cell_at c i = cell_at d i"
  shows "c = d"
proof -
  have l: "length (kc_pos c) = length (kc_pos d)"
    using assms(3) by (simp add: cells_size_def)
  have "kc_pos c = kc_pos d" "kc_shift c = kc_shift d" "kc_seq c = kc_seq d"
    using assms(1,2,5) l by (auto intro!: nth_equalityI simp: kv_inv_lengths cells_size_def cell_at_def)
  with assms show ?thesis
    by (auto intro!: kv_cells.equality simp: kv_inv_def)
qed

lemma chat_positions:
  assumes "k \<le> n"
  shows "seq_positions (chat_cells n k) s = (if s = 0 then {0..<int k} else {})"
proof -
  have "seq_positions (chat_cells n k) s = {int i |i. i < k \<and> s = 0}"
  proof (intro equalityI subsetI)
    fix x assume "x \<in> seq_positions (chat_cells n k) s"
    with assms show "x \<in> {int i |i. i < k \<and> s = 0}"
      by (auto simp: seq_positions_def chat_cells_at split: if_splits)
  next
    fix x assume "x \<in> {int i |i. i < k \<and> s = 0}"
    then obtain i where "x = int i" "i < k" "s = 0" by blast
    with assms show "x \<in> seq_positions (chat_cells n k) s"
      unfolding seq_positions_def by (intro CollectI exI [of _ i]) (simp add: chat_cells_at)
  qed
  also have "\<dots> = (if s = 0 then {0..<int k} else {})"
    by (auto intro!: exI [of _ "nat _"])
  finally show ?thesis .
qed

lemma chat_seq_pos:
  assumes "k \<le> n"
  shows "cells_seq_pos_min (chat_cells n k) s = (if s = 0 \<and> 0 < k then 0 else -1) \<and>
    cells_seq_pos_max (chat_cells n k) s = (if s = 0 then int k - 1 else -1)"
proof (cases "s = 0 \<and> 0 < k")
  case True
  then have "seq_positions (chat_cells n k) s = {0..int k - 1}"
    using chat_positions [OF assms] by auto
  with True cells_seq_pos_Min [OF kv_inv_chat [OF assms], of s] Min_Max_range [of 0 "int k - 1"]
  show ?thesis by auto
next
  case False
  then have "seq_positions (chat_cells n k) s = {}"
    using chat_positions [OF assms] by auto
  with False cells_seq_pos_empty [OF kv_inv_chat [OF assms], of s]
  show ?thesis by auto
qed

text \<open>A micro-batch that continues the chat at \<open>k\<close>.\<close>

definition chat_ubatch :: "nat \<Rightarrow> nat \<Rightarrow> llama_ubatch \<Rightarrow> bool" where
  "chat_ubatch k m u = (1 \<le> m \<and> ub_n_tokens u = m \<and> ub_pos u = map int [k..<k + m] \<and>
     ub_n_seq_id u = replicate m 1 \<and> ub_seq_id u = replicate m [0] \<and> ub_seq_id_unq u = [0])"

lemma chat_ubatch_ids:
  assumes "chat_ubatch k m u" and "j < m"
  shows "token_ids u j = [0]" and "ub_pos u ! j = int (k + j)"
  using assms by (auto simp: chat_ubatch_def token_ids_def)

lemma chat_ubatch_ok: "chat_ubatch k m u \<Longrightarrow> ubatch_ok u"
  using chat_ubatch_ids [of k m u] by (simp add: ubatch_ok_def chat_ubatch_def LLAMA_MAX_SEQ_def)

lemma placed_chat:
  assumes "chat_ubatch k m u" and "k + m \<le> n"
  shows "placed u [k..<k + m] [0..<m] (chat_cells n k) = chat_cells n (k + m)"
proof (rule kv_inv_eqI)
  let ?p = "placed u [k..<k + m] [0..<m] (chat_cells n k)"
  have m: "ub_n_tokens u = m" and k: "k \<le> n"
    using assms by (auto simp: chat_ubatch_def)
  note inv = kv_inv_chat [OF k]
  have sub: "set [k..<k + m] \<subseteq> {..<cells_size (chat_cells n k)}"
    using assms(2) by auto
  have upt: "set [0..<m] \<subseteq> {..<ub_n_tokens u}"
    unfolding m by (rule set_upt_lessThan)
  have p: "kv_inv ?p" "cells_size ?p = cells_size (chat_cells n k)"
    using placed_inv [OF inv chat_ubatch_ok [OF assms(1)] sub _ upt] m by simp_all
  show "kv_inv ?p" by (rule p)
  show "kv_inv (chat_cells n (k + m))" by (rule kv_inv_chat [OF assms(2)])
  show "cells_size ?p = cells_size (chat_cells n (k + m))" using p(2) assms(2) k by simp
  have len: "length [k..<k + m] = m" by simp
  note ar = placed_arrays [OF inv distinct_upt len sub, where k = m and u = u, OF le_refl]
  show "kc_has_shift ?p = kc_has_shift (chat_cells n (k + m))"
    unfolding ar(5) by simp
  have sh: "kc_shift ?p = replicate n 0"
    unfolding ar(6) using k by (simp add: fold_update_replicate)
  have im: "(!) [k..<k + m] ` {0..<m} = {k..<k + m}"
    by (metis atLeastLessThan_upt list.set_map map_nth len set_upt)
  fix i assume "i < cells_size ?p"
  then have i: "i < n" using p(2) k by simp
  show "cell_at ?p i = cell_at (chat_cells n (k + m)) i"
  proof (cases "k \<le> i \<and> i < k + m")
    case True
    then have j: "i - k < m" "[k..<k + m] ! (i - k) = i" using m by auto
    have "kc_pos ?p ! i = int i" "kc_seq ?p ! i = {0}"
      using ar(1,2) [of "i - k"] j chat_ubatch_ids [OF assms(1)] True by auto
    then show ?thesis
      unfolding chat_cells_at(4) [OF assms(2) i] using True i by (simp add: cell_at_def sh)
  next
    case False
    then have "i \<notin> (!) [k..<k + m] ` {0..<m}" unfolding im by auto
    from ar(3,4) [OF this] show ?thesis
      unfolding chat_cells_at(4) [OF assms(2) i] using False i k by (auto simp: cell_at_def sh chat_cells_at)
  qed
qed

text \<open>A cache in a chat: one stream, no window, the cells filled from the start, the head behind them.\<close>

definition chat_kv :: "nat \<Rightarrow> kv_cache \<Rightarrow> bool" where
  "chat_kv k kv = (plain_kv kv \<and> k \<le> kv_get_size kv \<and> kv_v_cells kv = [chat_cells (kv_get_size kv) k] \<and>
     kv_v_heads kv = [k] \<and> kv_sc_info kv = [])"

definition chat_at :: "nat \<Rightarrow> kv_cache \<Rightarrow> kv_cache" where
  "chat_at k kv = kv\<lparr>kv_v_cells := [chat_cells (kv_get_size kv) k], kv_v_heads := [k]\<rparr>"

lemma chat_kvD:
  assumes "chat_kv k kv"
  shows "plain_kv kv" and "k \<le> kv_get_size kv" and "kv_v_cells kv = [chat_cells (kv_get_size kv) k]"
    and "kv_v_heads kv = [k]" and "kv_sc_info kv = []" and "kv_n_stream kv = 1" and "seq_valid kv 0"
    and "stream_of kv 0 = 0" and "kv_wf kv" and "kv_seq_to_stream kv ! 0 = 0"
proof -
  show a: "plain_kv kv" "k \<le> kv_get_size kv" "kv_v_cells kv = [chat_cells (kv_get_size kv) k]"
    "kv_v_heads kv = [k]" "kv_sc_info kv = []"
    using assms by (simp_all add: chat_kv_def)
  then show b: "kv_n_stream kv = 1" "kv_wf kv" by (simp_all add: plain_kv_def)
  then show c: "seq_valid kv 0" by (simp add: seq_valid_def kv_wf_def)
  show "stream_of kv 0 = 0" "kv_seq_to_stream kv ! 0 = 0"
    using single_stream [OF b(2,1)] c by auto
qed

lemma chat_at_kv:
  assumes "chat_kv k kv" and "j \<le> kv_get_size kv"
  shows "chat_kv j (chat_at j kv)" and "kv_get_size (chat_at j kv) = kv_get_size kv"
    and "chat_at i (chat_at j kv) = chat_at i kv"
proof -
  note c = chat_kvD [OF assms(1)]
  have eq: "chat_at j kv = set_stream 0 (chat_cells (kv_get_size kv) j) j kv"
    using c(3,4) by (simp add: chat_at_def set_stream_def)
  have wf: "kv_wf (chat_at j kv)"
    unfolding eq using c(6,9) assms(2) by (intro kv_wf_set_stream) (simp_all add: kv_inv_chat)
  show size: "kv_get_size (chat_at j kv) = kv_get_size kv"
    unfolding eq using c(6,9) assms(2) by (intro kv_get_size_set_stream) simp_all
  show "chat_kv j (chat_at j kv)"
    using c wf size assms(2) by (simp add: chat_kv_def plain_kv_def) (simp add: chat_at_def)
  show "chat_at i (chat_at j kv) = chat_at i kv"
    using size by (simp add: chat_at_def)
qed

lemma chat_at_self: "chat_kv k kv \<Longrightarrow> chat_at k kv = kv"
  by (simp add: chat_kv_def chat_at_def)

lemma chat_fits: "chat_kv k kv \<Longrightarrow> chat_ubatch k m u \<Longrightarrow> ubatch_fits kv u"
  using chat_ubatch_ok [of k m u] chat_kvD(7) [of k kv] by (simp add: ubatch_fits_def chat_ubatch_def)

lemma test_cells_all:
  "(\<forall>i \<in> set [h..<h + k]. can i) \<Longrightarrow> test_cells can cont k h tested idxs = (h + k, tested + k, idxs @ [h..<h + k])"
proof (induction k arbitrary: h tested idxs)
  case (Suc k)
  have "\<forall>i\<in>set [Suc h..<Suc h + k]. can i" "can h"
    using Suc.prems by auto
  with Suc.IH show ?case
    unfolding upt_head by (simp add: Let_def del: upt_Suc)
qed simp

lemma slot_loop_ahead:
  assumes "\<forall>i. h \<le> i \<and> i < h + m \<longrightarrow> can i" and "h + m \<le> sz" and "j < m"
  shows "slot_loop sz can m False (h + j) j [h..<h + j] = Some (Some [h..<h + m])"
  using assms(3)
proof (induction "m - j" arbitrary: j rule: less_induct)
  case less
  have step: "test_cells can False (Suc 0) (h + j) j [h..<h + j] = (h + Suc j, Suc j, [h..<h + Suc j])"
    using assms(1) less.prems by (subst test_cells_all) auto
  show ?case
  proof (cases "Suc j = m")
    case True
    with assms(2) less.prems show ?thesis
      by (subst slot_loop.simps) (simp add: step del: test_cells.simps)
  next
    case False
    then have "slot_loop sz can m False (h + Suc j) (Suc j) [h..<h + Suc j] = Some (Some [h..<h + m])"
      using less.prems by (intro less.hyps) auto
    with assms(2) less.prems False show ?thesis
      by (subst slot_loop.simps) (simp add: step del: test_cells.simps)
  qed
qed

lemma find_slot_chat:
  assumes "chat_kv k kv" and "chat_ubatch k m u" and "k + m \<le> kv_get_size kv"
  shows "find_slot kv u cont = Some (single_slot [k..<k + m])"
proof -
  note c = chat_kvD [OF assms(1)]
  let ?can = "can_use kv (chat_cells (kv_get_size kv) k)"
  have m: "ub_n_tokens u = m" "1 \<le> m" "ub_seq_id_unq u ! 0 = 0"
    using assms(2) by (simp_all add: chat_ubatch_def)
  have can: "\<forall>i. k \<le> i \<and> i < k + m \<longrightarrow> ?can i"
    using assms(3) c(2) by (auto simp: can_use_plain [OF c(1)] chat_cells_at)
  have "slot_loop (kv_get_size kv) ?can m cont k 0 [] = Some (Some [k..<k + m])"
  proof (cases cont)
    case True
    with can assms(3) m(2) show ?thesis
      by (subst slot_loop.simps) (simp add: test_cells_all)
  next
    case False
    with slot_loop_ahead [OF can assms(3), of 0] m(2) show ?thesis by simp
  qed
  then have "stream_slot kv (chat_cells (kv_get_size kv) k) k m cont = Some (Some [k..<k + m])"
    using c(2) assms(3) by (simp add: stream_slot_def)
  then show ?thesis
    using find_slot_single [OF c(9,6), of u cont] c(3,4,7) m by (simp add: single_slot_def)
qed

lemma apply_chat:
  assumes "chat_kv k kv" and "chat_ubatch k m u" and "k + m \<le> kv_get_size kv"
  shows "apply_ubatch kv (single_slot [k..<k + m]) u = Some (chat_at (k + m) kv)"
proof -
  note c = chat_kvD [OF assms(1)]
  have m: "ub_n_tokens u = m" "1 \<le> m" using assms(2) by (simp_all add: chat_ubatch_def)
  have "set [k..<k + m] \<subseteq> {i. i < kv_get_size kv \<and> cells_is_empty (kv_v_cells kv ! 0) i}"
    using assms(3) c(2,3) by (auto simp: chat_cells_at)
  from placed_plain(1) [OF c(1) chat_fits [OF assms(1,2)] _ distinct_upt this] m
  show ?thesis
    using placed_chat [OF assms(2,3)] c(3) by (simp add: chat_at_def)
qed

text \<open>Removing the end of a chat: what \<open>decode\<close> does after a failed micro-batch.\<close>

lemma rm_has_shift: "kc_has_shift (fst (fold (seq_rm_step s p0 p1) xs st)) = kc_has_shift (fst st)"
proof (induction xs arbitrary: st)
  case (Cons x xs)
  have "kc_has_shift (fst (seq_rm_step s p0 p1 x st)) = kc_has_shift (fst st)"
    by (cases st) (simp add: seq_rm_step_def freed_def cells_seq_rm_def seq_pos_dec_def Let_def)
  with Cons show ?case by simp
qed simp

lemma rm_chat:
  assumes "k + m \<le> n" and "1 \<le> m" and "int n \<le> POS_MAX"
  shows "fold (seq_rm_step 0 (int k) POS_MAX) [0..<n] (chat_cells n (k + m), n) = (chat_cells n k, k)"
proof -
  let ?C = "chat_cells n (k + m)" and ?step = "seq_rm_step 0 (int k) POS_MAX"
  let ?f = "\<lambda>i c. fst (?step i (c, 0))"
  have inv: "kv_inv ?C" using kv_inv_chat [OF assms(1)] .
  have kn: "k \<le> n" "k < n" using assms by auto
  have fst: "fst (fold ?step xs (c, h)) = fold ?f xs c" for xs c h
    by (rule fst_fold_pair) (auto simp: seq_rm_step_def freed_def)
  have head: "snd (fold ?step [0..<j] (?C, n)) = (if j \<le> k then n else k)" if "j \<le> n" for j
    using that
  proof (induction j)
    case (Suc j)
    obtain c h where ch: "fold ?step [0..<j] (?C, n) = (c, h)" by fastforce
    have c: "c = fold ?f [0..<j] ?C" using fst [of "[0..<j]" ?C n] ch by simp
    have pu: "kv_inv c" "cells_size c = n" "cell_at c j = cell_at ?C j"
      using rm_pass.pass_upto [OF inv, where n = j and s = 0 and ?p0.0 = "int k" and ?p1.0 = POS_MAX] Suc.prems assms(1) unfolding c by auto
    have h: "h = (if j \<le> k then n else k)" using Suc ch by simp
    have at: "kc_pos c ! j = (if j < k + m then int j else -1)" "kc_seq c ! j = (if j < k + m then {0} else {})"
      using pu(3) chat_cells_at(4) [OF assms(1), of j] Suc.prems by (auto simp: cell_at_def split: if_splits)
    have jn: "j < cells_size c" using pu(2) Suc.prems by simp
    have "snd (?step j (c, h)) = (if Suc j \<le> k then n else k)"
      using at h Suc.prems assms kn pu(2) cells_seq_rm_put [OF pu(1) jn, of 0]
      by (auto simp: seq_rm_step_def cells_pos_in_def cells_seq_has_def freed_def)
    then show ?case by (simp add: ch)
  qed simp
  have cells: "fst (fold ?step [0..<n] (?C, n)) = chat_cells n k"
  proof (rule kv_inv_eqI)
    note pass = rm_pass.pass [OF inv, where s = 0 and ?p0.0 = "int k" and ?p1.0 = POS_MAX]
    let ?c = "fst (fold ?step [0..<n] (?C, n))"
    have c: "?c = fold ?f [0..<cells_size ?C] ?C" using fst assms(1) by simp
    show "kv_inv ?c" "kv_inv (chat_cells n k)" "cells_size ?c = cells_size (chat_cells n k)"
      using pass(1,2) kv_inv_chat [OF kn(1)] assms(1) kn(1) unfolding c by simp_all
    show "kc_has_shift ?c = kc_has_shift (chat_cells n k)" by (simp add: rm_has_shift)
    show "cell_at ?c i = cell_at (chat_cells n k) i" if "i < cells_size ?c" for i
    proof -
      have i: "i < n" using that pass(2) assms(1) unfolding c by simp
      then have "cell_at ?c i = rm_content 0 (int k) POS_MAX (cell_at ?C i)"
        using pass(3) [of i] assms(1) unfolding c by simp
      with i assms show ?thesis
        by (auto simp: chat_cells_at rm_content_def in_range_def)
    qed
  qed
  show ?thesis
    using cells head [of n] kn by (simp add: prod_eq_iff)
qed

lemma seq_rm_chat:
  assumes "chat_kv k kv" and "1 \<le> m" and "k + m \<le> kv_get_size kv" and "int (kv_get_size kv) \<le> POS_MAX"
  shows "kv_seq_rm (chat_at (k + m) kv) 0 (int k) (-1) = Some (chat_at k kv)"
proof -
  note ck = chat_at_kv [OF assms(1), of "k + m"]
  note c = chat_kvD [OF ck(1) [OF assms(3)]]
  have cells: "kv_v_cells (chat_at (k + m) kv) = [chat_cells (kv_get_size kv) (k + m)]" "kv_v_heads (chat_at (k + m) kv) = [k + m]"
    by (simp_all add: chat_at_def)
  show ?thesis
    using c(7,8) rm_chat [OF assms(3,2,4)] cells assms(2,3)
    by (simp add: kv_seq_rm_def norm_p0_def norm_p1_def Let_def) (simp add: set_stream_def chat_at_def)
qed

lemma failed_pos_min_chat:
  assumes "chat_ubatch k m u" and "int (k + m) \<le> POS_MAX"
  shows "failed_pos_min u = (\<lambda>s. if s = 0 then int k else POS_MAX)"
proof -
  have "fold (\<lambda>i pos_min. let seq_id = nat (ub_seq_id u ! i ! 0)
        in pos_min(seq_id := min (pos_min seq_id) (ub_pos u ! i))) [0..<j] (\<lambda>_. POS_MAX) =
      (\<lambda>s. if s = 0 \<and> 0 < j then int k else POS_MAX)" if "j \<le> m" for j
    using that
  proof (induction j)
    case (Suc j)
    have "ub_seq_id u ! j ! 0 = 0" "ub_pos u ! j = int (k + j)"
      using assms(1) Suc.prems chat_ubatch_ids(2) [OF assms(1)] by (auto simp: chat_ubatch_def)
    then show ?case
      using Suc assms(2) by (auto simp: fun_eq_iff)
  qed simp
  from this [of m] assms(1) show ?thesis
    by (simp add: failed_pos_min_def chat_ubatch_def)
qed

lemma remove_failed_chat:
  assumes "chat_kv k kv" and "chat_ubatch k m u" and "k + m \<le> kv_get_size kv" and "int (kv_get_size kv) \<le> POS_MAX"
  shows "remove_failed u (chat_at (k + m) kv) = Some (chat_at k kv)"
proof -
  have m: "1 \<le> m" using assms(2) by (simp add: chat_ubatch_def)
  have f: "failed_pos_min u = (\<lambda>s. if s = 0 then int k else POS_MAX)"
    using assms(3,4) by (intro failed_pos_min_chat [OF assms(2)]) simp
  have skip: "fold (\<lambda>s r. if failed_pos_min u s = POS_MAX then r
      else Option.bind r (\<lambda>kv. kv_seq_rm kv (int s) (failed_pos_min u s) (-1))) [1..<j] r = r" for j r
    by (induction j) (auto simp: f)
  have k: "int k \<noteq> POS_MAX" using m assms(3,4) by linarith
  have "[0..<LLAMA_MAX_SEQ] = 0 # [1..<LLAMA_MAX_SEQ]"
    by (simp add: upt_conv_Cons LLAMA_MAX_SEQ_def del: upt_Suc)
  with skip k f seq_rm_chat [OF assms(1) m assms(3,4)] show ?thesis
    by (simp add: remove_failed_def)
qed

section \<open>Placing a text batch\<close>

text \<open>Micro-batches that continue each other from \<open>k\<close> on, and the slots they get.\<close>

fun chat_chain :: "nat \<Rightarrow> llama_ubatch list \<Rightarrow> bool" where
  "chat_chain k [] = True"
| "chat_chain k (u # us) = (chat_ubatch k (ub_n_tokens u) u \<and> chat_chain (k + ub_n_tokens u) us)"

fun chat_slots :: "nat \<Rightarrow> llama_ubatch list \<Rightarrow> slot_info list" where
  "chat_slots k [] = []"
| "chat_slots k (u # us) = single_slot [k..<k + ub_n_tokens u] # chat_slots (k + ub_n_tokens u) us"

abbreviation total_tokens :: "llama_ubatch list \<Rightarrow> nat" where
  "total_tokens us \<equiv> sum_list (map ub_n_tokens us)"

lemma chat_chain_fits: "chat_chain k us \<Longrightarrow> seq_valid kv 0 \<Longrightarrow> u \<in> set us \<Longrightarrow> ubatch_fits kv u"
proof (induction us arbitrary: k)
  case (Cons v us)
  then show ?case
    using chat_ubatch_ok [of k "ub_n_tokens v" v]
    by (auto simp: ubatch_fits_def) (auto simp: chat_ubatch_def)
qed simp

lemma find_slot_chat_full:
  assumes "chat_kv k kv" and "chat_ubatch k m u" and "\<not> k + m \<le> kv_get_size kv"
  shows "find_slot kv u cont = Some empty_slot"
proof -
  note c = chat_kvD [OF assms(1)]
  have m: "ub_n_tokens u = m" using assms(2) by (simp add: chat_ubatch_def)
  have "False" if "length idxs = m" "distinct idxs"
    "set idxs \<subseteq> {i. i < kv_get_size kv \<and> cells_is_empty (kv_v_cells kv ! 0) i}" for idxs
  proof -
    have "set idxs \<subseteq> {k..<kv_get_size kv}"
      using that(3) c(2,3) by (auto simp: chat_cells_at)
    then have "card (set idxs) \<le> kv_get_size kv - k"
      using card_mono [of "{k..<kv_get_size kv}"] by simp
    with that(1,2) assms(3) c(2) show False by (simp add: distinct_card)
  qed
  with find_slot_plain [OF c(1) chat_fits [OF assms(1,2)], of cont] m show ?thesis by blast
qed

lemma prepare_place_chat:
  assumes "chat_kv k kv" and "chat_chain k us"
  shows "\<exists>kv' res' sts. prepare_place kv us res states =
      Some (k + total_tokens us \<le> kv_get_size kv, kv', res @ res', states @ sts) \<and>
    (k + total_tokens us \<le> kv_get_size kv \<longrightarrow> res' = chat_slots k us)"
  using assms
proof (induction us arbitrary: k kv res states)
  case Nil
  then show ?case using chat_kvD(2) [OF Nil(1)] by simp
next
  case (Cons u us)
  let ?m = "ub_n_tokens u" and ?cont = "if kv_supports_set_rows kv then False else True"
  have u: "chat_ubatch k ?m u" "chat_chain (k + ?m) us" using Cons.prems(2) by simp_all
  show ?case
  proof (cases "k + ?m \<le> kv_get_size kv")
    case False
    have "find_slot kv u ?cont = Some empty_slot"
      by (rule find_slot_chat_full [OF Cons.prems(1) u(1) False])
    with False show ?thesis by (simp add: slot_empty_def empty_slot_def)
  next
    case True
    note at = chat_at_kv [OF Cons.prems(1) True]
    let ?kv = "chat_at (k + ?m) kv" and ?slot = "single_slot [k..<k + ?m]"
    let ?st = "\<lparr>ps_sinfo = ?slot, ps_v_heads_old = kv_v_heads kv,
      ps_v_cells = map (\<lambda>s. cells_cp (kv_v_cells kv ! (si_strm ?slot ! s)) (si_idxs ?slot ! s)) [0..<slot_n_stream ?slot]\<rparr>"
    have step: "prepare_place kv (u # us) res states = prepare_place ?kv us (res @ [?slot]) (states @ [?st])"
      using find_slot_chat [OF Cons.prems(1) u(1) True, of ?cont] apply_chat [OF Cons.prems(1) u(1) True]
      by (simp add: slot_empty_def single_slot_def Let_def)
    from Cons.IH [OF at(1) u(2), of "res @ [?slot]" "states @ [?st]"] show ?thesis
      unfolding step at(2) by (auto simp: add.assoc)
  qed
qed

lemma prepare_chat:
  assumes "chat_kv k kv" and "chat_chain k us" and "us \<noteq> []"
  shows "kv_prepare kv us = Some (if k + total_tokens us \<le> kv_get_size kv then chat_slots k us else [], kv)"
proof -
  note c = chat_kvD [OF assms(1)]
  have ns: "no_shift kv" using c(2,3) by (simp add: no_shift_def)
  obtain kv' res' sts where p: "prepare_place kv us [] [] = Some (k + total_tokens us \<le> kv_get_size kv, kv', res', sts)"
    "k + total_tokens us \<le> kv_get_size kv \<longrightarrow> res' = chat_slots k us"
    using prepare_place_chat [OF assms(1,2), of "[]" "[]"] by auto
  from prepare_place_plain [OF c(1) ns, of us "[]" "[]"] chat_chain_fits [OF assms(2) c(7)] p(1)
  have r: "length res' = length sts" "k + total_tokens us \<le> kv_get_size kv \<longleftrightarrow> length res' = length us"
    "fold restore_state (rev sts) kv' = kv" by auto
  then have "sts \<noteq> [] \<or> \<not> k + total_tokens us \<le> kv_get_size kv" using assms(3) by auto
  with p r show ?thesis by (auto simp: kv_prepare_def)
qed

text \<open>The micro-batches of a text batch behind a chat continue it.\<close>

abbreviation text_ubatches :: "balloc \<Rightarrow> nat \<Rightarrow> nat \<Rightarrow> nat \<Rightarrow> llama_ubatch list" where
  "text_ubatches a b c n \<equiv> map (chunk_ubatch a) (chunks b c n)"

lemma text_chunk_chat:
  assumes "text_filled a tokens (int k)" and "1 \<le> m" and "c + m \<le> length tokens"
  shows "chat_ubatch (k + c) m (chunk_ubatch a (c, m))"
  using text_chunk [OF assms] assms(2) by (simp add: chat_ubatch_def) (auto intro!: nth_equalityI)

lemma text_chain:
  assumes "text_filled a tokens (int k)" and "1 \<le> b" and "c \<le> length tokens"
  shows "chat_chain (k + c) (text_ubatches a b c (length tokens)) \<and>
    total_tokens (text_ubatches a b c (length tokens)) = length tokens - c"
  using assms(3)
proof (induction "length tokens - c" arbitrary: c rule: less_induct)
  case less
  let ?n = "length tokens" and ?m = "min b (length tokens - c)"
  show ?case
  proof (cases "c = ?n")
    case True
    then show ?thesis by (simp add: chunks.simps)
  next
    case False
    then have m: "1 \<le> ?m" "c + ?m \<le> ?n" using less.prems assms(2) by auto
    have ch: "chunks b c ?n = (c, ?m) # chunks b (c + ?m) ?n"
      using False less.prems assms(2) by (subst chunks.simps) auto
    have "?n - (c + ?m) < ?n - c" using m by linarith
    from less.hyps [OF this] m(2)
    have "chat_chain (k + c + ?m) (text_ubatches a b (c + ?m) ?n)"
      "total_tokens (text_ubatches a b (c + ?m) ?n) = ?n - (c + ?m)" by (simp_all add: add.assoc)
    with text_chunk_chat [OF assms(1) m] text_chunk(1) [OF assms(1) m] m show ?thesis
      unfolding ch by simp
  qed
qed

lemma init_batch_chat:
  assumes "chat_kv k kv" and "text_filled a tokens (int k)" and "1 \<le> b" and "tokens \<noteq> []"
  defines "us \<equiv> text_ubatches a b 0 (length tokens)"
  shows "\<exists>a'. kv_init_batch kv a b =
      Some (if k + length tokens \<le> kv_get_size kv then Some (chat_slots k us, us) else None, a', kv) \<and>
    ba_batch a' = ba_batch a \<and> ba_n_outputs a' = 1 \<and> ba_out_ids a' = [length tokens - 1]"
proof -
  note c = chat_kvD [OF assms(1)] and t = text_filledD [OF assms(2)]
  have n: "0 < length tokens" using assms(4) by simp
  have reset: "split_reset a = a"
    using assms(2) t(9) by (simp add: split_reset_def text_filled_def Let_def)
  have used: "ba_used a = used_upto 0 (length tokens)" "ba_n_used a = 0" "ba_out_ids a = []" "ba_n_outputs a = 1"
    using assms(2) by (simp_all add: text_filled_def Let_def used_upto_0)
  obtain a' where sp: "split_all (\<lambda>a. split_simple a b) a = Some (us, a')" "ba_n_used a' = length tokens"
    "ba_batch a' = ba_batch a" "ba_n_outputs a' = ba_n_outputs a"
    "ba_out_ids a' = filter (\<lambda>i. the_logits a ! i \<noteq> 0) [0..<length tokens]"
    using split_all_chunks [OF t(8) used(1) _ assms(3) used(2)] used(3) by (auto simp: us_def)
  have chain: "chat_chain k us" "total_tokens us = length tokens"
    using text_chain [OF assms(2,3), of 0] by (simp_all add: us_def)
  then have ne: "us \<noteq> []" using n by auto
  then have slots: "chat_slots k us \<noteq> []" by (cases us) auto
  have "get_n_used a' = get_n_tokens a'"
    using sp(2,3) t(1) by (simp add: get_n_used_def get_n_tokens_def)
  then have "kv_init_batch kv a b =
      Some (if k + length tokens \<le> kv_get_size kv then Some (chat_slots k us, us) else None, a', kv)"
    using sp(1) reset c(6) prepare_chat [OF assms(1) chain(1) ne] chain(2) slots
    by (simp add: kv_init_batch_def)
  with sp used(4) last_output [OF n] t(7) show ?thesis by simp
qed

text \<open>Nothing to update: no shift is pending and there is no hole.\<close>

lemma defrag_loop_full:
  assumes "\<forall>i<n. \<not> cells_is_empty cells i" and "i0 \<le> n"
  shows "\<exists>ids'. defrag_loop cells n_kv n max_moves i0 ids 0 = Some (ids', 0)"
  using assms(2)
proof (induction "n - i0" arbitrary: i0 ids rule: less_induct)
  case less
  show ?case
  proof (cases "i0 = n")
    case True
    then show ?thesis by (simp add: defrag_loop.simps)
  next
    case False
    with less show ?thesis
      using assms(1) by (subst defrag_loop.simps) auto
  qed
qed

lemma defrag_chat:
  assumes "chat_kv k kv"
  shows "defrag_prepare kv n_layer max_nodes = Some []"
proof -
  note c = chat_kvD [OF assms]
  have "\<forall>i<k. \<not> cells_is_empty (chat_cells (kv_get_size kv) k) i"
    using c(2) by (simp add: chat_cells_at)
  from defrag_loop_full [OF this le0] obtain ids where
    "defrag_loop (chat_cells (kv_get_size kv) k) k k (unat ((of_int max_nodes - 2 * n_layer) div (6 * n_layer))) 0
       (replicate k k) 0 = Some (ids, 0)" by blast
  with c(3,6) show ?thesis by (simp add: defrag_prepare_def Let_def)
qed

lemma self_update_chat:
  assumes "chat_kv k (cx_kv cx)"
  shows "kv_self_update dv optimize cx = Some (False, cx\<lparr>cx_memory_force_optimize := False\<rparr>)"
proof -
  note c = chat_kvD [OF assms]
  have "\<not> kv_get_has_shift (cx_kv cx)"
    using c(3,6) by (simp add: kv_get_has_shift_def)
  moreover have "(cx_kv cx)\<lparr>kv_sc_info := []\<rparr> = cx_kv cx"
    using c(5) by (cases "cx_kv cx") simp
  ultimately have "init_update cx' o' = Some (new_update_context False [] [], cx_kv cx)"
    if "cx_kv cx' = cx_kv cx" for cx' :: "('a, 'b) lctx" and o'
    using that c(5) defrag_chat [OF assms] by (simp add: init_update_def Let_def)
  then show ?thesis
    by (simp add: kv_self_update_def new_update_context_def)
qed

lemma place_chat:
  assumes "chat_kv k (cx_kv cx)" and "text_filled (cx_balloc cx) tokens (int k)" and "tokens \<noteq> []"
    and "1 \<le> unat (cp_n_ubatch (cx_cparams cx))"
  defines "us \<equiv> text_ubatches (cx_balloc cx) (unat (cp_n_ubatch (cx_cparams cx))) 0 (length tokens)"
  shows "\<exists>a'. place_batch dv False cx =
      (if k + length tokens \<le> kv_get_size (cx_kv cx) then Some (Some (chat_slots k us, us), cx\<lparr>cx_balloc := a'\<rparr>)
       else Some (None, cx\<lparr>cx_balloc := a', cx_memory_force_optimize := False\<rparr>)) \<and>
    ba_batch a' = ba_batch (cx_balloc cx) \<and> ba_n_outputs a' = 1 \<and> ba_out_ids a' = [length tokens - 1]"
proof -
  obtain a' where a': "kv_init_batch (cx_kv cx) (cx_balloc cx) (unat (cp_n_ubatch (cx_cparams cx))) =
      Some (if k + length tokens \<le> kv_get_size (cx_kv cx) then Some (chat_slots k us, us) else None, a', cx_kv cx)"
    "ba_batch a' = ba_batch (cx_balloc cx)" "ba_n_outputs a' = 1" "ba_out_ids a' = [length tokens - 1]"
    using init_batch_chat [OF assms(1,2,4,3)] unfolding us_def by blast
  have id: "cx\<lparr>cx_balloc := a', cx_kv := cx_kv cx\<rparr> = cx\<lparr>cx_balloc := a'\<rparr>" by simp
  show ?thesis
    using a' self_update_chat [of k "cx\<lparr>cx_balloc := a'\<rparr>" dv True] assms(1)
    by (subst place_batch.simps) (auto intro!: exI [of _ a'])
qed

section \<open>Running the micro-batches\<close>

lemma chunk_outputs:
  assumes "text_filled a tokens p" and "1 \<le> m" and "c + m \<le> length tokens"
  shows "ubatch_outputs 1 (length tokens) (chunk_ubatch a (c, m)) = (if c + m = length tokens then 1 else 0)"
proof (cases "length tokens = 1")
  case True
  with text_chunk(1) [OF assms] assms show ?thesis by (simp add: ubatch_outputs_def)
next
  case False
  let ?u = "chunk_ubatch a (c, m)"
  note t = text_chunk(1,7) [OF assms]
  have "filter (\<lambda>i. ub_output ?u ! i \<noteq> 0) [0..<m] = filter (\<lambda>i. c + i = length tokens - 1) [0..<m]"
    using t(2) by (intro filter_cong) auto
  also have "\<dots> = (if c + m = length tokens then [m - 1] else [])"
  proof (cases "c + m = length tokens")
    case True
    then have "[0..<m] = [0..<m - 1] @ [m - 1]"
      using assms(2) by (metis One_nat_def Suc_pred' le_eq_less_or_eq less_Suc_eq_0_disj lessI upt_Suc_append zero_le Suc_le_eq)
    with True assms(2) show ?thesis by (auto simp: filter_empty_conv)
  next
    case False
    with assms(3) show ?thesis by (auto simp: filter_empty_conv)
  qed
  finally show ?thesis
    using False t(1) by (simp add: ubatch_outputs_def)
qed

text \<open>
  The micro-batches from token \<open>c\<close> on: the tokens before some \<open>j\<close> have been stored, and
  \<open>j\<close> is the end exactly when the result is 0; then the row of the last token is the one the
  last computation returned.
\<close>

definition computes_ok :: "('g, 'r) device \<Rightarrow> bool" where
  "computes_ok dv = (\<forall>g kv sinfo u. \<exists>rows. fst (dv_compute dv g kv sinfo u) = Inr rows)"

definition last_row :: "('g, 'r) device \<Rightarrow> kv_cache \<Rightarrow> llama_token list \<Rightarrow> 'g \<Rightarrow> 'r \<Rightarrow> bool" where
  "last_row dv kv tokens g row =
     (\<exists>g0 sinfo u rows. dv_compute dv g0 kv sinfo u = (Inr rows, g) \<and> row = rows ! 0 \<and>
        suffix (the (ub_token u)) tokens \<and> the (ub_token u) \<noteq> [])"

lemma run_chat:
  assumes "text_filled a tokens (int k)" and "1 \<le> b" and "c \<le> length tokens"
    and "chat_kv (k + c) (cx_kv cx)" and "k + length tokens \<le> kv_get_size (cx_kv cx)"
    and "int (kv_get_size (cx_kv cx)) \<le> POS_MAX" and "cx_logits cx \<noteq> []"
  defines "us \<equiv> text_ubatches a b c (length tokens)"
  shows "\<exists>ret j g no lg. run_ubatches dv 1 (length tokens) 0 (zip (chat_slots (k + c) us) us) cx =
      Some (ret, cx\<lparr>cx_kv := chat_at (k + j) (cx_kv cx), cx_dev := g, cx_n_outputs := no, cx_logits := lg\<rparr>) \<and>
    c \<le> j \<and> j \<le> length tokens \<and> (ret = 0 \<longleftrightarrow> j = length tokens) \<and> ret \<in> {0, 2, -2, -3} \<and>
    (computes_ok dv \<longrightarrow> ret = 0) \<and> length lg = length (cx_logits cx) \<and>
    (ret = 0 \<and> c < length tokens \<longrightarrow> (\<exists>row. lg ! 0 = Some row \<and>
       last_row dv (chat_at (k + length tokens) (cx_kv cx)) tokens g row))"
  using assms(3,4,5,6,7) unfolding us_def
proof (induction "length tokens - c" arbitrary: c cx rule: less_induct)
  case less
  let ?n = "length tokens" and ?m = "min b (length tokens - c)" and ?kv = "cx_kv cx"
  show ?case
  proof (cases "c = ?n")
    case True
    then show ?thesis
      using chat_at_self [OF less.prems(2)]
      by (auto simp: chunks.simps intro!: exI [of _ 0] exI [of _ ?n] exI [of _ "cx_dev cx"]
          exI [of _ "cx_n_outputs cx"] exI [of _ "cx_logits cx"])
  next
    case False
    let ?u = "chunk_ubatch a (c, ?m)" and ?us = "text_ubatches a b (c + ?m) ?n"
    have m: "1 \<le> ?m" "c + ?m \<le> ?n" using False less.prems assms(2) by auto
    have ch: "chunks b c ?n = (c, ?m) # chunks b (c + ?m) ?n"
      using False less.prems assms(2) by (subst chunks.simps) auto
    note u = text_chunk [OF assms(1) m]
    have cu: "chat_ubatch (k + c) ?m ?u" by (rule text_chunk_chat [OF assms(1) m])
    have fit: "k + c + ?m \<le> kv_get_size ?kv" using m less.prems(3) by simp
    note at = chat_at_kv [OF less.prems(2) fit]
    define no where "no = (if c + ?m = ?n then 1 else 0 :: nat)"
    have no: "ubatch_outputs 1 ?n ?u = no"
      using chunk_outputs [OF assms(1) m] by (simp add: no_def)
    obtain res g where comp: "dv_compute dv (cx_dev cx) (chat_at (k + c + ?m) ?kv) (single_slot [k + c..<k + c + ?m]) ?u = (res, g)"
      by fastforce
    let ?cx = "cx\<lparr>cx_n_outputs := no, cx_kv := chat_at (k + c + ?m) ?kv, cx_dev := g\<rparr>"
    have proc: "process_ubatch dv (single_slot [k + c..<k + c + ?m]) ?u (cx\<lparr>cx_n_outputs := no\<rparr>) = Some (res, ?cx)"
      using apply_chat [OF less.prems(2) cu fit] comp by (simp add: process_ubatch_def)
    have zip: "zip (chat_slots (k + c) (text_ubatches a b c ?n)) (text_ubatches a b c ?n) =
      (single_slot [k + c..<k + c + ?m], ?u) # zip (chat_slots (k + (c + ?m)) ?us) ?us"
      unfolding ch using u(1) by (simp add: add.assoc)
    show ?thesis
    proof (cases res)
      case (Inl f)
      have rm: "remove_failed ?u (chat_at (k + c + ?m) ?kv) = Some (chat_at (k + c) ?kv)"
        by (rule remove_failed_chat [OF less.prems(2) cu fit less.prems(4)])
      have "run_ubatches dv 1 ?n 0 (zip (chat_slots (k + c) (text_ubatches a b c ?n)) (text_ubatches a b c ?n)) cx =
        Some (failure_code f, cx\<lparr>cx_kv := chat_at (k + c) ?kv, cx_dev := g, cx_n_outputs := no, cx_logits := cx_logits cx\<rparr>)"
        unfolding zip using proc no Inl rm by simp
      moreover have "failure_code f \<in> {2, -2, -3}" by (cases f) auto
      moreover have "\<not> computes_ok dv"
        using comp Inl by (auto simp: computes_ok_def) (metis fst_conv sum.distinct(1))
      ultimately show ?thesis
        using False less.prems(1)
        by (intro exI [of _ "failure_code f"] exI [of _ c] exI [of _ g] exI [of _ no] exI [of _ "cx_logits cx"]) auto
    next
      case (Inr rows)
      let ?lg = "extract_logits 0 no rows (cx_logits cx)"
      let ?cx' = "?cx\<lparr>cx_logits := ?lg\<rparr>"
      have lg: "?lg = (if c + ?m = ?n then (cx_logits cx)[0 := Some (rows ! 0)] else cx_logits cx)"
        by (simp add: no_def extract_logits_def)
      have "no \<le> 1" by (simp add: no_def)
      then have run: "run_ubatches dv 1 ?n 0 (zip (chat_slots (k + c) (text_ubatches a b c ?n)) (text_ubatches a b c ?n)) cx =
        run_ubatches dv 1 ?n no (zip (chat_slots (k + (c + ?m)) ?us) ?us) ?cx'"
        unfolding zip using proc no Inr by simp
      show ?thesis
      proof (cases "c + ?m = ?n")
        case True
        have row: "last_row dv (chat_at (k + ?n) ?kv) tokens g (rows ! 0)"
          unfolding last_row_def
        proof (intro exI conjI)
          show "dv_compute dv (cx_dev cx) (chat_at (k + ?n) ?kv) (single_slot [k + c..<k + c + ?m]) ?u = (Inr rows, g)"
            using comp Inr True by (simp add: add.assoc)
          have "the (ub_token ?u) = drop c tokens"
            using u(6) True by simp
          then show "suffix (the (ub_token ?u)) tokens" "the (ub_token ?u) \<noteq> []"
            using m by (auto simp: suffix_drop)
        qed simp
        show ?thesis
          unfolding run using True row less.prems(5) lg
          by (auto simp: chunks.simps add.assoc intro!: exI [of _ 0] exI [of _ ?n] exI [of _ g] exI [of _ no] exI [of _ ?lg])
      next
        case False
        then have no0: "no = 0" by (simp add: no_def)
        have "?n - (c + ?m) < ?n - c" using m by linarith
        have "chat_kv (k + (c + ?m)) (cx_kv ?cx')" "k + ?n \<le> kv_get_size (cx_kv ?cx')"
          "int (kv_get_size (cx_kv ?cx')) \<le> POS_MAX" "cx_logits ?cx' \<noteq> []"
          using at(1,2) less.prems lg False by (simp_all add: add.assoc)
        from less.hyps [OF \<open>?n - (c + ?m) < ?n - c\<close> m(2) this]
        obtain ret j g' no' lg' where ih: "run_ubatches dv 1 ?n 0 (zip (chat_slots (k + (c + ?m)) ?us) ?us) ?cx' =
            Some (ret, ?cx'\<lparr>cx_kv := chat_at (k + j) (cx_kv ?cx'), cx_dev := g', cx_n_outputs := no', cx_logits := lg'\<rparr>)"
          and j: "c + ?m \<le> j" "j \<le> ?n" "ret = 0 \<longleftrightarrow> j = ?n" "ret \<in> {0, 2, -2, -3}"
          and ok: "computes_ok dv \<longrightarrow> ret = 0" and len: "length lg' = length (cx_logits ?cx')"
          and row: "ret = 0 \<and> c + ?m < ?n \<longrightarrow> (\<exists>row. lg' ! 0 = Some row \<and>
            last_row dv (chat_at (k + ?n) (cx_kv ?cx')) tokens g' row)" by blast
        have eq: "chat_at (k + i) (cx_kv ?cx') = chat_at (k + i) ?kv" for i
          using at(3) by simp
        show ?thesis
          unfolding run no0
          using ih j ok len row m False lg unfolding eq
          by (intro exI [of _ ret] exI [of _ j] exI [of _ g'] exI [of _ no'] exI [of _ lg']) (simp add: no0)
      qed
    qed
  qed
qed

section \<open>Decoding a text batch\<close>

definition chat_cx :: "nat \<Rightarrow> ('g, 'r) lctx \<Rightarrow> bool" where
  "chat_cx k cx =
     (chat_kv k (cx_kv cx) \<and> int (kv_get_size (cx_kv cx)) \<le> POS_MAX \<and>
      1 \<le> unat (cp_n_ubatch (cx_cparams cx)) \<and> \<not> cp_embeddings (cx_cparams cx) \<and> cp_causal_attn (cx_cparams cx) \<and>
      1 \<le> unat (cp_n_seq_max (cx_cparams cx)) \<and> unat (cp_n_seq_max (cx_cparams cx)) \<le> LLAMA_MAX_SEQ \<and>
      (cx_output_ids cx = [] \<or> length (cx_output_ids cx) = unat (cp_n_batch (cx_cparams cx))))"

text \<open>The outputs after a reservation, and after the mapping of a single output.\<close>

lemma output_reserve_one:
  assumes "chat_cx k cx"
  shows "\<exists>rows cx'. output_reserve dv 1 cx = (rows, cx') \<and>
    (rows = 0 \<and> \<not> dv_alloc_output dv (cx_dev cx) (unat (cp_n_seq_max (cx_cparams cx))) \<and>
       (\<exists>oi. cx' = cx\<lparr>cx_output_ids := oi, cx_logits := []\<rparr> \<and> length oi = unat (cp_n_batch (cx_cparams cx)))
     \<or> 1 \<le> rows \<and> (\<exists>lg. lg \<noteq> [] \<and> cx' = cx\<lparr>cx_output_ids := replicate (unat (cp_n_batch (cx_cparams cx))) (-1),
         cx_logits := lg, cx_n_outputs := 0\<rparr>))"
proof -
  let ?nb = "unat (cp_n_batch (cx_cparams cx))" and ?m = "unat (cp_n_seq_max (cx_cparams cx))"
  have s: "max 1 ?m = ?m" "1 \<le> ?m" and oi: "cx_output_ids cx = [] \<or> length (cx_output_ids cx) = ?nb"
    using assms by (simp_all add: chat_cx_def)
  obtain oi where r: "(if cx_output_ids cx = [] then cx\<lparr>cx_output_ids := replicate ?nb 0\<rparr> else cx) = cx\<lparr>cx_output_ids := oi\<rparr>"
    and len: "length oi = ?nb"
  proof (cases "cx_output_ids cx = []")
    case True
    then show ?thesis by (intro that [of "replicate ?nb 0"]) simp_all
  next
    case False
    with oi show ?thesis by (intro that [of "cx_output_ids cx"]) simp_all
  qed
  have m1: "map (\<lambda>_. -1) oi = replicate ?nb (-1 :: int)"
    using len by (simp add: map_replicate_const)
  define lg where "lg = (if length (cx_logits cx) < ?m then replicate ?m None else cx_logits cx)"
  have ne: "lg \<noteq> []" using s(2) by (auto simp: lg_def)
  have eq: "output_reserve dv 1 cx =
    (if length (cx_logits cx) < ?m \<and> \<not> dv_alloc_output dv (cx_dev cx) ?m
     then (0, cx\<lparr>cx_output_ids := oi, cx_logits := []\<rparr>)
     else (?m, cx\<lparr>cx_output_ids := replicate ?nb (-1), cx_logits := lg, cx_n_outputs := 0\<rparr>))"
    unfolding output_reserve_def r Let_def s(1) by (simp add: lg_def m1)
  show ?thesis
    unfolding eq using s(2) len ne by (cases "length (cx_logits cx) < ?m \<and> \<not> dv_alloc_output dv (cx_dev cx) ?m") auto
qed

lemma map_outputs_one:
  assumes "cx_n_outputs cx = 1" and "ba_out_ids (cx_balloc cx) = [i]" and "cx_output_ids cx = replicate nb (-1)"
    and "cx_output_swaps cx = []"
  shows "map_outputs cx = Some (cx\<lparr>cx_output_ids := (replicate nb (-1))[i := 0]\<rparr>)"
proof -
  have "(cx_balloc cx)\<lparr>ba_out_ids := [i]\<rparr> = cx_balloc cx"
    using assms(2) by (cases "cx_balloc cx") simp
  then show ?thesis
    using assms by (cases cx) (simp add: map_outputs_def get_out_ids_def set_output_ids_def Let_def map_replicate_const)
qed

lemma get_logits_one:
  assumes "cx_n_outputs cx = 1" and "cx_output_ids cx = (replicate nb (-1))[i := 0]" and "i < nb"
    and "cx_output_swaps cx = []" and "cx_logits cx \<noteq> []"
  shows "fst (get_logits_ith (int i) cx) = Some (cx_logits cx ! 0)"
    and "fst (get_logits_ith (-1) cx) = Some (cx_logits cx ! 0)"
  using assms by (simp_all add: get_logits_ith_def output_reorder_def Let_def)

lemma kv_view_chat:
  assumes "chat_kv k kv"
  shows "mv_seq_pos_max (kv_view kv) 0 = int k - 1"
  using chat_kvD [OF assms] chat_seq_pos [of k "kv_get_size kv" 0]
  by (simp add: kv_view_def kv_seq_pos_max_def)

lemma decode_chat:
  fixes dv :: "('g, 'r) device"
  assumes "chat_cx k cx" and "tokens \<noteq> []" and "length tokens \<le> unat (cp_n_batch (cx_cparams cx))"
    and "\<forall>t\<in>set tokens. 0 \<le> t \<and> t < int (hp_n_vocab (cx_hparams cx))"
  defines "n \<equiv> length tokens"
  shows "\<exists>ret j cx'. decode dv (llama_batch_get_one tokens (int n)) cx = Some (ret, cx') \<and>
    chat_cx (k + j) cx' \<and> cx_kv cx' = chat_at (k + j) (cx_kv cx) \<and>
    cx_cparams cx' = cx_cparams cx \<and> cx_hparams cx' = cx_hparams cx \<and> j \<le> n \<and>
    (if k + n \<le> kv_get_size (cx_kv cx)
     then (ret = 0 \<longleftrightarrow> j = n) \<and> ret \<in> {0, 2, -2, -3} \<and>
       (computes_ok dv \<and> (\<forall>g r. dv_alloc_output dv g r) \<longrightarrow> ret = 0) \<and>
       (ret = 0 \<longrightarrow> (\<exists>row. fst (get_logits_ith (int n - 1) cx') = Some (Some row) \<and>
          fst (get_logits_ith (-1) cx') = Some (Some row) \<and> last_row dv (cx_kv cx') tokens (cx_dev cx') row))
     else ret = 1 \<and> j = 0)"
proof -
  let ?kv = "cx_kv cx" and ?cp = "cx_cparams cx" and ?b = "llama_batch_get_one tokens (int n)"
  let ?m = "if cp_kv_unified ?cp then LLAMA_MAX_SEQ else unat (cp_n_seq_max ?cp)"
  have kv: "chat_kv k ?kv" and size: "int (kv_get_size ?kv) \<le> POS_MAX" and cp: "1 \<le> unat (cp_n_ubatch ?cp)"
    "\<not> cp_embeddings ?cp" "cp_causal_attn ?cp" and m: "1 \<le> ?m" "?m \<le> LLAMA_MAX_SEQ"
    and oi: "cx_output_ids cx = [] \<or> length (cx_output_ids cx) = unat (cp_n_batch ?cp)"
    using assms(1) by (auto simp: chat_cx_def LLAMA_MAX_SEQ_def)
  have n: "1 \<le> n" using assms(2) by (cases tokens) (simp_all add: n_def)
  obtain a where init: "balloc_init (cx_balloc cx) ?b (hp_n_vocab (cx_hparams cx)) (Some (kv_view ?kv))
      (hp_n_embd (cx_hparams cx)) ?m False = Some (True, a)" and fill: "text_filled a tokens (int k)"
    using text_init [OF assms(2,4) m, of "kv_view ?kv" "cx_balloc cx" "hp_n_embd (cx_hparams cx)"] kv_view_chat [OF kv]
    by (auto simp: n_def)
  note t = text_filledD [OF fill, folded n_def]
  let ?cx1 = "cx\<lparr>cx_balloc := a, cx_n_queued_tokens := cx_n_queued_tokens cx + n, cx_output_swaps := []\<rparr>"
  let ?cx2 = "?cx1\<lparr>cx_memory_force_optimize := False\<rparr>"
  let ?us = "text_ubatches a (unat (cp_n_ubatch ?cp)) 0 n"
  have upd: "kv_self_update dv False ?cx1 = Some (False, ?cx2)"
    using kv by (intro self_update_chat [of k]) simp
  obtain a' where place: "place_batch dv False ?cx2 =
      (if k + n \<le> kv_get_size ?kv then Some (Some (chat_slots k ?us, ?us), ?cx2\<lparr>cx_balloc := a'\<rparr>)
       else Some (None, ?cx2\<lparr>cx_balloc := a'\<rparr>))"
    and a': "ba_batch a' = ba_batch a" "ba_n_outputs a' = 1" "ba_out_ids a' = [n - 1]"
  proof -
    have pre: "chat_kv k (cx_kv ?cx2)" "text_filled (cx_balloc ?cx2) tokens (int k)" "1 \<le> unat (cp_n_ubatch (cx_cparams ?cx2))"
      using kv fill cp(1) by simp_all
    obtain a' where p: "place_batch dv False ?cx2 =
      (if k + length tokens \<le> kv_get_size (cx_kv ?cx2)
       then Some (Some (chat_slots k (text_ubatches (cx_balloc ?cx2) (unat (cp_n_ubatch (cx_cparams ?cx2))) 0 (length tokens)),
           text_ubatches (cx_balloc ?cx2) (unat (cp_n_ubatch (cx_cparams ?cx2))) 0 (length tokens)), ?cx2\<lparr>cx_balloc := a'\<rparr>)
       else Some (None, ?cx2\<lparr>cx_balloc := a', cx_memory_force_optimize := False\<rparr>))"
      "ba_batch a' = ba_batch (cx_balloc ?cx2)" "ba_n_outputs a' = 1" "ba_out_ids a' = [length tokens - 1]"
      using place_chat [OF pre(1,2) assms(2) pre(3), of dv] by blast
    then show ?thesis by (intro that [of a']) (simp_all add: n_def)
  qed
  let ?cx3 = "?cx2\<lparr>cx_balloc := a'\<rparr>"
  have c3: "chat_cx k ?cx3"
    using assms(1) by (simp add: chat_cx_def)
  define rest where "rest = (let (rows, cx) = output_reserve dv (get_n_outputs a) ?cx3 in
      if rows < get_n_outputs a then Some (-2, cx)
      else Option.bind (run_ubatches dv (get_n_outputs a) (get_n_tokens a) 0 (zip (chat_slots k ?us) ?us) cx)
        (\<lambda>(ret, cx). if ret \<noteq> 0 then Some (ret, cx)
          else Option.bind (map_outputs (cx\<lparr>cx_n_outputs := get_n_outputs a\<rparr>)) (\<lambda>cx. Some (0, cx))))"
  note rest = rest_def [unfolded t(9,10)]
  have dec: "decode dv ?b cx = (if k + n \<le> kv_get_size ?kv then rest else Some (1, ?cx3))"
  proof -
    have "\<not> (b_token ?b = None \<longleftrightarrow> b_embd ?b \<noteq> None) \<longleftrightarrow> False" "b_n_tokens ?b \<noteq> 0"
      using n by (simp_all add: llama_batch_get_one_def)
    with init t(9,10) assms(3) [folded n_def] cp(2,3) upd place show ?thesis
      unfolding decode_def Let_def rest_def by simp
  qed
  show ?thesis
  proof (cases "k + n \<le> kv_get_size ?kv")
    case False
    with dec c3 chat_at_self [OF kv] show ?thesis
      by (intro exI [of _ 1] exI [of _ 0] exI [of _ ?cx3]) simp
  next
    case True
    note dec = dec [unfolded if_P [OF True]]
    note if_P [OF True, simp]
    from output_reserve_one [OF c3, of dv] show ?thesis
    proof (elim exE conjE disjE)
      fix rows cx' oi
      assume "output_reserve dv 1 ?cx3 = (rows, cx')" "rows = 0"
        and al: "\<not> dv_alloc_output dv (cx_dev ?cx3) (unat (cp_n_seq_max (cx_cparams ?cx3)))"
        and cx': "cx' = ?cx3\<lparr>cx_output_ids := oi, cx_logits := []\<rparr>" and oi: "length oi = unat (cp_n_batch (cx_cparams ?cx3))"
      then have "decode dv ?b cx = Some (-2, cx')" using dec by (simp add: rest)
      moreover have "chat_cx k cx'" using c3 oi unfolding cx' by (simp add: chat_cx_def)
      ultimately show ?thesis
        using al n chat_at_self [OF kv] cx' by (intro exI [of _ "-2"] exI [of _ 0] exI [of _ cx']) auto
    next
      fix rows cx' lg
      assume res: "output_reserve dv 1 ?cx3 = (rows, cx')" "1 \<le> rows" and lg: "lg \<noteq> []"
        and cx': "cx' = ?cx3\<lparr>cx_output_ids := replicate (unat (cp_n_batch (cx_cparams ?cx3))) (-1), cx_logits := lg, cx_n_outputs := 0\<rparr>"
      let ?nb = "unat (cp_n_batch ?cp)"
      have pre: "chat_kv (k + 0) (cx_kv cx')" "k + length tokens \<le> kv_get_size (cx_kv cx')"
        "int (kv_get_size (cx_kv cx')) \<le> POS_MAX" "cx_logits cx' \<noteq> []"
        using kv size True lg unfolding cx' by (simp_all add: n_def)
      obtain ret j g no lg' where run: "run_ubatches dv 1 n 0 (zip (chat_slots k ?us) ?us) cx' =
          Some (ret, cx'\<lparr>cx_kv := chat_at (k + j) ?kv, cx_dev := g, cx_n_outputs := no, cx_logits := lg'\<rparr>)"
        and j: "j \<le> n" "ret = 0 \<longleftrightarrow> j = n" "ret \<in> {0, 2, -2, -3}" "computes_ok dv \<longrightarrow> ret = 0"
          "length lg' = length lg"
        and row: "ret = 0 \<longrightarrow> (\<exists>row. lg' ! 0 = Some row \<and> last_row dv (chat_at (k + n) ?kv) tokens g row)"
        using run_chat [OF fill cp(1) _ pre, of dv] assms(2) unfolding cx' by (auto simp: n_def)
      let ?cx4 = "cx'\<lparr>cx_kv := chat_at (k + j) ?kv, cx_dev := g, cx_n_outputs := no, cx_logits := lg'\<rparr>"
      have "k + j \<le> kv_get_size ?kv" using j(1) True by simp
      note at = chat_at_kv [OF kv this]
      show ?thesis
      proof (cases "ret = 0")
        case False
        then have "decode dv ?b cx = Some (ret, ?cx4)" using dec res run by (simp add: rest)
        moreover have "chat_cx (k + j) ?cx4" using c3 at unfolding cx' by (simp add: chat_cx_def)
        ultimately show ?thesis
          using False j cx' by (intro exI [of _ ret] exI [of _ j] exI [of _ ?cx4]) simp
      next
        case ok: True
        let ?cx5 = "?cx4\<lparr>cx_n_outputs := 1, cx_output_ids := (replicate ?nb (-1))[n - 1 := 0]\<rparr>"
        have "map_outputs (?cx4\<lparr>cx_n_outputs := 1\<rparr>) = Some ?cx5"
          using map_outputs_one [of "?cx4\<lparr>cx_n_outputs := 1\<rparr>" "n - 1" ?nb] a'(3) unfolding cx' by simp
        then have fin: "decode dv ?b cx = Some (0, ?cx5)" using dec res run ok by (simp add: rest)
        have cc: "chat_cx (k + j) ?cx5" using c3 at unfolding cx' by (simp add: chat_cx_def)
        have nb: "n - 1 < ?nb" using n assms(3) by (simp add: n_def)
        have "lg' \<noteq> []" using j(5) lg by auto
        then have "fst (get_logits_ith (int (n - 1)) ?cx5) = Some (lg' ! 0)" "fst (get_logits_ith (-1) ?cx5) = Some (lg' ! 0)"
          using get_logits_one [of ?cx5 ?nb "n - 1"] nb unfolding cx' by simp_all
        moreover have "int (n - 1) = int n - 1" using n by simp
        ultimately show ?thesis
          using fin cc ok j row cx' by (intro exI [of _ 0] exI [of _ j] exI [of _ ?cx5]) auto
      qed
    qed
  qed
qed

section \<open>The context the app creates\<close>

lemma cells_resize_chat: "cells_resize new_cells n = chat_cells n 0"
proof (rule kv_inv_eqI)
  show "kv_inv (cells_resize new_cells n)" "kv_inv (chat_cells n 0)"
    by (simp_all add: kv_inv_resize kv_inv_chat)
  have "kc_pos (cells_resize new_cells n) = replicate n (-1)" "kc_shift (cells_resize new_cells n) = replicate n 0"
    "kc_seq (cells_resize new_cells n) = replicate n {}"
    and sh: "kc_has_shift (cells_resize new_cells n) = False"
    by (simp_all add: cells_resize_def cells_reset_def resize_with_def new_cells_def map_replicate_const)
  moreover have "kc_pos (chat_cells n 0) = replicate n (-1)" "kc_seq (chat_cells n 0) = replicate n {}"
    by (simp_all add: chat_cells_def cells_of_def)
  ultimately show "cells_size (cells_resize new_cells n) = cells_size (chat_cells n 0)"
    "\<And>i. cell_at (cells_resize new_cells n) i = cell_at (chat_cells n 0) i"
    by (simp_all add: cells_size_def cell_at_def)
  show "kc_has_shift (cells_resize new_cells n) = kc_has_shift (chat_cells n 0)"
    using sh by simp
qed

lemma new_kv_chat:
  assumes "new_kv_cache True n n_seq_max n_pad n_swa LLAMA_SWA_TYPE_NONE set_rows = Some kv"
  shows "chat_kv 0 kv" and "kv_get_size kv = n"
proof -
  have kv: "kv_n_stream kv = 1" "kv_v_cells kv = [chat_cells n 0]" "kv_v_heads kv = [0]" "kv_sc_info kv = []"
    "kv_seq_to_stream kv = replicate LLAMA_MAX_SEQ 0" "kv_swa_type kv = LLAMA_SWA_TYPE_NONE"
    using assms by (auto simp: new_kv_cache_def Let_def cells_resize_chat split: if_splits)
  then show size: "kv_get_size kv = n"
    by (simp add: kv_get_size_def LLAMA_MAX_SEQ_def)
  show "chat_kv 0 kv"
    using kv size kv_inv_chat [of 0 n] by (auto simp: chat_kv_def plain_kv_def kv_wf_def LLAMA_MAX_SEQ_def)
qed


lemma n_batch_cap:
  fixes x :: uint32
  shows "unat (if min x 2048 < 64 then 64 else min x 2048) = max 64 (min (unat x) 2048)"
    and "1 \<le> unat (min (if min x 2048 < 64 then 64 else min x 2048) 512)"
  by (auto simp: min_def word_le_nat_alt word_less_nat_alt)

lemma app_context:
  fixes c :: uint32 and hp :: hparams and dv :: "('g, 'r) device"
  defines "n \<equiv> unat (if c = 0 then hp_n_ctx_train hp else c)"
  assumes "1 \<le> n" and "int n + 31 \<le> POS_MAX" and "hp_causal_attn hp" and "hp_swa_type hp = LLAMA_SWA_TYPE_NONE"
    and "dv_alloc_output dv g 1"
  shows "\<exists>cx. llama_init_from_model dv g hp (llama_context_default_params\<lparr>pr_n_ctx := c\<rparr>) False = Some cx \<and>
    chat_cx 0 cx \<and> kv_get_size (cx_kv cx) = (n + 31) div 32 * 32 \<and>
    unat (cp_n_ctx (cx_cparams cx)) = (n + 31) div 32 * 32 \<and>
    unat (cp_n_batch (cx_cparams cx)) = max 64 (min n 2048) \<and>
    cp_n_seq_max (cx_cparams cx) = 1 \<and> cx_hparams cx = hp"
proof -
  let ?n = "if c = 0 then hp_n_ctx_train hp else c"
  let ?p = "llama_context_default_params\<lparr>pr_n_ctx := c\<rparr>"
  let ?cp = "context_cparams hp ?p False"
  let ?size = "GGML_PAD ?n 32"
  have size: "unat ?size = (n + 31) div 32 * 32"
  proof -
    have "int n + 31 \<le> 2147483647" using assms(3) by (simp only: POS_MAX_def)
    then have "n + 2 ^ 5 \<le> 2 ^ 32" by simp
    from GGML_PAD_unat32 [OF _ this] have "unat (GGML_PAD (word_of_nat n :: uint32) 32) = (n + 31) div 32 * 32" by simp
    moreover have "word_of_nat n = ?n" unfolding n_def by (rule word_unat_eq_iff [THEN iffD2]) simp
    ultimately show ?thesis by simp
  qed
  have cp: "cp_n_ctx ?cp = ?n" "cp_kv_unified ?cp" "\<not> cp_flash_attn ?cp" "cp_n_seq_max ?cp = 1"
    "\<not> cp_embeddings ?cp" "cp_causal_attn ?cp"
    and batch: "cp_n_batch ?cp = (if min ?n 2048 < 64 then 64 else min ?n 2048)"
      "cp_n_ubatch ?cp = min (if min ?n 2048 < 64 then 64 else min ?n 2048) 512"
    using assms(4) by (simp_all add: context_cparams_def llama_context_default_params_def Let_def
      split del: if_split cong: if_cong)
  have cpn: "unat (cp_n_batch ?cp) = max 64 (min n 2048)" "1 \<le> unat (cp_n_ubatch ?cp)"
    unfolding batch n_def by (rule n_batch_cap)+
  have "int n + 31 \<le> POS_MAX" by (rule assms(3))
  then have max: "int (unat ?size) \<le> POS_MAX"
    unfolding size by linarith
  define kv where "kv = the (new_kv_cache True (unat ?size) 1 32 (hp_n_swa hp) LLAMA_SWA_TYPE_NONE False)"
  have kv: "new_kv_cache True (unat ?size) 1 32 (hp_n_swa hp) LLAMA_SWA_TYPE_NONE False = Some kv"
    using size by (simp add: kv_def new_kv_cache_def Let_def)
  note new = new_kv_chat [OF kv]
  let ?cp' = "?cp\<lparr>cp_n_ctx := ?size\<rparr>"
  have mem: "create_memory hp ?cp False = Some (kv, ?cp')"
    using cp(1-4) kv assms(5) by (simp add: create_memory_def get_padding_def Let_def)
  define cx where "cx = \<lparr>cx_cparams = ?cp', cx_hparams = hp, cx_balloc = new_balloc (hp_n_pos_per_embd hp),
    cx_kv = kv, cx_dev = g, cx_memory_force_optimize = False, cx_n_queued_tokens = 0,
    cx_n_outputs = 0, cx_output_ids = replicate (unat (cp_n_batch ?cp)) (-1), cx_output_swaps = [], cx_logits = [None :: 'r option]\<rparr>"
  have guards: "\<not> (pr_n_batch ?p = 0 \<and> pr_n_ubatch ?p = 0)" "\<not> (pr_n_ctx ?p = 0 \<and> hp_n_ctx_train hp = 0)"
    "\<not> LLAMA_MAX_SEQ < unat (cp_n_seq_max ?cp)" "unat (pr_n_seq_max ?p) = 1"
    using assms(2) cp(4) by (auto simp: llama_context_default_params_def n_def LLAMA_MAX_SEQ_def split: if_splits)
  have "llama_init_from_model dv g hp ?p False = Some cx"
    using guards mem assms(6) cp(4) unfolding llama_init_from_model_def Let_def
    by (simp add: output_reserve_def Let_def cx_def)
  moreover have "chat_cx 0 cx"
    using new max cp cpn(2) by (simp add: chat_cx_def cx_def LLAMA_MAX_SEQ_def)
  ultimately show ?thesis
    using new(2) size cp(4) cpn(1) by (intro exI [of _ cx]) (simp add: cx_def)
qed

text \<open>A small device, model and context: the row of logits is the last token of the micro-batch.\<close>

definition demo_device :: "(nat, llama_token) device" where
  "demo_device = \<lparr>dv_compute = (\<lambda>g kv sinfo u. (Inr [last (the (ub_token u))], g + 1)),
     dv_alloc_output = (\<lambda>_ _. True), dv_copy_streams = (\<lambda>g _. g), dv_shift = (\<lambda>g _. (True, g)),
     dv_defrag = (\<lambda>g _ _. (True, g))\<rparr>"

definition demo_hparams :: hparams where
  "demo_hparams = \<lparr>hp_n_ctx_train = 8192, hp_causal_attn = True, hp_n_embd = 8, hp_n_layer = 2, hp_rope = True,
     hp_n_swa = 0, hp_swa_type = LLAMA_SWA_TYPE_NONE, hp_n_pos_per_embd = 1, hp_n_vocab = 100, hp_n_tensors = 20\<rparr>"

definition demo_lctx :: "uint32 \<Rightarrow> (nat, llama_token) lctx" where
  "demo_lctx c = the (llama_init_from_model demo_device 0 demo_hparams (llama_context_default_params\<lparr>pr_n_ctx := c\<rparr>) False)"

lemma demo_device_ok: "computes_ok demo_device" "\<forall>g r. dv_alloc_output demo_device g r"
  by (simp_all add: computes_ok_def demo_device_def)

lemma demo_fields:
  "hp_causal_attn demo_hparams" "hp_swa_type demo_hparams = LLAMA_SWA_TYPE_NONE" "hp_n_vocab demo_hparams = 100"
  "dv_alloc_output demo_device g r"
  by (simp_all add: demo_hparams_def demo_device_def)

lemma demo_lctx:
  assumes "c \<noteq> 0" and "unat c \<le> 2147483616"
  shows "chat_cx 0 (demo_lctx c)" and "kv_get_size (cx_kv (demo_lctx c)) = (unat c + 31) div 32 * 32"
    and "unat (cp_n_ctx (cx_cparams (demo_lctx c))) = (unat c + 31) div 32 * 32"
    and "unat (cp_n_batch (cx_cparams (demo_lctx c))) = max 64 (min (unat c) 2048)"
    and "cp_n_seq_max (cx_cparams (demo_lctx c)) = 1" and "cx_hparams (demo_lctx c) = demo_hparams"
proof -
  have "1 \<le> unat c" using assms(1) by (simp add: Suc_le_eq unat_gt_0)
  moreover have "int (unat c) + 31 \<le> POS_MAX"
    using assms(2) unfolding POS_MAX_def by linarith
  ultimately have "\<exists>cx. llama_init_from_model demo_device 0 demo_hparams (llama_context_default_params\<lparr>pr_n_ctx := c\<rparr>) False = Some cx \<and>
    chat_cx 0 cx \<and> kv_get_size (cx_kv cx) = (unat c + 31) div 32 * 32 \<and>
    unat (cp_n_ctx (cx_cparams cx)) = (unat c + 31) div 32 * 32 \<and>
    unat (cp_n_batch (cx_cparams cx)) = max 64 (min (unat c) 2048) \<and>
    cp_n_seq_max (cx_cparams cx) = 1 \<and> cx_hparams cx = demo_hparams"
    using app_context [where c = c and hp = demo_hparams and dv = demo_device and g = 0, unfolded if_not_P [OF assms(1)]]
      demo_fields by blast
  then show "chat_cx 0 (demo_lctx c)" "kv_get_size (cx_kv (demo_lctx c)) = (unat c + 31) div 32 * 32"
    "unat (cp_n_ctx (cx_cparams (demo_lctx c))) = (unat c + 31) div 32 * 32"
    "unat (cp_n_batch (cx_cparams (demo_lctx c))) = max 64 (min (unat c) 2048)"
    "cp_n_seq_max (cx_cparams (demo_lctx c)) = 1" "cx_hparams (demo_lctx c) = demo_hparams"
    by (auto simp: demo_lctx_def)
qed

text \<open>
  The context that \<open>LLMInference::loadModel\<close> asks for (the default parameters with
  \<open>n_ctx\<close> set, no LLAMA\_SET\_ROWS) on a causal model without attention window: the cache is an
  empty chat; its size and \<open>llama_n_ctx\<close> are both the request rounded up to a multiple of
  32; but \<open>n_batch\<close> is capped at 2048, whatever the size of the context.
\<close>

theorem app_context_shape:
  fixes c :: uint32 and hp :: hparams and dv :: "('g, 'r) device"
  defines "n \<equiv> unat (if c = 0 then hp_n_ctx_train hp else c)"
  assumes "1 \<le> n" and "int n + 31 \<le> POS_MAX" and "hp_causal_attn hp" and "hp_swa_type hp = LLAMA_SWA_TYPE_NONE"
    and "dv_alloc_output dv g 1"
  shows "\<exists>cx. llama_init_from_model dv g hp (llama_context_default_params\<lparr>pr_n_ctx := c\<rparr>) False = Some cx \<and>
    chat_cx 0 cx \<and> kv_get_size (cx_kv cx) = (n + 31) div 32 * 32 \<and>
    unat (cp_n_ctx (cx_cparams cx)) = (n + 31) div 32 * 32 \<and>
    unat (cp_n_batch (cx_cparams cx)) = max 64 (min n 2048) \<and>
    cp_n_seq_max (cx_cparams cx) = 1 \<and> cx_hparams cx = hp"
  using assms(2-6) unfolding n_def by (rule app_context)

theorem app_context_shape_witness:
  "\<exists>cx. llama_init_from_model demo_device 0 demo_hparams (llama_context_default_params\<lparr>pr_n_ctx := 4000\<rparr>) False = Some cx \<and>
    chat_cx 0 cx \<and> kv_get_size (cx_kv cx) = 4000 \<and> unat (cp_n_batch (cx_cparams cx)) = 2048"
  using app_context_shape [where c = 4000 and hp = demo_hparams and dv = demo_device and g = 0]
  by (fastforce simp: demo_hparams_def demo_device_def POS_MAX_def)

section \<open>The three outcomes of decoding a text batch\<close>

text \<open>
  C4. Decoding succeeds whenever there is room. A context whose cache holds the positions
  \<open>0..k-1\<close> of one sequence decodes a batch of \<open>n\<close> valid tokens, \<open>n\<close> within
  \<open>n_batch\<close> and \<open>k + n\<close> within the cache, with result 0 as soon as the device
  computes and allocates; the cache then holds exactly \<open>0..k+n-1\<close>, and the row of logits
  of the last token is the one the last computation returned, read by its index or as \<open>-1\<close>.
\<close>

theorem decode_text_complete:
  assumes "chat_cx k cx" and "tokens \<noteq> []" and "length tokens \<le> unat (cp_n_batch (cx_cparams cx))"
    and "\<forall>t\<in>set tokens. 0 \<le> t \<and> t < int (hp_n_vocab (cx_hparams cx))"
    and "k + length tokens \<le> kv_get_size (cx_kv cx)"
    and "computes_ok dv" and "\<forall>g r. dv_alloc_output dv g r"
  shows "\<exists>cx' row. decode dv (llama_batch_get_one tokens (int (length tokens))) cx = Some (0, cx') \<and>
    chat_cx (k + length tokens) cx' \<and>
    fst (get_logits_ith (int (length tokens) - 1) cx') = Some (Some row) \<and>
    fst (get_logits_ith (-1) cx') = Some (Some row) \<and>
    last_row dv (cx_kv cx') tokens (cx_dev cx') row"
proof -
  obtain ret j cx' where d: "decode dv (llama_batch_get_one tokens (int (length tokens))) cx = Some (ret, cx')"
    "chat_cx (k + j) cx'" "ret = 0 \<longleftrightarrow> j = length tokens" "ret = 0"
    "\<exists>row. fst (get_logits_ith (int (length tokens) - 1) cx') = Some (Some row) \<and>
          fst (get_logits_ith (-1) cx') = Some (Some row) \<and> last_row dv (cx_kv cx') tokens (cx_dev cx') row"
    using decode_chat [OF assms(1-4), of dv] assms(5-7) by fastforce
  then show ?thesis by auto
qed

theorem decode_text_complete_witness:
  "\<exists>cx'. decode demo_device (llama_batch_get_one [5, 6, 7] 3) (demo_lctx 64) = Some (0, cx') \<and>
    chat_cx 3 cx' \<and> fst (get_logits_ith (-1) cx') = Some (Some 7)"
proof -
  have c: "(64 :: uint32) \<noteq> 0" "unat (64 :: uint32) \<le> 2147483616" by simp_all
  note d = demo_lctx [OF c]
  have "row = 7" if "last_row demo_device kv [5, 6, 7] g row" for kv g row
    using that by (auto simp: last_row_def demo_device_def suffix_def) (metis last.simps last_appendR list.discI)
  note row = this
  have h: "[5, 6, 7 :: int] \<noteq> []" "length [5, 6, 7 :: int] \<le> unat (cp_n_batch (cx_cparams (demo_lctx 64)))"
    "\<forall>t\<in>set [5, 6, 7]. 0 \<le> t \<and> t < int (hp_n_vocab (cx_hparams (demo_lctx 64)))"
    "0 + length [5, 6, 7 :: int] \<le> kv_get_size (cx_kv (demo_lctx 64))"
    by (simp_all add: d(2,4,6) demo_fields)
  from decode_text_complete [OF d(1) h demo_device_ok] obtain cx' r where
    "decode demo_device (llama_batch_get_one [5, 6, 7] (int (length [5, 6, 7 :: int]))) (demo_lctx 64) = Some (0, cx')"
    "chat_cx (0 + length [5, 6, 7 :: int]) cx'" "fst (get_logits_ith (-1) cx') = Some (Some r)"
    "last_row demo_device (cx_kv cx') [5, 6, 7] (cx_dev cx') r" by blast
  with row [of "cx_kv cx'" "cx_dev cx'" r] show ?thesis
    by (intro exI [of _ cx']) (simp add: eval_nat_numeral)
qed

text \<open>
  C14. Whatever the device does, the return code tells how much of the batch the cache holds: 0 is
  all of it; 2 (aborted), \<open>-2\<close> (allocation) and \<open>-3\<close> (failed) leave a proper prefix,
  the micro-batches processed before the failure, and nothing of the failed one.
\<close>

theorem decode_failure_keeps_prefix:
  assumes "chat_cx k cx" and "tokens \<noteq> []" and "length tokens \<le> unat (cp_n_batch (cx_cparams cx))"
    and "\<forall>t\<in>set tokens. 0 \<le> t \<and> t < int (hp_n_vocab (cx_hparams cx))"
    and "k + length tokens \<le> kv_get_size (cx_kv cx)"
  shows "\<exists>ret j cx'. decode dv (llama_batch_get_one tokens (int (length tokens))) cx = Some (ret, cx') \<and>
    ret \<in> {0, 2, -2, -3} \<and> j \<le> length tokens \<and> (ret = 0 \<longleftrightarrow> j = length tokens) \<and>
    chat_cx (k + j) cx' \<and> cx_kv cx' = chat_at (k + j) (cx_kv cx)"
proof -
  show ?thesis
    using decode_chat [OF assms(1-4), of dv] assms(5) by simp blast
qed

theorem decode_failure_keeps_prefix_witness:
  "\<exists>ret j cx'. decode (demo_device\<lparr>dv_compute := \<lambda>g kv sinfo u. (Inl GGML_STATUS_ABORTED, g)\<rparr>)
      (llama_batch_get_one [5, 6, 7] 3) (demo_lctx 64) = Some (ret, cx') \<and> j \<le> 3 \<and> chat_cx j cx'"
proof -
  have c: "(64 :: uint32) \<noteq> 0" "unat (64 :: uint32) \<le> 2147483616" by simp_all
  note d = demo_lctx [OF c]
  have h: "[5, 6, 7 :: int] \<noteq> []" "length [5, 6, 7 :: int] \<le> unat (cp_n_batch (cx_cparams (demo_lctx 64)))"
    "\<forall>t\<in>set [5, 6, 7]. 0 \<le> t \<and> t < int (hp_n_vocab (cx_hparams (demo_lctx 64)))"
    "0 + length [5, 6, 7 :: int] \<le> kv_get_size (cx_kv (demo_lctx 64))"
    by (simp_all add: d(2,4,6) demo_fields)
  from decode_failure_keeps_prefix [OF d(1) h,
      of "demo_device\<lparr>dv_compute := \<lambda>g kv sinfo u. (Inl GGML_STATUS_ABORTED, g)\<rparr>"]
  obtain ret j cx' where "decode (demo_device\<lparr>dv_compute := \<lambda>g kv sinfo u. (Inl GGML_STATUS_ABORTED, g)\<rparr>)
      (llama_batch_get_one [5, 6, 7] (int (length [5, 6, 7 :: int]))) (demo_lctx 64) = Some (ret, cx')"
    "j \<le> length [5, 6, 7 :: int]" "chat_cx (0 + j) cx'" by blast
  then show ?thesis
    by (intro exI [of _ ret] exI [of _ j] exI [of _ cx']) simp
qed

text \<open>
  C34. A context whose cache holds the positions \<open>0..k-1\<close> of its one sequence without a gap, and a batch of
  at least one and at most \<open>n_batch\<close> valid tokens for which there is no room: decoding tries to free some
  (there is nothing to move), returns 1, and the cache is exactly as it was.
\<close>

theorem decode_without_room:
  assumes "chat_cx k cx" and "tokens \<noteq> []" and "length tokens \<le> unat (cp_n_batch (cx_cparams cx))"
    and "\<forall>t\<in>set tokens. 0 \<le> t \<and> t < int (hp_n_vocab (cx_hparams cx))"
    and "kv_get_size (cx_kv cx) < k + length tokens"
  shows "\<exists>cx'. decode dv (llama_batch_get_one tokens (int (length tokens))) cx = Some (1, cx') \<and>
    chat_cx k cx' \<and> cx_kv cx' = cx_kv cx"
proof -
  have "chat_at k (cx_kv cx) = cx_kv cx"
    using assms(1) by (simp add: chat_cx_def chat_at_self)
  then show ?thesis
    using decode_chat [OF assms(1-4), of dv] assms(5) by auto
qed

theorem decode_without_room_witness:
  "\<exists>cx'. decode demo_device (llama_batch_get_one (replicate 33 5) 33) (demo_lctx 32) = Some (1, cx') \<and>
    cx_kv cx' = cx_kv (demo_lctx 32)"
proof -
  have c: "(32 :: uint32) \<noteq> 0" "unat (32 :: uint32) \<le> 2147483616" by simp_all
  note d = demo_lctx [OF c]
  have h: "replicate 33 (5 :: int) \<noteq> []" "length (replicate 33 (5 :: int)) \<le> unat (cp_n_batch (cx_cparams (demo_lctx 32)))"
    "\<forall>t\<in>set (replicate 33 5). 0 \<le> t \<and> t < int (hp_n_vocab (cx_hparams (demo_lctx 32)))"
    "kv_get_size (cx_kv (demo_lctx 32)) < 0 + length (replicate 33 (5 :: int))"
    by (simp_all add: d(2,4,6) demo_fields)
  have "decode demo_device (llama_batch_get_one (replicate 33 5) (int (length (replicate 33 (5 :: int))))) (demo_lctx 32) =
    decode demo_device (llama_batch_get_one (replicate 33 5) 33) (demo_lctx 32)" by simp
  with decode_without_room [OF d(1) h, of demo_device] show ?thesis
    by metis
qed

text \<open>Beyond \<open>n_batch\<close> an assertion fails; invalid or no tokens are refused.\<close>

lemma decode_over_batch:
  assumes "chat_cx k cx" and "unat (cp_n_batch (cx_cparams cx)) < length tokens"
    and "\<forall>t\<in>set tokens. 0 \<le> t \<and> t < int (hp_n_vocab (cx_hparams cx))"
  shows "decode dv (llama_batch_get_one tokens (int (length tokens))) cx = None"
proof -
  let ?b = "llama_batch_get_one tokens (int (length tokens))" and ?cp = "cx_cparams cx"
  let ?m = "if cp_kv_unified ?cp then LLAMA_MAX_SEQ else unat (cp_n_seq_max ?cp)"
  have kv: "chat_kv k (cx_kv cx)" and cp: "\<not> cp_embeddings ?cp" and m: "1 \<le> ?m" "?m \<le> LLAMA_MAX_SEQ"
    and ne: "tokens \<noteq> []"
    using assms(1,2) by (auto simp: chat_cx_def LLAMA_MAX_SEQ_def)
  obtain a where init: "balloc_init (cx_balloc cx) ?b (hp_n_vocab (cx_hparams cx)) (Some (kv_view (cx_kv cx)))
      (hp_n_embd (cx_hparams cx)) ?m False = Some (True, a)" and fill: "text_filled a tokens (int k)"
    using text_init [OF ne assms(3) m, of "kv_view (cx_kv cx)" "cx_balloc cx" "hp_n_embd (cx_hparams cx)"] kv_view_chat [OF kv]
    by auto
  have "\<not> (b_token ?b = None \<longleftrightarrow> b_embd ?b \<noteq> None) \<longleftrightarrow> False" "b_n_tokens ?b \<noteq> 0"
    using ne by (simp_all add: llama_batch_get_one_def)
  with init text_filledD(9) [OF fill] assms(2) cp show ?thesis
    unfolding decode_def Let_def by simp
qed

lemma decode_invalid:
  assumes "chat_cx k cx" and "\<not> (\<forall>t\<in>set tokens. 0 \<le> t \<and> t < int (hp_n_vocab (cx_hparams cx))) \<or> tokens = []"
  shows "\<exists>a. decode dv (llama_batch_get_one tokens (int (length tokens))) cx = Some (-1, cx\<lparr>cx_balloc := a\<rparr>)"
proof (cases "tokens = []")
  case True
  then have "decode dv (llama_batch_get_one tokens (int (length tokens))) cx = Some (-1, cx)"
    by (simp add: decode_def llama_batch_get_one_def)
  moreover have "cx = cx\<lparr>cx_balloc := cx_balloc cx\<rparr>" by simp
  ultimately show ?thesis by metis
next
  case False
  let ?b = "llama_batch_get_one tokens (int (length tokens))"
  obtain i where "i < length tokens" "\<not> (0 \<le> tokens ! i \<and> tokens ! i < int (hp_n_vocab (cx_hparams cx)))"
    using False assms(2) by (metis in_set_conv_nth)
  then have "\<not> batch_valid ?b (hp_n_vocab (cx_hparams cx)) m" for m
    by (auto simp: batch_valid_def llama_batch_get_one_def list_all_iff)
  then show ?thesis
    using False unfolding decode_def Let_def
    by (auto simp: balloc_init_def Let_def llama_batch_get_one_def)
qed

lemma decode_keeps_chat:
  assumes "chat_cx k cx" and "decode dv (llama_batch_get_one tokens (int (length tokens))) cx = Some (ret, cx')"
  shows "\<exists>k'\<ge>k. chat_cx k' cx' \<and> cx_cparams cx' = cx_cparams cx \<and> cx_hparams cx' = cx_hparams cx \<and>
    kv_get_size (cx_kv cx') = kv_get_size (cx_kv cx)"
proof (cases "(\<forall>t\<in>set tokens. 0 \<le> t \<and> t < int (hp_n_vocab (cx_hparams cx))) \<and> tokens \<noteq> []")
  case False
  then obtain a where "cx' = cx\<lparr>cx_balloc := a\<rparr>"
    using decode_invalid [OF assms(1), of tokens dv] assms(2) by auto
  with assms(1) show ?thesis by (auto simp: chat_cx_def intro!: exI [of _ k])
next
  case True
  have "length tokens \<le> unat (cp_n_batch (cx_cparams cx))"
    using decode_over_batch [OF assms(1), of tokens dv] True assms(2) by (metis not_le_imp_less option.distinct(1))
  from decode_chat [OF assms(1) _ this, of dv] True assms(2) obtain j where j: "chat_cx (k + j) cx'"
    "cx_kv cx' = chat_at (k + j) (cx_kv cx)" "cx_cparams cx' = cx_cparams cx" "cx_hparams cx' = cx_hparams cx"
    and le: "j \<le> length tokens" "k + length tokens \<le> kv_get_size (cx_kv cx) \<or> j = 0"
    by (auto split: if_splits)
  have kv: "chat_kv k (cx_kv cx)" using assms(1) by (simp add: chat_cx_def)
  have "k + j \<le> kv_get_size (cx_kv cx)" using le chat_kvD(2) [OF kv] by auto
  from chat_at_kv(2) [OF kv this] j show ?thesis by (intro exI [of _ "k + j"]) simp
qed

text \<open>In a chat of one sequence the used cells are the tokens seen.\<close>

lemma self_used_chat:
  assumes "chat_cx k cx" and "cp_n_seq_max (cx_cparams cx) = 1"
  shows "kv_self_used_cells cx = int k"
proof -
  have kv: "chat_kv k (cx_kv cx)" using assms(1) by (simp add: chat_cx_def)
  note c = chat_kvD [OF kv]
  have "kv_seq_pos_min (cx_kv cx) 0 = Some (if 0 < k then 0 else -1)" "kv_seq_pos_max (cx_kv cx) 0 = Some (int k - 1)"
    using c chat_seq_pos [of k "kv_get_size (cx_kv cx)" 0] by (simp_all add: kv_seq_pos_min_def kv_seq_pos_max_def)
  then show ?thesis
    using assms(2) by (simp add: kv_self_used_cells_def Let_def)
qed

end
