(* ===== verification/Chat_Engine.thy ===== *)
theory Chat_Engine
  imports LLM_Inference Chat_Cache
begin

text \<open>
  The app's engine on the modelled inference context: the functions of \<open>llama.h\<close> that
  \<open>LLMInference\<close> calls, given by the definitions of \<open>Llama_Context\<close>; what the
  engine relies on, as two locales; and what the composition guarantees, a chat whose cache never
  has a gap, responses that end, and the prompt that aborts the process.
\<close>

section \<open>The engine over the modelled context\<close>

text \<open>
  The functions that \<open>LLMInference\<close> calls, on the modelled context: a state is the state of
  the sampler and the context, \<open>None\<close> once the process is gone (a failed assertion, or a row of
  logits that does not exist).
\<close>

type_synonym ('s, 'g, 'r) native = "'s \<times> ('g, 'r) lctx option"

fun native_decode :: "('g, 'r) device \<Rightarrow> ('s, 'g, 'r) native \<Rightarrow> llama_token list \<Rightarrow> int \<times> ('s, 'g, 'r) native" where
  "native_decode dv (sm, None) tokens = (0, (sm, None))"
| "native_decode dv (sm, Some cx) tokens =
     (case decode dv (llama_batch_get_one tokens (int (length tokens))) cx of
        None \<Rightarrow> (0, (sm, None))
      | Some (ret, cx) \<Rightarrow> (ret, (sm, Some cx)))"

fun native_sample :: "('s \<Rightarrow> 'r \<Rightarrow> llama_token \<times> 's) \<Rightarrow> ('s, 'g, 'r) native \<Rightarrow> llama_token \<times> ('s, 'g, 'r) native" where
  "native_sample sample (sm, None) = (0, (sm, None))"
| "native_sample sample (sm, Some cx) =
     (case get_logits_ith (-1) cx of
        (Some (Some row), cx) \<Rightarrow> (let (token, sm) = sample sm row in (token, (sm, Some cx)))
      | _ \<Rightarrow> (0, (sm, None)))"

record ('s, 'r) text_fns =
  tf_sample :: "'s \<Rightarrow> 'r \<Rightarrow> llama_token \<times> 's"
  tf_is_eog :: "llama_token \<Rightarrow> bool"
  tf_piece :: "llama_token \<Rightarrow> string"
  tf_tokenize :: "string \<Rightarrow> llama_token list option"
  tf_template :: "string option"

definition native_engine :: "('g, 'r) device \<Rightarrow> ('s, 'r) text_fns \<Rightarrow> ('s, 'g, 'r) native engine" where
  "native_engine dv fns = \<lparr>
     llama_n_ctx = (\<lambda>(sm, cx). cp_n_ctx (cx_cparams (the cx))),
     llama_kv_self_used_cells = (\<lambda>(sm, cx). kv_self_used_cells (the cx)),
     llama_decode = native_decode dv,
     llama_sampler_sample = native_sample (tf_sample fns),
     llama_vocab_is_eog = tf_is_eog fns,
     common_token_to_piece = tf_piece fns,
     common_tokenize = tf_tokenize fns,
     llama_model_chat_template = tf_template fns\<rparr>"

text \<open>The contexts of a chat whose guard and cache agree on the size.\<close>

definition app_cx :: "nat \<Rightarrow> ('g, 'r) lctx \<Rightarrow> bool" where
  "app_cx k cx = (chat_cx k cx \<and> cp_n_seq_max (cx_cparams cx) = 1 \<and>
     unat (cp_n_ctx (cx_cparams cx)) = kv_get_size (cx_kv cx))"

lemma chat_cx_sampled: "chat_cx k (snd (get_logits_ith i cx)) = chat_cx k cx"
  by (simp add: get_logits_ith_def output_reorder_def Let_def chat_cx_def)

lemma app_cx_sampled: "app_cx k (snd (get_logits_ith i cx)) = app_cx k cx"
  unfolding app_cx_def chat_cx_sampled by (simp add: get_logits_ith_def output_reorder_def Let_def)

lemma app_cx_decode:
  assumes "app_cx k cx" and "decode dv (llama_batch_get_one tokens (int (length tokens))) cx = Some (ret, cx')"
  shows "\<exists>k'\<ge>k. app_cx k' cx'"
  using decode_keeps_chat [OF _ assms(2), of k] assms(1) by (auto simp: app_cx_def)

definition native_ok :: "nat \<Rightarrow> ('s, 'g, 'r) native \<Rightarrow> bool" where
  "native_ok k c = (case snd c of None \<Rightarrow> True | Some cx \<Rightarrow> \<exists>k'\<ge>k. app_cx k' cx)"

lemma native_decode_ok:
  assumes "native_ok k c"
  shows "native_ok k (snd (native_decode dv c tokens))"
proof (cases "snd c")
  case None
  then have "native_decode dv c tokens = (0, (fst c, None))" by (cases c) simp
  then show ?thesis by (simp add: native_ok_def)
next
  case (Some cx)
  then obtain k' where k: "k \<le> k'" "app_cx k' cx" using assms by (auto simp: native_ok_def)
  show ?thesis
  proof (cases "decode dv (llama_batch_get_one tokens (int (length tokens))) cx")
    case None
    with Some show ?thesis by (cases c) (simp add: native_ok_def)
  next
    case d: (Some r)
    obtain ret cx' where r: "r = (ret, cx')" by fastforce
    obtain k'' where "k' \<le> k''" "app_cx k'' cx'"
      using app_cx_decode [OF k(2)] d r by blast
    with k Some d r show ?thesis
      by (cases c) (auto simp: native_ok_def intro!: exI [of _ k''])
  qed
qed

lemma native_sample_ok: "native_ok k c \<Longrightarrow> native_ok k (snd (native_sample f c))"
proof (cases "(f, c)" rule: native_sample.cases)
  case (2 f sm cx)
  assume "native_ok k c"
  then obtain k' where k: "k \<le> k'" "app_cx k' (snd (get_logits_ith (-1) cx))"
    using 2 app_cx_sampled by (auto simp: native_ok_def)
  obtain r cx' where g: "get_logits_ith (-1) cx = (r, cx')" by fastforce
  with k 2 show ?thesis
    by (auto simp: native_ok_def split: option.split prod.split)
qed (simp add: native_ok_def)


section \<open>What the engine promises, and what the app gets from it\<close>

text \<open>A property of the engine's state that decoding and sampling keep holds along every run of the app.\<close>

locale engine_state =
  fixes E :: "'c engine"
    and good :: "'c \<Rightarrow> bool"
  assumes decode_good: "good c \<Longrightarrow> good (snd (llama_decode E c tokens))"
    and sample_good: "good c \<Longrightarrow> good (snd (llama_sampler_sample E c))"
begin

lemma loop_good:
  assumes "good (ctx s)"
  shows "good (ctx (snd (completionLoop E t0 t1 s)))"
proof -
  have emit: "ctx (snd (emit_piece s)) = ctx s" for s :: "'c llm"
    by (simp add: emit_piece_def Let_def split: option.split)
  obtain ret c where d: "llama_decode E (ctx s) (batch_tokens s) = (ret, c)" by fastforce
  obtain tok c' where t: "llama_sampler_sample E c = (tok, c')" by fastforce
  have g: "good c" using decode_good [OF assms, of "batch_tokens s"] d by simp
  have g': "good c'" using sample_good [OF g] t by simp
  show ?thesis
    using assms d t g g' emit
    by (auto simp: completionLoop_def Let_def case_prod_beta)
qed

lemma step_good:
  assumes "llm_step E s out s'" and "good (ctx s)"
  shows "good (ctx s')"
  using assms(1)
proof cases
  case (start query res)
  then show ?thesis using startCompletion_frame(6) [of E query s] assms(2) by simp
next
  case (loop_returns t0 t1)
  then show ?thesis using loop_good [OF assms(2), of t0 t1] by simp
next
  case (loop_throws t0 t1 e)
  then show ?thesis using loop_good [OF assms(2), of t0 t1] by simp
next
  case (stop res)
  then show ?thesis using assms(2) by (auto simp: stopCompletion_def Let_def split: if_splits)
qed (use assms(2) in \<open>auto simp: setStopWords_def\<close>)

lemma run_good:
  assumes "llm_run E s outs s'" and "good (ctx s)"
  shows "good (ctx s')"
proof -
  have "llm_run E' s outs s' \<Longrightarrow> E' = E \<Longrightarrow> good (ctx s) \<Longrightarrow> good (ctx s')" for E'
    by (induction rule: llm_run.induct) (auto dest: step_good)
  then show ?thesis using assms by blast
qed

end

text \<open>
  An engine whose contexts count the tokens they have seen: within the size of the context, valid
  tokens are decoded, and the token sampled then is valid.
\<close>

locale engine_room =
  fixes E :: "'c engine"
    and seen :: "'c \<Rightarrow> nat \<Rightarrow> bool"
    and valid :: "llama_token list \<Rightarrow> bool"
    and n_ctx :: nat
  assumes seen_used: "seen c k \<Longrightarrow> llama_kv_self_used_cells E c = int k"
    and seen_n_ctx: "seen c k \<Longrightarrow> unat (llama_n_ctx E c) = n_ctx"
    and seen_le: "seen c k \<Longrightarrow> k \<le> n_ctx \<and> n_ctx < 2 ^ 31"
    and decode_seen: "seen c k \<Longrightarrow> valid toks \<Longrightarrow> k + length toks \<le> n_ctx \<Longrightarrow>
      \<exists>c' tok c''. llama_decode E c toks = (0, c') \<and> llama_sampler_sample E c' = (tok, c'') \<and>
        seen c'' (k + length toks) \<and> valid [tok]"
begin

definition ready :: "nat \<Rightarrow> nat \<Rightarrow> 'c llm \<Rightarrow> bool" where
  "ready k n s = (seen (ctx s) k \<and> valid (batch_tokens s) \<and> length (batch_tokens s) = n \<and>
     batch_n_tokens s = int n)"

lemma emit_piece_ready: "ready k n (snd (emit_piece s)) = ready k n s"
  by (simp add: emit_piece_def ready_def batch_tokens_def Let_def split: option.split token_ptr.split)

lemma loop_room:
  assumes "ready k n s" and "k + n < 2 ^ 32"
  shows "if k + n \<le> n_ctx
    then \<exists>out s'. completionLoop E t0 t1 s = (Inr out, s') \<and> seen (ctx s') (k + n) \<and>
      (out = ''[EOG]'' \<or> ready (k + n) 1 s')
    else completionLoop E t0 t1 s = (Inl ContextSizeReached, s\<lparr>nCtxUsed := int k\<rparr>)"
proof -
  have s: "seen (ctx s) k" "valid (batch_tokens s)" "length (batch_tokens s) = n" "batch_n_tokens s = int n"
    using assms(1) by (simp_all add: ready_def)
  have "int k + int n = int (k + n)" by simp
  then have "uint (word_of_int (int k + int n) :: uint32) = int (k + n)"
    using uint32_of_int_small [of "int (k + n)"] assms(2) by simp
  moreover have size: "uint (llama_n_ctx E (ctx s)) = int n_ctx"
    using seen_n_ctx [OF s(1)] by (metis of_nat_unat)
  ultimately have guard: "(word_of_int (int k + int n) :: uint32) > llama_n_ctx E (ctx s) \<longleftrightarrow> n_ctx < k + n"
    by (simp add: word_less_def size) linarith
  show ?thesis
  proof (cases "k + n \<le> n_ctx")
    case False
    then show ?thesis
      using guard seen_used [OF s(1)] s(4) by (simp add: completionLoop_def Let_def)
  next
    case True
    from decode_seen [OF s(1,2)] True s(3) obtain c' tok c'' where
      d: "llama_decode E (ctx s) (batch_tokens s) = (0, c')" "llama_sampler_sample E c' = (tok, c'')"
      "seen c'' (k + n)" "valid [tok]" by auto
    let ?t = "\<lambda>piece. s\<lparr>nCtxUsed := int k, ctx := c'', currToken := tok,
      responseGenerationTime := responseGenerationTime s + (t1 - t0), responseNumTokens := responseNumTokens s + 1,
      cacheResponseTokens := cacheResponseTokens s @ piece, batch_token := CurrToken, batch_n_tokens := 1\<rparr>"
    have "ready (k + n) 1 (?t piece)" for piece
      using d by (simp add: ready_def batch_tokens_def)
    then have "ready (k + n) 1 (snd (emit_piece (?t piece)))" for piece
      by (simp add: emit_piece_ready)
    moreover have "completionLoop E t0 t1 s =
      (if llama_vocab_is_eog E tok
       then (Inr ''[EOG]'', (addChatMessage (response s) ''assistant'' (s\<lparr>nCtxUsed := int k, ctx := c'', currToken := tok\<rparr>))\<lparr>response := []\<rparr>)
       else (Inr (fst (emit_piece (?t (common_token_to_piece E tok)))), snd (emit_piece (?t (common_token_to_piece E tok)))))"
      using guard seen_used [OF s(1)] s(4) d(1,2) True
      by (simp add: completionLoop_def Let_def case_prod_beta not_less)
    ultimately show ?thesis
      using True d(3) by (simp add: ready_def)
  qed
qed

text \<open>Responses end: by themselves, or with the context filled to the last cell.\<close>

lemma response_room:
  assumes "ready k n s" and "k + n < 2 ^ 32" and "n_ctx + 2 \<le> k + n + length ts" and "ts \<noteq> []"
  shows "\<exists>res s' k'. response_loop E ts acc s = Some (res, s') \<and> seen (ctx s') k' \<and> k \<le> k' \<and>
    ((\<exists>r. res = Inr r) \<or> res = Inl ContextSizeReached \<and> k' = (if k + n \<le> n_ctx then n_ctx else k))"
  using assms
proof (induction ts arbitrary: k n acc s)
  case (Cons t ts)
  obtain t0 t1 where t: "t = (t0, t1)" by fastforce
  note loop = loop_room [OF Cons.prems(1,2), of t0 t1]
  show ?case
  proof (cases "k + n \<le> n_ctx")
    case False
    then show ?thesis
      using loop Cons.prems(1) by (simp add: t ready_def)
  next
    case True
    with loop obtain out s' where c: "completionLoop E t0 t1 s = (Inr out, s')" "seen (ctx s') (k + n)"
      and nxt: "out = ''[EOG]'' \<or> ready (k + n) 1 s'" by auto
    show ?thesis
    proof (cases "out = ''[EOG]''")
      case True
      with c show ?thesis by (auto simp: t intro!: exI [of _ "k + n"])
    next
      case False
      then have r: "ready (k + n) 1 s'" using nxt by simp
      have "k + n + 1 < 2 ^ 32" "n_ctx + 2 \<le> k + n + 1 + length ts" "ts \<noteq> []"
        using True seen_le [OF c(2)] Cons.prems(3) by auto
      from Cons.IH [OF r this, of "acc @ out"] obtain res s'' k' where
        "response_loop E ts (acc @ out) s' = Some (res, s'')" "seen (ctx s'') k'" "k + n \<le> k'"
        "(\<exists>r. res = Inr r) \<or> res = Inl ContextSizeReached \<and> k' = (if k + n + 1 \<le> n_ctx then n_ctx else k + n)"
        by blast
      then show ?thesis
        using c(1) False True
        by (intro exI [of _ res] exI [of _ s''] exI [of _ k']) (auto simp: t split: if_splits)
    qed
  qed
qed simp

end

section \<open>The modelled context provides what the engine promises\<close>

lemma get_logits_frame:
  "cx_kv (snd (get_logits_ith i cx)) = cx_kv cx" "cx_cparams (snd (get_logits_ith i cx)) = cx_cparams cx"
  "cx_hparams (snd (get_logits_ith i cx)) = cx_hparams cx"
  by (simp_all add: get_logits_ith_def output_reorder_def Let_def)

text \<open>
  A context of a chat that has seen \<open>k\<close> tokens, with a device that computes and allocates and
  a sampler that picks tokens of the vocabulary; and the batches it accepts.
\<close>

definition native_seen :: "('g, 'r) device \<Rightarrow> ('s, 'r) text_fns \<Rightarrow> nat \<Rightarrow> nat \<Rightarrow> nat \<Rightarrow> ('s, 'g, 'r) native \<Rightarrow> nat \<Rightarrow> bool" where
  "native_seen dv fns n_vocab n_batch n_ctx c k =
     (computes_ok dv \<and> (\<forall>g r. dv_alloc_output dv g r) \<and>
      (\<forall>sm row. 0 \<le> fst (tf_sample fns sm row) \<and> fst (tf_sample fns sm row) < int n_vocab) \<and> 1 \<le> n_batch \<and>
      (\<exists>cx. snd c = Some cx \<and> app_cx k cx \<and> kv_get_size (cx_kv cx) = n_ctx \<and>
         hp_n_vocab (cx_hparams cx) = n_vocab \<and> unat (cp_n_batch (cx_cparams cx)) = n_batch))"

definition native_valid :: "nat \<Rightarrow> nat \<Rightarrow> llama_token list \<Rightarrow> bool" where
  "native_valid n_vocab n_batch toks =
     (toks \<noteq> [] \<and> length toks \<le> n_batch \<and> (\<forall>t\<in>set toks. 0 \<le> t \<and> t < int n_vocab))"

lemma native_decode_seen:
  assumes "native_seen dv fns nv nb n c k" and "native_valid nv nb toks" and "k + length toks \<le> n"
  shows "\<exists>c' tok c''. native_decode dv c toks = (0, c') \<and> native_sample (tf_sample fns) c' = (tok, c'') \<and>
    native_seen dv fns nv nb n c'' (k + length toks) \<and> native_valid nv nb [tok]"
proof -
  obtain sm cx where cx: "c = (sm, Some cx)" "app_cx k cx" "kv_get_size (cx_kv cx) = n"
    "hp_n_vocab (cx_hparams cx) = nv" "unat (cp_n_batch (cx_cparams cx)) = nb"
    and ok: "computes_ok dv" "\<forall>g r. dv_alloc_output dv g r" "1 \<le> nb"
      "\<And>sm row. 0 \<le> fst (tf_sample fns sm row) \<and> fst (tf_sample fns sm row) < int nv"
    using assms(1) by (cases c) (auto simp: native_seen_def)
  have t: "toks \<noteq> []" "length toks \<le> unat (cp_n_batch (cx_cparams cx))"
    "\<forall>t\<in>set toks. 0 \<le> t \<and> t < int (hp_n_vocab (cx_hparams cx))"
    using assms(2) cx by (auto simp: native_valid_def)
  have chat: "chat_cx k cx" using cx(2) by (simp add: app_cx_def)
  from decode_chat [OF chat t, of dv] assms(3) cx(3) ok(1,2) obtain cx' row where
    d: "decode dv (llama_batch_get_one toks (int (length toks))) cx = Some (0, cx')"
      "chat_cx (k + length toks) cx'" "cx_kv cx' = chat_at (k + length toks) (cx_kv cx)"
      "cx_cparams cx' = cx_cparams cx" "cx_hparams cx' = cx_hparams cx"
      "fst (get_logits_ith (-1) cx') = Some (Some row)"
    by fastforce
  obtain cx'' where l: "get_logits_ith (-1) cx' = (Some (Some row), cx'')"
    using d(6) by (metis prod.collapse)
  obtain tok sm' where s: "tf_sample fns sm row = (tok, sm')" by fastforce
  have "chat_kv k (cx_kv cx)" using chat by (simp add: chat_cx_def)
  from chat_at_kv(2) [OF this] assms(3) cx(3) d(3) have size: "kv_get_size (cx_kv cx') = n" by simp
  have "app_cx (k + length toks) cx'"
    using d(2,4) cx(2,3) size by (simp add: app_cx_def)
  then have "app_cx (k + length toks) cx''" "kv_get_size (cx_kv cx'') = n" "cx_hparams cx'' = cx_hparams cx"
    "cx_cparams cx'' = cx_cparams cx"
    using app_cx_sampled [of _ "-1" cx'] get_logits_frame [of "-1" cx'] l d(4,5) size by simp_all
  then have "native_seen dv fns nv nb n (sm', Some cx'') (k + length toks)"
    using cx ok by (simp add: native_seen_def)
  moreover have "native_valid nv nb [tok]"
    using ok(3) ok(4) [of sm row] s by (simp add: native_valid_def)
  ultimately show ?thesis
    using cx(1) d(1) l s by simp
qed

interpretation chat_state: engine_state "native_engine dv fns" "native_ok k" for dv fns k
  by unfold_locales (simp_all add: native_engine_def native_decode_ok native_sample_ok)

interpretation chat_room: engine_room "native_engine dv fns" "native_seen dv fns nv nb n" "native_valid nv nb" n
  for dv fns nv nb n
proof unfold_locales
  fix c k assume "native_seen dv fns nv nb n c k"
  then obtain sm cx where "c = (sm, Some cx)" "app_cx k cx" "kv_get_size (cx_kv cx) = n"
    by (cases c) (auto simp: native_seen_def)
  then show "llama_kv_self_used_cells (native_engine dv fns) c = int k"
    "unat (llama_n_ctx (native_engine dv fns) c) = n" "k \<le> n \<and> n < 2 ^ 31"
    using self_used_chat [of k cx] chat_kvD(2) [of k "cx_kv cx"]
    by (auto simp: app_cx_def native_engine_def chat_cx_def POS_MAX_def)
next
  fix c k toks
  assume "native_seen dv fns nv nb n c k" "native_valid nv nb toks" "k + length toks \<le> n"
  from native_decode_seen [OF this] show "\<exists>c' tok c''. llama_decode (native_engine dv fns) c toks = (0, c') \<and>
      llama_sampler_sample (native_engine dv fns) c' = (tok, c'') \<and>
      native_seen dv fns nv nb n c'' (k + length toks) \<and> native_valid nv nb [tok]"
    by (simp add: native_engine_def)
qed

lemma native_ok_used:
  assumes "native_ok k c"
  shows "snd c = None \<or> (\<exists>cx' k'. snd c = Some cx' \<and> k \<le> k' \<and> app_cx k' cx' \<and>
    llama_kv_self_used_cells (native_engine dv fns) c = int k')"
proof (cases "snd c")
  case (Some cx')
  then obtain k' where k: "k \<le> k'" "app_cx k' cx'" using assms by (auto simp: native_ok_def)
  then have "kv_self_used_cells cx' = int k'"
    using self_used_chat [of k' cx'] by (simp add: app_cx_def)
  with Some k show ?thesis by (cases c) (auto simp: native_engine_def)
qed simp

section \<open>Properties\<close>

text \<open>A chat on the small device: the model repeats the last token, nothing ends the text.\<close>

definition demo_fns :: "(unit, llama_token) text_fns" where
  "demo_fns = \<lparr>tf_sample = (\<lambda>sm row. (5, sm)), tf_is_eog = (\<lambda>_. False), tf_piece = (\<lambda>_. ''a''),
     tf_tokenize = (\<lambda>str. Some (map (\<lambda>_. 5) str)), tf_template = Some ''glmedge''\<rparr>"

definition demo_chat :: "uint32 \<Rightarrow> llama_token list \<Rightarrow> (unit, nat, llama_token) native llm" where
  "demo_chat c toks = \<lparr>
     ctx = ((), Some (demo_lctx c)), sampler = [], currToken = 0, batch_token = PromptTokens,
     batch_n_tokens = int (length toks), messages = [], formattedMessages = [], promptTokens = toks, prevLen = 0,
     chatTemplate = ''glmedge'', response = [], cacheResponseTokens = [], storeChats = True,
     responseGenerationTime = 0, responseNumTokens = 0, nCtxUsed = 0, stopWords = []\<rparr>"

lemma demo_app_cx:
  assumes "c \<noteq> 0" and "unat c \<le> 2147483616"
  shows "app_cx 0 (demo_lctx c)"
  using demo_lctx [OF assms] by (simp add: app_cx_def)

lemma demo_chat_seen:
  assumes "c \<noteq> 0" and "unat c \<le> 2147483616"
  shows "native_seen demo_device demo_fns 100 (max 64 (min (unat c) 2048)) ((unat c + 31) div 32 * 32) (ctx (demo_chat c toks)) 0"
    and "batch_tokens (demo_chat c toks) = toks" and "batch_n_tokens (demo_chat c toks) = int (length toks)"
  using demo_device_ok demo_lctx [OF assms] demo_app_cx [OF assms] demo_fields(3)
  by (simp_all add: native_seen_def demo_chat_def demo_fns_def batch_tokens_def)

text \<open>
  C2. Every response comes to its end. On a device that computes and allocates, with a sampler
  that picks tokens of the vocabulary, a chat that has seen \<open>k\<close> tokens and was given a prompt of
  valid tokens, no more than \<open>n_batch\<close> of them, needs no more than one call of \<open>completionLoop\<close> per free cell and
  one more: then the text has ended, or the context is full, every one of its cells used, and the
  error is the context guard's; a prompt that does not fit leaves the cache as it is.
\<close>

theorem response_until_context_full:
  assumes "native_seen dv fns n_vocab n_batch n_ctx (ctx s) k"
    and "native_valid n_vocab n_batch (batch_tokens s)" and "batch_n_tokens s = int (length (batch_tokens s))"
    and "k + length (batch_tokens s) < 2 ^ 32"
    and "n_ctx + 2 \<le> k + length (batch_tokens s) + length ts" and "ts \<noteq> []"
  shows "\<exists>res s' k'. response_loop (native_engine dv fns) ts [] s = Some (res, s') \<and>
    native_seen dv fns n_vocab n_batch n_ctx (ctx s') k' \<and> k \<le> k' \<and>
    ((\<exists>r. res = Inr r) \<or>
     res = Inl ContextSizeReached \<and> k' = (if k + length (batch_tokens s) \<le> n_ctx then n_ctx else k))"
proof -
  have "chat_room.ready dv fns n_vocab n_batch n_ctx k (length (batch_tokens s)) s"
    using assms(1-3) by (simp add: chat_room.ready_def)
  from chat_room.response_room [OF this assms(4-6)] show ?thesis .
qed

theorem response_until_context_full_witness:
  "\<exists>res s' k'. response_loop (native_engine demo_device demo_fns) (replicate 31 (0, 1)) [] (demo_chat 32 [5, 6, 7]) = Some (res, s') \<and>
    native_seen demo_device demo_fns 100 64 32 (ctx s') k' \<and> ((\<exists>r. res = Inr r) \<or> res = Inl ContextSizeReached \<and> k' = 32)"
proof -
  have c: "(32 :: uint32) \<noteq> 0" "unat (32 :: uint32) \<le> 2147483616" by simp_all
  note d = demo_chat_seen [OF c, of "[5, 6, 7]"]
  have s: "native_seen demo_device demo_fns 100 64 32 (ctx (demo_chat 32 [5, 6, 7])) 0" using d(1) by simp
  have h: "native_valid 100 64 (batch_tokens (demo_chat 32 [5, 6, 7]))"
    "batch_n_tokens (demo_chat 32 [5, 6, 7]) = int (length (batch_tokens (demo_chat 32 [5, 6, 7])))"
    "0 + length (batch_tokens (demo_chat 32 [5, 6, 7])) < 2 ^ 32"
    "32 + 2 \<le> 0 + length (batch_tokens (demo_chat 32 [5, 6, 7])) + length (replicate 31 (0 :: int, 1 :: int))"
    "replicate 31 (0 :: int, 1 :: int) \<noteq> []"
    unfolding d(2,3) by (simp_all add: native_valid_def)
  have "(if 0 + length (batch_tokens (demo_chat 32 [5, 6, 7])) \<le> 32 then 32 else 0) = (32 :: nat)"
    unfolding d(2) by simp
  with response_until_context_full [OF s h] show ?thesis by metis
qed

text \<open>
  C3. Along every run of the app's methods, in any order and whatever the device, the sampler and
  the tokenizer do, the cache stays a chat: the cells hold the positions from 0 on without a gap,
  it never shrinks, and the used cells the context guard reads are the tokens the cache holds.
  The only other outcome is that the process is gone.
\<close>

theorem chat_cache_invariant:
  assumes "llm_run (native_engine dv fns) s outs s'" and "snd (ctx s) = Some cx" and "app_cx k cx"
  shows "snd (ctx s') = None \<or> (\<exists>cx' k'. snd (ctx s') = Some cx' \<and> k \<le> k' \<and> app_cx k' cx' \<and>
    llama_kv_self_used_cells (native_engine dv fns) (ctx s') = int k')"
proof -
  have "native_ok k (ctx s)" using assms(2,3) by (auto simp: native_ok_def)
  from native_ok_used [OF chat_state.run_good [OF assms(1) this]] show ?thesis .
qed

theorem chat_cache_invariant_witness:
  "\<exists>s'. llm_run (native_engine demo_device demo_fns) (demo_chat 32 [5, 6, 7]) [[], []] s' \<and>
    (snd (ctx s') = None \<or> (\<exists>cx' k'. snd (ctx s') = Some cx' \<and> app_cx k' cx' \<and>
       llama_kv_self_used_cells (native_engine demo_device demo_fns) (ctx s') = int k'))"
proof -
  have c: "(32 :: uint32) \<noteq> 0" "unat (32 :: uint32) \<le> 2147483616" by simp_all
  note d = demo_chat_seen [OF c, of "[5, 6, 7]"]
  let ?s = "addChatMessage ''hi'' ''system'' (demo_chat 32 [5, 6, 7])"
  obtain res s' where "startCompletion (native_engine demo_device demo_fns) ''hi'' ?s = (res, s')" by fastforce
  then have run: "llm_run (native_engine demo_device demo_fns) (demo_chat 32 [5, 6, 7]) [[], []] s'"
    by (rule run_step [OF add_message run_step [OF start run_nil]])
  have "snd (ctx (demo_chat 32 [5, 6, 7])) = Some (demo_lctx 32)" by (simp add: demo_chat_def)
  from chat_cache_invariant [OF run this demo_app_cx [OF c]] run show ?thesis by blast
qed

text \<open>
  C33. A prompt longer than \<open>n_batch\<close> kills the process. The app leaves \<open>n_batch\<close> at its
  default of 2048 and hands the prompt to \<open>llama_decode\<close> in one batch: when the prompt fits
  the context, so that the guard lets it pass, but has more than \<open>n_batch\<close> tokens, an assertion
  fails instead of any of the errors the app handles.
\<close>

theorem prompt_over_n_batch_aborts:
  assumes "snd (ctx s) = Some cx" and "app_cx k cx" and "batch_n_tokens s = int (length (batch_tokens s))"
    and "\<forall>t\<in>set (batch_tokens s). 0 \<le> t \<and> t < int (hp_n_vocab (cx_hparams cx))"
    and "unat (cp_n_batch (cx_cparams cx)) < length (batch_tokens s)"
    and "k + length (batch_tokens s) \<le> unat (cp_n_ctx (cx_cparams cx))"
  shows "snd (ctx (snd (completionLoop (native_engine dv fns) t0 t1 s))) = None"
proof -
  let ?toks = "batch_tokens s" and ?n = "int k + int (length (batch_tokens s))"
  obtain sm where c: "ctx s = (sm, Some cx)" using assms(1) by (cases "ctx s") auto
  have chat: "chat_cx k cx" "cp_n_seq_max (cx_cparams cx) = 1" using assms(2) by (simp_all add: app_cx_def)
  have "uint (word_of_int ?n :: uint32) = ?n"
    using uint32_of_int_small [of ?n] assms(6) unsigned_less [of "cp_n_ctx (cx_cparams cx)", where ?'a = nat] by simp
  moreover have "uint (cp_n_ctx (cx_cparams cx)) = int (unat (cp_n_ctx (cx_cparams cx)))" by simp
  ultimately have guard: "\<not> cp_n_ctx (cx_cparams cx) < (word_of_int ?n :: uint32)"
    using assms(6) unfolding word_less_def by linarith
  have "native_decode dv (sm, Some cx) ?toks = (0, (sm, None))"
    using decode_over_batch [OF chat(1) assms(5,4), of dv] by simp
  with guard c self_used_chat [OF chat] assms(3) show ?thesis
    by (simp add: completionLoop_def native_engine_def Let_def case_prod_beta emit_piece_def split: option.split)
qed

theorem prompt_over_n_batch_aborts_witness:
  "snd (ctx (snd (completionLoop (native_engine demo_device demo_fns) 0 1 (demo_chat 4096 (replicate 2049 5))))) = None"
proof -
  have c: "(4096 :: uint32) \<noteq> 0" "unat (4096 :: uint32) \<le> 2147483616" by simp_all
  let ?s = "demo_chat 4096 (replicate 2049 5)"
  note d = demo_chat_seen [OF c, of "replicate 2049 5"]
  have h: "snd (ctx ?s) = Some (demo_lctx 4096)" by (simp add: demo_chat_def)
  have b: "unat (cp_n_batch (cx_cparams (demo_lctx 4096))) < length (batch_tokens ?s)"
    "\<forall>t\<in>set (batch_tokens ?s). 0 \<le> t \<and> t < int (hp_n_vocab (cx_hparams (demo_lctx 4096)))"
    "0 + length (batch_tokens ?s) \<le> unat (cp_n_ctx (cx_cparams (demo_lctx 4096)))"
    "batch_n_tokens ?s = int (length (batch_tokens ?s))"
    unfolding d(2,3) by (simp_all add: demo_lctx(3,4,6) [OF c] demo_fields)
  show ?thesis
    by (rule prompt_over_n_batch_aborts [OF h demo_app_cx [OF c] b(4,2,1,3)])
qed

end
