(* ===== verification/Ggml.thy ===== *)
theory Ggml
  imports Prelude
begin

text \<open>
  The part of the tensor library that the file format rests on, \<open>llama.cpp/ggml/src/ggml.c\<close>:
  the table of tensor types with their block sizes, the tensor header (type, shape, strides,
  name), and the functions that compute its size, rank and contiguity. Shapes are
  \<open>int64_t\<close>, strides and sizes \<open>size_t\<close> of 64 bits, which wrap around.
\<close>

type_synonym size_t = "64 word"

definition INT64_MAX :: int where
  "INT64_MAX = 9223372036854775807"

definition GGML_MAX_DIMS :: nat where "GGML_MAX_DIMS = 4"
definition GGML_MAX_NAME :: nat where "GGML_MAX_NAME = 64"

section \<open>Tensor types\<close>

text \<open>
  \<open>type_traits\<close>, in the order of the enumeration: name, elements per block, bytes per block.
  The sizes of the blocks are those the static assertions of \<open>ggml-common.h\<close> state; a removed
  type has blocks of size 0.
\<close>

record ggml_type_traits =
  type_name :: string
  blck_size :: nat
  type_size :: nat

abbreviation (input) QK :: nat where "QK \<equiv> 32"
abbreviation (input) QK_K :: nat where "QK_K \<equiv> 256"
abbreviation (input) half_size :: nat where "half_size \<equiv> 2"
abbreviation (input) K_SCALE_SIZE :: nat where "K_SCALE_SIZE \<equiv> 12"

definition traits :: "string \<Rightarrow> nat \<Rightarrow> nat \<Rightarrow> ggml_type_traits" where
  "traits name blck sz = \<lparr>type_name = name, blck_size = blck, type_size = sz\<rparr>"

definition removed :: "string \<Rightarrow> ggml_type_traits" where
  "removed name = traits name 0 0"

definition type_traits :: "ggml_type_traits list" where
  "type_traits = [
     traits ''f32'' 1 4,
     traits ''f16'' 1 2,
     traits ''q4_0'' QK (half_size + QK div 2),
     traits ''q4_1'' QK (2 * half_size + QK div 2),
     removed ''DEPRECATED'',
     removed ''DEPRECATED'',
     traits ''q5_0'' QK (half_size + 4 + QK div 2),
     traits ''q5_1'' QK (2 * half_size + 4 + QK div 2),
     traits ''q8_0'' QK (half_size + QK),
     traits ''q8_1'' QK (2 * half_size + QK),
     traits ''q2_K'' QK_K (2 * half_size + QK_K div 16 + QK_K div 4),
     traits ''q3_K'' QK_K (half_size + QK_K div 4 + QK_K div 8 + 12),
     traits ''q4_K'' QK_K (2 * half_size + K_SCALE_SIZE + QK_K div 2),
     traits ''q5_K'' QK_K (2 * half_size + K_SCALE_SIZE + QK_K div 2 + QK_K div 8),
     traits ''q6_K'' QK_K (half_size + QK_K div 16 + 3 * QK_K div 4),
     traits ''q8_K'' QK_K (4 + QK_K + QK_K div 16 * 2),
     traits ''iq2_xxs'' QK_K (half_size + QK_K div 8 * 2),
     traits ''iq2_xs'' QK_K (half_size + QK_K div 8 * 2 + QK_K div 32),
     traits ''iq3_xxs'' QK_K (half_size + 3 * (QK_K div 8)),
     traits ''iq1_s'' QK_K (half_size + QK_K div 8 + QK_K div 16),
     traits ''iq4_nl'' QK (half_size + QK div 2),
     traits ''iq3_s'' QK_K (half_size + 13 * (QK_K div 32) + QK_K div 64),
     traits ''iq2_s'' QK_K (half_size + QK_K div 4 + QK_K div 16),
     traits ''iq4_xs'' QK_K (half_size + 2 + QK_K div 64 + QK_K div 2),
     traits ''i8'' 1 1,
     traits ''i16'' 1 2,
     traits ''i32'' 1 4,
     traits ''i64'' 1 8,
     traits ''f64'' 1 8,
     traits ''iq1_m'' QK_K (QK_K div 8 + QK_K div 16 + QK_K div 32),
     traits ''bf16'' 1 2,
     removed ''TYPE_Q4_0_4_4 REMOVED, use Q4_0 with runtime repacking'',
     removed ''TYPE_Q4_0_4_8 REMOVED, use Q4_0 with runtime repacking'',
     removed ''TYPE_Q4_0_8_8 REMOVED, use Q4_0 with runtime repacking'',
     traits ''tq1_0'' QK_K (half_size + QK_K div 64 + (QK_K - 4 * QK_K div 64) div 5),
     traits ''tq2_0'' QK_K (half_size + QK_K div 4),
     removed ''TYPE_IQ4_NL_4_4 REMOVED, use IQ4_NL with runtime repacking'',
     removed ''TYPE_IQ4_NL_4_8 REMOVED, use IQ4_NL with runtime repacking'',
     removed ''TYPE_IQ4_NL_8_8 REMOVED, use IQ4_NL with runtime repacking'']"

definition GGML_TYPE_COUNT :: int where
  "GGML_TYPE_COUNT = 39"

definition ggml_blck_size :: "int \<Rightarrow> nat" where
  "ggml_blck_size type = blck_size (type_traits ! nat type)"

definition ggml_type_size :: "int \<Rightarrow> nat" where
  "ggml_type_size type = type_size (type_traits ! nat type)"

section \<open>The tensor header\<close>

text \<open>
  The name is a C string in a buffer of \<open>GGML_MAX_NAME\<close> bytes. The data pointer is null or
  the bytes it points to.
\<close>

record ggml_tensor =
  t_type :: int
  t_ne :: "int list"
  t_nb :: "size_t list"
  t_name :: string
  t_data :: "byte list option"

definition ggml_set_name :: "string \<Rightarrow> string" where
  "ggml_set_name name = take (GGML_MAX_NAME - 1) (c_str name)"

text \<open>The strides of a contiguous tensor.\<close>

definition contiguous_nb :: "int \<Rightarrow> int list \<Rightarrow> size_t list" where
  "contiguous_nb type ne =
     (let nb0 = word_of_nat (ggml_type_size type);
          nb1 = nb0 * word_of_int (ne ! 0 div int (ggml_blck_size type));
          nb2 = nb1 * word_of_int (ne ! 1);
          nb3 = nb2 * word_of_int (ne ! 2)
      in [nb0, nb1, nb2, nb3])"

definition ggml_nbytes :: "ggml_tensor \<Rightarrow> size_t" where
  "ggml_nbytes t =
     (if \<not> list_all (\<lambda>i. 0 < t_ne t ! i) [0..<GGML_MAX_DIMS] then 0
      else if ggml_blck_size (t_type t) = 1
      then fold (\<lambda>i nbytes. nbytes + word_of_int (t_ne t ! i - 1) * t_nb t ! i) [0..<GGML_MAX_DIMS]
             (word_of_nat (ggml_type_size (t_type t)))
      else fold (\<lambda>i nbytes. nbytes + word_of_int (t_ne t ! i - 1) * t_nb t ! i) [1..<GGML_MAX_DIMS]
             (word_of_int (t_ne t ! 0) * t_nb t ! 0 div word_of_nat (ggml_blck_size (t_type t))))"

definition ggml_n_dims :: "int list \<Rightarrow> nat" where
  "ggml_n_dims ne = (case filter (\<lambda>i. 1 < ne ! i) (rev [1..<GGML_MAX_DIMS]) of [] \<Rightarrow> 1 | i # _ \<Rightarrow> i + 1)"

text \<open>\<open>ggml_is_contiguous\<close>: the loop with the stride that comes next.\<close>

fun contiguous_loop :: "ggml_tensor \<Rightarrow> nat list \<Rightarrow> size_t \<Rightarrow> bool" where
  "contiguous_loop t [] next_nb = True"
| "contiguous_loop t (i # js) next_nb =
     (if t_ne t ! i \<noteq> 1
      then if t_nb t ! i \<noteq> next_nb then False else contiguous_loop t js (next_nb * word_of_int (t_ne t ! i))
      else contiguous_loop t js next_nb)"

definition ggml_is_contiguous :: "ggml_tensor \<Rightarrow> bool" where
  "ggml_is_contiguous t =
     (let next_nb = word_of_nat (ggml_type_size (t_type t)) in
      if t_ne t ! 0 \<noteq> int (ggml_blck_size (t_type t)) \<and> t_nb t ! 0 \<noteq> next_nb then False
      else contiguous_loop t [1..<GGML_MAX_DIMS]
             (next_nb * word_of_int (t_ne t ! 0 div int (ggml_blck_size (t_type t)))))"

section \<open>Facts\<close>

lemma length_type_traits: "length type_traits = nat GGML_TYPE_COUNT"
  by (simp add: type_traits_def GGML_TYPE_COUNT_def)

lemma dims_upt:
  "[0..<GGML_MAX_DIMS] = [0, 1, 2, 3]" "[1..<GGML_MAX_DIMS] = [1, 2, 3]" "[Suc 0..<GGML_MAX_DIMS] = [1, 2, 3]"
  unfolding GGML_MAX_DIMS_def by code_simp+

lemma contiguous_is_contiguous:
  assumes "t_nb t = contiguous_nb (t_type t) (t_ne t)"
  shows "ggml_is_contiguous t"
  unfolding ggml_is_contiguous_def dims_upt Let_def using assms
  by (simp add: contiguous_nb_def Let_def eval_nat_numeral)

lemma n_dims_cases: "ggml_n_dims ne = (if 1 < ne ! 3 then 4 else if 1 < ne ! 2 then 3 else if 1 < ne ! 1 then 2 else 1)"
  unfolding ggml_n_dims_def dims_upt by simp

lemma nbytes_nonneg_dims:
  "ggml_nbytes t \<noteq> 0 \<Longrightarrow> i < GGML_MAX_DIMS \<Longrightarrow> 0 < t_ne t ! i"
  by (auto simp: ggml_nbytes_def list_all_iff split: if_splits)

end
