(* ===== verification/Gguf.thy ===== *)
theory Gguf
  imports Ggml
begin

text \<open>
  GGUF model files, \<open>llama.cpp/ggml/src/gguf.cpp\<close>: the context with its key-value pairs and
  its tensor infos, the reader of a file, the operations on a context, and the writer.

  A file is the list of its bytes; a reader takes the bytes that are left. The host is little-endian,
  with a \<open>size_t\<close> of 64 bits. The exceptions of \<open>resize\<close> are an outcome of their own,
  as are the failed assertions and the division by zero, which end the process. What the platform
  decides is a parameter: which allocations succeed, and the sizes of the C++ objects.
\<close>

section \<open>Types of values\<close>

datatype gguf_type =
    GGUF_TYPE_UINT8 | GGUF_TYPE_INT8 | GGUF_TYPE_UINT16 | GGUF_TYPE_INT16
  | GGUF_TYPE_UINT32 | GGUF_TYPE_INT32 | GGUF_TYPE_FLOAT32 | GGUF_TYPE_BOOL
  | GGUF_TYPE_STRING | GGUF_TYPE_ARRAY | GGUF_TYPE_UINT64 | GGUF_TYPE_INT64 | GGUF_TYPE_FLOAT64

definition gguf_types :: "gguf_type list" where
  "gguf_types = [GGUF_TYPE_UINT8, GGUF_TYPE_INT8, GGUF_TYPE_UINT16, GGUF_TYPE_INT16,
     GGUF_TYPE_UINT32, GGUF_TYPE_INT32, GGUF_TYPE_FLOAT32, GGUF_TYPE_BOOL,
     GGUF_TYPE_STRING, GGUF_TYPE_ARRAY, GGUF_TYPE_UINT64, GGUF_TYPE_INT64, GGUF_TYPE_FLOAT64]"

text \<open>The value of the enumeration, and the constructor of a value; \<open>None\<close> outside of it.\<close>

fun gguf_type_val :: "gguf_type \<Rightarrow> nat" where
  "gguf_type_val GGUF_TYPE_UINT8 = 0"
| "gguf_type_val GGUF_TYPE_INT8 = 1"
| "gguf_type_val GGUF_TYPE_UINT16 = 2"
| "gguf_type_val GGUF_TYPE_INT16 = 3"
| "gguf_type_val GGUF_TYPE_UINT32 = 4"
| "gguf_type_val GGUF_TYPE_INT32 = 5"
| "gguf_type_val GGUF_TYPE_FLOAT32 = 6"
| "gguf_type_val GGUF_TYPE_BOOL = 7"
| "gguf_type_val GGUF_TYPE_STRING = 8"
| "gguf_type_val GGUF_TYPE_ARRAY = 9"
| "gguf_type_val GGUF_TYPE_UINT64 = 10"
| "gguf_type_val GGUF_TYPE_INT64 = 11"
| "gguf_type_val GGUF_TYPE_FLOAT64 = 12"

definition gguf_type_of :: "int \<Rightarrow> gguf_type option" where
  "gguf_type_of n = (if 0 \<le> n \<and> n < int (length gguf_types) then Some (gguf_types ! nat n) else None)"

fun gguf_type_size :: "gguf_type \<Rightarrow> nat" where
  "gguf_type_size GGUF_TYPE_UINT8 = 1"
| "gguf_type_size GGUF_TYPE_INT8 = 1"
| "gguf_type_size GGUF_TYPE_UINT16 = 2"
| "gguf_type_size GGUF_TYPE_INT16 = 2"
| "gguf_type_size GGUF_TYPE_UINT32 = 4"
| "gguf_type_size GGUF_TYPE_INT32 = 4"
| "gguf_type_size GGUF_TYPE_FLOAT32 = 4"
| "gguf_type_size GGUF_TYPE_BOOL = 1"
| "gguf_type_size GGUF_TYPE_STRING = 0"
| "gguf_type_size GGUF_TYPE_ARRAY = 0"
| "gguf_type_size GGUF_TYPE_UINT64 = 8"
| "gguf_type_size GGUF_TYPE_INT64 = 8"
| "gguf_type_size GGUF_TYPE_FLOAT64 = 8"

fun gguf_type_name :: "gguf_type \<Rightarrow> string" where
  "gguf_type_name GGUF_TYPE_UINT8 = ''u8''"
| "gguf_type_name GGUF_TYPE_INT8 = ''i8''"
| "gguf_type_name GGUF_TYPE_UINT16 = ''u16''"
| "gguf_type_name GGUF_TYPE_INT16 = ''i16''"
| "gguf_type_name GGUF_TYPE_UINT32 = ''u32''"
| "gguf_type_name GGUF_TYPE_INT32 = ''i32''"
| "gguf_type_name GGUF_TYPE_FLOAT32 = ''f32''"
| "gguf_type_name GGUF_TYPE_BOOL = ''bool''"
| "gguf_type_name GGUF_TYPE_STRING = ''str''"
| "gguf_type_name GGUF_TYPE_ARRAY = ''arr''"
| "gguf_type_name GGUF_TYPE_UINT64 = ''u64''"
| "gguf_type_name GGUF_TYPE_INT64 = ''i64''"
| "gguf_type_name GGUF_TYPE_FLOAT64 = ''f64''"

section \<open>The context\<close>

record gguf_kv =
  kv_key :: string
  kv_is_array :: bool
  kv_type :: gguf_type
  kv_data :: "byte list"
  kv_data_string :: "string list"

record gguf_tensor_info =
  ti_t :: ggml_tensor
  ti_offset :: size_t

record gguf_context =
  gc_version :: uint32
  gc_kv :: "gguf_kv list"
  gc_info :: "gguf_tensor_info list"
  gc_alignment :: size_t
  gc_offset :: size_t
  gc_size :: size_t

definition GGUF_VERSION :: uint32 where "GGUF_VERSION = 3"
definition GGUF_MAGIC :: string where "GGUF_MAGIC = ''GGUF''"
definition GGUF_DEFAULT_ALIGNMENT :: size_t where "GGUF_DEFAULT_ALIGNMENT = 32"
definition GGUF_KEY_GENERAL_ALIGNMENT :: string where "GGUF_KEY_GENERAL_ALIGNMENT = ''general.alignment''"

definition gguf_init_empty :: gguf_context where
  "gguf_init_empty = \<lparr>gc_version = GGUF_VERSION, gc_kv = [], gc_info = [], gc_alignment = GGUF_DEFAULT_ALIGNMENT,
     gc_offset = 0, gc_size = 0\<rparr>"

text \<open>The constructors of \<open>gguf_kv\<close>; \<open>None\<close> is the failed assertion on an empty key.\<close>

definition new_kv :: "string \<Rightarrow> bool \<Rightarrow> gguf_type \<Rightarrow> byte list \<Rightarrow> string list \<Rightarrow> gguf_kv option" where
  "new_kv key is_array type data strings =
     (if key = [] then None
      else Some \<lparr>kv_key = key, kv_is_array = is_array, kv_type = type, kv_data = data, kv_data_string = strings\<rparr>)"

text \<open>\<open>get_ne\<close>, \<open>get_val\<close> at a type and an index: the bytes of the value, or its text.\<close>

definition get_ne :: "gguf_kv \<Rightarrow> nat option" where
  "get_ne kv =
     (if kv_type kv = GGUF_TYPE_STRING then
        (let ne = length (kv_data_string kv) in if kv_is_array kv \<or> ne = 1 then Some ne else None)
      else
        (let type_size = gguf_type_size (kv_type kv) in
         if type_size = 0 \<or> length (kv_data kv) mod type_size \<noteq> 0 then None
         else let ne = length (kv_data kv) div type_size in if kv_is_array kv \<or> ne = 1 then Some ne else None))"

definition get_val :: "gguf_type \<Rightarrow> nat \<Rightarrow> gguf_kv \<Rightarrow> byte list option" where
  "get_val T i kv =
     (let type_size = gguf_type_size (kv_type kv) in
      if T \<noteq> kv_type kv \<or> type_size = 0 \<or> length (kv_data kv) mod type_size \<noteq> 0 \<or>
         length (kv_data kv) < (i + 1) * type_size then None
      else Some (take type_size (drop (i * type_size) (kv_data kv))))"

definition get_val_string :: "nat \<Rightarrow> gguf_kv \<Rightarrow> string option" where
  "get_val_string i kv =
     (if kv_type kv \<noteq> GGUF_TYPE_STRING \<or> length (kv_data_string kv) < i + 1 then None
      else Some (kv_data_string kv ! i))"

definition kv_cast :: "gguf_type \<Rightarrow> gguf_kv \<Rightarrow> gguf_kv option" where
  "kv_cast new_type kv =
     (if gguf_type_size new_type = 0 \<or> length (kv_data kv) mod gguf_type_size new_type \<noteq> 0 then None
      else Some (kv\<lparr>kv_type := new_type\<rparr>))"

section \<open>Little-endian numbers\<close>

fun le_bytes :: "nat \<Rightarrow> nat \<Rightarrow> byte list" where
  "le_bytes 0 n = []"
| "le_bytes (Suc k) n = word_of_nat (n mod 256) # le_bytes k (n div 256)"

fun le_nat :: "byte list \<Rightarrow> nat" where
  "le_nat [] = 0"
| "le_nat (b # bs) = unat b + 256 * le_nat bs"

lemma length_le_bytes [simp]: "length (le_bytes k n) = k"
  by (induction k arbitrary: n) simp_all

lemma le_nat_bytes: "le_nat (le_bytes k n) = n mod 256 ^ k"
proof (induction k arbitrary: n)
  case (Suc k)
  have "n mod (256 * 256 ^ k) = 256 * (n div 256 mod 256 ^ k) + n mod 256"
    by (rule mod_mult2_eq)
  with Suc show ?case by (simp add: unat_of_nat)
qed simp

lemma le_nat_less: "le_nat bs < 256 ^ length bs"
proof (induction bs)
  case (Cons b bs)
  have "unat b < 256" using unsigned_less [of b] by simp
  then have "unat b + 256 * le_nat bs < 256 * (le_nat bs + 1)" by simp
  also have "\<dots> \<le> 256 * 256 ^ length bs" using Cons by (intro mult_le_mono2) simp
  finally show ?case by simp
qed simp

section \<open>Readers\<close>

text \<open>
  The outcome of reading: a value, a failure that is reported, an exception of an allocation, or
  the end of the process.
\<close>

datatype gguf_failure =
    UnexpectedEnd
  | InvalidMagic
  | BadVersion
  | WrongEndian
  | Version1
  | VersionTooNew
  | BadTensorCount
  | BadKvCount
  | AllocFailed
  | DuplicateKey
  | InvalidType
  | BadAlignment
  | NameTooLong
  | DuplicateTensor
  | TooManyDims
  | NegativeDim
  | TooManyElements
  | InvalidTensorType
  | BadBlockSize
  | BadOffset
  | SizeOverflow

datatype 'a outcome = Done 'a | Fail gguf_failure | Throw | Crash

type_synonym 'a reader = "byte list \<Rightarrow> ('a \<times> byte list) outcome"

definition rd_return :: "'a \<Rightarrow> 'a reader" where
  "rd_return x bs = Done (x, bs)"

definition rd_fail :: "gguf_failure \<Rightarrow> 'a reader" where
  "rd_fail e bs = Fail e"

definition rd_throw :: "'a reader" where
  "rd_throw bs = Throw"

definition rd_crash :: "'a reader" where
  "rd_crash bs = Crash"

definition rd_bind :: "'a reader \<Rightarrow> ('a \<Rightarrow> 'b reader) \<Rightarrow> 'b reader" where
  "rd_bind m f bs =
     (case m bs of Done (x, r) \<Rightarrow> f x r | Fail e \<Rightarrow> Fail e | Throw \<Rightarrow> Throw | Crash \<Rightarrow> Crash)"

text \<open>The handlers of \<open>std::length_error\<close> and \<open>std::bad_alloc\<close>.\<close>

definition rd_try :: "'a reader \<Rightarrow> 'a reader" where
  "rd_try m bs = (case m bs of Throw \<Rightarrow> Fail AllocFailed | r \<Rightarrow> r)"

definition rd_when :: "bool \<Rightarrow> 'a reader \<Rightarrow> 'a reader \<Rightarrow> 'a reader" where
  "rd_when b m n = (if b then m else n)"

fun rd_times :: "nat \<Rightarrow> 'a reader \<Rightarrow> 'a list reader" where
  "rd_times 0 m = rd_return []"
| "rd_times (Suc n) m = rd_bind m (\<lambda>x. rd_bind (rd_times n m) (\<lambda>xs. rd_return (x # xs)))"

record platform =
  pl_alloc :: "nat \<Rightarrow> bool"
  pl_sizeof_string :: nat
  pl_sizeof_kv :: nat
  pl_sizeof_tensor_info :: nat

text \<open>\<open>gguf_reader::read\<close>, one overload each.\<close>

definition read_bytes :: "nat \<Rightarrow> byte list reader" where
  "read_bytes n bs = (if n \<le> length bs then Done (take n bs, drop n bs) else Fail UnexpectedEnd)"

definition read_u32 :: "uint32 reader" where
  "read_u32 = rd_bind (read_bytes 4) (\<lambda>b. rd_return (word_of_nat (le_nat b)))"

definition read_i32 :: "int reader" where
  "read_i32 = rd_bind (read_bytes 4) (\<lambda>b. rd_return (sint (word_of_nat (le_nat b) :: 32 word)))"

definition read_u64 :: "size_t reader" where
  "read_u64 = rd_bind (read_bytes 8) (\<lambda>b. rd_return (word_of_nat (le_nat b)))"

definition read_i64 :: "int reader" where
  "read_i64 = rd_bind (read_bytes 8) (\<lambda>b. rd_return (sint (word_of_nat (le_nat b) :: 64 word)))"

definition read_string :: "platform \<Rightarrow> string reader" where
  "read_string P = rd_bind read_u64 (\<lambda>n.
     rd_when (pl_alloc P (unat n)) (rd_bind (read_bytes (unat n)) (\<lambda>b. rd_return (chars_of b))) rd_throw)"

text \<open>A value of a scalar type: its bytes, a \<open>bool\<close> as 0 or 1.\<close>

definition read_scalar :: "gguf_type \<Rightarrow> byte list reader" where
  "read_scalar T = rd_bind (read_bytes (gguf_type_size T)) (\<lambda>b.
     rd_return (if T = GGUF_TYPE_BOOL then [if b ! 0 \<noteq> 0 then 1 else 0] else b))"

text \<open>The bytes that \<open>resize\<close> allocates for a vector of values; a \<open>vector<bool>\<close> packs its bits.\<close>

definition vector_bytes :: "platform \<Rightarrow> gguf_type \<Rightarrow> nat \<Rightarrow> nat" where
  "vector_bytes P T n =
     (if T = GGUF_TYPE_STRING then n * pl_sizeof_string P
      else if T = GGUF_TYPE_BOOL then (n + 63) div 64 * 8
      else n * gguf_type_size T)"

definition rd_option :: "'a option \<Rightarrow> 'a reader" where
  "rd_option r = (case r of None \<Rightarrow> rd_crash | Some x \<Rightarrow> rd_return x)"

text \<open>
  \<open>gguf_read_emplace_helper\<close>: only the reading of an array is inside the \<open>try\<close> block.
\<close>

definition read_emplace :: "platform \<Rightarrow> gguf_type \<Rightarrow> string \<Rightarrow> bool \<Rightarrow> size_t \<Rightarrow> gguf_kv reader" where
  "read_emplace P T key is_array n =
     (if T = GGUF_TYPE_STRING
      then if is_array
        then rd_bind (rd_try (rd_when (pl_alloc P (vector_bytes P T (unat n))) (rd_times (unat n) (read_string P)) rd_throw))
               (\<lambda>value. rd_option (new_kv key True T [] value))
        else rd_bind (read_string P) (\<lambda>value. rd_option (new_kv key False T [] [value]))
      else if is_array
        then rd_bind (rd_try (rd_when (pl_alloc P (vector_bytes P T (unat n))) (rd_times (unat n) (read_scalar T)) rd_throw))
               (\<lambda>value. rd_option (new_kv key True T (concat value) []))
        else rd_bind (read_scalar T) (\<lambda>value. rd_option (new_kv key False T value [])))"

definition read_value :: "platform \<Rightarrow> int \<Rightarrow> string \<Rightarrow> bool \<Rightarrow> size_t \<Rightarrow> gguf_kv reader" where
  "read_value P type key is_array n =
     (case gguf_type_of type of
        None \<Rightarrow> rd_fail InvalidType
      | Some GGUF_TYPE_ARRAY \<Rightarrow> rd_fail InvalidType
      | Some T \<Rightarrow> read_emplace P T key is_array n)"

definition read_kv :: "platform \<Rightarrow> gguf_kv list \<Rightarrow> gguf_kv reader" where
  "read_kv P kvs =
     rd_bind (rd_try (read_string P)) (\<lambda>key.
       rd_when (key \<in> set (map kv_key kvs)) (rd_fail DuplicateKey)
         (rd_bind read_i32 (\<lambda>type.
            rd_when (type = int (gguf_type_val GGUF_TYPE_ARRAY))
              (rd_bind read_i32 (\<lambda>type. rd_bind read_u64 (\<lambda>n. read_value P type key True n)))
              (read_value P type key False 1))))"

fun read_kvs :: "platform \<Rightarrow> nat \<Rightarrow> gguf_kv list \<Rightarrow> gguf_kv list reader" where
  "read_kvs P 0 kvs = rd_return kvs"
| "read_kvs P (Suc n) kvs = rd_bind (read_kv P kvs) (\<lambda>kv. read_kvs P n (kvs @ [kv]))"

section \<open>Looking up keys\<close>

text \<open>Indices are \<open>int64_t\<close>, -1 when nothing is found; names are compared as C strings.\<close>

fun find_from :: "(string \<Rightarrow> bool) \<Rightarrow> string list \<Rightarrow> int \<Rightarrow> int" where
  "find_from p [] i = -1"
| "find_from p (x # xs) i = (if p x then i else find_from p xs (i + 1))"

definition gguf_get_n_kv :: "gguf_context \<Rightarrow> int" where
  "gguf_get_n_kv ctx = int (length (gc_kv ctx))"

definition gguf_find_key :: "gguf_context \<Rightarrow> string \<Rightarrow> int" where
  "gguf_find_key ctx key = find_from (\<lambda>k. c_str k = c_str key) (map kv_key (gc_kv ctx)) 0"

definition kv_at :: "gguf_context \<Rightarrow> int \<Rightarrow> gguf_kv option" where
  "kv_at ctx key_id = (if 0 \<le> key_id \<and> key_id < gguf_get_n_kv ctx then Some (gc_kv ctx ! nat key_id) else None)"

definition gguf_get_key :: "gguf_context \<Rightarrow> int \<Rightarrow> string option" where
  "gguf_get_key ctx key_id = map_option (\<lambda>kv. c_str (kv_key kv)) (kv_at ctx key_id)"

definition gguf_get_kv_type :: "gguf_context \<Rightarrow> int \<Rightarrow> gguf_type option" where
  "gguf_get_kv_type ctx key_id =
     map_option (\<lambda>kv. if kv_is_array kv then GGUF_TYPE_ARRAY else kv_type kv) (kv_at ctx key_id)"

definition gguf_get_arr_type :: "gguf_context \<Rightarrow> int \<Rightarrow> gguf_type option" where
  "gguf_get_arr_type ctx key_id =
     Option.bind (kv_at ctx key_id) (\<lambda>kv. if kv_is_array kv then Some (kv_type kv) else None)"

definition gguf_get_arr_data :: "gguf_context \<Rightarrow> int \<Rightarrow> byte list option" where
  "gguf_get_arr_data ctx key_id =
     Option.bind (kv_at ctx key_id) (\<lambda>kv. if kv_type kv \<noteq> GGUF_TYPE_STRING then Some (kv_data kv) else None)"

definition gguf_get_arr_str :: "gguf_context \<Rightarrow> int \<Rightarrow> nat \<Rightarrow> string option" where
  "gguf_get_arr_str ctx key_id i =
     Option.bind (kv_at ctx key_id) (\<lambda>kv.
       if kv_type kv = GGUF_TYPE_STRING \<and> i < length (kv_data_string kv) then Some (c_str (kv_data_string kv ! i)) else None)"

definition gguf_get_arr_n :: "gguf_context \<Rightarrow> int \<Rightarrow> nat option" where
  "gguf_get_arr_n ctx key_id =
     Option.bind (kv_at ctx key_id) (\<lambda>kv.
       if kv_type kv = GGUF_TYPE_STRING then Some (length (kv_data_string kv))
       else
         let type_size = gguf_type_size (kv_type kv) in
         if type_size = 0 \<or> length (kv_data kv) mod type_size \<noteq> 0 then None
         else Some (length (kv_data kv) div type_size))"

text \<open>
  The getters of values share their assertions: \<open>gguf_get_val_u8\<close> and its ten siblings are
  \<open>gguf_get_val\<close> at their type.
\<close>

definition gguf_get_val :: "gguf_type \<Rightarrow> gguf_context \<Rightarrow> int \<Rightarrow> byte list option" where
  "gguf_get_val T ctx key_id =
     Option.bind (kv_at ctx key_id) (\<lambda>kv. if get_ne kv = Some 1 then get_val T 0 kv else None)"

definition gguf_get_val_u32 :: "gguf_context \<Rightarrow> int \<Rightarrow> uint32 option" where
  "gguf_get_val_u32 ctx key_id = map_option (\<lambda>b. word_of_nat (le_nat b)) (gguf_get_val GGUF_TYPE_UINT32 ctx key_id)"

definition gguf_get_val_str :: "gguf_context \<Rightarrow> int \<Rightarrow> string option" where
  "gguf_get_val_str ctx key_id =
     Option.bind (kv_at ctx key_id) (\<lambda>kv. if get_ne kv = Some 1 then map_option c_str (get_val_string 0 kv) else None)"

definition gguf_get_val_data :: "gguf_context \<Rightarrow> int \<Rightarrow> byte list option" where
  "gguf_get_val_data ctx key_id =
     Option.bind (kv_at ctx key_id) (\<lambda>kv.
       if get_ne kv = Some 1 \<and> kv_type kv \<noteq> GGUF_TYPE_STRING then Some (kv_data kv) else None)"

section \<open>Reading a file\<close>

text \<open>
  The header: the outcome of each check of \<open>version\<close>, \<open>n_tensors\<close> and
  \<open>n_kv\<close>, in their order.
\<close>

definition read_magic :: "unit reader" where
  "read_magic = rd_bind (read_bytes 4) (\<lambda>magic.
     rd_when (chars_of magic = GGUF_MAGIC) (rd_return ()) (rd_fail InvalidMagic))"

definition check_version :: "uint32 \<Rightarrow> unit reader" where
  "check_version v =
     rd_when (v = 0) (rd_fail BadVersion)
       (rd_when (v AND 0x0000FFFF = 0) (rd_fail WrongEndian)
         (rd_when (v = 1) (rd_fail Version1)
           (rd_when (v > GGUF_VERSION) (rd_fail VersionTooNew) (rd_return ()))))"

definition read_count :: "gguf_failure \<Rightarrow> nat \<Rightarrow> nat reader" where
  "read_count e sizeof = rd_bind read_i64 (\<lambda>n.
     rd_when (n < 0 \<or> n > 0xFFFFFFFFFFFFFFFF div int sizeof) (rd_fail e) (rd_return (nat n)))"

definition read_header :: "platform \<Rightarrow> (uint32 \<times> nat \<times> nat) reader" where
  "read_header P =
     rd_bind read_magic (\<lambda>_. rd_bind read_u32 (\<lambda>version. rd_bind (check_version version) (\<lambda>_.
     rd_bind (read_count BadTensorCount (pl_sizeof_tensor_info P)) (\<lambda>n_tensors.
     rd_bind (read_count BadKvCount (pl_sizeof_kv P)) (\<lambda>n_kv. rd_return (version, n_tensors, n_kv))))))"

definition is_pow2 :: "'a::len word \<Rightarrow> bool" where
  "is_pow2 a = (a \<noteq> 0 \<and> a AND (a - 1) = 0)"

definition kv_alignment :: "gguf_kv list \<Rightarrow> size_t option" where
  "kv_alignment kvs =
     (let ctx = gguf_init_empty\<lparr>gc_kv := kvs\<rparr>; alignment_idx = gguf_find_key ctx GGUF_KEY_GENERAL_ALIGNMENT in
      if alignment_idx = -1 then Some GGUF_DEFAULT_ALIGNMENT
      else map_option (\<lambda>v. ucast v) (gguf_get_val_u32 ctx alignment_idx))"

definition read_alignment :: "gguf_kv list \<Rightarrow> size_t reader" where
  "read_alignment kvs =
     rd_bind (rd_option (kv_alignment kvs)) (\<lambda>alignment.
       rd_when (is_pow2 alignment) (rd_return alignment) (rd_fail BadAlignment))"

text \<open>The shape, dimension by dimension, and the check of the number of elements.\<close>

fun read_ne :: "nat \<Rightarrow> nat list \<Rightarrow> int list reader" where
  "read_ne n_dims [] = rd_return []"
| "read_ne n_dims (j # js) =
     rd_bind (if j < n_dims then read_i64 else rd_return 1) (\<lambda>x.
       rd_when (x < 0) (rd_fail NegativeDim)
         (rd_bind (read_ne n_dims js) (\<lambda>xs. rd_return (x # xs))))"

text \<open>\<open>None\<close> is the division by zero.\<close>

definition quotient_le :: "int \<Rightarrow> int \<Rightarrow> bool option" where
  "quotient_le d x = (if d = 0 then None else Some (INT64_MAX div d \<le> x))"

definition too_many_elements :: "int list \<Rightarrow> bool option" where
  "too_many_elements ne =
     Option.bind (quotient_le (ne ! 1) (ne ! 0)) (\<lambda>a. if a then Some True else
     Option.bind (quotient_le (ne ! 2) (ne ! 0 * ne ! 1)) (\<lambda>b. if b then Some True else
     quotient_le (ne ! 3) (ne ! 0 * ne ! 1 * ne ! 2)))"

definition read_shape :: "int list reader" where
  "read_shape =
     rd_bind read_u32 (\<lambda>n_dims.
       rd_when (n_dims > word_of_nat GGML_MAX_DIMS) (rd_fail TooManyDims)
         (rd_bind (read_ne (unat n_dims) [0..<GGML_MAX_DIMS]) (\<lambda>ne.
            rd_bind (rd_option (too_many_elements ne)) (\<lambda>too_many.
              rd_when too_many (rd_fail TooManyElements) (rd_return ne)))))"

definition read_tensor_type :: "int list \<Rightarrow> int reader" where
  "read_tensor_type ne =
     rd_bind read_i32 (\<lambda>type.
       rd_when (type < 0 \<or> type \<ge> GGML_TYPE_COUNT) (rd_fail InvalidTensorType)
         (rd_when (ggml_blck_size type = 0 \<or> ne ! 0 mod int (ggml_blck_size type) \<noteq> 0) (rd_fail BadBlockSize)
           (rd_return type)))"

definition read_tensor_info :: "platform \<Rightarrow> gguf_tensor_info list \<Rightarrow> gguf_tensor_info reader" where
  "read_tensor_info P infos =
     rd_bind (rd_try (read_string P)) (\<lambda>name.
       rd_when (length name \<ge> GGML_MAX_NAME) (rd_fail NameTooLong)
         (rd_when (ggml_set_name name \<in> set (map (\<lambda>i. t_name (ti_t i)) infos)) (rd_fail DuplicateTensor)
           (rd_bind read_shape (\<lambda>ne. rd_bind (read_tensor_type ne) (\<lambda>type. rd_bind read_u64 (\<lambda>offset.
              rd_return \<lparr>ti_t = \<lparr>t_type = type, t_ne = ne, t_nb = contiguous_nb type ne, t_name = ggml_set_name name,
                t_data = None\<rparr>, ti_offset = offset\<rparr>))))))"

fun read_infos :: "platform \<Rightarrow> nat \<Rightarrow> gguf_tensor_info list \<Rightarrow> gguf_tensor_info list reader" where
  "read_infos P 0 infos = rd_return infos"
| "read_infos P (Suc n) infos = rd_bind (read_tensor_info P infos) (\<lambda>i. read_infos P n (infos @ [i]))"

text \<open>The size of the data section, with the check of each offset.\<close>

definition padded_size :: "size_t \<Rightarrow> gguf_tensor_info \<Rightarrow> size_t" where
  "padded_size alignment ti = GGML_PAD (ggml_nbytes (ti_t ti)) alignment"

fun data_size :: "size_t \<Rightarrow> gguf_tensor_info list \<Rightarrow> size_t \<Rightarrow> size_t outcome" where
  "data_size alignment [] sz = Done sz"
| "data_size alignment (ti # tis) sz =
     (if ti_offset ti \<noteq> sz then Fail BadOffset
      else if - 1 - sz < padded_size alignment ti then Fail SizeOverflow
      else data_size alignment tis (sz + padded_size alignment ti))"

definition rd_outcome :: "'a outcome \<Rightarrow> 'a reader" where
  "rd_outcome r bs = (case r of Done x \<Rightarrow> Done (x, bs) | Fail e \<Rightarrow> Fail e | Throw \<Rightarrow> Throw | Crash \<Rightarrow> Crash)"

definition rd_left :: "nat reader" where
  "rd_left bs = Done (length bs, bs)"

text \<open>
  \<open>gguf_init_from_file_impl\<close> without a \<open>ggml_context\<close> to fill: the metadata, then
  the place and the size of the data. The position of the file is the bytes read so far.
\<close>

definition read_metadata :: "platform \<Rightarrow> (uint32 \<times> gguf_kv list \<times> size_t \<times> gguf_tensor_info list) reader" where
  "read_metadata P =
     rd_bind (read_header P) (\<lambda>(version, n_tensors, n_kv).
     rd_bind (read_kvs P n_kv []) (\<lambda>kvs.
     rd_bind (read_alignment kvs) (\<lambda>alignment.
     rd_bind (read_infos P n_tensors []) (\<lambda>infos.
       rd_return (version, kvs, alignment, infos)))))"

definition read_gguf :: "platform \<Rightarrow> nat \<Rightarrow> gguf_context reader" where
  "read_gguf P file_size =
     rd_bind (read_metadata P) (\<lambda>(version, kvs, alignment, infos).
     rd_bind rd_left (\<lambda>left.
     rd_bind (rd_outcome (data_size alignment infos 0)) (\<lambda>sz.
       rd_return \<lparr>gc_version = version, gc_kv = kvs, gc_info = infos, gc_alignment = alignment,
         gc_offset = GGML_PAD (word_of_nat (file_size - left)) alignment, gc_size = sz\<rparr>)))"

definition gguf_init_from_file :: "platform \<Rightarrow> byte list \<Rightarrow> gguf_context outcome" where
  "gguf_init_from_file P file =
     (case read_gguf P (length file) file of
        Done (ctx, _) \<Rightarrow> Done ctx | Fail e \<Rightarrow> Fail e | Throw \<Rightarrow> Throw | Crash \<Rightarrow> Crash)"

section \<open>Tensors\<close>

definition gguf_get_n_tensors :: "gguf_context \<Rightarrow> int" where
  "gguf_get_n_tensors ctx = int (length (gc_info ctx))"

definition gguf_find_tensor :: "gguf_context \<Rightarrow> string \<Rightarrow> int" where
  "gguf_find_tensor ctx name = find_from (\<lambda>k. k = c_str name) (map (\<lambda>i. t_name (ti_t i)) (gc_info ctx)) 0"

definition info_at :: "gguf_context \<Rightarrow> int \<Rightarrow> gguf_tensor_info option" where
  "info_at ctx tensor_id = (if 0 \<le> tensor_id \<and> tensor_id < gguf_get_n_tensors ctx then Some (gc_info ctx ! nat tensor_id) else None)"

definition gguf_get_tensor_offset :: "gguf_context \<Rightarrow> int \<Rightarrow> size_t option" where
  "gguf_get_tensor_offset ctx tensor_id = map_option ti_offset (info_at ctx tensor_id)"

definition gguf_get_tensor_name :: "gguf_context \<Rightarrow> int \<Rightarrow> string option" where
  "gguf_get_tensor_name ctx tensor_id = map_option (\<lambda>i. t_name (ti_t i)) (info_at ctx tensor_id)"

definition gguf_get_tensor_type :: "gguf_context \<Rightarrow> int \<Rightarrow> int option" where
  "gguf_get_tensor_type ctx tensor_id = map_option (\<lambda>i. t_type (ti_t i)) (info_at ctx tensor_id)"

definition gguf_get_tensor_size :: "gguf_context \<Rightarrow> int \<Rightarrow> size_t option" where
  "gguf_get_tensor_size ctx tensor_id = map_option (\<lambda>i. ggml_nbytes (ti_t i)) (info_at ctx tensor_id)"

section \<open>Changing a context\<close>

text \<open>Keys are C strings; \<open>None\<close> is a failed assertion or \<open>GGML_ABORT\<close>.\<close>

definition gguf_remove_key :: "gguf_context \<Rightarrow> string \<Rightarrow> int \<times> gguf_context" where
  "gguf_remove_key ctx key =
     (let key_id = gguf_find_key ctx key in
      (key_id, if 0 \<le> key_id
        then ctx\<lparr>gc_kv := take (nat key_id) (gc_kv ctx) @ drop (nat key_id + 1) (gc_kv ctx)\<rparr> else ctx))"

text \<open>
  \<open>gguf_check_reserved_keys\<close>: the alignment must be a \<open>uint32_t\<close> that is a power of two.
\<close>

definition check_reserved_keys :: "string \<Rightarrow> uint32 option \<Rightarrow> bool" where
  "check_reserved_keys key val =
     (key = GGUF_KEY_GENERAL_ALIGNMENT \<longrightarrow> (case val of Some v \<Rightarrow> is_pow2 v | None \<Rightarrow> False))"

definition emplace_back :: "gguf_context \<Rightarrow> gguf_kv option \<Rightarrow> gguf_context option" where
  "emplace_back ctx kv = map_option (\<lambda>kv. ctx\<lparr>gc_kv := gc_kv ctx @ [kv]\<rparr>) kv"

text \<open>\<open>gguf_set_val_u8\<close> and its ten siblings, by the type and the bytes of the value.\<close>

definition gguf_set_val :: "gguf_type \<Rightarrow> gguf_context \<Rightarrow> string \<Rightarrow> byte list \<Rightarrow> gguf_context option" where
  "gguf_set_val T ctx key val =
     (let key = c_str key in
      if \<not> check_reserved_keys key (if T = GGUF_TYPE_UINT32 then Some (word_of_nat (le_nat val)) else None) then None
      else emplace_back (snd (gguf_remove_key ctx key)) (new_kv key False T val []))"

definition gguf_set_val_u32 :: "gguf_context \<Rightarrow> string \<Rightarrow> uint32 \<Rightarrow> gguf_context option" where
  "gguf_set_val_u32 ctx key val = gguf_set_val GGUF_TYPE_UINT32 ctx key (le_bytes 4 (unat val))"

definition gguf_set_val_bool :: "gguf_context \<Rightarrow> string \<Rightarrow> bool \<Rightarrow> gguf_context option" where
  "gguf_set_val_bool ctx key val = gguf_set_val GGUF_TYPE_BOOL ctx key [if val then 1 else 0]"

definition gguf_set_val_str :: "gguf_context \<Rightarrow> string \<Rightarrow> string \<Rightarrow> gguf_context option" where
  "gguf_set_val_str ctx key val =
     (let key = c_str key in
      if \<not> check_reserved_keys key None then None
      else emplace_back (snd (gguf_remove_key ctx key)) (new_kv key False GGUF_TYPE_STRING [] [c_str val]))"

text \<open>An array of \<open>n\<close> values, given by their bytes: stored as \<open>int8_t\<close>, then cast.\<close>

definition gguf_set_arr_data :: "gguf_context \<Rightarrow> string \<Rightarrow> gguf_type \<Rightarrow> byte list \<Rightarrow> nat \<Rightarrow> gguf_context option" where
  "gguf_set_arr_data ctx key type data n =
     (let key = c_str key in
      if \<not> check_reserved_keys key None then None
      else emplace_back (snd (gguf_remove_key ctx key))
        (Option.bind (new_kv key True GGUF_TYPE_INT8 (take (n * gguf_type_size type) data) []) (kv_cast type)))"

definition gguf_set_arr_str :: "gguf_context \<Rightarrow> string \<Rightarrow> string list \<Rightarrow> gguf_context option" where
  "gguf_set_arr_str ctx key data =
     (let key = c_str key in
      if \<not> check_reserved_keys key None then None
      else emplace_back (snd (gguf_remove_key ctx key)) (new_kv key True GGUF_TYPE_STRING [] (map c_str data)))"

text \<open>\<open>gguf_set_kv\<close>: every pair of another context, set by the setter of its type.\<close>

definition set_kv_step :: "gguf_kv \<Rightarrow> gguf_context \<Rightarrow> gguf_context option" where
  "set_kv_step kv ctx =
     (let key = c_str (kv_key kv) in
      if \<not> kv_is_array kv
      then if kv_type kv = GGUF_TYPE_STRING
        then Option.bind (get_val_string 0 kv) (\<lambda>v. gguf_set_val_str ctx key (c_str v))
        else if kv_type kv = GGUF_TYPE_ARRAY then None
        else Option.bind (get_val (kv_type kv) 0 kv) (\<lambda>v. gguf_set_val (kv_type kv) ctx key v)
      else Option.bind (get_ne kv) (\<lambda>ne.
        if kv_type kv = GGUF_TYPE_STRING then gguf_set_arr_str ctx key (take ne (kv_data_string kv))
        else if kv_type kv = GGUF_TYPE_ARRAY then None
        else gguf_set_arr_data ctx key (kv_type kv) (kv_data kv) ne))"

definition gguf_set_kv :: "gguf_context \<Rightarrow> gguf_context \<Rightarrow> gguf_context option" where
  "gguf_set_kv ctx src = fold (\<lambda>kv r. Option.bind r (set_kv_step kv)) (gc_kv src) (Some ctx)"

definition gguf_add_tensor :: "gguf_context \<Rightarrow> ggml_tensor \<Rightarrow> gguf_context option" where
  "gguf_add_tensor ctx tensor =
     (if gguf_find_tensor ctx (t_name tensor) \<noteq> -1 then None
      else
        let offset = (if gc_info ctx = [] then 0
              else ti_offset (last (gc_info ctx)) + padded_size (gc_alignment ctx) (last (gc_info ctx)))
        in Some (ctx\<lparr>gc_info := gc_info ctx @ [\<lparr>ti_t = tensor, ti_offset = offset\<rparr>]\<rparr>))"

text \<open>The offsets behind a changed tensor are computed again.\<close>

definition update_offset :: "size_t \<Rightarrow> nat \<Rightarrow> gguf_tensor_info list \<Rightarrow> gguf_tensor_info list" where
  "update_offset alignment i infos =
     infos[i := (infos ! i)\<lparr>ti_offset := ti_offset (infos ! (i - 1)) + padded_size alignment (infos ! (i - 1))\<rparr>]"

definition gguf_set_tensor_type :: "gguf_context \<Rightarrow> string \<Rightarrow> int \<Rightarrow> gguf_context option" where
  "gguf_set_tensor_type ctx name type =
     (let tensor_id = gguf_find_tensor ctx name in
      if tensor_id < 0 then None
      else
        let i = nat tensor_id; info = gc_info ctx ! i; tensor = ti_t info in
        if ggml_blck_size type = 0 \<or> t_ne tensor ! 0 mod int (ggml_blck_size type) \<noteq> 0 then None
        else
          let tensor = tensor\<lparr>t_type := type, t_nb := contiguous_nb type (t_ne tensor)\<rparr>;
              infos = (gc_info ctx)[i := info\<lparr>ti_t := tensor\<rparr>]
          in Some (ctx\<lparr>gc_info := fold (update_offset (gc_alignment ctx)) [i + 1..<length infos] infos\<rparr>))"

definition gguf_set_tensor_data :: "gguf_context \<Rightarrow> string \<Rightarrow> byte list \<Rightarrow> gguf_context option" where
  "gguf_set_tensor_data ctx name data =
     (let tensor_id = gguf_find_tensor ctx name in
      if tensor_id < 0 then None
      else
        let i = nat tensor_id; info = gc_info ctx ! i in
        Some (ctx\<lparr>gc_info := (gc_info ctx)[i := info\<lparr>ti_t := (ti_t info)\<lparr>t_data := Some data\<rparr>\<rparr>]\<rparr>))"

section \<open>Writing\<close>

text \<open>\<open>gguf_writer\<close>: what each overload appends to the buffer.\<close>

definition write_u32 :: "uint32 \<Rightarrow> byte list" where
  "write_u32 v = le_bytes 4 (unat v)"

definition write_i32 :: "int \<Rightarrow> byte list" where
  "write_i32 v = le_bytes 4 (unat (word_of_int v :: 32 word))"

definition write_u64 :: "size_t \<Rightarrow> byte list" where
  "write_u64 v = le_bytes 8 (unat v)"

definition write_i64 :: "int \<Rightarrow> byte list" where
  "write_i64 v = le_bytes 8 (unat (word_of_int v :: 64 word))"

definition write_string :: "string \<Rightarrow> byte list" where
  "write_string s = write_u64 (word_of_nat (length s)) @ bytes_of s"

definition write_type :: "gguf_type \<Rightarrow> byte list" where
  "write_type T = write_i32 (int (gguf_type_val T))"

definition write_kv :: "gguf_kv \<Rightarrow> byte list option" where
  "write_kv kv =
     Option.bind (get_ne kv) (\<lambda>ne.
       let head = write_string (kv_key kv) @
             (if kv_is_array kv
              then write_type GGUF_TYPE_ARRAY @ write_type (kv_type kv) @ write_u64 (word_of_nat ne)
              else write_type (kv_type kv))
       in if kv_type kv = GGUF_TYPE_BOOL
          then map_option (\<lambda>vs. head @ concat vs)
            (those (map (\<lambda>i. map_option (\<lambda>v. [if v ! 0 \<noteq> 0 then 1 else 0]) (get_val GGUF_TYPE_BOOL i kv)) [0..<ne]))
          else if kv_type kv = GGUF_TYPE_STRING
          then map_option (\<lambda>vs. head @ concat (map write_string vs)) (those (map (\<lambda>i. get_val_string i kv) [0..<ne]))
          else if kv_type kv = GGUF_TYPE_ARRAY then None
          else Some (head @ kv_data kv))"

definition write_tensor_meta :: "gguf_tensor_info \<Rightarrow> byte list" where
  "write_tensor_meta info =
     (let n_dims = ggml_n_dims (t_ne (ti_t info)) in
      write_string (t_name (ti_t info)) @ write_u32 (word_of_nat n_dims) @
      concat (map (\<lambda>j. write_i64 (t_ne (ti_t info) ! j)) [0..<n_dims]) @
      write_i32 (t_type (ti_t info)) @ write_u64 (ti_offset info))"

text \<open>\<open>pad\<close>: zeros up to a multiple of the alignment, which must not be 0.\<close>

function pad :: "nat \<Rightarrow> byte list \<Rightarrow> byte list" where
  "pad alignment buf =
     (if alignment = 0 \<or> length buf mod alignment = 0 then buf else pad alignment (buf @ [0]))"
  by pat_completeness auto
termination
proof (relation "measure (\<lambda>(alignment, buf). (alignment - length buf mod alignment) mod alignment)")
  fix alignment :: nat and buf :: "byte list"
  assume "\<not> (alignment = 0 \<or> length buf mod alignment = 0)"
  then have a: "0 < alignment" "0 < length buf mod alignment" "length buf mod alignment < alignment" by simp_all
  then show "((alignment, buf @ [0]), alignment, buf) \<in> measure (\<lambda>(alignment, buf). (alignment - length buf mod alignment) mod alignment)"
    by (cases "Suc (length buf mod alignment) = alignment") (simp_all add: mod_Suc)
qed simp

declare pad.simps [simp del]

definition write_tensor_data :: "gguf_tensor_info \<Rightarrow> nat \<Rightarrow> nat \<Rightarrow> byte list \<Rightarrow> byte list option" where
  "write_tensor_data info offset_data alignment buf =
     (if word_of_nat (length buf - offset_data) \<noteq> ti_offset info then None
      else if \<not> ggml_is_contiguous (ti_t info) then None
      else
        let nbytes = unat (ggml_nbytes (ti_t info)) in
        case t_data (ti_t info) of
          None \<Rightarrow> None
        | Some data \<Rightarrow>
            if length data < nbytes \<or> alignment = 0 then None
            else Some (pad alignment (buf @ take nbytes data)))"

text \<open>\<open>gguf_write_to_buf\<close>, into the buffer \<open>buf\<close>.\<close>

definition write_meta :: "gguf_context \<Rightarrow> byte list \<Rightarrow> byte list option" where
  "write_meta ctx buf =
     Option.bind (those (map write_kv (gc_kv ctx))) (\<lambda>kvs.
       if gc_alignment ctx = 0 then None
       else Some (pad (unat (gc_alignment ctx))
         (buf @ bytes_of GGUF_MAGIC @ write_u32 (gc_version ctx) @ write_i64 (gguf_get_n_tensors ctx) @
          write_i64 (gguf_get_n_kv ctx) @ concat kvs @ concat (map write_tensor_meta (gc_info ctx)))))"

definition gguf_write_to_buf :: "gguf_context \<Rightarrow> byte list \<Rightarrow> bool \<Rightarrow> byte list option" where
  "gguf_write_to_buf ctx buf only_meta =
     Option.bind (write_meta ctx buf) (\<lambda>buf.
       if only_meta then Some buf
       else fold (\<lambda>info r. Option.bind r (write_tensor_data info (length buf) (unat (gc_alignment ctx))))
         (gc_info ctx) (Some buf))"

text \<open>The file that \<open>gguf_write_to_file\<close> writes when the system lets it; the metadata alone.\<close>

definition gguf_write_to_file :: "gguf_context \<Rightarrow> bool \<Rightarrow> byte list option" where
  "gguf_write_to_file ctx only_meta = gguf_write_to_buf ctx [] only_meta"

definition gguf_get_meta_size :: "gguf_context \<Rightarrow> nat option" where
  "gguf_get_meta_size ctx = map_option length (gguf_write_to_buf ctx [] True)"

definition gguf_get_meta_data :: "gguf_context \<Rightarrow> byte list option" where
  "gguf_get_meta_data ctx = gguf_write_to_buf ctx [] True"

end
