(* ===== verification/Gguf_Props.thy ===== *)
theory Gguf_Props
  imports Gguf
begin

text \<open>
  What the reader and the writer of GGUF files promise each other: every value written is read
  back, in any surroundings; a file cut off inside its metadata is refused; what was read can be
  written and read again.
\<close>

section \<open>Readers that consume what they understand\<close>

text \<open>
  A reader takes a prefix of the bytes, whatever follows it, and a part of that prefix is the end
  of the file.
\<close>

locale streaming =
  fixes rd :: "'a reader"
  assumes consumes: "rd bs = Done (x, r) \<Longrightarrow>
    \<exists>p. bs = p @ r \<and> (\<forall>r'. rd (p @ r') = Done (x, r')) \<and> (\<forall>q. strict_prefix q p \<longrightarrow> rd q = Fail UnexpectedEnd)"
begin

lemma truncated:
  assumes "rd bs = Done (x, r)" and "j < length bs - length r"
  shows "rd (take j bs) = Fail UnexpectedEnd"
proof -
  obtain p where p: "bs = p @ r" "\<forall>q. strict_prefix q p \<longrightarrow> rd q = Fail UnexpectedEnd"
    using consumes [OF assms(1)] by blast
  have "j < length p" using assms(2) p(1) by simp
  then have "strict_prefix (take j bs) p"
    unfolding p(1) by (metis append_take_drop_id length_take min.absorb4 nat_neq_iff prefixI strict_prefixI take_append
        diff_is_0_eq' less_imp_le_nat take0 append_Nil2)
  with p(2) show ?thesis by blast
qed

lemma any_rest:
  assumes "rd bs = Done (x, r)"
  shows "length r \<le> length bs" and "rd (take (length bs - length r) bs @ r') = Done (x, r')"
    and "drop (length bs - length r) bs = r"
  using consumes [OF assms] by auto

end

named_theorems streaming_intros \<open>readers that consume what they understand\<close>

lemma streaming_return [streaming_intros]: "streaming (rd_return x)"
  by unfold_locales (simp add: rd_return_def)

lemma streaming_fail [streaming_intros]: "streaming (rd_fail e)" "streaming rd_throw" "streaming rd_crash"
  by (unfold_locales, simp add: rd_fail_def rd_throw_def rd_crash_def)+

lemma streaming_bytes [streaming_intros]: "streaming (read_bytes n)"
proof unfold_locales
  fix bs x r assume "read_bytes n bs = Done (x, r)"
  then have "n \<le> length bs" "x = take n bs" "r = drop n bs" by (simp_all add: read_bytes_def split: if_splits)
  then show "\<exists>p. bs = p @ r \<and> (\<forall>r'. read_bytes n (p @ r') = Done (x, r')) \<and>
      (\<forall>q. strict_prefix q p \<longrightarrow> read_bytes n q = Fail UnexpectedEnd)"
    by (intro exI [of _ x]) (auto simp: read_bytes_def dest!: prefix_length_less)
qed

lemma streaming_bind [streaming_intros]:
  assumes "streaming m" and "\<And>x. streaming (f x)"
  shows "streaming (rd_bind m f)"
proof unfold_locales
  fix bs y r assume "rd_bind m f bs = Done (y, r)"
  then obtain x r1 where m: "m bs = Done (x, r1)" and f: "f x r1 = Done (y, r)"
    by (auto simp: rd_bind_def split: outcome.splits)
  obtain p where p: "bs = p @ r1" "\<forall>r'. m (p @ r') = Done (x, r')" "\<forall>q. strict_prefix q p \<longrightarrow> m q = Fail UnexpectedEnd"
    using streaming.consumes [OF assms(1) m] by blast
  obtain p' where p': "r1 = p' @ r" "\<forall>r'. f x (p' @ r') = Done (y, r')"
    "\<forall>q. strict_prefix q p' \<longrightarrow> f x q = Fail UnexpectedEnd"
    using streaming.consumes [OF assms(2) f] by blast
  have "rd_bind m f q = Fail UnexpectedEnd" if "strict_prefix q (p @ p')" for q
  proof (cases "strict_prefix q p")
    case True
    with p(3) show ?thesis by (simp add: rd_bind_def)
  next
    case False
    with that obtain q' where "q = p @ q'" "strict_prefix q' p'"
      by (metis prefix_append prefix_def same_prefix_prefix strict_prefix_def append_Nil2)
    with p(2) p'(3) show ?thesis by (simp add: rd_bind_def)
  qed
  moreover have "rd_bind m f ((p @ p') @ r') = Done (y, r')" for r'
    using p(2) p'(2) by (simp add: rd_bind_def)
  moreover have "bs = (p @ p') @ r" using p(1) p'(1) by simp
  ultimately show "\<exists>p. bs = p @ r \<and> (\<forall>r'. rd_bind m f (p @ r') = Done (y, r')) \<and>
      (\<forall>q. strict_prefix q p \<longrightarrow> rd_bind m f q = Fail UnexpectedEnd)" by blast
qed

lemma streaming_try [streaming_intros]:
  assumes "streaming m"
  shows "streaming (rd_try m)"
proof unfold_locales
  fix bs x r assume "rd_try m bs = Done (x, r)"
  then have "m bs = Done (x, r)" by (simp add: rd_try_def split: outcome.splits)
  from streaming.consumes [OF assms this] obtain p where "bs = p @ r" "\<forall>r'. m (p @ r') = Done (x, r')"
    "\<forall>q. strict_prefix q p \<longrightarrow> m q = Fail UnexpectedEnd" by blast
  then show "\<exists>p. bs = p @ r \<and> (\<forall>r'. rd_try m (p @ r') = Done (x, r')) \<and>
      (\<forall>q. strict_prefix q p \<longrightarrow> rd_try m q = Fail UnexpectedEnd)"
    by (intro exI [of _ p]) (simp add: rd_try_def)
qed

lemma streaming_when [streaming_intros]: "streaming m \<Longrightarrow> streaming n \<Longrightarrow> streaming (rd_when b m n)"
  by (simp add: rd_when_def)

lemma streaming_if [streaming_intros]: "streaming m \<Longrightarrow> streaming n \<Longrightarrow> streaming (if b then m else n)"
  by simp

lemma streaming_option [streaming_intros]: "streaming (rd_option r)"
  by (cases r) (simp_all add: rd_option_def streaming_intros)

lemma streaming_times [streaming_intros]: "streaming m \<Longrightarrow> streaming (rd_times n m)"
  by (induction n) (auto intro: streaming_intros)

lemma streaming_numbers [streaming_intros]:
  "streaming read_u32" "streaming read_i32" "streaming read_u64" "streaming read_i64"
  by (auto simp: read_u32_def read_i32_def read_u64_def read_i64_def intro!: streaming_intros)

lemma streaming_string [streaming_intros]: "streaming (read_string P)"
  by (auto simp: read_string_def intro!: streaming_intros)

lemma streaming_value [streaming_intros]: "streaming (read_value P type key is_array n)"
  by (auto simp: read_value_def read_emplace_def read_scalar_def intro!: streaming_intros
      split: option.split gguf_type.split)

lemma streaming_kvs [streaming_intros]: "streaming (read_kvs P n kvs)"
  by (induction n arbitrary: kvs) (auto simp: read_kv_def intro!: streaming_intros)

lemma streaming_header [streaming_intros]: "streaming (read_header P)"
  by (auto simp: read_header_def read_magic_def check_version_def read_count_def intro!: streaming_intros)

lemma streaming_ne [streaming_intros]: "streaming (read_ne n js)"
  by (induction js) (auto intro!: streaming_intros)

lemma streaming_infos [streaming_intros]: "streaming (read_infos P n infos)"
  by (induction n arbitrary: infos)
    (auto simp: read_tensor_info_def read_shape_def read_tensor_type_def intro!: streaming_intros)

interpretation metadata: streaming "read_metadata P" for P
  unfolding read_metadata_def read_alignment_def case_prod_beta by (intro streaming_intros)

section \<open>Values that are read back as they were written\<close>

lemma rd_bind_done: "m bs = Done (x, r) \<Longrightarrow> rd_bind m f bs = f x r"
  by (simp add: rd_bind_def)

lemma rd_simps [simp]:
  "rd_return x bs = Done (x, bs)" "rd_fail e bs = Fail e" "rd_throw bs = Throw" "rd_crash bs = Crash"
  "rd_when True m n = m" "rd_when False m n = n" "rd_option (Some x) = rd_return x" "rd_option None = rd_crash"
  by (simp_all add: fun_eq_iff rd_return_def rd_fail_def rd_throw_def rd_crash_def rd_when_def rd_option_def)

lemma rd_try_done: "m bs = Done (x, r) \<Longrightarrow> rd_try m bs = Done (x, r)"
  by (simp add: rd_try_def)

locale codec =
  fixes enc :: "'a \<Rightarrow> byte list"
    and rd :: "'a reader"
    and ok :: "'a \<Rightarrow> bool"
  assumes decode: "ok x \<Longrightarrow> rd (enc x @ r) = Done (x, r)"
begin

lemma decode_bind: "ok x \<Longrightarrow> rd_bind rd f (enc x @ r) = f x r"
  by (simp add: rd_bind_done decode)

lemma decode_try: "ok x \<Longrightarrow> rd_bind (rd_try rd) f (enc x @ r) = f x r"
  by (simp add: rd_bind_done [OF rd_try_done] decode)

lemma decode_list: "\<forall>x\<in>set xs. ok x \<Longrightarrow> rd_times (length xs) rd (concat (map enc xs) @ r) = Done (xs, r)"
  by (induction xs) (simp_all add: rd_bind_def decode)

end

lemma read_bytes_append: "length b = n \<Longrightarrow> read_bytes n (b @ r) = Done (b, r)"
  by (simp add: read_bytes_def)

lemma bind_bytes: "length b = n \<Longrightarrow> rd_bind (read_bytes n) f (b @ r) = f b r"
  by (simp add: rd_bind_done read_bytes_append)

lemma word_le_bytes: "LENGTH('a) = 8 * k \<Longrightarrow> word_of_nat (le_nat (le_bytes k (unat w))) = (w :: 'a::len word)"
proof -
  assume "LENGTH('a) = 8 * k"
  then have "(2 :: nat) ^ LENGTH('a) = 256 ^ k" by (simp add: power_mult)
  moreover have "unat w < 2 ^ LENGTH('a)" by simp
  ultimately show ?thesis by (simp add: le_nat_bytes)
qed

interpretation u32: codec write_u32 read_u32 "\<lambda>_. True"
  by unfold_locales (simp add: read_u32_def write_u32_def bind_bytes word_le_bytes)

interpretation u64: codec write_u64 read_u64 "\<lambda>_. True"
  by unfold_locales (simp add: read_u64_def write_u64_def bind_bytes word_le_bytes)

interpretation i32: codec write_i32 read_i32 "\<lambda>n. - (2 ^ 31) \<le> n \<and> n < 2 ^ 31"
  by unfold_locales (simp add: read_i32_def write_i32_def bind_bytes word_le_bytes
      signed_of_int signed_take_bit_int_eq_self)

interpretation i64: codec write_i64 read_i64 "\<lambda>n. - (2 ^ 63) \<le> n \<and> n < 2 ^ 63"
  by unfold_locales (simp add: read_i64_def write_i64_def bind_bytes word_le_bytes
      signed_of_int signed_take_bit_int_eq_self)

definition text_ok :: "platform \<Rightarrow> string \<Rightarrow> bool" where
  "text_ok P s = (length s < 2 ^ 64 \<and> pl_alloc P (length s))"

lemma unat_length: "n < 2 ^ 64 \<Longrightarrow> unat (word_of_nat n :: size_t) = n"
  by (simp add: unat_of_nat)

interpretation str: codec write_string "read_string P" "text_ok P" for P
  by unfold_locales (simp add: read_string_def write_string_def u64.decode_bind text_ok_def unat_length
      bind_bytes)

lemma gguf_type_of_val: "gguf_type_of (int (gguf_type_val T)) = Some T"
  by (cases T) (simp_all add: gguf_type_of_def gguf_types_def)

lemma gguf_type_val_bound: "gguf_type_val T < 13"
  by (cases T) simp_all

lemma gguf_type_val_array: "gguf_type_val T = gguf_type_val GGUF_TYPE_ARRAY \<longleftrightarrow> T = GGUF_TYPE_ARRAY"
  by (cases T) simp_all

text \<open>The bytes of scalar values.\<close>

definition scalar_ok :: "gguf_type \<Rightarrow> byte list \<Rightarrow> bool" where
  "scalar_ok T b = (T \<noteq> GGUF_TYPE_STRING \<and> T \<noteq> GGUF_TYPE_ARRAY \<and> length b = gguf_type_size T \<and>
     (T = GGUF_TYPE_BOOL \<longrightarrow> b = [0] \<or> b = [1]))"

interpretation scalar: codec "\<lambda>b. b" "read_scalar T" "scalar_ok T" for T
  by unfold_locales (auto simp: read_scalar_def scalar_ok_def bind_bytes)

section \<open>Key-value pairs\<close>

definition slices :: "nat \<Rightarrow> nat \<Rightarrow> 'a list \<Rightarrow> 'a list list" where
  "slices k n d = map (\<lambda>i. take k (drop (i * k) d)) [0..<n]"

lemma slices_Suc: "slices k (Suc n) d = take k d # slices k n (drop k d)"
  unfolding slices_def upt_conv_Cons [OF zero_less_Suc] map_Suc_upt [symmetric]
  by (simp add: add.commute)

lemma concat_slices: "length d = n * k \<Longrightarrow> concat (slices k n d) = d"
proof (induction n arbitrary: d)
  case (Suc n)
  then have "length (drop k d) = n * k" by simp
  with Suc.IH show ?case by (simp add: slices_Suc)
qed (simp add: slices_def)

lemma slices_length: "length d = n * k \<Longrightarrow> s \<in> set (slices k n d) \<Longrightarrow> length s = k"
proof (induction n arbitrary: d)
  case (Suc n)
  then have "length (drop k d) = n * k" "k \<le> length d" by simp_all
  with Suc.IH [of "drop k d"] Suc.prems(2) show ?case by (auto simp: slices_Suc)
qed (simp add: slices_def)

text \<open>A pair that the constructors and the operations build, with values the platform can hold.\<close>

definition kv_ok :: "platform \<Rightarrow> gguf_kv \<Rightarrow> bool" where
  "kv_ok P kv =
     (kv_key kv \<noteq> [] \<and> text_ok P (kv_key kv) \<and>
      (\<exists>ne. get_ne kv = Some ne \<and> ne < 2 ^ 64 \<and> (kv_is_array kv \<longrightarrow> pl_alloc P (vector_bytes P (kv_type kv) ne))) \<and>
      (if kv_type kv = GGUF_TYPE_STRING then kv_data kv = [] \<and> (\<forall>s\<in>set (kv_data_string kv). text_ok P s)
       else kv_data_string kv = [] \<and> (kv_type kv = GGUF_TYPE_BOOL \<longrightarrow> set (kv_data kv) \<subseteq> {0, 1})))"

definition kv_head :: "gguf_kv \<Rightarrow> nat \<Rightarrow> byte list" where
  "kv_head kv ne =
     (if kv_is_array kv then write_type GGUF_TYPE_ARRAY @ write_type (kv_type kv) @ write_u64 (word_of_nat ne)
      else write_type (kv_type kv))"

definition kv_payload :: "gguf_kv \<Rightarrow> byte list" where
  "kv_payload kv = (if kv_type kv = GGUF_TYPE_STRING then concat (map write_string (kv_data_string kv)) else kv_data kv)"

lemma get_ne_scalar:
  assumes "get_ne kv = Some ne" and "kv_type kv \<noteq> GGUF_TYPE_STRING"
  shows "length (kv_data kv) = ne * gguf_type_size (kv_type kv)" and "kv_type kv \<noteq> GGUF_TYPE_ARRAY"
    and "0 < gguf_type_size (kv_type kv)"
  using assms by (auto simp: get_ne_def Let_def split: if_splits)

lemma get_ne_string:
  assumes "get_ne kv = Some ne" and "kv_type kv = GGUF_TYPE_STRING"
  shows "length (kv_data_string kv) = ne"
  using assms by (auto simp: get_ne_def Let_def split: if_splits)

lemma get_ne_single: "get_ne kv = Some ne \<Longrightarrow> \<not> kv_is_array kv \<Longrightarrow> ne = 1"
  by (auto simp: get_ne_def Let_def split: if_splits)

lemma those_map_Some: "(\<And>x. x \<in> set xs \<Longrightarrow> f x = Some (g x)) \<Longrightarrow> those (map f xs) = Some (map g xs)"
  by (induction xs) auto

lemma write_kv_ok:
  assumes "kv_ok P kv" and "get_ne kv = Some ne"
  shows "write_kv kv = Some (write_string (kv_key kv) @ kv_head kv ne @ kv_payload kv)"
proof -
  let ?T = "kv_type kv"
  consider (bool) "?T = GGUF_TYPE_BOOL" | (str) "?T = GGUF_TYPE_STRING" | (other) "?T \<noteq> GGUF_TYPE_BOOL" "?T \<noteq> GGUF_TYPE_STRING"
    by blast
  then show ?thesis
  proof cases
    case bool
    let ?d = "kv_data kv"
    have len: "length ?d = ne" using get_ne_scalar(1) [OF assms(2)] bool by simp
    have v: "get_val GGUF_TYPE_BOOL i kv = Some [?d ! i]" if "i < ne" for i
      using that len bool by (simp add: get_val_def Let_def take_Suc_conv_app_nth hd_drop_conv_nth take_Suc)
    have "set ?d \<subseteq> {0, 1}" using assms(1) bool by (simp add: kv_ok_def)
    then have "?d ! i = 0 \<or> ?d ! i = 1" if "i < ne" for i
      using that len nth_mem [of i ?d] by blast
    then have "those (map (\<lambda>i. map_option (\<lambda>v. [if v ! 0 \<noteq> 0 then 1 else 0]) (get_val GGUF_TYPE_BOOL i kv)) [0..<ne]) =
        Some (map (\<lambda>i. [?d ! i]) [0..<ne])"
      by (intro those_map_Some) (auto simp: v)
    moreover have "concat (map (\<lambda>i. [?d ! i]) [0..<ne]) = ?d"
      using len by (simp add: concat_map_singleton map_nth flip: len)
    ultimately show ?thesis
      using assms(2) bool by (simp add: write_kv_def Let_def kv_head_def kv_payload_def)
  next
    case str
    have len: "length (kv_data_string kv) = ne" by (rule get_ne_string [OF assms(2) str])
    have "those (map (\<lambda>i. get_val_string i kv) [0..<ne]) = Some (map (\<lambda>i. kv_data_string kv ! i) [0..<ne])"
      using len str by (intro those_map_Some) (simp add: get_val_string_def)
    also have "map (\<lambda>i. kv_data_string kv ! i) [0..<ne] = kv_data_string kv"
      using len by (metis map_nth)
    finally show ?thesis
      using assms(2) str by (simp add: write_kv_def Let_def kv_head_def kv_payload_def)
  next
    case other
    then show ?thesis
      using assms(2) get_ne_scalar(2) [OF assms(2)] by (simp add: write_kv_def Let_def kv_head_def kv_payload_def)
  qed
qed

lemma read_payload:
  assumes "kv_ok P kv" and "get_ne kv = Some ne"
  shows "read_emplace P (kv_type kv) (kv_key kv) (kv_is_array kv) (word_of_nat ne) (kv_payload kv @ r) = Done (kv, r)"
proof -
  let ?T = "kv_type kv"
  have kv: "kv_key kv \<noteq> []" "ne < 2 ^ 64" "kv_is_array kv \<Longrightarrow> pl_alloc P (vector_bytes P ?T ne)"
    using assms by (auto simp: kv_ok_def)
  note ne = unat_length [OF kv(2)]
  show ?thesis
  proof (cases "?T = GGUF_TYPE_STRING")
    case True
    have d: "kv_data kv = []" "\<forall>s\<in>set (kv_data_string kv). text_ok P s"
      using assms(1) True by (auto simp: kv_ok_def)
    note len = get_ne_string [OF assms(2) True]
    show ?thesis
    proof (cases "kv_is_array kv")
      case arr: True
      have "rd_times ne (read_string P) (concat (map write_string (kv_data_string kv)) @ r) = Done (kv_data_string kv, r)"
        using str.decode_list [OF d(2)] len by simp
      then show ?thesis
        using True arr kv(1) kv(3) [OF arr] ne d(1)
        by (cases kv) (simp add: read_emplace_def kv_payload_def rd_bind_done [OF rd_try_done] new_kv_def)
    next
      case False
      then have "ne = 1" by (rule get_ne_single [OF assms(2)])
      then obtain s where s: "kv_data_string kv = [s]" using len by (metis One_nat_def length_0_conv length_Suc_conv)
      then show ?thesis
        using True False kv(1) d
        by (cases kv) (simp add: read_emplace_def kv_payload_def str.decode_bind new_kv_def)
    qed
  next
    case False
    note sc = get_ne_scalar [OF assms(2) False]
    have d: "kv_data_string kv = []" "?T = GGUF_TYPE_BOOL \<Longrightarrow> set (kv_data kv) \<subseteq> {0, 1}"
      using assms(1) False by (auto simp: kv_ok_def)
    let ?xs = "slices (gguf_type_size ?T) ne (kv_data kv)"
    have cat: "concat ?xs = kv_data kv" by (rule concat_slices [OF sc(1)])
    have ok: "\<forall>b\<in>set ?xs. scalar_ok ?T b"
    proof
      fix b assume b: "b \<in> set ?xs"
      then have len: "length b = gguf_type_size ?T" by (rule slices_length [OF sc(1)])
      have "set b \<subseteq> set (kv_data kv)" using b cat by (metis concat_eq_concat_iff UN_upper set_concat)
      moreover have "b = [0] \<or> b = [1]" if "?T = GGUF_TYPE_BOOL" "set b \<subseteq> {0, 1}"
        using that len by (cases b) auto
      ultimately show "scalar_ok ?T b"
        using len False sc(2) d(2) by (auto simp: scalar_ok_def)
    qed
    have "length ?xs = ne" by (simp add: slices_def)
    with scalar.decode_list [OF ok, of r] cat
    have times: "rd_times ne (read_scalar ?T) (kv_data kv @ r) = Done (?xs, r)" by simp
    show ?thesis
    proof (cases "kv_is_array kv")
      case arr: True
      then show ?thesis
        using False kv(1) kv(3) [OF arr] ne d(1) times cat
        by (cases kv) (simp add: read_emplace_def kv_payload_def rd_bind_done [OF rd_try_done] new_kv_def)
    next
      case sg: False
      then have "ne = 1" by (rule get_ne_single [OF assms(2)])
      then have "?xs = [kv_data kv]" using sc(1) by (simp add: slices_def)
      then have "scalar_ok ?T (kv_data kv)" using ok by simp
      then show ?thesis
        using False sg kv(1) d(1)
        by (cases kv) (simp add: read_emplace_def kv_payload_def scalar.decode_bind new_kv_def)
    qed
  qed
qed

lemma type_decode: "rd_bind read_i32 f (write_type T @ r) = f (int (gguf_type_val T)) r"
  using gguf_type_val_bound [of T] by (simp add: write_type_def i32.decode_bind)

lemma read_value_emplace: "T \<noteq> GGUF_TYPE_ARRAY \<Longrightarrow> read_value P (int (gguf_type_val T)) = read_emplace P T"
  by (cases T) (simp_all add: fun_eq_iff read_value_def gguf_type_of_def gguf_types_def)

lemma read_kv_written:
  assumes "kv_ok P kv" and "write_kv kv = Some b" and "kv_key kv \<notin> set (map kv_key kvs)"
  shows "read_kv P kvs (b @ r) = Done (kv, r)"
proof -
  let ?T = "kv_type kv"
  obtain ne where ne: "get_ne kv = Some ne" using assms(1) by (auto simp: kv_ok_def)
  have b: "b = write_string (kv_key kv) @ kv_head kv ne @ kv_payload kv"
    using write_kv_ok [OF assms(1) ne] assms(2) by simp
  have T: "?T \<noteq> GGUF_TYPE_ARRAY" using ne by (auto simp: get_ne_def)
  have key: "text_ok P (kv_key kv)" using assms(1) by (simp add: kv_ok_def)
  have n1: "ne = 1" if "\<not> kv_is_array kv" using get_ne_single [OF ne that] .
  have "read_kv P kvs (b @ r) = read_emplace P ?T (kv_key kv) (kv_is_array kv) (word_of_nat ne) (kv_payload kv @ r)"
    using assms(3) T n1 gguf_type_val_array [of ?T]
    by (cases "kv_is_array kv")
      (simp_all add: read_kv_def b kv_head_def str.decode_try [OF key] type_decode u64.decode_bind read_value_emplace
        del: gguf_type_val.simps)
  with read_payload [OF assms(1) ne] show ?thesis by simp
qed

lemma read_kvs_written:
  assumes "\<forall>kv\<in>set new. kv_ok P kv" and "those (map write_kv new) = Some bs"
    and "distinct (map kv_key (kvs @ new))"
  shows "read_kvs P (length new) kvs (concat bs @ r) = Done (kvs @ new, r)"
  using assms
proof (induction new arbitrary: kvs bs)
  case (Cons kv new)
  then obtain b bs' where b: "bs = b # bs'" "write_kv kv = Some b" "those (map write_kv new) = Some bs'"
    by (auto split: option.splits)
  have "kv_ok P kv" "kv_key kv \<notin> set (map kv_key kvs)" using Cons.prems by auto
  note rd = read_kv_written [OF this(1) b(2) this(2)]
  have "read_kvs P (length new) (kvs @ [kv]) (concat bs' @ r) = Done ((kvs @ [kv]) @ new, r)"
    using Cons.prems b(3) by (intro Cons.IH) auto
  then show ?case by (simp add: b(1) rd_bind_def rd)
qed simp

section \<open>Tensor infos\<close>

text \<open>
  A shape that a file can hold, and an info with a valid type, a name that fits its buffer, and
  the strides of its shape. What the file keeps of it leaves out the data pointer.
\<close>

definition shape_ok :: "int list \<Rightarrow> bool" where
  "shape_ok ne = (length ne = GGML_MAX_DIMS \<and> list_all (\<lambda>x. 0 \<le> x \<and> x < 2 ^ 63) ne \<and> too_many_elements ne = Some False)"

definition info_ok :: "platform \<Rightarrow> gguf_tensor_info \<Rightarrow> bool" where
  "info_ok P i =
     (let t = ti_t i in
      nul_free (t_name t) \<and> length (t_name t) < GGML_MAX_NAME \<and> text_ok P (t_name t) \<and> shape_ok (t_ne t) \<and>
      0 \<le> t_type t \<and> t_type t < GGML_TYPE_COUNT \<and> ggml_blck_size (t_type t) \<noteq> 0 \<and>
      t_ne t ! 0 mod int (ggml_blck_size (t_type t)) = 0 \<and> t_nb t = contiguous_nb (t_type t) (t_ne t))"

definition file_info :: "gguf_tensor_info \<Rightarrow> gguf_tensor_info" where
  "file_info i = i\<lparr>ti_t := (ti_t i)\<lparr>t_data := None\<rparr>\<rparr>"

lemma shape_cases:
  assumes "shape_ok ne"
  obtains a b c d where "ne = [a, b, c, d]" "0 \<le> a" "1 \<le> b" "1 \<le> c" "1 \<le> d" "a < 2 ^ 63" "b < 2 ^ 63" "c < 2 ^ 63" "d < 2 ^ 63"
    "a * b * c * d < 2 ^ 63"
proof -
  obtain a b c d where ne: "ne = [a, b, c, d]"
    using assms by (auto simp: shape_ok_def GGML_MAX_DIMS_def length_Suc_conv numeral_eq_Suc)
  have r: "0 \<le> a" "0 \<le> b" "0 \<le> c" "0 \<le> d" "a < 2 ^ 63" "b < 2 ^ 63" "c < 2 ^ 63" "d < 2 ^ 63"
    using assms by (simp_all add: shape_ok_def ne)
  have q: "b \<noteq> 0" "c \<noteq> 0" "d \<noteq> 0" "\<not> INT64_MAX div d \<le> a * b * c"
    using assms by (auto simp: shape_ok_def ne too_many_elements_def quotient_le_def bind_eq_Some_conv split: if_splits)
  then have "a * b * c < INT64_MAX div d" by simp
  then have "a * b * c * d \<le> INT64_MAX div d * d" using r(4) by (intro mult_right_mono) simp_all
  also have "\<dots> \<le> INT64_MAX" using r(4) q(3) by (metis div_mult_mod_eq le_add_same_cancel1 pos_mod_sign order_le_less)
  finally have "a * b * c * d < 2 ^ 63" by (simp add: INT64_MAX_def)
  with that [OF ne] r q show ?thesis by simp
qed

lemma read_ne_written:
  assumes "shape_ok ne"
  shows "read_ne (ggml_n_dims ne) [0..<GGML_MAX_DIMS] (concat (map (\<lambda>j. write_i64 (ne ! j)) [0..<ggml_n_dims ne]) @ r) = Done (ne, r)"
  using assms
proof (rule shape_cases)
  fix a b c d
  assume ne: "ne = [a, b, c, d]" and r: "0 \<le> a" "1 \<le> b" "1 \<le> c" "1 \<le> d" "a < 2 ^ 63" "b < 2 ^ 63" "c < 2 ^ 63" "d < 2 ^ 63"
  have u: "[0..<4] = [0, 1, 2, 3 :: nat]" "[0..<3] = [0, 1, 2 :: nat]" "[0..<2] = [0, 1 :: nat]" "[0..<1] = [0 :: nat]"
    by code_simp+
  show ?thesis
    using r unfolding dims_upt n_dims_cases ne
    by (simp add: u i64.decode_bind rd_bind_done)
qed

section \<open>Padding\<close>

lemma nat_pow2:
  fixes n :: nat
  assumes "0 < n" and "n AND (n - 1) = 0"
  shows "\<exists>k. n = 2 ^ k"
  using assms
proof (induction n rule: less_induct)
  case (less n)
  show ?case
  proof (cases "even n")
    case True
    then obtain m where n: "n = 2 * m" by (rule evenE)
    have m: "0 < m" using less.prems(1) n by simp
    have "(2 * m - 1) div 2 = m - 1" using m by simp
    then have "2 * (m AND (m - 1)) = 0"
      using less.prems(2) and_rec [of "2 * m" "2 * m - 1"] by (simp add: n)
    with less.IH [of m] m n obtain k where "m = 2 ^ k" by auto
    then show ?thesis using n by (intro exI [of _ "Suc k"]) simp
  next
    case False
    then obtain m where n: "n = 2 * m + 1" by (rule oddE)
    have "2 * (m AND m) = 0"
      using less.prems(2) and_rec [of "2 * m + 1" "2 * m"] by (simp add: n)
    then show ?thesis using n by (intro exI [of _ 0]) simp
  qed
qed

lemma is_pow2_power:
  fixes a :: "'a::len word"
  assumes "is_pow2 a"
  obtains k where "k < LENGTH('a)" "a = 2 ^ k" "unat a = 2 ^ k"
proof -
  have a: "a \<noteq> 0" "a AND (a - 1) = 0" using assms by (simp_all add: is_pow2_def)
  have "unat (a - 1) = unat a - 1" using a(1) by (simp add: unat_minus_one)
  then have "unat a AND (unat a - 1) = 0"
    using a(2) by (metis unsigned_and_eq unat_0)
  then obtain k where k: "unat a = 2 ^ k" using nat_pow2 [of "unat a"] a(1) by (auto simp: unat_gt_0)
  moreover have "k < LENGTH('a)"
    using k unsigned_less [of a, where ?'a = nat] by (simp add: power_strict_increasing_iff)
  moreover have "a = word_of_nat (unat a)" by simp
  ultimately show thesis using that by (metis of_nat_numeral of_nat_power)
qed

lemma pad_zeros:
  assumes "0 < a"
  shows "\<exists>z. pad a buf = buf @ replicate z 0 \<and> length (pad a buf) = (length buf + a - 1) div a * a"
  using assms
proof (induction a buf rule: pad.induct)
  case (1 a buf)
  show ?case
  proof (cases "length buf mod a = 0")
    case True
    then have "pad a buf = buf" by (simp add: pad.simps)
    moreover have "(length buf + a - 1) div a * a = length buf"
    proof -
      obtain q where q: "length buf = a * q" using True by (auto elim: dvdE)
      then have "(length buf + a - 1) div a = q" using 1(2)
        by (intro div_nat_eqI) (simp_all add: algebra_simps)
      with q show ?thesis by simp
    qed
    ultimately show ?thesis by (intro exI [of _ 0]) simp
  next
    case False
    then have p: "pad a buf = pad a (buf @ [0])" using 1(2) by (subst pad.simps) simp
    have "length buf mod a \<noteq> 0" by (rule False)
    then have m: "(length (buf @ [0 :: byte]) + a - 1) div a = (length buf + a - 1) div a"
    proof -
      obtain q m where qm: "length buf = a * q + m" "0 < m" "m < a"
        using False 1(2) by (metis div_mult_mod_eq mod_less_divisor mult.commute gr0I)
      then have "(length buf + a) div a = q + 1" "(length buf + a - 1) div a = q + 1"
        by (auto intro!: div_nat_eqI simp: algebra_simps)
      then show ?thesis by simp
    qed
    from "1.IH" False 1(2) obtain z where "pad a (buf @ [0]) = buf @ [0] @ replicate z 0"
      "length (pad a (buf @ [0])) = (length buf + a - 1) div a * a"
      unfolding m by auto
    then show ?thesis unfolding p by (intro exI [of _ "Suc z"]) simp
  qed
qed

lemma pad_word:
  assumes "is_pow2 a" and "length buf + unat a \<le> 2 ^ 64"
  shows "GGML_PAD (word_of_nat (length buf)) a = (word_of_nat (length (pad (unat a) buf)) :: size_t)"
proof -
  obtain k where k: "k < 64" "a = 2 ^ k" "unat a = 2 ^ k" using is_pow2_power [OF assms(1)] by auto
  have "unat (GGML_PAD (word_of_nat (length buf)) (2 ^ k) :: size_t) = (length buf + 2 ^ k - 1) div 2 ^ k * 2 ^ k"
    using GGML_PAD_unat [where 'a = 64 and k = k and n = "length buf"] k assms(2) by simp
  also have "\<dots> = length (pad (unat a) buf)"
    using pad_zeros [of "unat a" buf] k(3) by auto
  finally have "word_of_nat (unat (GGML_PAD (word_of_nat (length buf)) (2 ^ k) :: size_t)) =
      (word_of_nat (length (pad (unat a) buf)) :: size_t)" by (rule arg_cong)
  then show ?thesis using k(2) by simp
qed

section \<open>Reading what was written\<close>

lemma bind_return [simp]: "rd_bind (rd_return x) f = f x"
  by (simp add: fun_eq_iff rd_bind_def)

lemma bind_ne:
  assumes "shape_ok ne"
  shows "rd_bind (read_ne (ggml_n_dims ne) [0..<GGML_MAX_DIMS]) f
    (concat (map (\<lambda>j. write_i64 (ne ! j)) [0..<ggml_n_dims ne]) @ r) = f ne r"
  by (rule rd_bind_done) (rule read_ne_written [OF assms])

lemma read_tensor_info_written:
  assumes "info_ok P i" and "t_name (ti_t i) \<notin> set (map (\<lambda>i. t_name (ti_t i)) infos)"
  shows "read_tensor_info P infos (write_tensor_meta i @ r) = Done (file_info i, r)"
proof -
  let ?t = "ti_t i"
  have t: "nul_free (t_name ?t)" "length (t_name ?t) < GGML_MAX_NAME" "text_ok P (t_name ?t)" "shape_ok (t_ne ?t)"
    "0 \<le> t_type ?t" "t_type ?t < GGML_TYPE_COUNT" "ggml_blck_size (t_type ?t) \<noteq> 0"
    "t_ne ?t ! 0 mod int (ggml_blck_size (t_type ?t)) = 0" "t_nb ?t = contiguous_nb (t_type ?t) (t_ne ?t)"
    using assms(1) by (simp_all add: info_ok_def Let_def)
  have name: "ggml_set_name (t_name ?t) = t_name ?t"
    using t(1,2) by (simp add: ggml_set_name_def)
  have dims: "unat (word_of_nat (ggml_n_dims (t_ne ?t)) :: uint32) = ggml_n_dims (t_ne ?t)"
    "\<not> word_of_nat GGML_MAX_DIMS < (word_of_nat (ggml_n_dims (t_ne ?t)) :: uint32)"
    by (auto simp: n_dims_cases GGML_MAX_DIMS_def)
  have elems: "too_many_elements (t_ne ?t) = Some False" using t(4) by (simp add: shape_ok_def)
  have shape: "rd_bind read_shape f (write_u32 (word_of_nat (ggml_n_dims (t_ne ?t))) @
      concat (map (\<lambda>j. write_i64 (t_ne ?t ! j)) [0..<ggml_n_dims (t_ne ?t)]) @ r') = f (t_ne ?t) r'"
    for f :: "int list \<Rightarrow> 'a reader" and r'
    using dims elems
    by (intro rd_bind_done) (simp add: read_shape_def u32.decode_bind bind_ne [OF t(4)])
  have type: "rd_bind (read_tensor_type (t_ne ?t)) f (write_i32 (t_type ?t) @ r') = f (t_type ?t) r'"
    for f :: "int \<Rightarrow> 'a reader" and r'
    using t(5-8) by (intro rd_bind_done) (simp add: read_tensor_type_def i32.decode_bind GGML_TYPE_COUNT_def)
  have fi: "file_info i = \<lparr>ti_t = \<lparr>t_type = t_type ?t, t_ne = t_ne ?t, t_nb = contiguous_nb (t_type ?t) (t_ne ?t),
      t_name = t_name ?t, t_data = None\<rparr>, ti_offset = ti_offset i\<rparr>"
    using t(9) by (cases i; cases "ti_t i") (simp add: file_info_def)
  have "\<not> GGML_MAX_NAME \<le> length (t_name ?t)" using t(2) by simp
  then show ?thesis
    using assms(2)
    by (simp add: read_tensor_info_def write_tensor_meta_def Let_def str.decode_try [OF t(3)] name shape type
        u64.decode_bind fi)
qed

lemma file_info_simps [simp]:
  "t_name (ti_t (file_info i)) = t_name (ti_t i)" "ti_offset (file_info i) = ti_offset i"
  "t_ne (ti_t (file_info i)) = t_ne (ti_t i)" "t_type (ti_t (file_info i)) = t_type (ti_t i)"
  "t_nb (ti_t (file_info i)) = t_nb (ti_t i)" "ggml_nbytes (ti_t (file_info i)) = ggml_nbytes (ti_t i)"
  by (simp_all add: file_info_def ggml_nbytes_def)

lemma read_infos_written:
  assumes "\<forall>i\<in>set new. info_ok P i" and "distinct (map (\<lambda>i. t_name (ti_t i)) (infos @ new))"
  shows "read_infos P (length new) infos (concat (map write_tensor_meta new) @ r) = Done (infos @ map file_info new, r)"
  using assms
proof (induction new arbitrary: infos)
  case (Cons i new)
  have "info_ok P i" "t_name (ti_t i) \<notin> set (map (\<lambda>i. t_name (ti_t i)) infos)" using Cons.prems by auto
  note rd = read_tensor_info_written [OF this]
  have "read_infos P (length new) (infos @ [file_info i]) (concat (map write_tensor_meta new) @ r) =
      Done ((infos @ [file_info i]) @ map file_info new, r)"
    using Cons.prems by (intro Cons.IH) auto
  then show ?case by (simp add: rd_bind_def rd)
qed simp

text \<open>A context that a file can hold.\<close>

definition gguf_meta_ok :: "platform \<Rightarrow> gguf_context \<Rightarrow> bool" where
  "gguf_meta_ok P ctx =
     (gc_version ctx \<in> {2, 3} \<and>
      (\<forall>kv\<in>set (gc_kv ctx). kv_ok P kv) \<and> distinct (map kv_key (gc_kv ctx)) \<and>
      int (length (gc_kv ctx)) < 2 ^ 63 \<and> int (length (gc_kv ctx)) \<le> 0xFFFFFFFFFFFFFFFF div int (pl_sizeof_kv P) \<and>
      kv_alignment (gc_kv ctx) = Some (gc_alignment ctx) \<and> is_pow2 (gc_alignment ctx) \<and>
      (\<forall>i\<in>set (gc_info ctx). info_ok P i) \<and> distinct (map (\<lambda>i. t_name (ti_t i)) (gc_info ctx)) \<and>
      int (length (gc_info ctx)) < 2 ^ 63 \<and>
      int (length (gc_info ctx)) \<le> 0xFFFFFFFFFFFFFFFF div int (pl_sizeof_tensor_info P))"

definition gguf_wf :: "platform \<Rightarrow> gguf_context \<Rightarrow> bool" where
  "gguf_wf P ctx = (gguf_meta_ok P ctx \<and> (\<exists>sz. data_size (gc_alignment ctx) (gc_info ctx) 0 = Done sz))"

lemma gguf_wfD:
  assumes "gguf_wf P ctx"
  shows "gguf_meta_ok P ctx" and "\<forall>kv\<in>set (gc_kv ctx). kv_ok P kv" and "is_pow2 (gc_alignment ctx)"
    and "gc_alignment ctx \<noteq> 0" and "\<exists>sz. data_size (gc_alignment ctx) (gc_info ctx) 0 = Done sz"
  using assms by (simp_all add: gguf_wf_def gguf_meta_ok_def is_pow2_def)

lemma data_size_file: "data_size a (map file_info infos) sz = data_size a infos sz"
  by (induction infos arbitrary: sz) (simp_all add: padded_size_def)

lemma check_version_ok: "v \<in> {2, 3} \<Longrightarrow> check_version v bs = Done ((), bs)"
  by (auto simp: check_version_def GGUF_VERSION_def)

lemma count_decode:
  assumes "int n < 2 ^ 63" and "int n \<le> 0xFFFFFFFFFFFFFFFF div int sizeof"
  shows "rd_bind (read_count e sizeof) f (write_i64 (int n) @ r) = f n r"
proof -
  have "read_count e sizeof (write_i64 (int n) @ r) = Done (n, r)"
    using assms by (simp add: read_count_def i64.decode_bind)
  then show ?thesis by (rule rd_bind_done)
qed

lemma read_metadata_written:
  assumes "gguf_meta_ok P ctx" and "those (map write_kv (gc_kv ctx)) = Some kvs"
  shows "read_metadata P (bytes_of GGUF_MAGIC @ write_u32 (gc_version ctx) @ write_i64 (gguf_get_n_tensors ctx) @
      write_i64 (gguf_get_n_kv ctx) @ concat kvs @ concat (map write_tensor_meta (gc_info ctx)) @ r) =
    Done ((gc_version ctx, gc_kv ctx, gc_alignment ctx, map file_info (gc_info ctx)), r)"
proof -
  have wf: "gc_version ctx \<in> {2, 3}" "\<forall>kv\<in>set (gc_kv ctx). kv_ok P kv" "distinct (map kv_key (gc_kv ctx))"
    "int (length (gc_kv ctx)) < 2 ^ 63" "int (length (gc_kv ctx)) \<le> 0xFFFFFFFFFFFFFFFF div int (pl_sizeof_kv P)"
    "kv_alignment (gc_kv ctx) = Some (gc_alignment ctx)" "is_pow2 (gc_alignment ctx)"
    "\<forall>i\<in>set (gc_info ctx). info_ok P i" "distinct (map (\<lambda>i. t_name (ti_t i)) (gc_info ctx))"
    "int (length (gc_info ctx)) < 2 ^ 63"
    "int (length (gc_info ctx)) \<le> 0xFFFFFFFFFFFFFFFF div int (pl_sizeof_tensor_info P)"
    using assms(1) unfolding gguf_meta_ok_def by blast+
  have magic: "rd_bind read_magic f (bytes_of GGUF_MAGIC @ r') = f () r'" for f :: "unit \<Rightarrow> 'a reader" and r'
    by (rule rd_bind_done) (simp add: read_magic_def bind_bytes GGUF_MAGIC_def)
  have kv: "rd_bind (read_kvs P (length (gc_kv ctx)) []) f (concat kvs @ r') = f (gc_kv ctx) r'"
    for f :: "gguf_kv list \<Rightarrow> 'b reader" and r'
    using read_kvs_written [OF wf(2) assms(2), of "[]"] wf(3) by (intro rd_bind_done) simp
  have info: "rd_bind (read_infos P (length (gc_info ctx)) []) f (concat (map write_tensor_meta (gc_info ctx)) @ r') =
      f (map file_info (gc_info ctx)) r'" for f :: "gguf_tensor_info list \<Rightarrow> 'c reader" and r'
    using read_infos_written [OF wf(8), of "[]"] wf(9) by (intro rd_bind_done) simp
  have align: "rd_bind (read_alignment (gc_kv ctx)) f bs = f (gc_alignment ctx) bs" for f :: "size_t \<Rightarrow> 'd reader" and bs
    using wf(6,7) by (intro rd_bind_done) (simp add: read_alignment_def rd_bind_def)
  have version: "rd_bind (check_version (gc_version ctx)) f bs = f () bs" for f :: "unit \<Rightarrow> 'e reader" and bs
    by (intro rd_bind_done check_version_ok wf(1))
  have head: "rd_bind (read_header P) f (bytes_of GGUF_MAGIC @ write_u32 (gc_version ctx) @ write_i64 (gguf_get_n_tensors ctx) @
      write_i64 (gguf_get_n_kv ctx) @ r') = f (gc_version ctx, length (gc_info ctx), length (gc_kv ctx)) r'"
    for f :: "uint32 \<times> nat \<times> nat \<Rightarrow> 'f reader" and r'
    unfolding read_header_def gguf_get_n_tensors_def gguf_get_n_kv_def
    by (intro rd_bind_done) (simp add: magic u32.decode_bind version count_decode [OF wf(10,11)] count_decode [OF wf(4,5)])
  show ?thesis
    unfolding read_metadata_def head prod.case kv align info by simp
qed

section \<open>What a successful reading establishes\<close>

lemma bind_Done: "rd_bind m f bs = Done y \<longleftrightarrow> (\<exists>x r. m bs = Done (x, r) \<and> f x r = Done y)"
  by (auto simp: rd_bind_def split: outcome.splits)

lemma try_Done: "rd_try m bs = Done y \<longleftrightarrow> m bs = Done y"
  by (simp add: rd_try_def split: outcome.splits)

lemma when_Done: "rd_when b m n bs = Done y \<longleftrightarrow> b \<and> m bs = Done y \<or> \<not> b \<and> n bs = Done y"
  by (simp add: rd_when_def)

lemma option_Done: "rd_option r bs = Done (x, bs') \<longleftrightarrow> r = Some x \<and> bs' = bs"
  by (cases r) auto

lemma bytes_Done: "read_bytes n bs = Done (b, r) \<longleftrightarrow> n \<le> length bs \<and> b = take n bs \<and> r = drop n bs"
  by (auto simp: read_bytes_def)

lemmas done_simps = bind_Done try_Done when_Done option_Done bytes_Done

lemma times_Done:
  "rd_times n m bs = Done (xs, r) \<Longrightarrow> length xs = n \<and> (\<forall>x\<in>set xs. \<exists>b r. m b = Done (x, r))"
proof (induction n arbitrary: bs xs r)
  case (Suc n)
  then obtain x ys r1 r2 where "m bs = Done (x, r1)" "rd_times n m r1 = Done (ys, r2)" "xs = x # ys"
    by (auto simp: bind_Done)
  with Suc.IH [of r1 ys r2] show ?case by auto
qed simp

lemma string_Done: "read_string P bs = Done (s, r) \<Longrightarrow> text_ok P s"
  using unsigned_less [where ?'a = nat and ?'b = 64]
  by (auto simp: read_string_def done_simps text_ok_def min_absorb2)

lemma scalar_Done:
  "read_scalar T bs = Done (b, r) \<Longrightarrow> length b = gguf_type_size T \<and> (T = GGUF_TYPE_BOOL \<longrightarrow> set b \<subseteq> {0, 1})"
  by (auto simp: read_scalar_def done_simps min_absorb2)

lemma concat_Done:
  "\<forall>x\<in>set xs. length x = k \<and> (B \<longrightarrow> set x \<subseteq> S) \<Longrightarrow> length (concat xs) = length xs * k \<and> (B \<longrightarrow> set (concat xs) \<subseteq> S)"
  by (induction xs) auto

lemma emplace_Done:
  assumes "read_emplace P T key is_array n bs = Done (kv, r)" and "T \<noteq> GGUF_TYPE_ARRAY" and "text_ok P key"
  shows "kv_ok P kv \<and> kv_key kv = key"
proof (cases "T = GGUF_TYPE_STRING")
  case True
  show ?thesis
  proof (cases is_array)
    case arr: True
    with assms(1) True obtain vs r1 where v: "pl_alloc P (vector_bytes P T (unat n))"
      "rd_times (unat n) (read_string P) bs = Done (vs, r1)" "new_kv key True T [] vs = Some kv"
      by (auto simp: read_emplace_def done_simps split: if_splits)
    have "\<forall>s\<in>set vs. text_ok P s" "length vs = unat n"
      using times_Done [OF v(2)] string_Done by blast+
    with v True assms(3) unsigned_less [of n, where ?'a = nat] show ?thesis
      by (auto simp: new_kv_def kv_ok_def get_ne_def split: if_splits)
  next
    case False
    with assms(1) True obtain s r1 where "read_string P bs = Done (s, r1)" "new_kv key False T [] [s] = Some kv"
      by (auto simp: read_emplace_def done_simps split: if_splits)
    with string_Done True assms(3) show ?thesis
      by (auto simp: new_kv_def kv_ok_def get_ne_def split: if_splits)
  qed
next
  case False
  have sz: "0 < gguf_type_size T" using False assms(2) by (cases T) auto
  show ?thesis
  proof (cases is_array)
    case True
    with assms(1) False obtain xs r1 where v: "pl_alloc P (vector_bytes P T (unat n))"
      "rd_times (unat n) (read_scalar T) bs = Done (xs, r1)" "new_kv key True T (concat xs) [] = Some kv"
      by (auto simp: read_emplace_def done_simps split: if_splits)
    define d where "d = concat xs"
    have "length d = unat n * gguf_type_size T \<and> (T = GGUF_TYPE_BOOL \<longrightarrow> set d \<subseteq> {0, 1})"
      unfolding d_def using concat_Done [of xs "gguf_type_size T" "T = GGUF_TYPE_BOOL" "{0, 1}"] times_Done [OF v(2)] scalar_Done by metis
    with v(1) v(3) [folded d_def] False sz assms(3) unsigned_less [of n, where ?'a = nat] show ?thesis
      by (auto simp: new_kv_def kv_ok_def get_ne_def split: if_splits)
  next
    case sg: False
    with assms(1) False obtain b r1 where v: "read_scalar T bs = Done (b, r1)" "new_kv key False T b [] = Some kv"
      by (auto simp: read_emplace_def done_simps split: if_splits)
    with scalar_Done [OF v(1)] False sz assms(3) show ?thesis
      by (auto simp: new_kv_def kv_ok_def get_ne_def split: if_splits)
  qed
qed

lemma value_Done:
  assumes "read_value P type key is_array n bs = Done (kv, r)" and "text_ok P key"
  shows "kv_ok P kv \<and> kv_key kv = key"
proof -
  obtain T where "gguf_type_of type = Some T" "T \<noteq> GGUF_TYPE_ARRAY" "read_emplace P T key is_array n bs = Done (kv, r)"
    using assms(1) by (auto simp: read_value_def split: option.splits gguf_type.splits)
  with emplace_Done assms(2) show ?thesis by blast
qed

lemma kv_Done:
  assumes "read_kv P kvs bs = Done (kv, r)"
  shows "kv_ok P kv" and "kv_key kv \<notin> set (map kv_key kvs)"
proof -
  obtain key r1 where key: "read_string P bs = Done (key, r1)" "key \<notin> set (map kv_key kvs)"
    and v: "\<exists>type n arr r2. read_value P type key arr n r2 = Done (kv, r)"
    using assms by (auto simp: read_kv_def done_simps) blast+
  with value_Done [OF _ string_Done [OF key(1)]] show "kv_ok P kv" "kv_key kv \<notin> set (map kv_key kvs)"
    by blast+
qed

lemma kvs_Done:
  assumes "read_kvs P n kvs bs = Done (kvs', r)"
  shows "\<exists>new. kvs' = kvs @ new \<and> length new = n \<and> (\<forall>kv\<in>set new. kv_ok P kv) \<and>
    (distinct (map kv_key kvs) \<longrightarrow> distinct (map kv_key kvs'))"
  using assms
proof (induction n arbitrary: kvs bs)
  case (Suc n)
  then obtain kv r1 where kv: "read_kv P kvs bs = Done (kv, r1)" "read_kvs P n (kvs @ [kv]) r1 = Done (kvs', r)"
    by (auto simp: bind_Done)
  from Suc.IH [OF kv(2)] kv_Done [OF kv(1)] obtain new where "kvs' = (kvs @ [kv]) @ new" "length new = n"
    "\<forall>kv\<in>set new. kv_ok P kv" "distinct (map kv_key (kvs @ [kv])) \<longrightarrow> distinct (map kv_key kvs')" "kv_ok P kv"
    "kv_key kv \<notin> set (map kv_key kvs)" by blast
  then show ?case by (intro exI [of _ "kv # new"]) auto
qed simp

text \<open>Allocations that succeed for a size succeed for every smaller one.\<close>

definition alloc_mono :: "platform \<Rightarrow> bool" where
  "alloc_mono P = (\<forall>n m. m \<le> n \<longrightarrow> pl_alloc P n \<longrightarrow> pl_alloc P m)"

lemma length_c_str: "length (c_str s) \<le> length s"
  by (simp add: c_str_def length_takeWhile_le)

lemma set_name_ok:
  assumes "text_ok P s" and "length s < GGML_MAX_NAME" and "alloc_mono P"
  shows "nul_free (ggml_set_name s) \<and> length (ggml_set_name s) < GGML_MAX_NAME \<and> text_ok P (ggml_set_name s)"
proof -
  have "length (c_str s) \<le> GGML_MAX_NAME - 1" using length_c_str [of s] assms(2) by simp
  then have "ggml_set_name s = c_str s" by (simp add: ggml_set_name_def)
  moreover have "text_ok P (c_str s)"
    using assms(1,3) length_c_str [of s] by (auto simp: text_ok_def alloc_mono_def)
  ultimately show ?thesis using length_c_str [of s] assms(2) by simp
qed

lemma i64_Done: "read_i64 bs = Done (x, r) \<Longrightarrow> x < 2 ^ 63"
  using sint_lt [where ?'a = 64] by (auto simp: read_i64_def done_simps)

lemma ne_Done:
  "read_ne n js bs = Done (ne, r) \<Longrightarrow> length ne = length js \<and> list_all (\<lambda>x. 0 \<le> x \<and> x < 2 ^ 63) ne"
proof (induction js arbitrary: bs ne)
  case (Cons j js)
  then obtain x xs r1 where x: "(if j < n then read_i64 else rd_return 1) bs = Done (x, r1)" "0 \<le> x"
    "read_ne n js r1 = Done (xs, r)" "ne = x # xs"
    by (auto simp: done_simps)
  have "x < 2 ^ 63" using x(1) i64_Done by (auto split: if_splits)
  with Cons.IH [OF x(3)] x show ?case by simp
qed simp

lemma shape_Done:
  assumes "read_shape bs = Done (ne, r)"
  shows "shape_ok ne"
proof -
  obtain n r1 r2 where "read_ne n [0..<GGML_MAX_DIMS] r1 = Done (ne, r2)" "too_many_elements ne = Some False"
    using assms by (auto simp: read_shape_def done_simps)
  with ne_Done show ?thesis by (auto simp: shape_ok_def)
qed

lemma tensor_info_Done:
  assumes "read_tensor_info P infos bs = Done (i, r)" and "alloc_mono P"
  shows "info_ok P i" and "t_name (ti_t i) \<notin> set (map (\<lambda>i. t_name (ti_t i)) infos)" and "file_info i = i"
proof -
  obtain name ne type offset r1 r2 r3 where
    "read_string P bs = Done (name, r1)" and len: "length name < GGML_MAX_NAME"
    and new: "ggml_set_name name \<notin> set (map (\<lambda>i. t_name (ti_t i)) infos)"
    and ne: "read_shape r1 = Done (ne, r2)" and type: "read_tensor_type ne r2 = Done (type, r3)"
    and i: "i = \<lparr>ti_t = \<lparr>t_type = type, t_ne = ne, t_nb = contiguous_nb type ne, t_name = ggml_set_name name,
      t_data = None\<rparr>, ti_offset = offset\<rparr>"
    using assms(1) by (auto simp: read_tensor_info_def done_simps)
  then have "nul_free (ggml_set_name name) \<and> length (ggml_set_name name) < GGML_MAX_NAME \<and> text_ok P (ggml_set_name name)"
    using set_name_ok [OF string_Done len assms(2)] by blast
  moreover have "0 \<le> type" "type < GGML_TYPE_COUNT" "ggml_blck_size type \<noteq> 0" "ne ! 0 mod int (ggml_blck_size type) = 0"
    using type by (auto simp: read_tensor_type_def done_simps)
  ultimately show "info_ok P i" "t_name (ti_t i) \<notin> set (map (\<lambda>i. t_name (ti_t i)) infos)" "file_info i = i"
    using shape_Done [OF ne] new by (simp_all add: i info_ok_def Let_def file_info_def)
qed

lemma infos_Done:
  assumes "read_infos P n infos bs = Done (infos', r)" and "alloc_mono P"
  shows "\<exists>new. infos' = infos @ new \<and> length new = n \<and> (\<forall>i\<in>set new. info_ok P i \<and> file_info i = i) \<and>
    (distinct (map (\<lambda>i. t_name (ti_t i)) infos) \<longrightarrow> distinct (map (\<lambda>i. t_name (ti_t i)) infos'))"
  using assms(1)
proof (induction n arbitrary: infos bs)
  case (Suc n)
  then obtain i r1 where i: "read_tensor_info P infos bs = Done (i, r1)" "read_infos P n (infos @ [i]) r1 = Done (infos', r)"
    by (auto simp: bind_Done)
  from Suc.IH [OF i(2)] tensor_info_Done [OF i(1) assms(2)] obtain new where "infos' = (infos @ [i]) @ new" "length new = n"
    "\<forall>i\<in>set new. info_ok P i \<and> file_info i = i" "info_ok P i" "file_info i = i"
    "distinct (map (\<lambda>i. t_name (ti_t i)) (infos @ [i])) \<longrightarrow> distinct (map (\<lambda>i. t_name (ti_t i)) infos')"
    "t_name (ti_t i) \<notin> set (map (\<lambda>i. t_name (ti_t i)) infos)" by blast
  then show ?case by (intro exI [of _ "i # new"]) auto
qed simp

lemma version_Done: "check_version v bs = Done y \<Longrightarrow> v \<in> {2, 3}"
proof -
  assume "check_version v bs = Done y"
  then have v: "v \<noteq> 0" "v \<noteq> 1" "v \<le> 3" by (auto simp: check_version_def done_simps GGUF_VERSION_def)
  have inj: "v = word_of_nat n" if "unat v = n" for n
    using arg_cong [OF that, of "word_of_nat :: nat \<Rightarrow> uint32"] by simp
  have "unat v \<le> 3" using v(3) by (simp add: word_le_nat_alt)
  then have "unat v = 0 \<or> unat v = 1 \<or> unat v = 2 \<or> unat v = 3" by linarith
  with inj v(1,2) show "v \<in> {2, 3}" by fastforce
qed

lemma count_Done:
  "read_count e sizeof bs = Done (n, r) \<Longrightarrow> int n < 2 ^ 63 \<and> int n \<le> 0xFFFFFFFFFFFFFFFF div int sizeof"
  using i64_Done by (fastforce simp: read_count_def done_simps)

lemma header_Done:
  assumes "read_header P bs = Done ((version, n_tensors, n_kv), r)"
  shows "version \<in> {2, 3}" and "int n_kv < 2 ^ 63" and "int n_kv \<le> 0xFFFFFFFFFFFFFFFF div int (pl_sizeof_kv P)"
    and "int n_tensors < 2 ^ 63" and "int n_tensors \<le> 0xFFFFFFFFFFFFFFFF div int (pl_sizeof_tensor_info P)"
  using assms version_Done count_Done by (auto simp: read_header_def done_simps)

lemma metadata_Done:
  assumes "read_metadata P bs = Done ((version, kvs, alignment, infos), r)" and "alloc_mono P"
    and "data_size alignment infos 0 = Done sz"
  shows "gguf_wf P \<lparr>gc_version = version, gc_kv = kvs, gc_info = infos, gc_alignment = alignment, gc_offset = off, gc_size = sz\<rparr>"
    and "map file_info infos = infos"
proof -
  obtain nt nk r1 r2 r3 where h: "read_header P bs = Done ((version, nt, nk), r1)"
    and k: "read_kvs P nk [] r1 = Done (kvs, r2)" and a: "read_alignment kvs r2 = Done (alignment, r3)"
    and i: "read_infos P nt [] r3 = Done (infos, r)"
    using assms(1) by (auto simp: read_metadata_def done_simps)
  have al: "kv_alignment kvs = Some alignment" "is_pow2 alignment"
    using a by (auto simp: read_alignment_def done_simps)
  note kv = kvs_Done [OF k] and info = infos_Done [OF i assms(2)]
  then have "length kvs = nk" "length infos = nt" "\<forall>i\<in>set infos. file_info i = i" by auto
  with header_Done [OF h] kv info al assms(3)
  show "gguf_wf P \<lparr>gc_version = version, gc_kv = kvs, gc_info = infos, gc_alignment = alignment, gc_offset = off, gc_size = sz\<rparr>"
    by (auto simp: gguf_wf_def gguf_meta_ok_def)
  show "map file_info infos = infos"
    using \<open>\<forall>i\<in>set infos. file_info i = i\<close> by (simp add: map_idI)
qed

section \<open>Files\<close>

lemma init_Done:
  assumes "read_metadata P file = Done ((version, kvs, alignment, infos), r)" and "data_size alignment infos 0 = Done sz"
  shows "gguf_init_from_file P file = Done \<lparr>gc_version = version, gc_kv = kvs, gc_info = infos, gc_alignment = alignment,
    gc_offset = GGML_PAD (word_of_nat (length file - length r)) alignment, gc_size = sz\<rparr>"
  using assms by (simp add: gguf_init_from_file_def read_gguf_def rd_bind_def rd_left_def rd_outcome_def)

lemma init_DoneE:
  assumes "gguf_init_from_file P file = Done ctx"
  obtains version kvs alignment infos r sz where
    "read_metadata P file = Done ((version, kvs, alignment, infos), r)" "data_size alignment infos 0 = Done sz"
    "ctx = \<lparr>gc_version = version, gc_kv = kvs, gc_info = infos, gc_alignment = alignment,
      gc_offset = GGML_PAD (word_of_nat (length file - length r)) alignment, gc_size = sz\<rparr>"
proof -
  have outcome: "rd_outcome r bs = Done (x, bs') \<longleftrightarrow> r = Done x \<and> bs' = bs" for r :: "'a outcome" and x bs bs'
    by (cases r) (auto simp: rd_outcome_def)
  obtain rest where "read_gguf P (length file) file = Done (ctx, rest)"
    using assms by (auto simp: gguf_init_from_file_def split: outcome.splits)
  then show thesis
    using that by (auto simp: read_gguf_def bind_Done rd_left_def outcome)
qed

text \<open>The metadata as written: the part before the padding.\<close>

lemma write_meta_file:
  assumes "gguf_wf P ctx" and "length buf + unat (gc_alignment ctx) \<le> 2 ^ 64"
    and "those (map write_kv (gc_kv ctx)) = Some kvs"
    and "buf = bytes_of GGUF_MAGIC @ write_u32 (gc_version ctx) @ write_i64 (gguf_get_n_tensors ctx) @
          write_i64 (gguf_get_n_kv ctx) @ concat kvs @ concat (map write_tensor_meta (gc_info ctx))"
  shows "\<exists>z. pad (unat (gc_alignment ctx)) buf = buf @ replicate z 0 \<and>
    gguf_init_from_file P (buf @ replicate z 0 @ r) = Done (ctx\<lparr>gc_info := map file_info (gc_info ctx),
      gc_offset := word_of_nat (length (buf @ replicate z (0 :: byte))),
      gc_size := (case data_size (gc_alignment ctx) (gc_info ctx) 0 of Done sz \<Rightarrow> sz)\<rparr>)"
proof -
  have a: "is_pow2 (gc_alignment ctx)" and sz: "\<exists>sz. data_size (gc_alignment ctx) (gc_info ctx) 0 = Done sz"
    using gguf_wfD [OF assms(1)] by simp_all
  then have "0 < unat (gc_alignment ctx)" by (simp add: is_pow2_def unat_gt_0)
  then obtain z where z: "pad (unat (gc_alignment ctx)) buf = buf @ replicate z 0"
    using pad_zeros [of "unat (gc_alignment ctx)" buf] by blast
  obtain s where s: "data_size (gc_alignment ctx) (gc_info ctx) 0 = Done s" using sz by blast
  have m: "read_metadata P (buf @ replicate z 0 @ r) =
      Done ((gc_version ctx, gc_kv ctx, gc_alignment ctx, map file_info (gc_info ctx)), replicate z 0 @ r)"
    using read_metadata_written [OF gguf_wfD(1) [OF assms(1)] assms(3), of "replicate z 0 @ r"] by (simp add: assms(4))
  have "GGML_PAD (word_of_nat (length buf)) (gc_alignment ctx) = (word_of_nat (length (buf @ replicate z (0 :: byte))) :: size_t)"
    using pad_word [OF a assms(2)] z by simp
  then have "gguf_init_from_file P (buf @ replicate z 0 @ r) = Done (ctx\<lparr>gc_info := map file_info (gc_info ctx),
      gc_offset := word_of_nat (length (buf @ replicate z (0 :: byte))), gc_size := s\<rparr>)"
    using init_Done [OF m] s by (cases ctx) (simp add: data_size_file)
  with z s show ?thesis by auto
qed

lemma write_kvs_ok: "\<forall>kv\<in>set kvs. kv_ok P kv \<Longrightarrow> \<exists>bs. those (map write_kv kvs) = Some bs"
proof (induction kvs)
  case (Cons kv kvs)
  then obtain ne where "get_ne kv = Some ne" by (auto simp: kv_ok_def)
  with Cons write_kv_ok [of P kv ne] show ?case by auto
qed simp

text \<open>The data section: every tensor starts at its offset, whatever is written behind it.\<close>

lemma tensor_data_at:
  assumes "fold (\<lambda>info r. Option.bind r (write_tensor_data info od a)) infos (Some buf) = Some file" and "od \<le> length buf"
  shows "prefix buf file \<and> (\<forall>i\<in>set infos. \<exists>data pos. t_data (ti_t i) = Some data \<and> od \<le> pos \<and>
    word_of_nat (pos - od) = ti_offset i \<and> unat (ggml_nbytes (ti_t i)) \<le> length data \<and> pos + unat (ggml_nbytes (ti_t i)) \<le> length file \<and>
    take (unat (ggml_nbytes (ti_t i))) (drop pos file) = take (unat (ggml_nbytes (ti_t i))) data)"
  using assms
proof (induction infos arbitrary: buf)
  case (Cons i infos)
  let ?n = "unat (ggml_nbytes (ti_t i))"
  have none: "fold (\<lambda>info r. Option.bind r (write_tensor_data info od a)) xs None = None" for xs
    by (induction xs) simp_all
  obtain buf' where b: "write_tensor_data i od a buf = Some buf'"
    "fold (\<lambda>info r. Option.bind r (write_tensor_data info od a)) infos (Some buf') = Some file"
    using Cons.prems(1) none by (cases "write_tensor_data i od a buf") simp_all
  then obtain data where d: "t_data (ti_t i) = Some data" "?n \<le> length data" "0 < a"
    "word_of_nat (length buf - od) = ti_offset i" "buf' = pad a (buf @ take ?n data)"
    by (auto simp: write_tensor_data_def Let_def split: if_splits option.splits)
  obtain z where z: "buf' = buf @ take ?n data @ replicate z 0"
    using pad_zeros [OF d(3), of "buf @ take ?n data"] d(5) by auto
  have "od \<le> length buf'" using z Cons.prems(2) by simp
  note ih = Cons.IH [OF b(2) this]
  then obtain t where t: "file = buf @ take ?n data @ replicate z 0 @ t" using z by (auto simp: prefix_def)
  have "take ?n (drop (length buf) file) = take ?n data \<and> length buf + ?n \<le> length file"
    using d(2) unfolding t by simp
  moreover have "prefix buf file" unfolding t by simp
  ultimately show ?case
    using ih d Cons.prems(2) by (auto intro!: exI [of _ "length buf"])
qed simp

end
