(* ===== verification/Gguf_Build.thy ===== *)
theory Gguf_Build
  imports Gguf_Props
begin

text \<open>
  GGUF contexts as the operations build them: what a lookup returns after a key was set or
  removed, the invariant of every context that was built by the interface, and the properties of
  the files.
\<close>

section \<open>Looking up what was set\<close>

definition kv_lookup :: "gguf_context \<Rightarrow> string \<Rightarrow> gguf_kv option" where
  "kv_lookup ctx key = find (\<lambda>kv. c_str (kv_key kv) = c_str key) (gc_kv ctx)"

lemma find_from_find:
  "(case find (\<lambda>x. p (f x)) xs of None \<Rightarrow> find_from p (map f xs) i = -1
    | Some x \<Rightarrow> i \<le> find_from p (map f xs) i \<and> find_from p (map f xs) i < i + int (length xs) \<and>
        xs ! nat (find_from p (map f xs) i - i) = x)"
proof (induction xs arbitrary: i)
  case (Cons x xs)
  show ?case
  proof (cases "p (f x)")
    case False
    let ?j = "find_from p (map f xs) (i + 1)"
    have "nat (?j - i) = Suc (nat (?j - (i + 1)))" if "i + 1 \<le> ?j" using that by linarith
    with Cons [of "i + 1"] False show ?thesis by (auto split: option.splits)
  qed simp
qed simp

lemma find_key_lookup:
  shows "gguf_find_key ctx key = -1 \<longleftrightarrow> kv_lookup ctx key = None"
    and "kv_at ctx (gguf_find_key ctx key) = kv_lookup ctx key"
    and "gguf_find_key ctx key < int (length (gc_kv ctx))"
proof -
  have "case kv_lookup ctx key of None \<Rightarrow> gguf_find_key ctx key = -1
    | Some x \<Rightarrow> 0 \<le> gguf_find_key ctx key \<and> gguf_find_key ctx key < int (length (gc_kv ctx)) \<and>
        gc_kv ctx ! nat (gguf_find_key ctx key) = x"
    using find_from_find [of "\<lambda>k. c_str k = c_str key" kv_key "gc_kv ctx" 0]
    unfolding kv_lookup_def gguf_find_key_def by (simp only: add_0 diff_zero)
  then show "gguf_find_key ctx key = -1 \<longleftrightarrow> kv_lookup ctx key = None"
    "kv_at ctx (gguf_find_key ctx key) = kv_lookup ctx key" "gguf_find_key ctx key < int (length (gc_kv ctx))"
    by (auto simp: kv_at_def gguf_get_n_kv_def split: option.splits)
qed

lemma find_append: "find p (xs @ ys) = (case find p xs of None \<Rightarrow> find p ys | Some x \<Rightarrow> Some x)"
  by (induction xs) auto

lemma find_remove:
  assumes "distinct (map k xs)" and "i < length xs" and "k (xs ! i) = a"
  shows "find (\<lambda>x. k x = b) (take i xs @ drop (Suc i) xs) = (if b = a then None else find (\<lambda>x. k x = b) xs)"
proof -
  have xs: "xs = take i xs @ xs ! i # drop (Suc i) xs" using assms(2) by (rule id_take_nth_drop)
  have "distinct (map k (take i xs @ xs ! i # drop (Suc i) xs))" using assms(1) xs by simp
  then have d: "a \<notin> k ` set (take i xs)" "a \<notin> k ` set (drop (Suc i) xs)" using assms(3) by auto
  then have "find (\<lambda>x. k x = a) (take i xs @ drop (Suc i) xs) = None"
    by (auto simp: find_None_iff)
  moreover have "find (\<lambda>x. k x = b) xs = find (\<lambda>x. k x = b) (take i xs @ drop (Suc i) xs)" if "b \<noteq> a"
  proof -
    have "find (\<lambda>x. k x = b) (take i xs @ xs ! i # drop (Suc i) xs) = find (\<lambda>x. k x = b) (take i xs @ drop (Suc i) xs)"
      using assms(3) that by (simp add: find_append split: option.split)
    then show ?thesis using xs by simp
  qed
  ultimately show ?thesis by simp
qed

text \<open>
  Keys of a context differ as C strings: the operations keep it so, and then a removal removes the
  key and nothing else.
\<close>

definition keys_distinct :: "gguf_context \<Rightarrow> bool" where
  "keys_distinct ctx = distinct (map (\<lambda>kv. c_str (kv_key kv)) (gc_kv ctx))"

lemma c_str_idem [simp]: "c_str (c_str s) = c_str s"
  by simp

lemma remove_key_lookup:
  assumes "keys_distinct ctx"
  shows "kv_lookup (snd (gguf_remove_key ctx key)) k = (if c_str k = c_str key then None else kv_lookup ctx k)"
proof (cases "kv_lookup ctx key")
  case None
  then have "gguf_find_key ctx key = -1" using find_key_lookup(1) by simp
  then have "snd (gguf_remove_key ctx key) = ctx" by (simp add: gguf_remove_key_def Let_def)
  moreover have "kv_lookup ctx k = None" if "c_str k = c_str key"
    using None that by (simp add: kv_lookup_def)
  ultimately show ?thesis by simp
next
  case (Some kv)
  let ?i = "gguf_find_key ctx key"
  have i: "0 \<le> ?i" "nat ?i < length (gc_kv ctx)" "c_str (kv_key (gc_kv ctx ! nat ?i)) = c_str key"
    using Some find_key_lookup(2) [of ctx key] find_Some_iff [of "\<lambda>kv. c_str (kv_key kv) = c_str key" "gc_kv ctx" kv]
    by (auto simp: kv_at_def gguf_get_n_kv_def kv_lookup_def split: if_splits)
  have "snd (gguf_remove_key ctx key) = ctx\<lparr>gc_kv := take (nat ?i) (gc_kv ctx) @ drop (Suc (nat ?i)) (gc_kv ctx)\<rparr>"
    using i(1) by (simp add: gguf_remove_key_def Let_def)
  with find_remove [of "\<lambda>kv. c_str (kv_key kv)" "gc_kv ctx" "nat ?i" "c_str key" "c_str k"] i(2,3) assms
  show ?thesis by (simp add: kv_lookup_def keys_distinct_def)
qed

lemma emplace_lookup:
  assumes "keys_distinct ctx" and "emplace_back (snd (gguf_remove_key ctx key)) (Some kv) = Some ctx'"
    and "kv_key kv = c_str key"
  shows "kv_lookup ctx' k = (if c_str k = c_str key then Some kv else kv_lookup ctx k)"
proof -
  have "gc_kv ctx' = gc_kv (snd (gguf_remove_key ctx key)) @ [kv]"
    using assms(2) by (auto simp: emplace_back_def)
  then have "kv_lookup ctx' k = (case kv_lookup (snd (gguf_remove_key ctx key)) k of
      None \<Rightarrow> if c_str k = c_str key then Some kv else None | Some x \<Rightarrow> Some x)"
    using assms(3) by (auto simp: kv_lookup_def find_append split: option.split)
  then show ?thesis
    using remove_key_lookup [OF assms(1), of key k] by (auto split: option.split)
qed

lemma remove_key_distinct:
  assumes "keys_distinct ctx"
  shows "keys_distinct (snd (gguf_remove_key ctx key))"
proof -
  have "distinct (map f (take i xs @ drop (i + 1) xs))" if "distinct (map f xs)" for f :: "gguf_kv \<Rightarrow> string" and xs i
  proof -
    have "distinct (map f (take i xs @ drop i xs))" using that by simp
    moreover have "drop (i + 1) xs = drop 1 (drop i xs)" by simp
    ultimately show ?thesis
      using distinct_drop [of "map f (drop i xs)" 1]
      by (auto simp: drop_map simp del: drop_drop append_take_drop_id dest: in_set_dropD)
  qed
  then show ?thesis using assms by (simp add: gguf_remove_key_def Let_def keys_distinct_def)
qed

lemma emplace_distinct:
  assumes "keys_distinct ctx" and "emplace_back (snd (gguf_remove_key ctx key)) (Some kv) = Some ctx'"
    and "kv_key kv = c_str key"
  shows "keys_distinct ctx'"
proof -
  have "c_str key \<notin> (\<lambda>kv. c_str (kv_key kv)) ` set (gc_kv (snd (gguf_remove_key ctx key)))"
    using remove_key_lookup [OF assms(1), of key key] by (auto simp: kv_lookup_def find_None_iff)
  then show ?thesis
    using remove_key_distinct [OF assms(1), of key] assms(2,3) by (auto simp: emplace_back_def keys_distinct_def)
qed

section \<open>Contexts built by the operations\<close>

text \<open>
  One call of the interface on a context; the values fit the platform, the padded sizes of all tensors
  together fit a \<open>size_t\<close>, and the alignment key is left alone.
\<close>

definition tensors_size :: "size_t \<Rightarrow> gguf_tensor_info list \<Rightarrow> nat" where
  "tensors_size alignment infos = sum_list (map (\<lambda>info. unat (padded_size alignment info)) infos)"

inductive gguf_step :: "platform \<Rightarrow> gguf_context \<Rightarrow> gguf_context \<Rightarrow> bool" for P where
  step_val: "gguf_set_val T ctx key val = Some ctx' \<Longrightarrow> scalar_ok T val \<Longrightarrow> text_ok P (c_str key) \<Longrightarrow>
    c_str key \<noteq> GGUF_KEY_GENERAL_ALIGNMENT \<Longrightarrow> gguf_step P ctx ctx'"
| step_str: "gguf_set_val_str ctx key val = Some ctx' \<Longrightarrow> text_ok P (c_str key) \<Longrightarrow> text_ok P (c_str val) \<Longrightarrow>
    gguf_step P ctx ctx'"
| step_arr: "gguf_set_arr_data ctx key T data n = Some ctx' \<Longrightarrow> text_ok P (c_str key) \<Longrightarrow>
    length data = n * gguf_type_size T \<Longrightarrow> n < 2 ^ 64 \<Longrightarrow> pl_alloc P (vector_bytes P T n) \<Longrightarrow>
    (T = GGUF_TYPE_BOOL \<longrightarrow> set data \<subseteq> {0, 1}) \<Longrightarrow> gguf_step P ctx ctx'"
| step_arr_str: "gguf_set_arr_str ctx key data = Some ctx' \<Longrightarrow> text_ok P (c_str key) \<Longrightarrow>
    \<forall>s\<in>set data. text_ok P (c_str s) \<Longrightarrow> length data < 2 ^ 64 \<Longrightarrow>
    pl_alloc P (vector_bytes P GGUF_TYPE_STRING (length data)) \<Longrightarrow> gguf_step P ctx ctx'"
| step_remove: "c_str key \<noteq> GGUF_KEY_GENERAL_ALIGNMENT \<Longrightarrow> gguf_step P ctx (snd (gguf_remove_key ctx key))"
| step_tensor: "gguf_add_tensor ctx t = Some ctx' \<Longrightarrow> info_ok P \<lparr>ti_t = t, ti_offset = 0\<rparr> \<Longrightarrow>
    tensors_size (gc_alignment ctx') (gc_info ctx') < 2 ^ 64 \<Longrightarrow> gguf_step P ctx ctx'"

inductive_cases gguf_stepE: "gguf_step P ctx ctx'"

text \<open>The invariant: well-formed but for the number of entries.\<close>

definition gguf_inv :: "platform \<Rightarrow> gguf_context \<Rightarrow> bool" where
  "gguf_inv P ctx =
     (gc_version ctx \<in> {2, 3} \<and> (\<forall>kv\<in>set (gc_kv ctx). kv_ok P kv) \<and> keys_distinct ctx \<and>
      kv_alignment (gc_kv ctx) = Some (gc_alignment ctx) \<and> is_pow2 (gc_alignment ctx) \<and>
      (\<forall>i\<in>set (gc_info ctx). info_ok P i) \<and> distinct (map (\<lambda>i. t_name (ti_t i)) (gc_info ctx)) \<and>
      (\<exists>sz. data_size (gc_alignment ctx) (gc_info ctx) 0 = Done sz))"

lemma distinct_map_comp: "distinct (map (\<lambda>x. f (g x)) xs) \<Longrightarrow> distinct (map g xs)"
  by (induction xs) auto

lemma gguf_inv_wf:
  assumes "gguf_inv P ctx" and "int (length (gc_kv ctx)) < 2 ^ 63"
    and "int (length (gc_kv ctx)) \<le> 0xFFFFFFFFFFFFFFFF div int (pl_sizeof_kv P)"
    and "int (length (gc_info ctx)) < 2 ^ 63"
    and "int (length (gc_info ctx)) \<le> 0xFFFFFFFFFFFFFFFF div int (pl_sizeof_tensor_info P)"
  shows "gguf_wf P ctx"
  using assms distinct_map_comp [of c_str kv_key "gc_kv ctx"]
  by (simp add: gguf_wf_def gguf_meta_ok_def gguf_inv_def keys_distinct_def)

lemma gguf_inv_empty: "gguf_inv P gguf_init_empty"
  by (simp add: gguf_inv_def gguf_init_empty_def keys_distinct_def kv_alignment_def gguf_find_key_def
      GGUF_DEFAULT_ALIGNMENT_def GGUF_VERSION_def is_pow2_def Let_def)

lemma kv_alignment_lookup:
  "kv_alignment (gc_kv ctx) =
    (case kv_lookup ctx GGUF_KEY_GENERAL_ALIGNMENT of None \<Rightarrow> Some GGUF_DEFAULT_ALIGNMENT
     | Some kv \<Rightarrow> if get_ne kv = Some 1 then map_option (\<lambda>b. ucast (word_of_nat (le_nat b) :: uint32)) (get_val GGUF_TYPE_UINT32 0 kv) else None)"
proof -
  let ?c = "gguf_init_empty\<lparr>gc_kv := gc_kv ctx\<rparr>"
  have l: "kv_lookup ?c k = kv_lookup ctx k" for k by (simp add: kv_lookup_def)
  show ?thesis
    using find_key_lookup(1,2) [of ?c GGUF_KEY_GENERAL_ALIGNMENT]
    by (simp add: kv_alignment_def Let_def l gguf_get_val_u32_def gguf_get_val_def option.map_comp comp_def split: option.split)
qed

lemma remove_key_frame:
  "gc_version (snd (gguf_remove_key ctx key)) = gc_version ctx" "gc_info (snd (gguf_remove_key ctx key)) = gc_info ctx"
  "gc_alignment (snd (gguf_remove_key ctx key)) = gc_alignment ctx"
  "set (gc_kv (snd (gguf_remove_key ctx key))) \<subseteq> set (gc_kv ctx)"
  by (auto simp: gguf_remove_key_def Let_def dest: in_set_takeD in_set_dropD)

lemma inv_emplace:
  assumes "gguf_inv P ctx" and "emplace_back (snd (gguf_remove_key ctx key)) (Some kv) = Some ctx'"
    and "kv_ok P kv" and "kv_key kv = c_str key" and "c_str key \<noteq> GGUF_KEY_GENERAL_ALIGNMENT"
  shows "gguf_inv P ctx'"
proof -
  have inv: "gc_version ctx \<in> {2, 3}" "\<forall>kv\<in>set (gc_kv ctx). kv_ok P kv" "keys_distinct ctx"
    "kv_alignment (gc_kv ctx) = Some (gc_alignment ctx)" "is_pow2 (gc_alignment ctx)"
    "\<forall>i\<in>set (gc_info ctx). info_ok P i" "distinct (map (\<lambda>i. t_name (ti_t i)) (gc_info ctx))"
    "\<exists>sz. data_size (gc_alignment ctx) (gc_info ctx) 0 = Done sz"
    using assms(1) by (simp_all add: gguf_inv_def)
  have ctx': "ctx' = (snd (gguf_remove_key ctx key))\<lparr>gc_kv := gc_kv (snd (gguf_remove_key ctx key)) @ [kv]\<rparr>"
    using assms(2) by (simp add: emplace_back_def)
  have "c_str GGUF_KEY_GENERAL_ALIGNMENT = GGUF_KEY_GENERAL_ALIGNMENT"
    by (simp add: GGUF_KEY_GENERAL_ALIGNMENT_def)
  then have "kv_lookup ctx' GGUF_KEY_GENERAL_ALIGNMENT = kv_lookup ctx GGUF_KEY_GENERAL_ALIGNMENT"
    using emplace_lookup [OF inv(3) assms(2,4), of GGUF_KEY_GENERAL_ALIGNMENT] assms(5) by simp
  then have "kv_alignment (gc_kv ctx') = Some (gc_alignment ctx)"
    using inv(4) kv_alignment_lookup [of ctx] kv_alignment_lookup [of ctx'] by simp
  with emplace_distinct [OF inv(3) assms(2,4)] inv remove_key_frame [of ctx key] assms(3) show ?thesis
    by (auto simp: gguf_inv_def ctx')
qed

lemma data_size_last:
  assumes "data_size a infos s = Done sz"
  shows "sz = (if infos = [] then s else ti_offset (last infos) + padded_size a (last infos))"
  using assms by (induction infos arbitrary: s) (auto split: if_splits)

lemma data_size_append:
  "data_size a (xs @ ys) s = (case data_size a xs s of Done sz \<Rightarrow> data_size a ys sz | Fail e \<Rightarrow> Fail e | Throw \<Rightarrow> Throw | Crash \<Rightarrow> Crash)"
  by (induction xs arbitrary: s) auto

lemma max_word: "unat (- 1 :: size_t) = 2 ^ 64 - 1"
  by (simp add: unsigned_minus_1_eq_mask mask_eq_exp_minus_1)

lemma left_iff: "- 1 - s < p \<longleftrightarrow> \<not> unat s + unat (p :: size_t) < 2 ^ 64"
proof -
  have "unat (- 1 - s) = 2 ^ 64 - 1 - unat s" using unat_sub [of s "- 1"] by (simp add: max_word)
  moreover have "unat s < 2 ^ LENGTH(64)" by (rule unsigned_less)
  then have "unat s < 2 ^ 64" by simp
  ultimately show ?thesis unfolding word_less_nat_alt by linarith
qed

lemma size_left: "\<not> - 1 - s < p \<Longrightarrow> unat (s + p) = unat s + unat (p :: size_t)"
  by (simp add: left_iff unat_word_ariths)

lemma data_size_total: "data_size a infos s = Done sz \<Longrightarrow> unat sz = unat s + tensors_size a infos"
  by (induction infos arbitrary: s) (auto simp: tensors_size_def size_left split: if_splits)

lemma data_size_offsets:
  "data_size a infos s = Done sz \<Longrightarrow> i < length infos \<Longrightarrow> unat (ti_offset (infos ! i)) = unat s + tensors_size a (take i infos)"
  by (induction infos arbitrary: s i) (auto simp: tensors_size_def size_left nth_Cons' take_Cons' split: if_splits)

text \<open>A tensor is added where the data of the others end.\<close>

lemma data_size_add:
  assumes "data_size a infos 0 = Done sz" and "tensors_size a (infos @ [info]) < 2 ^ 64"
    and "ti_offset info = (if infos = [] then 0 else ti_offset (last infos) + padded_size a (last infos))"
  shows "data_size a (infos @ [info]) 0 = Done (sz + padded_size a info)"
proof -
  have "ti_offset info = sz" using data_size_last [OF assms(1)] assms(3) by simp
  moreover have "unat sz + unat (padded_size a info) < 2 ^ 64"
    using assms(2) data_size_total [OF assms(1)] by (simp add: tensors_size_def)
  then have "\<not> - 1 - sz < padded_size a info" by (simp add: left_iff)
  ultimately show ?thesis using assms(1) by (simp add: data_size_append)
qed

lemma find_from_none: "find_from p xs i = -1 \<Longrightarrow> 0 \<le> i \<Longrightarrow> x \<in> set xs \<Longrightarrow> \<not> p x"
proof (induction xs arbitrary: i)
  case (Cons y xs)
  have "0 \<le> i + 1" using Cons.prems(2) by simp
  with Cons.prems Cons.IH [of "i + 1"] show ?case by (simp split: if_splits) blast
qed simp

lemma remove_key_c_str [simp]: "gguf_remove_key ctx (c_str key) = gguf_remove_key ctx key"
  by (simp add: gguf_remove_key_def gguf_find_key_def)

lemma emplace_SomeE:
  assumes "emplace_back ctx r = Some ctx'"
  obtains kv where "r = Some kv" "emplace_back ctx (Some kv) = Some ctx'"
  using assms by (cases r) (simp_all add: emplace_back_def)

lemma new_kv_Some: "new_kv key a T d s = Some kv \<longleftrightarrow>
    key \<noteq> [] \<and> kv = \<lparr>kv_key = key, kv_is_array = a, kv_type = T, kv_data = d, kv_data_string = s\<rparr>"
  by (auto simp: new_kv_def)

lemma gguf_step_inv:
  assumes "gguf_step P ctx ctx'" and "gguf_inv P ctx"
  shows "gguf_inv P ctx'"
  using assms(1)
proof cases
  case (step_val T key val)
  from step_val(1) obtain kv where kv: "new_kv (c_str key) False T val [] = Some kv"
    "emplace_back (snd (gguf_remove_key ctx key)) (Some kv) = Some ctx'"
    by (auto simp: gguf_set_val_def Let_def split: if_splits elim: emplace_SomeE)
  have "0 < gguf_type_size T" using step_val(2) by (cases T) (auto simp: scalar_ok_def)
  then have "kv_ok P kv"
    using kv(1) step_val(2,3) by (auto simp: kv_ok_def new_kv_Some get_ne_def scalar_ok_def)
  with inv_emplace [OF assms(2) kv(2)] kv(1) step_val(4) show ?thesis by (auto simp: new_kv_Some)
next
  case (step_str key val)
  from step_str(1) obtain kv where kv: "new_kv (c_str key) False GGUF_TYPE_STRING [] [c_str val] = Some kv"
    "emplace_back (snd (gguf_remove_key ctx key)) (Some kv) = Some ctx'" "c_str key \<noteq> GGUF_KEY_GENERAL_ALIGNMENT"
    by (auto simp: gguf_set_val_str_def Let_def check_reserved_keys_def split: if_splits elim: emplace_SomeE)
  then have "kv_ok P kv"
    using step_str(2,3) by (auto simp: kv_ok_def new_kv_Some get_ne_def)
  with inv_emplace [OF assms(2) kv(2)] kv(1,3) show ?thesis by (auto simp: new_kv_Some)
next
  case (step_arr key T data n)
  from step_arr(1) obtain kv where kv: "Option.bind (new_kv (c_str key) True GGUF_TYPE_INT8 (take (n * gguf_type_size T) data) []) (kv_cast T) = Some kv"
    "emplace_back (snd (gguf_remove_key ctx key)) (Some kv) = Some ctx'" "c_str key \<noteq> GGUF_KEY_GENERAL_ALIGNMENT"
    by (auto simp: gguf_set_arr_data_def Let_def check_reserved_keys_def split: if_splits elim: emplace_SomeE)
  then have "kv = \<lparr>kv_key = c_str key, kv_is_array = True, kv_type = T, kv_data = data, kv_data_string = []\<rparr>"
    "c_str key \<noteq> []" "0 < gguf_type_size T" "T \<noteq> GGUF_TYPE_STRING"
    using step_arr(3) by (auto simp: bind_eq_Some_conv new_kv_Some kv_cast_def split: if_splits)
  moreover from this have "kv_ok P kv"
    using step_arr(2-6) by (auto simp: kv_ok_def get_ne_def)
  ultimately show ?thesis using inv_emplace [OF assms(2) kv(2)] kv(3) by simp
next
  case (step_arr_str key data)
  from step_arr_str(1) obtain kv where kv: "new_kv (c_str key) True GGUF_TYPE_STRING [] (map c_str data) = Some kv"
    "emplace_back (snd (gguf_remove_key ctx key)) (Some kv) = Some ctx'" "c_str key \<noteq> GGUF_KEY_GENERAL_ALIGNMENT"
    by (auto simp: gguf_set_arr_str_def Let_def check_reserved_keys_def split: if_splits elim: emplace_SomeE)
  then have "kv_ok P kv"
    using step_arr_str(2-5) by (auto simp: kv_ok_def new_kv_Some get_ne_def)
  with inv_emplace [OF assms(2) kv(2)] kv(1,3) show ?thesis by (auto simp: new_kv_Some)
next
  case (step_remove key)
  have d: "keys_distinct ctx" using assms(2) by (simp add: gguf_inv_def)
  have "c_str GGUF_KEY_GENERAL_ALIGNMENT = GGUF_KEY_GENERAL_ALIGNMENT"
    by (simp add: GGUF_KEY_GENERAL_ALIGNMENT_def)
  then have "kv_alignment (gc_kv ctx') = kv_alignment (gc_kv ctx)"
    using remove_key_lookup [OF d, of key GGUF_KEY_GENERAL_ALIGNMENT] step_remove
      kv_alignment_lookup [of ctx] kv_alignment_lookup [of ctx'] by simp
  moreover have "keys_distinct ctx'"
    unfolding step_remove(1) by (rule remove_key_distinct [OF d])
  ultimately show ?thesis
    using assms(2) remove_key_frame [of ctx key] step_remove(1) by (auto simp: gguf_inv_def)
next
  case (step_tensor t)
  let ?offset = "if gc_info ctx = [] then 0
    else ti_offset (last (gc_info ctx)) + padded_size (gc_alignment ctx) (last (gc_info ctx))"
  from step_tensor(1) have new: "gguf_find_tensor ctx (t_name t) = -1"
    and ctx': "ctx' = ctx\<lparr>gc_info := gc_info ctx @ [\<lparr>ti_t = t, ti_offset = ?offset\<rparr>]\<rparr>"
    by (auto simp: gguf_add_tensor_def Let_def split: if_splits)
  have ok: "info_ok P \<lparr>ti_t = t, ti_offset = ?offset\<rparr>" and nf: "nul_free (t_name t)"
    using step_tensor(2) by (simp_all add: info_ok_def Let_def)
  then have "t_name t \<notin> set (map (\<lambda>i. t_name (ti_t i)) (gc_info ctx))"
    using find_from_none [OF new [unfolded gguf_find_tensor_def], of "t_name t"] by auto
  moreover obtain sz where "data_size (gc_alignment ctx) (gc_info ctx) 0 = Done sz" using assms(2) by (auto simp: gguf_inv_def)
  from data_size_add [OF this, of "\<lparr>ti_t = t, ti_offset = ?offset\<rparr>"] step_tensor(3)
  have "\<exists>sz. data_size (gc_alignment ctx') (gc_info ctx') 0 = Done sz" by (simp add: ctx')
  ultimately show ?thesis
    using assms(2) ok by (auto simp: gguf_inv_def ctx' keys_distinct_def)
qed

lemma written_file:
  assumes "gguf_wf P ctx" and "gguf_write_to_file ctx only_meta = Some file" and "length file + unat (gc_alignment ctx) \<le> 2 ^ 64"
  obtains meta r where "gguf_write_to_file ctx True = Some meta" and "file = meta @ r"
    and "gguf_init_from_file P file = Done (ctx\<lparr>gc_info := map file_info (gc_info ctx),
      gc_offset := word_of_nat (length meta), gc_size := (case data_size (gc_alignment ctx) (gc_info ctx) 0 of Done sz \<Rightarrow> sz)\<rparr>)"
    and "only_meta \<Longrightarrow> r = []"
    and "\<not> only_meta \<Longrightarrow> fold (\<lambda>info r. Option.bind r (write_tensor_data info (length meta) (unat (gc_alignment ctx))))
      (gc_info ctx) (Some meta) = Some file"
proof -
  obtain kvs where kvs: "those (map write_kv (gc_kv ctx)) = Some kvs"
    using write_kvs_ok gguf_wfD(2) [OF assms(1)] by blast
  define buf where "buf = bytes_of GGUF_MAGIC @ write_u32 (gc_version ctx) @ write_i64 (gguf_get_n_tensors ctx) @
    write_i64 (gguf_get_n_kv ctx) @ concat kvs @ concat (map write_tensor_meta (gc_info ctx))"
  have al: "gc_alignment ctx \<noteq> 0" by (rule gguf_wfD(4) [OF assms(1)])
  let ?meta = "pad (unat (gc_alignment ctx)) buf"
  have meta: "write_meta ctx [] = Some ?meta" using kvs al by (simp add: write_meta_def buf_def)
  then have w: "gguf_write_to_file ctx True = Some ?meta"
    by (simp add: gguf_write_to_file_def gguf_write_to_buf_def)
  have full: "fold (\<lambda>info r. Option.bind r (write_tensor_data info (length ?meta) (unat (gc_alignment ctx))))
      (gc_info ctx) (Some ?meta) = Some file" if "\<not> only_meta"
    using assms(2) meta that by (simp add: gguf_write_to_file_def gguf_write_to_buf_def)
  have same: "file = ?meta" if only_meta
    using assms(2) meta that by (simp add: gguf_write_to_file_def gguf_write_to_buf_def)
  have "prefix ?meta file"
    using tensor_data_at [OF full] same by (cases only_meta) simp_all
  then obtain r where r: "file = ?meta @ r" by (auto simp: prefix_def)
  have "0 < unat (gc_alignment ctx)" using al by (simp add: unat_gt_0)
  then have "length buf \<le> length ?meta" using pad_zeros [of "unat (gc_alignment ctx)" buf] by auto
  then have "length buf + unat (gc_alignment ctx) \<le> 2 ^ 64" using assms(3) r by simp
  from write_meta_file [OF assms(1) this kvs buf_def, of r] r
  have "gguf_init_from_file P file = Done (ctx\<lparr>gc_info := map file_info (gc_info ctx),
      gc_offset := word_of_nat (length ?meta), gc_size := (case data_size (gc_alignment ctx) (gc_info ctx) 0 of Done sz \<Rightarrow> sz)\<rparr>)"
    by auto
  with that w r same full show thesis by simp
qed

section \<open>Properties\<close>

text \<open>A platform, and a small model: its architecture, its context length, two tensors.\<close>

definition demo_platform :: platform where
  "demo_platform = \<lparr>pl_alloc = (\<lambda>n. n \<le> 1000000), pl_sizeof_string = 24, pl_sizeof_kv = 88, pl_sizeof_tensor_info = 384\<rparr>"

definition demo_tensor :: "string \<Rightarrow> ggml_tensor" where
  "demo_tensor name = \<lparr>t_type = 0, t_ne = [2, 1, 1, 1], t_nb = contiguous_nb 0 [2, 1, 1, 1], t_name = name,
     t_data = Some [1, 2, 3, 4, 5, 6, 7, 8]\<rparr>"

definition demo_gguf :: gguf_context where
  "demo_gguf = \<lparr>gc_version = 3,
     gc_kv = [\<lparr>kv_key = ''general.architecture'', kv_is_array = False, kv_type = GGUF_TYPE_STRING, kv_data = [], kv_data_string = [''llama'']\<rparr>,
              \<lparr>kv_key = ''llama.context_length'', kv_is_array = False, kv_type = GGUF_TYPE_UINT32, kv_data = [0, 16, 0, 0], kv_data_string = []\<rparr>],
     gc_info = [\<lparr>ti_t = demo_tensor ''a'', ti_offset = 0\<rparr>, \<lparr>ti_t = demo_tensor ''b'', ti_offset = 32\<rparr>],
     gc_alignment = 32, gc_offset = 0, gc_size = 0\<rparr>"

lemma demo_f32: "ggml_blck_size 0 = 1" "ggml_type_size 0 = 4"
  by (simp_all add: ggml_blck_size_def ggml_type_size_def type_traits_def traits_def)

lemma demo_info_ok: "info_ok demo_platform \<lparr>ti_t = demo_tensor [c], ti_offset = n\<rparr> \<longleftrightarrow> c \<noteq> CHR 0x00"
  by (simp add: info_ok_def demo_tensor_def Let_def text_ok_def demo_platform_def GGML_MAX_NAME_def GGML_TYPE_COUNT_def
      demo_f32 shape_ok_def GGML_MAX_DIMS_def too_many_elements_def quotient_le_def INT64_MAX_def)

lemma demo_data_size: "data_size 32 (gc_info demo_gguf) 0 = Done 64"
proof -
  have "ggml_nbytes (demo_tensor n) = 8" for n
    unfolding ggml_nbytes_def dims_upt by (simp add: demo_tensor_def demo_f32 contiguous_nb_def Let_def eval_nat_numeral)
  moreover have "GGML_PAD (8 :: size_t) 32 = 32" by (simp add: GGML_PAD_def)
  ultimately show ?thesis by (simp add: demo_gguf_def padded_size_def)
qed

lemma demo_gguf_wf: "gguf_wf demo_platform demo_gguf"
proof -
  have "kv_alignment (gc_kv demo_gguf) = Some 32"
    by (simp add: demo_gguf_def kv_alignment_def gguf_find_key_def GGUF_KEY_GENERAL_ALIGNMENT_def
        GGUF_DEFAULT_ALIGNMENT_def Let_def c_str_def)
  moreover have "is_pow2 (32 :: size_t)" by (simp add: is_pow2_def)
  moreover have "\<forall>kv\<in>set (gc_kv demo_gguf). kv_ok demo_platform kv"
    by (simp add: demo_gguf_def kv_ok_def get_ne_def text_ok_def demo_platform_def)
  moreover have "\<forall>i\<in>set (gc_info demo_gguf). info_ok demo_platform i"
    using demo_info_ok by (simp add: demo_gguf_def)
  moreover have "distinct (map kv_key (gc_kv demo_gguf))" "distinct (map (\<lambda>i. t_name (ti_t i)) (gc_info demo_gguf))"
    "gc_version demo_gguf = 3" "gc_alignment demo_gguf = 32" "length (gc_kv demo_gguf) = 2" "length (gc_info demo_gguf) = 2"
    by (simp_all add: demo_gguf_def demo_tensor_def)
  moreover have "\<exists>sz. data_size 32 (gc_info demo_gguf) 0 = Done sz" using demo_data_size by blast
  ultimately show ?thesis unfolding gguf_wf_def gguf_meta_ok_def by (simp add: demo_platform_def)
qed

text \<open>
  C7. What is written is read back. A well-formed context is written, metadata alone or with the
  tensor data, to a file that \<open>gguf_init_from_file\<close> reads as the same context, key for key
  and tensor for tensor, with the start of the data section at the end of the metadata.
\<close>

theorem gguf_file_roundtrip:
  assumes "gguf_wf P ctx" and "gguf_write_to_file ctx only_meta = Some file" and "length file + unat (gc_alignment ctx) \<le> 2 ^ 64"
  shows "\<exists>meta ctx'. gguf_write_to_file ctx True = Some meta \<and> prefix meta file \<and>
    gguf_init_from_file P file = Done ctx' \<and> gc_version ctx' = gc_version ctx \<and> gc_kv ctx' = gc_kv ctx \<and>
    gc_info ctx' = map file_info (gc_info ctx) \<and> gc_alignment ctx' = gc_alignment ctx \<and>
    gc_offset ctx' = word_of_nat (length meta) \<and> data_size (gc_alignment ctx) (gc_info ctx) 0 = Done (gc_size ctx')"
proof -
  obtain sz where "data_size (gc_alignment ctx) (gc_info ctx) 0 = Done sz" using gguf_wfD(5) [OF assms(1)] by blast
  moreover obtain meta r where "gguf_write_to_file ctx True = Some meta" "file = meta @ r"
    "gguf_init_from_file P file = Done (ctx\<lparr>gc_info := map file_info (gc_info ctx),
      gc_offset := word_of_nat (length meta), gc_size := (case data_size (gc_alignment ctx) (gc_info ctx) 0 of Done sz \<Rightarrow> sz)\<rparr>)"
    using written_file [OF assms] by metis
  ultimately show ?thesis
    by (intro exI [of _ meta] exI [of _ "ctx\<lparr>gc_info := map file_info (gc_info ctx),
      gc_offset := word_of_nat (length meta), gc_size := sz\<rparr>"]) (simp add: prefix_def)
qed

lemma demo_written: "\<exists>meta. gguf_write_to_file demo_gguf True = Some meta \<and> length meta \<le> 1000"
proof -
  obtain kvs where kvs: "those (map write_kv (gc_kv demo_gguf)) = Some kvs"
    using write_kvs_ok gguf_wfD(2) [OF demo_gguf_wf] by blast
  then have len: "length (concat kvs) \<le> 200"
    by (auto simp: demo_gguf_def write_kv_def get_ne_def get_val_string_def Let_def write_type_def write_i32_def write_string_def write_u64_def)
  have "length (concat (map write_tensor_meta (gc_info demo_gguf))) \<le> 200"
    by (simp add: demo_gguf_def demo_tensor_def write_tensor_meta_def n_dims_cases Let_def write_i32_def write_string_def
        write_u64_def write_u32_def write_i64_def)
  moreover define buf where "buf = bytes_of GGUF_MAGIC @ write_u32 (gc_version demo_gguf) @ write_i64 (gguf_get_n_tensors demo_gguf) @
    write_i64 (gguf_get_n_kv demo_gguf) @ concat kvs @ concat (map write_tensor_meta (gc_info demo_gguf))"
  ultimately have "length buf \<le> 500"
    using len by (simp add: GGUF_MAGIC_def write_u32_def write_i64_def)
  moreover have "length (pad 32 buf) \<le> 31 + length buf" using pad_zeros [of 32 buf] by auto
  moreover have "gguf_write_to_file demo_gguf True = Some (pad 32 buf)"
    using kvs by (simp add: gguf_write_to_file_def gguf_write_to_buf_def write_meta_def buf_def) (simp add: demo_gguf_def)
  ultimately show ?thesis by simp
qed

theorem gguf_file_roundtrip_witness:
  "\<exists>file ctx'. gguf_write_to_file demo_gguf True = Some file \<and> gguf_init_from_file demo_platform file = Done ctx' \<and>
    gc_kv ctx' = gc_kv demo_gguf \<and> gc_size ctx' = 64"
proof -
  obtain bytes where f: "gguf_write_to_file demo_gguf True = Some bytes" "length bytes \<le> 1000" using demo_written by blast
  have "unat (gc_alignment demo_gguf) = 32" "gc_alignment demo_gguf = 32" by (simp_all add: demo_gguf_def)
  with f(2) have "length bytes + unat (gc_alignment demo_gguf) \<le> 2 ^ 64" by simp
  from gguf_file_roundtrip [OF demo_gguf_wf f(1) this] f(1) demo_data_size \<open>gc_alignment demo_gguf = 32\<close>
  show ?thesis by auto
qed

text \<open>
  C20. What was read can be written and read again: the context of any file that is accepted is
  well-formed, its metadata can be written, and reading that gives the context back.
\<close>

theorem gguf_reread:
  assumes "gguf_init_from_file P file = Done ctx" and "alloc_mono P"
  shows "gguf_wf P ctx \<and> (\<exists>meta. gguf_write_to_file ctx True = Some meta \<and>
    (length meta + unat (gc_alignment ctx) \<le> 2 ^ 64 \<longrightarrow>
      gguf_init_from_file P meta = Done (ctx\<lparr>gc_offset := word_of_nat (length meta)\<rparr>)))"
proof -
  obtain version kvs alignment infos r sz where m: "read_metadata P file = Done ((version, kvs, alignment, infos), r)"
    "data_size alignment infos 0 = Done sz"
    and ctx: "ctx = \<lparr>gc_version = version, gc_kv = kvs, gc_info = infos, gc_alignment = alignment,
      gc_offset = GGML_PAD (word_of_nat (length file - length r)) alignment, gc_size = sz\<rparr>"
    using assms(1) by (rule init_DoneE)
  note md = metadata_Done [OF m(1) assms(2) m(2)]
  have wf: "gguf_wf P ctx" unfolding ctx by (rule md(1))
  obtain bs where "those (map write_kv (gc_kv ctx)) = Some bs"
    using write_kvs_ok gguf_wfD(2) [OF wf] by blast
  moreover have "gc_alignment ctx \<noteq> 0" by (rule gguf_wfD(4) [OF wf])
  ultimately obtain meta where meta: "gguf_write_to_file ctx True = Some meta"
    by (simp add: gguf_write_to_file_def gguf_write_to_buf_def write_meta_def)
  have "gguf_init_from_file P meta = Done (ctx\<lparr>gc_offset := word_of_nat (length meta)\<rparr>)"
    if "length meta + unat (gc_alignment ctx) \<le> 2 ^ 64"
    using written_file [OF wf meta that] meta md(2) m(2) by (auto simp: ctx)
  with wf meta show ?thesis by blast
qed

lemma demo_read:
  "\<exists>bytes ctx. gguf_write_to_file demo_gguf True = Some bytes \<and> gguf_init_from_file demo_platform bytes = Done ctx \<and>
    gc_kv ctx = gc_kv demo_gguf \<and> gc_info ctx = map file_info (gc_info demo_gguf)"
proof -
  obtain bytes where f: "gguf_write_to_file demo_gguf True = Some bytes" "length bytes \<le> 1000" using demo_written by blast
  then have "length bytes + unat (gc_alignment demo_gguf) \<le> 2 ^ 64" by (simp add: demo_gguf_def)
  from written_file [OF demo_gguf_wf f(1) this] obtain off sz where "gguf_init_from_file demo_platform bytes =
    Done (demo_gguf\<lparr>gc_info := map file_info (gc_info demo_gguf), gc_offset := off, gc_size := sz\<rparr>)" by metis
  with f(1) show ?thesis by auto
qed

theorem gguf_reread_witness:
  "\<exists>bytes ctx. gguf_init_from_file demo_platform bytes = Done ctx \<and> gguf_wf demo_platform ctx \<and>
    gc_kv ctx = gc_kv demo_gguf"
proof -
  obtain bytes ctx where c: "gguf_init_from_file demo_platform bytes = Done ctx" "gc_kv ctx = gc_kv demo_gguf"
    using demo_read by blast
  have "alloc_mono demo_platform" by (simp add: alloc_mono_def demo_platform_def)
  from gguf_reread [OF c(1) this] c show ?thesis by blast
qed

text \<open>
  C21. A file that ends inside its metadata is refused: cut anywhere before its end, reading fails
  with an unexpected end of the file, whatever its bytes are.
\<close>

theorem gguf_truncated_refused:
  assumes "gguf_init_from_file P file = Done ctx"
  shows "\<exists>n \<le> length file. gc_offset ctx = GGML_PAD (word_of_nat n) (gc_alignment ctx) \<and>
    (\<forall>j < n. gguf_init_from_file P (take j file) = Fail UnexpectedEnd) \<and>
    (\<forall>r. gguf_init_from_file P (take n file @ r) = Done ctx)"
proof -
  obtain version kvs alignment infos r sz where m: "read_metadata P file = Done ((version, kvs, alignment, infos), r)"
    "data_size alignment infos 0 = Done sz"
    and ctx: "ctx = \<lparr>gc_version = version, gc_kv = kvs, gc_info = infos, gc_alignment = alignment,
      gc_offset = GGML_PAD (word_of_nat (length file - length r)) alignment, gc_size = sz\<rparr>"
    using assms by (rule init_DoneE)
  let ?n = "length file - length r"
  have "gguf_init_from_file P (take j file) = Fail UnexpectedEnd" if "j < ?n" for j
    using metadata.truncated [OF m(1) that] by (simp add: gguf_init_from_file_def read_gguf_def rd_bind_def)
  moreover have "gguf_init_from_file P (take ?n file @ r') = Done ctx" for r'
    using init_Done [OF metadata.any_rest(2) [OF m(1)] m(2), of r'] by (simp add: ctx)
  ultimately show ?thesis by (intro exI [of _ ?n]) (simp add: ctx)
qed

theorem gguf_truncated_refused_witness:
  "\<exists>file ctx. gguf_init_from_file demo_platform file = Done ctx \<and> gguf_init_from_file demo_platform [] = Fail UnexpectedEnd"
proof -
  obtain bytes ctx where c: "gguf_init_from_file demo_platform bytes = Done ctx" using demo_read by blast
  from gguf_truncated_refused [OF c] obtain n where n: "\<forall>j < n. gguf_init_from_file demo_platform (take j bytes) = Fail UnexpectedEnd"
    "\<forall>r. gguf_init_from_file demo_platform (take n bytes @ r) = Done ctx" by blast
  have "0 < n"
  proof (rule ccontr)
    assume "\<not> 0 < n"
    then have "gguf_init_from_file demo_platform [] = Done ctx" using n(2) [rule_format, of "[]"] by simp
    then show False
      by (simp add: gguf_init_from_file_def read_gguf_def read_metadata_def read_header_def read_magic_def rd_bind_def read_bytes_def)
  qed
  with n(1) c show ?thesis by (metis take0)
qed

text \<open>
  C23. The data of every tensor lies where its info says: in the file of a well-formed context with
  its tensors' data, the bytes at the data offset plus the offset of the tensor are its data.
\<close>

theorem gguf_tensor_data_found:
  assumes "gguf_wf P ctx" and "gguf_write_to_file ctx False = Some bytes" and "length bytes + unat (gc_alignment ctx) \<le> 2 ^ 64"
    and "i < length (gc_info ctx)"
  shows "\<exists>ctx' data. gguf_init_from_file P bytes = Done ctx' \<and> t_data (ti_t (gc_info ctx ! i)) = Some data \<and>
    (let pos = unat (gc_offset ctx') + unat (ti_offset (gc_info ctx' ! i)); n = unat (ggml_nbytes (ti_t (gc_info ctx' ! i)))
     in pos + n \<le> length bytes \<and> take n (drop pos bytes) = take n data)"
proof -
  obtain meta r sz where m: "bytes = meta @ r" "gguf_init_from_file P bytes = Done (ctx\<lparr>gc_info := map file_info (gc_info ctx),
      gc_offset := word_of_nat (length meta), gc_size := sz\<rparr>)"
    and f: "fold (\<lambda>info r. Option.bind r (write_tensor_data info (length meta) (unat (gc_alignment ctx))))
      (gc_info ctx) (Some meta) = Some bytes"
    using written_file [OF assms(1-3)] by metis
  let ?i = "gc_info ctx ! i" and ?n = "unat (ggml_nbytes (ti_t (gc_info ctx ! i)))"
  obtain data pos where d: "t_data (ti_t ?i) = Some data" "length meta \<le> pos" "word_of_nat (pos - length meta) = ti_offset ?i"
    "pos + ?n \<le> length bytes" "take ?n (drop pos bytes) = take ?n data"
    using tensor_data_at [OF f] assms(4) nth_mem by blast
  have small: "length bytes < 2 ^ 64" using assms(3) gguf_wfD(4) [OF assms(1)] by (simp add: unat_gt_0 flip: unat_gt_0)
  have "unat (ti_offset ?i) = pos - length meta"
    using d(2-4) small unat_length [of "pos - length meta"] by (metis add_leD1 diff_le_self le_trans order_le_less_trans)
  moreover have "unat (word_of_nat (length meta) :: size_t) = length meta"
    using small m(1) by (intro unat_length) simp
  ultimately show ?thesis
    using m(2) d assms(4) by (simp add: Let_def)
qed

lemma demo_nbytes: "ggml_nbytes (demo_tensor n) = 8"
  unfolding ggml_nbytes_def dims_upt by (simp add: demo_tensor_def demo_f32 contiguous_nb_def Let_def eval_nat_numeral)

lemma demo_write_data:
  assumes "od \<le> length buf" and "32 dvd length buf" and "word_of_nat (length buf - od) = offset"
  shows "\<exists>buf'. write_tensor_data \<lparr>ti_t = demo_tensor n, ti_offset = offset\<rparr> od 32 buf = Some buf' \<and> length buf' = length buf + 32"
proof -
  have "ggml_is_contiguous (demo_tensor n)"
    by (rule contiguous_is_contiguous) (simp add: demo_tensor_def)
  moreover have "length (pad 32 (buf @ [1, 2, 3, 4, 5, 6, 7, 8])) = length buf + 32"
  proof -
    obtain q where "length buf = 32 * q" using assms(2) by (rule dvdE)
    then show ?thesis using pad_zeros [of 32 "buf @ [1, 2, 3, 4, 5, 6, 7, 8]"] by auto
  qed
  ultimately show ?thesis
    using assms(3) demo_nbytes [of n] by (simp add: write_tensor_data_def Let_def) (simp add: demo_tensor_def)
qed

lemma demo_written_data: "\<exists>bytes. gguf_write_to_file demo_gguf False = Some bytes \<and> length bytes \<le> 2000"
proof -
  obtain meta where f: "gguf_write_to_file demo_gguf True = Some meta" "length meta \<le> 1000" using demo_written by blast
  then have m: "write_meta demo_gguf [] = Some meta" by (simp add: gguf_write_to_file_def gguf_write_to_buf_def)
  then have "32 dvd length meta"
    using pad_zeros [of 32] by (auto simp: write_meta_def bind_eq_Some_conv demo_gguf_def split: if_splits)
  moreover from this obtain b1 where b1: "write_tensor_data \<lparr>ti_t = demo_tensor ''a'', ti_offset = 0\<rparr> (length meta) 32 meta = Some b1"
    "length b1 = length meta + 32" using demo_write_data [of "length meta" meta 0] by auto
  ultimately have "\<exists>b2. write_tensor_data \<lparr>ti_t = demo_tensor ''b'', ti_offset = 32\<rparr> (length meta) 32 b1 = Some b2 \<and>
      length b2 = length b1 + 32"
    by (intro demo_write_data) simp_all
  then obtain b2 where b2: "write_tensor_data \<lparr>ti_t = demo_tensor ''b'', ti_offset = 32\<rparr> (length meta) 32 b1 = Some b2"
    "length b2 = length meta + 64" using b1(2) by auto
  have i: "gc_info demo_gguf = [\<lparr>ti_t = demo_tensor ''a'', ti_offset = 0\<rparr>, \<lparr>ti_t = demo_tensor ''b'', ti_offset = 32\<rparr>]"
    "unat (gc_alignment demo_gguf) = 32" by (simp_all add: demo_gguf_def)
  have "gguf_write_to_file demo_gguf False = Some b2"
    using m b1 b2 i by (simp add: gguf_write_to_file_def gguf_write_to_buf_def)
  then show ?thesis using b2 f(2) by simp
qed

theorem gguf_tensor_data_found_witness:
  "\<exists>bytes ctx'. gguf_write_to_file demo_gguf False = Some bytes \<and> gguf_init_from_file demo_platform bytes = Done ctx' \<and>
    (let pos = unat (gc_offset ctx') + unat (ti_offset (gc_info ctx' ! 1)); n = unat (ggml_nbytes (ti_t (gc_info ctx' ! 1)))
     in pos + n \<le> length bytes \<and> take n (drop pos bytes) = take n [1, 2, 3, 4, 5, 6, 7, 8])"
proof -
  obtain bytes where f: "gguf_write_to_file demo_gguf False = Some bytes" "length bytes \<le> 2000" using demo_written_data by blast
  then have len: "length bytes + unat (gc_alignment demo_gguf) \<le> 2 ^ 64" by (simp add: demo_gguf_def)
  have i: "1 < length (gc_info demo_gguf)" "t_data (ti_t (gc_info demo_gguf ! 1)) = Some [1, 2, 3, 4, 5, 6, 7, 8]"
    by (simp_all add: demo_gguf_def demo_tensor_def)
  from gguf_tensor_data_found [OF demo_gguf_wf f(1) len i(1)] i(2) f(1) show ?thesis by auto
qed

text \<open>
  C39. Every context built by the interface from an empty one can be written: whatever keys are set,
  replaced and removed, and whatever tensors are added whose padded sizes together fit a \<open>size_t\<close>, as long
  as the alignment key is left alone, the invariant of the files holds. The offsets are those that the
  reader checks: each tensor lies behind the padded ones before it.
\<close>

theorem gguf_built_well_formed:
  assumes "(gguf_step P)\<^sup>*\<^sup>* gguf_init_empty ctx"
    and "int (length (gc_kv ctx)) < 2 ^ 63" and "int (length (gc_kv ctx)) \<le> 0xFFFFFFFFFFFFFFFF div int (pl_sizeof_kv P)"
    and "int (length (gc_info ctx)) < 2 ^ 63"
    and "int (length (gc_info ctx)) \<le> 0xFFFFFFFFFFFFFFFF div int (pl_sizeof_tensor_info P)"
  shows "gguf_wf P ctx \<and> keys_distinct ctx \<and>
    (\<forall>i < length (gc_info ctx). unat (ti_offset (gc_info ctx ! i)) = tensors_size (gc_alignment ctx) (take i (gc_info ctx)))"
proof -
  have "gguf_inv P ctx"
    using assms(1) by (induction rule: rtranclp_induct) (auto intro: gguf_inv_empty gguf_step_inv)
  then obtain sz where "data_size (gc_alignment ctx) (gc_info ctx) 0 = Done sz" "keys_distinct ctx" by (auto simp: gguf_inv_def)
  with gguf_inv_wf [OF \<open>gguf_inv P ctx\<close> assms(2-5)] data_size_offsets [OF this(1)] show ?thesis by simp
qed

text \<open>A key and two tensors, of eight bytes each, the second of which lies behind the padding.\<close>

theorem gguf_built_well_formed_witness:
  "\<exists>ctx1 ctx2 ctx. gguf_set_val_str gguf_init_empty ''general.architecture'' ''llama'' = Some ctx1 \<and>
    gguf_add_tensor ctx1 (demo_tensor ''a'') = Some ctx2 \<and> gguf_add_tensor ctx2 (demo_tensor ''b'') = Some ctx \<and>
    gguf_wf demo_platform ctx \<and> map ti_offset (gc_info ctx) = [0, 32]"
proof -
  let ?kv = "\<lparr>kv_key = ''general.architecture'', kv_is_array = False, kv_type = GGUF_TYPE_STRING, kv_data = [], kv_data_string = [''llama'']\<rparr>"
  let ?ctx1 = "gguf_init_empty\<lparr>gc_kv := [?kv]\<rparr>"
  let ?ctx2 = "?ctx1\<lparr>gc_info := [\<lparr>ti_t = demo_tensor ''a'', ti_offset = 0\<rparr>]\<rparr>"
  let ?ctx = "?ctx1\<lparr>gc_info := [\<lparr>ti_t = demo_tensor ''a'', ti_offset = 0\<rparr>, \<lparr>ti_t = demo_tensor ''b'', ti_offset = 32\<rparr>]\<rparr>"
  have empty: "gc_alignment gguf_init_empty = 32" "gc_info gguf_init_empty = []" by (simp_all add: gguf_init_empty_def GGUF_DEFAULT_ALIGNMENT_def)
  have padded: "padded_size 32 \<lparr>ti_t = demo_tensor n, ti_offset = k\<rparr> = 32" for n k
    by (simp add: padded_size_def demo_nbytes GGML_PAD_def)
  have set: "gguf_set_val_str gguf_init_empty ''general.architecture'' ''llama'' = Some ?ctx1"
    by (simp add: gguf_set_val_str_def Let_def check_reserved_keys_def GGUF_KEY_GENERAL_ALIGNMENT_def emplace_back_def
        new_kv_def gguf_remove_key_def gguf_find_key_def gguf_init_empty_def)
  have name: "t_name (demo_tensor n) = n" for n by (simp add: demo_tensor_def)
  have add1: "gguf_add_tensor ?ctx1 (demo_tensor ''a'') = Some ?ctx2"
    by (simp add: gguf_add_tensor_def gguf_find_tensor_def empty)
  have add2: "gguf_add_tensor ?ctx2 (demo_tensor ''b'') = Some ?ctx"
    by (simp add: gguf_add_tensor_def gguf_find_tensor_def empty padded name)
  have "gguf_step demo_platform gguf_init_empty ?ctx1"
    by (rule step_str [OF set]) (simp_all add: text_ok_def demo_platform_def)
  moreover have "gguf_step demo_platform ?ctx1 ?ctx2"
    by (rule step_tensor [OF add1]) (simp_all add: demo_info_ok tensors_size_def padded empty)
  moreover have "gguf_step demo_platform ?ctx2 ?ctx"
    by (rule step_tensor [OF add2]) (simp_all add: demo_info_ok tensors_size_def padded empty)
  ultimately have run: "(gguf_step demo_platform)\<^sup>*\<^sup>* gguf_init_empty ?ctx"
    by (meson rtranclp.rtrancl_into_rtrancl rtranclp.rtrancl_refl)
  have "gguf_wf demo_platform ?ctx \<and> keys_distinct ?ctx \<and>
      (\<forall>i < length (gc_info ?ctx). unat (ti_offset (gc_info ?ctx ! i)) = tensors_size (gc_alignment ?ctx) (take i (gc_info ?ctx)))"
    by (rule gguf_built_well_formed [OF run]) (simp_all add: gguf_init_empty_def demo_platform_def)
  then have wf: "gguf_wf demo_platform ?ctx" by blast
  have offsets: "map ti_offset (gc_info ?ctx) = [0, 32]" by simp
  show ?thesis
    by (rule exI [of _ ?ctx1], rule exI [of _ ?ctx2], rule exI [of _ ?ctx]) (intro conjI set add1 add2 wf offsets)
qed

text \<open>
  The shapes of a file that is accepted: four dimensions, none negative, all but the first at
  least 1, and fewer than \<open>2\<^sup>63\<close> elements.
\<close>

theorem gguf_shape_bounds:
  assumes "gguf_init_from_file P file = Done ctx" and "alloc_mono P" and "i \<in> set (gc_info ctx)"
  shows "\<exists>a b c d. t_ne (ti_t i) = [a, b, c, d] \<and> 0 \<le> a \<and> 1 \<le> b \<and> 1 \<le> c \<and> 1 \<le> d \<and> a * b * c * d < 2 ^ 63"
proof -
  obtain version kvs alignment infos r sz where m: "read_metadata P file = Done ((version, kvs, alignment, infos), r)"
    "data_size alignment infos 0 = Done sz"
    and ctx: "ctx = \<lparr>gc_version = version, gc_kv = kvs, gc_info = infos, gc_alignment = alignment,
      gc_offset = GGML_PAD (word_of_nat (length file - length r)) alignment, gc_size = sz\<rparr>"
    using assms(1) by (rule init_DoneE)
  have "gguf_wf P ctx" unfolding ctx by (rule metadata_Done(1) [OF m(1) assms(2) m(2)])
  then have "shape_ok (t_ne (ti_t i))" using assms(3) by (auto simp: gguf_wf_def gguf_meta_ok_def info_ok_def Let_def)
  then show ?thesis by (rule shape_cases) blast
qed

theorem gguf_shape_bounds_witness:
  "\<exists>file ctx. gguf_init_from_file demo_platform file = Done ctx \<and> length (gc_info ctx) = 2 \<and>
    (\<forall>i\<in>set (gc_info ctx). \<exists>a b c d. t_ne (ti_t i) = [a, b, c, d] \<and> a * b * c * d < 2 ^ 63)"
proof -
  obtain bytes ctx where c: "gguf_init_from_file demo_platform bytes = Done ctx" "gc_info ctx = map file_info (gc_info demo_gguf)"
    using demo_read by blast
  have m: "alloc_mono demo_platform" by (simp add: alloc_mono_def demo_platform_def)
  have "length (gc_info ctx) = 2" by (simp add: c(2) demo_gguf_def)
  with c(1) gguf_shape_bounds [OF c(1) m] show ?thesis by blast
qed

end
