(* ===== verification/GGUF_Reader.thy ===== *)
theory GGUF_Reader
  imports Gguf_Build
begin

text \<open>
  The reader of model files in the app, \<open>smollm/src/main/cpp/GGUFReader.cpp\<close> and the class
  \<open>GGUFReader\<close> of \<open>GGUFReader.kt\<close>: before a model is loaded, the app reads its context
  size and its chat template from the metadata.

  A handle is the address of a context, or null. A result \<open>None\<close> is the end of the process:
  a failed assertion, a null dereference or an exception that no handler of the bridge catches.
\<close>

type_synonym handle = "gguf_context option"

text \<open>The file is its bytes, or \<open>None\<close> when \<open>ggml_fopen\<close> cannot open it.\<close>

definition getGGUFContextNativeHandle :: "platform \<Rightarrow> byte list option \<Rightarrow> handle option" where
  "getGGUFContextNativeHandle P model =
     (case model of
        None \<Rightarrow> Some None
      | Some bytes \<Rightarrow>
          (case gguf_init_from_file P bytes of
             Done ctx \<Rightarrow> Some (Some ctx) | Fail _ \<Rightarrow> Some None | Throw \<Rightarrow> None | Crash \<Rightarrow> None))"

definition native_getContextSize :: "handle \<Rightarrow> int option" where
  "native_getContextSize h =
     Option.bind h (\<lambda>ggufContext.
       let architectureKeyId = gguf_find_key ggufContext ''general.architecture'' in
       if architectureKeyId = -1 then Some (-1)
       else
         Option.bind (gguf_get_val_str ggufContext architectureKeyId) (\<lambda>architecture.
           let contextLengthKey = architecture @ ''.context_length'';
               contextLengthKeyId = gguf_find_key ggufContext contextLengthKey
           in if contextLengthKeyId = -1 then Some (-1)
              else map_option uint (gguf_get_val_u32 ggufContext contextLengthKeyId)))"

definition native_getChatTemplate :: "handle \<Rightarrow> string option" where
  "native_getChatTemplate h =
     Option.bind h (\<lambda>ggufContext.
       let chatTemplateKeyId = gguf_find_key ggufContext ''tokenizer.chat_template'' in
       if chatTemplateKeyId = -1 then Some ''''
       else gguf_get_val_str ggufContext chatTemplateKeyId)"

section \<open>The class\<close>

text \<open>
  Whether \<open>assert\<close> is enabled is up to the runtime; where it is, it throws in Kotlin.
\<close>

datatype 'a kotlin = AssertionError | Killed | Returned 'a

definition asserted :: "bool \<Rightarrow> handle \<Rightarrow> 'a option \<Rightarrow> 'a kotlin" where
  "asserted ea nativeHandle r =
     (if ea \<and> nativeHandle = None then AssertionError else case r of None \<Rightarrow> Killed | Some x \<Rightarrow> Returned x)"

definition getContextSize :: "bool \<Rightarrow> handle \<Rightarrow> int option kotlin" where
  "getContextSize ea nativeHandle =
     asserted ea nativeHandle
       (map_option (\<lambda>contextSize. if contextSize = -1 then None else Some contextSize) (native_getContextSize nativeHandle))"

definition getChatTemplate :: "bool \<Rightarrow> handle \<Rightarrow> string option kotlin" where
  "getChatTemplate ea nativeHandle =
     asserted ea nativeHandle
       (map_option (\<lambda>chatTemplate. if chatTemplate = [] then None else Some chatTemplate) (native_getChatTemplate nativeHandle))"

section \<open>What the setters store\<close>

lemma set_val_u32_lookup:
  assumes "keys_distinct ctx" and "gguf_set_val_u32 ctx key v = Some ctx'"
  shows "kv_lookup ctx' k = (if c_str k = c_str key
      then Some \<lparr>kv_key = c_str key, kv_is_array = False, kv_type = GGUF_TYPE_UINT32, kv_data = le_bytes 4 (unat v), kv_data_string = []\<rparr>
      else kv_lookup ctx k)" and "keys_distinct ctx'"
proof -
  from assms(2) obtain kv where kv: "new_kv (c_str key) False GGUF_TYPE_UINT32 (le_bytes 4 (unat v)) [] = Some kv"
    "emplace_back (snd (gguf_remove_key ctx key)) (Some kv) = Some ctx'"
    by (auto simp: gguf_set_val_u32_def gguf_set_val_def Let_def split: if_splits elim: emplace_SomeE)
  then show "keys_distinct ctx'" using emplace_distinct [OF assms(1) kv(2)] by (simp add: new_kv_Some)
  show "kv_lookup ctx' k = (if c_str k = c_str key
      then Some \<lparr>kv_key = c_str key, kv_is_array = False, kv_type = GGUF_TYPE_UINT32, kv_data = le_bytes 4 (unat v), kv_data_string = []\<rparr>
      else kv_lookup ctx k)"
    using emplace_lookup [OF assms(1) kv(2), of k] kv(1) by (simp add: new_kv_Some)
qed

lemma set_val_str_lookup:
  assumes "keys_distinct ctx" and "gguf_set_val_str ctx key v = Some ctx'"
  shows "kv_lookup ctx' k = (if c_str k = c_str key
      then Some \<lparr>kv_key = c_str key, kv_is_array = False, kv_type = GGUF_TYPE_STRING, kv_data = [], kv_data_string = [c_str v]\<rparr>
      else kv_lookup ctx k)" and "keys_distinct ctx'"
proof -
  from assms(2) obtain kv where kv: "new_kv (c_str key) False GGUF_TYPE_STRING [] [c_str v] = Some kv"
    "emplace_back (snd (gguf_remove_key ctx key)) (Some kv) = Some ctx'"
    by (auto simp: gguf_set_val_str_def Let_def split: if_splits elim: emplace_SomeE)
  then show "keys_distinct ctx'" using emplace_distinct [OF assms(1) kv(2)] by (simp add: new_kv_Some)
  show "kv_lookup ctx' k = (if c_str k = c_str key
      then Some \<lparr>kv_key = c_str key, kv_is_array = False, kv_type = GGUF_TYPE_STRING, kv_data = [], kv_data_string = [c_str v]\<rparr>
      else kv_lookup ctx k)"
    using emplace_lookup [OF assms(1) kv(2), of k] kv(1) by (simp add: new_kv_Some)
qed

lemma get_val_u32_lookup:
  assumes "kv_lookup ctx key = Some \<lparr>kv_key = k, kv_is_array = False, kv_type = GGUF_TYPE_UINT32, kv_data = le_bytes 4 (unat v), kv_data_string = []\<rparr>"
  shows "gguf_get_val_u32 ctx (gguf_find_key ctx key) = Some v"
proof -
  have "word_of_nat (le_nat (le_bytes 4 (unat v))) = v" by (rule word_le_bytes) simp
  then show ?thesis
    using assms by (simp add: gguf_get_val_u32_def gguf_get_val_def find_key_lookup(2) get_ne_def get_val_def Let_def)
qed

lemma get_val_str_lookup:
  assumes "kv_lookup ctx key = Some \<lparr>kv_key = k, kv_is_array = False, kv_type = GGUF_TYPE_STRING, kv_data = [], kv_data_string = [s]\<rparr>"
  shows "gguf_get_val_str ctx (gguf_find_key ctx key) = Some (c_str s)"
  using assms by (simp add: gguf_get_val_str_def find_key_lookup(2) get_ne_def get_val_string_def Let_def)

text \<open>A pair is found in whatever has the same pairs, in particular in the context read back.\<close>

lemma kv_lookup_cong: "gc_kv a = gc_kv b \<Longrightarrow> kv_lookup a k = kv_lookup b k"
  by (simp add: kv_lookup_def)

section \<open>A context is a map\<close>

text \<open>The abstract value of a context: the pair of each key, as a map.\<close>

definition gguf_map :: "gguf_context \<Rightarrow> string \<rightharpoonup> gguf_kv" where
  "gguf_map ctx = map_of (map (\<lambda>kv. (c_str (kv_key kv), kv)) (gc_kv ctx))"

lemma find_map_of: "find (\<lambda>x. f x = k) xs = map_of (map (\<lambda>x. (f x, x)) xs) k"
  by (induction xs) auto

lemma kv_lookup_map: "kv_lookup ctx key = gguf_map ctx (c_str key)"
  by (simp add: kv_lookup_def gguf_map_def find_map_of)

lemma gguf_map_nul: "\<not> nul_free k \<Longrightarrow> gguf_map ctx k = None"
  unfolding gguf_map_def map_of_eq_None_iff by (auto simp del: nul_free_c_str) (metis nul_free_c_str)

lemma map_eqI:
  assumes "\<And>k. gguf_map a (c_str k) = m (c_str k)" and "\<And>k. \<not> nul_free k \<Longrightarrow> m k = None"
  shows "gguf_map a = m"
proof
  fix k
  show "gguf_map a k = m k"
    using assms(1) [of k] assms(2) [of k] gguf_map_nul [of k a] by (cases "nul_free k") simp_all
qed

lemma emplace_map:
  assumes "keys_distinct ctx" and "emplace_back (snd (gguf_remove_key ctx key)) (Some kv) = Some ctx'"
    and "kv_key kv = c_str key"
  shows "gguf_map ctx' = (gguf_map ctx)(c_str key \<mapsto> kv)"
proof (rule map_eqI)
  fix k
  show "gguf_map ctx' (c_str k) = ((gguf_map ctx)(c_str key \<mapsto> kv)) (c_str k)"
    using emplace_lookup [OF assms, of k] by (simp add: kv_lookup_map)
next
  fix k :: string assume "\<not> nul_free k"
  moreover from this have "k \<noteq> c_str key" using nul_free_c_str by metis
  ultimately show "((gguf_map ctx)(c_str key \<mapsto> kv)) k = None" by (simp add: gguf_map_nul)
qed

lemma emplace_refines:
  assumes "keys_distinct ctx" and "emplace_back (snd (gguf_remove_key ctx key)) r = Some ctx'"
    and "\<And>kv. r = Some kv \<Longrightarrow> kv = x" and "kv_key x = c_str key"
  shows "keys_distinct ctx' \<and> gguf_map ctx' = (gguf_map ctx)(c_str key \<mapsto> x)"
proof -
  from assms(2) obtain kv where "r = Some kv" "emplace_back (snd (gguf_remove_key ctx key)) (Some kv) = Some ctx'"
    by (rule emplace_SomeE)
  with assms(3,4) emplace_distinct [OF assms(1)] emplace_map [OF assms(1)] show ?thesis by metis
qed

lemma map_operations:
  assumes "keys_distinct ctx"
  shows "gguf_find_key ctx key = -1 \<longleftrightarrow> c_str key \<notin> dom (gguf_map ctx)"
    and "kv_at ctx (gguf_find_key ctx key) = gguf_map ctx (c_str key)"
    and "gguf_map (snd (gguf_remove_key ctx key)) = (gguf_map ctx)(c_str key := None)"
    and "gguf_set_val T ctx key val = Some ctx' \<Longrightarrow> keys_distinct ctx' \<and> gguf_map ctx' = (gguf_map ctx)(c_str key \<mapsto>
      \<lparr>kv_key = c_str key, kv_is_array = False, kv_type = T, kv_data = val, kv_data_string = []\<rparr>)"
    and "gguf_set_val_str ctx key s = Some ctx' \<Longrightarrow> keys_distinct ctx' \<and> gguf_map ctx' = (gguf_map ctx)(c_str key \<mapsto>
      \<lparr>kv_key = c_str key, kv_is_array = False, kv_type = GGUF_TYPE_STRING, kv_data = [], kv_data_string = [c_str s]\<rparr>)"
    and "gguf_set_arr_data ctx key T data n = Some ctx' \<Longrightarrow> keys_distinct ctx' \<and> gguf_map ctx' = (gguf_map ctx)(c_str key \<mapsto>
      \<lparr>kv_key = c_str key, kv_is_array = True, kv_type = T, kv_data = take (n * gguf_type_size T) data, kv_data_string = []\<rparr>)"
    and "gguf_set_arr_str ctx key strings = Some ctx' \<Longrightarrow> keys_distinct ctx' \<and> gguf_map ctx' = (gguf_map ctx)(c_str key \<mapsto>
      \<lparr>kv_key = c_str key, kv_is_array = True, kv_type = GGUF_TYPE_STRING, kv_data = [], kv_data_string = map c_str strings\<rparr>)"
proof -
  show "gguf_find_key ctx key = -1 \<longleftrightarrow> c_str key \<notin> dom (gguf_map ctx)"
    "kv_at ctx (gguf_find_key ctx key) = gguf_map ctx (c_str key)"
    by (auto simp: find_key_lookup kv_lookup_map)
  show "gguf_map (snd (gguf_remove_key ctx key)) = (gguf_map ctx)(c_str key := None)"
  proof (rule map_eqI)
    fix k
    show "gguf_map (snd (gguf_remove_key ctx key)) (c_str k) = ((gguf_map ctx)(c_str key := None)) (c_str k)"
      using remove_key_lookup [OF assms, of key k] by (simp add: kv_lookup_map)
  qed (simp add: gguf_map_nul)
  show "keys_distinct ctx' \<and> gguf_map ctx' = (gguf_map ctx)(c_str key \<mapsto>
      \<lparr>kv_key = c_str key, kv_is_array = False, kv_type = T, kv_data = val, kv_data_string = []\<rparr>)"
    if "gguf_set_val T ctx key val = Some ctx'"
    using that unfolding gguf_set_val_def Let_def remove_key_c_str
    by (intro emplace_refines [OF assms]) (auto simp: new_kv_Some split: if_splits)
  show "keys_distinct ctx' \<and> gguf_map ctx' = (gguf_map ctx)(c_str key \<mapsto>
      \<lparr>kv_key = c_str key, kv_is_array = False, kv_type = GGUF_TYPE_STRING, kv_data = [], kv_data_string = [c_str s]\<rparr>)"
    if "gguf_set_val_str ctx key s = Some ctx'"
    using that unfolding gguf_set_val_str_def Let_def remove_key_c_str
    by (intro emplace_refines [OF assms]) (auto simp: new_kv_Some split: if_splits)
  show "keys_distinct ctx' \<and> gguf_map ctx' = (gguf_map ctx)(c_str key \<mapsto>
      \<lparr>kv_key = c_str key, kv_is_array = True, kv_type = T, kv_data = take (n * gguf_type_size T) data, kv_data_string = []\<rparr>)"
    if "gguf_set_arr_data ctx key T data n = Some ctx'"
    using that unfolding gguf_set_arr_data_def Let_def remove_key_c_str
    by (intro emplace_refines [OF assms]) (auto simp: new_kv_Some kv_cast_def bind_eq_Some_conv split: if_splits)
  show "keys_distinct ctx' \<and> gguf_map ctx' = (gguf_map ctx)(c_str key \<mapsto>
      \<lparr>kv_key = c_str key, kv_is_array = True, kv_type = GGUF_TYPE_STRING, kv_data = [], kv_data_string = map c_str strings\<rparr>)"
    if "gguf_set_arr_str ctx key strings = Some ctx'"
    using that unfolding gguf_set_arr_str_def Let_def remove_key_c_str
    by (intro emplace_refines [OF assms]) (auto simp: new_kv_Some split: if_splits)
qed

text \<open>
  C22. The operations refine those of a map: on a context with distinct keys, a lookup is the
  lookup of the map (with -1 outside of its domain), every setter is the update at its key, removal
  the deletion, and the keys stay distinct.
\<close>

theorem gguf_operations_refine_map:
  assumes "keys_distinct ctx"
  shows "(gguf_find_key ctx key = -1 \<longleftrightarrow> c_str key \<notin> dom (gguf_map ctx)) \<and>
    (kv_at ctx (gguf_find_key ctx key) = gguf_map ctx (c_str key)) \<and>
    (gguf_map (snd (gguf_remove_key ctx key)) = (gguf_map ctx)(c_str key := None)) \<and>
    (gguf_set_val T ctx key val = Some ctx' \<longrightarrow> keys_distinct ctx' \<and> gguf_map ctx' = (gguf_map ctx)(c_str key \<mapsto>
      \<lparr>kv_key = c_str key, kv_is_array = False, kv_type = T, kv_data = val, kv_data_string = []\<rparr>)) \<and>
    (gguf_set_val_str ctx key s = Some ctx' \<longrightarrow> keys_distinct ctx' \<and> gguf_map ctx' = (gguf_map ctx)(c_str key \<mapsto>
      \<lparr>kv_key = c_str key, kv_is_array = False, kv_type = GGUF_TYPE_STRING, kv_data = [], kv_data_string = [c_str s]\<rparr>)) \<and>
    (gguf_set_arr_data ctx key T data n = Some ctx' \<longrightarrow> keys_distinct ctx' \<and> gguf_map ctx' = (gguf_map ctx)(c_str key \<mapsto>
      \<lparr>kv_key = c_str key, kv_is_array = True, kv_type = T, kv_data = take (n * gguf_type_size T) data, kv_data_string = []\<rparr>)) \<and>
    (gguf_set_arr_str ctx key strings = Some ctx' \<longrightarrow> keys_distinct ctx' \<and> gguf_map ctx' = (gguf_map ctx)(c_str key \<mapsto>
      \<lparr>kv_key = c_str key, kv_is_array = True, kv_type = GGUF_TYPE_STRING, kv_data = [], kv_data_string = map c_str strings\<rparr>))"
  using map_operations [OF assms] by blast

theorem gguf_operations_refine_map_witness:
  "keys_distinct demo_gguf \<and> gguf_map (snd (gguf_remove_key demo_gguf ''general.architecture'')) ''llama.context_length'' =
    gguf_map demo_gguf ''llama.context_length'' \<and> gguf_map demo_gguf ''llama.context_length'' \<noteq> None"
proof -
  have d: "keys_distinct demo_gguf" by (simp add: keys_distinct_def demo_gguf_def)
  have "gguf_map demo_gguf ''llama.context_length'' \<noteq> None" by (simp add: gguf_map_def demo_gguf_def)
  with d gguf_operations_refine_map [OF d, of "''general.architecture''"] show ?thesis by simp
qed

section \<open>The app reads what the interface wrote\<close>

lemma last_ne: "a @ ''.context_length'' \<noteq> k" if "last k \<noteq> CHR ''h''"
proof
  assume "a @ ''.context_length'' = k"
  then have "last (a @ ''.context_length'') = last k" by simp
  with that show False by simp
qed

lemma alloc_step_u32:
  assumes "gguf_set_val_u32 ctx key v = Some ctx'" and "text_ok P (c_str key)" and "c_str key \<noteq> GGUF_KEY_GENERAL_ALIGNMENT"
  shows "gguf_step P ctx ctx'"
  using assms by (intro step_val [of GGUF_TYPE_UINT32 ctx key "le_bytes 4 (unat v)"]) (simp_all add: gguf_set_val_u32_def scalar_ok_def)

lemma written_context_size:
  assumes "(gguf_step P)\<^sup>*\<^sup>* gguf_init_empty ctx"
    and "gguf_set_val_str ctx ''general.architecture'' arch = Some ctx1" and "text_ok P ''general.architecture''" and "text_ok P (c_str arch)"
    and "gguf_set_val_u32 ctx1 (c_str arch @ ''.context_length'') n = Some ctx2" and "text_ok P (c_str arch @ ''.context_length'')"
    and "int (length (gc_kv ctx2)) < 2 ^ 63" and "int (length (gc_kv ctx2)) \<le> 0xFFFFFFFFFFFFFFFF div int (pl_sizeof_kv P)"
    and "int (length (gc_info ctx2)) < 2 ^ 63"
    and "int (length (gc_info ctx2)) \<le> 0xFFFFFFFFFFFFFFFF div int (pl_sizeof_tensor_info P)"
    and "gguf_write_to_file ctx2 only_meta = Some model" and "length model + unat (gc_alignment ctx2) \<le> 2 ^ 64"
  shows "\<exists>h. getGGUFContextNativeHandle P (Some model) = Some h \<and> getContextSize ea h = Returned (Some (uint n))"
proof -
  let ?arch = "''general.architecture''" and ?len = "c_str arch @ ''.context_length''"
  have inv: "gguf_inv P ctx"
    using assms(1) by (induction rule: rtranclp_induct) (auto intro: gguf_inv_empty gguf_step_inv)
  have c: "c_str ?arch = ?arch" "c_str ?len = ?len" by simp_all
  have "gguf_step P ctx ctx1" using assms(2-4) c(1) by (intro step_str [of ctx ?arch arch]) simp_all
  then have inv1: "gguf_inv P ctx1" using inv by (rule gguf_step_inv)
  have "?len \<noteq> GGUF_KEY_GENERAL_ALIGNMENT" by (rule last_ne) (simp add: GGUF_KEY_GENERAL_ALIGNMENT_def)
  then have "gguf_step P ctx1 ctx2"
    apply (intro alloc_step_u32 [OF assms(5)])
     apply (subst c(2))
     apply (rule assms(6))
    apply (subst c(2))
    apply assumption
    done
  then have "gguf_inv P ctx2" using inv1 by (rule gguf_step_inv)
  then have wf: "gguf_wf P ctx2" by (rule gguf_inv_wf) (fact assms)+
  have d: "keys_distinct ctx" "keys_distinct ctx1" using inv inv1 by (simp_all add: gguf_inv_def)
  have "?len \<noteq> ?arch" by (rule last_ne) simp
  then have l2: "kv_lookup ctx2 ?arch = Some \<lparr>kv_key = ?arch, kv_is_array = False, kv_type = GGUF_TYPE_STRING,
      kv_data = [], kv_data_string = [c_str arch]\<rparr>"
    "kv_lookup ctx2 ?len = Some \<lparr>kv_key = ?len, kv_is_array = False, kv_type = GGUF_TYPE_UINT32,
      kv_data = le_bytes 4 (unat n), kv_data_string = []\<rparr>"
    using set_val_str_lookup(1) [OF d(1) assms(2), of ?arch] set_val_u32_lookup(1) [OF d(2) assms(5)] c by auto
  obtain off sz where r: "gguf_init_from_file P model = Done (ctx2\<lparr>gc_info := map file_info (gc_info ctx2),
      gc_offset := off, gc_size := sz\<rparr>)"
    using written_file [OF wf assms(11,12)] by metis
  let ?h = "ctx2\<lparr>gc_info := map file_info (gc_info ctx2), gc_offset := off, gc_size := sz\<rparr>"
  have l: "kv_lookup ?h k = kv_lookup ctx2 k" for k by (rule kv_lookup_cong) simp
  have "gguf_get_val_str ?h (gguf_find_key ?h ?arch) = Some (c_str arch)"
    using get_val_str_lookup [of ?h ?arch ?arch "c_str arch"] l2(1) l by simp
  moreover have "gguf_get_val_u32 ?h (gguf_find_key ?h ?len) = Some n"
    by (rule get_val_u32_lookup [of ?h ?len ?len n]) (use l2(2) l in simp)
  moreover have "gguf_find_key ?h ?arch \<noteq> -1" "gguf_find_key ?h ?len \<noteq> -1"
    using l2 l by (simp_all add: find_key_lookup(1))
  ultimately have "native_getContextSize (Some ?h) = Some (uint n)"
    unfolding native_getContextSize_def bind.bind_lunit Let_def by (simp only: if_False option.map bind.bind_lunit)
  moreover have "getGGUFContextNativeHandle P (Some model) = Some (Some ?h)"
    by (simp add: getGGUFContextNativeHandle_def r)
  moreover have "uint n \<noteq> -1" using uint_nonnegative [of n] by linarith
  ultimately show ?thesis by (auto simp: getContextSize_def asserted_def)
qed

text \<open>
  C8. The app finds the context size of a model. A file written from a context that was built by
  the interface, with its architecture and then its context length set, is opened by the reader of
  the app, which returns that length, whatever the other keys and the tensors are, as long as the alignment
  key was left alone, the texts and lists can be allocated and the sizes fit.
\<close>

theorem app_reads_context_size:
  assumes "(gguf_step P)\<^sup>*\<^sup>* gguf_init_empty ctx"
    and "gguf_set_val_str ctx ''general.architecture'' arch = Some ctx1" and "text_ok P ''general.architecture''" and "text_ok P (c_str arch)"
    and "gguf_set_val_u32 ctx1 (c_str arch @ ''.context_length'') n = Some ctx2" and "text_ok P (c_str arch @ ''.context_length'')"
    and "int (length (gc_kv ctx2)) < 2 ^ 63" and "int (length (gc_kv ctx2)) \<le> 0xFFFFFFFFFFFFFFFF div int (pl_sizeof_kv P)"
    and "int (length (gc_info ctx2)) < 2 ^ 63"
    and "int (length (gc_info ctx2)) \<le> 0xFFFFFFFFFFFFFFFF div int (pl_sizeof_tensor_info P)"
    and "gguf_write_to_file ctx2 only_meta = Some model" and "length model + unat (gc_alignment ctx2) \<le> 2 ^ 64"
  shows "\<exists>h. getGGUFContextNativeHandle P (Some model) = Some h \<and> getContextSize ea h = Returned (Some (uint n))"
  by (rule written_context_size) (fact assms)+

text \<open>An empty context with its architecture and a context length of 4096.\<close>

definition demo_named :: gguf_context where
  "demo_named = gguf_init_empty\<lparr>gc_kv := [\<lparr>kv_key = ''general.architecture'', kv_is_array = False, kv_type = GGUF_TYPE_STRING,
     kv_data = [], kv_data_string = [''llama'']\<rparr>]\<rparr>"

lemma demo_le_bytes: "le_bytes 4 4096 = [0, 16, 0, 0]"
proof -
  have "le_bytes (Suc (Suc (Suc (Suc 0)))) 4096 = [0, 16, 0, 0]" by simp
  moreover have "(4 :: nat) = Suc (Suc (Suc (Suc 0)))" by simp
  ultimately show ?thesis by (simp only:)
qed

lemma demo_set:
  "gguf_set_val_str gguf_init_empty ''general.architecture'' ''llama'' = Some demo_named"
  "gguf_set_val_u32 demo_named ''llama.context_length'' 4096 = Some (demo_gguf\<lparr>gc_info := []\<rparr>)"
  by (simp_all add: gguf_set_val_str_def gguf_set_val_u32_def gguf_set_val_def Let_def check_reserved_keys_def
      GGUF_KEY_GENERAL_ALIGNMENT_def emplace_back_def new_kv_def gguf_remove_key_def gguf_find_key_def demo_named_def
      gguf_init_empty_def demo_gguf_def demo_le_bytes GGUF_VERSION_def GGUF_DEFAULT_ALIGNMENT_def)

lemma demo_named_written:
  "\<exists>meta. gguf_write_to_file (demo_gguf\<lparr>gc_info := []\<rparr>) True = Some meta \<and> length meta \<le> 1000"
proof -
  let ?c = "demo_gguf\<lparr>gc_info := []\<rparr>"
  obtain kvs where kvs: "those (map write_kv (gc_kv ?c)) = Some kvs"
    using write_kvs_ok [of "gc_kv ?c"] gguf_wfD(2) [OF demo_gguf_wf] by auto
  then have len: "length (concat kvs) \<le> 200"
    by (auto simp: demo_gguf_def write_kv_def get_ne_def get_val_string_def Let_def write_type_def write_i32_def write_string_def write_u64_def)
  define buf where "buf = bytes_of GGUF_MAGIC @ write_u32 (gc_version ?c) @ write_i64 (gguf_get_n_tensors ?c) @
    write_i64 (gguf_get_n_kv ?c) @ concat kvs @ concat (map write_tensor_meta (gc_info ?c))"
  then have "length buf \<le> 500"
    using len by (simp add: GGUF_MAGIC_def write_u32_def write_i64_def)
  moreover have "length (pad 32 buf) \<le> 31 + length buf" using pad_zeros [of 32 buf] by auto
  moreover have "gguf_write_to_file ?c True = Some (pad 32 buf)"
    using kvs by (simp add: gguf_write_to_file_def gguf_write_to_buf_def write_meta_def buf_def) (simp add: demo_gguf_def)
  ultimately show ?thesis by force
qed

theorem app_reads_context_size_witness:
  "\<exists>model h. gguf_write_to_file (demo_gguf\<lparr>gc_info := []\<rparr>) True = Some model \<and>
    getGGUFContextNativeHandle demo_platform (Some model) = Some h \<and> getContextSize False h = Returned (Some 4096)"
proof -
  obtain model where f: "gguf_write_to_file (demo_gguf\<lparr>gc_info := []\<rparr>) True = Some model" "length model \<le> 1000"
    using demo_named_written by blast
  have "text_ok demo_platform ''general.architecture''" "text_ok demo_platform (c_str ''llama'')"
    "gguf_set_val_u32 demo_named (c_str ''llama'' @ ''.context_length'') 4096 = Some (demo_gguf\<lparr>gc_info := []\<rparr>)"
    using demo_set(2) by (simp_all add: text_ok_def demo_platform_def)
  note h = app_reads_context_size [OF rtranclp.rtrancl_refl demo_set(1) this]
  have "\<exists>h. getGGUFContextNativeHandle demo_platform (Some model) = Some h \<and>
      getContextSize False h = Returned (Some (uint (4096 :: uint32)))"
    by (rule h [OF _ _ _ _ _ f(1)]) (use f(2) in \<open>simp_all add: text_ok_def demo_platform_def demo_gguf_def\<close>)
  with f(1) show ?thesis by auto
qed

end
