(* ===== verification/SmolLM.thy ===== *)
theory SmolLM
  imports Chat_Engine GGUF_Reader
begin

text \<open>
  The bridge between the app's Kotlin code and its engine, \<open>smollm/src/main/cpp/smollm.cpp\<close>,
  and the class \<open>SmolLM\<close> of \<open>SmolLM.kt\<close>: loading a model with the parameters its file
  gives, the methods of a chat, and closing it.

  Engines are objects on the heap of the process, at addresses; the class holds one address, 0 when
  there is none. A Java string is given by its bytes in modified UTF-8, which contain no zero byte.
\<close>

section \<open>Objects, results\<close>

text \<open>
  An object whose \<open>loadModel\<close> threw is \<open>Some None\<close>: its address never reaches the class.
  \<open>Ended\<close> is the end of the process: a dereference of null or of a freed object, or a C++
  exception that leaves an \<open>extern "C"\<close> function.
\<close>

type_synonym 'c heap = "int \<rightharpoonup> 'c llm option"

datatype java_error = IllegalState llm_error | Assertion

datatype 'a java = Value 'a | Raised java_error | Ended

definition on_object :: "'c heap \<Rightarrow> int \<Rightarrow> ('c llm \<Rightarrow> 'a java \<times> 'c llm) \<Rightarrow> 'a java \<times> 'c heap" where
  "on_object h p f =
     (case h p of
        Some (Some s) \<Rightarrow> (let (r, s) = f s in (r, h(p \<mapsto> Some s)))
      | _ \<Rightarrow> (Ended, h))"

section \<open>The bridge\<close>

text \<open>The address that \<open>new\<close> returns is an argument.\<close>

definition native_loadModel ::
  "'c engine \<Rightarrow> (string \<Rightarrow> bool \<Rightarrow> bool \<Rightarrow> 'm option) \<Rightarrow> ('m \<Rightarrow> uint32 \<Rightarrow> int \<Rightarrow> 'c option) \<Rightarrow>
   int \<Rightarrow> string \<Rightarrow> load_params \<Rightarrow> 'c heap \<Rightarrow> int java \<times> 'c heap" where
  "native_loadModel E load_file init a modelPath p h =
     (case loadModel E load_file init modelPath p of
        Inl error \<Rightarrow> (Raised (IllegalState error), h(a \<mapsto> None))
      | Inr s \<Rightarrow> (Value a, h(a \<mapsto> Some s)))"

definition native_addChatMessage :: "int \<Rightarrow> string \<Rightarrow> string \<Rightarrow> 'c heap \<Rightarrow> unit java \<times> 'c heap" where
  "native_addChatMessage modelPtr message r h =
     on_object h modelPtr (\<lambda>s. (Value (), addChatMessage message r s))"

definition native_getResponseGenerationSpeed :: "int \<Rightarrow> 'c heap \<Rightarrow> rat option java \<times> 'c heap" where
  "native_getResponseGenerationSpeed modelPtr h = on_object h modelPtr (\<lambda>s. (Value (getResponseGenerationTime s), s))"

definition native_getContextSizeUsed :: "int \<Rightarrow> 'c heap \<Rightarrow> int java \<times> 'c heap" where
  "native_getContextSizeUsed modelPtr h = on_object h modelPtr (\<lambda>s. (Value (getContextSizeUsed s), s))"

definition native_close :: "int \<Rightarrow> 'c heap \<Rightarrow> unit java \<times> 'c heap" where
  "native_close modelPtr h =
     (if modelPtr = 0 then (Value (), h)
      else if h modelPtr = None then (Ended, h)
      else (Value (), h(modelPtr := None)))"

definition native_startCompletion :: "'c engine \<Rightarrow> int \<Rightarrow> string \<Rightarrow> 'c heap \<Rightarrow> unit java \<times> 'c heap" where
  "native_startCompletion E modelPtr prompt h =
     on_object h modelPtr (\<lambda>s. case startCompletion E prompt s of
         (Inl error, s) \<Rightarrow> (Ended, s)
       | (Inr _, s) \<Rightarrow> (Value (), s))"

definition native_completionLoop :: "'c engine \<Rightarrow> int \<Rightarrow> int \<Rightarrow> int \<Rightarrow> 'c heap \<Rightarrow> string java \<times> 'c heap" where
  "native_completionLoop E t_start t_end modelPtr h =
     on_object h modelPtr (\<lambda>s. case completionLoop E t_start t_end s of
         (Inl error, s) \<Rightarrow> (Raised (IllegalState error), s)
       | (Inr piece, s) \<Rightarrow> (Value (c_str piece), s))"

definition native_stopCompletion :: "'c engine \<Rightarrow> int \<Rightarrow> 'c heap \<Rightarrow> unit java \<times> 'c heap" where
  "native_stopCompletion E modelPtr h =
     on_object h modelPtr (\<lambda>s. case stopCompletion E s of
         (Inl error, s) \<Rightarrow> (Ended, s)
       | (Inr _, s) \<Rightarrow> (Value (), s))"

text \<open>An array may be null, and so may each of its elements.\<close>

definition native_setStopWords :: "int \<Rightarrow> string option list option \<Rightarrow> 'c heap \<Rightarrow> unit java \<times> 'c heap" where
  "native_setStopWords modelPtr words h =
     (case words of
        None \<Rightarrow> (Value (), h)
      | Some ws \<Rightarrow>
          if modelPtr = 0 then (Value (), h)
          else on_object h modelPtr (\<lambda>s. (Value (), setStopWords (map the (filter (\<lambda>w. w \<noteq> None) ws)) s)))"

section \<open>The class\<close>

type_synonym 'c smol = "int \<times> 'c heap"

text \<open>Sequencing: a result that is not a value ends a method.\<close>

definition java_bind :: "'a java \<times> 'h \<Rightarrow> ('a \<Rightarrow> 'h \<Rightarrow> 'b java \<times> 'h) \<Rightarrow> 'b java \<times> 'h" where
  "java_bind r f = (case r of (Value x, h) \<Rightarrow> f x h | (Raised e, h) \<Rightarrow> (Raised e, h) | (Ended, h) \<Rightarrow> (Ended, h))"

text \<open>\<open>verifyHandle\<close> and then a call of the bridge; \<open>ea\<close> says whether \<open>assert\<close> is enabled.\<close>

definition verified :: "bool \<Rightarrow> 'c smol \<Rightarrow> (int \<Rightarrow> 'c heap \<Rightarrow> 'a java \<times> 'c heap) \<Rightarrow> 'a java \<times> 'c smol" where
  "verified ea st f =
     (let (nativePtr, h) = st in
      if ea \<and> nativePtr = 0 then (Raised Assertion, st)
      else let (r, h) = f nativePtr h in (r, (nativePtr, h)))"

record inference_params =
  ip_minP :: uint32
  ip_temperature :: uint32
  ip_storeChats :: bool
  ip_contextSize :: "int option"
  ip_chatTemplate :: "string option"
  ip_numThreads :: int
  ip_useMmap :: bool
  ip_useMlock :: bool

definition default_contextSize :: int where "default_contextSize = 1024"

definition default_chatTemplate :: string where
  "default_chatTemplate = ''{% for message in messages %}{% if loop.first and messages[0]['role'] != 'system' %}{{ '<|im_start|>system You are a helpful AI assistant named SmolLM, trained by Hugging Face<|im_end|> ' }}{% endif %}{{'<|im_start|>' + message['role'] + ' ' + message['content'] + '<|im_end|>' + ' '}}{% endfor %}{% if add_generation_prompt %}{{ '<|im_start|>assistant ' }}{% endif %}''"

text \<open>\<open>?:\<close> on a nullable value.\<close>

definition elvis :: "'a option \<Rightarrow> 'a \<Rightarrow> 'a" where
  "elvis x y = (case x of Some x \<Rightarrow> x | None \<Rightarrow> y)"

definition chosen_params :: "inference_params \<Rightarrow> int \<Rightarrow> string \<Rightarrow> load_params" where
  "chosen_params params modelContextSize modelChatTemplate =
     \<lparr>lp_minP = ip_minP params, lp_temperature = ip_temperature params, lp_storeChats = ip_storeChats params,
      lp_contextSize = elvis (ip_contextSize params) modelContextSize,
      lp_chatTemplate = elvis (ip_chatTemplate params) modelChatTemplate,
      lp_nThreads = ip_numThreads params, lp_useMmap = ip_useMmap params, lp_useMlock = ip_useMlock params\<rparr>"

definition of_kotlin :: "'a kotlin \<Rightarrow> 'h \<Rightarrow> 'a java \<times> 'h" where
  "of_kotlin r h = (case r of AssertionError \<Rightarrow> (Raised Assertion, h) | Killed \<Rightarrow> (Ended, h) | Returned x \<Rightarrow> (Value x, h))"

definition load ::
  "bool \<Rightarrow> platform \<Rightarrow> (string \<Rightarrow> byte list option) \<Rightarrow> 'c engine \<Rightarrow> (string \<Rightarrow> bool \<Rightarrow> bool \<Rightarrow> 'm option) \<Rightarrow>
   ('m \<Rightarrow> uint32 \<Rightarrow> int \<Rightarrow> 'c option) \<Rightarrow> int \<Rightarrow> string \<Rightarrow> inference_params \<Rightarrow> 'c smol \<Rightarrow> unit java \<times> 'c smol" where
  "load ea P files E load_file init a modelPath params st =
     (case getGGUFContextNativeHandle P (files modelPath) of
        None \<Rightarrow> (Ended, st)
      | Some reader \<Rightarrow>
          java_bind (of_kotlin (getContextSize ea reader) st) (\<lambda>contextSize st.
          java_bind (of_kotlin (getChatTemplate ea reader) st) (\<lambda>template (nativePtr, h).
            case native_loadModel E load_file init a modelPath
                (chosen_params params (elvis contextSize default_contextSize) (elvis template default_chatTemplate)) h of
              (Value p, h) \<Rightarrow> (Value (), (p, h))
            | (Raised e, h) \<Rightarrow> (Raised e, (nativePtr, h))
            | (Ended, h) \<Rightarrow> (Ended, (nativePtr, h)))))"

definition addUserMessage :: "bool \<Rightarrow> string \<Rightarrow> 'c smol \<Rightarrow> unit java \<times> 'c smol" where
  "addUserMessage ea message st = verified ea st (\<lambda>p. native_addChatMessage p message ''user'')"

definition addSystemPrompt :: "bool \<Rightarrow> string \<Rightarrow> 'c smol \<Rightarrow> unit java \<times> 'c smol" where
  "addSystemPrompt ea prompt st = verified ea st (\<lambda>p. native_addChatMessage p prompt ''system'')"

definition addAssistantMessage :: "bool \<Rightarrow> string \<Rightarrow> 'c smol \<Rightarrow> unit java \<times> 'c smol" where
  "addAssistantMessage ea message st = verified ea st (\<lambda>p. native_addChatMessage p message ''assistant'')"

definition getResponseGenerationSpeed :: "bool \<Rightarrow> 'c smol \<Rightarrow> rat option java \<times> 'c smol" where
  "getResponseGenerationSpeed ea st = verified ea st native_getResponseGenerationSpeed"

definition getContextLengthUsed :: "bool \<Rightarrow> 'c smol \<Rightarrow> int java \<times> 'c smol" where
  "getContextLengthUsed ea st = verified ea st native_getContextSizeUsed"

text \<open>
  The loop of a response over the readings of the clock; \<open>None\<close> while it goes on. The pieces
  are emitted, or collected.
\<close>

fun pieces_loop :: "'c engine \<Rightarrow> (int \<times> int) list \<Rightarrow> int \<Rightarrow> string list \<Rightarrow> 'c heap \<Rightarrow>
    (string list java \<times> 'c heap) option" where
  "pieces_loop E [] p acc h = None"
| "pieces_loop E ((t0, t1) # ts) p acc h =
     (case native_completionLoop E t0 t1 p h of
        (Value piece, h) \<Rightarrow> if piece = ''[EOG]'' then Some (Value acc, h) else pieces_loop E ts p (acc @ [piece]) h
      | (Raised e, h) \<Rightarrow> Some (Raised e, h)
      | (Ended, h) \<Rightarrow> Some (Ended, h))"

definition respond :: "'c engine \<Rightarrow> (int \<times> int) list \<Rightarrow> string \<Rightarrow> int \<Rightarrow> 'c heap \<Rightarrow> (string list java \<times> 'c heap) option" where
  "respond E ts prompt p h =
     (case native_startCompletion E p prompt h of
        (Value _, h) \<Rightarrow>
          map_option (\<lambda>r. java_bind r (\<lambda>pieces h. java_bind (native_stopCompletion E p h) (\<lambda>_ h. (Value pieces, h))))
            (pieces_loop E ts p [] h)
      | (Raised e, h) \<Rightarrow> Some (Raised e, h)
      | (Ended, h) \<Rightarrow> Some (Ended, h))"

definition verified_loop :: "bool \<Rightarrow> 'c smol \<Rightarrow> (int \<Rightarrow> 'c heap \<Rightarrow> ('a java \<times> 'c heap) option) \<Rightarrow> ('a java \<times> 'c smol) option" where
  "verified_loop ea st f =
     (let (nativePtr, h) = st in
      if ea \<and> nativePtr = 0 then Some (Raised Assertion, st)
      else map_option (\<lambda>(r, h). (r, (nativePtr, h))) (f nativePtr h))"

definition getResponse :: "bool \<Rightarrow> 'c engine \<Rightarrow> (int \<times> int) list \<Rightarrow> string \<Rightarrow> 'c smol \<Rightarrow> (string java \<times> 'c smol) option" where
  "getResponse ea E ts query st =
     map_option (\<lambda>r. java_bind r (\<lambda>pieces st. (Value (concat pieces), st)))
       (verified_loop ea st (respond E ts query))"

text \<open>The prompt of \<open>getResponseAsFlow\<close>, which takes the query for a password.\<close>

definition password_prompt :: "string \<Rightarrow> string" where
  "password_prompt query =
     ''<|system|>'' @ nl @ ''You strengthen passwords while preserving their meaning. Always use 4+ techniques: mixed case, symbols, numbers in unexpected positions. Target 10-15 characters.<|end|>'' @ nl @
     ''<|user|>'' @ nl @ ''Strengthen this password keeping its meaning. Use 4+ techniques: mixed case, symbols, numbers in unexpected positions. 10-15 chars: '' @ query @ ''<|end|>'' @ nl @
     ''<|assistant|>'' @ nl"

definition getResponseAsFlow :: "bool \<Rightarrow> 'c engine \<Rightarrow> (int \<times> int) list \<Rightarrow> string \<Rightarrow> 'c smol \<Rightarrow> (string list java \<times> 'c smol) option" where
  "getResponseAsFlow ea E ts query st = verified_loop ea st (respond E ts (password_prompt query))"

text \<open>
  A flow whose collector cancels it: \<open>emit\<close> does not return from the last of the pieces it was
  given, one for each reading of the clock, and \<open>stopCompletion\<close> is not called. \<open>None\<close> if the flow
  does not come to that.
\<close>

fun pieces_cancelled :: "'c engine \<Rightarrow> (int \<times> int) list \<Rightarrow> int \<Rightarrow> 'c heap \<Rightarrow> 'c heap option" where
  "pieces_cancelled E [] p h = Some h"
| "pieces_cancelled E ((t0, t1) # ts) p h =
     (case native_completionLoop E t0 t1 p h of
        (Value piece, h) \<Rightarrow> if piece = ''[EOG]'' then None else pieces_cancelled E ts p h
      | _ \<Rightarrow> None)"

definition flow_cancelled :: "bool \<Rightarrow> 'c engine \<Rightarrow> (int \<times> int) list \<Rightarrow> string \<Rightarrow> 'c smol \<Rightarrow> 'c smol option" where
  "flow_cancelled ea E ts query st =
     (let (nativePtr, h) = st in
      if ts = [] \<or> (ea \<and> nativePtr = 0) then None
      else (case native_startCompletion E nativePtr (password_prompt query) h of
              (Value _, h) \<Rightarrow> map_option (\<lambda>h. (nativePtr, h)) (pieces_cancelled E ts nativePtr h)
            | _ \<Rightarrow> None))"

definition close :: "'c smol \<Rightarrow> unit java \<times> 'c smol" where
  "close st =
     (let (nativePtr, h) = st in
      if nativePtr \<noteq> 0 then
        (case native_close nativePtr h of
           (Value _, h) \<Rightarrow> (Value (), (0, h))
         | (r, h) \<Rightarrow> (r, (nativePtr, h)))
      else (Value (), st))"

definition set_stop_words :: "bool \<Rightarrow> string list \<Rightarrow> 'c smol \<Rightarrow> unit java \<times> 'c smol" where
  "set_stop_words ea ws st = verified ea st (\<lambda>p. native_setStopWords p (Some (map Some ws)))"

section \<open>What a call of the bridge does to the heap\<close>

lemma run_append: "llm_run E s outs s' \<Longrightarrow> llm_run E s' outs' s'' \<Longrightarrow> llm_run E s (outs @ outs') s''"
  by (induction rule: llm_run.induct) (auto intro: llm_run.intros)

lemma run_one: "llm_step E s out s' \<Longrightarrow> llm_run E s [out] s'"
  by (auto intro: llm_run.intros)

text \<open>The heap after a call: a run of the methods of a live object, and no change for null.\<close>

definition advances :: "'c engine \<Rightarrow> int \<Rightarrow> 'c heap \<Rightarrow> 'c heap \<Rightarrow> bool" where
  "advances E p h h' =
     ((h p = None \<longrightarrow> h' = h) \<and>
      (\<forall>s. h p = Some (Some s) \<longrightarrow> (\<exists>outs s'. h' = h(p \<mapsto> Some s') \<and> llm_run E s outs s')))"

lemma advances_refl: "advances E p h h"
proof -
  have "\<exists>outs s'. h = h(p \<mapsto> Some s') \<and> llm_run E s outs s'" if "h p = Some (Some s)" for s
    using that run_nil [of E s] by (intro exI [of _ "[]"] exI [of _ s]) (simp add: fun_upd_idem)
  then show ?thesis by (simp add: advances_def)
qed

lemma advances_trans:
  assumes "advances E p h h'" and "advances E p h' h''"
  shows "advances E p h h''"
proof -
  have "\<exists>outs s''. h'' = h(p \<mapsto> Some s'') \<and> llm_run E s outs s''" if s: "h p = Some (Some s)" for s
  proof -
    obtain outs s' where s': "h' = h(p \<mapsto> Some s')" "llm_run E s outs s'"
      using assms(1) s by (auto simp: advances_def)
    then obtain outs' s'' where "h'' = h'(p \<mapsto> Some s'')" "llm_run E s' outs' s''"
      using assms(2) by (auto simp: advances_def)
    with s' run_append [OF s'(2)] show ?thesis by auto
  qed
  then show ?thesis using assms by (simp add: advances_def)
qed

text \<open>
  The contract of a function of the bridge: on a live object it is a run of the object's methods, and
  it changes nothing else; on a null pointer it changes nothing.
\<close>

locale bridge_call =
  fixes E :: "'c engine"
    and f :: "int \<Rightarrow> 'c heap \<Rightarrow> 'a java \<times> 'c heap"
  assumes live: "h p = Some (Some s) \<Longrightarrow> \<exists>outs s'. snd (f p h) = h(p \<mapsto> Some s') \<and> llm_run E s outs s'"
    and dead: "h p = None \<Longrightarrow> snd (f p h) = h"
begin

lemma advances_call: "advances E p h (snd (f p h))"
  using live dead by (simp add: advances_def)

lemma verified_advances:
  assumes "verified ea (p, h) f = (r, st')"
  shows "fst st' = p \<and> advances E p h (snd st')"
  using assms advances_call [of p h] by (auto simp: verified_def advances_refl split: if_splits prod.splits)

end

lemma method_live:
  assumes "h p = Some (Some s)" and "llm_run E s outs (snd (f s))"
  shows "\<exists>outs s'. snd (on_object h p f) = h(p \<mapsto> Some s') \<and> llm_run E s outs s'"
proof -
  have "snd (on_object h p f) = h(p \<mapsto> Some (snd (f s)))"
    using assms(1) by (simp add: on_object_def split: prod.split)
  with assms(2) show ?thesis by metis
qed

lemma method_dead: "h p = None \<Longrightarrow> snd (on_object h p f) = h"
  by (simp add: on_object_def)

interpretation add_call: bridge_call E "\<lambda>p. native_addChatMessage p m r" for E :: "'c engine" and m r
  unfolding native_addChatMessage_def
proof (unfold_locales, goal_cases)
  case (1 h p s)
  have "llm_run E s [[]] (addChatMessage m r s)" by (rule run_one) (rule add_message)
  then show ?case by (intro method_live [where h = h and p = p and s = s, OF 1]) simp
qed (rule method_dead)

interpretation speed_call: bridge_call E native_getResponseGenerationSpeed for E :: "'c engine"
  unfolding native_getResponseGenerationSpeed_def
  by unfold_locales (auto intro!: method_live [where outs = "[]"] method_dead run_nil)

interpretation used_call: bridge_call E native_getContextSizeUsed for E :: "'c engine"
  unfolding native_getContextSizeUsed_def
  by unfold_locales (auto intro!: method_live [where outs = "[]"] method_dead run_nil)

interpretation words_call: bridge_call E "\<lambda>p. native_setStopWords p ws" for E :: "'c engine" and ws
proof (unfold_locales, goal_cases)
  case (1 h p s)
  show ?case
  proof (cases "ws = None \<or> p = 0")
    case True
    then have "snd (native_setStopWords p ws h) = h(p \<mapsto> Some s)"
      using 1 by (auto simp: native_setStopWords_def fun_upd_idem split: option.split)
    then show ?thesis using run_nil by blast
  next
    case False
    let ?f = "\<lambda>s. (Value (), setStopWords (map the (filter (\<lambda>w. w \<noteq> None) (the ws))) s)"
    have "llm_run E s [[]] (snd (?f s))" unfolding snd_conv by (rule run_one) (rule set_stop_words)
    note live = method_live [where h = h and p = p and s = s and f = ?f, OF 1 this]
    have "native_setStopWords p ws h = on_object h p ?f" using False by (auto simp: native_setStopWords_def)
    with live show ?thesis by simp
  qed
qed (simp add: native_setStopWords_def method_dead split: option.split)

interpretation start_call: bridge_call E "\<lambda>p. native_startCompletion E p prompt" for E :: "'c engine" and prompt
  unfolding native_startCompletion_def
proof (unfold_locales, goal_cases)
  case (1 h p s)
  obtain r s' where r: "startCompletion E prompt s = (r, s')" by fastforce
  have "llm_run E s [[]] s'" by (rule run_one) (rule start [OF r])
  then show ?case by (intro method_live [where h = h and p = p and s = s and outs = "[[]]", OF 1]) (auto simp: r split: sum.split)
qed (simp add: method_dead)

interpretation loop_call: bridge_call E "native_completionLoop E t0 t1" for E :: "'c engine" and t0 t1
  unfolding native_completionLoop_def
proof (unfold_locales, goal_cases)
  case (1 h p s)
  obtain r s' where r: "completionLoop E t0 t1 s = (r, s')" by fastforce
  have "llm_run E s [case r of Inl _ \<Rightarrow> [] | Inr out \<Rightarrow> out] s'"
    by (cases r) (use r in \<open>auto intro: run_one loop_returns loop_throws\<close>)
  then show ?case by (intro method_live [where h = h and p = p and s = s and outs = "[case r of Inl _ \<Rightarrow> [] | Inr out \<Rightarrow> out]", OF 1]) (auto simp: r split: sum.splits)
qed (simp add: method_dead)

interpretation stop_call: bridge_call E "native_stopCompletion E" for E :: "'c engine"
  unfolding native_stopCompletion_def
proof (unfold_locales, goal_cases)
  case (1 h p s)
  obtain r s' where r: "stopCompletion E s = (r, s')" by fastforce
  have "llm_run E s [[]] s'" by (rule run_one) (rule stop [OF r])
  then show ?case by (intro method_live [where h = h and p = p and s = s and outs = "[[]]", OF 1]) (auto simp: r split: sum.split)
qed (simp add: method_dead)

section \<open>Sessions\<close>

lemma pieces_advance: "pieces_loop E ts p acc h = Some (r, h') \<Longrightarrow> advances E p h h'"
proof (induction E ts p acc h arbitrary: r h' rule: pieces_loop.induct)
  case (2 E t0 t1 ts p acc h)
  obtain r1 h1 where c: "native_completionLoop E t0 t1 p h = (r1, h1)" by fastforce
  have a: "advances E p h h1" using loop_call.advances_call [of E p h t0 t1] c by simp
  from 2 c have "h' = h1 \<or> advances E p h1 h'" by (auto split: java.splits if_splits)
  with a advances_trans [OF a] show ?case by blast
qed simp

lemma respond_advances:
  assumes "respond E ts prompt p h = Some (r, h')"
  shows "advances E p h h'"
proof -
  obtain r1 h1 where c: "native_startCompletion E p prompt h = (r1, h1)" by fastforce
  have a: "advances E p h h1" using start_call.advances_call [of E p h prompt] c by simp
  show ?thesis
  proof (cases "\<exists>x. r1 = Value x")
    case True
    then obtain r2 h2 where l: "pieces_loop E ts p [] h1 = Some (r2, h2)"
      and j: "java_bind (r2, h2) (\<lambda>pieces h. java_bind (native_stopCompletion E p h) (\<lambda>_ h. (Value pieces, h))) = (r, h')"
      using assms c by (auto simp: respond_def)
    obtain r3 h3 where s: "native_stopCompletion E p h2 = (r3, h3)" by fastforce
    have "advances E p h2 h3" using stop_call.advances_call [of E p h2] s by simp
    moreover have "h' = h2 \<or> h' = h3" using j s by (auto simp: java_bind_def split: java.splits)
    ultimately show ?thesis
      using advances_trans [OF a] advances_trans [OF pieces_advance [OF l]] pieces_advance [OF l] by blast
  next
    case False
    with assms c a show ?thesis by (auto simp: respond_def split: java.splits)
  qed
qed

lemma loop_advances:
  assumes "verified_loop ea (p, h) f = Some (r, st')" and "\<And>h r h'. f p h = Some (r, h') \<Longrightarrow> advances E p h h'"
  shows "fst st' = p \<and> advances E p h (snd st')"
  using assms by (auto simp: verified_loop_def advances_refl split: if_splits prod.splits)

lemma cancelled_advance: "pieces_cancelled E ts p h = Some h' \<Longrightarrow> advances E p h h'"
proof (induction E ts p h arbitrary: h' rule: pieces_cancelled.induct)
  case (2 E t0 t1 ts p h)
  obtain r1 h1 where c: "native_completionLoop E t0 t1 p h = (r1, h1)" by fastforce
  have a: "advances E p h h1" using loop_call.advances_call [of E p h t0 t1] c by simp
  from 2 c have "advances E p h1 h'" by (auto split: java.splits if_splits)
  with a show ?case by (rule advances_trans)
qed (simp add: advances_refl)

lemma flow_cancelled_advances:
  assumes "flow_cancelled ea E ts query (p, h) = Some st'"
  shows "fst st' = p \<and> advances E p h (snd st')"
proof -
  obtain r1 h1 where c: "native_startCompletion E p (password_prompt query) h = (r1, h1)" by fastforce
  have a: "advances E p h h1" using start_call.advances_call [of E p h "password_prompt query"] c by simp
  from assms c show ?thesis
    by (auto simp: flow_cancelled_def split: if_splits java.splits dest!: cancelled_advance intro: advances_trans [OF a])
qed

text \<open>
  One call of a method of the class that lets the process live, on a loaded or a closed model; a flow may be
  collected to its end or cancelled.
\<close>

inductive smol_step :: "bool \<Rightarrow> 'c engine \<Rightarrow> 'c smol \<Rightarrow> 'c smol \<Rightarrow> bool" for ea E where
  user_message: "addUserMessage ea m st = (r, st') \<Longrightarrow> r \<noteq> Ended \<Longrightarrow> smol_step ea E st st'"
| system_prompt: "addSystemPrompt ea m st = (r, st') \<Longrightarrow> r \<noteq> Ended \<Longrightarrow> smol_step ea E st st'"
| assistant_message: "addAssistantMessage ea m st = (r, st') \<Longrightarrow> r \<noteq> Ended \<Longrightarrow> smol_step ea E st st'"
| speed: "getResponseGenerationSpeed ea st = (r, st') \<Longrightarrow> r \<noteq> Ended \<Longrightarrow> smol_step ea E st st'"
| used: "getContextLengthUsed ea st = (r, st') \<Longrightarrow> r \<noteq> Ended \<Longrightarrow> smol_step ea E st st'"
| stop_words: "set_stop_words ea ws st = (r, st') \<Longrightarrow> r \<noteq> Ended \<Longrightarrow> smol_step ea E st st'"
| get_response: "getResponse ea E ts query st = Some (r, st') \<Longrightarrow> r \<noteq> Ended \<Longrightarrow> smol_step ea E st st'"
| response_flow: "getResponseAsFlow ea E ts query st = Some (r', st') \<Longrightarrow> r' \<noteq> Ended \<Longrightarrow> smol_step ea E st st'"
| cancelled_flow: "flow_cancelled ea E ts query st = Some st' \<Longrightarrow> smol_step ea E st st'"
| close_model: "close st = (r, st') \<Longrightarrow> r \<noteq> Ended \<Longrightarrow> smol_step ea E st st'"

inductive_cases smol_stepE: "smol_step ea E st st'"

lemma java_bind_state: "java_bind (r, st) (\<lambda>x st. (Value (g x), st)) = (r', st') \<Longrightarrow> st' = st"
  by (auto simp: java_bind_def split: java.splits)

lemma smol_step_advances:
  assumes "smol_step ea E (p, h) st'"
  shows "(fst st' = p \<and> advances E p h (snd st')) \<or> (p \<noteq> 0 \<and> h p \<noteq> None \<and> st' = (0, h(p := None)))"
  using assms
proof cases
  case (user_message m r)
  then show ?thesis using add_call.verified_advances unfolding addUserMessage_def by blast
next
  case (system_prompt m r)
  then show ?thesis using add_call.verified_advances unfolding addSystemPrompt_def by blast
next
  case (assistant_message m r)
  then show ?thesis using add_call.verified_advances unfolding addAssistantMessage_def by blast
next
  case (speed r)
  then show ?thesis using speed_call.verified_advances unfolding getResponseGenerationSpeed_def by blast
next
  case (used r)
  then show ?thesis using used_call.verified_advances unfolding getContextLengthUsed_def by blast
next
  case (stop_words ws r)
  then show ?thesis using words_call.verified_advances unfolding set_stop_words_def by blast
next
  case (get_response ts query r)
  then obtain r1 st1 where l: "verified_loop ea (p, h) (respond E ts query) = Some (r1, st1)"
    and "java_bind (r1, st1) (\<lambda>pieces st. (Value (concat pieces), st)) = (r, st')"
    by (auto simp: getResponse_def)
  then have "st' = st1" using java_bind_state by metis
  moreover have "fst st1 = p \<and> advances E p h (snd st1)" by (rule loop_advances [OF l]) (rule respond_advances)
  ultimately show ?thesis by blast
next
  case (response_flow ts query r)
  have "fst st' = p \<and> advances E p h (snd st')"
    by (rule loop_advances [OF response_flow(1) [unfolded getResponseAsFlow_def]]) (rule respond_advances)
  then show ?thesis by blast
next
  case (cancelled_flow ts query)
  then show ?thesis using flow_cancelled_advances by blast
next
  case (close_model r)
  then show ?thesis
    by (auto simp: close_def native_close_def advances_refl split: if_splits)
qed

text \<open>
  A session from a loaded model on: the object is the result of a run of its methods and nothing
  else on the heap has changed, or the model is closed and its object freed.
\<close>

lemma session_run:
  assumes "(smol_step ea E)\<^sup>*\<^sup>* (p, h) st" and "p \<noteq> 0" and "h 0 = None" and "h p = Some (Some s)"
  shows "st = (0, h(p := None)) \<or> (\<exists>outs s'. st = (p, h(p \<mapsto> Some s')) \<and> llm_run E s outs s')"
  using assms(1)
proof (induction rule: rtranclp_induct)
  case base
  have "(p, h) = (p, h(p \<mapsto> Some s))" using assms(4) by (simp add: fun_upd_idem)
  then show ?case using run_nil by blast
next
  case (step st st')
  from step.IH show ?case
  proof (elim disjE exE conjE)
    assume st: "st = (0, h(p := None))"
    have "(h(p := None)) 0 = None" using assms(3) by simp
    with smol_step_advances [of ea E 0 "h(p := None)" st'] step.hyps(2) st show ?thesis
      by (cases st') (auto simp: advances_def)
  next
    fix outs s' assume st: "st = (p, h(p \<mapsto> Some s'))" and r: "llm_run E s outs s'"
    from smol_step_advances [of ea E p "h(p \<mapsto> Some s')" st'] step.hyps(2) st
    have "(fst st' = p \<and> advances E p (h(p \<mapsto> Some s')) (snd st')) \<or> st' = (0, h(p := None))" by auto
    then show ?thesis
    proof
      assume a: "fst st' = p \<and> advances E p (h(p \<mapsto> Some s')) (snd st')"
      then obtain outs' s'' where "snd st' = h(p \<mapsto> Some s'')" "llm_run E s' outs' s''"
        by (auto simp: advances_def)
      then have "st' = (p, h(p \<mapsto> Some s''))" "llm_run E s (outs @ outs') s''"
        using a run_append [OF r] by (cases st', simp_all)
      then show ?thesis by blast
    qed blast
  qed
qed

section \<open>Loading a model\<close>

text \<open>
  The two calls of \<open>loadModel\<close> on the modelled context: a model is given by its
  hyperparameters, its context by \<open>llama_init_from_model\<close> with the parameters that
  \<open>loadModel\<close> sets.
\<close>

definition native_init :: "('g, 'r) device \<Rightarrow> 'g \<Rightarrow> 's \<Rightarrow> hparams \<Rightarrow> uint32 \<Rightarrow> int \<Rightarrow> ('s, 'g, 'r) native option" where
  "native_init dv g sm hp n_ctx n_threads =
     map_option (\<lambda>cx. (sm, Some cx)) (llama_init_from_model dv g hp (llama_context_default_params\<lparr>pr_n_ctx := n_ctx\<rparr>) False)"

lemma loadModel_InrD:
  "loadModel E load_file init path p = Inr s \<Longrightarrow>
    \<exists>model. load_file path (lp_useMmap p) (lp_useMlock p) = Some model \<and>
      init model (word_of_int (lp_contextSize p)) (lp_nThreads p) = Some (ctx s) \<and> messages s = [] \<and> response s = []"
  by (auto simp: loadModel_def split: option.splits)

lemma load_Value:
  assumes "load ea P files E load_file init a path params (p, h) = (Value (), st')"
  shows "\<exists>reader contextSize template s. getGGUFContextNativeHandle P (files path) = Some reader \<and>
    getContextSize ea reader = Returned contextSize \<and> getChatTemplate ea reader = Returned template \<and>
    loadModel E load_file init path (chosen_params params (elvis contextSize default_contextSize)
      (elvis template default_chatTemplate)) = Inr s \<and> st' = (a, h(a \<mapsto> Some s))"
  using assms
  by (auto simp: load_def java_bind_def of_kotlin_def native_loadModel_def split: option.splits kotlin.splits sum.splits)

lemma native_init_cx:
  assumes "native_init dv g sm hp c n_threads = Some x"
    and "c \<noteq> 0" and "int (unat c) + 31 \<le> POS_MAX" and "hp_causal_attn hp" and "hp_swa_type hp = LLAMA_SWA_TYPE_NONE"
    and "dv_alloc_output dv g 1"
  shows "\<exists>cx. x = (sm, Some cx) \<and> app_cx 0 cx \<and> unat (cp_n_ctx (cx_cparams cx)) = (unat c + 31) div 32 * 32"
proof -
  have "1 \<le> unat c" using assms(2) by (simp add: unat_gt_0 Suc_le_eq)
  from app_context [where c = c and hp = hp and dv = dv and g = g, unfolded if_not_P [OF assms(2)], OF this assms(3-6)]
  show ?thesis using assms(1) by (auto simp: native_init_def app_cx_def)
qed

text \<open>
  C5. The chat of the app, from the file to the cells. A model with ordinary causal attention, which the class
  has loaded with a context of \<open>n\<close> cells, asked for by the parameters, by its file or by default, is,
  after any sequence of calls of the class without a further \<open>load\<close>, whatever they return or throw,
  flows cancelled by their collector among them, and whatever the device does, as long as no call has ended
  the process: closed, with its object freed and the rest of the heap as before, or an object whose cache
  holds the positions from 0 on without a gap, with the used cells counted right, unless a failed assertion
  of the engine has ended the process.
\<close>

theorem session_keeps_cache:
  assumes "load ea P files (native_engine dv fns) load_file (native_init dv g sm) a path params (p, h) = (Value (), st1)"
    and "(smol_step ea (native_engine dv fns))\<^sup>*\<^sup>* st1 st2"
    and "a \<noteq> 0" and "h a = None" and "h 0 = None"
    and "\<And>reader contextSize. getGGUFContextNativeHandle P (files path) = Some reader \<Longrightarrow>
      getContextSize ea reader = Returned contextSize \<Longrightarrow> elvis (ip_contextSize params) (elvis contextSize default_contextSize) = n"
    and "1 \<le> n" and "n + 31 \<le> POS_MAX"
    and "\<And>hp mmap mlock. load_file path mmap mlock = Some hp \<Longrightarrow> hp_causal_attn hp \<and> hp_swa_type hp = LLAMA_SWA_TYPE_NONE"
    and "dv_alloc_output dv g 1"
  shows "st2 = (0, h) \<or>
    (\<exists>s. st2 = (a, h(a \<mapsto> Some s)) \<and>
      (snd (ctx s) = None \<or>
       (\<exists>k cx. snd (ctx s) = Some cx \<and> app_cx k cx \<and>
          llama_kv_self_used_cells (native_engine dv fns) (ctx s) = int k)))"
proof -
  obtain reader contextSize template s1 where reader: "getGGUFContextNativeHandle P (files path) = Some reader"
      "getContextSize ea reader = Returned contextSize"
    and l: "loadModel (native_engine dv fns) load_file (native_init dv g sm) path
        (chosen_params params (elvis contextSize default_contextSize) (elvis template default_chatTemplate)) = Inr s1"
    and st1: "st1 = (a, h(a \<mapsto> Some s1))"
    using load_Value [OF assms(1)] by blast
  obtain hp mmap mlock threads where hp: "load_file path mmap mlock = Some hp"
    and init: "native_init dv g sm hp (word_of_int n) threads = Some (ctx s1)"
    using loadModel_InrD [OF l] assms(6) [OF reader] by (auto simp: chosen_params_def)
  have "uint (word_of_int n :: uint32) = n"
    using assms(7,8) by (simp add: uint_word_of_int_eq take_bit_int_eq_self POS_MAX_def)
  then have n: "int (unat (word_of_int n :: uint32)) = n" by (simp add: of_nat_unat)
  then have nz: "(word_of_int n :: uint32) \<noteq> 0" using assms(7) by (auto dest: arg_cong [where f = unat])
  have "int (unat (word_of_int n :: uint32)) + 31 \<le> POS_MAX" using n assms(8) by simp
  from native_init_cx [OF init nz this] assms(9) [OF hp] assms(10)
  obtain cx where "ctx s1 = (sm, Some cx)" "app_cx 0 cx" by blast
  then have ok: "native_ok 0 (ctx s1)" by (auto simp: native_ok_def)
  have h: "(h(a \<mapsto> Some s1)) 0 = None" "(h(a \<mapsto> Some s1)) a = Some (Some s1)" "(h(a \<mapsto> Some s1))(a := None) = h"
    using assms(3-5) by (auto simp: fun_upd_idem)
  from session_run [OF assms(2) [unfolded st1] assms(3) h(1,2)] show ?thesis
  proof (elim disjE exE conjE)
    fix outs s assume st2: "st2 = (a, h(a \<mapsto> Some s1, a \<mapsto> Some s))" and r: "llm_run (native_engine dv fns) s1 outs s"
    from native_ok_used [OF chat_state.run_good [OF r ok]]
    have "snd (ctx s) = None \<or> (\<exists>k cx. snd (ctx s) = Some cx \<and> app_cx k cx \<and>
        llama_kv_self_used_cells (native_engine dv fns) (ctx s) = int k)" by blast
    with st2 show ?thesis by auto
  qed (unfold h(3), blast)
qed

text \<open>A file with a context length and no chat template, and a model on the small device.\<close>

lemma demo_opened:
  "\<exists>bytes reader. gguf_write_to_file (demo_gguf\<lparr>gc_info := []\<rparr>) True = Some bytes \<and> length bytes \<le> 1000 \<and>
    getGGUFContextNativeHandle demo_platform (Some bytes) = Some reader \<and>
    (\<forall>ea. getContextSize ea reader = Returned (Some 4096) \<and> getChatTemplate ea reader = Returned None)"
proof -
  let ?c = "demo_gguf\<lparr>gc_info := []\<rparr>"
  obtain bytes where b: "gguf_write_to_file ?c True = Some bytes" "length bytes \<le> 1000"
    using demo_named_written by blast
  have wf: "gguf_wf demo_platform ?c" using demo_gguf_wf by (simp add: gguf_wf_def gguf_meta_ok_def)
  have "length bytes + unat (gc_alignment ?c) \<le> 2 ^ 64" using b(2) by (simp add: demo_gguf_def)
  from written_file [OF wf b(1) this] obtain off sz where "gguf_init_from_file demo_platform bytes =
    Done (?c\<lparr>gc_info := map file_info (gc_info ?c), gc_offset := off, gc_size := sz\<rparr>)" by metis
  then obtain ctx where c: "gguf_init_from_file demo_platform bytes = Done ctx" "gc_kv ctx = gc_kv demo_gguf" by simp
  have "native_getContextSize (Some ctx) = Some 4096"
    by (simp add: native_getContextSize_def gguf_find_key_def c(2) demo_gguf_def gguf_get_val_str_def gguf_get_val_u32_def
        gguf_get_val_def kv_at_def gguf_get_n_kv_def get_ne_def get_val_def get_val_string_def Let_def)
  moreover have "native_getChatTemplate (Some ctx) = Some []"
    by (simp add: native_getChatTemplate_def gguf_find_key_def c(2) demo_gguf_def)
  ultimately show ?thesis
    using b c(1) by (intro exI [of _ bytes] exI [of _ "Some ctx"])
      (simp add: getGGUFContextNativeHandle_def getContextSize_def getChatTemplate_def asserted_def)
qed

definition demo_params :: "int option \<Rightarrow> inference_params" where
  "demo_params sz = \<lparr>ip_minP = 0, ip_temperature = 0, ip_storeChats = True, ip_contextSize = sz,
     ip_chatTemplate = Some ''glmedge'', ip_numThreads = 4, ip_useMmap = True, ip_useMlock = False\<rparr>"

lemma demo_load:
  assumes "getGGUFContextNativeHandle demo_platform (Some bytes) = Some reader"
    and "getContextSize ea reader = Returned (Some 4096)" and "getChatTemplate ea reader = Returned None"
    and "sz = Some 32 \<or> sz = None"
  shows "\<exists>s. load ea demo_platform (\<lambda>_. Some bytes) (native_engine demo_device demo_fns) (\<lambda>_ _ _. Some demo_hparams)
    (native_init demo_device 0 ()) a path (demo_params sz) (p, h) = (Value (), (a, h(a \<mapsto> Some s)))"
proof -
  obtain cx cx' where "native_init demo_device 0 () demo_hparams 32 4 = Some ((), Some cx)"
    "native_init demo_device 0 () demo_hparams 4096 4 = Some ((), Some cx')"
    using app_context [where c = 32 and hp = demo_hparams and dv = demo_device and g = 0]
      app_context [where c = 4096 and hp = demo_hparams and dv = demo_device and g = 0] demo_fields
    by (fastforce simp: native_init_def POS_MAX_def)
  then show ?thesis
    using assms by (elim disjE) (simp add: load_def java_bind_def of_kotlin_def native_loadModel_def loadModel_def chosen_params_def
        demo_params_def elvis_def, rule exI, rule refl)+
qed

theorem session_keeps_cache_witness:
  "\<exists>bytes s st2. load True demo_platform (\<lambda>_. Some bytes) (native_engine demo_device demo_fns) (\<lambda>_ _ _. Some demo_hparams)
      (native_init demo_device 0 ()) 1000 ''model.gguf'' (demo_params None) (0, Map.empty) = (Value (), (1000, [1000 \<mapsto> Some s])) \<and>
    addUserMessage True ''Hello'' (1000, [1000 \<mapsto> Some s]) = (Value (), st2) \<and>
    (\<exists>s. st2 = (1000, [1000 \<mapsto> Some s]) \<and> length (messages s) = 1 \<and>
      (snd (ctx s) = None \<or> (\<exists>k cx. snd (ctx s) = Some cx \<and> app_cx k cx)))"
proof -
  obtain bytes reader where b: "getGGUFContextNativeHandle demo_platform (Some bytes) = Some reader"
    "getContextSize True reader = Returned (Some 4096)" "getChatTemplate True reader = Returned None"
    using demo_opened by blast
  from demo_load [OF b, of "None" 1000 "''model.gguf''" 0 Map.empty] obtain s where
    l: "load True demo_platform (\<lambda>_. Some bytes) (native_engine demo_device demo_fns) (\<lambda>_ _ _. Some demo_hparams)
      (native_init demo_device 0 ()) 1000 ''model.gguf'' (demo_params None) (0, Map.empty) = (Value (), (1000, [1000 \<mapsto> Some s]))"
    by blast
  from load_Value [OF l] obtain p s1 where
    s1: "loadModel (native_engine demo_device demo_fns) (\<lambda>_ _ _. Some demo_hparams) (native_init demo_device 0 ())
      ''model.gguf'' p = Inr s1" and "(1000, [1000 \<mapsto> Some s]) = (1000 :: int, [1000 :: int \<mapsto> Some s1])"
    by blast
  then have "s = s1" by (auto dest: map_upd_eqD1)
  then have m: "messages s = []" using loadModel_InrD [OF s1] by blast
  define s' where "s' = addChatMessage ''Hello'' ''user'' s"
  have u: "addUserMessage True ''Hello'' (1000, [1000 \<mapsto> Some s]) = (Value (), (1000, [1000 \<mapsto> Some s']))"
    by (simp add: addUserMessage_def verified_def native_addChatMessage_def on_object_def s'_def)
  have "(smol_step True (native_engine demo_device demo_fns))\<^sup>*\<^sup>* (1000, [1000 \<mapsto> Some s]) (1000, [1000 \<mapsto> Some s'])"
    by (intro r_into_rtranclp user_message [OF u]) simp
  moreover have "elvis (ip_contextSize (demo_params None)) (elvis c default_contextSize) = 4096"
    if "getGGUFContextNativeHandle demo_platform (Some bytes) = Some r" "getContextSize True r = Returned c" for r c
    using that b by (simp add: demo_params_def elvis_def)
  ultimately have "\<exists>s2. (1000, [1000 \<mapsto> Some s']) = (1000 :: int, [1000 :: int \<mapsto> Some s2]) \<and>
      (snd (ctx s2) = None \<or> (\<exists>k cx. snd (ctx s2) = Some cx \<and> app_cx k cx))"
    using session_keeps_cache [OF l, where n = 4096] demo_fields by (fastforce simp: POS_MAX_def)
  then
  obtain s2 where "[1000 :: int \<mapsto> Some s'] = [1000 \<mapsto> Some s2]"
    "snd (ctx s2) = None \<or> (\<exists>k cx. snd (ctx s2) = Some cx \<and> app_cx k cx)"
    by auto
  then have "snd (ctx s') = None \<or> (\<exists>k cx. snd (ctx s') = Some cx \<and> app_cx k cx)"
    by (auto dest: map_upd_eqD1)
  moreover have "length (messages s') = 1" using m by (simp add: s'_def addChatMessage_def)
  ultimately show ?thesis using l u by blast
qed

text \<open>
  C35. A model opens with the context its file asks for. When the parameters leave the context size
  open, the class reads the one that was written under the architecture of the model, and the
  context it then holds has that many cells, rounded up to 32, and holds no token.
\<close>

theorem load_opens_file_context:
  assumes "(gguf_step P)\<^sup>*\<^sup>* gguf_init_empty ctx0"
    and "gguf_set_val_str ctx0 ''general.architecture'' arch = Some ctx1" and "text_ok P ''general.architecture''" and "text_ok P (c_str arch)"
    and "gguf_set_val_u32 ctx1 (c_str arch @ ''.context_length'') n = Some ctx2" and "text_ok P (c_str arch @ ''.context_length'')"
    and "int (length (gc_kv ctx2)) < 2 ^ 63" and "int (length (gc_kv ctx2)) \<le> 0xFFFFFFFFFFFFFFFF div int (pl_sizeof_kv P)"
    and "int (length (gc_info ctx2)) < 2 ^ 63"
    and "int (length (gc_info ctx2)) \<le> 0xFFFFFFFFFFFFFFFF div int (pl_sizeof_tensor_info P)"
    and "gguf_write_to_file ctx2 only_meta = Some model" and "length model + unat (gc_alignment ctx2) \<le> 2 ^ 64"
    and "files path = Some model" and "ip_contextSize params = None" and "n \<noteq> 0" and "int (unat n) + 31 \<le> POS_MAX"
    and "load ea P files (native_engine dv fns) load_file (native_init dv g sm) a path params (p, h) = (Value (), st1)"
    and "\<And>hp mmap mlock. load_file path mmap mlock = Some hp \<Longrightarrow> hp_causal_attn hp \<and> hp_swa_type hp = LLAMA_SWA_TYPE_NONE"
    and "dv_alloc_output dv g 1"
  shows "\<exists>s cx. st1 = (a, h(a \<mapsto> Some s)) \<and> ctx s = (sm, Some cx) \<and> app_cx 0 cx \<and>
    unat (cp_n_ctx (cx_cparams cx)) = (unat n + 31) div 32 * 32"
proof -
  obtain reader contextSize template s1 where r: "getGGUFContextNativeHandle P (files path) = Some reader"
      "getContextSize ea reader = Returned contextSize"
    and l: "loadModel (native_engine dv fns) load_file (native_init dv g sm) path
        (chosen_params params (elvis contextSize default_contextSize) (elvis template default_chatTemplate)) = Inr s1"
    and st1: "st1 = (a, h(a \<mapsto> Some s1))"
    using load_Value [OF assms(17)] by blast
  have "contextSize = Some (uint n)"
    using written_context_size [OF assms(1-12), of ea] r assms(13) by auto
  then obtain hp mmap mlock threads where hp: "load_file path mmap mlock = Some hp"
    and init: "native_init dv g sm hp n threads = Some (ctx s1)"
    using loadModel_InrD [OF l] assms(14) by (auto simp: chosen_params_def elvis_def)
  from native_init_cx [OF init assms(15,16)] assms(18) [OF hp] assms(19) st1 show ?thesis by blast
qed

theorem load_opens_file_context_witness:
  "\<exists>model s cx. gguf_write_to_file (demo_gguf\<lparr>gc_info := []\<rparr>) True = Some model \<and>
    load False demo_platform (\<lambda>_. Some model) (native_engine demo_device demo_fns) (\<lambda>_ _ _. Some demo_hparams)
      (native_init demo_device 0 ()) 1000 ''model.gguf'' (demo_params None) (0, Map.empty) = (Value (), (1000, [1000 \<mapsto> Some s])) \<and>
    ctx s = ((), Some cx) \<and> unat (cp_n_ctx (cx_cparams cx)) = 4096"
proof -
  obtain model reader where b: "gguf_write_to_file (demo_gguf\<lparr>gc_info := []\<rparr>) True = Some model" "length model \<le> 1000"
    "getGGUFContextNativeHandle demo_platform (Some model) = Some reader"
    "getContextSize False reader = Returned (Some 4096)" "getChatTemplate False reader = Returned None"
    using demo_opened by blast
  from demo_load [OF b(3-5), of None 1000 "''model.gguf''" 0 Map.empty] obtain s where
    l: "load False demo_platform (\<lambda>_. Some model) (native_engine demo_device demo_fns) (\<lambda>_ _ _. Some demo_hparams)
      (native_init demo_device 0 ()) 1000 ''model.gguf'' (demo_params None) (0, Map.empty) = (Value (), (1000, [1000 \<mapsto> Some s]))"
    by blast
  have t: "text_ok demo_platform ''general.architecture''" "text_ok demo_platform (c_str ''llama'')"
    "gguf_set_val_u32 demo_named (c_str ''llama'' @ ''.context_length'') 4096 = Some (demo_gguf\<lparr>gc_info := []\<rparr>)"
    "text_ok demo_platform (c_str ''llama'' @ ''.context_length'')"
    using demo_set(2) by (simp_all add: text_ok_def demo_platform_def)
  have n: "int (length (gc_kv (demo_gguf\<lparr>gc_info := []\<rparr>))) < 2 ^ 63"
    "int (length (gc_kv (demo_gguf\<lparr>gc_info := []\<rparr>))) \<le> 0xFFFFFFFFFFFFFFFF div int (pl_sizeof_kv demo_platform)"
    "int (length (gc_info (demo_gguf\<lparr>gc_info := []\<rparr>))) < 2 ^ 63"
    "int (length (gc_info (demo_gguf\<lparr>gc_info := []\<rparr>))) \<le> 0xFFFFFFFFFFFFFFFF div int (pl_sizeof_tensor_info demo_platform)"
    by (simp_all add: demo_gguf_def demo_platform_def)
  have len: "length model + unat (gc_alignment (demo_gguf\<lparr>gc_info := []\<rparr>)) \<le> 2 ^ 64" using b(2) by (simp add: demo_gguf_def)
  note opens = load_opens_file_context [OF rtranclp.rtrancl_refl demo_set(1) t n b(1) len refl _ _ _ l]
  obtain s2 cx where "(1000, [1000 \<mapsto> Some s]) = (1000 :: int, [1000 :: int \<mapsto> Some s2])" "ctx s2 = ((), Some cx)"
    "unat (cp_n_ctx (cx_cparams cx)) = 4096"
    using opens demo_fields by (force simp: demo_params_def POS_MAX_def)
  then have "ctx s = ((), Some cx)" by (auto dest: map_upd_eqD1)
  with b(1) l \<open>unat (cp_n_ctx (cx_cparams cx)) = 4096\<close> show ?thesis by blast
qed

section \<open>Exceptions at the bridge\<close>

text \<open>
  Only \<open>completionLoop\<close> and \<open>loadModel\<close> are called inside a handler: an exception of
  \<open>startCompletion\<close> or of \<open>stopCompletion\<close>, such as an unknown chat template, ends the
  process.
\<close>

lemma start_exception_ends_process:
  assumes "h p = Some (Some s)" and "startCompletion E query s = (Inl e, s')" and "p \<noteq> 0"
  shows "getResponse ea E ts query (p, h) = Some (Ended, (p, h(p \<mapsto> Some s')))"
  using assms by (simp add: getResponse_def verified_loop_def respond_def native_startCompletion_def on_object_def java_bind_def)

text \<open>
  An exception of \<open>completionLoop\<close> reaches the app, and leaves the object as it was when it was
  thrown: \<open>stopCompletion\<close> is not called, so the pending answer and the cursor stay.
\<close>

lemma loop_exception_skips_stop:
  assumes "h p = Some (Some s)" and "startCompletion E query s = (Inr (), s1)"
    and "completionLoop E t0 t1 s1 = (Inl e, s2)" and "p \<noteq> 0"
  shows "getResponse ea E ((t0, t1) # ts) query (p, h) = Some (Raised (IllegalState e), (p, h(p \<mapsto> Some s2)))"
  using assms by (simp add: getResponse_def verified_loop_def respond_def native_startCompletion_def native_completionLoop_def
      on_object_def java_bind_def)

end
