(* ===== verification/Gguf_Faults.thy ===== *)
theory Gguf_Faults
  imports Gguf_Build
begin

text \<open>
  What a file can do to its reader: metadata that no check stops and that ends the process, and
  the alignment key, which the setters store but do not apply.
\<close>

section \<open>The alignment key\<close>

text \<open>
  Setting the alignment stores the key and leaves the alignment of the context, which places
  the tensors and the data section, as it was; a reader takes the key.
\<close>

lemma alignment_set_not_applied:
  assumes "keys_distinct ctx" and "gguf_set_val_u32 ctx GGUF_KEY_GENERAL_ALIGNMENT v = Some ctx'"
  shows "gc_alignment ctx' = gc_alignment ctx" and "kv_alignment (gc_kv ctx') = Some (ucast v)"
proof -
  let ?kv = "\<lparr>kv_key = GGUF_KEY_GENERAL_ALIGNMENT, kv_is_array = False, kv_type = GGUF_TYPE_UINT32,
    kv_data = le_bytes 4 (unat v), kv_data_string = []\<rparr>"
  have c: "c_str GGUF_KEY_GENERAL_ALIGNMENT = GGUF_KEY_GENERAL_ALIGNMENT"
    by (simp add: GGUF_KEY_GENERAL_ALIGNMENT_def)
  from assms(2) have e: "emplace_back (snd (gguf_remove_key ctx GGUF_KEY_GENERAL_ALIGNMENT)) (Some ?kv) = Some ctx'"
    by (simp add: gguf_set_val_u32_def gguf_set_val_def Let_def c new_kv_def GGUF_KEY_GENERAL_ALIGNMENT_def split: if_splits)
  then show "gc_alignment ctx' = gc_alignment ctx"
    using remove_key_frame(3) [of ctx GGUF_KEY_GENERAL_ALIGNMENT] by (auto simp: emplace_back_def)
  have "kv_lookup ctx' GGUF_KEY_GENERAL_ALIGNMENT = Some ?kv"
    using emplace_lookup [OF assms(1) e, of GGUF_KEY_GENERAL_ALIGNMENT] c by simp
  moreover have "word_of_nat (le_nat (le_bytes 4 (unat v))) = v" by (rule word_le_bytes) simp
  ultimately show "kv_alignment (gc_kv ctx') = Some (ucast v)"
    by (simp add: kv_alignment_lookup get_ne_def get_val_def Let_def)
qed

text \<open>
  A model with alignment 64 and two tensors of 8 bytes: the second tensor lies at 32, where the
  first one ends when it is padded to 32; the reader pads it to 64 and refuses the file.
\<close>

definition aligned_gguf :: gguf_context where
  "aligned_gguf = gguf_init_empty\<lparr>
     gc_kv := [\<lparr>kv_key = GGUF_KEY_GENERAL_ALIGNMENT, kv_is_array = False, kv_type = GGUF_TYPE_UINT32, kv_data = [64, 0, 0, 0], kv_data_string = []\<rparr>],
     gc_info := [\<lparr>ti_t = demo_tensor ''a'', ti_offset = 0\<rparr>, \<lparr>ti_t = demo_tensor ''b'', ti_offset = 32\<rparr>]\<rparr>"

lemma le_bytes_64: "le_bytes 4 64 = [64, 0, 0, 0]"
proof -
  have "le_bytes (Suc (Suc (Suc (Suc 0)))) 64 = [64, 0, 0, 0]" by simp
  moreover have "(4 :: nat) = Suc (Suc (Suc (Suc 0)))" by simp
  ultimately show ?thesis by (simp only:)
qed

lemma aligned_gguf_built:
  "Option.bind (gguf_set_val_u32 gguf_init_empty GGUF_KEY_GENERAL_ALIGNMENT 64) (\<lambda>ctx.
   Option.bind (gguf_add_tensor ctx (demo_tensor ''a'')) (\<lambda>ctx. gguf_add_tensor ctx (demo_tensor ''b''))) = Some aligned_gguf"
proof -
  have p: "GGML_PAD (8 :: size_t) 32 = 32" by (simp add: GGML_PAD_def)
  have "is_pow2 (64 :: uint32)" by (simp add: is_pow2_def)
  moreover have "word_of_nat (le_nat [64, 0, 0, 0]) = (64 :: uint32)" by simp
  ultimately have "gguf_set_val_u32 gguf_init_empty GGUF_KEY_GENERAL_ALIGNMENT 64 = Some (gguf_init_empty\<lparr>
     gc_kv := [\<lparr>kv_key = GGUF_KEY_GENERAL_ALIGNMENT, kv_is_array = False, kv_type = GGUF_TYPE_UINT32, kv_data = [64, 0, 0, 0], kv_data_string = []\<rparr>]\<rparr>)"
    by (simp add: gguf_set_val_u32_def gguf_set_val_def Let_def check_reserved_keys_def GGUF_KEY_GENERAL_ALIGNMENT_def
        new_kv_def emplace_back_def gguf_remove_key_def gguf_find_key_def gguf_init_empty_def le_bytes_64)
  then show ?thesis
    using p demo_nbytes [of "''a''"]
    by (simp add: gguf_add_tensor_def gguf_find_tensor_def aligned_gguf_def gguf_init_empty_def Let_def padded_size_def
        GGUF_DEFAULT_ALIGNMENT_def) (simp add: demo_tensor_def)
qed

lemma aligned_gguf_meta_ok: "gguf_meta_ok demo_platform (aligned_gguf\<lparr>gc_alignment := 64\<rparr>)"
proof -
  have "kv_alignment (gc_kv aligned_gguf) = Some 64"
    by (simp add: aligned_gguf_def kv_alignment_def gguf_find_key_def GGUF_KEY_GENERAL_ALIGNMENT_def gguf_get_val_u32_def
        gguf_get_val_def kv_at_def gguf_get_n_kv_def get_ne_def get_val_def Let_def)
  moreover have "is_pow2 (64 :: size_t)" by (simp add: is_pow2_def)
  moreover have "\<forall>kv\<in>set (gc_kv aligned_gguf). kv_ok demo_platform kv"
    by (simp add: aligned_gguf_def kv_ok_def get_ne_def text_ok_def demo_platform_def GGUF_KEY_GENERAL_ALIGNMENT_def)
  moreover have "\<forall>i\<in>set (gc_info aligned_gguf). info_ok demo_platform i"
    using demo_info_ok by (simp add: aligned_gguf_def)
  moreover have "distinct (map kv_key (gc_kv aligned_gguf))" "distinct (map (\<lambda>i. t_name (ti_t i)) (gc_info aligned_gguf))"
    "gc_version aligned_gguf = 3" "length (gc_kv aligned_gguf) = 1" "length (gc_info aligned_gguf) = 2"
    by (simp_all add: aligned_gguf_def demo_tensor_def gguf_init_empty_def GGUF_VERSION_def)
  ultimately show ?thesis unfolding gguf_meta_ok_def by (simp add: demo_platform_def)
qed

lemma aligned_gguf_refused:
  "\<exists>bytes. gguf_write_to_file aligned_gguf True = Some bytes \<and> gguf_init_from_file demo_platform bytes = Fail BadOffset"
proof -
  let ?c = "aligned_gguf\<lparr>gc_alignment := 64\<rparr>"
  obtain kvs where kvs: "those (map write_kv (gc_kv ?c)) = Some kvs"
    using write_kvs_ok aligned_gguf_meta_ok unfolding gguf_meta_ok_def by blast
  define buf where "buf = bytes_of GGUF_MAGIC @ write_u32 (gc_version ?c) @ write_i64 (gguf_get_n_tensors ?c) @
    write_i64 (gguf_get_n_kv ?c) @ concat kvs @ concat (map write_tensor_meta (gc_info ?c))"
  have al: "gc_alignment aligned_gguf = 32" by (simp add: aligned_gguf_def gguf_init_empty_def GGUF_DEFAULT_ALIGNMENT_def)
  have "write_meta aligned_gguf [] = Some (pad 32 buf)"
    using kvs al by (simp add: write_meta_def buf_def gguf_get_n_tensors_def gguf_get_n_kv_def)
  moreover obtain z where z: "pad 32 buf = buf @ replicate z 0" using pad_zeros [of 32 buf] by auto
  ultimately have w: "gguf_write_to_file aligned_gguf True = Some (buf @ replicate z 0)"
    by (simp add: gguf_write_to_file_def gguf_write_to_buf_def)
  have m: "read_metadata demo_platform (buf @ replicate z 0) =
      Done ((gc_version ?c, gc_kv ?c, 64, map file_info (gc_info ?c)), replicate z 0)"
    using read_metadata_written [OF aligned_gguf_meta_ok kvs, of "replicate z 0"] by (simp add: buf_def)
  have p: "GGML_PAD (8 :: size_t) 64 = 64" by (simp add: GGML_PAD_def)
  have "data_size 64 (gc_info aligned_gguf) 0 = Fail BadOffset"
    using p demo_nbytes [of "''a''"] by (simp add: aligned_gguf_def padded_size_def)
  then have "data_size 64 (map file_info (gc_info ?c)) 0 = Fail BadOffset" by (simp add: data_size_file)
  with m have "gguf_init_from_file demo_platform (buf @ replicate z 0) = Fail BadOffset"
    by (simp add: gguf_init_from_file_def read_gguf_def rd_bind_def rd_left_def rd_outcome_def)
  with w show ?thesis by blast
qed

section \<open>Files that end the process\<close>

lemma rd_bind_crash: "m bs = Crash \<Longrightarrow> rd_bind m f bs = Crash"
  by (simp add: rd_bind_def)

lemma header_decode:
  assumes "int nt < 2 ^ 63" and "int nt \<le> 0xFFFFFFFFFFFFFFFF div int (pl_sizeof_tensor_info P)"
    and "int nk < 2 ^ 63" and "int nk \<le> 0xFFFFFFFFFFFFFFFF div int (pl_sizeof_kv P)"
  shows "read_header P (bytes_of GGUF_MAGIC @ write_u32 GGUF_VERSION @ write_i64 (int nt) @ write_i64 (int nk) @ r) =
    Done ((GGUF_VERSION, nt, nk), r)"
proof -
  have magic: "rd_bind read_magic f (bytes_of GGUF_MAGIC @ r') = f () r'" for f :: "unit \<Rightarrow> 'a reader" and r'
    by (rule rd_bind_done) (simp add: read_magic_def bind_bytes GGUF_MAGIC_def)
  have version: "rd_bind (check_version GGUF_VERSION) f bs = f () bs" for f :: "unit \<Rightarrow> 'e reader" and bs
    by (intro rd_bind_done check_version_ok) (simp add: GGUF_VERSION_def)
  show ?thesis
    unfolding read_header_def by (simp add: magic u32.decode_bind version count_decode [OF assms(1,2)] count_decode [OF assms(3,4)])
qed

lemma header_bind:
  assumes "int nt < 2 ^ 63" and "int nt \<le> 0xFFFFFFFFFFFFFFFF div int (pl_sizeof_tensor_info P)"
    and "int nk < 2 ^ 63" and "int nk \<le> 0xFFFFFFFFFFFFFFFF div int (pl_sizeof_kv P)"
  shows "rd_bind (read_header P) f (bytes_of GGUF_MAGIC @ write_u32 GGUF_VERSION @ write_i64 (int nt) @ write_i64 (int nk) @ r) =
    f (GGUF_VERSION, nt, nk) r"
  by (rule rd_bind_done) (rule header_decode [OF assms])

lemma init_crash: "read_metadata P file = Crash \<Longrightarrow> gguf_init_from_file P file = Crash"
  by (simp add: gguf_init_from_file_def read_gguf_def rd_bind_def)

text \<open>A pair with an empty key fails the assertion of its constructor, whatever follows.\<close>

lemma read_kv_empty_key:
  assumes "pl_alloc P 0" and "[] \<notin> set (map kv_key kvs)"
  shows "read_kv P kvs (write_string [] @ write_type GGUF_TYPE_UINT8 @ b # r) = Crash"
proof -
  have "rd_bind (read_scalar GGUF_TYPE_UINT8) f ([b] @ r) = f [b] r" for f :: "byte list \<Rightarrow> gguf_kv reader"
    by (rule scalar.decode_bind) (simp add: scalar_ok_def)
  then have "read_value P (int (gguf_type_val GGUF_TYPE_UINT8)) [] False 1 (b # r) = Crash"
    using read_value_emplace [of GGUF_TYPE_UINT8 P] by (simp add: read_emplace_def new_kv_def)
  then show ?thesis
    unfolding read_kv_def str.decode_try [of P "[]", unfolded text_ok_def, simplified, OF assms(1)]
    using assms(2) by (simp add: rd_when_def type_decode)
qed

theorem empty_key_ends_process:
  assumes "int nt < 2 ^ 63" and "int nt \<le> 0xFFFFFFFFFFFFFFFF div int (pl_sizeof_tensor_info P)"
    and "int (Suc k) < 2 ^ 63" and "int (Suc k) \<le> 0xFFFFFFFFFFFFFFFF div int (pl_sizeof_kv P)" and "pl_alloc P 0"
  shows "gguf_init_from_file P (bytes_of GGUF_MAGIC @ write_u32 GGUF_VERSION @ write_i64 (int nt) @ write_i64 (int (Suc k)) @
    write_string [] @ write_type GGUF_TYPE_UINT8 @ b # r) = Crash"
proof (rule init_crash)
  have "read_kvs P (Suc k) [] (write_string [] @ write_type GGUF_TYPE_UINT8 @ b # r) = Crash"
    using read_kv_empty_key [OF assms(5), of "[]"] by (simp add: rd_bind_crash)
  then show "read_metadata P (bytes_of GGUF_MAGIC @ write_u32 GGUF_VERSION @ write_i64 (int nt) @ write_i64 (int (Suc k)) @
      write_string [] @ write_type GGUF_TYPE_UINT8 @ b # r) = Crash"
    unfolding read_metadata_def header_bind [OF assms(1-4)] prod.case by (rule rd_bind_crash)
qed

text \<open>A tensor with a dimension of 0 behind the first one makes the check of the elements divide by it.\<close>

theorem zero_dimension_ends_process:
  assumes "int (Suc k) < 2 ^ 63" and "int (Suc k) \<le> 0xFFFFFFFFFFFFFFFF div int (pl_sizeof_tensor_info P)"
    and "text_ok P name" and "length name < GGML_MAX_NAME" and "0 \<le> x" and "x < 2 ^ 63"
  shows "gguf_init_from_file P (bytes_of GGUF_MAGIC @ write_u32 GGUF_VERSION @ write_i64 (int (Suc k)) @ write_i64 (int 0) @
    write_string name @ write_u32 2 @ write_i64 x @ write_i64 0 @ r) = Crash"
proof (rule init_crash)
  let ?rest = "write_string name @ write_u32 2 @ write_i64 x @ write_i64 0 @ r"
  have ne: "read_ne 2 [0, 1, 2, 3] (write_i64 x @ write_i64 0 @ r) = Done ([x, 0, 1, 1], r)"
    using assms(5,6) i64.decode [of x "write_i64 0 @ r"] i64.decode [of 0 r] by (simp add: rd_bind_def rd_when_def)
  then have ne_bind: "rd_bind (read_ne 2 [0, 1, 2, 3]) f (write_i64 x @ write_i64 0 @ r) = f [x, 0, 1, 1] r" for f :: "int list \<Rightarrow> int list reader"
    by (rule rd_bind_done)
  have "read_shape (write_u32 2 @ write_i64 x @ write_i64 0 @ r) = Crash"
    unfolding read_shape_def dims_upt
    by (simp add: u32.decode_bind ne_bind rd_when_def GGML_MAX_DIMS_def too_many_elements_def quotient_le_def rd_bind_crash
        del: read_ne.simps One_nat_def)
  then have "read_tensor_info P [] ?rest = Crash"
    unfolding read_tensor_info_def str.decode_try [OF assms(3)] using assms(4) by (simp add: rd_when_def rd_bind_crash)
  then have infos: "read_infos P (Suc k) [] ?rest = Crash" by (simp add: rd_bind_crash)
  have alignment: "rd_bind (read_alignment []) f bs = f GGUF_DEFAULT_ALIGNMENT bs" for f :: "size_t \<Rightarrow> 'd reader" and bs
    by (rule rd_bind_done) (simp add: read_alignment_def rd_bind_def kv_alignment_def gguf_find_key_def is_pow2_def
        GGUF_DEFAULT_ALIGNMENT_def rd_when_def rd_return_def rd_option_def)
  have "int 0 < 2 ^ 63" "int 0 \<le> 0xFFFFFFFFFFFFFFFF div int (pl_sizeof_kv P)"
    by (simp_all add: div_int_pos_iff)
  note header = header_bind [OF assms(1,2) this]
  show "read_metadata P (bytes_of GGUF_MAGIC @ write_u32 GGUF_VERSION @ write_i64 (int (Suc k)) @ write_i64 (int 0) @ ?rest) = Crash"
    unfolding read_metadata_def header prod.case read_kvs.simps(1) bind_return alignment by (rule rd_bind_crash) (rule infos)
qed

end
