(* ===== verification/KV_State.thy ===== *)
theory KV_State
  imports KV_Cache Gguf_Props
begin

text \<open>
  Saving and restoring the KV cache: \<open>state_write\<close> and \<open>state_read\<close> of
  \<open>llama-kv-cache-unified.cpp\<close> with their four parts, and around them the operations of
  \<open>llama-context.cpp\<close> on the state of one sequence, in a buffer or in a file. The cache has its
  tensors here: the bytes of keys and values of every layer and stream.

  A writer produces a list of items, plain bytes or a part of a tensor, that an object of the
  interface \<open>llama_io_write_i\<close> consumes. A reader runs on the cache and the bytes ahead; when
  it refuses, throws or fails an assertion, what it has changed so far stays changed.
\<close>

section \<open>The cache with its tensors\<close>

record kv_layer =
  ly_k_type :: int
  ly_v_type :: int
  ly_n_embd_k_gqa :: nat
  ly_n_embd_v_gqa :: nat
  ly_k_stream :: "byte list list"
  ly_v_stream :: "byte list list"

record kv_store =
  ks_kv :: kv_cache
  ks_v_trans :: bool
  ks_layers :: "kv_layer list"

definition ggml_row_size :: "int \<Rightarrow> nat \<Rightarrow> nat" where
  "ggml_row_size type ne = ggml_type_size type * ne div ggml_blck_size type"

definition tensor_get :: "byte list \<Rightarrow> nat \<Rightarrow> nat \<Rightarrow> byte list option" where
  "tensor_get t offset sz =
     (if sz = 0 then Some [] else if \<not> offset + sz \<le> length t then None else Some (take sz (drop offset t)))"

definition tensor_set :: "byte list \<Rightarrow> byte list \<Rightarrow> nat \<Rightarrow> byte list option" where
  "tensor_set t data offset =
     (if length data = 0 then Some t else if \<not> offset + length data \<le> length t then None
      else Some (take offset t @ data @ drop (offset + length data) t))"

definition cells_of :: "kv_store \<Rightarrow> nat \<Rightarrow> kv_cells" where
  "cells_of st s = kv_v_cells (ks_kv st) ! s"

text \<open>\<open>clear(true)\<close> also clears the buffers of the tensors.\<close>

definition zeroed :: "kv_layer \<Rightarrow> kv_layer" where
  "zeroed ly = ly\<lparr>ly_k_stream := map (map (\<lambda>_. 0)) (ly_k_stream ly), ly_v_stream := map (map (\<lambda>_. 0)) (ly_v_stream ly)\<rparr>"

definition kv_clear_data :: "kv_store \<Rightarrow> kv_store" where
  "kv_clear_data st = st\<lparr>ks_kv := kv_clear (ks_kv st), ks_layers := map zeroed (ks_layers st)\<rparr>"

section \<open>Writing\<close>

datatype io_item = Write "byte list" | Write_Tensor "byte list" nat nat

text \<open>The ranges of the cells to save: one step of the loop, and the loop.\<close>

type_synonym range_state = "(nat \<times> nat) list \<times> nat \<times> nat"

definition range_step :: "(nat \<Rightarrow> bool) \<Rightarrow> nat \<Rightarrow> nat \<Rightarrow> range_state \<Rightarrow> range_state" where
  "range_step sel sz i st =
     (let (cr, cell_count, cell_range_begin) = st in
      if sel i then (cr, cell_count + 1, if cell_range_begin = sz then i else cell_range_begin)
      else if cell_range_begin \<noteq> sz then (cr @ [(cell_range_begin, i)], cell_count, sz)
      else (cr, cell_count, cell_range_begin))"

definition saved_cell :: "kv_cells \<Rightarrow> llama_seq_id \<Rightarrow> nat \<Rightarrow> bool" where
  "saved_cell cells seq_id i = (\<not> cells_is_empty cells i \<and> (seq_id = -1 \<or> cells_seq_has cells i (nat seq_id)))"

definition cell_ranges :: "(nat \<Rightarrow> bool) \<Rightarrow> nat \<Rightarrow> (nat \<times> nat) list \<times> nat" where
  "cell_ranges sel sz =
     (let (cr, cell_count, cell_range_begin) = fold (range_step sel sz) [0..<sz] ([], 0, sz) in
      (if cell_range_begin \<noteq> sz then cr @ [(cell_range_begin, sz)] else cr, cell_count))"

definition range_cells :: "(nat \<times> nat) list \<Rightarrow> nat list" where
  "range_cells cr = concat (map (\<lambda>(a, b). [a..<b]) cr)"

definition write_cell_meta :: "nat \<Rightarrow> kv_cells \<Rightarrow> llama_seq_id \<Rightarrow> nat \<Rightarrow> io_item list" where
  "write_cell_meta n_seq_max cells seq_id i =
     (let seq_ids = filter (\<lambda>cur. (int cur = seq_id \<or> seq_id = -1) \<and> cells_seq_has cells i cur) [0..<n_seq_max];
          pos = cells_pos_get cells i;
          n_seq_id = length seq_ids
      in Write (write_i32 pos) # Write (write_u32 (word_of_nat n_seq_id)) # map (\<lambda>s. Write (write_i32 (int s))) seq_ids)"

definition state_write_meta :: "kv_store \<Rightarrow> nat \<Rightarrow> (nat \<times> nat) list \<Rightarrow> llama_seq_id \<Rightarrow> io_item list" where
  "state_write_meta st s cr seq_id =
     concat (map (\<lambda>(a, b). concat (map (write_cell_meta (kv_n_seq_max (ks_kv st)) (cells_of st s) seq_id) [a..<b])) cr)"

definition write_ranges :: "byte list \<Rightarrow> nat \<Rightarrow> nat \<Rightarrow> (nat \<times> nat) list \<Rightarrow> io_item list" where
  "write_ranges t offset sz cr = map (\<lambda>(a, b). Write_Tensor t ((offset + a) * sz) ((b - a) * sz)) cr"

definition write_keys :: "(nat \<times> nat) list \<Rightarrow> nat \<Rightarrow> kv_layer \<Rightarrow> io_item list" where
  "write_keys cr s ly =
     (let k_size_row = ggml_row_size (ly_k_type ly) (ly_n_embd_k_gqa ly) in
      Write (write_i32 (ly_k_type ly)) # Write (write_u64 (word_of_nat k_size_row)) #
      write_ranges (ly_k_stream ly ! s) 0 k_size_row cr)"

definition write_values :: "(nat \<times> nat) list \<Rightarrow> nat \<Rightarrow> kv_layer \<Rightarrow> io_item list" where
  "write_values cr s ly =
     (let v_size_row = ggml_row_size (ly_v_type ly) (ly_n_embd_v_gqa ly) in
      Write (write_i32 (ly_v_type ly)) # Write (write_u64 (word_of_nat v_size_row)) #
      write_ranges (ly_v_stream ly ! s) 0 v_size_row cr)"

text \<open>
  Transposed values: one range of each column. The offsets are computed in \<open>uint32_t\<close>, so that they
  wrap around, and only then widened.
\<close>

definition wrap32 :: "nat \<Rightarrow> nat" where
  "wrap32 n = n mod 2 ^ 32"

definition write_column :: "byte list \<Rightarrow> nat \<Rightarrow> nat \<Rightarrow> nat \<Rightarrow> (nat \<times> nat) list \<Rightarrow> io_item list" where
  "write_column t kv_size v_size_el j cr =
     map (\<lambda>(a, b). Write_Tensor t (wrap32 ((a + j * kv_size) * v_size_el)) ((b - a) * v_size_el)) cr"

definition write_values_trans :: "nat \<Rightarrow> (nat \<times> nat) list \<Rightarrow> nat \<Rightarrow> kv_layer \<Rightarrow> io_item list" where
  "write_values_trans kv_size cr s ly =
     (let v_size_el = ggml_type_size (ly_v_type ly) in
      Write (write_i32 (ly_v_type ly)) # Write (write_u32 (word_of_nat v_size_el)) #
      Write (write_u32 (word_of_nat (ly_n_embd_v_gqa ly))) #
      concat (map (\<lambda>j. write_column (ly_v_stream ly ! s) kv_size v_size_el j cr) [0..<ly_n_embd_v_gqa ly]))"

definition state_write_data :: "kv_store \<Rightarrow> nat \<Rightarrow> (nat \<times> nat) list \<Rightarrow> io_item list" where
  "state_write_data st s cr =
     Write (write_u32 (if ks_v_trans st then 1 else 0)) # Write (write_u32 (word_of_nat (length (ks_layers st)))) #
     concat (map (write_keys cr s) (ks_layers st)) @
     concat (map (if ks_v_trans st then write_values_trans (cells_size (cells_of st s)) cr s else write_values cr s)
       (ks_layers st))"

text \<open>One stream; \<open>None\<close> is the failed check of the count.\<close>

definition write_stream :: "kv_store \<Rightarrow> llama_seq_id \<Rightarrow> nat \<Rightarrow> io_item list option" where
  "write_stream st seq_id s =
     (let cells = cells_of st s;
          (cr, cell_count) = cell_ranges (saved_cell cells seq_id) (cells_size cells);
          cell_count_check = sum_list (map (\<lambda>(a, b). b - a) cr)
      in if cell_count \<noteq> cell_count_check then None
         else Some (Write (write_u32 (word_of_nat cell_count)) #
           (if cell_count = 0 then [] else state_write_meta st s cr seq_id @ state_write_data st s cr)))"

definition state_write :: "kv_store \<Rightarrow> llama_seq_id \<Rightarrow> io_item list option" where
  "state_write st seq_id =
     map_option (\<lambda>items. Write (write_u32 (word_of_nat (kv_n_stream (ks_kv st)))) # concat items)
       (those (map (write_stream st seq_id) [0..<kv_n_stream (ks_kv st)]))"

section \<open>What the items become\<close>

text \<open>Outcomes: a value, \<open>return false\<close>, an exception, a failed assertion.\<close>

datatype io_exception = EndOfData | StreamMismatch | RestoreFailed

datatype 'a io_result = Loaded 'a | Refused | Thrown io_exception | Aborted

text \<open>\<open>llama_io_write_dummy\<close> only counts.\<close>

definition item_size :: "io_item \<Rightarrow> nat" where
  "item_size it = (case it of Write src \<Rightarrow> length src | Write_Tensor t offset sz \<Rightarrow> sz)"

definition write_dummy :: "io_item list \<Rightarrow> nat" where
  "write_dummy items = fold (\<lambda>it size_written. size_written + item_size it) items 0"

text \<open>\<open>llama_io_write_buffer\<close>: the bytes written, the room left.\<close>

fun write_buffer :: "io_item list \<Rightarrow> byte list \<Rightarrow> nat \<Rightarrow> byte list io_result" where
  "write_buffer [] out buf_size = Loaded out"
| "write_buffer (Write src # items) out buf_size =
     (if length src > buf_size then Thrown EndOfData
      else write_buffer items (out @ src) (buf_size - length src))"
| "write_buffer (Write_Tensor t offset sz # items) out buf_size =
     (if sz > buf_size then Thrown EndOfData
      else case tensor_get t offset sz of
        None \<Rightarrow> Aborted
      | Some src \<Rightarrow> write_buffer items (out @ src) (buf_size - sz))"

text \<open>\<open>llama_io_write_file\<close>: appended to the file.\<close>

fun write_file :: "io_item list \<Rightarrow> byte list \<Rightarrow> byte list io_result" where
  "write_file [] out = Loaded out"
| "write_file (Write src # items) out = write_file items (out @ src)"
| "write_file (Write_Tensor t offset sz # items) out =
     (case tensor_get t offset sz of None \<Rightarrow> Aborted | Some src \<Rightarrow> write_file items (out @ src))"

section \<open>Reading\<close>

type_synonym 'a loader = "kv_store \<times> byte list \<Rightarrow> 'a io_result \<times> kv_store \<times> byte list"

definition ld_return :: "'a \<Rightarrow> 'a loader" where
  "ld_return x s = (Loaded x, s)"

definition ld_stop :: "'a io_result \<Rightarrow> 'a loader" where
  "ld_stop r s = (r, s)"

definition ld_bind :: "'a loader \<Rightarrow> ('a \<Rightarrow> 'b loader) \<Rightarrow> 'b loader" where
  "ld_bind m f s =
     (case m s of
        (Loaded x, s') \<Rightarrow> f x s'
      | (Refused, s') \<Rightarrow> (Refused, s')
      | (Thrown e, s') \<Rightarrow> (Thrown e, s')
      | (Aborted, s') \<Rightarrow> (Aborted, s'))"

definition ld_unless :: "bool \<Rightarrow> 'a io_result \<Rightarrow> 'a loader \<Rightarrow> 'a loader" where
  "ld_unless b r m = (if b then ld_stop r else m)"

fun ld_each :: "('b \<Rightarrow> unit loader) \<Rightarrow> 'b list \<Rightarrow> unit loader" where
  "ld_each f [] = ld_return ()"
| "ld_each f (x # xs) = ld_bind (f x) (\<lambda>_. ld_each f xs)"

fun ld_list :: "nat \<Rightarrow> 'a loader \<Rightarrow> 'a list loader" where
  "ld_list 0 m = ld_return []"
| "ld_list (Suc n) m = ld_bind m (\<lambda>x. ld_bind (ld_list n m) (\<lambda>xs. ld_return (x # xs)))"

text \<open>\<open>read\<close> and \<open>read_to\<close>: the bytes ahead, or the exception at their end.\<close>

definition ld_read :: "'a reader \<Rightarrow> 'a loader" where
  "ld_read rd s = (case rd (snd s) of Done (x, r) \<Rightarrow> (Loaded x, fst s, r) | _ \<Rightarrow> (Thrown EndOfData, s))"

definition ld_get :: "kv_store loader" where
  "ld_get s = (Loaded (fst s), s)"

definition ld_put :: "kv_store \<Rightarrow> unit loader" where
  "ld_put st s = (Loaded (), st, snd s)"

text \<open>A change of the cache that may fail an assertion.\<close>

definition ld_change :: "(kv_store \<Rightarrow> kv_store option) \<Rightarrow> unit loader" where
  "ld_change f s = (case f (fst s) of None \<Rightarrow> (Aborted, s) | Some st \<Rightarrow> (Loaded (), st, snd s))"

definition change_cells :: "nat \<Rightarrow> (kv_cells \<Rightarrow> kv_cells) \<Rightarrow> kv_store \<Rightarrow> kv_store" where
  "change_cells strm f st = st\<lparr>ks_kv := (ks_kv st)\<lparr>kv_v_cells := (kv_v_cells (ks_kv st))[strm := f (cells_of st strm)]\<rparr>\<rparr>"

definition set_head :: "nat \<Rightarrow> nat \<Rightarrow> kv_store \<Rightarrow> kv_store" where
  "set_head strm head st = st\<lparr>ks_kv := (ks_kv st)\<lparr>kv_v_heads := (kv_v_heads (ks_kv st))[strm := head]\<rparr>\<rparr>"

definition store_seq_rm :: "llama_seq_id \<Rightarrow> kv_store \<Rightarrow> kv_store option" where
  "store_seq_rm seq_id st = map_option (\<lambda>kv. st\<lparr>ks_kv := kv\<rparr>) (kv_seq_rm (ks_kv st) seq_id (-1) (-1))"

text \<open>The restore of one sequence: the position of one cell, whose sequence id is dropped.\<close>

definition read_cell_pos :: "llama_pos loader" where
  "read_cell_pos =
     ld_bind (ld_read read_i32) (\<lambda>pos.
     ld_bind (ld_read read_u32) (\<lambda>n_seq_id.
     ld_unless (n_seq_id \<noteq> 1) Refused
       (ld_bind (ld_read read_i32) (\<lambda>seq_id. ld_return pos))))"

definition restored_ubatch :: "nat \<Rightarrow> llama_seq_id \<Rightarrow> llama_pos list \<Rightarrow> llama_ubatch" where
  "restored_ubatch cell_count dest_seq_id ps =
     (fst (ubatch_reserve (new_balloc 1) cell_count 1))
       \<lparr>ub_seq_id_unq := [dest_seq_id], ub_pos := ps, ub_n_seq_id := replicate cell_count 1,
        ub_seq_id := replicate cell_count [dest_seq_id]\<rparr>"

text \<open>Placing the micro-batch, and the checks that follow.\<close>

definition place_restored :: "nat \<Rightarrow> nat \<Rightarrow> llama_seq_id \<Rightarrow> llama_ubatch \<Rightarrow> unit loader" where
  "place_restored strm cell_count dest_seq_id ubatch =
     ld_bind ld_get (\<lambda>st.
       case find_slot (ks_kv st) ubatch True of
         None \<Rightarrow> ld_stop Aborted
       | Some sinfo \<Rightarrow>
           if slot_empty sinfo then ld_stop Refused
           else case apply_ubatch (ks_kv st) sinfo ubatch of
             None \<Rightarrow> ld_stop Aborted
           | Some kv \<Rightarrow>
               (case slot_head sinfo of
                  None \<Rightarrow> ld_stop Aborted
                | Some head_cur \<Rightarrow>
                    (let st = set_head strm head_cur (st\<lparr>ks_kv := kv\<rparr>);
                         cells = cells_of st strm
                     in ld_bind (ld_put st) (\<lambda>_.
                          ld_unless (\<not> (head_cur + cell_count \<le> cells_size cells \<and>
                              cells_pos_get cells head_cur = ub_pos ubatch ! 0 \<and>
                              cells_pos_get cells (head_cur + cell_count - 1) = ub_pos ubatch ! (cell_count - 1) \<and>
                              cells_seq_has cells head_cur (nat dest_seq_id) \<and>
                              cells_seq_has cells (head_cur + cell_count - 1) (nat dest_seq_id))) Aborted
                            (ld_return ())))))"

definition read_meta_single :: "nat \<Rightarrow> nat \<Rightarrow> llama_seq_id \<Rightarrow> unit loader" where
  "read_meta_single strm cell_count dest_seq_id =
     ld_bind (ld_change (store_seq_rm dest_seq_id)) (\<lambda>_.
     ld_bind (ld_list cell_count read_cell_pos) (\<lambda>ps.
     place_restored strm cell_count dest_seq_id (restored_ubatch cell_count dest_seq_id ps)))"

text \<open>The restore of a whole cache: one cell, with all its sequences.\<close>

definition read_cell_seq :: "nat \<Rightarrow> nat \<Rightarrow> nat \<Rightarrow> unit loader" where
  "read_cell_seq strm n_seq_max i =
     ld_bind (ld_read read_i32) (\<lambda>seq_id.
     ld_unless (seq_id < 0 \<or> seq_id \<ge> int n_seq_max) Refused
       (ld_change (\<lambda>st. Some (change_cells strm (cells_seq_add i (nat seq_id)) st))))"

definition read_cell :: "nat \<Rightarrow> nat \<Rightarrow> nat \<Rightarrow> unit loader" where
  "read_cell strm n_seq_max i =
     ld_bind (ld_read read_i32) (\<lambda>pos.
     ld_bind (ld_read read_u32) (\<lambda>n_seq_id.
     ld_bind (ld_change (\<lambda>st. Some (change_cells strm (cells_pos_set i pos) st))) (\<lambda>_.
     ld_each (\<lambda>j. read_cell_seq strm n_seq_max i) [0..<unat n_seq_id])))"

definition read_meta_whole :: "nat \<Rightarrow> nat \<Rightarrow> unit loader" where
  "read_meta_whole strm cell_count =
     ld_bind ld_get (\<lambda>st.
     ld_unless (cell_count > cells_size (cells_of st strm)) Refused
       (ld_bind (ld_change (\<lambda>st. Some (kv_clear_data st))) (\<lambda>_.
        ld_bind (ld_each (read_cell strm (kv_n_seq_max (ks_kv st))) [0..<cell_count]) (\<lambda>_.
        ld_change (\<lambda>st. Some (set_head strm 0 st))))))"

definition state_read_meta :: "nat \<Rightarrow> nat \<Rightarrow> llama_seq_id \<Rightarrow> unit loader" where
  "state_read_meta strm cell_count dest_seq_id =
     (if dest_seq_id \<noteq> -1 then read_meta_single strm cell_count dest_seq_id else read_meta_whole strm cell_count)"

text \<open>Reading into a tensor: \<open>io.read\<close> and \<open>ggml_backend_tensor_set\<close>.\<close>

definition set_k :: "nat \<Rightarrow> nat \<Rightarrow> byte list \<Rightarrow> nat \<Rightarrow> kv_store \<Rightarrow> kv_store option" where
  "set_k strm l data offset st =
     map_option (\<lambda>t. st\<lparr>ks_layers := (ks_layers st)[l := (ks_layers st ! l)
         \<lparr>ly_k_stream := (ly_k_stream (ks_layers st ! l))[strm := t]\<rparr>]\<rparr>)
       (tensor_set (ly_k_stream (ks_layers st ! l) ! strm) data offset)"

definition set_v :: "nat \<Rightarrow> nat \<Rightarrow> byte list \<Rightarrow> nat \<Rightarrow> kv_store \<Rightarrow> kv_store option" where
  "set_v strm l data offset st =
     map_option (\<lambda>t. st\<lparr>ks_layers := (ks_layers st)[l := (ks_layers st ! l)
         \<lparr>ly_v_stream := (ly_v_stream (ks_layers st ! l))[strm := t]\<rparr>]\<rparr>)
       (tensor_set (ly_v_stream (ks_layers st ! l) ! strm) data offset)"

definition read_keys :: "nat \<Rightarrow> nat \<Rightarrow> nat \<Rightarrow> nat \<Rightarrow> unit loader" where
  "read_keys strm head cell_count l =
     ld_bind ld_get (\<lambda>st.
       let ly = ks_layers st ! l in
       ld_bind (ld_read read_i32) (\<lambda>k_type_i_ref.
       ld_unless (ly_k_type ly \<noteq> k_type_i_ref) Refused
         (ld_bind (ld_read read_u64) (\<lambda>k_size_row_ref.
          let k_size_row = ggml_row_size (ly_k_type ly) (ly_n_embd_k_gqa ly) in
          ld_unless (word_of_nat k_size_row \<noteq> k_size_row_ref) Refused
            (if cell_count = 0 then ld_return ()
             else ld_bind (ld_read (read_bytes (cell_count * k_size_row))) (\<lambda>data.
               ld_change (set_k strm l data (head * k_size_row))))))))"

definition read_values :: "nat \<Rightarrow> nat \<Rightarrow> nat \<Rightarrow> nat \<Rightarrow> unit loader" where
  "read_values strm head cell_count l =
     ld_bind ld_get (\<lambda>st.
       let ly = ks_layers st ! l in
       ld_bind (ld_read read_i32) (\<lambda>v_type_i_ref.
       ld_unless (ly_v_type ly \<noteq> v_type_i_ref) Refused
         (ld_bind (ld_read read_u64) (\<lambda>v_size_row_ref.
          let v_size_row = ggml_row_size (ly_v_type ly) (ly_n_embd_v_gqa ly) in
          ld_unless (word_of_nat v_size_row \<noteq> v_size_row_ref) Refused
            (if cell_count = 0 then ld_return ()
             else ld_bind (ld_read (read_bytes (cell_count * v_size_row))) (\<lambda>data.
               ld_change (set_v strm l data (head * v_size_row))))))))"

definition read_values_trans :: "nat \<Rightarrow> nat \<Rightarrow> nat \<Rightarrow> nat \<Rightarrow> unit loader" where
  "read_values_trans strm head cell_count l =
     ld_bind ld_get (\<lambda>st.
       let ly = ks_layers st ! l in
       ld_bind (ld_read read_i32) (\<lambda>v_type_i_ref.
       ld_unless (ly_v_type ly \<noteq> v_type_i_ref) Refused
         (ld_bind (ld_read read_u32) (\<lambda>v_size_el_ref.
          let v_size_el = ggml_type_size (ly_v_type ly) in
          ld_unless (v_size_el \<noteq> unat v_size_el_ref) Refused
            (ld_bind (ld_read read_u32) (\<lambda>n_embd_v_gqa_ref.
             ld_unless (ly_n_embd_v_gqa ly \<noteq> unat n_embd_v_gqa_ref) Refused
               (if cell_count = 0 then ld_return ()
                else ld_each (\<lambda>j.
                  ld_bind (ld_read (read_bytes (cell_count * v_size_el))) (\<lambda>data.
                  ld_change (set_v strm l data (wrap32 (head + j * cells_size (cells_of st strm)) * v_size_el))))
                  [0..<ly_n_embd_v_gqa ly])))))))"

definition state_read_data :: "nat \<Rightarrow> nat \<Rightarrow> unit loader" where
  "state_read_data strm cell_count =
     ld_bind ld_get (\<lambda>st.
       let head = kv_v_heads (ks_kv st) ! strm in
       ld_bind (ld_read read_u32) (\<lambda>v_trans.
       ld_bind (ld_read read_u32) (\<lambda>n_layer.
       ld_unless (unat n_layer \<noteq> length (ks_layers st)) Refused
         (ld_unless (cell_count > cells_size (cells_of st strm)) Refused
            (ld_unless (ks_v_trans st \<noteq> (v_trans \<noteq> 0)) Refused
               (ld_bind (ld_each (read_keys strm head cell_count) [0..<length (ks_layers st)]) (\<lambda>_.
                ld_each (if ks_v_trans st then read_values_trans strm head cell_count
                    else read_values strm head cell_count) [0..<length (ks_layers st)])))))))"

text \<open>One stream: what was refused is cleaned up before the exception.\<close>

definition ld_refused :: "unit loader \<Rightarrow> unit loader \<Rightarrow> unit loader" where
  "ld_refused m h s = (case m s of (Refused, s') \<Rightarrow> h s' | r \<Rightarrow> r)"

definition read_stream :: "llama_seq_id \<Rightarrow> nat \<Rightarrow> unit loader" where
  "read_stream seq_id s =
     ld_bind (ld_read read_u32) (\<lambda>count.
       let cell_count = unat count in
       if cell_count = 0 then ld_return ()
       else ld_bind ld_get (\<lambda>st.
         let strm = (if seq_id = -1 then s else stream_of (ks_kv st) seq_id) in
         ld_refused
           (ld_bind (state_read_meta strm cell_count seq_id) (\<lambda>_. state_read_data strm cell_count))
           (ld_bind (ld_change (if seq_id = -1 then (\<lambda>st. Some (kv_clear_data st)) else store_seq_rm seq_id))
              (\<lambda>_. ld_stop (Thrown RestoreFailed)))))"

definition state_read :: "llama_seq_id \<Rightarrow> unit loader" where
  "state_read seq_id =
     ld_bind ld_get (\<lambda>st.
     ld_unless (\<not> (seq_id = -1 \<or> seq_valid (ks_kv st) seq_id)) Aborted
       (ld_bind (ld_read read_u32) (\<lambda>n_stream_cur.
        ld_unless (unat n_stream_cur \<noteq> kv_n_stream (ks_kv st)) (Thrown StreamMismatch)
          (ld_each (read_stream seq_id) [0..<kv_n_stream (ks_kv st)]))))"

section \<open>The state of one sequence, in a buffer or in a file\<close>

text \<open>
  \<open>state_seq_get_size\<close>, \<open>state_seq_get_data\<close>, \<open>state_seq_set_data\<close> of the
  context, which has a memory. Exceptions are caught and give the size 0. Of a buffer the result has the
  bytes that the returned size counts.
\<close>

definition state_seq_get_size :: "kv_store \<Rightarrow> llama_seq_id \<Rightarrow> nat io_result" where
  "state_seq_get_size st seq_id =
     (case state_write st seq_id of None \<Rightarrow> Aborted | Some items \<Rightarrow> Loaded (write_dummy items))"

definition state_seq_get_data :: "kv_store \<Rightarrow> llama_seq_id \<Rightarrow> nat \<Rightarrow> (nat \<times> byte list) io_result" where
  "state_seq_get_data st seq_id sz =
     (case state_write st seq_id of
        None \<Rightarrow> Aborted
      | Some items \<Rightarrow>
          (case write_buffer items [] sz of
             Loaded dst \<Rightarrow> Loaded (length dst, dst)
           | Thrown e \<Rightarrow> Loaded (0, [])
           | _ \<Rightarrow> Aborted))"

definition state_seq_set_data :: "llama_seq_id \<Rightarrow> byte list \<Rightarrow> kv_store \<Rightarrow> nat io_result \<times> kv_store" where
  "state_seq_set_data seq_id src st =
     (case state_read seq_id (st, src) of
        (Loaded _, st', r) \<Rightarrow> (Loaded (length src - length r), st')
      | (Thrown e, st', r) \<Rightarrow> (Loaded 0, st')
      | (_, st', r) \<Rightarrow> (Aborted, st'))"

definition LLAMA_STATE_SEQ_MAGIC :: uint32 where "LLAMA_STATE_SEQ_MAGIC = 0x67677371"
definition LLAMA_STATE_SEQ_VERSION :: uint32 where "LLAMA_STATE_SEQ_VERSION = 2"

text \<open>Saving: the contents of the file and the position in it at the end.\<close>

definition state_seq_save_file :: "kv_store \<Rightarrow> llama_seq_id \<Rightarrow> llama_token list \<Rightarrow> (nat \<times> byte list) io_result" where
  "state_seq_save_file st seq_id tokens =
     (let f = write_u32 LLAMA_STATE_SEQ_MAGIC @ write_u32 LLAMA_STATE_SEQ_VERSION @
            write_u32 (word_of_nat (length tokens)) @ concat (map write_i32 tokens)
      in case state_write st seq_id of
           None \<Rightarrow> Aborted
         | Some items \<Rightarrow>
             (case write_file items f of
                Loaded f \<Rightarrow>
                  if length f \<noteq> 4 * 3 + 4 * length tokens + write_dummy items then Aborted
                  else Loaded (length f, f)
              | r \<Rightarrow> Aborted))"

text \<open>
  Loading, with the handler of \<open>llama_state_seq_load_file\<close>: the returned size, 0 for a failure,
  and the tokens, when they were read.
\<close>

definition state_seq_load_file :: "llama_seq_id \<Rightarrow> byte list \<Rightarrow> nat \<Rightarrow> kv_store \<Rightarrow>
    (nat \<times> llama_token list option) io_result \<times> kv_store" where
  "state_seq_load_file seq_id f n_token_capacity st =
     (let m = ld_bind (ld_read read_u32) (\<lambda>magic.
              ld_bind (ld_read read_u32) (\<lambda>version.
              ld_unless (magic \<noteq> LLAMA_STATE_SEQ_MAGIC \<or> version \<noteq> LLAMA_STATE_SEQ_VERSION) Refused
                (ld_bind (ld_read read_u32) (\<lambda>n_token_count.
                 ld_unless (unat n_token_count > n_token_capacity) Refused
                   (ld_read (rd_times (unat n_token_count) read_i32))))))
      in case m (st, f) of
           (Loaded tokens, st, r) \<Rightarrow>
             (case state_read seq_id (st, r) of
                (Loaded _, st', r') \<Rightarrow>
                  (let nread = length r - length r' in
                   if nread = 0 then (Loaded (0, Some tokens), st')
                   else if \<not> nread + 4 * 3 + 4 * length tokens = length f - length r' then (Aborted, st')
                   else (Loaded (length f - length r', Some tokens), st'))
              | (Thrown e, st', r') \<Rightarrow> (Loaded (0, Some tokens), st')
              | (_, st', r') \<Rightarrow> (Aborted, st'))
         | (_, st, r) \<Rightarrow> (Loaded (0, None), st))"

end
