(* ===== verification/KV_State_Rows.thy ===== *)
theory KV_State_Rows
  imports KV_State
begin

text \<open>
  The rows of keys and values in a saved state: the ranges of cells, the bytes of the items, and the
  layers, whose parts are read as they were written.
\<close>

section \<open>The ranges of saved cells\<close>

definition ranges_in :: "nat \<Rightarrow> (nat \<times> nat) list \<Rightarrow> bool" where
  "ranges_in sz cr = (\<forall>(a, b)\<in>set cr. a < b \<and> b \<le> sz)"

lemma range_cells_simps [simp]:
  "range_cells [] = []" "range_cells (cr @ cr') = range_cells cr @ range_cells cr'" "range_cells [(a, b)] = [a..<b]"
  by (simp_all add: range_cells_def)

lemma sum_ranges: "sum_list (map (\<lambda>(a, b). b - a) cr) = length (range_cells cr)"
  by (induction cr) (auto simp: range_cells_def)

lemma range_fold:
  assumes "i \<le> sz"
  shows "case fold (range_step sel sz) [0..<i] ([], 0, sz) of (cr, cell_count, first) \<Rightarrow>
    range_cells cr @ (if first = sz then [] else [first..<i]) = filter sel [0..<i] \<and>
    cell_count = length (filter sel [0..<i]) \<and> (first = sz \<or> first < i) \<and> ranges_in sz cr"
  using assms
proof (induction i)
  case (Suc i)
  then show ?case
    by (cases "fold (range_step sel sz) [0..<i] ([], 0, sz)") (auto simp: range_step_def ranges_in_def split: prod.splits; fastforce)
qed (simp add: ranges_in_def)

lemma cell_ranges_filter:
  obtains cr where "cell_ranges sel sz = (cr, length (filter sel [0..<sz]))" "range_cells cr = filter sel [0..<sz]"
    "ranges_in sz cr"
proof -
  obtain cr n first where f: "fold (range_step sel sz) [0..<sz] ([], 0, sz) = (cr, n, first)"
    by (metis prod_cases3)
  from range_fold [of sz sz sel] show ?thesis
    unfolding f by (intro that [of "if first \<noteq> sz then cr @ [(first, sz)] else cr"])
      (auto simp: cell_ranges_def f ranges_in_def)
qed

section \<open>Items as bytes\<close>

definition item_ok :: "io_item \<Rightarrow> bool" where
  "item_ok it = (case it of Write src \<Rightarrow> True | Write_Tensor t offset sz \<Rightarrow> offset + sz \<le> length t)"

definition item_bytes :: "io_item \<Rightarrow> byte list" where
  "item_bytes it = (case it of Write src \<Rightarrow> src | Write_Tensor t offset sz \<Rightarrow> take sz (drop offset t))"

definition items_bytes :: "io_item list \<Rightarrow> byte list" where
  "items_bytes items = concat (map item_bytes items)"

lemma items_bytes_simps [simp]:
  "items_bytes [] = []" "items_bytes (xs @ ys) = items_bytes xs @ items_bytes ys"
  "items_bytes (Write src # xs) = src @ items_bytes xs"
  "items_bytes (concat xss) = concat (map items_bytes xss)"
  by (simp_all add: items_bytes_def item_bytes_def) (induction xss; simp add: items_bytes_def)

lemma tensor_get_ok: "offset + sz \<le> length t \<Longrightarrow> tensor_get t offset sz = Some (take sz (drop offset t))"
  by (simp add: tensor_get_def)

lemma length_item_bytes: "item_ok it \<Longrightarrow> length (item_bytes it) = item_size it"
  by (simp add: item_ok_def item_bytes_def item_size_def split: io_item.splits)

lemma write_dummy_bytes: "list_all item_ok items \<Longrightarrow> write_dummy items = length (items_bytes items)"
proof -
  have "list_all item_ok items \<Longrightarrow> fold (\<lambda>it n. n + item_size it) items n = n + length (items_bytes items)" for n
    by (induction items arbitrary: n) (simp_all add: items_bytes_def length_item_bytes)
  then show "list_all item_ok items \<Longrightarrow> ?thesis" by (simp add: write_dummy_def)
qed

lemma write_file_bytes: "list_all item_ok items \<Longrightarrow> write_file items out = Loaded (out @ items_bytes items)"
  by (induction items out rule: write_file.induct)
    (simp_all add: item_ok_def item_bytes_def items_bytes_def tensor_get_ok)

lemma write_buffer_bytes:
  "list_all item_ok items \<Longrightarrow> write_buffer items out n =
    (if length (items_bytes items) \<le> n then Loaded (out @ items_bytes items) else Thrown EndOfData)"
  by (induction items out n rule: write_buffer.induct)
    (auto simp: item_ok_def item_bytes_def items_bytes_def tensor_get_ok)

section \<open>Rows of a tensor\<close>

definition block :: "nat \<Rightarrow> byte list \<Rightarrow> nat \<Rightarrow> byte list" where
  "block r t i = take r (drop (i * r) t)"

lemma block_upt:
  assumes "(off + b) * r \<le> length t" and "a \<le> b"
  shows "take ((b - a) * r) (drop ((off + a) * r) t) = concat (map (\<lambda>i. block r t (off + i)) [a..<b])"
  using assms
proof (induction "b - a" arbitrary: b)
  case (Suc n)
  then obtain b' where b: "b = Suc b'" "a \<le> b'" by (cases b) auto
  have "(off + b') * r \<le> (off + b) * r" unfolding b(1) by (intro mult_le_mono1) simp
  with Suc.prems(1) have le: "(off + b') * r \<le> length t" by (rule le_trans [rotated])
  have ih: "take ((b' - a) * r) (drop ((off + a) * r) t) = concat (map (\<lambda>i. block r t (off + i)) [a..<b'])"
    using Suc(1) [of b'] Suc(2) b le by simp
  have "(b - a) * r = (b' - a) * r + r" using b by (simp add: Suc_diff_le)
  moreover have "(b' - a) + (off + a) = off + b'" using b(2) by simp
  then have "(b' - a) * r + (off + a) * r = (off + b') * r" by (metis distrib_right)
  ultimately have "take ((b - a) * r) (drop ((off + a) * r) t) =
      take ((b' - a) * r) (drop ((off + a) * r) t) @ block r t (off + b')"
    by (simp only: take_add drop_drop block_def)
  with ih b show ?case by simp
qed simp

lemma write_ranges_bytes:
  assumes "ranges_in sz cr" and "(off + sz) * r \<le> length t"
  shows "items_bytes (write_ranges t off r cr) = concat (map (\<lambda>i. block r t (off + i)) (range_cells cr))"
    and "list_all item_ok (write_ranges t off r cr)"
proof -
  have in_t: "(off + b) * r \<le> length t" if "b \<le> sz" for b
    using that assms(2) by (meson add_le_cancel_left le_trans mult_le_mono1)
  show "items_bytes (write_ranges t off r cr) = concat (map (\<lambda>i. block r t (off + i)) (range_cells cr))"
    using assms(1)
  proof (induction cr)
    case (Cons p cr)
    obtain a b where p: "p = (a, b)" by fastforce
    with Cons.prems have "a \<le> b" "b \<le> sz" by (auto simp: ranges_in_def)
    with Cons p show ?case
      by (simp add: write_ranges_def items_bytes_def item_bytes_def range_cells_def ranges_in_def block_upt [OF in_t])
  qed (simp add: write_ranges_def items_bytes_def)
  show "list_all item_ok (write_ranges t off r cr)"
    using assms(1) in_t
    by (auto simp: list_all_iff write_ranges_def item_ok_def ranges_in_def simp flip: distrib_right)
qed

lemma length_block: "(i + 1) * r \<le> length t \<Longrightarrow> length (block r t i) = r"
  by (simp add: block_def)

text \<open>Writing rows into a tensor.\<close>

lemma tensor_set_blocks:
  assumes "\<forall>b\<in>set bs. length b = r" and "(h + length bs) * r \<le> length t"
  shows "\<exists>t'. tensor_set t (concat bs) (h * r) = Some t' \<and> length t' = length t \<and>
    (\<forall>i. block r t' i = (if h \<le> i \<and> i < h + length bs then bs ! (i - h) else block r t i))"
proof -
  let ?d = "concat bs"
  let ?t = "take (h * r) t @ ?d @ drop (h * r + length ?d) t"
  have ld: "length ?d = length bs * r" using assms(1) by (induction bs) auto
  have hl: "h * r + length bs * r \<le> length t" using assms(2) by (simp add: distrib_right)
  have "tensor_set t ?d (h * r) = Some ?t"
    using hl ld by (auto simp: tensor_set_def)
  moreover have "length ?t = length t" using hl ld by simp
  moreover have "block r ?t i = (if h \<le> i \<and> i < h + length bs then bs ! (i - h) else block r t i)" for i
  proof -
    have cd: "take r (drop (k * r) (concat bs)) = bs ! k" if "k < length bs" for k
      using assms(1) that
    proof (induction bs arbitrary: k)
      case (Cons b bs)
      then show ?case by (cases k) auto
    qed simp
    consider "i < h" | "h \<le> i" "i < h + length bs" | "h + length bs \<le> i" by linarith
    then show ?thesis
    proof cases
      case 1
      then have "Suc i * r \<le> h * r" by (intro mult_le_mono1) simp
      then have "i * r + r \<le> h * r" by simp
      then have "take r (drop (i * r) (take (h * r) t)) = take r (drop (i * r) t)" "r \<le> h * r - i * r" "i * r \<le> h * r"
        using 1 by (simp_all add: drop_take min_def)
      with 1 hl show ?thesis by (simp add: block_def)
    next
      case 2
      then obtain k where k: "i = h + k" "k < length bs" by (metis le_Suc_ex nat_add_left_cancel_less)
      have "Suc k * r \<le> length bs * r" using k(2) by (intro mult_le_mono1) simp
      then have "k * r + r \<le> length ?d" using ld by simp
      with k 2 hl cd [OF k(2)] show ?thesis by (simp add: block_def distrib_right)
    next
      case 3
      then have "(h + length bs) * r \<le> i * r" by (intro mult_le_mono1)
      then have "h * r + length bs * r \<le> i * r" by (simp add: distrib_right)
      with 3 hl ld show ?thesis by (simp add: block_def)
    qed
  qed
  ultimately show ?thesis by blast
qed

section \<open>Loaders\<close>

lemma ld_simps [simp]:
  "ld_bind (ld_return x) f = f x" "ld_bind ld_get g s = g (fst s) s" 
  "ld_bind (ld_put st) h s = h () (st, snd s)" "ld_unless True r m = ld_stop r" "ld_unless False r m = m"
  "ld_bind (ld_stop Refused) u s = (Refused, s)" "ld_bind (ld_stop Aborted) u s = (Aborted, s)"
  "ld_bind (ld_stop (Thrown e)) u s = (Thrown e, s)"
  by (simp_all add: fun_eq_iff ld_bind_def ld_return_def ld_get_def ld_put_def ld_unless_def ld_stop_def)

lemma ld_apply: "ld_return x s = (Loaded x, s)" "ld_stop r s = (r, s)"
  by (simp_all add: ld_return_def ld_stop_def)

lemma ld_bind_loaded: "m s = (Loaded x, s') \<Longrightarrow> ld_bind m f s = f x s'"
  by (simp add: ld_bind_def)

lemma ld_bind_thrown: "m s = (Thrown e, s') \<Longrightarrow> ld_bind m f s = (Thrown e, s')"
  by (simp add: ld_bind_def)

lemma ld_bind_assoc: "ld_bind (ld_bind m f) g = ld_bind m (\<lambda>x. ld_bind (f x) g)"
  by (auto simp: ld_bind_def fun_eq_iff split: io_result.splits prod.splits)

lemma ld_change_bind: "f st = Some st' \<Longrightarrow> ld_bind (ld_change f) g (st, r) = g () (st', r)"
  by (simp add: ld_bind_def ld_change_def)

lemma ld_each_append: "ld_each f (xs @ ys) = ld_bind (ld_each f xs) (\<lambda>_. ld_each f ys)"
  by (induction xs) (simp_all add: ld_bind_assoc)

lemma ld_each_snoc: "ld_each f (xs @ [x]) s = ld_bind (ld_each f xs) (\<lambda>_. f x) s"
  by (simp add: ld_each_append ld_bind_def ld_return_def split: io_result.splits prod.splits)

context codec
begin

lemma ld_decode: "ok x \<Longrightarrow> ld_bind (ld_read rd) f (st, enc x @ r) = f x (st, r)"
  by (simp add: ld_bind_def ld_read_def decode)

end

lemma ld_bytes: "length b = n \<Longrightarrow> ld_bind (ld_read (read_bytes n)) f (st, b @ r) = f b (st, r)"
  by (simp add: ld_bind_def ld_read_def read_bytes_append)

section \<open>Layers\<close>

definition key_row :: "nat \<Rightarrow> kv_layer \<Rightarrow> nat \<Rightarrow> byte list" where
  "key_row s ly i = block (ggml_row_size (ly_k_type ly) (ly_n_embd_k_gqa ly)) (ly_k_stream ly ! s) i"

text \<open>A value is a row, or a column when the values are transposed.\<close>

definition value_row :: "bool \<Rightarrow> nat \<Rightarrow> nat \<Rightarrow> kv_layer \<Rightarrow> nat \<Rightarrow> byte list list" where
  "value_row v_trans sz s ly i =
     (if v_trans then map (\<lambda>j. block (ggml_type_size (ly_v_type ly)) (ly_v_stream ly ! s) (j * sz + i)) [0..<ly_n_embd_v_gqa ly]
      else [block (ggml_row_size (ly_v_type ly) (ly_n_embd_v_gqa ly)) (ly_v_stream ly ! s) i])"

definition layer_ok :: "bool \<Rightarrow> nat \<Rightarrow> nat \<Rightarrow> kv_layer \<Rightarrow> bool" where
  "layer_ok v_trans sz n_stream ly =
     (ly_k_type ly \<in> {0..<GGML_TYPE_COUNT} \<and> ly_v_type ly \<in> {0..<GGML_TYPE_COUNT} \<and>
      ly_n_embd_k_gqa ly < 2 ^ 32 \<and> ly_n_embd_v_gqa ly < 2 ^ 32 \<and>
      length (ly_k_stream ly) = n_stream \<and> length (ly_v_stream ly) = n_stream \<and>
      (\<forall>t\<in>set (ly_k_stream ly). sz * ggml_row_size (ly_k_type ly) (ly_n_embd_k_gqa ly) \<le> length t) \<and>
      (\<forall>t\<in>set (ly_v_stream ly). sz * (if v_trans then ly_n_embd_v_gqa ly * ggml_type_size (ly_v_type ly)
         else ggml_row_size (ly_v_type ly) (ly_n_embd_v_gqa ly)) \<le> length t))"

definition same_shape :: "kv_layer \<Rightarrow> kv_layer \<Rightarrow> bool" where
  "same_shape ly ly' = (ly_k_type ly' = ly_k_type ly \<and> ly_v_type ly' = ly_v_type ly \<and>
     ly_n_embd_k_gqa ly' = ly_n_embd_k_gqa ly \<and> ly_n_embd_v_gqa ly' = ly_n_embd_v_gqa ly)"

text \<open>The rows of the cells from \<open>head\<close> on are those of the saved cells, the others are unchanged.\<close>

definition rows_moved :: "(nat \<Rightarrow> 'a) \<Rightarrow> nat list \<Rightarrow> nat \<Rightarrow> nat \<Rightarrow> (nat \<Rightarrow> 'a) \<Rightarrow> (nat \<Rightarrow> 'a) \<Rightarrow> bool" where
  "rows_moved src cs head sz old new =
     (\<forall>i < sz. new i = (if head \<le> i \<and> i < head + length cs then src (cs ! (i - head)) else old i))"

text \<open>
  The contract of reading one part of every layer: the part of layer \<open>l\<close> is read as it was
  written and changes nothing but that layer. The loop over the layers then restores them all.
\<close>

locale layer_part =
  fixes enc :: "kv_layer \<Rightarrow> byte list"
    and rd :: "nat \<Rightarrow> unit loader"
    and ok :: "kv_layer \<Rightarrow> kv_layer \<Rightarrow> bool"
    and fit :: "kv_store \<Rightarrow> bool"
    and restored :: "kv_layer \<Rightarrow> kv_layer \<Rightarrow> kv_layer \<Rightarrow> bool"
  assumes fit_layers: "fit st \<Longrightarrow> fit (st\<lparr>ks_layers := lys\<rparr>)"
    and part: "fit st \<Longrightarrow> l < length (ks_layers st) \<Longrightarrow> ok src (ks_layers st ! l) \<Longrightarrow>
      \<exists>ly. rd l (st, enc src @ r) = (Loaded (), st\<lparr>ks_layers := (ks_layers st)[l := ly]\<rparr>, r) \<and>
        restored src (ks_layers st ! l) ly"
begin

lemma parts_upto:
  assumes "fit st" and "length srcs = length (ks_layers st)" and "\<forall>l < length srcs. ok (srcs ! l) (ks_layers st ! l)"
    and "k \<le> length srcs"
  shows "\<exists>lys. ld_each rd [0..<k] (st, concat (map enc (take k srcs)) @ r) = (Loaded (), st\<lparr>ks_layers := lys\<rparr>, r) \<and>
    length lys = length srcs \<and> (\<forall>l < length srcs. if l < k then restored (srcs ! l) (ks_layers st ! l) (lys ! l)
      else lys ! l = ks_layers st ! l)"
  using assms(4)
proof (induction k arbitrary: r)
  case 0
  with assms(2) show ?case by (intro exI [of _ "ks_layers st"]) (simp add: ld_apply)
next
  case (Suc k)
  then obtain lys where lys: "ld_each rd [0..<k] (st, concat (map enc (take k srcs)) @ enc (srcs ! k) @ r) =
      (Loaded (), st\<lparr>ks_layers := lys\<rparr>, enc (srcs ! k) @ r)" "length lys = length srcs"
    "\<forall>l < length srcs. if l < k then restored (srcs ! l) (ks_layers st ! l) (lys ! l) else lys ! l = ks_layers st ! l"
    by force
  have k: "k < length srcs" "lys ! k = ks_layers st ! k" using Suc.prems lys(3) by auto
  with assms(3) lys(2) part [OF fit_layers [OF assms(1)], of k lys "srcs ! k" r] obtain ly where
    ly: "rd k (st\<lparr>ks_layers := lys\<rparr>, enc (srcs ! k) @ r) = (Loaded (), st\<lparr>ks_layers := lys[k := ly]\<rparr>, r)"
      "restored (srcs ! k) (ks_layers st ! k) ly" by auto
  have t: "take (Suc k) srcs = take k srcs @ [srcs ! k]" using k(1) by (rule take_Suc_conv_app_nth)
  have "ld_each rd [0..<Suc k] (st, concat (map enc (take (Suc k) srcs)) @ r) = (Loaded (), st\<lparr>ks_layers := lys[k := ly]\<rparr>, r)"
    unfolding t using lys(1) ly(1) by (simp add: ld_each_snoc ld_bind_loaded)
  with lys(2,3) ly(2) k(1) show ?case
    by (intro exI [of _ "lys[k := ly]"]) (auto simp: nth_list_update less_Suc_eq)
qed

lemma parts:
  assumes "fit st" and "length srcs = length (ks_layers st)" and "\<forall>l < length srcs. ok (srcs ! l) (ks_layers st ! l)"
  shows "\<exists>lys. ld_each rd [0..<length srcs] (st, concat (map enc srcs) @ r) = (Loaded (), st\<lparr>ks_layers := lys\<rparr>, r) \<and>
    length lys = length srcs \<and> (\<forall>l < length srcs. restored (srcs ! l) (ks_layers st ! l) (lys ! l))"
  using parts_upto [OF assms le_refl, of r] by auto

end

lemma type_size_word: "ly_v_type ly \<in> {0..<GGML_TYPE_COUNT} \<Longrightarrow> unat (word_of_nat (ggml_type_size (ly_v_type ly)) :: uint32) = ggml_type_size (ly_v_type ly)"
proof -
  assume "ly_v_type ly \<in> {0..<GGML_TYPE_COUNT}"
  then have "type_traits ! nat (ly_v_type ly) \<in> set type_traits"
    by (intro nth_mem) (simp add: length_type_traits)
  moreover have "\<forall>t\<in>set type_traits. type_size t < 2 ^ 32" by (simp add: type_traits_def traits_def removed_def)
  ultimately show ?thesis by (simp add: ggml_type_size_def unat_of_nat)
qed

text \<open>What the parts of a layer become, for the cells \<open>cs\<close> of stream \<open>s\<close>.\<close>

definition key_bytes :: "nat \<Rightarrow> nat list \<Rightarrow> kv_layer \<Rightarrow> byte list" where
  "key_bytes s cs ly = write_i32 (ly_k_type ly) @
     write_u64 (word_of_nat (ggml_row_size (ly_k_type ly) (ly_n_embd_k_gqa ly))) @ concat (map (key_row s ly) cs)"

definition value_bytes :: "nat \<Rightarrow> nat list \<Rightarrow> kv_layer \<Rightarrow> byte list" where
  "value_bytes s cs ly = write_i32 (ly_v_type ly) @
     write_u64 (word_of_nat (ggml_row_size (ly_v_type ly) (ly_n_embd_v_gqa ly))) @
     concat (map (block (ggml_row_size (ly_v_type ly) (ly_n_embd_v_gqa ly)) (ly_v_stream ly ! s)) cs)"

definition trans_bytes :: "nat \<Rightarrow> nat \<Rightarrow> nat list \<Rightarrow> kv_layer \<Rightarrow> byte list" where
  "trans_bytes sz s cs ly = write_i32 (ly_v_type ly) @ write_u32 (word_of_nat (ggml_type_size (ly_v_type ly))) @
     write_u32 (word_of_nat (ly_n_embd_v_gqa ly)) @
     concat (map (\<lambda>j. concat (map (\<lambda>i. block (ggml_type_size (ly_v_type ly)) (ly_v_stream ly ! s) (j * sz + i)) cs))
       [0..<ly_n_embd_v_gqa ly])"

lemma layer_okD:
  assumes "layer_ok v_trans sz n_stream ly" and "s < n_stream"
  shows "sz * ggml_row_size (ly_k_type ly) (ly_n_embd_k_gqa ly) \<le> length (ly_k_stream ly ! s)"
    and "\<not> v_trans \<Longrightarrow> sz * ggml_row_size (ly_v_type ly) (ly_n_embd_v_gqa ly) \<le> length (ly_v_stream ly ! s)"
    and "v_trans \<Longrightarrow> ly_n_embd_v_gqa ly * sz * ggml_type_size (ly_v_type ly) \<le> length (ly_v_stream ly ! s)"
    and "- (2 ^ 31) \<le> ly_k_type ly \<and> ly_k_type ly < 2 ^ 31" and "- (2 ^ 31) \<le> ly_v_type ly \<and> ly_v_type ly < 2 ^ 31"
    and "unat (word_of_nat (ly_n_embd_v_gqa ly) :: uint32) = ly_n_embd_v_gqa ly"
  using assms by (auto simp: layer_ok_def GGML_TYPE_COUNT_def unat_of_nat mult.commute mult.left_commute)

lemma write_keys_bytes:
  assumes "ranges_in sz cr" and "layer_ok v_trans sz n_stream ly" and "s < n_stream"
  shows "items_bytes (write_keys cr s ly) = key_bytes s (range_cells cr) ly" and "list_all item_ok (write_keys cr s ly)"
  using write_ranges_bytes [OF assms(1), of 0 "ggml_row_size (ly_k_type ly) (ly_n_embd_k_gqa ly)" "ly_k_stream ly ! s"]
    layer_okD(1) [OF assms(2,3)]
  by (simp_all add: write_keys_def key_bytes_def item_ok_def key_row_def [abs_def] Let_def)

lemma write_values_bytes:
  assumes "ranges_in sz cr" and "layer_ok False sz n_stream ly" and "s < n_stream"
  shows "items_bytes (write_values cr s ly) = value_bytes s (range_cells cr) ly"
    and "list_all item_ok (write_values cr s ly)"
  using write_ranges_bytes [OF assms(1), of 0 "ggml_row_size (ly_v_type ly) (ly_n_embd_v_gqa ly)" "ly_v_stream ly ! s"]
    layer_okD(2) [OF assms(2,3)]
  by (simp_all add: write_values_def value_bytes_def item_ok_def Let_def)

text \<open>
  What may be saved and restored without an offset that wraps around: the bytes of a column tensor are
  counted in 32 bits when it is written, its elements when it is read.
\<close>

definition write_fits :: "bool \<Rightarrow> nat \<Rightarrow> kv_layer \<Rightarrow> bool" where
  "write_fits v_trans sz ly = (v_trans \<longrightarrow> ly_n_embd_v_gqa ly * sz * ggml_type_size (ly_v_type ly) \<le> 2 ^ 32)"

definition read_fits :: "bool \<Rightarrow> nat \<Rightarrow> kv_layer \<Rightarrow> bool" where
  "read_fits v_trans sz ly = (v_trans \<longrightarrow> ly_n_embd_v_gqa ly * sz \<le> 2 ^ 32)"

lemma wrap32_le: "wrap32 n \<le> n"
  by (simp add: wrap32_def)

lemma wrap32_id: "n < 2 ^ 32 \<Longrightarrow> wrap32 n = n"
  by (simp add: wrap32_def)

lemma column_in:
  assumes "ranges_in sz cr" and "(a, b) \<in> set cr" and "j < n"
  shows "(a + j * sz) * el + (b - a) * el \<le> n * sz * el" and "0 < el \<Longrightarrow> (a + j * sz) * el < n * sz * el"
proof -
  have ab: "a < b" "b \<le> sz" using assms(1,2) by (auto simp: ranges_in_def)
  have "b + j * sz \<le> Suc j * sz" using ab by simp
  also have "\<dots> \<le> n * sz" using assms(3) by (intro mult_le_mono1) simp
  finally have le: "b + j * sz \<le> n * sz" .
  have "(a + j * sz) * el + (b - a) * el = (b + j * sz) * el" using ab(1) by (simp flip: add_mult_distrib)
  with mult_le_mono1 [OF le, of el] show "(a + j * sz) * el + (b - a) * el \<le> n * sz * el" by simp
  show "0 < el \<Longrightarrow> (a + j * sz) * el < n * sz * el" using le ab(1) by (intro mult_less_mono1) simp_all
qed

lemma write_column_bytes:
  assumes "ranges_in sz cr" and "j < n" and "n * sz * el \<le> length t"
  shows "list_all item_ok (write_column t sz el j cr)"
    and "n * sz * el \<le> 2 ^ 32 \<Longrightarrow> items_bytes (write_column t sz el j cr) = concat (map (\<lambda>i. block el t (j * sz + i)) (range_cells cr))"
proof -
  show "list_all item_ok (write_column t sz el j cr)"
    unfolding list_all_iff
  proof
    fix it assume "it \<in> set (write_column t sz el j cr)"
    then obtain a b where it: "(a, b) \<in> set cr" "it = Write_Tensor t (wrap32 ((a + j * sz) * el)) ((b - a) * el)"
      by (auto simp: write_column_def)
    with column_in(1) [OF assms(1) it(1) assms(2), of el] assms(3) wrap32_le [of "(a + j * sz) * el"]
    show "item_ok it" by (simp add: item_ok_def)
  qed
  assume fits: "n * sz * el \<le> 2 ^ 32"
  have "(j * sz + sz) * el \<le> length t"
  proof -
    have "(j * sz + sz) * el = Suc j * sz * el" by (simp add: add.commute)
    also have "\<dots> \<le> n * sz * el" using assms(2) by (intro mult_le_mono1) simp
    finally show ?thesis using assms(3) by (rule le_trans)
  qed
  moreover have "wrap32 ((a + j * sz) * el) = (j * sz + a) * el" if "(a, b) \<in> set cr" for a b
  proof (cases "el = 0")
    case False
    then have "(a + j * sz) * el < 2 ^ 32" using column_in(2) [OF assms(1) that assms(2), of el] fits by linarith
    then show ?thesis by (simp add: wrap32_id add.commute)
  qed (simp add: wrap32_def)
  then have "write_column t sz el j cr = write_ranges t (j * sz) el cr"
    by (auto simp: write_column_def write_ranges_def)
  ultimately show "items_bytes (write_column t sz el j cr) = concat (map (\<lambda>i. block el t (j * sz + i)) (range_cells cr))"
    using write_ranges_bytes(1) [OF assms(1)] by simp
qed

lemma write_values_trans_bytes:
  assumes "ranges_in sz cr" and "layer_ok True sz n_stream ly" and "s < n_stream"
  shows "list_all item_ok (write_values_trans sz cr s ly)"
    and "write_fits True sz ly \<Longrightarrow> items_bytes (write_values_trans sz cr s ly) = trans_bytes sz s (range_cells cr) ly"
proof -
  note w = write_column_bytes [OF assms(1) _ layer_okD(3) [OF assms(2,3) TrueI]]
  show "list_all item_ok (write_values_trans sz cr s ly)"
    using w(1) by (auto simp: write_values_trans_def item_ok_def list_all_iff Let_def)
  show "write_fits True sz ly \<Longrightarrow> items_bytes (write_values_trans sz cr s ly) = trans_bytes sz s (range_cells cr) ly"
    using w(2) by (auto simp: write_values_trans_def trans_bytes_def write_fits_def Let_def comp_def intro!: arg_cong [where f = concat])
qed

text \<open>A saved layer and the layer it is restored into.\<close>

definition layers_fit :: "bool \<Rightarrow> nat \<Rightarrow> nat \<Rightarrow> nat \<Rightarrow> nat list \<Rightarrow> nat \<Rightarrow> nat \<Rightarrow> nat \<Rightarrow> nat \<Rightarrow> kv_layer \<Rightarrow> kv_layer \<Rightarrow> bool" where
  "layers_fit v_trans sz n s cs sz' n' strm head src ly =
     (layer_ok v_trans sz n src \<and> layer_ok v_trans sz' n' ly \<and> same_shape src ly \<and> s < n \<and> strm < n' \<and>
      cs \<noteq> [] \<and> set cs \<subseteq> {..<sz} \<and> head + length cs \<le> sz' \<and> read_fits v_trans sz' ly)"

definition keys_restored :: "nat \<Rightarrow> nat list \<Rightarrow> nat \<Rightarrow> nat \<Rightarrow> nat \<Rightarrow> kv_layer \<Rightarrow> kv_layer \<Rightarrow> kv_layer \<Rightarrow> bool" where
  "keys_restored s cs sz' strm head src ly ly' =
     (\<exists>t. ly' = ly\<lparr>ly_k_stream := (ly_k_stream ly)[strm := t]\<rparr> \<and> length t = length (ly_k_stream ly ! strm) \<and>
        rows_moved (key_row s src) cs head sz' (key_row strm ly) (key_row strm ly'))"

definition values_restored :: "bool \<Rightarrow> nat \<Rightarrow> nat \<Rightarrow> nat list \<Rightarrow> nat \<Rightarrow> nat \<Rightarrow> nat \<Rightarrow> kv_layer \<Rightarrow> kv_layer \<Rightarrow> kv_layer \<Rightarrow> bool" where
  "values_restored v_trans sz s cs sz' strm head src ly ly' =
     (\<exists>t. ly' = ly\<lparr>ly_v_stream := (ly_v_stream ly)[strm := t]\<rparr> \<and> length t = length (ly_v_stream ly ! strm) \<and>
        rows_moved (value_row v_trans sz s src) cs head sz' (value_row v_trans sz' strm ly) (value_row v_trans sz' strm ly'))"

lemma rows_fit:
  assumes "\<forall>i\<in>set cs. Suc i * r \<le> length t"
  shows "\<forall>b\<in>set (map (block r t) cs). length b = r" and "length (concat (map (block r t) cs)) = length cs * r"
  using assms by (induction cs) (auto simp: length_block)

lemma in_rows: "i < sz \<Longrightarrow> sz * r \<le> n \<Longrightarrow> Suc i * r \<le> (n :: nat)"
  by (meson Suc_leI le_trans mult_le_mono1)

lemma set_rows:
  assumes "\<forall>i\<in>set js. Suc i * r \<le> length src" and "(h + length js) * r \<le> length t0"
  obtains t where "tensor_set t0 (concat (map (block r src) js)) (h * r) = Some t" "length t = length t0"
    "\<forall>i. block r t i = (if h \<le> i \<and> i < h + length js then block r src (js ! (i - h)) else block r t0 i)"
    "length (concat (map (block r src) js)) = length js * r"
proof -
  note f = rows_fit [OF assms(1)]
  from tensor_set_blocks [OF f(1), of h t0] assms(2) f(2) that show ?thesis
    unfolding length_map by fastforce
qed

interpretation keys: layer_part "key_bytes s cs" "read_keys strm head (length cs)"
  "layers_fit v_trans sz n s cs sz' n' strm head" "\<lambda>_. True" "keys_restored s cs sz' strm head"
  for v_trans sz n s cs sz' n' strm head
proof
  fix st :: kv_store and l src r
  let ?ly = "ks_layers st ! l"
  assume l: "l < length (ks_layers st)" and ok: "layers_fit v_trans sz n s cs sz' n' strm head src ?ly"
  let ?r = "ggml_row_size (ly_k_type src) (ly_n_embd_k_gqa src)"
  from ok have f: "layer_ok v_trans sz n src" "layer_ok v_trans sz' n' ?ly" "s < n" "strm < n'" "cs \<noteq> []"
    "set cs \<subseteq> {..<sz}" "head + length cs \<le> sz'" and sh: "ly_k_type ?ly = ly_k_type src" "ly_n_embd_k_gqa ?ly = ly_n_embd_k_gqa src"
    by (auto simp: layers_fit_def same_shape_def)
  have "\<forall>i\<in>set cs. Suc i * ?r \<le> length (ly_k_stream src ! s)"
    using f(6) in_rows [OF _ layer_okD(1) [OF f(1,3)]] by blast
  moreover have "(head + length cs) * ?r \<le> length (ly_k_stream ?ly ! strm)"
    using f(7) layer_okD(1) [OF f(2,4)] sh by (metis le_trans mult_le_mono1)
  ultimately obtain t where t: "tensor_set (ly_k_stream ?ly ! strm) (concat (map (key_row s src) cs)) (head * ?r) = Some t"
      "length t = length (ly_k_stream ?ly ! strm)"
      "\<forall>i. block ?r t i = (if head \<le> i \<and> i < head + length cs then key_row s src (cs ! (i - head))
        else block ?r (ly_k_stream ?ly ! strm) i)" "length (concat (map (key_row s src) cs)) = length cs * ?r"
    unfolding key_row_def [abs_def] by (rule set_rows)
  let ?ly' = "?ly\<lparr>ly_k_stream := (ly_k_stream ?ly)[strm := t]\<rparr>"
  have "strm < length (ly_k_stream ?ly)" using f(2,4) by (simp add: layer_ok_def)
  then have "keys_restored s cs sz' strm head src ?ly ?ly'"
    unfolding keys_restored_def using t(2,3) sh by (intro exI [of _ t]) (auto simp: rows_moved_def key_row_def)
  moreover have "read_keys strm head (length cs) l (st, key_bytes s cs src @ r) =
      (Loaded (), st\<lparr>ks_layers := (ks_layers st)[l := ?ly']\<rparr>, r)"
    using f(5) sh t(1,4) layer_okD(4) [OF f(1,3)]
    by (simp add: read_keys_def key_bytes_def Let_def i32.ld_decode u64.ld_decode ld_bytes ld_change_def set_k_def)
  ultimately show "\<exists>ly. read_keys strm head (length cs) l (st, key_bytes s cs src @ r) =
      (Loaded (), st\<lparr>ks_layers := (ks_layers st)[l := ly]\<rparr>, r) \<and> keys_restored s cs sz' strm head src ?ly ly" by blast
qed simp

interpretation vals: layer_part "value_bytes s cs" "read_values strm head (length cs)"
  "layers_fit False sz n s cs sz' n' strm head" "\<lambda>_. True" "values_restored False sz s cs sz' strm head"
  for sz n s cs sz' n' strm head
proof
  fix st :: kv_store and l src r
  let ?ly = "ks_layers st ! l"
  assume l: "l < length (ks_layers st)" and ok: "layers_fit False sz n s cs sz' n' strm head src ?ly"
  let ?r = "ggml_row_size (ly_v_type src) (ly_n_embd_v_gqa src)"
  from ok have f: "layer_ok False sz n src" "layer_ok False sz' n' ?ly" "s < n" "strm < n'" "cs \<noteq> []"
    "set cs \<subseteq> {..<sz}" "head + length cs \<le> sz'" and sh: "ly_v_type ?ly = ly_v_type src" "ly_n_embd_v_gqa ?ly = ly_n_embd_v_gqa src"
    by (auto simp: layers_fit_def same_shape_def)
  have "\<forall>i\<in>set cs. Suc i * ?r \<le> length (ly_v_stream src ! s)"
    using f(6) in_rows [OF _ layer_okD(2) [OF f(1,3)]] by blast
  moreover have "(head + length cs) * ?r \<le> length (ly_v_stream ?ly ! strm)"
    using f(7) layer_okD(2) [OF f(2,4)] sh by (metis le_trans mult_le_mono1)
  ultimately obtain t where t: "tensor_set (ly_v_stream ?ly ! strm) (concat (map (block ?r (ly_v_stream src ! s)) cs)) (head * ?r) = Some t"
      "length t = length (ly_v_stream ?ly ! strm)"
      "\<forall>i. block ?r t i = (if head \<le> i \<and> i < head + length cs then block ?r (ly_v_stream src ! s) (cs ! (i - head))
        else block ?r (ly_v_stream ?ly ! strm) i)"
      "length (concat (map (block ?r (ly_v_stream src ! s)) cs)) = length cs * ?r"
    by (rule set_rows)
  let ?ly' = "?ly\<lparr>ly_v_stream := (ly_v_stream ?ly)[strm := t]\<rparr>"
  have "strm < length (ly_v_stream ?ly)" using f(2,4) by (simp add: layer_ok_def)
  then have "values_restored False sz s cs sz' strm head src ?ly ?ly'"
    unfolding values_restored_def using t(2,3) sh by (intro exI [of _ t]) (auto simp: rows_moved_def value_row_def)
  moreover have "read_values strm head (length cs) l (st, value_bytes s cs src @ r) =
      (Loaded (), st\<lparr>ks_layers := (ks_layers st)[l := ?ly']\<rparr>, r)"
    using f(5) sh t(1,4) layer_okD(5) [OF f(1,3)]
    by (simp add: read_values_def value_bytes_def Let_def i32.ld_decode u64.ld_decode ld_bytes ld_change_def set_v_def)
  ultimately show "\<exists>ly. read_values strm head (length cs) l (st, value_bytes s cs src @ r) =
      (Loaded (), st\<lparr>ks_layers := (ks_layers st)[l := ly]\<rparr>, r) \<and> values_restored False sz s cs sz' strm head src ?ly ly" by blast
qed simp

text \<open>Transposed values: one column after the other.\<close>

definition read_column :: "nat \<Rightarrow> nat \<Rightarrow> nat \<Rightarrow> nat \<Rightarrow> nat \<Rightarrow> nat \<Rightarrow> nat \<Rightarrow> unit loader" where
  "read_column strm head cell_count l el sz j =
     ld_bind (ld_read (read_bytes (cell_count * el))) (\<lambda>data. ld_change (set_v strm l data (wrap32 (head + j * sz) * el)))"

lemma column_index:
  assumes "head + m \<le> sz" and "i < (sz :: nat)"
  shows "(head + k * sz \<le> j * sz + i \<and> j * sz + i < head + k * sz + m) = (j = k \<and> head \<le> i \<and> i < head + m)"
proof -
  consider "j < k" | "j = k" | "k < j" by linarith
  then show ?thesis
  proof cases
    case 1
    then have "Suc j * sz \<le> k * sz" by (intro mult_le_mono1) simp
    with 1 assms show ?thesis by auto
  next
    case 3
    then have "Suc k * sz \<le> j * sz" by (intro mult_le_mono1) simp
    with 3 assms show ?thesis by auto
  qed auto
qed

lemma read_columns:
  fixes st :: kv_store
  assumes "l < length (ks_layers st)" and "strm < length (ly_v_stream (ks_layers st ! l))"
    and "\<forall>j < n_embd. \<forall>i\<in>set cs. Suc (j * sz + i) * el \<le> length src"
    and "head + length cs \<le> sz'" and "n_embd * sz' * el \<le> length (ly_v_stream (ks_layers st ! l) ! strm)"
    and "cs \<noteq> []" and "n_embd * sz' \<le> 2 ^ 32" and "k \<le> n_embd"
  shows "\<exists>t. ld_each (read_column strm head (length cs) l el sz') [0..<k]
      (st, concat (map (\<lambda>j. concat (map (\<lambda>i. block el src (j * sz + i)) cs)) [0..<k]) @ r) =
      (Loaded (), st\<lparr>ks_layers := (ks_layers st)[l := (ks_layers st ! l)
         \<lparr>ly_v_stream := (ly_v_stream (ks_layers st ! l))[strm := t]\<rparr>]\<rparr>, r) \<and>
    length t = length (ly_v_stream (ks_layers st ! l) ! strm) \<and>
    (\<forall>j. \<forall>i < sz'. block el t (j * sz' + i) = (if j < k \<and> head \<le> i \<and> i < head + length cs
       then block el src (j * sz + cs ! (i - head)) else block el (ly_v_stream (ks_layers st ! l) ! strm) (j * sz' + i)))"
  using assms(8)
proof (induction k arbitrary: r)
  case 0
  then show ?case by (intro exI [of _ "ly_v_stream (ks_layers st ! l) ! strm"]) (simp add: ld_apply)
next
  case (Suc k)
  let ?ly = "ks_layers st ! l"
  let ?col = "\<lambda>j. concat (map (\<lambda>i. block el src (j * sz + i)) cs)"
  let ?js = "map (\<lambda>i. k * sz + i) cs"
  from Suc.prems have "k \<le> n_embd" by simp
  from Suc.IH [OF this, of "?col k @ r"] obtain t where
    t: "ld_each (read_column strm head (length cs) l el sz') [0..<k] (st, concat (map ?col [0..<k]) @ ?col k @ r) =
      (Loaded (), st\<lparr>ks_layers := (ks_layers st)[l := ?ly\<lparr>ly_v_stream := (ly_v_stream ?ly)[strm := t]\<rparr>]\<rparr>, ?col k @ r)"
    "length t = length (ly_v_stream ?ly ! strm)"
    "\<forall>j. \<forall>i < sz'. block el t (j * sz' + i) = (if j < k \<and> head \<le> i \<and> i < head + length cs
       then block el src (j * sz + cs ! (i - head)) else block el (ly_v_stream ?ly ! strm) (j * sz' + i))" by blast
  have "(head + k * sz' + length ?js) * el \<le> length t"
  proof -
    have "Suc k * sz' \<le> n_embd * sz'" using Suc.prems by (intro mult_le_mono1)
    then have "head + k * sz' + length ?js \<le> n_embd * sz'" using assms(4) by simp
    then have "(head + k * sz' + length ?js) * el \<le> n_embd * sz' * el" by (rule mult_le_mono1)
    then show ?thesis using assms(5) t(2) by linarith
  qed
  moreover have "\<forall>i\<in>set ?js. Suc i * el \<le> length src" using assms(3) Suc.prems by auto
  ultimately obtain t' where t': "tensor_set t (?col k) ((head + k * sz') * el) = Some t'" "length t' = length t"
    "\<forall>i. block el t' i = (if head + k * sz' \<le> i \<and> i < head + k * sz' + length cs
       then block el src (?js ! (i - (head + k * sz'))) else block el t i)" "length (?col k) = length cs * el"
    using set_rows [of ?js el src "head + k * sz'" t] by (auto simp: comp_def)
  have "head < sz'" using assms(4,6) by (cases cs) auto
  then have "head + k * sz' < Suc k * sz'" by simp
  also have "\<dots> \<le> n_embd * sz'" using Suc.prems by (intro mult_le_mono1)
  finally have "wrap32 (head + k * sz') = head + k * sz'" using assms(7) by (intro wrap32_id) simp
  then have "read_column strm head (length cs) l el sz' k
      (st\<lparr>ks_layers := (ks_layers st)[l := ?ly\<lparr>ly_v_stream := (ly_v_stream ?ly)[strm := t]\<rparr>]\<rparr>, ?col k @ r) =
      (Loaded (), st\<lparr>ks_layers := (ks_layers st)[l := ?ly\<lparr>ly_v_stream := (ly_v_stream ?ly)[strm := t']\<rparr>]\<rparr>, r)"
    using assms(1,2) t'(1,4) by (simp add: read_column_def ld_bytes ld_change_def set_v_def)
  then have "ld_each (read_column strm head (length cs) l el sz') [0..<Suc k] (st, concat (map ?col [0..<Suc k]) @ r) =
      (Loaded (), st\<lparr>ks_layers := (ks_layers st)[l := ?ly\<lparr>ly_v_stream := (ly_v_stream ?ly)[strm := t']\<rparr>]\<rparr>, r)"
    using t(1) by (simp add: ld_each_snoc ld_bind_loaded)
  moreover have "block el t' (j * sz' + i) = (if j < Suc k \<and> head \<le> i \<and> i < head + length cs
       then block el src (j * sz + cs ! (i - head)) else block el (ly_v_stream ?ly ! strm) (j * sz' + i))" if "i < sz'" for i j
    using t'(3) t(3) that column_index [OF assms(4) that, of k j] by (auto simp: less_Suc_eq)
  ultimately show ?case using t(2) t'(2) by (intro exI [of _ t']) auto
qed

interpretation trans: layer_part "trans_bytes sz s cs" "read_values_trans strm head (length cs)"
  "layers_fit True sz n s cs sz' n' strm head" "\<lambda>st. cells_size (cells_of st strm) = sz'"
  "values_restored True sz s cs sz' strm head"
  for sz n s cs sz' n' strm head
proof
  fix st :: kv_store and l src r
  let ?ly = "ks_layers st ! l"
  assume l: "l < length (ks_layers st)" and ok: "layers_fit True sz n s cs sz' n' strm head src ?ly"
    and size: "cells_size (cells_of st strm) = sz'"
  let ?el = "ggml_type_size (ly_v_type src)"
  from ok have f: "layer_ok True sz n src" "layer_ok True sz' n' ?ly" "s < n" "strm < n'" "cs \<noteq> []"
    "set cs \<subseteq> {..<sz}" "head + length cs \<le> sz'" "ly_n_embd_v_gqa ?ly * sz' \<le> 2 ^ 32"
    and sh: "ly_v_type ?ly = ly_v_type src" "ly_n_embd_v_gqa ?ly = ly_n_embd_v_gqa src"
    by (auto simp: layers_fit_def same_shape_def read_fits_def)
  have fits: "Suc (j * sz + i) * ?el \<le> length (ly_v_stream src ! s)" if "j < ly_n_embd_v_gqa src" "i \<in> set cs" for i j
  proof (rule in_rows)
    show "ly_n_embd_v_gqa src * sz * ?el \<le> length (ly_v_stream src ! s)" using layer_okD(3) [OF f(1,3)] by simp
    have "Suc j * sz \<le> ly_n_embd_v_gqa src * sz" using that(1) by (intro mult_le_mono1) simp
    with that(2) f(6) show "j * sz + i < ly_n_embd_v_gqa src * sz" by auto
  qed
  have strm: "strm < length (ly_v_stream ?ly)" using f(2,4) by (simp add: layer_ok_def)
  from read_columns [OF l strm _ f(7), of "ly_n_embd_v_gqa src" sz ?el "ly_v_stream src ! s" "ly_n_embd_v_gqa src" r]
    fits layer_okD(3) [OF f(2,4)] sh f(5,8) obtain t where
    t: "ld_each (read_column strm head (length cs) l ?el sz') [0..<ly_n_embd_v_gqa src]
      (st, concat (map (\<lambda>j. concat (map (\<lambda>i. block ?el (ly_v_stream src ! s) (j * sz + i)) cs)) [0..<ly_n_embd_v_gqa src]) @ r) =
      (Loaded (), st\<lparr>ks_layers := (ks_layers st)[l := ?ly\<lparr>ly_v_stream := (ly_v_stream ?ly)[strm := t]\<rparr>]\<rparr>, r)"
    "length t = length (ly_v_stream ?ly ! strm)"
    "\<forall>j. \<forall>i < sz'. block ?el t (j * sz' + i) = (if j < ly_n_embd_v_gqa src \<and> head \<le> i \<and> i < head + length cs
       then block ?el (ly_v_stream src ! s) (j * sz + cs ! (i - head)) else block ?el (ly_v_stream ?ly ! strm) (j * sz' + i))"
    by auto
  let ?ly' = "?ly\<lparr>ly_v_stream := (ly_v_stream ?ly)[strm := t]\<rparr>"
  have "values_restored True sz s cs sz' strm head src ?ly ?ly'"
    unfolding values_restored_def using t(2,3) sh strm by (intro exI [of _ t]) (auto simp: rows_moved_def value_row_def)
  moreover have el: "unat (word_of_nat ?el :: uint32) = ?el"
    using f(1) by (intro type_size_word) (simp add: layer_ok_def)
  have "read_values_trans strm head (length cs) l (st, trans_bytes sz s cs src @ r) =
      (Loaded (), st\<lparr>ks_layers := (ks_layers st)[l := ?ly']\<rparr>, r)"
    using f(5) sh t(1) layer_okD(5,6) [OF f(1,3)] size el
    by (simp add: read_values_trans_def trans_bytes_def Let_def i32.ld_decode u32.ld_decode read_column_def [abs_def])
  ultimately show "\<exists>ly. read_values_trans strm head (length cs) l (st, trans_bytes sz s cs src @ r) =
      (Loaded (), st\<lparr>ks_layers := (ks_layers st)[l := ly]\<rparr>, r) \<and> values_restored True sz s cs sz' strm head src ?ly ly" by blast
qed (simp add: cells_of_def)

section \<open>The data of a stream\<close>

definition store_wf :: "kv_store \<Rightarrow> bool" where
  "store_wf st = (kv_wf (ks_kv st) \<and> kv_get_size (ks_kv st) < 2 ^ 32 \<and> length (ks_layers st) < 2 ^ 32 \<and>
     kv_n_stream (ks_kv st) < 2 ^ 32 \<and>
     (\<forall>ly\<in>set (ks_layers st). layer_ok (ks_v_trans st) (kv_get_size (ks_kv st)) (kv_n_stream (ks_kv st)) ly))"

definition writable :: "kv_store \<Rightarrow> bool" where
  "writable st = (\<forall>ly\<in>set (ks_layers st). write_fits (ks_v_trans st) (kv_get_size (ks_kv st)) ly)"

definition readable :: "kv_store \<Rightarrow> bool" where
  "readable st = (\<forall>ly\<in>set (ks_layers st). read_fits (ks_v_trans st) (kv_get_size (ks_kv st)) ly)"

text \<open>Positions and sequences that the 32-bit fields of a state and the limit of sequences admit.\<close>

definition store_ok :: "kv_store \<Rightarrow> bool" where
  "store_ok st = (store_wf st \<and> kv_n_seq_max (ks_kv st) \<le> LLAMA_MAX_SEQ \<and>
     (\<forall>c\<in>set (kv_v_cells (ks_kv st)). \<forall>i < cells_size c. kc_pos c ! i < 2 ^ 31 \<and> kc_seq c ! i \<subseteq> {..<kv_n_seq_max (ks_kv st)}))"

definition same_layout :: "kv_store \<Rightarrow> kv_store \<Rightarrow> bool" where
  "same_layout st st' = (ks_v_trans st' = ks_v_trans st \<and> list_all2 same_shape (ks_layers st) (ks_layers st'))"

definition data_bytes :: "kv_store \<Rightarrow> nat \<Rightarrow> nat list \<Rightarrow> byte list" where
  "data_bytes st s cs = write_u32 (if ks_v_trans st then 1 else 0) @ write_u32 (word_of_nat (length (ks_layers st))) @
     concat (map (key_bytes s cs) (ks_layers st)) @
     concat (map (if ks_v_trans st then trans_bytes (cells_size (cells_of st s)) s cs else value_bytes s cs) (ks_layers st))"

lemma store_cells:
  assumes "store_wf st" and "s < kv_n_stream (ks_kv st)"
  shows "kv_inv (cells_of st s)" and "cells_size (cells_of st s) = kv_get_size (ks_kv st)"
    and "kv_v_heads (ks_kv st) ! s \<le> kv_get_size (ks_kv st)"
  using assms kv_wf_cells [of "ks_kv st" s] by (auto simp: store_wf_def cells_of_def)

lemma store_ok_wf: "store_ok st \<Longrightarrow> store_wf st"
  by (simp add: store_ok_def)

lemma store_contents:
  assumes "store_ok st" and "s < kv_n_stream (ks_kv st)" and "i < kv_get_size (ks_kv st)"
  shows "kc_pos (cells_of st s) ! i < 2 ^ 31" and "kc_seq (cells_of st s) ! i \<subseteq> {..<kv_n_seq_max (ks_kv st)}"
proof -
  have "cells_of st s \<in> set (kv_v_cells (ks_kv st))"
    using assms by (simp add: store_ok_def store_wf_def kv_wf_def cells_of_def)
  then show "kc_pos (cells_of st s) ! i < 2 ^ 31" "kc_seq (cells_of st s) ! i \<subseteq> {..<kv_n_seq_max (ks_kv st)}"
    using assms store_cells(2) [OF store_ok_wf [OF assms(1)] assms(2)] unfolding store_ok_def by metis+
qed

lemma items_concat_map:
  assumes "\<And>x. x \<in> set xs \<Longrightarrow> items_bytes (f x) = g x \<and> list_all item_ok (f x)"
  shows "items_bytes (concat (map f xs)) = concat (map g xs)" and "list_all item_ok (concat (map f xs))"
  using assms by (induction xs) (auto simp: items_bytes_def)

lemma state_write_data_bytes:
  assumes "store_wf st" and "s < kv_n_stream (ks_kv st)" and "ranges_in (kv_get_size (ks_kv st)) cr"
  shows "list_all item_ok (state_write_data st s cr)"
    and "writable st \<Longrightarrow> items_bytes (state_write_data st s cr) = data_bytes st s (range_cells cr)"
proof -
  note sz = store_cells(2) [OF assms(1,2)]
  have ly: "layer_ok (ks_v_trans st) (kv_get_size (ks_kv st)) (kv_n_stream (ks_kv st)) ly" if "ly \<in> set (ks_layers st)" for ly
    using that assms(1) by (simp add: store_wf_def)
  let ?f = "if ks_v_trans st then write_values_trans (kv_get_size (ks_kv st)) cr s else write_values cr s"
  let ?g = "if ks_v_trans st then trans_bytes (kv_get_size (ks_kv st)) s (range_cells cr) else value_bytes s (range_cells cr)"
  have "items_bytes (write_keys cr s ly) = key_bytes s (range_cells cr) ly \<and> list_all item_ok (write_keys cr s ly)"
    if "ly \<in> set (ks_layers st)" for ly
    using write_keys_bytes [OF assms(3) ly [OF that] assms(2)] by simp
  note k = items_concat_map [of "ks_layers st" "write_keys cr s" "key_bytes s (range_cells cr)", OF this]
  have ok: "list_all item_ok (?f ly)" if "ly \<in> set (ks_layers st)" for ly
    using ly [OF that] write_values_bytes(2) [OF assms(3) _ assms(2)] write_values_trans_bytes(1) [OF assms(3) _ assms(2)]
    by (cases "ks_v_trans st") simp_all
  then have "list_all item_ok (concat (map ?f (ks_layers st)))" by (auto simp: list_all_iff)
  then show "list_all item_ok (state_write_data st s cr)"
    unfolding state_write_data_def sz using k(2) by (simp add: item_ok_def split del: if_split)
  assume fits: "writable st"
  have "items_bytes (?f ly) = ?g ly \<and> list_all item_ok (?f ly)" if "ly \<in> set (ks_layers st)" for ly
    using ly [OF that] ok [OF that] fits [unfolded writable_def] that write_values_bytes(1) [OF assms(3) _ assms(2)] write_values_trans_bytes(2) [OF assms(3) _ assms(2)]
    by (cases "ks_v_trans st") simp_all
  note v = items_concat_map [of "ks_layers st" ?f ?g, OF this]
  show "items_bytes (state_write_data st s cr) = data_bytes st s (range_cells cr)"
    unfolding state_write_data_def data_bytes_def sz
    using k(1) v(1) by (simp del: items_bytes_simps(4) split del: if_split)
qed

text \<open>A restored layer: keys and values, and the rest of it.\<close>

definition layer_restored :: "bool \<Rightarrow> nat \<Rightarrow> nat \<Rightarrow> nat list \<Rightarrow> nat \<Rightarrow> nat \<Rightarrow> nat \<Rightarrow> kv_layer \<Rightarrow> kv_layer \<Rightarrow> kv_layer \<Rightarrow> bool" where
  "layer_restored v_trans sz s cs sz' strm head src ly ly' =
     (same_shape ly ly' \<and>
      rows_moved (key_row s src) cs head sz' (key_row strm ly) (key_row strm ly') \<and>
      rows_moved (value_row v_trans sz s src) cs head sz' (value_row v_trans sz' strm ly) (value_row v_trans sz' strm ly') \<and>
      map length (ly_k_stream ly') = map length (ly_k_stream ly) \<and> map length (ly_v_stream ly') = map length (ly_v_stream ly) \<and>
      (\<forall>q. q \<noteq> strm \<longrightarrow> ly_k_stream ly' ! q = ly_k_stream ly ! q \<and> ly_v_stream ly' ! q = ly_v_stream ly ! q))"

lemma keys_then_values:
  assumes "keys_restored s cs sz' strm head src ly ly1" and "values_restored v_trans sz s cs sz' strm head src ly1 ly2"
  shows "layer_restored v_trans sz s cs sz' strm head src ly ly2"
proof -
  have map_len: "map length (xs[strm := t]) = map length xs" if "length t = length (xs ! strm)" for xs and t :: "byte list"
    using that by (metis list_update_id map_update)
  from assms show ?thesis
    unfolding keys_restored_def values_restored_def layer_restored_def
    by (auto simp: same_shape_def map_len key_row_def value_row_def rows_moved_def)
qed

lemma keys_restored_fit:
  assumes "layers_fit v_trans sz n s cs sz' n' strm head src ly" and "keys_restored s cs sz' strm head src ly ly'"
  shows "layers_fit v_trans sz n s cs sz' n' strm head src ly'"
proof -
  obtain t where t: "ly' = ly\<lparr>ly_k_stream := (ly_k_stream ly)[strm := t]\<rparr>" "length t = length (ly_k_stream ly ! strm)"
    using assms(2) unfolding keys_restored_def by blast
  have ok: "layer_ok v_trans sz' n' ly" "strm < n'" using assms(1) by (simp_all add: layers_fit_def)
  then have "layer_ok v_trans sz' n' ly'"
    using layer_okD(1) [OF ok] t(2) unfolding t(1)
    by (auto simp: layer_ok_def dest!: set_update_subset_insert [THEN subsetD])
  moreover have "read_fits v_trans sz' (ly\<lparr>ly_k_stream := (ly_k_stream ly)[strm := t]\<rparr>)"
    using assms(1) by (simp add: layers_fit_def read_fits_def)
  ultimately show ?thesis using assms(1) unfolding t(1) by (simp add: layers_fit_def same_shape_def)
qed

lemma layer_restored_ok:
  assumes "layer_ok v_trans sz' n ly" and "layer_restored v_trans sz s cs sz' strm head src ly ly'"
  shows "layer_ok v_trans sz' n ly'"
proof -
  have m: "(\<forall>t\<in>set xs. k \<le> length t) = (\<forall>t\<in>set ys. k \<le> length t)" if "map length xs = map length ys"
    for xs ys :: "byte list list" and k
    using arg_cong [OF that, of "\<lambda>ls. \<forall>l\<in>set ls. k \<le> l"] by simp
  have "map length (ly_k_stream ly') = map length (ly_k_stream ly)" "map length (ly_v_stream ly') = map length (ly_v_stream ly)"
    using assms(2) by (simp_all add: layer_restored_def)
  note l = this [THEN map_eq_imp_length_eq] this [THEN m]
  from assms show ?thesis
    unfolding layer_ok_def layer_restored_def same_shape_def l by auto
qed

lemma state_read_data_restores:
  assumes "store_wf st" and "s < kv_n_stream (ks_kv st)" and "store_wf st'" and "strm < kv_n_stream (ks_kv st')"
    and "same_layout st st'" and "cs \<noteq> []" and "set cs \<subseteq> {..<kv_get_size (ks_kv st)}"
    and "kv_v_heads (ks_kv st') ! strm + length cs \<le> kv_get_size (ks_kv st')"
    and "readable st'"
  shows "\<exists>lys. state_read_data strm (length cs) (st', data_bytes st s cs @ r) = (Loaded (), st'\<lparr>ks_layers := lys\<rparr>, r) \<and>
    length lys = length (ks_layers st') \<and>
    (\<forall>l < length lys. layer_restored (ks_v_trans st) (kv_get_size (ks_kv st)) s cs (kv_get_size (ks_kv st')) strm
       (kv_v_heads (ks_kv st') ! strm) (ks_layers st ! l) (ks_layers st' ! l) (lys ! l))"
proof -
  let ?sz = "kv_get_size (ks_kv st)" and ?sz' = "kv_get_size (ks_kv st')" and ?head = "kv_v_heads (ks_kv st') ! strm"
  let ?n = "kv_n_stream (ks_kv st)" and ?n' = "kv_n_stream (ks_kv st')" and ?vt = "ks_v_trans st"
  let ?L = "ks_layers st" and ?L' = "ks_layers st'"
  note sz = store_cells(2) [OF assms(1,2)] and sz' = store_cells(2) [OF assms(3,4)]
  have len: "length ?L = length ?L'" and vt: "ks_v_trans st' = ?vt" and sh: "l < length ?L \<Longrightarrow> same_shape (?L ! l) (?L' ! l)" for l
    using assms(5) by (auto simp: same_layout_def dest: list_all2_lengthD list_all2_nthD)
  have fit: "layers_fit ?vt ?sz ?n s cs ?sz' ?n' strm ?head (?L ! l) (?L' ! l)" if "l < length ?L" for l
  proof -
    have "?L ! l \<in> set ?L" "?L' ! l \<in> set ?L'" using that len by auto
    with that vt sh assms show ?thesis by (auto simp: layers_fit_def store_wf_def readable_def)
  qed
  define vbs where "vbs = (if ?vt then trans_bytes ?sz s cs else value_bytes s cs)"
  define rdv where "rdv = (if ?vt then read_values_trans strm ?head (length cs) else read_values strm ?head (length cs))"
  have "\<forall>l < length ?L. layers_fit ?vt ?sz ?n s cs ?sz' ?n' strm ?head (?L ! l) (?L' ! l)" using fit by blast
  from keys.parts [OF TrueI len this, of "concat (map vbs ?L) @ r"]
  obtain lk where lk: "ld_each (read_keys strm ?head (length cs)) [0..<length ?L]
      (st', concat (map (key_bytes s cs) ?L) @ concat (map vbs ?L) @ r) = (Loaded (), st'\<lparr>ks_layers := lk\<rparr>, concat (map vbs ?L) @ r)"
    "length lk = length ?L" "\<forall>l < length ?L. keys_restored s cs ?sz' strm ?head (?L ! l) (?L' ! l) (lk ! l)" by blast
  have fit': "layers_fit ?vt ?sz ?n s cs ?sz' ?n' strm ?head (?L ! l) (lk ! l)" if "l < length ?L" for l
    using keys_restored_fit [OF fit [OF that]] lk(3) that by blast
  have "\<exists>lys. ld_each rdv [0..<length ?L] (st'\<lparr>ks_layers := lk\<rparr>, concat (map vbs ?L) @ r) = (Loaded (), st'\<lparr>ks_layers := lys\<rparr>, r) \<and>
      length lys = length ?L \<and> (\<forall>l < length ?L. values_restored ?vt ?sz s cs ?sz' strm ?head (?L ! l) (lk ! l) (lys ! l))"
  proof (cases ?vt)
    case True
    then have f: "\<forall>l < length ?L. layers_fit True ?sz ?n s cs ?sz' ?n' strm ?head (?L ! l) (ks_layers (st'\<lparr>ks_layers := lk\<rparr>) ! l)"
      using fit' by simp
    from True trans.parts [OF _ _ f, of r] lk(2) sz' show ?thesis
      by (simp add: rdv_def vbs_def cells_of_def)
  next
    case False
    then have f: "\<forall>l < length ?L. layers_fit False ?sz ?n s cs ?sz' ?n' strm ?head (?L ! l) (ks_layers (st'\<lparr>ks_layers := lk\<rparr>) ! l)"
      using fit' by simp
    from False vals.parts [OF TrueI _ f, of r] lk(2) show ?thesis
      by (simp add: rdv_def vbs_def)
  qed
  then obtain lys where lys: "ld_each rdv [0..<length ?L] (st'\<lparr>ks_layers := lk\<rparr>, concat (map vbs ?L) @ r) = (Loaded (), st'\<lparr>ks_layers := lys\<rparr>, r)"
    "length lys = length ?L" "\<forall>l < length ?L. values_restored ?vt ?sz s cs ?sz' strm ?head (?L ! l) (lk ! l) (lys ! l)" by blast
  have bnd: "ld_bind (ld_each (read_keys strm ?head (length cs)) [0..<length ?L]) (\<lambda>_. ld_each rdv [0..<length ?L])
      (st', concat (map (key_bytes s cs) ?L) @ concat (map vbs ?L) @ r) = (Loaded (), st'\<lparr>ks_layers := lys\<rparr>, r)"
    by (simp add: ld_bind_def lk(1) lys(1))
  have "unat (word_of_nat (length ?L) :: uint32) = length ?L"
    using assms(1) by (simp add: store_wf_def unat_of_nat)
  moreover have "\<not> ?sz' < length cs" using assms(8) by simp
  ultimately have "state_read_data strm (length cs) (st', data_bytes st s cs @ r) = (Loaded (), st'\<lparr>ks_layers := lys\<rparr>, r)"
    using bnd len vt sz sz'
    by (cases ?vt) (simp_all add: state_read_data_def data_bytes_def Let_def u32.ld_decode rdv_def vbs_def)
  moreover have "\<forall>l < length lys. layer_restored ?vt ?sz s cs ?sz' strm ?head (?L ! l) (?L' ! l) (lys ! l)"
    using lk(3) lys(2,3) keys_then_values by metis
  ultimately show ?thesis using lys(2) len by auto
qed

end
