(* ===== verification/KV_State_Props.thy ===== *)
theory KV_State_Props
  imports KV_State_Rows
begin

text \<open>
  What is saved is what is restored: the bytes of a state, the cache that comes of reading them, and
  what the code leaves when it cannot. The properties are at the end.
\<close>

section \<open>What a state is\<close>

definition saved :: "kv_store \<Rightarrow> llama_seq_id \<Rightarrow> nat \<Rightarrow> nat list" where
  "saved st seq_id s = filter (saved_cell (cells_of st s) seq_id) [0..<cells_size (cells_of st s)]"

definition cell_bytes :: "kv_store \<Rightarrow> llama_seq_id \<Rightarrow> nat \<Rightarrow> nat \<Rightarrow> byte list" where
  "cell_bytes st seq_id s i = items_bytes (write_cell_meta (kv_n_seq_max (ks_kv st)) (cells_of st s) seq_id i)"

definition stream_bytes :: "kv_store \<Rightarrow> llama_seq_id \<Rightarrow> nat \<Rightarrow> byte list" where
  "stream_bytes st seq_id s =
     (let cs = saved st seq_id s in
      write_u32 (word_of_nat (length cs)) @
      (if cs = [] then [] else concat (map (cell_bytes st seq_id s) cs) @ data_bytes st s cs))"

definition state_bytes :: "kv_store \<Rightarrow> llama_seq_id \<Rightarrow> byte list" where
  "state_bytes st seq_id = write_u32 (word_of_nat (kv_n_stream (ks_kv st))) @
     concat (map (stream_bytes st seq_id) [0..<kv_n_stream (ks_kv st)])"

lemma set_saved: "set (saved st seq_id s) = {i. i < cells_size (cells_of st s) \<and> saved_cell (cells_of st s) seq_id i}"
  by (auto simp: saved_def)

lemma length_saved: "length (saved st seq_id s) \<le> cells_size (cells_of st s)"
  unfolding saved_def by (metis length_filter_le length_upt diff_zero)

lemma state_write_meta_bytes:
  "items_bytes (state_write_meta st s cr seq_id) = concat (map (cell_bytes st seq_id s) (range_cells cr))"
  "list_all item_ok (state_write_meta st s cr seq_id)"
proof -
  show "items_bytes (state_write_meta st s cr seq_id) = concat (map (cell_bytes st seq_id s) (range_cells cr))"
    by (induction cr) (auto simp: state_write_meta_def range_cells_def cell_bytes_def comp_def map_concat)
  have "list_all item_ok (write_cell_meta n c seq_id i)" for n c i
    by (simp add: write_cell_meta_def Let_def item_ok_def list_all_iff)
  then show "list_all item_ok (state_write_meta st s cr seq_id)"
    by (auto simp: state_write_meta_def list_all_iff)
qed

lemma write_stream_bytes:
  assumes "store_ok st" and "s < kv_n_stream (ks_kv st)"
  shows "\<exists>items. write_stream st seq_id s = Some items \<and> (writable st \<longrightarrow> items_bytes items = stream_bytes st seq_id s) \<and> list_all item_ok items"
proof -
  note wf = store_ok_wf [OF assms(1)]
  note sz = store_cells(2) [OF wf assms(2)]
  obtain cr where cr: "cell_ranges (saved_cell (cells_of st s) seq_id) (cells_size (cells_of st s)) = (cr, length (saved st seq_id s))"
    "range_cells cr = saved st seq_id s" "ranges_in (kv_get_size (ks_kv st)) cr"
    unfolding saved_def sz by (rule cell_ranges_filter)
  then show ?thesis
    using state_write_data_bytes [OF wf assms(2) cr(3)] state_write_meta_bytes [of st s cr seq_id]
    by (auto simp: write_stream_def stream_bytes_def Let_def sum_ranges item_ok_def)
qed

lemma state_write_bytes:
  assumes "store_ok st"
  obtains items where "state_write st seq_id = Some items" "writable st \<Longrightarrow> items_bytes items = state_bytes st seq_id" "list_all item_ok items"
proof -
  define f where "f = (\<lambda>s. the (write_stream st seq_id s))"
  have f: "write_stream st seq_id s = Some (f s)" "writable st \<longrightarrow> items_bytes (f s) = stream_bytes st seq_id s" "list_all item_ok (f s)"
    if "s \<in> set [0..<kv_n_stream (ks_kv st)]" for s
    using write_stream_bytes [OF assms, of s seq_id] that by (auto simp: f_def)
  have "those (map (write_stream st seq_id) [0..<kv_n_stream (ks_kv st)]) = Some (map f [0..<kv_n_stream (ks_kv st)])"
    using f(1) by (rule those_map_Some)
  moreover have "writable st \<longrightarrow> items_bytes (concat (map f [0..<kv_n_stream (ks_kv st)])) = concat (map (stream_bytes st seq_id) [0..<kv_n_stream (ks_kv st)])"
    using items_concat_map(1) [of "[0..<kv_n_stream (ks_kv st)]" f "stream_bytes st seq_id"] f(2,3) by blast
  moreover have "list_all item_ok (concat (map f [0..<kv_n_stream (ks_kv st)]))"
    using f(3) by (auto simp: list_all_iff)
  ultimately show ?thesis
    by (intro that [of "Write (write_u32 (word_of_nat (kv_n_stream (ks_kv st)))) # concat (map f [0..<kv_n_stream (ks_kv st)])"])
      (simp_all add: state_write_def state_bytes_def item_ok_def del: items_bytes_simps(4))
qed

section \<open>Cells of a single sequence\<close>

lemma seq_filter: "q < n \<Longrightarrow> P q \<Longrightarrow> filter (\<lambda>cur. int cur = int q \<and> P cur) [0..<n] = [q]"
proof (induction n)
  case (Suc n)
  then show ?case by (cases "q = n") (auto simp: filter_empty_conv)
qed simp

lemma cell_bytes_single:
  assumes "q < kv_n_seq_max (ks_kv st)" and "i \<in> set (saved st (int q) s)"
  shows "cell_bytes st (int q) s i = write_i32 (kc_pos (cells_of st s) ! i) @ write_u32 1 @ write_i32 (int q)"
proof -
  have "cells_seq_has (cells_of st s) i q" using assms(2) by (simp add: set_saved saved_cell_def)
  then have "filter (\<lambda>cur. (int cur = int q \<or> int q = -1) \<and> cells_seq_has (cells_of st s) i cur) [0..<kv_n_seq_max (ks_kv st)] = [q]"
    using seq_filter [OF assms(1), of "cells_seq_has (cells_of st s) i"] by (simp cong: filter_cong)
  then show ?thesis by (simp add: cell_bytes_def write_cell_meta_def cells_pos_get_def)
qed

lemma saved_pos:
  assumes "store_ok st" and "s < kv_n_stream (ks_kv st)" and "i \<in> set (saved st seq_id s)"
  shows "0 \<le> kc_pos (cells_of st s) ! i" and "kc_pos (cells_of st s) ! i < 2 ^ 31" and "i < kv_get_size (ks_kv st)"
proof -
  note c = store_cells [OF store_ok_wf [OF assms(1)] assms(2)]
  show i: "i < kv_get_size (ks_kv st)" using assms(3) c(2) by (simp add: set_saved)
  show "kc_pos (cells_of st s) ! i < 2 ^ 31" by (rule store_contents(1) [OF assms(1,2) i])
  have "kc_pos (cells_of st s) ! i \<noteq> -1" using assms(3) by (simp add: set_saved saved_cell_def cells_is_empty_def)
  with kv_invD(1) [OF c(1), of i] i c(2) show "0 \<le> kc_pos (cells_of st s) ! i" by simp
qed

lemma read_positions:
  assumes "store_ok st" and "s < kv_n_stream (ks_kv st)" and "q < kv_n_seq_max (ks_kv st)"
    and "set cs \<subseteq> set (saved st (int q) s)"
  shows "ld_list (length cs) read_cell_pos (t, concat (map (cell_bytes st (int q) s) cs) @ r) =
    (Loaded (map (\<lambda>i. kc_pos (cells_of st s) ! i) cs), t, r)"
  using assms(4)
proof (induction cs)
  case (Cons i cs)
  have q: "- (2 ^ 31) \<le> int q \<and> int q < 2 ^ 31" using assms(1,3) by (simp add: store_ok_def LLAMA_MAX_SEQ_def)
  have p: "- (2 ^ 31) \<le> kc_pos (cells_of st s) ! i \<and> kc_pos (cells_of st s) ! i < 2 ^ 31"
    using saved_pos [OF assms(1,2), of i "int q"] Cons.prems by auto
  have "i \<in> set (saved st (int q) s)" using Cons.prems by simp
  note b = cell_bytes_single [OF assms(3) this]
  have "read_cell_pos (t, cell_bytes st (int q) s i @ r') = (Loaded (kc_pos (cells_of st s) ! i), t, r')" for r'
    unfolding b read_cell_pos_def using p q by (simp add: i32.ld_decode u32.ld_decode ld_apply)
  with Cons show ?case by (simp add: ld_bind_def ld_apply)
qed (simp add: ld_apply)

text \<open>The room for the cells in a cache of one stream.\<close>

definition free_run :: "kv_cells \<Rightarrow> nat \<Rightarrow> nat \<Rightarrow> bool" where
  "free_run c n w = (w + n \<le> cells_size c \<and> (\<forall>i. w \<le> i \<and> i < w + n \<longrightarrow> cells_is_empty c i))"

lemma find_slot_run:
  assumes "plain_kv kv" and "ubatch_fits kv u"
  shows "(\<exists>w. free_run (kv_v_cells kv ! 0) (ub_n_tokens u) w \<and>
      find_slot kv u True = Some (single_slot [w..<w + ub_n_tokens u])) \<or>
    (\<forall>w. \<not> free_run (kv_v_cells kv ! 0) (ub_n_tokens u) w) \<and> find_slot kv u True = Some empty_slot"
proof -
  let ?c = "kv_v_cells kv ! 0"
  have a: "kv_wf kv" "kv_n_stream kv = 1" "seq_valid kv (ub_seq_id_unq u ! 0)" "1 \<le> ub_n_tokens u"
    using assms by (auto simp: plain_kv_def ubatch_fits_def)
  note pc = plain_cells [OF assms(1)]
  have h: "kv_v_heads kv ! 0 \<le> cells_size ?c" using pc by simp
  have w: "window (cells_size ?c) (can_use kv ?c) (ub_n_tokens u) = free_run ?c (ub_n_tokens u)"
    using can_use_plain [OF assms(1)] by (auto simp: window_def free_run_def fun_eq_iff)
  from stream_slot_spec(1) [OF a(4) h, of kv] obtain r where "stream_slot kv ?c (kv_v_heads kv ! 0) (ub_n_tokens u) True = Some r"
    "case r of Some idxs \<Rightarrow> \<exists>v. free_run ?c (ub_n_tokens u) v \<and> idxs = [v..<v + ub_n_tokens u]
     | None \<Rightarrow> \<forall>v. \<not> free_run ?c (ub_n_tokens u) v" unfolding w by blast
  then show ?thesis
    unfolding find_slot_single [OF a(1-3)] single_slot_def by (cases r) auto
qed

lemma restored_ubatch_simps:
  "ub_n_tokens (restored_ubatch n d ps) = n" "ub_pos (restored_ubatch n d ps) = ps"
  "ub_seq_id_unq (restored_ubatch n d ps) = [d]"
  "j < n \<Longrightarrow> token_ids (restored_ubatch n d ps) j = [nat d]"
  by (simp_all add: restored_ubatch_def ubatch_reserve_def Let_def token_ids_def seq_ids_of_def)

text \<open>The cells of the target: the run of cells that the restored ones take, the others as before.\<close>

definition run_restored :: "kv_cells \<Rightarrow> llama_pos list \<Rightarrow> nat \<Rightarrow> nat \<Rightarrow> kv_cells \<Rightarrow> bool" where
  "run_restored c ps w d c' =
     (\<forall>i < cells_size c. if w \<le> i \<and> i < w + length ps
        then kc_pos c' ! i = ps ! (i - w) \<and> kc_seq c' ! i = {d}
        else kc_pos c' ! i = kc_pos c ! i \<and> kc_seq c' ! i = kc_seq c ! i)"

lemma plain_head:
  assumes "plain_kv kv" and "w \<le> kv_get_size kv"
  shows "plain_kv (kv\<lparr>kv_v_heads := [w]\<rparr>)" and "kv_get_size (kv\<lparr>kv_v_heads := [w]\<rparr>) = kv_get_size kv"
proof -
  show g: "kv_get_size (kv\<lparr>kv_v_heads := [w]\<rparr>) = kv_get_size kv" by (simp add: kv_get_size_def)
  show "plain_kv (kv\<lparr>kv_v_heads := [w]\<rparr>)"
    using assms unfolding plain_kv_def kv_wf_def g by auto
qed

lemma place_restored_run:
  fixes st :: kv_store
  assumes "plain_kv (ks_kv st)" and "seq_valid (ks_kv st) d" and "ps \<noteq> []" and "\<forall>p\<in>set ps. 0 \<le> p"
  shows "(\<forall>w. \<not> free_run (cells_of st 0) (length ps) w) \<and>
      place_restored 0 (length ps) d (restored_ubatch (length ps) d ps) (st, r) = (Refused, st, r) \<or>
    (\<exists>w kv. free_run (cells_of st 0) (length ps) w \<and> plain_kv kv \<and> kv_get_size kv = kv_get_size (ks_kv st) \<and>
      kv_v_heads kv = [w] \<and> kv_seq_to_stream kv = kv_seq_to_stream (ks_kv st) \<and>
      run_restored (cells_of st 0) ps w (nat d) (kv_v_cells kv ! 0) \<and>
      place_restored 0 (length ps) d (restored_ubatch (length ps) d ps) (st, r) = (Loaded (), st\<lparr>ks_kv := kv\<rparr>, r))"
proof -
  let ?u = "restored_ubatch (length ps) d ps" and ?kv = "ks_kv st" and ?c = "cells_of st 0" and ?n = "length ps"
  note u = restored_ubatch_simps
  have wf: "kv_wf ?kv" using assms(1) by (simp add: plain_kv_def)
  have d: "nat d < LLAMA_MAX_SEQ" "0 \<le> d" using assms(2) wf by (auto simp: seq_valid_def kv_wf_def)
  have fits: "ubatch_fits ?kv ?u"
    using assms(2,3,4) d(1) by (auto simp: ubatch_fits_def ubatch_ok_def u Suc_le_eq)
  note pc = plain_cells [OF assms(1)]
  have c: "kv_v_cells ?kv ! 0 = ?c" by (simp add: cells_of_def)
  consider (none) "\<forall>w. \<not> free_run ?c ?n w" "find_slot ?kv ?u True = Some empty_slot"
    | (run) w where "free_run ?c ?n w" "find_slot ?kv ?u True = Some (single_slot [w..<w + ?n])"
    using find_slot_run [OF assms(1) fits] unfolding c u by blast
  then show ?thesis
  proof cases
    case none
    then show ?thesis by (simp add: place_restored_def slot_empty_def empty_slot_def ld_apply)
  next
    case run
    let ?idxs = "[w..<w + ?n]"
    have idxs: "set ?idxs \<subseteq> {i. i < kv_get_size ?kv \<and> cells_is_empty (kv_v_cells ?kv ! 0) i}"
      using run(1) pc(4) by (auto simp: free_run_def c)
    have il: "length ?idxs = ub_n_tokens ?u" "distinct ?idxs" by (simp_all add: u)
    note pl = placed_plain [OF assms(1) fits il idxs]
    let ?p = "placed ?u ?idxs [0..<?n] ?c"
    define kv where "kv = (?kv\<lparr>kv_v_cells := [?p], kv_v_heads := [Suc (last ?idxs)]\<rparr>)\<lparr>kv_v_heads := [w]\<rparr>"
    have sub: "set ?idxs \<subseteq> {..<cells_size ?c}" using run(1) by (auto simp: free_run_def)
    note ar = placed_arrays [where u = ?u, OF _ il(2) _ sub, of ?n ?n]
    have inv: "kv_inv ?c" using pc(3) c by simp
    have at: "kc_pos ?p ! (w + j) = ps ! j" "kc_seq ?p ! (w + j) = {nat d}" if "j < ?n" for j
      using ar(1,2) [OF inv _ le_refl that] that by (simp_all add: u)
    have im: "(!) ?idxs ` {0..<?n} = {w..<w + ?n}"
      by (auto simp: image_iff)
    have out: "kc_pos ?p ! i = kc_pos ?c ! i" "kc_seq ?p ! i = kc_seq ?c ! i" if "i \<notin> {w..<w + ?n}" for i
      using ar(3,4) [OF inv _ le_refl, of i] that unfolding im by simp_all
    have size: "cells_size ?p = cells_size ?c"
      using placed_inv [OF inv _ sub, of ?u "[0..<?n]"] fits by (simp add: u ubatch_fits_def atLeast0LessThan)
    have rr: "run_restored ?c ps w (nat d) ?p"
      unfolding run_restored_def
    proof (intro allI impI)
      fix i assume "i < cells_size ?c"
      show "if w \<le> i \<and> i < w + ?n then kc_pos ?p ! i = ps ! (i - w) \<and> kc_seq ?p ! i = {nat d}
          else kc_pos ?p ! i = kc_pos ?c ! i \<and> kc_seq ?p ! i = kc_seq ?c ! i"
        using at [of "i - w"] out [of i] by auto
    qed
    have n0: "0 < ?n" using assms(3) by simp
    have hd: "slot_head (single_slot ?idxs) = Some w" "\<not> slot_empty (single_slot ?idxs)"
      using n0 by (simp_all add: slot_head_def single_slot_def slot_empty_def)
    have "w \<le> kv_get_size ?kv" using run(1) pc(4) by (simp add: free_run_def c)
    then have kv: "plain_kv kv" "kv_get_size kv = kv_get_size ?kv"
      using plain_head [OF pl(2), of w] pl(3) unfolding kv_def u c by simp_all
    let ?placed_kv = "?kv\<lparr>kv_v_cells := [?p], kv_v_heads := [Suc (last ?idxs)]\<rparr>"
    have ap: "apply_ubatch ?kv (single_slot ?idxs) ?u = Some ?placed_kv" using pl(1) by (simp add: u c)
    have st1: "set_head 0 w (st\<lparr>ks_kv := ?placed_kv\<rparr>) = st\<lparr>ks_kv := kv\<rparr>" by (simp add: set_head_def kv_def)
    have p0: "cells_of (st\<lparr>ks_kv := kv\<rparr>) 0 = ?p" by (simp add: cells_of_def kv_def)
    have wn: "w + ?n - 1 = w + (?n - 1)" using n0 by linarith
    have "w + ?n \<le> cells_size ?p \<and> cells_pos_get ?p w = ub_pos ?u ! 0 \<and>
        cells_pos_get ?p (w + ?n - 1) = ub_pos ?u ! (?n - 1) \<and> cells_seq_has ?p w (nat d) \<and> cells_seq_has ?p (w + ?n - 1) (nat d)"
      using run(1) size n0 at [of 0] at [of "?n - 1"]
      unfolding wn by (simp add: free_run_def cells_pos_get_def cells_seq_has_def u)
    then have "place_restored 0 ?n d ?u (st, r) = (Loaded (), st\<lparr>ks_kv := kv\<rparr>, r)"
      unfolding place_restored_def by (simp add: run(2) hd ap st1 p0 Let_def ld_apply)
    with run(1) kv rr show ?thesis
      by (intro disjI2 exI [of _ w] exI [of _ kv]) (simp add: kv_def)
  qed
qed

text \<open>Placing does not read.\<close>

lemma place_restored_input:
  assumes "place_restored strm n d u (st, r) = (Loaded (), st', r)"
  shows "place_restored strm n d u (st, r') = (Loaded (), st', r')"
  using assms by (auto simp: place_restored_def Let_def ld_apply ld_unless_def split: option.splits if_splits)

lemma seq_rm_plain:
  assumes "plain_kv kv" and "seq_valid kv d"
  obtains kv1 where "kv_seq_rm kv d (-1) (-1) = Some kv1" "plain_kv kv1" "kv_get_size kv1 = kv_get_size kv"
    "kv_seq_to_stream kv1 = kv_seq_to_stream kv"
    "\<forall>i < kv_get_size kv. cell_at (kv_v_cells kv1 ! 0) i = rm_content (nat d) 0 POS_MAX (cell_at (kv_v_cells kv ! 0) i)"
proof -
  let ?c = "kv_v_cells kv ! 0"
  note pc = plain_cells [OF assms(1)]
  have wf: "kv_wf kv" and n: "kv_n_stream kv = 1" using assms(1) by (simp_all add: plain_kv_def)
  have st: "stream_of kv d = 0" by (rule single_stream(1) [OF wf n assms(2)])
  obtain c' h where f: "fold (seq_rm_step (nat d) 0 POS_MAX) [0..<cells_size ?c] (?c, cells_size ?c) = (c', h)"
    by fastforce
  note r = rm_fold [OF pc(3) f]
  let ?h = "if h \<noteq> cells_size c' \<and> h < kv_v_heads kv ! 0 then h else kv_v_heads kv ! 0"
  let ?kv1 = "set_stream 0 c' ?h kv"
  have eq: "kv_seq_rm kv d (-1) (-1) = Some ?kv1"
    using assms(2) f by (simp add: kv_seq_rm_def st Let_def norm_p0_def norm_p1_def)
  have c': "cells_size c' = kv_get_size kv" "?h \<le> kv_get_size kv" using r pc by auto
  have wf1: "kv_wf ?kv1" using n by (intro kv_wf_set_stream [OF wf _ r(1) c']) simp
  have sz: "kv_get_size ?kv1 = kv_get_size kv" using n by (intro kv_get_size_set_stream [OF wf _ c'(1)]) simp
  show ?thesis
  proof (rule that [OF eq _ sz])
    show "plain_kv ?kv1" using wf1 assms(1) by (simp add: plain_kv_def)
    show "\<forall>i < kv_get_size kv. cell_at (kv_v_cells ?kv1 ! 0) i = rm_content (nat d) 0 POS_MAX (cell_at ?c i)"
      using r(4) pc(1,4) by simp
  qed simp
qed

text \<open>What a target of one stream is when the sequence has been removed from it.\<close>

definition seq_removed :: "nat \<Rightarrow> kv_store \<Rightarrow> kv_store \<Rightarrow> bool" where
  "seq_removed d st st1 =
     (st1 = st\<lparr>ks_kv := ks_kv st1\<rparr> \<and> plain_kv (ks_kv st1) \<and> kv_get_size (ks_kv st1) = kv_get_size (ks_kv st) \<and>
      kv_seq_to_stream (ks_kv st1) = kv_seq_to_stream (ks_kv st) \<and>
      (\<forall>i < kv_get_size (ks_kv st). cell_at (cells_of st1 0) i = rm_content d 0 POS_MAX (cell_at (cells_of st 0) i)))"

lemma store_seq_rm_plain:
  assumes "plain_kv (ks_kv st)" and "seq_valid (ks_kv st) d"
  obtains st1 where "store_seq_rm d st = Some st1" "seq_removed (nat d) st st1"
proof -
  obtain kv1 where "kv_seq_rm (ks_kv st) d (-1) (-1) = Some kv1" "plain_kv kv1" "kv_get_size kv1 = kv_get_size (ks_kv st)"
    "kv_seq_to_stream kv1 = kv_seq_to_stream (ks_kv st)"
    "\<forall>i < kv_get_size (ks_kv st). cell_at (kv_v_cells kv1 ! 0) i = rm_content (nat d) 0 POS_MAX (cell_at (kv_v_cells (ks_kv st) ! 0) i)"
    using seq_rm_plain [OF assms] by metis
  then show ?thesis
    by (intro that [of "st\<lparr>ks_kv := kv1\<rparr>"]) (auto simp: store_seq_rm_def seq_removed_def cells_of_def)
qed

lemma seq_removed_twice:
  fixes st :: kv_store
  assumes "seq_removed d st st1" and "seq_removed d st1 st2"
  shows "seq_removed d st st2"
proof -
  have "rm_content d 0 POS_MAX (rm_content d 0 POS_MAX x) = rm_content d 0 POS_MAX x" for x
    by (cases x) (auto simp: rm_content_def in_range_def)
  moreover have "st2 = st\<lparr>ks_kv := ks_kv st2\<rparr>"
    using assms by (cases st; cases st1; cases st2) (auto simp: seq_removed_def)
  ultimately show ?thesis
    using assms by (simp add: seq_removed_def)
qed

lemma plain_stream:
  assumes "store_wf st" and "kv_n_stream (ks_kv st) = 1" and "kv_swa_type (ks_kv st) = LLAMA_SWA_TYPE_NONE"
  shows "plain_kv (ks_kv st)"
  using assms by (simp add: plain_kv_def store_wf_def)

lemma store_wf_plain:
  assumes "store_wf st" and "plain_kv (ks_kv st)" and "plain_kv kv" and "kv_get_size kv = kv_get_size (ks_kv st)"
  shows "store_wf (st\<lparr>ks_kv := kv\<rparr>)"
  using assms by (auto simp: store_wf_def plain_kv_def)

text \<open>
  Reading the cells of a sequence: a run of cells that was free after the removal of the target
  sequence holds them afterwards; without such a run the sequence is removed, no more.
\<close>

lemma read_sequence_meta:
  fixes st st' :: kv_store
  assumes "store_ok st" and "s < kv_n_stream (ks_kv st)" and "q < kv_n_seq_max (ks_kv st)"
    and "plain_kv (ks_kv st')" and "seq_valid (ks_kv st') d" and "saved st (int q) s \<noteq> []"
  defines "cs \<equiv> saved st (int q) s"
  obtains (none) st1 where "seq_removed (nat d) st' st1" "\<forall>w. \<not> free_run (cells_of st1 0) (length cs) w"
      "\<forall>r. state_read_meta 0 (length cs) d (st', concat (map (cell_bytes st (int q) s) cs) @ r) = (Refused, st1, r)"
    | (run) st1 w kv where "seq_removed (nat d) st' st1" "free_run (cells_of st1 0) (length cs) w"
      "\<forall>r. state_read_meta 0 (length cs) d (st', concat (map (cell_bytes st (int q) s) cs) @ r) = (Loaded (), st'\<lparr>ks_kv := kv\<rparr>, r)"
      "plain_kv kv" "kv_get_size kv = kv_get_size (ks_kv st')" "kv_v_heads kv = [w]"
      "run_restored (cells_of st1 0) (map (\<lambda>i. kc_pos (cells_of st s) ! i) cs) w (nat d) (kv_v_cells kv ! 0)"
      "w + length cs \<le> kv_get_size kv"
proof -
  obtain st1 where rm: "store_seq_rm d st' = Some st1" "seq_removed (nat d) st' st1"
    using store_seq_rm_plain [OF assms(4,5)] by metis
  define kv1 where "kv1 = ks_kv st1"
  have kv1: "st1 = st'\<lparr>ks_kv := kv1\<rparr>" "plain_kv kv1" "kv_get_size kv1 = kv_get_size (ks_kv st')"
    "kv_seq_to_stream kv1 = kv_seq_to_stream (ks_kv st')" using rm(2) by (simp_all add: seq_removed_def kv1_def)
  let ?ps = "map (\<lambda>i. kc_pos (cells_of st s) ! i) cs"
  let ?place = "place_restored 0 (length ?ps) d (restored_ubatch (length ?ps) d ?ps)"
  have sub: "set cs \<subseteq> set (saved st (int q) s)" by (simp add: cs_def)
  have d: "d \<noteq> -1" "seq_valid kv1 d" using assms(5) kv1(4) by (auto simp: seq_valid_def)
  have ps: "?ps \<noteq> []" "\<forall>p\<in>set ?ps. 0 \<le> p" using assms(6) saved_pos(1) [OF assms(1,2)] by (auto simp: cs_def)
  have meta: "state_read_meta 0 (length cs) d (st', concat (map (cell_bytes st (int q) s) cs) @ r) = ?place (st1, r)" for r
    using d(1) read_positions [OF assms(1-3) sub, of st1 r]
    by (simp add: state_read_meta_def read_meta_single_def ld_change_bind rm(1) ld_bind_loaded)
  have pl: "plain_kv (ks_kv st1)" "seq_valid (ks_kv st1) d" using kv1 d(2) by simp_all
  show ?thesis
  proof (cases "\<exists>w. free_run (cells_of st1 0) (length ?ps) w")
    case False
    with place_restored_run [OF pl ps] have "?place (st1, r) = (Refused, st1, r)" for r by blast
    with False show ?thesis by (intro none [OF rm(2)]) (simp_all add: meta)
  next
    case True
    have c1: "cells_size (cells_of st1 0) = kv_get_size (ks_kv st')"
      using plain_cells(4) [OF kv1(2)] kv1(1,3) by (simp add: cells_of_def)
    from True place_restored_run [OF pl ps, of "[]"] obtain w kv where
      w: "free_run (cells_of st1 0) (length ?ps) w" "plain_kv kv" "kv_get_size kv = kv_get_size kv1"
        "kv_v_heads kv = [w]" "run_restored (cells_of st1 0) ?ps w (nat d) (kv_v_cells kv ! 0)"
        "?place (st1, []) = (Loaded (), st1\<lparr>ks_kv := kv\<rparr>, [])" using kv1(1) by auto
    have "?place (st1, r) = (Loaded (), st1\<lparr>ks_kv := kv\<rparr>, r)" for r
      using place_restored_input [OF w(6)] by simp
    with w kv1(1,3) c1 show ?thesis by (intro run [OF rm(2), of w kv]) (simp_all add: meta free_run_def)
  qed
qed

lemma read_sequence:
  fixes st st' :: kv_store
  assumes "store_ok st" and "s < kv_n_stream (ks_kv st)" and "q < kv_n_seq_max (ks_kv st)"
    and "store_wf st'" and "plain_kv (ks_kv st')" and "seq_valid (ks_kv st') d" and "same_layout st st'"
    and "saved st (int q) s \<noteq> []" and "readable st'"
  defines "cs \<equiv> saved st (int q) s"
  obtains st1 where "seq_removed (nat d) st' st1"
    "(\<forall>w. \<not> free_run (cells_of st1 0) (length cs) w) \<and>
       ld_bind (state_read_meta 0 (length cs) d) (\<lambda>_. state_read_data 0 (length cs))
         (st', concat (map (cell_bytes st (int q) s) cs) @ data_bytes st s cs @ r) = (Refused, st1, data_bytes st s cs @ r) \<or>
     (\<exists>w kv lys. free_run (cells_of st1 0) (length cs) w \<and>
       ld_bind (state_read_meta 0 (length cs) d) (\<lambda>_. state_read_data 0 (length cs))
         (st', concat (map (cell_bytes st (int q) s) cs) @ data_bytes st s cs @ r) =
         (Loaded (), st'\<lparr>ks_kv := kv, ks_layers := lys\<rparr>, r) \<and>
       plain_kv kv \<and> kv_get_size kv = kv_get_size (ks_kv st') \<and>
       run_restored (cells_of st1 0) (map (\<lambda>i. kc_pos (cells_of st s) ! i) cs) w (nat d) (kv_v_cells kv ! 0) \<and>
       length lys = length (ks_layers st') \<and>
       (\<forall>l < length lys. layer_restored (ks_v_trans st) (kv_get_size (ks_kv st)) s cs (kv_get_size (ks_kv st')) 0 w
          (ks_layers st ! l) (ks_layers st' ! l) (lys ! l)))"
proof -
  have cs: "cs \<noteq> []" using assms(8) by (simp add: cs_def)
  consider (none) st1 where "seq_removed (nat d) st' st1" "\<forall>w. \<not> free_run (cells_of st1 0) (length cs) w"
      "\<forall>r. state_read_meta 0 (length cs) d (st', concat (map (cell_bytes st (int q) s) cs) @ r) = (Refused, st1, r)"
    | (run) st1 w kv where "seq_removed (nat d) st' st1" "free_run (cells_of st1 0) (length cs) w"
      "\<forall>r. state_read_meta 0 (length cs) d (st', concat (map (cell_bytes st (int q) s) cs) @ r) = (Loaded (), st'\<lparr>ks_kv := kv\<rparr>, r)"
      "plain_kv kv" "kv_get_size kv = kv_get_size (ks_kv st')" "kv_v_heads kv = [w]"
      "run_restored (cells_of st1 0) (map (\<lambda>i. kc_pos (cells_of st s) ! i) cs) w (nat d) (kv_v_cells kv ! 0)"
      "w + length cs \<le> kv_get_size kv"
    using read_sequence_meta [OF assms(1-3,5,6,8)] unfolding cs_def by metis
  then show ?thesis
  proof cases
    case none
    then show ?thesis by (intro that [OF none(1)]) (simp add: ld_bind_def)
  next
    case run
    let ?st2 = "st'\<lparr>ks_kv := kv\<rparr>"
    have wf2: "store_wf ?st2" by (rule store_wf_plain [OF assms(4,5) run(4,5)])
    have lay: "same_layout st ?st2" using assms(7) by (simp add: same_layout_def)
    have fits: "kv_v_heads (ks_kv ?st2) ! 0 + length cs \<le> kv_get_size (ks_kv ?st2)" using run(6,8) by simp
    have in_size: "set cs \<subseteq> {..<kv_get_size (ks_kv st)}" using saved_pos(3) [OF assms(1,2)] by (auto simp: cs_def)
    have n2: "0 < kv_n_stream (ks_kv ?st2)" using run(4) by (simp add: plain_kv_def)
    have rd: "readable ?st2" using assms(9) run(5) by (simp add: readable_def)
    from state_read_data_restores [OF store_ok_wf [OF assms(1)] assms(2) wf2 n2 lay cs in_size fits rd, of r]
    obtain lys where lys: "state_read_data 0 (length cs) (?st2, data_bytes st s cs @ r) = (Loaded (), ?st2\<lparr>ks_layers := lys\<rparr>, r)"
      "length lys = length (ks_layers st')"
      "\<forall>l < length lys. layer_restored (ks_v_trans st) (kv_get_size (ks_kv st)) s cs (kv_get_size (ks_kv st')) 0 w
         (ks_layers st ! l) (ks_layers st' ! l) (lys ! l)"
      using run(5,6) by auto
    with run show ?thesis
      by (intro that [OF run(1)] disjI2 exI [of _ w] exI [of _ kv] exI [of _ lys]) (simp add: ld_bind_def)
  qed
qed

lemma saved_count:
  assumes "store_ok st" and "s < kv_n_stream (ks_kv st)"
  shows "unat (word_of_nat (length (saved st seq_id s)) :: uint32) = length (saved st seq_id s)"
proof -
  have "length (saved st seq_id s) < 2 ^ 32"
    using length_saved [of st seq_id s] store_cells(2) [OF store_ok_wf [OF assms(1)] assms(2)] assms(1)
    by (simp add: store_ok_def store_wf_def)
  then show ?thesis by (simp add: unat_of_nat)
qed

text \<open>What the restore of a sequence leaves when there is room at \<open>w\<close>.\<close>

definition sequence_restored :: "kv_store \<Rightarrow> nat \<Rightarrow> kv_store \<Rightarrow> nat \<Rightarrow> kv_store \<Rightarrow> nat \<Rightarrow> kv_store \<Rightarrow> bool" where
  "sequence_restored st q st' d st1 w st'' =
     (let cs = saved st (int q) 0 in
      plain_kv (ks_kv st'') \<and> kv_get_size (ks_kv st'') = kv_get_size (ks_kv st') \<and> ks_v_trans st'' = ks_v_trans st' \<and>
      run_restored (cells_of st1 0) (map (\<lambda>i. kc_pos (cells_of st 0) ! i) cs) w d (cells_of st'' 0) \<and>
      length (ks_layers st'') = length (ks_layers st') \<and>
      (\<forall>l < length (ks_layers st''). layer_restored (ks_v_trans st) (kv_get_size (ks_kv st)) 0 cs (kv_get_size (ks_kv st')) 0 w
         (ks_layers st ! l) (ks_layers st' ! l) (ks_layers st'' ! l)))"

lemma state_read_sequence:
  fixes st st' :: kv_store
  assumes "store_ok st" and "kv_n_stream (ks_kv st) = 1" and "q < kv_n_seq_max (ks_kv st)"
    and "store_wf st'" and "plain_kv (ks_kv st')" and "seq_valid (ks_kv st') d" and "same_layout st st'"
    and "saved st (int q) 0 \<noteq> []" and "readable st'"
  obtains st1 where "seq_removed (nat d) st' st1"
    "(\<forall>w. \<not> free_run (cells_of st1 0) (length (saved st (int q) 0)) w) \<and>
       (\<exists>st2 r'. state_read d (st', state_bytes st (int q) @ r) = (Thrown RestoreFailed, st2, r') \<and> seq_removed (nat d) st' st2) \<or>
     (\<exists>w st''. free_run (cells_of st1 0) (length (saved st (int q) 0)) w \<and>
       state_read d (st', state_bytes st (int q) @ r) = (Loaded (), st'', r) \<and> sequence_restored st q st' (nat d) st1 w st'')"
proof -
  let ?cs = "saved st (int q) 0"
  let ?body = "concat (map (cell_bytes st (int q) 0) ?cs) @ data_bytes st 0 ?cs @ r"
  let ?m = "ld_bind (state_read_meta 0 (length ?cs) d) (\<lambda>_. state_read_data 0 (length ?cs))"
  have s0: "0 < kv_n_stream (ks_kv st)" using assms(2) by simp
  have n': "kv_n_stream (ks_kv st') = 1" and wf': "kv_wf (ks_kv st')" using assms(5) by (simp_all add: plain_kv_def)
  have d: "d \<noteq> -1" "stream_of (ks_kv st') d = 0"
    using assms(6) single_stream(1) [OF wf' n'] by (auto simp: seq_valid_def)
  have b: "state_bytes st (int q) @ r = write_u32 1 @ write_u32 (word_of_nat (length ?cs)) @ ?body"
    using assms(2,8) by (simp add: state_bytes_def stream_bytes_def Let_def)
  have rd: "state_read d (st', state_bytes st (int q) @ r) =
      ld_bind (ld_refused ?m (ld_bind (ld_change (store_seq_rm d)) (\<lambda>_. ld_stop (Thrown RestoreFailed))))
        (\<lambda>_. ld_return ()) (st', ?body)"
    unfolding b using assms(2,6,8) n' d saved_count [OF assms(1) s0]
    by (simp add: state_read_def u32.ld_decode read_stream_def ld_bind_assoc Let_def)
  obtain st1 where st1: "seq_removed (nat d) st' st1" and
    c: "(\<forall>w. \<not> free_run (cells_of st1 0) (length ?cs) w) \<and> ?m (st', ?body) = (Refused, st1, data_bytes st 0 ?cs @ r) \<or>
     (\<exists>w kv lys. free_run (cells_of st1 0) (length ?cs) w \<and> ?m (st', ?body) = (Loaded (), st'\<lparr>ks_kv := kv, ks_layers := lys\<rparr>, r) \<and>
       plain_kv kv \<and> kv_get_size kv = kv_get_size (ks_kv st') \<and>
       run_restored (cells_of st1 0) (map (\<lambda>i. kc_pos (cells_of st 0) ! i) ?cs) w (nat d) (kv_v_cells kv ! 0) \<and>
       length lys = length (ks_layers st') \<and>
       (\<forall>l < length lys. layer_restored (ks_v_trans st) (kv_get_size (ks_kv st)) 0 ?cs (kv_get_size (ks_kv st')) 0 w
          (ks_layers st ! l) (ks_layers st' ! l) (lys ! l)))"
    using read_sequence [OF assms(1) s0 assms(3-9), of r] by metis
  from c show ?thesis
  proof (elim disjE conjE exE)
    assume no: "\<forall>w. \<not> free_run (cells_of st1 0) (length ?cs) w" and m: "?m (st', ?body) = (Refused, st1, data_bytes st 0 ?cs @ r)"
    have "plain_kv (ks_kv st1)" "seq_valid (ks_kv st1) d" using st1 assms(6) by (simp_all add: seq_removed_def seq_valid_def)
    then obtain st2 where st2: "store_seq_rm d st1 = Some st2" "seq_removed (nat d) st1 st2"
      using store_seq_rm_plain by metis
    have "state_read d (st', state_bytes st (int q) @ r) = (Thrown RestoreFailed, st2, data_bytes st 0 ?cs @ r)"
      unfolding rd by (rule ld_bind_thrown) (simp add: ld_refused_def m ld_change_bind st2(1) ld_apply)
    with no seq_removed_twice [OF st1 st2(2)] show ?thesis by (intro that [OF st1] disjI1) blast
  next
    fix w kv lys
    assume w: "free_run (cells_of st1 0) (length ?cs) w" and m: "?m (st', ?body) = (Loaded (), st'\<lparr>ks_kv := kv, ks_layers := lys\<rparr>, r)"
      and r: "plain_kv kv" "kv_get_size kv = kv_get_size (ks_kv st')"
        "run_restored (cells_of st1 0) (map (\<lambda>i. kc_pos (cells_of st 0) ! i) ?cs) w (nat d) (kv_v_cells kv ! 0)"
        "length lys = length (ks_layers st')"
        "\<forall>l < length lys. layer_restored (ks_v_trans st) (kv_get_size (ks_kv st)) 0 ?cs (kv_get_size (ks_kv st')) 0 w
          (ks_layers st ! l) (ks_layers st' ! l) (lys ! l)"
    have "state_read d (st', state_bytes st (int q) @ r) = (Loaded (), st'\<lparr>ks_kv := kv, ks_layers := lys\<rparr>, r)"
      unfolding rd by (subst ld_bind_loaded [where x = "()"]) (simp_all add: ld_refused_def m ld_apply)
    moreover have "sequence_restored st q st' (nat d) st1 w (st'\<lparr>ks_kv := kv, ks_layers := lys\<rparr>)"
      using r by (simp add: sequence_restored_def Let_def cells_of_def)
    ultimately show ?thesis using w by (intro that [OF st1] disjI2) blast
  qed
qed

section \<open>A whole cache\<close>

lemma change_cells_twice:
  "strm < length (kv_v_cells (ks_kv st)) \<Longrightarrow> change_cells strm g (change_cells strm f st) = change_cells strm (g \<circ> f) st"
  by (simp add: change_cells_def cells_of_def)

lemma length_change_cells [simp]: "length (kv_v_cells (ks_kv (change_cells strm f st))) = length (kv_v_cells (ks_kv st))"
  by (simp add: change_cells_def)

lemma change_cells_id [simp]: "change_cells strm id st = st" "change_cells strm (\<lambda>c. c) st = st"
  by (simp_all add: change_cells_def cells_of_def)

lemma read_seqs:
  fixes st :: kv_store
  assumes "set ids \<subseteq> {..<n_seq_max}" and "n_seq_max \<le> LLAMA_MAX_SEQ" and "length js = length ids"
    and "strm < length (kv_v_cells (ks_kv st))"
  shows "ld_each (\<lambda>j. read_cell_seq strm n_seq_max i) js (st, concat (map (\<lambda>s. write_i32 (int s)) ids) @ r) =
    (Loaded (), change_cells strm (fold (cells_seq_add i) ids) st, r)"
  using assms(1,3,4)
proof (induction ids arbitrary: js st)
  case (Cons q ids)
  then obtain j js' where js: "js = j # js'" by (cases js) auto
  have q: "- (2 ^ 31) \<le> int q \<and> int q < 2 ^ 31" using Cons.prems assms(2) by (simp add: LLAMA_MAX_SEQ_def)
  have "read_cell_seq strm n_seq_max i (st, write_i32 (int q) @ r') = (Loaded (), change_cells strm (cells_seq_add i q) st, r')" for r'
    using q Cons.prems(1) by (simp add: read_cell_seq_def i32.ld_decode ld_change_def)
  with Cons js show ?case by (simp add: ld_bind_def change_cells_twice comp_def)
qed (simp add: ld_apply)

lemma fill_empty:
  assumes "kv_inv c" and "i < cells_size c" and "cells_is_empty c i" and "0 \<le> p" and "distinct ids"
    and "set ids \<subseteq> {..<LLAMA_MAX_SEQ}"
  shows "fold (cells_seq_add i) ids (cells_pos_set i p c) = put_cell i p 0 (set ids) c"
    and "kv_inv (put_cell i p 0 (set ids) c)"
proof -
  show "kv_inv (put_cell i p 0 (set ids) c)"
    using assms by (intro kv_inv_put) (auto simp: cell_ok_def)
  show "fold (cells_seq_add i) ids (cells_pos_set i p c) = put_cell i p 0 (set ids) c"
  proof (cases "ids = []")
    case True
    with assms show ?thesis by (simp add: cells_pos_set_put cells_is_empty_def)
  next
    case False
    with assms show ?thesis by (intro place_empty(1))
  qed
qed

lemma cell_bytes_whole:
  "cell_bytes st (-1) s i =
    (let ids = filter (cells_seq_has (cells_of st s) i) [0..<kv_n_seq_max (ks_kv st)] in
     write_i32 (kc_pos (cells_of st s) ! i) @ write_u32 (word_of_nat (length ids)) @ concat (map (\<lambda>s. write_i32 (int s)) ids))"
  by (simp add: cell_bytes_def write_cell_meta_def Let_def cells_pos_get_def items_bytes_def item_bytes_def comp_def)

text \<open>The cells of the target while they are filled one after the other.\<close>

definition cells_filled :: "kv_store \<Rightarrow> nat \<Rightarrow> nat list \<Rightarrow> nat \<Rightarrow> kv_cells \<Rightarrow> bool" where
  "cells_filled st s cs sz c = (kv_inv c \<and> cells_size c = sz \<and> \<not> kc_has_shift c \<and>
     (\<forall>i < sz. cell_at c i = (if i < length cs then (kc_pos (cells_of st s) ! (cs ! i), 0, kc_seq (cells_of st s) ! (cs ! i))
       else (-1, 0, {}))))"

lemma read_cells:
  fixes st st' :: kv_store
  assumes "store_ok st" and "s < kv_n_stream (ks_kv st)" and "kv_n_seq_max (ks_kv st) \<le> n'" and "n' \<le> LLAMA_MAX_SEQ"
    and "set cs \<subseteq> set (saved st (-1) s)" and "strm < length (kv_v_cells (ks_kv st'))"
    and "length cs \<le> sz" and "cells_filled st s [] sz (cells_of st' strm)"
  shows "\<exists>c. ld_each (read_cell strm n') [0..<length cs] (st', concat (map (cell_bytes st (-1) s) cs) @ r) =
      (Loaded (), change_cells strm (\<lambda>_. c) st', r) \<and> cells_filled st s cs sz c"
  using assms(5,7)
proof (induction cs arbitrary: r rule: rev_induct)
  case Nil
  have "change_cells strm (\<lambda>_. cells_of st' strm) st' = st'" by (simp add: change_cells_def cells_of_def)
  with assms(8) show ?case by (intro exI [of _ "cells_of st' strm"]) (simp add: ld_apply)
next
  case (snoc i cs)
  let ?n = "length cs" and ?src = "cells_of st s"
  define ids where "ids = filter (cells_seq_has ?src i) [0..<kv_n_seq_max (ks_kv st)]"
  from snoc.prems have pre: "set cs \<subseteq> set (saved st (-1) s)" "length cs \<le> sz" "?n < sz" and i: "i \<in> set (saved st (-1) s)"
    by auto
  from snoc.IH [OF pre(1,2), of "cell_bytes st (-1) s i @ r"] obtain c where
    c: "ld_each (read_cell strm n') [0..<?n] (st', concat (map (cell_bytes st (-1) s) cs) @ cell_bytes st (-1) s i @ r) =
      (Loaded (), change_cells strm (\<lambda>_. c) st', cell_bytes st (-1) s i @ r)" "cells_filled st s cs sz c" by blast
  note p = saved_pos [OF assms(1,2) i]
  have seq: "set ids = kc_seq ?src ! i"
    using store_contents(2) [OF assms(1,2) p(3)] by (auto simp: ids_def cells_seq_has_def)
  have ids: "distinct ids" "set ids \<subseteq> {..<n'}" "set ids \<subseteq> {..<LLAMA_MAX_SEQ}" "unat (word_of_nat (length ids) :: uint32) = length ids"
  proof -
    show "distinct ids" "set ids \<subseteq> {..<n'}" "set ids \<subseteq> {..<LLAMA_MAX_SEQ}" using assms(3,4) by (auto simp: ids_def)
    have "length ids \<le> kv_n_seq_max (ks_kv st)" unfolding ids_def by (metis length_filter_le length_upt diff_zero)
    then show "unat (word_of_nat (length ids) :: uint32) = length ids"
      using assms(3,4) by (simp add: unat_of_nat LLAMA_MAX_SEQ_def)
  qed
  have emp: "cells_is_empty c ?n" and n: "?n < cells_size c" and inv: "kv_inv c"
    using c(2) pre(3) by (auto simp: cells_filled_def cells_is_empty_def cell_at_def)
  note f = fill_empty [OF inv n emp p(1) ids(1,3)]
  let ?c = "put_cell ?n (kc_pos ?src ! i) 0 (set ids) c"
  have pr: "- (2 ^ 31) \<le> kc_pos ?src ! i \<and> kc_pos ?src ! i < 2 ^ 31" using p by simp
  have "ld_each (\<lambda>j. read_cell_seq strm n' ?n) [0..<length ids]
      (change_cells strm (\<lambda>_. cells_pos_set ?n (kc_pos ?src ! i) c) st', concat (map (\<lambda>s. write_i32 (int s)) ids) @ r) =
      (Loaded (), change_cells strm (\<lambda>_. ?c) st', r)"
    using read_seqs [OF ids(2) assms(4), of "[0..<length ids]" strm
        "change_cells strm (\<lambda>_. cells_pos_set ?n (kc_pos ?src ! i) c) st'" ?n r] assms(6) f(1)
    by (simp add: change_cells_twice comp_def)
  then have "read_cell strm n' ?n (change_cells strm (\<lambda>_. c) st', cell_bytes st (-1) s i @ r) = (Loaded (), change_cells strm (\<lambda>_. ?c) st', r)"
    unfolding read_cell_def cell_bytes_whole Let_def ids_def [symmetric]
    using pr assms(6) ids(4)
    by (simp add: i32.ld_decode u32.ld_decode ld_change_bind change_cells_twice comp_def)
  then have "ld_each (read_cell strm n') [0..<length (cs @ [i])] (st', concat (map (cell_bytes st (-1) s) (cs @ [i])) @ r) =
      (Loaded (), change_cells strm (\<lambda>_. ?c) st', r)"
    using c(1) by (simp add: ld_each_snoc ld_bind_loaded)
  moreover have "cells_filled st s (cs @ [i]) sz ?c"
    using c(2) f(2) inv n seq by (auto simp: cells_filled_def nth_append less_Suc_eq)
  ultimately show ?case by blast
qed

lemma kv_clear_plain:
  assumes "plain_kv kv"
  shows "kv_clear kv = kv\<lparr>kv_v_cells := [cells_reset (kv_v_cells kv ! 0)], kv_v_heads := [0]\<rparr>"
  using assms plain_cells(1,2) [OF assms]
  by (cases "kv_v_cells kv"; cases "kv_v_heads kv") (auto simp: kv_clear_def plain_kv_def set_stream_def)

lemma zeroed_layers:
  shows "list_all2 same_shape lys (map zeroed lys)" and "layer_ok v sz n ly \<Longrightarrow> layer_ok v sz n (zeroed ly)"
  by (auto simp: list_all2_conv_all_nth same_shape_def zeroed_def layer_ok_def)

text \<open>What the restore of a whole cache of one stream leaves.\<close>

definition whole_restored :: "kv_store \<Rightarrow> kv_store \<Rightarrow> kv_store \<Rightarrow> bool" where
  "whole_restored st st' st'' =
     (let cs = saved st (-1) 0 in
      plain_kv (ks_kv st'') \<and> kv_get_size (ks_kv st'') = kv_get_size (ks_kv st') \<and> kv_v_heads (ks_kv st'') = [0] \<and>
      cells_filled st 0 cs (kv_get_size (ks_kv st')) (cells_of st'' 0) \<and> length (ks_layers st'') = length (ks_layers st') \<and>
      (\<forall>l < length (ks_layers st''). layer_restored (ks_v_trans st) (kv_get_size (ks_kv st)) 0 cs (kv_get_size (ks_kv st')) 0 0
         (ks_layers st ! l) (zeroed (ks_layers st' ! l)) (ks_layers st'' ! l)))"

lemma plain_filled:
  assumes "plain_kv kv" and "cells_filled st s cs (kv_get_size kv) c" and "h \<le> kv_get_size kv"
  shows "plain_kv (kv\<lparr>kv_v_cells := [c], kv_v_heads := [h]\<rparr>)"
    and "kv_get_size (kv\<lparr>kv_v_cells := [c], kv_v_heads := [h]\<rparr>) = kv_get_size kv"
proof -
  note pc = plain_cells [OF assms(1)]
  have wf: "kv_wf kv" and n: "kv_n_stream kv = 1" using assms(1) by (simp_all add: plain_kv_def)
  have eq: "kv\<lparr>kv_v_cells := [c], kv_v_heads := [h]\<rparr> = set_stream 0 c h kv"
    using pc(1,2) by (cases "kv_v_cells kv"; cases "kv_v_heads kv") (auto simp: set_stream_def)
  have c: "kv_inv c" "cells_size c = kv_get_size kv" using assms(2) by (simp_all add: cells_filled_def)
  show "plain_kv (kv\<lparr>kv_v_cells := [c], kv_v_heads := [h]\<rparr>)"
    unfolding eq using kv_wf_set_stream [OF wf _ c assms(3)] assms(1) n by (simp add: plain_kv_def)
  show "kv_get_size (kv\<lparr>kv_v_cells := [c], kv_v_heads := [h]\<rparr>) = kv_get_size kv"
    unfolding eq using n by (intro kv_get_size_set_stream [OF wf _ c(2)]) simp
qed

lemma state_read_whole:
  fixes st st' :: kv_store
  assumes "store_ok st" and "kv_n_stream (ks_kv st) = 1" and "store_wf st'" and "plain_kv (ks_kv st')"
    and "same_layout st st'" and "saved st (-1) 0 \<noteq> []" and "length (saved st (-1) 0) \<le> kv_get_size (ks_kv st')"
    and "kv_n_seq_max (ks_kv st) \<le> kv_n_seq_max (ks_kv st')" and "kv_n_seq_max (ks_kv st') \<le> LLAMA_MAX_SEQ" and "readable st'"
  shows "\<exists>st''. state_read (-1) (st', state_bytes st (-1) @ r) = (Loaded (), st'', r) \<and> whole_restored st st' st''"
proof -
  let ?cs = "saved st (-1) 0" and ?sz' = "kv_get_size (ks_kv st')" and ?kv = "ks_kv st'"
  let ?db = "data_bytes st 0 ?cs @ r"
  let ?body = "concat (map (cell_bytes st (-1) 0) ?cs) @ ?db"
  let ?m = "ld_bind (state_read_meta 0 (length ?cs) (-1)) (\<lambda>_. state_read_data 0 (length ?cs))"
  have s0: "0 < kv_n_stream (ks_kv st)" using assms(2) by simp
  have n': "kv_n_stream ?kv = 1" using assms(4) by (simp add: plain_kv_def)
  note pc = plain_cells [OF assms(4)]
  let ?clr = "kv_clear_data st'"
  have clr: "kv_v_cells (ks_kv ?clr) = [cells_reset (cells_of st' 0)]"
    by (simp add: kv_clear_data_def kv_clear_plain [OF assms(4)] cells_of_def)
  have "kv_inv (cells_reset (cells_of st' 0))"
    using pc(3) kv_inv_lengths by (intro kv_inv_reset) (auto simp: cells_of_def)
  then have "cells_filled st 0 [] ?sz' (cells_of ?clr 0)"
    using pc(4) kv_inv_lengths [OF pc(3)] unfolding cells_filled_def cells_of_def clr
    by (auto simp: cells_reset_def cells_size_def cell_at_def cells_of_def)
  from read_cells [OF assms(1) s0 assms(8,9) subset_refl _ assms(7) this, of ?db] obtain c where
    c: "ld_each (read_cell 0 (kv_n_seq_max ?kv)) [0..<length ?cs] (?clr, ?body) = (Loaded (), change_cells 0 (\<lambda>_. c) ?clr, ?db)"
      "cells_filled st 0 ?cs ?sz' c" using clr by auto
  define kv where "kv = ?kv\<lparr>kv_v_cells := [c], kv_v_heads := [0]\<rparr>"
  define st1 where "st1 = st'\<lparr>ks_kv := kv, ks_layers := map zeroed (ks_layers st')\<rparr>"
  have st1: "set_head 0 0 (change_cells 0 (\<lambda>_. c) ?clr) = st1"
    by (simp add: set_head_def change_cells_def kv_clear_data_def kv_clear_plain [OF assms(4)] st1_def kv_def)
  have meta: "state_read_meta 0 (length ?cs) (-1) (st', ?body) = (Loaded (), st1, ?db)"
    using assms(7) pc(4) st1 c(1)
    by (simp add: state_read_meta_def read_meta_whole_def cells_of_def ld_change_bind ld_change_def not_less ld_bind_loaded)
  have kv: "plain_kv kv" "kv_get_size kv = ?sz'"
    unfolding kv_def by (rule plain_filled [OF assms(4) c(2)]; simp)+
  have "store_wf (st'\<lparr>ks_kv := kv\<rparr>)" by (rule store_wf_plain [OF assms(3,4) kv])
  then have wf1: "store_wf st1" using zeroed_layers(2) by (auto simp: store_wf_def st1_def)
  have lay: "same_layout st st1"
    using assms(5) unfolding same_layout_def st1_def
    by (auto simp: list_all2_conv_all_nth same_shape_def zeroed_def)
  have in_size: "set ?cs \<subseteq> {..<kv_get_size (ks_kv st)}" using saved_pos(3) [OF assms(1) s0] by auto
  have n1: "0 < kv_n_stream (ks_kv st1)" using kv(1) by (simp add: st1_def plain_kv_def)
  have fits: "kv_v_heads (ks_kv st1) ! 0 + length ?cs \<le> kv_get_size (ks_kv st1)"
    using assms(7) kv(2) by (simp add: st1_def kv_def)
  have rd: "readable st1" using assms(10) kv(2) by (simp add: readable_def read_fits_def st1_def zeroed_def)
  from state_read_data_restores [OF store_ok_wf [OF assms(1)] s0 wf1 n1 lay assms(6) in_size fits rd, of r]
  obtain lys where lys: "state_read_data 0 (length ?cs) (st1, ?db) = (Loaded (), st1\<lparr>ks_layers := lys\<rparr>, r)"
    "length lys = length (ks_layers st')"
    "\<forall>l < length lys. layer_restored (ks_v_trans st) (kv_get_size (ks_kv st)) 0 ?cs ?sz' 0 0
       (ks_layers st ! l) (ks_layers st1 ! l) (lys ! l)"
    using kv(2) by (auto simp: st1_def kv_def)
  have m: "?m (st', ?body) = (Loaded (), st1\<lparr>ks_layers := lys\<rparr>, r)"
    using meta lys(1) by (simp add: ld_bind_def)
  have b: "state_bytes st (-1) @ r = write_u32 1 @ write_u32 (word_of_nat (length ?cs)) @ ?body"
    using assms(2,6) by (simp add: state_bytes_def stream_bytes_def Let_def)
  have "state_read (-1) (st', state_bytes st (-1) @ r) =
      ld_bind (ld_refused ?m (ld_bind (ld_change (\<lambda>st. Some (kv_clear_data st))) (\<lambda>_. ld_stop (Thrown RestoreFailed))))
        (\<lambda>_. ld_return ()) (st', ?body)"
    unfolding b using assms(2,6) n' saved_count [OF assms(1) s0]
    by (simp add: state_read_def u32.ld_decode read_stream_def ld_bind_assoc Let_def)
  also have "\<dots> = (Loaded (), st1\<lparr>ks_layers := lys\<rparr>, r)"
    by (subst ld_bind_loaded [where x = "()"]) (simp_all add: ld_refused_def m ld_apply)
  finally have "state_read (-1) (st', state_bytes st (-1) @ r) = (Loaded (), st1\<lparr>ks_layers := lys\<rparr>, r)" .
  moreover have "whole_restored st st' (st1\<lparr>ks_layers := lys\<rparr>)"
    using kv c(2) lys(2,3) by (simp add: whole_restored_def Let_def cells_of_def st1_def kv_def)
  ultimately show ?thesis by blast
qed

section \<open>A sequence in a file\<close>

definition file_head :: "llama_token list \<Rightarrow> byte list" where
  "file_head tokens = write_u32 LLAMA_STATE_SEQ_MAGIC @ write_u32 LLAMA_STATE_SEQ_VERSION @
     write_u32 (word_of_nat (length tokens)) @ concat (map write_i32 tokens)"

lemma length_write [simp]: "length (write_u32 w) = 4" "length (write_i32 n) = 4"
  by (simp_all add: write_u32_def write_i32_def)

lemma length_file_head: "length (file_head tokens) = 12 + 4 * length tokens"
  by (induction tokens) (simp_all add: file_head_def)

theorem sequence_file_restored:
  fixes st st' :: kv_store
  assumes "store_ok st" and "kv_n_stream (ks_kv st) = 1" and "q < kv_n_seq_max (ks_kv st)"
    and "store_wf st'" and "plain_kv (ks_kv st')" and "seq_valid (ks_kv st') d" and "same_layout st st'"
    and "saved st (int q) 0 \<noteq> []" and "\<forall>t\<in>set tokens. - (2 ^ 31) \<le> t \<and> t < 2 ^ 31" and "length tokens < 2 ^ 32"
    and "writable st" and "readable st'"
  shows "\<exists>n f. state_seq_save_file st (int q) tokens = Loaded (n, f) \<and> n = length f \<and>
    (if length tokens > n_token_capacity then state_seq_load_file d f n_token_capacity st' = (Loaded (0, None), st')
     else \<exists>st1 m st''. seq_removed (nat d) st' st1 \<and>
       state_seq_load_file d f n_token_capacity st' = (Loaded (m, Some tokens), st'') \<and>
       (if \<exists>w. free_run (cells_of st1 0) (length (saved st (int q) 0)) w
        then m = n \<and> (\<exists>w. free_run (cells_of st1 0) (length (saved st (int q) 0)) w \<and> sequence_restored st q st' (nat d) st1 w st'')
        else m = 0 \<and> seq_removed (nat d) st' st''))"
proof -
  let ?b = "state_bytes st (int q)" and ?f = "file_head tokens @ state_bytes st (int q)"
  obtain items where items: "state_write st (int q) = Some items" "items_bytes items = ?b" "list_all item_ok items"
    using state_write_bytes [OF assms(1), of "int q"] assms(11) by metis
  have save: "state_seq_save_file st (int q) tokens = Loaded (length ?f, ?f)"
    using items length_file_head [of tokens]
    by (simp add: state_seq_save_file_def write_file_bytes write_dummy_bytes file_head_def Let_def)
  have n: "unat (word_of_nat (length tokens) :: uint32) = length tokens" using assms(10) by (simp add: unat_of_nat)
  have toks: "ld_read (rd_times (length tokens) read_i32) (st', concat (map write_i32 tokens) @ r) = (Loaded tokens, st', r)" for r
    by (simp add: ld_read_def i32.decode_list [OF assms(9)])
  have head: "ld_bind (ld_read read_u32) (\<lambda>magic. ld_bind (ld_read read_u32) (\<lambda>version.
      ld_unless (magic \<noteq> LLAMA_STATE_SEQ_MAGIC \<or> version \<noteq> LLAMA_STATE_SEQ_VERSION) Refused
        (ld_bind (ld_read read_u32) (\<lambda>n_token_count. ld_unless (unat n_token_count > n_token_capacity) Refused
          (ld_read (rd_times (unat n_token_count) read_i32)))))) (st', ?f) =
      (if length tokens > n_token_capacity then (Refused, st', concat (map write_i32 tokens) @ ?b) else (Loaded tokens, st', ?b))"
    by (simp add: file_head_def u32.ld_decode n toks ld_apply)
  show ?thesis
  proof (cases "length tokens > n_token_capacity")
    case True
    then show ?thesis
      using head save by (simp add: state_seq_load_file_def)
  next
    case False
    have pos: "length ?b \<noteq> 0" by (simp add: state_bytes_def)
    obtain st1 where "seq_removed (nat d) st' st1"
      "(\<forall>w. \<not> free_run (cells_of st1 0) (length (saved st (int q) 0)) w) \<and>
         (\<exists>st2 r'. state_read d (st', ?b @ []) = (Thrown RestoreFailed, st2, r') \<and> seq_removed (nat d) st' st2) \<or>
       (\<exists>w st''. free_run (cells_of st1 0) (length (saved st (int q) 0)) w \<and>
         state_read d (st', ?b @ []) = (Loaded (), st'', []) \<and> sequence_restored st q st' (nat d) st1 w st'')"
      by (rule state_read_sequence [OF assms(1-8,12)])
    with False head save pos length_file_head [of tokens] show ?thesis
      by (intro exI [of _ "length ?f"] exI [of _ ?f])
        (simp, intro exI [of _ st1], elim disjE conjE exE; force simp: state_seq_load_file_def Let_def)
  qed
qed

section \<open>What a state does not hold, and what a restore leaves\<close>

text \<open>
  Pending shifts are not saved: the positions are those after the shift, the rows of keys those before
  it, and the restored cells have no shift left.
\<close>

definition forget_shift :: "kv_store \<Rightarrow> kv_store" where
  "forget_shift st = st\<lparr>ks_kv := (ks_kv st)\<lparr>kv_v_cells := map cells_reset_shift (kv_v_cells (ks_kv st))\<rparr>\<rparr>"

theorem pending_shift_not_saved:
  assumes "kv_n_stream (ks_kv st) = length (kv_v_cells (ks_kv st))"
  shows "state_write (forget_shift st) seq_id = state_write st seq_id"
proof -
  have c: "cells_of (forget_shift st) s = cells_reset_shift (cells_of st s)" if "s < kv_n_stream (ks_kv st)" for s
    using that assms by (simp add: forget_shift_def cells_of_def)
  have same: "saved_cell (cells_reset_shift x) seq_id = saved_cell x seq_id" "cells_size (cells_reset_shift x) = cells_size x"
    "write_cell_meta n (cells_reset_shift x) seq_id = write_cell_meta n x seq_id" for x n
    by (simp_all add: fun_eq_iff saved_cell_def cells_is_empty_def cells_seq_has_def cells_reset_shift_def cells_size_def
        write_cell_meta_def cells_pos_get_def)
  have "write_stream (forget_shift st) seq_id s = write_stream st seq_id s" if "s < kv_n_stream (ks_kv st)" for s
  proof -
    have "state_write_meta (forget_shift st) s cr seq_id = state_write_meta st s cr seq_id"
      "state_write_data (forget_shift st) s cr = state_write_data st s cr" for cr
      unfolding state_write_meta_def state_write_data_def c [OF that] same by (simp_all add: forget_shift_def)
    then show ?thesis by (simp add: write_stream_def c [OF that] same Let_def split: prod.split)
  qed
  then have "map (write_stream (forget_shift st) seq_id) [0..<kv_n_stream (ks_kv st)] = map (write_stream st seq_id) [0..<kv_n_stream (ks_kv st)]"
    by simp
  moreover have "kv_n_stream (ks_kv (forget_shift st)) = kv_n_stream (ks_kv st)" by (simp add: forget_shift_def)
  ultimately show ?thesis by (simp only: state_write_def)
qed

text \<open>A state without cells restores nothing and removes nothing.\<close>

theorem empty_state_ignored:
  assumes "kv_n_stream (ks_kv st) = 1" and "saved st seq_id 0 = []" and "kv_n_stream (ks_kv st') = 1"
    and "d = -1 \<or> seq_valid (ks_kv st') d"
  shows "state_read d (st', state_bytes st seq_id) = (Loaded (), st', [])"
proof -
  have b: "state_bytes st seq_id = write_u32 1 @ write_u32 0"
    using assms(1,2) by (simp add: state_bytes_def stream_bytes_def)
  have z: "ld_bind (ld_read read_u32) f (st', write_u32 0) = f 0 (st', [])" for f :: "uint32 \<Rightarrow> unit loader"
    using u32.ld_decode [where x = 0 and r = "[]" and f = f] by simp
  show ?thesis
    unfolding b using assms(3,4)
    by (auto simp: state_read_def u32.ld_decode read_stream_def ld_apply ld_bind_assoc z Let_def)
qed

text \<open>
  Input that ends behind the cells: the restore of a sequence reports 0, yet the cells stay in the
  cache, with the rows that were there before.
\<close>

lemma ld_read_end: "ld_bind (ld_read read_u32) f (st, []) = (Thrown EndOfData, st, [])"
  by (simp add: ld_bind_def ld_read_def read_u32_def rd_bind_def read_bytes_def)

theorem truncated_state_keeps_cells:
  fixes st st' :: kv_store
  assumes "store_ok st" and "kv_n_stream (ks_kv st) = 1" and "q < kv_n_seq_max (ks_kv st)"
    and "plain_kv (ks_kv st')" and "seq_valid (ks_kv st') d" and "saved st (int q) 0 \<noteq> []"
  defines "cs \<equiv> saved st (int q) 0"
  defines "b \<equiv> write_u32 1 @ write_u32 (word_of_nat (length cs)) @ concat (map (cell_bytes st (int q) 0) cs)"
  shows "\<exists>r. state_bytes st (int q) = b @ r"
    and "\<exists>st1. seq_removed (nat d) st' st1 \<and>
      ((\<exists>w. free_run (cells_of st1 0) (length cs) w) \<longrightarrow>
       (\<exists>w st''. state_seq_set_data d b st' = (Loaded 0, st'') \<and> ks_layers st'' = ks_layers st' \<and>
          run_restored (cells_of st1 0) (map (\<lambda>i. kc_pos (cells_of st 0) ! i) cs) w (nat d) (cells_of st'' 0)))"
proof -
  show "\<exists>r. state_bytes st (int q) = b @ r"
    using assms(2,6) by (simp add: state_bytes_def stream_bytes_def Let_def b_def cs_def)
  have s0: "0 < kv_n_stream (ks_kv st)" using assms(2) by simp
  have n': "kv_n_stream (ks_kv st') = 1" and wf': "kv_wf (ks_kv st')" using assms(4) by (simp_all add: plain_kv_def)
  have d: "d \<noteq> -1" "stream_of (ks_kv st') d = 0"
    using assms(5) single_stream(1) [OF wf' n'] by (auto simp: seq_valid_def)
  consider (none) st1 where "seq_removed (nat d) st' st1" "\<forall>w. \<not> free_run (cells_of st1 0) (length cs) w"
    | (run) st1 w kv where "seq_removed (nat d) st' st1"
      "\<forall>r. state_read_meta 0 (length cs) d (st', concat (map (cell_bytes st (int q) 0) cs) @ r) = (Loaded (), st'\<lparr>ks_kv := kv\<rparr>, r)"
      "run_restored (cells_of st1 0) (map (\<lambda>i. kc_pos (cells_of st 0) ! i) cs) w (nat d) (kv_v_cells kv ! 0)"
    using read_sequence_meta [OF assms(1) s0 assms(3-6)] unfolding cs_def by metis
  then show "\<exists>st1. seq_removed (nat d) st' st1 \<and>
      ((\<exists>w. free_run (cells_of st1 0) (length cs) w) \<longrightarrow>
       (\<exists>w st''. state_seq_set_data d b st' = (Loaded 0, st'') \<and> ks_layers st'' = ks_layers st' \<and>
          run_restored (cells_of st1 0) (map (\<lambda>i. kc_pos (cells_of st 0) ! i) cs) w (nat d) (cells_of st'' 0)))"
  proof cases
    case none
    then show ?thesis by blast
  next
    case run
    let ?m = "ld_bind (state_read_meta 0 (length cs) d) (\<lambda>_. state_read_data 0 (length cs))"
    have "state_read_meta 0 (length cs) d (st', concat (map (cell_bytes st (int q) 0) cs)) = (Loaded (), st'\<lparr>ks_kv := kv\<rparr>, [])"
      using run(2) by (metis append_Nil2)
    then have m: "?m (st', concat (map (cell_bytes st (int q) 0) cs)) = (Thrown EndOfData, st'\<lparr>ks_kv := kv\<rparr>, [])"
      by (simp add: ld_bind_def [of "state_read_meta 0 (length cs) d"] state_read_data_def ld_read_end Let_def)
    have "state_read d (st', b) =
        ld_bind (ld_refused ?m (ld_bind (ld_change (store_seq_rm d)) (\<lambda>_. ld_stop (Thrown RestoreFailed))))
          (\<lambda>_. ld_return ()) (st', concat (map (cell_bytes st (int q) 0) cs))"
      unfolding b_def using assms(5,6) n' d saved_count [OF assms(1) s0]
      by (simp add: state_read_def u32.ld_decode read_stream_def ld_bind_assoc Let_def cs_def)
    also have "\<dots> = (Thrown EndOfData, st'\<lparr>ks_kv := kv\<rparr>, [])"
      by (rule ld_bind_thrown) (simp add: ld_refused_def m)
    finally show ?thesis
      using run by (intro exI [of _ st1]) (simp add: state_seq_set_data_def cells_of_def, blast)
  qed
qed

text \<open>
  The restore of a whole cache of several streams clears all of them for every stream it reads: the
  cells of the others, those restored before included, are empty afterwards.
\<close>

definition only_stream :: "nat \<Rightarrow> unit loader \<Rightarrow> bool" where
  "only_stream strm m = (\<forall>st bs q. q \<noteq> strm \<longrightarrow> cells_of (fst (snd (m (st, bs)))) q = cells_of st q)"

lemma only_stream_bind:
  fixes m :: "unit loader" and f :: "unit \<Rightarrow> unit loader"
  assumes "only_stream strm m" and "\<And>x. only_stream strm (f x)"
  shows "only_stream strm (ld_bind m f)"
  unfolding only_stream_def
proof (intro allI impI)
  fix st :: kv_store and bs q assume q: "q \<noteq> strm"
  obtain r st1 bs1 where m: "m (st, bs) = (r, st1, bs1)" by (metis prod_cases3)
  with assms(1) q have 1: "cells_of st1 q = cells_of st q" unfolding only_stream_def by (metis fst_conv snd_conv)
  show "cells_of (fst (snd (ld_bind m f (st, bs)))) q = cells_of st q"
  proof (cases r)
    case (Loaded x)
    have "cells_of (fst (snd (f x (st1, bs1)))) q = cells_of st1 q" using assms(2) q by (simp add: only_stream_def)
    with m 1 Loaded show ?thesis by (simp add: ld_bind_def)
  qed (use m 1 in \<open>simp_all add: ld_bind_def\<close>)
qed

lemma only_stream_each: "(\<And>x. only_stream strm (f x)) \<Longrightarrow> only_stream strm (ld_each f xs)"
proof (induction xs)
  case (Cons x xs)
  then show ?case by (simp add: only_stream_bind)
qed (simp add: only_stream_def ld_apply)

lemma only_stream_read:
  fixes f :: "'a \<Rightarrow> unit loader"
  shows "(\<And>x. only_stream strm (f x)) \<Longrightarrow> only_stream strm (ld_bind (ld_read rd) f)"
proof -
  assume f: "\<And>x. only_stream strm (f x)"
  have "cells_of (fst (snd (ld_bind (ld_read rd) f (st, bs)))) q = cells_of st q" if "q \<noteq> strm" for st bs q
    using f that unfolding only_stream_def by (cases "rd bs") (auto simp: ld_bind_def ld_read_def)
  then show ?thesis by (simp add: only_stream_def)
qed

lemma only_stream_change:
  "only_stream strm (ld_change (\<lambda>st. Some (change_cells strm f st)))" "only_stream strm (ld_change (\<lambda>st. Some (set_head strm h st)))"
  "only_stream strm (ld_stop e)" "only_stream strm m \<Longrightarrow> only_stream strm (ld_unless b e m)"
  by (auto simp: only_stream_def ld_change_def change_cells_def set_head_def cells_of_def ld_apply ld_unless_def)

lemma only_stream_cell: "only_stream strm (read_cell strm n i)"
  unfolding read_cell_def read_cell_seq_def by (intro only_stream_bind only_stream_each only_stream_read only_stream_change)

theorem whole_restore_clears_other_streams:
  assumes "cell_count \<le> cells_size (cells_of st strm)" and "q \<noteq> strm"
  shows "cells_of (fst (snd (state_read_meta strm cell_count (-1) (st, bs)))) q = cells_of (kv_clear_data st) q"
proof -
  let ?m = "ld_bind (ld_each (read_cell strm (kv_n_seq_max (ks_kv st))) [0..<cell_count]) (\<lambda>_. ld_change (\<lambda>st. Some (set_head strm 0 st)))"
  have "state_read_meta strm cell_count (-1) (st, bs) = ?m (kv_clear_data st, bs)"
    using assms(1) by (simp add: state_read_meta_def read_meta_whole_def ld_change_bind)
  moreover have "only_stream strm ?m"
    by (intro only_stream_bind only_stream_each only_stream_cell only_stream_change)
  ultimately show ?thesis using assms(2) by (simp add: only_stream_def)
qed

text \<open>Examples: a cache of four cells, two of them in use, and an empty one of six, with one layer.\<close>

definition demo_layer :: "nat \<Rightarrow> byte \<Rightarrow> kv_layer" where
  "demo_layer sz x = \<lparr>ly_k_type = 0, ly_v_type = 0, ly_n_embd_k_gqa = 1, ly_n_embd_v_gqa = 2,
     ly_k_stream = [replicate (4 * sz) x], ly_v_stream = [replicate (8 * sz) x]\<rparr>"

definition demo_cache :: "nat \<Rightarrow> kv_cells \<Rightarrow> kv_cache" where
  "demo_cache sz c = \<lparr>kv_n_seq_max = 2, kv_n_stream = 1, kv_n_pad = 2, kv_n_swa = 0, kv_supports_set_rows = True,
     kv_swa_type = LLAMA_SWA_TYPE_NONE, kv_v_heads = [0], kv_v_cells = [c], kv_seq_to_stream = replicate 2 0, kv_sc_info = []\<rparr>"

definition demo_source :: kv_store where
  "demo_source = \<lparr>ks_kv = demo_cache 4 (put_cell 2 1 0 {0, 1} (put_cell 1 0 0 {0} (cells_resize new_cells 4))),
     ks_v_trans = True, ks_layers = [demo_layer 4 7]\<rparr>"

definition demo_target :: kv_store where
  "demo_target = \<lparr>ks_kv = demo_cache 6 (cells_resize new_cells 6), ks_v_trans = True, ks_layers = [demo_layer 6 0]\<rparr>"

lemma demo_cells:
  "kv_inv (put_cell 2 1 0 {0, 1} (put_cell 1 0 0 {0} (cells_resize new_cells 4)))" "cells_size (cells_resize new_cells n) = n"
proof -
  show n: "cells_size (cells_resize new_cells n) = n" for n
    by (simp add: cells_size_def cells_resize_def cells_reset_def)
  show "kv_inv (put_cell 2 1 0 {0, 1} (put_cell 1 0 0 {0} (cells_resize new_cells 4)))"
    by (intro kv_inv_put kv_inv_resize) (simp_all add: n cell_ok_def LLAMA_MAX_SEQ_def)
qed

lemma demo_layer_ok: "layer_ok True sz 1 (demo_layer sz x)"
  by (simp add: layer_ok_def demo_layer_def GGML_TYPE_COUNT_def ggml_row_size_def ggml_type_size_def ggml_blck_size_def
      type_traits_def traits_def)

lemma demo_cache_plain: "kv_inv c \<Longrightarrow> cells_size c = sz \<Longrightarrow> plain_kv (demo_cache sz c) \<and> kv_get_size (demo_cache sz c) = sz"
  by (simp add: plain_kv_def kv_wf_def demo_cache_def kv_get_size_def LLAMA_MAX_SEQ_def)

lemma demo_source_ok: "store_ok demo_source"
proof -
  let ?c = "put_cell 2 1 0 {0, 1} (put_cell 1 0 0 {0} (cells_resize new_cells 4))"
  have p: "plain_kv (demo_cache 4 ?c)" "kv_get_size (demo_cache 4 ?c) = 4"
    using demo_cache_plain [OF demo_cells(1), of 4] by (simp_all add: demo_cells(2))
  have wf: "store_wf demo_source"
    using p demo_layer_ok [of 4 7] by (simp add: store_wf_def demo_source_def plain_kv_def)
  moreover have "\<forall>i < 4. kc_pos ?c ! i < 2 ^ 31 \<and> kc_seq ?c ! i \<subseteq> {..<2}"
    by (simp add: less_Suc_eq cells_resize_def cells_reset_def new_cells_def resize_with_def numeral_eq_Suc)
  ultimately show ?thesis
    by (simp add: store_ok_def demo_source_def) (simp add: demo_cache_def LLAMA_MAX_SEQ_def demo_cells(2))
qed

lemma demo_target_ok: "store_wf demo_target" "plain_kv (ks_kv demo_target)" "kv_get_size (ks_kv demo_target) = 6"
proof -
  show p: "plain_kv (ks_kv demo_target)" "kv_get_size (ks_kv demo_target) = 6"
    using demo_cache_plain [OF kv_inv_resize, of new_cells 6 6] by (simp_all add: demo_target_def demo_cells(2))
  show "store_wf demo_target"
    using p demo_layer_ok [of 6 0] by (simp add: store_wf_def demo_target_def plain_kv_def)
qed

lemma demo_cells_of:
  "kc_pos (cells_of demo_source 0) = [-1, 0, 1, -1]" "kc_seq (cells_of demo_source 0) = [{}, {0}, {0, 1}, {}]"
  "cells_size (cells_of demo_source 0) = 4"
  by (simp_all add: demo_source_def demo_cache_def cells_of_def cells_resize_def cells_reset_def new_cells_def
      resize_with_def cells_size_def numeral_eq_Suc)

lemma upt_4: "[0..<4] = [0, 1, 2, 3 :: nat]"
  by (simp add: upt_rec)

lemma demo_saved: "saved demo_source 0 0 = [1, 2]" "saved demo_source (-1) 0 = [1, 2]"
  by (simp_all add: saved_def demo_cells_of upt_4 saved_cell_def cells_is_empty_def cells_seq_has_def)

lemma demo_length: "length (state_bytes demo_source 0) \<le> 1000" "length (state_bytes demo_source (-1)) \<le> 1000"
proof -
  have f: "kv_n_stream (ks_kv demo_source) = 1" "kv_n_seq_max (ks_kv demo_source) = 2" "ks_layers demo_source = [demo_layer 4 7]"
    "ks_v_trans demo_source = True" by (simp_all add: demo_source_def demo_cache_def)
  have u: "[0..<2] = [0, 1 :: nat]" by (simp add: upt_rec)
  have d: "length (data_bytes demo_source 0 [1, 2]) = 56"
    by (simp add: data_bytes_def f key_bytes_def trans_bytes_def demo_layer_def key_row_def block_def ggml_row_size_def
        ggml_type_size_def ggml_blck_size_def type_traits_def traits_def demo_cells_of write_u64_def u)
  have c: "length (cell_bytes demo_source q 0 i) \<le> 16" for q i
  proof -
    have "length (filter P [0..<2 :: nat]) \<le> 2" for P by (metis length_filter_le length_upt diff_zero)
    then show ?thesis
      by (simp add: cell_bytes_def write_cell_meta_def f items_bytes_def item_bytes_def Let_def comp_def
        sum_list_triv length_concat)
  qed
  have "length (state_bytes demo_source q) \<le> 1000" if "saved demo_source q 0 = [1, 2]" for q
    using c [of q 1] c [of q 2] d that by (simp add: state_bytes_def stream_bytes_def f Let_def)
  then show "length (state_bytes demo_source 0) \<le> 1000" "length (state_bytes demo_source (-1)) \<le> 1000"
    using demo_saved by blast+
qed

lemma demo_layout: "same_layout demo_source demo_target"
  by (simp add: same_layout_def demo_source_def demo_target_def demo_layer_def same_shape_def)

lemma demo_sizes: "cells_size (put_cell i n m q c) = cells_size c"
  by (simp add: put_cell_def cells_size_def)

lemma demo_state_fits: "writable demo_source" "readable demo_target"
  by (simp_all add: writable_def readable_def write_fits_def read_fits_def demo_source_def demo_target_def demo_cache_def
      demo_layer_def kv_get_size_def demo_cells(2) demo_sizes ggml_type_size_def type_traits_def traits_def)

lemma demo_room:
  assumes "seq_removed 1 demo_target st1"
  shows "free_run (cells_of st1 0) 2 0"
proof -
  have e: "cell_at (cells_of demo_target 0) i = (-1, 0, {})" if "i < 6" for i
    using that by (simp add: demo_target_def demo_cache_def cells_of_def cell_at_def cells_resize_def cells_reset_def
        new_cells_def resize_with_def)
  have "cells_is_empty (cells_of st1 0) i" if "i < 6" for i
  proof -
    have "cell_at (cells_of st1 0) i = rm_content 1 0 POS_MAX (cell_at (cells_of demo_target 0) i)"
      using assms that by (simp add: seq_removed_def demo_target_ok(3))
    then show ?thesis unfolding e [OF that] by (simp add: rm_content_def cell_at_def cells_is_empty_def)
  qed
  moreover have "cells_size (cells_of st1 0) = 6"
    using assms plain_cells(4) [of "ks_kv st1"] by (simp add: seq_removed_def demo_target_ok(3) cells_of_def)
  ultimately show ?thesis by (simp add: free_run_def)
qed

text \<open>
  Transposed values above the limit: a column that begins at a multiple of \<open>2\<^sup>32\<close> bytes is saved with the
  bytes of the first column, and one that begins at a multiple of \<open>2\<^sup>32\<close> elements is restored over the first.
\<close>

lemma column_offset_wraps:
  "2 ^ 32 dvd j * kv_size * v_size_el \<Longrightarrow> write_column t kv_size v_size_el j cr = write_column t kv_size v_size_el 0 cr"
  "2 ^ 32 dvd j * kv_size \<Longrightarrow> wrap32 (head + j * kv_size) * v_size_el = wrap32 head * v_size_el"
  by (auto simp: write_column_def wrap32_def distrib_right elim!: dvdE)

section \<open>Properties\<close>

text \<open>
  C40. The size that is announced for the state of a sequence is the number of bytes that saving it
  writes: a buffer of at least that size is filled with the same bytes, whatever its size, and a smaller
  one is refused with the size 0. The check of the cell count in the writer never fails.
\<close>

theorem state_size_exact:
  assumes "store_ok st"
  shows "\<exists>n b. state_seq_get_size st seq_id = Loaded n \<and> length b = n \<and>
    (\<forall>sz. state_seq_get_data st seq_id sz = (if n \<le> sz then Loaded (n, b) else Loaded (0, [])))"
proof -
  obtain items where items: "state_write st seq_id = Some items" "list_all item_ok items"
    by (rule state_write_bytes [OF assms])
  then show ?thesis
    by (intro exI [of _ "length (items_bytes items)"] exI [of _ "items_bytes items"])
      (simp add: state_seq_get_size_def state_seq_get_data_def write_dummy_bytes write_buffer_bytes)
qed

theorem state_size_exact_witness:
  "\<exists>n b. state_seq_get_size demo_source 0 = Loaded n \<and> length b = n \<and>
    (\<forall>sz. state_seq_get_data demo_source 0 sz = (if n \<le> sz then Loaded (n, b) else Loaded (0, [])))"
  by (rule state_size_exact [OF demo_source_ok])

text \<open>
  C24. Saving a sequence and restoring it, into another cache of one stream with the same layers, or
  into the same one, whose transposed values are small enough for offsets of 32 bits: when the target has a
  run of free cells for it, once the target sequence is removed,
  the cells of such a run hold the positions of the saved sequence in their order, with the rows of keys and
  values of the saved cells, and every other cell and row is as it was after the removal.
  Otherwise the restore reports 0 and the target has only lost its old sequence. The limits are
  \<open>writable\<close>, \<open>2\<^sup>32\<close> bytes of values per layer in the saved cache, and \<open>readable\<close>, \<open>2\<^sup>32\<close> elements in the target;
  above them the offsets wrap around (\<open>column_offset_wraps\<close>).
\<close>

theorem sequence_state_restored:
  fixes st st' :: kv_store
  assumes "store_ok st" and "kv_n_stream (ks_kv st) = 1" and "q < kv_n_seq_max (ks_kv st)"
    and "store_wf st'" and "plain_kv (ks_kv st')" and "seq_valid (ks_kv st') d" and "same_layout st st'"
    and "saved st (int q) 0 \<noteq> []" and "state_seq_get_data st (int q) sz = Loaded (n, b)" and "n \<noteq> 0"
    and "writable st" and "readable st'"
  shows "\<exists>st1 m st''. seq_removed (nat d) st' st1 \<and> state_seq_set_data d b st' = (Loaded m, st'') \<and>
    (if \<exists>w. free_run (cells_of st1 0) (length (saved st (int q) 0)) w
     then m = n \<and> (\<exists>w. free_run (cells_of st1 0) (length (saved st (int q) 0)) w \<and> sequence_restored st q st' (nat d) st1 w st'')
     else m = 0 \<and> seq_removed (nat d) st' st'')"
proof -
  obtain items where items: "state_write st (int q) = Some items" "items_bytes items = state_bytes st (int q)" "list_all item_ok items"
    using state_write_bytes [OF assms(1), of "int q"] assms(11) by metis
  with assms(9,10) have b: "b = state_bytes st (int q)" "n = length b"
    by (auto simp: state_seq_get_data_def write_buffer_bytes split: if_splits)
  obtain st1 where "seq_removed (nat d) st' st1"
    "(\<forall>w. \<not> free_run (cells_of st1 0) (length (saved st (int q) 0)) w) \<and>
       (\<exists>st2 r'. state_read d (st', state_bytes st (int q) @ []) = (Thrown RestoreFailed, st2, r') \<and> seq_removed (nat d) st' st2) \<or>
     (\<exists>w st''. free_run (cells_of st1 0) (length (saved st (int q) 0)) w \<and>
       state_read d (st', state_bytes st (int q) @ []) = (Loaded (), st'', []) \<and> sequence_restored st q st' (nat d) st1 w st'')"
    by (rule state_read_sequence [OF assms(1-8,12)])
  then show ?thesis
    unfolding b by (intro exI [of _ st1]) (elim disjE conjE exE; force simp: state_seq_set_data_def)
qed

theorem sequence_state_restored_witness:
  "\<exists>n b st''. state_seq_get_data demo_source 0 1000 = Loaded (n, b) \<and> state_seq_set_data 1 b demo_target = (Loaded n, st'') \<and>
    (\<exists>st1 w. sequence_restored demo_source 0 demo_target 1 st1 w st'')"
proof -
  let ?b = "state_bytes demo_source 0"
  obtain items where items: "state_write demo_source 0 = Some items" "items_bytes items = ?b" "list_all item_ok items"
    using state_write_bytes [OF demo_source_ok] demo_state_fits(1) by metis
  have "4 \<le> length ?b" by (simp add: state_bytes_def)
  then have ne: "length ?b \<noteq> 0" by linarith
  from demo_length(1) have g: "state_seq_get_data demo_source (int 0) 1000 = Loaded (length ?b, ?b)"
    using items by (simp add: state_seq_get_data_def write_buffer_bytes)
  have "kv_n_stream (ks_kv demo_source) = 1" "0 < kv_n_seq_max (ks_kv demo_source)" "seq_valid (ks_kv demo_target) 1"
    by (simp_all add: demo_source_def demo_target_def demo_cache_def seq_valid_def)
  note h = this
  have l: "length (saved demo_source (int 0) 0) = 2" "nat 1 = 1" by (simp_all add: demo_saved)
  then have nz: "saved demo_source (int 0) 0 \<noteq> []" by auto
  obtain st1 m st'' where st: "seq_removed 1 demo_target st1" "state_seq_set_data 1 ?b demo_target = (Loaded m, st'')"
    "if \<exists>w. free_run (cells_of st1 0) 2 w then m = length ?b \<and>
      (\<exists>w. free_run (cells_of st1 0) 2 w \<and> sequence_restored demo_source 0 demo_target 1 st1 w st'')
     else m = 0 \<and> seq_removed 1 demo_target st''"
    using sequence_state_restored [OF demo_source_ok h(1,2) demo_target_ok(1,2) h(3) demo_layout nz g ne demo_state_fits, unfolded l] by metis
  have "\<exists>w. free_run (cells_of st1 0) 2 w" using demo_room [OF st(1)] by blast
  with g st show ?thesis by auto
qed

text \<open>
  C25. Saving a whole cache of one stream and restoring it into another one, of a different size perhaps, with the
  same layers, both within the limits of C24 if the values are transposed: when the target has as many cells as
  were in use, its cells hold from cell 0 on, in order, the
  positions, the sequences and the rows of the saved ones, and all the others are empty, whatever the target
  held before. A smaller target is left cleared, with an exception.
\<close>

theorem whole_state_restored:
  fixes st st' :: kv_store
  assumes "store_ok st" and "kv_n_stream (ks_kv st) = 1" and "store_wf st'" and "plain_kv (ks_kv st')"
    and "same_layout st st'" and "saved st (-1) 0 \<noteq> []"
    and "kv_n_seq_max (ks_kv st) \<le> kv_n_seq_max (ks_kv st')" and "kv_n_seq_max (ks_kv st') \<le> LLAMA_MAX_SEQ"
    and "state_write st (-1) = Some items" and "write_buffer items [] sz = Loaded b"
    and "writable st" and "readable st'"
  shows "if length (saved st (-1) 0) \<le> kv_get_size (ks_kv st')
    then \<exists>st''. state_read (-1) (st', b) = (Loaded (), st'', []) \<and> whole_restored st st' st''
    else \<exists>r. state_read (-1) (st', b) = (Thrown RestoreFailed, kv_clear_data st', r)"
proof -
  obtain items' where "state_write st (-1) = Some items'" "items_bytes items' = state_bytes st (-1)" "list_all item_ok items'"
    using state_write_bytes [OF assms(1), of "-1"] assms(11) by metis
  with assms(9,10) have b: "b = state_bytes st (-1)" by (auto simp: write_buffer_bytes split: if_splits)
  show ?thesis
  proof (cases "length (saved st (-1) 0) \<le> kv_get_size (ks_kv st')")
    case True
    with state_read_whole [OF assms(1-6) True assms(7,8,12), of "[]"] show ?thesis by (simp add: b)
  next
    case False
    have s0: "0 < kv_n_stream (ks_kv st)" and n': "kv_n_stream (ks_kv st') = 1" using assms(2,4) by (simp_all add: plain_kv_def)
    let ?cs = "saved st (-1) 0"
    let ?body = "concat (map (cell_bytes st (-1) 0) ?cs) @ data_bytes st 0 ?cs"
    let ?m = "ld_bind (state_read_meta 0 (length ?cs) (-1)) (\<lambda>_. state_read_data 0 (length ?cs))"
    have cs: "\<not> length ?cs \<le> cells_size (cells_of st' 0)"
      using False plain_cells(4) [OF assms(4)] by (simp add: cells_of_def)
    then have "state_read_meta 0 (length ?cs) (-1) (st', ?body) = (Refused, st', ?body)"
      by (simp add: state_read_meta_def read_meta_whole_def ld_apply)
    then have m: "?m (st', ?body) = (Refused, st', ?body)" by (simp add: ld_bind_def)
    have "state_read (-1) (st', b) =
      ld_bind (ld_refused ?m (ld_bind (ld_change (\<lambda>st. Some (kv_clear_data st))) (\<lambda>_. ld_stop (Thrown RestoreFailed))))
        (\<lambda>_. ld_return ()) (st', ?body)"
      unfolding b state_bytes_def stream_bytes_def using assms(2,6) n' saved_count [OF assms(1) s0]
      by (simp add: state_read_def u32.ld_decode read_stream_def ld_bind_assoc Let_def)
    also have "\<dots> = (Thrown RestoreFailed, kv_clear_data st', ?body)"
      by (rule ld_bind_thrown) (simp add: ld_refused_def m ld_change_bind ld_apply)
    finally show ?thesis using False by auto
  qed
qed

theorem whole_state_restored_witness:
  "\<exists>items b st''. state_write demo_source (-1) = Some items \<and> write_buffer items [] 1000 = Loaded b \<and>
    state_read (-1) (demo_target, b) = (Loaded (), st'', []) \<and> whole_restored demo_source demo_target st''"
proof -
  let ?b = "state_bytes demo_source (-1)"
  obtain items where items: "state_write demo_source (-1) = Some items" "items_bytes items = ?b" "list_all item_ok items"
    using state_write_bytes [OF demo_source_ok] demo_state_fits(1) by metis
  have "length ?b \<le> 1000" by (simp add: demo_length)
  then have g: "write_buffer items [] 1000 = Loaded ?b"
    using items by (simp add: write_buffer_bytes)
  have "kv_n_stream (ks_kv demo_source) = 1" "kv_n_seq_max (ks_kv demo_source) \<le> kv_n_seq_max (ks_kv demo_target)"
    "kv_n_seq_max (ks_kv demo_target) \<le> LLAMA_MAX_SEQ"
    by (simp_all add: demo_source_def demo_target_def demo_cache_def LLAMA_MAX_SEQ_def)
  from whole_state_restored [OF demo_source_ok this(1) demo_target_ok(1,2) demo_layout _ this(2,3) items(1) g demo_state_fits]
  show ?thesis using items(1) g by (auto simp: demo_saved demo_target_ok(3))
qed

end
