(* ===== verification/Outcome.thy ===== *)
theory Outcome
  imports Prelude
begin

text \<open>
  Outcomes of code that may throw or fail an assertion (\<open>Abort\<close>) and whose loops or recursions are
  followed down to a bound (\<open>Too_Deep\<close>), with their composition. The grammars use them.
\<close>

datatype 'a run = Ret 'a | Abort | Too_Deep

fun run_bind :: "'a run \<Rightarrow> ('a \<Rightarrow> 'b run) \<Rightarrow> 'b run" where
  "run_bind (Ret x) f = f x"
| "run_bind Abort f = Abort"
| "run_bind Too_Deep f = Too_Deep"

fun run_fold :: "('b \<Rightarrow> 'a \<Rightarrow> 'a run) \<Rightarrow> 'b list \<Rightarrow> 'a \<Rightarrow> 'a run" where
  "run_fold f [] x = Ret x"
| "run_fold f (y # ys) x = run_bind (f y x) (run_fold f ys)"

lemma run_bind_Ret: "(run_bind m f = Ret y) = (\<exists>x. m = Ret x \<and> f x = Ret y)"
  by (cases m) auto

lemma run_bind_Abort: "(run_bind m f = Abort) = (m = Abort \<or> (\<exists>x. m = Ret x \<and> f x = Abort))"
  by (cases m) auto

end
