(* ===== verification/Llama_Grammar.thy ===== *)
theory Llama_Grammar
  imports Outcome
begin

text \<open>
  Sampling under a grammar, \<open>llama.cpp/src/llama-grammar.cpp\<close>: the rules and their elements, the
  pushdown stacks that follow the text, the rejection of candidates, the check for left recursion, the
  incremental decoding of UTF-8, and the operations of \<open>llama_grammar\<close>.

  A pointer to an element is the pair of its rule and its index; the top of a stack is its last
  element. The recursion of \<open>llama_grammar_advance_stack\<close> and of the check may be without end,
  so both count its depth down from a bound, and exceeding the bound is an outcome of its own. A failed assertion
  or \<open>GGML_ABORT\<close> is \<open>Abort\<close>.
\<close>

datatype llama_gretype =
    LLAMA_GRETYPE_END
  | LLAMA_GRETYPE_ALT
  | LLAMA_GRETYPE_RULE_REF
  | LLAMA_GRETYPE_CHAR
  | LLAMA_GRETYPE_CHAR_NOT
  | LLAMA_GRETYPE_CHAR_RNG_UPPER
  | LLAMA_GRETYPE_CHAR_ALT
  | LLAMA_GRETYPE_CHAR_ANY

record llama_grammar_element =
  ge_type :: llama_gretype
  ge_value :: uint32

definition elem :: "llama_gretype \<Rightarrow> uint32 \<Rightarrow> llama_grammar_element" where
  "elem type v = \<lparr>ge_type = type, ge_value = v\<rparr>"

type_synonym llama_grammar_rule = "llama_grammar_element list"
type_synonym llama_grammar_rules = "llama_grammar_rule list"
type_synonym element_pos = "nat \<times> nat"
type_synonym llama_grammar_stack = "element_pos list"
type_synonym llama_grammar_stacks = "llama_grammar_stack list"

record llama_partial_utf8 =
  pu_value :: uint32
  pu_n_remain :: int

text \<open>A candidate: its index, its code points with the place in them, and the partial sequence at the end.\<close>

record llama_grammar_candidate =
  gc_index :: nat
  gc_buffer :: "uint32 list"
  gc_at :: nat
  gc_partial_utf8 :: llama_partial_utf8

definition code_point :: "llama_grammar_candidate \<Rightarrow> uint32" where
  "code_point tok = gc_buffer tok ! gc_at tok"

section \<open>Decoding of UTF-8\<close>

text \<open>The first loop of \<open>decode_utf8\<close>, which continues the sequence begun before; \<open>None\<close> is a byte that cannot.\<close>

fun decode_previous :: "byte list \<Rightarrow> uint32 \<Rightarrow> int \<Rightarrow> (byte list \<times> uint32 \<times> int) option" where
  "decode_previous [] v n_remain = Some ([], v, n_remain)"
| "decode_previous (b # bs) v n_remain =
     (if n_remain \<le> 0 then Some (b # bs, v, n_remain)
      else if drop_bit 6 b \<noteq> 2 then None
      else decode_previous bs (push_bit 6 v + ucast (and b 0x3F)) (n_remain - 1))"

fun decode_tail :: "byte list \<Rightarrow> uint32 \<Rightarrow> int \<Rightarrow> byte list \<times> uint32 \<times> int" where
  "decode_tail [] v n_remain = ([], v, n_remain)"
| "decode_tail (b # bs) v n_remain =
     (if n_remain \<le> 0 then (b # bs, v, n_remain)
      else decode_tail bs (push_bit 6 v + ucast (and b 0x3F)) (n_remain - 1))"

lemma decode_tail_length: "length (fst (decode_tail bs v n)) \<le> length bs"
  by (induction bs v n rule: decode_tail.induct) auto

definition utf8_length :: "byte \<Rightarrow> int" where
  "utf8_length first_byte = [1, 1, 1, 1, 1, 1, 1, 1, 0, 0, 0, 0, 2, 2, 3, 4] ! unat (drop_bit 4 first_byte)"

text \<open>The second loop: whole sequences, the last of which may be incomplete.\<close>

function decode_loop :: "byte list \<Rightarrow> uint32 list \<Rightarrow> uint32 \<Rightarrow> int \<Rightarrow> uint32 list \<times> llama_partial_utf8" where
  "decode_loop [] code_points v n_remain = (code_points @ [0], \<lparr>pu_value = v, pu_n_remain = n_remain\<rparr>)"
| "decode_loop (first_byte # bs) code_points v n_remain =
     (let n_remain = utf8_length first_byte - 1 in
      if n_remain < 0 then ([0], \<lparr>pu_value = 0, pu_n_remain = n_remain\<rparr>)
      else let m = push_bit (nat (7 - n_remain)) 1 - 1;
               (bs', v', n') = decode_tail bs (ucast (and first_byte m)) n_remain
           in decode_loop bs' (if n' = 0 then code_points @ [v'] else code_points) v' n')"
  by pat_completeness auto
termination
proof (relation "measure (\<lambda>(bs, _). length bs)", goal_cases)
  case (2 first_byte bs code_points v n_remain x m y bs' z v' n')
  then have "length bs' \<le> length bs" using decode_tail_length [of bs] by (metis fst_conv)
  then show ?case by simp
qed simp

definition decode_utf8 :: "string \<Rightarrow> llama_partial_utf8 \<Rightarrow> uint32 list \<times> llama_partial_utf8" where
  "decode_utf8 src partial_start =
     (case decode_previous (bytes_of (c_str src)) (pu_value partial_start) (pu_n_remain partial_start) of
        None \<Rightarrow> ([0], \<lparr>pu_value = 0, pu_n_remain = -1\<rparr>)
      | Some (bs, v, n_remain) \<Rightarrow>
          decode_loop bs (if pu_n_remain partial_start > 0 \<and> n_remain = 0 then [v] else []) v n_remain)"

section \<open>Elements and characters\<close>

definition element_at :: "llama_grammar_rules \<Rightarrow> element_pos \<Rightarrow> llama_grammar_element" where
  "element_at rules pos = rules ! fst pos ! snd pos"

definition succ_pos :: "element_pos \<Rightarrow> element_pos" where
  "succ_pos pos = (fst pos, snd pos + 1)"

definition is_end_of_sequence :: "llama_grammar_rules \<Rightarrow> element_pos \<Rightarrow> bool" where
  "is_end_of_sequence rules pos = (ge_type (element_at rules pos) \<in> {LLAMA_GRETYPE_END, LLAMA_GRETYPE_ALT})"

definition is_positive_char :: "llama_gretype \<Rightarrow> bool" where
  "is_positive_char type = (type = LLAMA_GRETYPE_CHAR \<or> type = LLAMA_GRETYPE_CHAR_ANY)"

text \<open>
  The loop over the elements of a character range, on the elements from \<open>pos\<close> on and with the index
  of the first of them. A rule ends with \<open>LLAMA_GRETYPE_END\<close>, so that the element after one of a range is
  always there; the last equations are never reached.
\<close>

fun match_loop :: "llama_grammar_element list \<Rightarrow> uint32 \<Rightarrow> bool \<Rightarrow> nat \<Rightarrow> bool \<times> nat" where
  "match_loop (e # f # es) chr found i =
     (if ge_type f = LLAMA_GRETYPE_CHAR_RNG_UPPER then
        (let found = (found \<or> (ge_value e \<le> chr \<and> chr \<le> ge_value f)) in
         if es \<noteq> [] \<and> ge_type (hd es) = LLAMA_GRETYPE_CHAR_ALT then match_loop es chr found (i + 2) else (found, i + 2))
      else
        (let found = (if ge_type e = LLAMA_GRETYPE_CHAR_ANY then True else found \<or> ge_value e = chr) in
         if ge_type f = LLAMA_GRETYPE_CHAR_ALT then match_loop (f # es) chr found (i + 1) else (found, i + 1)))"
| "match_loop [e] chr found i = (found, i + 1)"
| "match_loop [] chr found i = (found, i)"

definition match_char :: "llama_grammar_rules \<Rightarrow> element_pos \<Rightarrow> uint32 \<Rightarrow> (bool \<times> element_pos) run" where
  "match_char rules pos chr =
     (let type = ge_type (element_at rules pos) in
      if \<not> (is_positive_char type \<or> type = LLAMA_GRETYPE_CHAR_NOT) then Abort
      else let (found, i) = match_loop (drop (snd pos) (rules ! fst pos)) chr False (snd pos)
           in Ret (found = is_positive_char type, (fst pos, i)))"

text \<open>The same loop against a range of code points; what it returns before its end is \<open>Some\<close>.\<close>

fun match_partial_loop :: "llama_grammar_element list \<Rightarrow> bool \<Rightarrow> uint32 \<Rightarrow> uint32 \<Rightarrow> bool option" where
  "match_partial_loop (e # f # es) positive low high =
     (if ge_type f = LLAMA_GRETYPE_CHAR_RNG_UPPER then
        (if ge_value e \<le> high \<and> low \<le> ge_value f then Some positive
         else if es \<noteq> [] \<and> ge_type (hd es) = LLAMA_GRETYPE_CHAR_ALT then match_partial_loop es positive low high else None)
      else if ge_type e = LLAMA_GRETYPE_CHAR_ANY then Some True
      else if low \<le> ge_value e \<and> ge_value e \<le> high then Some positive
      else if ge_type f = LLAMA_GRETYPE_CHAR_ALT then match_partial_loop (f # es) positive low high else None)"
| "match_partial_loop es positive low high = None"

definition match_partial_char :: "llama_grammar_rules \<Rightarrow> element_pos \<Rightarrow> llama_partial_utf8 \<Rightarrow> bool run" where
  "match_partial_char rules pos partial =
     (let type = ge_type (element_at rules pos);
          positive = is_positive_char type;
          partial_value = pu_value partial; n_remain = pu_n_remain partial
      in if \<not> (positive \<or> type = LLAMA_GRETYPE_CHAR_NOT) then Abort
         else if n_remain < 0 \<or> (n_remain = 1 \<and> partial_value < 2) then Ret False
         else let low = push_bit (nat n_remain * 6) partial_value;
                  high = or low (push_bit (nat n_remain * 6) 1 - 1);
                  low = (if low = 0 then (if n_remain = 2 then push_bit 11 1 else if n_remain = 3 then push_bit 16 1 else low) else low)
              in Ret (case match_partial_loop (drop (snd pos) (rules ! fst pos)) positive low high of
                        Some r \<Rightarrow> r | None \<Rightarrow> \<not> positive))"

section \<open>Stacks\<close>

text \<open>The starts of the alternates of a rule, as the loops over them visit them.\<close>

fun alternate_starts :: "llama_grammar_element list \<Rightarrow> nat \<Rightarrow> nat list" where
  "alternate_starts [] i = []"
| "alternate_starts (e # es) i =
     (if ge_type e = LLAMA_GRETYPE_END then []
      else if ge_type e = LLAMA_GRETYPE_ALT then (i + 1) # alternate_starts es (i + 1)
      else alternate_starts es (i + 1))"

definition alternates :: "llama_grammar_rules \<Rightarrow> nat \<Rightarrow> element_pos list" where
  "alternates rules rule_id = map (Pair rule_id) (0 # alternate_starts (rules ! rule_id) 0)"

definition push_pos :: "llama_grammar_rules \<Rightarrow> element_pos \<Rightarrow> llama_grammar_stack \<Rightarrow> llama_grammar_stack" where
  "push_pos rules pos stack = (if is_end_of_sequence rules pos then stack else stack @ [pos])"

definition add_stack :: "llama_grammar_stack \<Rightarrow> llama_grammar_stacks \<Rightarrow> llama_grammar_stacks" where
  "add_stack stack new_stacks = (if stack \<in> set new_stacks then new_stacks else new_stacks @ [stack])"

primrec advance_stack :: "nat \<Rightarrow> llama_grammar_rules \<Rightarrow> llama_grammar_stack \<Rightarrow> llama_grammar_stacks \<Rightarrow> llama_grammar_stacks run" where
  "advance_stack 0 rules stack new_stacks = Too_Deep"
| "advance_stack (Suc n) rules stack new_stacks =
     (if stack = [] then Ret (add_stack stack new_stacks)
      else
        let pos = last stack in
        case ge_type (element_at rules pos) of
          LLAMA_GRETYPE_RULE_REF \<Rightarrow>
            run_fold (\<lambda>subpos new_stacks.
                advance_stack n rules (push_pos rules subpos (push_pos rules (succ_pos pos) (butlast stack))) new_stacks)
              (alternates rules (unat (ge_value (element_at rules pos)))) new_stacks
        | LLAMA_GRETYPE_CHAR \<Rightarrow> Ret (add_stack stack new_stacks)
        | LLAMA_GRETYPE_CHAR_NOT \<Rightarrow> Ret (add_stack stack new_stacks)
        | LLAMA_GRETYPE_CHAR_ANY \<Rightarrow> Ret (add_stack stack new_stacks)
        | _ \<Rightarrow> Abort)"

definition accept_stack :: "nat \<Rightarrow> llama_grammar_rules \<Rightarrow> uint32 \<Rightarrow> llama_grammar_stack \<Rightarrow> llama_grammar_stacks \<Rightarrow> llama_grammar_stacks run" where
  "accept_stack n rules chr stack stacks_new =
     (if stack = [] then Ret stacks_new
      else run_bind (match_char rules (last stack) chr) (\<lambda>(matches, pos).
        if matches then advance_stack n rules (push_pos rules pos (butlast stack)) stacks_new else Ret stacks_new))"

definition accept_stacks :: "nat \<Rightarrow> llama_grammar_rules \<Rightarrow> uint32 \<Rightarrow> llama_grammar_stacks \<Rightarrow> llama_grammar_stacks run" where
  "accept_stacks n rules chr stacks = run_fold (accept_stack n rules chr) stacks []"

section \<open>Candidates\<close>

text \<open>
  \<open>llama_grammar_reject_candidates_for_stack\<close> and \<open>llama_grammar_reject_candidates\<close> call each
  other; \<open>reject\<close> is the latter, one code point further on.
\<close>

definition reject_split :: "llama_grammar_rules \<Rightarrow> element_pos \<Rightarrow> llama_grammar_candidate \<Rightarrow>
    llama_grammar_candidate list \<times> llama_grammar_candidate list \<Rightarrow>
    (llama_grammar_candidate list \<times> llama_grammar_candidate list) run" where
  "reject_split rules stack_pos tok st =
     (let (rejects, next_candidates) = st in
      if code_point tok = 0 then
        (if pu_n_remain (gc_partial_utf8 tok) \<noteq> 0
         then run_bind (match_partial_char rules stack_pos (gc_partial_utf8 tok)) (\<lambda>matches.
           Ret (if matches then rejects else rejects @ [tok], next_candidates))
         else Ret (rejects, next_candidates))
      else run_bind (match_char rules stack_pos (code_point tok)) (\<lambda>(matches, _).
        Ret (if matches then (rejects, next_candidates @ [tok\<lparr>gc_at := gc_at tok + 1\<rparr>])
             else (rejects @ [tok], next_candidates))))"

definition reject_for_stack :: "(llama_grammar_stacks \<Rightarrow> llama_grammar_candidate list \<Rightarrow> llama_grammar_candidate list run) \<Rightarrow>
    nat \<Rightarrow> llama_grammar_rules \<Rightarrow> llama_grammar_stack \<Rightarrow> llama_grammar_candidate list \<Rightarrow> llama_grammar_candidate list run" where
  "reject_for_stack reject n rules stack candidates =
     (if stack = []
      then Ret (filter (\<lambda>tok. code_point tok \<noteq> 0 \<or> pu_n_remain (gc_partial_utf8 tok) \<noteq> 0) candidates)
      else
        run_bind (run_fold (reject_split rules (last stack)) candidates ([], [])) (\<lambda>(rejects, next_candidates).
        run_bind (match_char rules (last stack) 0) (\<lambda>(_, stack_pos_after).
        run_bind (advance_stack n rules (push_pos rules stack_pos_after (butlast stack)) []) (\<lambda>next_stacks.
        run_bind (reject next_stacks next_candidates) (\<lambda>next_rejects.
        Ret (rejects @ map (\<lambda>tok. tok\<lparr>gc_at := gc_at tok - 1\<rparr>) next_rejects))))))"

primrec reject_candidates :: "nat \<Rightarrow> nat \<Rightarrow> llama_grammar_rules \<Rightarrow> llama_grammar_stacks \<Rightarrow> llama_grammar_candidate list \<Rightarrow>
    llama_grammar_candidate list run" where
  "reject_candidates 0 n rules stacks candidates = Too_Deep"
| "reject_candidates (Suc d) n rules stacks candidates =
     (if stacks = [] then Abort
      else if candidates = [] then Ret []
      else run_fold (\<lambda>stack rejects. reject_for_stack (reject_candidates d n rules) n rules stack rejects) stacks candidates)"

section \<open>Left recursion\<close>

record recursion_state =
  rs_visited :: "bool list"
  rs_in_progress :: "bool list"
  rs_may_be_empty :: "bool list"

text \<open>The first loop: is there an empty alternate? The second: recurse into the leftmost rules of each alternate.\<close>

fun has_empty_alternate :: "llama_grammar_element list \<Rightarrow> bool \<Rightarrow> bool" where
  "has_empty_alternate [] at_rule_start = False"
| "has_empty_alternate (e # es) at_rule_start =
     (if ge_type e \<in> {LLAMA_GRETYPE_END, LLAMA_GRETYPE_ALT}
      then at_rule_start \<or> has_empty_alternate es True
      else has_empty_alternate es False)"

fun leftmost_loop :: "(nat \<Rightarrow> recursion_state \<Rightarrow> (bool \<times> recursion_state) run) \<Rightarrow> llama_grammar_element list \<Rightarrow> bool \<Rightarrow>
    recursion_state \<Rightarrow> (bool \<times> recursion_state) run" where
  "leftmost_loop detect [] recurse st = Ret (False, st)"
| "leftmost_loop detect (e # es) recurse st =
     (if ge_type e = LLAMA_GRETYPE_RULE_REF \<and> recurse then
        run_bind (detect (unat (ge_value e)) st) (\<lambda>(found, st).
          if found then Ret (True, st)
          else leftmost_loop detect es (rs_may_be_empty st ! unat (ge_value e)) st)
      else leftmost_loop detect es (ge_type e \<in> {LLAMA_GRETYPE_END, LLAMA_GRETYPE_ALT}) st)"

primrec detect_left_recursion :: "nat \<Rightarrow> llama_grammar_rules \<Rightarrow> nat \<Rightarrow> recursion_state \<Rightarrow> (bool \<times> recursion_state) run" where
  "detect_left_recursion 0 rules rule_index st = Too_Deep"
| "detect_left_recursion (Suc n) rules rule_index st =
     (if rs_in_progress st ! rule_index then Ret (True, st)
      else
        let st = st\<lparr>rs_in_progress := (rs_in_progress st)[rule_index := True]\<rparr>;
            rule = rules ! rule_index;
            st = (if has_empty_alternate rule True
                  then st\<lparr>rs_may_be_empty := (rs_may_be_empty st)[rule_index := True]\<rparr> else st)
        in run_bind (leftmost_loop (detect_left_recursion n rules) rule True st) (\<lambda>(found, st).
             if found then Ret (True, st)
             else Ret (False, st\<lparr>rs_in_progress := (rs_in_progress st)[rule_index := False],
                               rs_visited := (rs_visited st)[rule_index := True]\<rparr>)))"

text \<open>The loop over all rules: is any of them left recursive?\<close>

fun check_rules :: "nat \<Rightarrow> llama_grammar_rules \<Rightarrow> nat list \<Rightarrow> recursion_state \<Rightarrow> bool run" where
  "check_rules n rules [] st = Ret False"
| "check_rules n rules (i # js) st =
     (if rs_visited st ! i then check_rules n rules js st
      else run_bind (detect_left_recursion n rules i st) (\<lambda>(found, st).
        if found then Ret True else check_rules n rules js st))"

definition left_recursive :: "nat \<Rightarrow> llama_grammar_rules \<Rightarrow> bool run" where
  "left_recursive n rules =
     (let none = replicate (length rules) False in
      check_rules n rules [0..<length rules] \<lparr>rs_visited = none, rs_in_progress = none, rs_may_be_empty = none\<rparr>)"

section \<open>The grammar\<close>

record llama_grammar =
  gr_rules :: llama_grammar_rules
  gr_stacks :: llama_grammar_stacks
  gr_partial_utf8 :: llama_partial_utf8
  gr_lazy :: bool
  gr_awaiting_trigger :: bool
  gr_trigger_buffer :: string
  gr_trigger_tokens :: "llama_token list"
  gr_trigger_patterns :: "string list"

text \<open>The rule copied up to its first \<open>LLAMA_GRETYPE_END\<close>.\<close>

definition copy_rule :: "llama_grammar_rule \<Rightarrow> llama_grammar_rule" where
  "copy_rule r = takeWhile (\<lambda>e. ge_type e \<noteq> LLAMA_GRETYPE_END) r @ [elem LLAMA_GRETYPE_END 0]"

definition initial_stacks :: "nat \<Rightarrow> llama_grammar_rules \<Rightarrow> nat \<Rightarrow> llama_grammar_stacks run" where
  "initial_stacks n rules start_rule_index =
     run_fold (\<lambda>pos stacks. advance_stack n rules (push_pos rules pos []) stacks) (alternates rules start_rule_index) []"

text \<open>\<open>llama_grammar_init_impl\<close> on rules; \<open>None\<close> is the null pointer for left recursion.\<close>

definition grammar_init :: "nat \<Rightarrow> llama_grammar_rules \<Rightarrow> nat \<Rightarrow> bool \<Rightarrow> string list \<Rightarrow> llama_token list \<Rightarrow> llama_grammar option run" where
  "grammar_init n rules start_rule_index lazy trigger_patterns trigger_tokens =
     (let vec_rules = map copy_rule rules in
      run_bind (left_recursive n vec_rules) (\<lambda>found.
        if found then Ret None
        else run_bind (initial_stacks n vec_rules start_rule_index) (\<lambda>stacks.
          Ret (Some \<lparr>gr_rules = vec_rules, gr_stacks = stacks, gr_partial_utf8 = \<lparr>pu_value = 0, pu_n_remain = 0\<rparr>,
            gr_lazy = lazy, gr_awaiting_trigger = lazy, gr_trigger_buffer = [],
            gr_trigger_tokens = trigger_tokens, gr_trigger_patterns = trigger_patterns\<rparr>))))"

text \<open>
  \<open>llama_grammar_accept_str\<close>: the code points but for the terminating 0; \<open>None\<close> is the
  exception for a text that the grammar does not admit, with the grammar as it is then.
\<close>

definition grammar_accept :: "nat \<Rightarrow> uint32 \<Rightarrow> llama_grammar \<Rightarrow> llama_grammar run" where
  "grammar_accept n chr g = run_bind (accept_stacks n (gr_rules g) chr (gr_stacks g)) (\<lambda>stacks. Ret (g\<lparr>gr_stacks := stacks\<rparr>))"

definition grammar_accept_str :: "nat \<Rightarrow> string \<Rightarrow> llama_grammar \<Rightarrow> (bool \<times> llama_grammar) run" where
  "grammar_accept_str n piece g =
     (let (code_points, partial) = decode_utf8 piece (gr_partial_utf8 g) in
      run_bind (run_fold (grammar_accept n) (butlast code_points) g) (\<lambda>g.
        let g = g\<lparr>gr_partial_utf8 := partial\<rparr> in Ret (gr_stacks g \<noteq> [], g)))"

text \<open>
  The vocabulary and the regular expressions are parameters: the pieces, the ends of generation, and
  for a pattern and a text the groups of a full match, the first of which is the match.
\<close>

record grammar_env =
  en_piece :: "llama_token \<Rightarrow> string"
  en_is_eog :: "llama_token \<Rightarrow> bool"
  en_regex_match :: "string \<Rightarrow> string \<Rightarrow> (nat \<times> nat) list option"

definition trigger_start :: "(nat \<times> nat) list \<Rightarrow> nat" where
  "trigger_start groups =
     (case find (\<lambda>(position, len). len > 0) (tl groups) of Some (position, len) \<Rightarrow> position | None \<Rightarrow> fst (hd groups))"

definition allows_eog :: "llama_grammar \<Rightarrow> bool" where
  "allows_eog g = ([] \<in> set (gr_stacks g))"

definition grammar_accept_token :: "nat \<Rightarrow> grammar_env \<Rightarrow> llama_token \<Rightarrow> llama_grammar \<Rightarrow> (bool \<times> llama_grammar) run" where
  "grammar_accept_token n E token g =
     (let piece = en_piece E token in
      if gr_awaiting_trigger g then
        if token \<in> set (gr_trigger_tokens g)
        then grammar_accept_str n piece (g\<lparr>gr_awaiting_trigger := False, gr_trigger_buffer := []\<rparr>)
        else
          let g = g\<lparr>gr_trigger_buffer := gr_trigger_buffer g @ piece\<rparr> in
          case find (\<lambda>pattern. en_regex_match E pattern (gr_trigger_buffer g) \<noteq> None) (gr_trigger_patterns g) of
            None \<Rightarrow> Ret (True, g)
          | Some pattern \<Rightarrow>
              let start = trigger_start (the (en_regex_match E pattern (gr_trigger_buffer g)));
                  constrained_str = drop start (gr_trigger_buffer g)
              in grammar_accept_str n constrained_str (g\<lparr>gr_awaiting_trigger := False, gr_trigger_buffer := []\<rparr>)
      else if en_is_eog E token then (if allows_eog g then Ret (True, g) else Abort)
      else grammar_accept_str n piece g)"

text \<open>
  \<open>llama_grammar_apply_impl\<close>: the candidates with their logits, some of which become
  \<open>-INFINITY\<close>.
\<close>

definition apply_step :: "grammar_env \<Rightarrow> llama_grammar \<Rightarrow> nat \<Rightarrow>
    (llama_token \<times> 'l option) list \<times> llama_grammar_candidate list \<Rightarrow> (llama_token \<times> 'l option) list \<times> llama_grammar_candidate list" where
  "apply_step E g i st =
     (let (dat, candidates) = st; ident = fst (dat ! i); piece = en_piece E ident in
      if en_is_eog E ident then (if allows_eog g then dat else dat[i := (ident, None)], candidates)
      else if piece = [] \<or> piece ! 0 = CHR 0x00 then (dat[i := (ident, None)], candidates)
      else let (code_points, partial) = decode_utf8 piece (gr_partial_utf8 g)
           in (dat, candidates @ [\<lparr>gc_index = i, gc_buffer = code_points, gc_at = 0, gc_partial_utf8 = partial\<rparr>]))"

definition grammar_apply :: "nat \<Rightarrow> nat \<Rightarrow> grammar_env \<Rightarrow> llama_grammar \<Rightarrow> (llama_token \<times> 'l option) list \<Rightarrow> (llama_token \<times> 'l option) list run" where
  "grammar_apply d n E g cur =
     (if gr_awaiting_trigger g then Ret cur
      else let (dat, candidates) = fold (apply_step E g) [0..<length cur] (cur, [])
           in run_bind (reject_candidates d n (gr_rules g) (gr_stacks g) candidates) (\<lambda>rejects.
                Ret (fold (\<lambda>tok dat. dat[gc_index tok := (fst (dat ! gc_index tok), None)]) rejects dat)))"

end
