(* ===== verification/Grammar_Language.thy ===== *)
theory Grammar_Language
  imports Llama_Grammar
begin

text \<open>
  The language of a grammar, as a context-free grammar over code points: the symbols that the elements
  of a rule stand for, the texts that symbols derive, and the texts a stack still admits. The stacks
  of \<open>Llama_Grammar\<close> are compared with it: advancing a stack keeps what it admits, and accepting a
  character leaves its derivative.
\<close>

section \<open>Symbols\<close>

datatype symbol = Chars bool "(uint32 \<times> uint32) list" | Any | Rule nat

fun matches :: "symbol \<Rightarrow> uint32 \<Rightarrow> bool" where
  "matches (Chars positive ranges) c = (positive = (\<exists>(low, high) \<in> set ranges. low \<le> c \<and> c \<le> high))"
| "matches Any c = True"
| "matches (Rule r) c = False"

text \<open>The ranges of a class of characters, and what follows the class.\<close>

fun char_ranges :: "llama_grammar_element list \<Rightarrow> (uint32 \<times> uint32) list \<times> llama_grammar_element list" where
  "char_ranges (e # f # es) =
     (if ge_type f = LLAMA_GRETYPE_CHAR_RNG_UPPER then
        if es \<noteq> [] \<and> ge_type (hd es) = LLAMA_GRETYPE_CHAR_ALT
        then ((ge_value e, ge_value f) # fst (char_ranges es), snd (char_ranges es)) else ([(ge_value e, ge_value f)], es)
      else if ge_type f = LLAMA_GRETYPE_CHAR_ALT
      then ((ge_value e, ge_value e) # fst (char_ranges (f # es)), snd (char_ranges (f # es)))
      else ([(ge_value e, ge_value e)], f # es))"
| "char_ranges es = ([], [])"

lemma char_ranges_length: "length (snd (char_ranges es)) \<le> length es - 1"
  by (induction es rule: char_ranges.induct) (auto split: if_splits)

lemma char_ranges_shorter: "length (snd (char_ranges (e # es))) < Suc (length es)"
  using char_ranges_length [of "e # es"] by simp

function symbols_of :: "llama_grammar_element list \<Rightarrow> symbol list" where
  "symbols_of [] = []"
| "symbols_of (e # es) =
     (case ge_type e of
        LLAMA_GRETYPE_RULE_REF \<Rightarrow> Rule (unat (ge_value e)) # symbols_of es
      | LLAMA_GRETYPE_CHAR_ANY \<Rightarrow> Any # symbols_of es
      | LLAMA_GRETYPE_CHAR \<Rightarrow> Chars True (fst (char_ranges (e # es))) # symbols_of (snd (char_ranges (e # es)))
      | LLAMA_GRETYPE_CHAR_NOT \<Rightarrow> Chars False (fst (char_ranges (e # es))) # symbols_of (snd (char_ranges (e # es)))
      | _ \<Rightarrow> [])"
  by pat_completeness auto
termination
  by (relation "measure length") (simp_all add: char_ranges_shorter)

text \<open>
  A well-formed rule: alternates of whole classes and of references to the \<open>n\<close> rules, separated by
  \<open>LLAMA_GRETYPE_ALT\<close>, with \<open>LLAMA_GRETYPE_END\<close> at the end and only there.
\<close>

function wf_elements :: "nat \<Rightarrow> llama_grammar_element list \<Rightarrow> bool" where
  "wf_elements n [] = False"
| "wf_elements n (e # es) =
     (case ge_type e of
        LLAMA_GRETYPE_END \<Rightarrow> es = []
      | LLAMA_GRETYPE_ALT \<Rightarrow> wf_elements n es
      | LLAMA_GRETYPE_RULE_REF \<Rightarrow> unat (ge_value e) < n \<and> wf_elements n es
      | LLAMA_GRETYPE_CHAR_ANY \<Rightarrow> wf_elements n es
      | LLAMA_GRETYPE_CHAR \<Rightarrow> wf_elements n (snd (char_ranges (e # es)))
      | LLAMA_GRETYPE_CHAR_NOT \<Rightarrow> wf_elements n (snd (char_ranges (e # es)))
      | _ \<Rightarrow> False)"
  by pat_completeness auto
termination
  by (relation "measure (length \<circ> snd)") (simp_all add: char_ranges_shorter)

definition wf_rules :: "llama_grammar_rules \<Rightarrow> bool" where
  "wf_rules rules = (\<forall>rule \<in> set rules. wf_elements (length rules) rule)"

section \<open>Derivations\<close>

definition productions :: "llama_grammar_rules \<Rightarrow> nat \<Rightarrow> symbol list set" where
  "productions rules r =
     {symbols_of ys | ys. ys = rules ! r \<or> (\<exists>xs a. rules ! r = xs @ a # ys \<and> ge_type a = LLAMA_GRETYPE_ALT)}"

inductive derives :: "llama_grammar_rules \<Rightarrow> symbol list \<Rightarrow> uint32 list \<Rightarrow> bool" for rules where
  Nil: "derives rules [] []"
| Char: "matches s c \<Longrightarrow> derives rules ss w \<Longrightarrow> derives rules (s # ss) (c # w)"
| Ref: "p \<in> productions rules r \<Longrightarrow> derives rules p u \<Longrightarrow> derives rules ss w \<Longrightarrow> derives rules (Rule r # ss) (u @ w)"

inductive_cases derives_NilE [elim!]: "derives rules [] w"
inductive_cases derives_ConsE: "derives rules (s # ss) w"
inductive_simps derives_Nil [simp]: "derives rules [] w"

lemma derives_terminal:
  assumes "\<And>r. s \<noteq> Rule r"
  shows "derives rules (s # ss) w = (\<exists>c w'. w = c # w' \<and> matches s c \<and> derives rules ss w')"
  using assms by (blast elim: derives_ConsE intro: derives.Char)

lemma derives_Rule:
  "derives rules (Rule r # ss) w = (\<exists>p u v. p \<in> productions rules r \<and> w = u @ v \<and> derives rules p u \<and> derives rules ss v)"
  by (rule iffI, erule derives_ConsE) (auto intro: derives.Ref)

lemma derives_append1: "derives rules xs u \<Longrightarrow> derives rules ys v \<Longrightarrow> derives rules (xs @ ys) (u @ v)"
  by (induction rule: derives.induct) (auto intro: derives.intros simp: append_assoc)

lemma derives_append2: "derives rules (xs @ ys) w \<Longrightarrow> \<exists>u v. w = u @ v \<and> derives rules xs u \<and> derives rules ys v"
proof (induction xs arbitrary: w)
  case (Cons s xs)
  then show ?case
  proof (cases s)
    case (Rule r)
    with Cons.prems obtain p u v where 1: "p \<in> productions rules r" "w = u @ v" "derives rules p u" "derives rules (xs @ ys) v"
      by (auto simp: derives_Rule)
    from Cons.IH [OF this(4)] obtain v1 v2 where "v = v1 @ v2" "derives rules xs v1" "derives rules ys v2" by blast
    with 1 Rule show ?thesis by (metis append_assoc derives.Ref)
  next
    case (Chars b rs)
    with Cons.prems obtain c v where 1: "w = c # v" "matches s c" "derives rules (xs @ ys) v" by (auto simp: derives_terminal)
    from Cons.IH [OF this(3)] 1(1,2) show ?thesis by (metis Cons_eq_appendI derives.Char)
  next
    case Any
    with Cons.prems obtain c v where 1: "w = c # v" "matches s c" "derives rules (xs @ ys) v" by (auto simp: derives_terminal)
    from Cons.IH [OF this(3)] 1(1,2) show ?thesis by (metis Cons_eq_appendI derives.Char)
  qed
qed simp

lemma derives_append: "derives rules (xs @ ys) w = (\<exists>u v. w = u @ v \<and> derives rules xs u \<and> derives rules ys v)"
  using derives_append1 derives_append2 by metis

text \<open>A leftmost step: a reference may be replaced by any of its productions.\<close>

lemma derives_unfold: "derives rules (Rule r # ss) w = (\<exists>p \<in> productions rules r. derives rules (p @ ss) w)"
  unfolding derives_Rule derives_append by blast

section \<open>Positions\<close>

definition elements_from :: "llama_grammar_rules \<Rightarrow> element_pos \<Rightarrow> llama_grammar_element list" where
  "elements_from rules pos = drop (snd pos) (rules ! fst pos)"

definition pos_ok :: "llama_grammar_rules \<Rightarrow> element_pos \<Rightarrow> bool" where
  "pos_ok rules pos = (fst pos < length rules \<and> wf_elements (length rules) (elements_from rules pos))"

definition symbols_at :: "llama_grammar_rules \<Rightarrow> element_pos \<Rightarrow> symbol list" where
  "symbols_at rules pos = symbols_of (elements_from rules pos)"

text \<open>What a stack still admits: the symbols from its top down.\<close>

definition stack_symbols :: "llama_grammar_rules \<Rightarrow> llama_grammar_stack \<Rightarrow> symbol list" where
  "stack_symbols rules stack = concat (map (symbols_at rules) (rev stack))"

definition stack_ok :: "llama_grammar_rules \<Rightarrow> llama_grammar_stack \<Rightarrow> bool" where
  "stack_ok rules stack = (\<forall>pos \<in> set stack. pos_ok rules pos \<and> \<not> is_end_of_sequence rules pos)"

text \<open>A stack that \<open>llama_grammar_advance_stack\<close> leaves: it is empty or its top is a class of characters.\<close>

definition is_char :: "llama_gretype \<Rightarrow> bool" where
  "is_char type = (type \<in> {LLAMA_GRETYPE_CHAR, LLAMA_GRETYPE_CHAR_NOT, LLAMA_GRETYPE_CHAR_ANY})"

definition ready :: "llama_grammar_rules \<Rightarrow> llama_grammar_stack \<Rightarrow> bool" where
  "ready rules stack = (stack_ok rules stack \<and> (stack \<noteq> [] \<longrightarrow> is_char (ge_type (element_at rules (last stack)))))"

definition admits :: "llama_grammar_rules \<Rightarrow> llama_grammar_stacks \<Rightarrow> uint32 list \<Rightarrow> bool" where
  "admits rules stacks w = (\<exists>stack \<in> set stacks. derives rules (stack_symbols rules stack) w)"

lemma pos_ok_cases:
  assumes "pos_ok rules pos"
  obtains e es where "elements_from rules pos = e # es" "element_at rules pos = e" "wf_elements (length rules) (e # es)"
    "fst pos < length rules" "elements_from rules (succ_pos pos) = es"
proof -
  obtain e es where e: "elements_from rules pos = e # es" using assms by (cases "elements_from rules pos") (auto simp: pos_ok_def)
  moreover have "element_at rules pos = e"
    using e by (auto simp: elements_from_def element_at_def) (metis nth_via_drop)
  moreover have "elements_from rules (succ_pos pos) = es"
    using e by (auto simp: elements_from_def succ_pos_def) (metis drop_Suc list.sel(3) tl_drop)
  ultimately show ?thesis using assms that by (auto simp: pos_ok_def)
qed

lemma symbols_at_end: "pos_ok rules pos \<Longrightarrow> is_end_of_sequence rules pos \<Longrightarrow> symbols_at rules pos = []"
  by (erule pos_ok_cases) (auto simp: symbols_at_def is_end_of_sequence_def)

lemma succ_pos_ok:
  "pos_ok rules pos \<Longrightarrow> ge_type (element_at rules pos) = LLAMA_GRETYPE_RULE_REF \<Longrightarrow>
   pos_ok rules (succ_pos pos) \<and> unat (ge_value (element_at rules pos)) < length rules \<and>
   symbols_at rules pos = Rule (unat (ge_value (element_at rules pos))) # symbols_at rules (succ_pos pos)"
  by (erule pos_ok_cases) (auto simp: symbols_at_def pos_ok_def succ_pos_def)

lemma stack_symbols_push:
  "pos_ok rules pos \<Longrightarrow> stack_symbols rules (push_pos rules pos stack) = symbols_at rules pos @ stack_symbols rules stack"
  by (simp add: push_pos_def stack_symbols_def symbols_at_end)

lemma stack_symbols_snoc: "stack_symbols rules (stack @ [pos]) = symbols_at rules pos @ stack_symbols rules stack"
  by (simp add: stack_symbols_def)

lemma stack_ok_push: "pos_ok rules pos \<Longrightarrow> stack_ok rules stack \<Longrightarrow> stack_ok rules (push_pos rules pos stack)"
  by (auto simp: push_pos_def stack_ok_def)

lemma stack_ok_butlast: "stack_ok rules stack \<Longrightarrow> stack_ok rules (butlast stack)"
  by (auto simp: stack_ok_def dest: in_set_butlastD)

section \<open>Characters\<close>

definition in_ranges :: "uint32 \<Rightarrow> (uint32 \<times> uint32) list \<Rightarrow> bool" where
  "in_ranges c ranges = (\<exists>(low, high) \<in> set ranges. low \<le> c \<and> c \<le> high)"

lemma in_ranges_simps [simp]:
  "\<not> in_ranges c []" "in_ranges c ((low, high) # ranges) = ((low \<le> c \<and> c \<le> high) \<or> in_ranges c ranges)"
  by (auto simp: in_ranges_def)

lemma char_ranges_chunk:
  "\<exists>xs. e # es = e # xs @ snd (char_ranges (e # es)) \<and>
        (\<forall>x \<in> set xs. ge_type x \<in> {LLAMA_GRETYPE_CHAR_RNG_UPPER, LLAMA_GRETYPE_CHAR_ALT})" if "es \<noteq> []"
  using that
proof (induction "e # es" arbitrary: e es rule: char_ranges.induct)
  case (1 e f es)
  show ?case
  proof (cases "ge_type f = LLAMA_GRETYPE_CHAR_RNG_UPPER")
    case upper: True
    show ?thesis
    proof (cases "es \<noteq> [] \<and> ge_type (hd es) = LLAMA_GRETYPE_CHAR_ALT")
      case True
      then obtain g gs where es: "es = g # gs" "ge_type g = LLAMA_GRETYPE_CHAR_ALT" by (cases es) auto
      show ?thesis
      proof (cases "gs = []")
        case True then show ?thesis using es upper by (auto intro!: exI [of _ "[f, g]"])
      next
        case False
        then obtain xs where "g # gs = g # xs @ snd (char_ranges (g # gs))"
          "\<forall>x \<in> set xs. ge_type x \<in> {LLAMA_GRETYPE_CHAR_RNG_UPPER, LLAMA_GRETYPE_CHAR_ALT}"
          using "1.hyps"(1) [OF upper True es(1)] by blast
        then show ?thesis using es upper True by (intro exI [of _ "f # g # xs"]) auto
      qed
    qed (use upper in \<open>auto intro!: exI [of _ "[f]"]\<close>)
  next
    case upper: False
    show ?thesis
    proof (cases "ge_type f = LLAMA_GRETYPE_CHAR_ALT")
      case True
      show ?thesis
      proof (cases "es = []")
        case False
        then obtain xs where "f # es = f # xs @ snd (char_ranges (f # es))"
          "\<forall>x \<in> set xs. ge_type x \<in> {LLAMA_GRETYPE_CHAR_RNG_UPPER, LLAMA_GRETYPE_CHAR_ALT}"
          using "1.hyps" upper True by blast
        then show ?thesis using upper True by (intro exI [of _ "f # xs"]) auto
      qed (use upper True in \<open>auto intro!: exI [of _ "[f]"]\<close>)
    qed (use upper in auto)
  qed
qed simp

lemma chunk_suffix:
  assumes "e # es = e # xs @ rest" and "\<forall>x \<in> set xs. ge_type x \<in> {LLAMA_GRETYPE_CHAR_RNG_UPPER, LLAMA_GRETYPE_CHAR_ALT}"
    and "is_char (ge_type e)" and "e # es = ys @ a # zs" and "ge_type a = LLAMA_GRETYPE_ALT"
  obtains us where "rest = us @ a # zs"
proof -
  have "(e # xs) @ rest = ys @ a # zs" using assms(1,4) by simp
  then consider us where "ys = (e # xs) @ us" "rest = us @ a # zs" | us where "(e # xs) = ys @ us" "us @ rest = a # zs"
    unfolding append_eq_append_conv2 by (metis append_Nil2)
  then show ?thesis
  proof cases
    case 2
    show ?thesis
    proof (cases us)
      case Nil then show ?thesis using 2 that by fastforce
    next
      case (Cons b vs)
      then have "a \<in> set (e # xs)" using 2 by (metis list.inject append_Cons in_set_conv_decomp)
      then show ?thesis using assms(2,3,5) by (auto simp: is_char_def)
    qed
  qed (use that in auto)
qed

lemma wf_elements_suffix: "wf_elements n es \<Longrightarrow> es = ys @ a # zs \<Longrightarrow> ge_type a = LLAMA_GRETYPE_ALT \<Longrightarrow> wf_elements n zs"
proof (induction n es arbitrary: ys rule: wf_elements.induct)
  case (2 n e es)
  note IH = "2.IH"
  show ?case
  proof (cases "ge_type e = LLAMA_GRETYPE_CHAR \<or> ge_type e = LLAMA_GRETYPE_CHAR_NOT")
    case True
    then have wf: "wf_elements n (snd (char_ranges (e # es)))" using "2.prems"(1) by auto
    then have "es \<noteq> []" by auto
    from char_ranges_chunk [OF this] obtain xs where
      "e # es = e # xs @ snd (char_ranges (e # es))"
      "\<forall>x \<in> set xs. ge_type x \<in> {LLAMA_GRETYPE_CHAR_RNG_UPPER, LLAMA_GRETYPE_CHAR_ALT}" by blast
    from chunk_suffix [OF this _ "2.prems"(2,3)] True obtain us where "snd (char_ranges (e # es)) = us @ a # zs"
      by (auto simp: is_char_def)
    then show ?thesis using IH(3,4) wf True "2.prems"(3) by metis
  next
    case False
    show ?thesis using "2.prems" IH(1,2,5) False
      by (cases ys; cases "ge_type e") auto
  qed
qed simp

lemma wf_elements_end: "wf_elements n es \<Longrightarrow> es \<noteq> [] \<and> (\<forall>e \<in> set (butlast es). ge_type e \<noteq> LLAMA_GRETYPE_END)"
proof (induction n es rule: wf_elements.induct)
  case (2 n e es)
  note IH = "2.IH"
  show ?case
  proof (cases "ge_type e = LLAMA_GRETYPE_CHAR \<or> ge_type e = LLAMA_GRETYPE_CHAR_NOT")
    case True
    then have wf: "wf_elements n (snd (char_ranges (e # es)))" using "2.prems"(1) by auto
    then have "es \<noteq> []" by auto
    from char_ranges_chunk [OF this] obtain xs where
      c: "e # es = e # xs @ snd (char_ranges (e # es))"
      "\<forall>x \<in> set xs. ge_type x \<in> {LLAMA_GRETYPE_CHAR_RNG_UPPER, LLAMA_GRETYPE_CHAR_ALT}" by blast
    have "snd (char_ranges (e # es)) \<noteq> [] \<and> (\<forall>e \<in> set (butlast (snd (char_ranges (e # es)))). ge_type e \<noteq> LLAMA_GRETYPE_END)"
      using IH(3,4) wf True by blast
    then have "\<forall>e \<in> set (butlast (e # xs @ snd (char_ranges (e # es)))). ge_type e \<noteq> LLAMA_GRETYPE_END"
      using c(2) True by (auto simp: butlast_append)
    then show ?thesis using c(1) by simp
  next
    case False
    show ?thesis using "2.prems" IH(1,2,5) False by (cases "ge_type e") auto
  qed
qed simp

lemma set_alternate_starts:
  "\<forall>e \<in> set (butlast es). ge_type e \<noteq> LLAMA_GRETYPE_END \<Longrightarrow>
   set (alternate_starts es k) = {k + length xs + 1 | xs a ys. es = xs @ a # ys \<and> ge_type a = LLAMA_GRETYPE_ALT}"
proof (induction es k rule: alternate_starts.induct)
  case (2 e es k)
  have split: "{k + length xs + 1 | xs a ys. e # es = xs @ a # ys \<and> ge_type a = LLAMA_GRETYPE_ALT} =
    (if ge_type e = LLAMA_GRETYPE_ALT then {k + 1} else {}) \<union>
    {k + 1 + length xs + 1 | xs a ys. es = xs @ a # ys \<and> ge_type a = LLAMA_GRETYPE_ALT}" (is "?L = ?A \<union> ?B")
  proof (intro set_eqI iffI)
    fix x assume "x \<in> ?L"
    then show "x \<in> ?A \<union> ?B" by (fastforce simp: Cons_eq_append_conv)
  next
    fix x assume "x \<in> ?A \<union> ?B"
    then show "x \<in> ?L"
    proof
      assume "x \<in> ?A" then show ?thesis by (fastforce split: if_splits)
    next
      assume "x \<in> ?B"
      then obtain xs a ys where "x = k + 1 + length xs + 1" "es = xs @ a # ys" "ge_type a = LLAMA_GRETYPE_ALT" by blast
      then show ?thesis by (intro CollectI exI [of _ "e # xs"] exI [of _ a] exI [of _ ys]) auto
    qed
  qed
  show ?case
  proof (cases "ge_type e = LLAMA_GRETYPE_END")
    case True
    then have "es = []" using "2.prems" by (cases es) auto
    then show ?thesis using True unfolding split by simp
  next
    case False
    then show ?thesis using "2.IH" "2.prems" unfolding split by (auto split: if_splits)
  qed
qed simp

lemma match_loop_ranges:
  assumes "ge_type e \<noteq> LLAMA_GRETYPE_CHAR_ANY" and "es \<noteq> []"
  shows "\<exists>k. (\<forall>c found. match_loop (e # es) c found i = (found \<or> in_ranges c (fst (char_ranges (e # es))), i + k)) \<and>
             drop k (e # es) = snd (char_ranges (e # es))"
  using assms
proof (induction "e # es" arbitrary: e es i rule: char_ranges.induct)
  case (1 e f es)
  show ?case
  proof (cases "ge_type f = LLAMA_GRETYPE_CHAR_RNG_UPPER")
    case upper: True
    show ?thesis
    proof (cases "es \<noteq> [] \<and> ge_type (hd es) = LLAMA_GRETYPE_CHAR_ALT")
      case True
      then obtain g gs where es: "es = g # gs" "ge_type g = LLAMA_GRETYPE_CHAR_ALT" by (cases es) auto
      show ?thesis
      proof (cases "gs = []")
        case True then show ?thesis using es upper by (auto intro!: exI [of _ 3])
      next
        case False
        then obtain k where "\<forall>c found. match_loop (g # gs) c found (i + 2) = (found \<or> in_ranges c (fst (char_ranges (g # gs))), i + 2 + k)"
          "drop k (g # gs) = snd (char_ranges (g # gs))"
          using "1.hyps"(1) [OF upper True es(1), of "i + 2"] es(2) by auto
        then show ?thesis using es upper True by (intro exI [of _ "2 + k"]) (auto simp: Let_def)
      qed
    qed (use upper in \<open>auto intro!: exI [of _ 2]\<close>)
  next
    case upper: False
    show ?thesis
    proof (cases "ge_type f = LLAMA_GRETYPE_CHAR_ALT")
      case True
      show ?thesis
      proof (cases "es = []")
        case False
        then obtain k where "\<forall>c found. match_loop (f # es) c found (i + 1) = (found \<or> in_ranges c (fst (char_ranges (f # es))), i + 1 + k)"
          "drop k (f # es) = snd (char_ranges (f # es))"
          using "1.hyps"(3) [OF upper True, of "i + 1"] True by auto
        then show ?thesis using upper True "1.prems" by (intro exI [of _ "1 + k"]) (auto simp: Let_def)
      qed (use upper True "1.prems" in \<open>auto intro!: exI [of _ 2]\<close>)
    qed (use upper "1.prems" in \<open>auto intro!: exI [of _ 1]\<close>)
  qed
qed simp

text \<open>A class at a position: its symbol, the position after it, and what \<open>llama_grammar_match_char\<close> returns.\<close>

definition is_class :: "symbol \<Rightarrow> bool" where
  "is_class s = (case s of Rule r \<Rightarrow> False | _ \<Rightarrow> True)"

lemma derives_class:
  "is_class s \<Longrightarrow> derives rules (s # ss) w = (\<exists>c w'. w = c # w' \<and> matches s c \<and> derives rules ss w')"
  by (rule derives_terminal) (auto simp: is_class_def)

lemma elements_from_drop: "elements_from rules (fst pos, snd pos + k) = drop k (elements_from rules pos)"
  by (simp add: elements_from_def add.commute)

lemma match_char_ok:
  assumes "pos_ok rules pos" and "is_char (ge_type (element_at rules pos))"
  obtains s j where "symbols_at rules pos = s # symbols_at rules (fst pos, j)" "is_class s" "pos_ok rules (fst pos, j)"
    "length (elements_from rules (fst pos, j)) < length (elements_from rules pos)"
    "\<And>c. match_char rules pos c = Ret (matches s c, (fst pos, j))"
proof -
  from pos_ok_cases [OF assms(1)] obtain e es where
    e: "elements_from rules pos = e # es" "element_at rules pos = e" "wf_elements (length rules) (e # es)" by metis
  have loop: "match_char rules pos c =
      (let (found, i) = match_loop (e # es) c False (snd pos) in Ret (found = is_positive_char (ge_type e), (fst pos, i)))" for c
    using assms(2) e(1,2) by (auto simp: match_char_def elements_from_def is_char_def is_positive_char_def Let_def)
  show ?thesis
  proof (cases "ge_type e = LLAMA_GRETYPE_CHAR_ANY")
    case True
    then obtain f fs where f: "es = f # fs" using e(3) by (cases es) auto
    then have "ge_type f \<notin> {LLAMA_GRETYPE_CHAR_RNG_UPPER, LLAMA_GRETYPE_CHAR_ALT}" using e(3) True by auto
    then have "match_char rules pos c = Ret (matches Any c, (fst pos, snd pos + 1))" for c
      unfolding loop f using True by (simp add: is_positive_char_def)
    moreover have "elements_from rules (fst pos, snd pos + 1) = es" using e(1) elements_from_drop [of rules pos 1] by simp
    ultimately show ?thesis
      using that [of Any "snd pos + 1"] e True assms(1) by (simp add: symbols_at_def is_class_def pos_ok_def)
  next
    case False
    then have ty: "ge_type e = LLAMA_GRETYPE_CHAR \<or> ge_type e = LLAMA_GRETYPE_CHAR_NOT"
      using assms(2) e(2) by (auto simp: is_char_def)
    then have "es \<noteq> []" using e(3) by auto
    from match_loop_ranges [OF False this] obtain k where
      k: "\<forall>c found. match_loop (e # es) c found (snd pos) = (found \<or> in_ranges c (fst (char_ranges (e # es))), snd pos + k)"
         "drop k (e # es) = snd (char_ranges (e # es))" by blast
    let ?s = "Chars (is_positive_char (ge_type e)) (fst (char_ranges (e # es)))"
    have "match_char rules pos c = Ret (matches ?s c, (fst pos, snd pos + k))" for c
      unfolding loop using k(1) by (auto simp: in_ranges_def)
    moreover have "elements_from rules (fst pos, snd pos + k) = snd (char_ranges (e # es))"
      using e(1) k(2) elements_from_drop [of rules pos k] by simp
    ultimately show ?thesis
      using that [of ?s "snd pos + k"] e ty assms(1) char_ranges_shorter [of e es]
      by (auto simp: symbols_at_def is_class_def pos_ok_def is_positive_char_def simp del: char_ranges.simps)
  qed
qed

section \<open>Alternates\<close>

lemma alternates_ok:
  assumes "wf_rules rules" and "r < length rules"
  shows "\<forall>p \<in> set (alternates rules r). pos_ok rules p"
    and "symbols_at rules ` set (alternates rules r) = productions rules r"
proof -
  have wf: "wf_elements (length rules) (rules ! r)" using assms by (simp add: wf_rules_def)
  have starts: "set (alternate_starts (rules ! r) 0) = {length xs + 1 | xs a ys. rules ! r = xs @ a # ys \<and> ge_type a = LLAMA_GRETYPE_ALT}"
    using set_alternate_starts [of "rules ! r" 0] wf_elements_end [OF wf] by simp
  show "\<forall>p \<in> set (alternates rules r). pos_ok rules p"
    using assms(2) wf wf_elements_suffix [OF wf]
    by (auto simp: alternates_def starts pos_ok_def elements_from_def)
  have at_alt: "symbols_at rules (r, length xs + 1) = symbols_of ys" if "rules ! r = xs @ a # ys" for xs a ys
    using that by (simp add: symbols_at_def elements_from_def)
  have "(\<lambda>i. symbols_at rules (r, i)) ` {length xs + 1 | xs a ys. rules ! r = xs @ a # ys \<and> ge_type a = LLAMA_GRETYPE_ALT} =
      {symbols_of ys | xs a ys. rules ! r = xs @ a # ys \<and> ge_type a = LLAMA_GRETYPE_ALT}" (is "?f ` ?P = ?Q")
  proof (intro set_eqI iffI)
    fix x assume "x \<in> ?f ` ?P"
    then obtain xs a ys where "x = ?f (length xs + 1)" "rules ! r = xs @ a # ys" "ge_type a = LLAMA_GRETYPE_ALT" by fast
    then show "x \<in> ?Q" using at_alt [of xs a ys] by fast
  next
    fix x assume "x \<in> ?Q"
    then obtain xs a ys where x: "x = symbols_of ys" "rules ! r = xs @ a # ys" "ge_type a = LLAMA_GRETYPE_ALT" by fast
    then have "x = ?f (length xs + 1)" using at_alt [of xs a ys] by simp
    with x(2,3) show "x \<in> ?f ` ?P" by fast
  qed
  moreover have "symbols_at rules (r, 0) = symbols_of (rules ! r)" by (simp add: symbols_at_def elements_from_def)
  moreover have "productions rules r =
      insert (symbols_of (rules ! r)) {symbols_of ys | xs a ys. rules ! r = xs @ a # ys \<and> ge_type a = LLAMA_GRETYPE_ALT}"
    unfolding productions_def by blast
  ultimately show "symbols_at rules ` set (alternates rules r) = productions rules r"
    by (simp add: alternates_def image_image starts)
qed

section \<open>Outcomes\<close>

text \<open>What holds of the result, if the depth was enough; a failed assertion is excluded.\<close>

fun run_ok :: "'a run \<Rightarrow> ('a \<Rightarrow> bool) \<Rightarrow> bool" where
  "run_ok (Ret x) Q = Q x"
| "run_ok Abort Q = False"
| "run_ok Too_Deep Q = True"

lemma run_ok_bind: "run_ok m P \<Longrightarrow> (\<And>x. P x \<Longrightarrow> run_ok (f x) Q) \<Longrightarrow> run_ok (run_bind m f) Q"
  by (cases m) auto

lemma run_ok_mono: "run_ok m P \<Longrightarrow> (\<And>x. P x \<Longrightarrow> Q x) \<Longrightarrow> run_ok m Q"
  by (cases m) auto

lemma run_ok_Ret: "run_ok m P \<Longrightarrow> m = Ret x \<Longrightarrow> P x"
  by simp

lemma run_ok_fold:
  assumes "\<And>ys1 y ys2 x. ys = ys1 @ y # ys2 \<Longrightarrow> P ys1 x \<Longrightarrow> run_ok (f y x) (P (ys1 @ [y]))" and "P [] x"
  shows "run_ok (run_fold f ys x) (P ys)"
proof -
  have "P ys1 x \<Longrightarrow> ys = ys1 @ zs \<Longrightarrow> run_ok (run_fold f zs x) (P ys)" for ys1 zs x
  proof (induction zs arbitrary: ys1 x)
    case (Cons z zs)
    have "run_ok (f z x) (P (ys1 @ [z]))" using assms(1) Cons.prems by simp
    then show ?case using Cons.IH [of "ys1 @ [z]"] Cons.prems(2) by (auto intro: run_ok_bind)
  qed simp
  from this [of "[]" x ys] show ?thesis using assms(2) by simp
qed

section \<open>Advancing a stack\<close>

definition all_ready :: "llama_grammar_rules \<Rightarrow> llama_grammar_stacks \<Rightarrow> bool" where
  "all_ready rules stacks = (\<forall>stack \<in> set stacks. ready rules stack)"

text \<open>Stacks extend others by what a text may be derived from.\<close>

definition extends :: "llama_grammar_rules \<Rightarrow> llama_grammar_stacks \<Rightarrow> (uint32 list \<Rightarrow> bool) \<Rightarrow> llama_grammar_stacks \<Rightarrow> bool" where
  "extends rules stacks language stacks' =
     (all_ready rules stacks' \<and> set stacks \<subseteq> set stacks' \<and> (\<forall>w. admits rules stacks' w = (admits rules stacks w \<or> language w)))"

lemma extends_add_stack:
  "all_ready rules stacks \<Longrightarrow> ready rules stack \<Longrightarrow>
   extends rules stacks (derives rules (stack_symbols rules stack)) (add_stack stack stacks)"
  by (auto simp: extends_def add_stack_def all_ready_def admits_def)

lemma extends_refl: "all_ready rules stacks \<Longrightarrow> (\<And>w. \<not> language w) \<Longrightarrow> extends rules stacks language stacks"
  by (simp add: extends_def)

lemma extends_trans:
  "extends rules stacks l1 stacks1 \<Longrightarrow> extends rules stacks1 l2 stacks2 \<Longrightarrow> (\<And>w. language w = (l1 w \<or> l2 w)) \<Longrightarrow>
   extends rules stacks language stacks2"
  by (auto simp: extends_def)

lemma run_fold_extends:
  assumes "\<And>y stacks1. y \<in> set ys \<Longrightarrow> all_ready rules stacks1 \<Longrightarrow> run_ok (f y stacks1) (extends rules stacks1 (l y))"
    and "all_ready rules stacks"
  shows "run_ok (run_fold f ys stacks) (extends rules stacks (\<lambda>w. \<exists>y \<in> set ys. l y w))"
proof (rule run_ok_fold)
  fix ys1 y ys2 x
  assume ys: "ys = ys1 @ y # ys2" and x: "extends rules stacks (\<lambda>w. \<exists>y \<in> set ys1. l y w) x"
  then have "run_ok (f y x) (extends rules x (l y))" using assms(1) by (simp add: extends_def)
  then show "run_ok (f y x) (extends rules stacks (\<lambda>w. \<exists>y \<in> set (ys1 @ [y]). l y w))"
    by (rule run_ok_mono) (erule extends_trans [OF x], auto)
qed (simp add: extends_refl assms(2))

lemma advance_stack_extends:
  "wf_rules rules \<Longrightarrow> stack_ok rules stack \<Longrightarrow> all_ready rules stacks \<Longrightarrow>
   run_ok (advance_stack n rules stack stacks) (extends rules stacks (derives rules (stack_symbols rules stack)))"
proof (induction n arbitrary: stack stacks)
  case (Suc n)
  show ?case
  proof (cases "stack = []")
    case True
    then show ?thesis using Suc.prems by (simp add: extends_add_stack ready_def)
  next
    case False
    let ?pos = "last stack" and ?rest = "butlast stack"
    have stack: "stack = ?rest @ [?pos]" using False by simp
    have ok: "pos_ok rules ?pos" and not_end: "\<not> is_end_of_sequence rules ?pos"
      using Suc.prems(2) False by (auto simp: stack_ok_def)
    show ?thesis
    proof (cases "is_char (ge_type (element_at rules ?pos))")
      case True
      then have "ready rules stack" using Suc.prems(2) by (simp add: ready_def)
      then show ?thesis using True False Suc.prems(3) by (auto simp: is_char_def Let_def extends_add_stack)
    next
      case no_char: False
      obtain e es where "element_at rules ?pos = e" "wf_elements (length rules) (e # es)" using pos_ok_cases [OF ok] by metis
      then have ref: "ge_type (element_at rules ?pos) = LLAMA_GRETYPE_RULE_REF"
        using no_char not_end by (cases "ge_type e") (auto simp: is_char_def is_end_of_sequence_def)
      let ?r = "unat (ge_value (element_at rules ?pos))"
      let ?base = "push_pos rules (succ_pos ?pos) ?rest"
      from succ_pos_ok [OF ok ref] have succ: "pos_ok rules (succ_pos ?pos)" and r: "?r < length rules"
        and at: "symbols_at rules ?pos = Rule ?r # symbols_at rules (succ_pos ?pos)" by auto
      have base: "stack_ok rules ?base" using Suc.prems(2) succ by (simp add: stack_ok_push stack_ok_butlast)
      note alts = alternates_ok [OF Suc.prems(1) r]
      have "run_ok (run_fold (\<lambda>p. advance_stack n rules (push_pos rules p ?base)) (alternates rules ?r) stacks)
          (extends rules stacks (\<lambda>w. \<exists>p \<in> set (alternates rules ?r). derives rules (stack_symbols rules (push_pos rules p ?base)) w))"
        using alts(1) by (intro run_fold_extends Suc.IH Suc.prems stack_ok_push [OF _ base]) auto
      moreover have "(\<exists>p \<in> set (alternates rules ?r). derives rules (stack_symbols rules (push_pos rules p ?base)) w) =
          derives rules (stack_symbols rules stack) w" for w
      proof -
        have "stack_symbols rules stack = Rule ?r # symbols_at rules (succ_pos ?pos) @ stack_symbols rules ?rest"
          by (subst stack) (simp add: stack_symbols_snoc at)
        then have "derives rules (stack_symbols rules stack) w =
            (\<exists>q \<in> productions rules ?r. derives rules (q @ stack_symbols rules ?base) w)"
          using succ by (simp add: derives_unfold stack_symbols_push)
        then show ?thesis using alts(1) by (auto simp: alts(2) [symmetric] stack_symbols_push)
      qed
      ultimately show ?thesis using ref False by (simp add: Let_def)
    qed
  qed
qed simp

end
