(* ===== verification/Grammar_Accept.thy ===== *)
theory Grammar_Accept
  imports Grammar_Language
begin

text \<open>
  Accepting text and rejecting candidates. The stacks that advancing and accepting may reach are
  described by relations on stacks; with them the loops of \<open>llama_grammar_accept\<close> and of
  \<open>llama_grammar_reject_candidates\<close> are compared with each other and with the language of the
  grammar.
\<close>

section \<open>The stacks reached\<close>

inductive advances :: "llama_grammar_rules \<Rightarrow> llama_grammar_stack \<Rightarrow> llama_grammar_stack \<Rightarrow> bool" for rules where
  stop: "stack = [] \<or> is_char (ge_type (element_at rules (last stack))) \<Longrightarrow> advances rules stack stack"
| ref: "stack \<noteq> [] \<Longrightarrow> ge_type (element_at rules (last stack)) = LLAMA_GRETYPE_RULE_REF \<Longrightarrow>
    p \<in> set (alternates rules (unat (ge_value (element_at rules (last stack))))) \<Longrightarrow>
    advances rules (push_pos rules p (push_pos rules (succ_pos (last stack)) (butlast stack))) stack' \<Longrightarrow>
    advances rules stack stack'"

inductive_cases advancesE: "advances rules stack stack'"

lemma advances_stop: "stack = [] \<or> is_char (ge_type (element_at rules (last stack))) \<Longrightarrow> advances rules stack s = (s = stack)"
  by (auto elim: advancesE intro: advances.stop simp: is_char_def)

lemma advances_ref:
  "stack \<noteq> [] \<Longrightarrow> ge_type (element_at rules (last stack)) = LLAMA_GRETYPE_RULE_REF \<Longrightarrow>
   advances rules stack s =
     (\<exists>p \<in> set (alternates rules (unat (ge_value (element_at rules (last stack))))).
        advances rules (push_pos rules p (push_pos rules (succ_pos (last stack)) (butlast stack))) s)"
  by (rule iffI, erule advancesE) (auto simp: is_char_def intro: advances.ref)

lemma set_add_stack [simp]: "set (add_stack stack stacks) = insert stack (set stacks)"
  by (auto simp: add_stack_def)

lemma run_fold_set:
  "run_fold f ys x = Ret x' \<Longrightarrow> (\<And>y x x'. y \<in> set ys \<Longrightarrow> f y x = Ret x' \<Longrightarrow> set x' = set x \<union> A y) \<Longrightarrow>
   set x' = set x \<union> \<Union> (A ` set ys)"
proof (induction ys arbitrary: x)
  case (Cons y ys)
  then obtain x1 where "f y x = Ret x1" "run_fold f ys x1 = Ret x'" by (cases "f y x") auto
  moreover have "set x1 = set x \<union> A y" using Cons.prems(2) [OF _ \<open>f y x = Ret x1\<close>] by simp
  moreover have "set x' = set x1 \<union> \<Union> (A ` set ys)" by (rule Cons.IH) (use Cons.prems(2) calculation(2) in auto)
  ultimately show ?case by auto
qed simp

text \<open>The two ways to advance, as equations.\<close>

lemma advance_stop:
  "stack = [] \<or> is_char (ge_type (element_at rules (last stack))) \<Longrightarrow> advance_stack (Suc n) rules stack ns = Ret (add_stack stack ns)"
  by (auto simp: is_char_def Let_def)

lemma advance_ref:
  "stack \<noteq> [] \<Longrightarrow> ge_type (element_at rules (last stack)) = LLAMA_GRETYPE_RULE_REF \<Longrightarrow>
   advance_stack (Suc n) rules stack ns =
     run_fold (\<lambda>p. advance_stack n rules (push_pos rules p (push_pos rules (succ_pos (last stack)) (butlast stack))))
       (alternates rules (unat (ge_value (element_at rules (last stack))))) ns"
  by (simp add: Let_def)

lemma advance_abort:
  "stack \<noteq> [] \<Longrightarrow> \<not> is_char (ge_type (element_at rules (last stack))) \<Longrightarrow>
   ge_type (element_at rules (last stack)) \<noteq> LLAMA_GRETYPE_RULE_REF \<Longrightarrow> advance_stack (Suc n) rules stack ns = Abort"
  by (cases "ge_type (element_at rules (last stack))") (auto simp: is_char_def Let_def)

lemma advance_stack_set: "advance_stack n rules stack ns = Ret ns' \<Longrightarrow> set ns' = set ns \<union> {s. advances rules stack s}"
proof (induction n arbitrary: stack ns ns')
  case (Suc n)
  consider "stack = [] \<or> is_char (ge_type (element_at rules (last stack)))"
    | "stack \<noteq> []" "ge_type (element_at rules (last stack)) = LLAMA_GRETYPE_RULE_REF"
    using Suc.prems advance_abort [of stack rules n ns] by fastforce
  then show ?case
  proof cases
    case 1
    then show ?thesis using Suc.prems by (auto simp: advances_stop advance_stop simp del: advance_stack.simps)
  next
    case 2
    have "set ns' = set ns \<union> (\<Union>p \<in> set (alternates rules (unat (ge_value (element_at rules (last stack))))).
        {s. advances rules (push_pos rules p (push_pos rules (succ_pos (last stack)) (butlast stack))) s})"
      by (rule run_fold_set [OF _ Suc.IH]) (use Suc.prems in \<open>simp_all add: advance_ref [OF 2] del: advance_stack.simps\<close>)
    then show ?thesis by (auto simp: advances_ref [OF 2])
  qed
qed simp

section \<open>Accepting a character\<close>

definition class_at :: "llama_grammar_rules \<Rightarrow> element_pos \<Rightarrow> symbol" where
  "class_at rules pos = hd (symbols_at rules pos)"

definition pos_after :: "llama_grammar_rules \<Rightarrow> element_pos \<Rightarrow> element_pos" where
  "pos_after rules pos = (case match_char rules pos 0 of Ret (_, after) \<Rightarrow> after | _ \<Rightarrow> pos)"

lemma match_char_at:
  assumes "pos_ok rules pos" and "is_char (ge_type (element_at rules pos))"
  shows "match_char rules pos c = Ret (matches (class_at rules pos) c, pos_after rules pos)"
    and "symbols_at rules pos = class_at rules pos # symbols_at rules (pos_after rules pos)"
    and "is_class (class_at rules pos)" and "pos_ok rules (pos_after rules pos)"
    and "fst (pos_after rules pos) = fst pos"
    and "length (elements_from rules (pos_after rules pos)) < length (elements_from rules pos)"
  by (rule match_char_ok [OF assms], simp add: class_at_def pos_after_def)+

text \<open>The stack below and after the class at the top, and a stack reached over a character.\<close>

definition stack_after :: "llama_grammar_rules \<Rightarrow> llama_grammar_stack \<Rightarrow> llama_grammar_stack" where
  "stack_after rules stack = push_pos rules (pos_after rules (last stack)) (butlast stack)"

definition consumes :: "llama_grammar_rules \<Rightarrow> llama_grammar_stack \<Rightarrow> uint32 \<Rightarrow> llama_grammar_stack \<Rightarrow> bool" where
  "consumes rules stack c stack' =
     (stack \<noteq> [] \<and> matches (class_at rules (last stack)) c \<and> advances rules (stack_after rules stack) stack')"

lemma ready_last: "ready rules stack \<Longrightarrow> stack \<noteq> [] \<Longrightarrow> pos_ok rules (last stack) \<and> is_char (ge_type (element_at rules (last stack)))"
  by (simp add: ready_def stack_ok_def)

lemma stack_after_ok: "ready rules stack \<Longrightarrow> stack \<noteq> [] \<Longrightarrow> stack_ok rules (stack_after rules stack)"
  using ready_last [of rules stack]
  by (auto simp: stack_after_def ready_def intro!: stack_ok_push stack_ok_butlast match_char_at(4))

lemma stack_symbols_ready:
  assumes "ready rules stack" and "stack \<noteq> []"
  shows "stack_symbols rules stack = class_at rules (last stack) # stack_symbols rules (stack_after rules stack)"
proof -
  note at = match_char_at [OF conjunct1 [OF ready_last [OF assms]] conjunct2 [OF ready_last [OF assms]]]
  have "stack_symbols rules stack = symbols_at rules (last stack) @ stack_symbols rules (butlast stack)"
    using assms(2) by (metis append_butlast_last_id stack_symbols_snoc)
  then show ?thesis using at(2,4) by (simp add: stack_after_def stack_symbols_push)
qed

lemma derives_ready:
  assumes "ready rules stack"
  shows "derives rules (stack_symbols rules stack) [] = (stack = [])"
    and "derives rules (stack_symbols rules stack) (c # w) =
      (stack \<noteq> [] \<and> matches (class_at rules (last stack)) c \<and> derives rules (stack_symbols rules (stack_after rules stack)) w)"
proof -
  have class_top: "is_class (class_at rules (last stack))" if "stack \<noteq> []"
    using ready_last [OF assms that] match_char_at(3) by blast
  show "derives rules (stack_symbols rules stack) [] = (stack = [])"
  proof (cases "stack = []")
    case True then show ?thesis by (simp add: stack_symbols_def derives.Nil)
  next
    case False then show ?thesis by (simp add: stack_symbols_ready [OF assms] derives_class class_top)
  qed
  show "derives rules (stack_symbols rules stack) (c # w) =
      (stack \<noteq> [] \<and> matches (class_at rules (last stack)) c \<and> derives rules (stack_symbols rules (stack_after rules stack)) w)"
  proof (cases "stack = []")
    case True then show ?thesis by (auto simp: stack_symbols_def)
  next
    case False then show ?thesis by (simp add: stack_symbols_ready [OF assms] derives_class class_top)
  qed
qed

lemma accept_stack_ready:
  assumes "ready rules stack"
  shows "accept_stack n rules c stack ns =
    (if stack \<noteq> [] \<and> matches (class_at rules (last stack)) c then advance_stack n rules (stack_after rules stack) ns else Ret ns)"
  using ready_last [OF assms] by (auto simp: accept_stack_def match_char_at stack_after_def)

lemma accept_stack_extends:
  assumes "wf_rules rules" and "ready rules stack" and "all_ready rules ns"
  shows "run_ok (accept_stack n rules c stack ns) (extends rules ns (\<lambda>w. derives rules (stack_symbols rules stack) (c # w)))"
  using advance_stack_extends [OF assms(1) stack_after_ok assms(3), of stack n] assms(2,3)
  by (auto simp: accept_stack_ready derives_ready extends_refl)

text \<open>The stacks after a character admit the texts that the stacks before admit after it.\<close>

lemma accept_stacks_ok:
  assumes "wf_rules rules" and "all_ready rules stacks"
  shows "run_ok (accept_stacks n rules c stacks) (\<lambda>ns. all_ready rules ns \<and> (\<forall>w. admits rules ns w = admits rules stacks (c # w)))"
proof -
  have "run_ok (accept_stacks n rules c stacks)
      (extends rules [] (\<lambda>w. \<exists>stack \<in> set stacks. derives rules (stack_symbols rules stack) (c # w)))"
    unfolding accept_stacks_def using assms
    by (intro run_fold_extends accept_stack_extends) (auto simp: all_ready_def)
  then show ?thesis by (rule run_ok_mono) (auto simp: extends_def admits_def)
qed

lemma accept_stacks_set:
  assumes "all_ready rules stacks" and "accept_stacks n rules c stacks = Ret ns"
  shows "set ns = {s'. \<exists>s \<in> set stacks. consumes rules s c s'}"
proof -
  have "set ns = set [] \<union> (\<Union>s \<in> set stacks. {s'. consumes rules s c s'})"
    using assms(2) unfolding accept_stacks_def
    by (rule run_fold_set)
       (use assms(1) in \<open>auto simp: accept_stack_ready all_ready_def consumes_def split: if_splits dest!: advance_stack_set\<close>)
  then show ?thesis by auto
qed

lemma admits_Nil: "all_ready rules stacks \<Longrightarrow> admits rules stacks [] = ([] \<in> set stacks)"
  by (auto simp: admits_def all_ready_def derives_ready(1))

end
