(* ===== verification/Unicode.thy ===== *)
theory Unicode
  imports Prelude
begin

text \<open>
  Code points and UTF-8, \<open>llama.cpp/src/unicode.cpp\<close>. A \<open>std::string\<close> is its list of bytes;
  an exception \<open>std::invalid_argument\<close> is \<open>None\<close>. The generated tables of
  \<open>unicode-data.cpp\<close> are parameters.
\<close>

section \<open>Encoding\<close>

definition unicode_len_utf8 :: "byte \<Rightarrow> nat" where
  "unicode_len_utf8 src = [1, 1, 1, 1, 1, 1, 1, 1, 1, 1, 1, 1, 2, 2, 3, 4] ! unat (drop_bit 4 src)"

definition unicode_cpt_to_utf8 :: "uint32 \<Rightarrow> byte list option" where
  "unicode_cpt_to_utf8 cpt =
     (if cpt \<le> 0x7f then Some [ucast cpt]
      else if 0x80 \<le> cpt \<and> cpt \<le> 0x7ff then
        Some [ucast (0xc0 OR (drop_bit 6 cpt AND 0x1f)), ucast (0x80 OR (cpt AND 0x3f))]
      else if 0x800 \<le> cpt \<and> cpt \<le> 0xffff then
        Some [ucast (0xe0 OR (drop_bit 12 cpt AND 0x0f)), ucast (0x80 OR (drop_bit 6 cpt AND 0x3f)), ucast (0x80 OR (cpt AND 0x3f))]
      else if 0x10000 \<le> cpt \<and> cpt \<le> 0x10ffff then
        Some [ucast (0xf0 OR (drop_bit 18 cpt AND 0x07)), ucast (0x80 OR (drop_bit 12 cpt AND 0x3f)),
              ucast (0x80 OR (drop_bit 6 cpt AND 0x3f)), ucast (0x80 OR (cpt AND 0x3f))]
      else None)"

fun unicode_cpts_to_utf8 :: "uint32 list \<Rightarrow> byte list option" where
  "unicode_cpts_to_utf8 [] = Some []"
| "unicode_cpts_to_utf8 (c # cps) =
     Option.bind (unicode_cpt_to_utf8 c) (\<lambda>bs. map_option ((@) bs) (unicode_cpts_to_utf8 cps))"

section \<open>Decoding\<close>

definition is_continuation :: "byte list \<Rightarrow> nat \<Rightarrow> bool" where
  "is_continuation utf8 i = (i < length utf8 \<and> utf8 ! i AND 0xc0 = 0x80)"

text \<open>The byte at an index, without its marker, as part of a code point.\<close>

definition payload :: "byte list \<Rightarrow> nat \<Rightarrow> byte \<Rightarrow> uint32" where
  "payload utf8 i m = ucast (utf8 ! i AND m)"

text \<open>The code point at an offset, and the offset after it.\<close>

definition unicode_cpt_from_utf8 :: "byte list \<Rightarrow> nat \<Rightarrow> (uint32 \<times> nat) option" where
  "unicode_cpt_from_utf8 utf8 offset =
     (if utf8 ! offset AND 0x80 = 0 then Some (ucast (utf8 ! offset), offset + 1)
      else if utf8 ! offset AND 0x40 = 0 then None
      else if utf8 ! offset AND 0x20 = 0 then
        (if \<not> is_continuation utf8 (offset + 1) then None
         else Some (push_bit 6 (payload utf8 offset 0x1f) OR payload utf8 (offset + 1) 0x3f, offset + 2))
      else if utf8 ! offset AND 0x10 = 0 then
        (if \<not> is_continuation utf8 (offset + 1) \<or> \<not> is_continuation utf8 (offset + 2) then None
         else Some (push_bit 12 (payload utf8 offset 0x0f) OR push_bit 6 (payload utf8 (offset + 1) 0x3f)
                OR payload utf8 (offset + 2) 0x3f, offset + 3))
      else if utf8 ! offset AND 0x08 = 0 then
        (if \<not> is_continuation utf8 (offset + 1) \<or> \<not> is_continuation utf8 (offset + 2) \<or> \<not> is_continuation utf8 (offset + 3) then None
         else Some (push_bit 18 (payload utf8 offset 0x07) OR push_bit 12 (payload utf8 (offset + 1) 0x3f)
                OR push_bit 6 (payload utf8 (offset + 2) 0x3f) OR payload utf8 (offset + 3) 0x3f, offset + 4))
      else None)"

lemma unicode_cpt_from_utf8_offset:
  "unicode_cpt_from_utf8 utf8 offset = Some (c, offset') \<Longrightarrow> offset < offset'"
  by (auto simp: unicode_cpt_from_utf8_def split: if_splits)

text \<open>All code points, with U+FFFD for a byte that begins none.\<close>

function cpts_from :: "byte list \<Rightarrow> nat \<Rightarrow> uint32 list" where
  "cpts_from utf8 offset =
     (if offset < length utf8 then
        (case unicode_cpt_from_utf8 utf8 offset of
           Some (c, offset') \<Rightarrow> c # cpts_from utf8 offset'
         | None \<Rightarrow> 0xFFFD # cpts_from utf8 (offset + 1))
      else [])"
  by pat_completeness auto
termination
  by (relation "measure (\<lambda>(utf8, offset). length utf8 - offset)")
     (auto dest!: unicode_cpt_from_utf8_offset intro: diff_less_mono2)

declare cpts_from.simps [simp del]

definition unicode_cpts_from_utf8 :: "byte list \<Rightarrow> uint32 list" where
  "unicode_cpts_from_utf8 utf8 = cpts_from utf8 0"

section \<open>Bytes as printable code points\<close>

text \<open>
  \<open>unicode_byte_to_utf8_map\<close> and \<open>unicode_utf8_to_byte_map\<close>, each with its own loops: the printable bytes
  first, then the bytes that have no entry yet, with code points from 256 on. The code points are small enough
  to have an encoding.
\<close>

definition utf8_of :: "nat \<Rightarrow> byte list" where
  "utf8_of cpt = the (unicode_cpt_to_utf8 (of_nat cpt))"

definition unicode_byte_to_utf8_map :: "nat \<rightharpoonup> byte list" where
  "unicode_byte_to_utf8_map =
     (let m = fold (\<lambda>ch m. m(ch \<mapsto> utf8_of ch)) [0x21..<0x7E + 1] Map.empty;
          m = fold (\<lambda>ch m. m(ch \<mapsto> utf8_of ch)) [0xA1..<0xAC + 1] m;
          m = fold (\<lambda>ch m. m(ch \<mapsto> utf8_of ch)) [0xAE..<0xFF + 1] m
      in fst (fold (\<lambda>ch (m, n). if m ch = None then (m(ch \<mapsto> utf8_of (256 + n)), n + 1) else (m, n)) [0..<256] (m, 0)))"

definition unicode_utf8_to_byte_map :: "byte list \<rightharpoonup> byte" where
  "unicode_utf8_to_byte_map =
     (let m = fold (\<lambda>ch m. m(utf8_of ch \<mapsto> of_nat ch)) [0x21..<0x7E + 1] Map.empty;
          m = fold (\<lambda>ch m. m(utf8_of ch \<mapsto> of_nat ch)) [0xA1..<0xAC + 1] m;
          m = fold (\<lambda>ch m. m(utf8_of ch \<mapsto> of_nat ch)) [0xAE..<0xFF + 1] m
      in fst (fold (\<lambda>ch (m, n). if m (utf8_of ch) = None then (m(utf8_of (256 + n) \<mapsto> of_nat ch), n + 1) else (m, n)) [0..<256] (m, 0)))"

definition unicode_byte_to_utf8 :: "byte \<Rightarrow> byte list option" where
  "unicode_byte_to_utf8 b = unicode_byte_to_utf8_map (unat b)"

definition unicode_utf8_to_byte :: "byte list \<Rightarrow> byte option" where
  "unicode_utf8_to_byte utf8 = unicode_utf8_to_byte_map utf8"

section \<open>Tables\<close>

text \<open>The normal form of each code point: \<open>std::upper_bound\<close> gives the last range that starts at or before it.\<close>

record range_nfd =
  nfd_first :: uint32
  nfd_last :: uint32
  nfd_nfd :: uint32

definition unicode_cpts_normalize_nfd :: "range_nfd list \<Rightarrow> uint32 list \<Rightarrow> uint32 list" where
  "unicode_cpts_normalize_nfd ranges cpts =
     map (\<lambda>cpt. let it = last (takeWhile (\<lambda>range. \<not> cpt < nfd_first range) ranges) in
            if nfd_first it \<le> cpt \<and> cpt \<le> nfd_last it then nfd_nfd it else cpt) cpts"

definition unicode_tolower :: "(uint32 \<times> uint32) list \<Rightarrow> uint32 \<Rightarrow> uint32" where
  "unicode_tolower lowercase cpt =
     (case dropWhile (\<lambda>pair. fst pair < cpt) lowercase of
        [] \<Rightarrow> cpt
      | pair # _ \<Rightarrow> if fst pair = cpt then snd pair else cpt)"

definition unicode_cpt_is_han :: "uint32 \<Rightarrow> bool" where
  "unicode_cpt_is_han cpt =
     ((cpt \<ge> 0x4E00 \<and> cpt \<le> 0x9FFF) \<or> (cpt \<ge> 0x3400 \<and> cpt \<le> 0x4DBF) \<or> (cpt \<ge> 0x20000 \<and> cpt \<le> 0x2A6DF) \<or>
      (cpt \<ge> 0x2A700 \<and> cpt \<le> 0x2B73F) \<or> (cpt \<ge> 0x2B740 \<and> cpt \<le> 0x2B81F) \<or> (cpt \<ge> 0x2B820 \<and> cpt \<le> 0x2CEAF) \<or>
      (cpt \<ge> 0x2CEB0 \<and> cpt \<le> 0x2EBEF) \<or> (cpt \<ge> 0xF900 \<and> cpt \<le> 0xFAFF) \<or> (cpt \<ge> 0x2F800 \<and> cpt \<le> 0x2FA1F))"

section \<open>Words of the byte-pair encoding\<close>

text \<open>\<open>unicode_byte_encoding_process\<close> on one word and on all: each byte of its UTF-8 as a printable code point.\<close>

fun bytes_to_utf8 :: "byte list \<Rightarrow> byte list option" where
  "bytes_to_utf8 [] = Some []"
| "bytes_to_utf8 (b # bs) = Option.bind (unicode_byte_to_utf8 b) (\<lambda>s. map_option ((@) s) (bytes_to_utf8 bs))"

definition encode_word :: "byte list \<Rightarrow> byte list option" where
  "encode_word word = Option.bind (unicode_cpts_to_utf8 (unicode_cpts_from_utf8 word)) bytes_to_utf8"

definition unicode_byte_encoding_process :: "byte list list \<Rightarrow> byte list list option" where
  "unicode_byte_encoding_process bpe_words = those (map encode_word bpe_words)"

text \<open>\<open>llama_decode_text\<close> of \<open>llama-vocab.cpp\<close>, the way back.\<close>

definition hex_digit :: "nat \<Rightarrow> byte" where
  "hex_digit d = of_nat (if d < 10 then 0x30 + d else 0x61 + (d - 10))"

definition hex2 :: "byte \<Rightarrow> byte list" where
  "hex2 b = [hex_digit (unat b div 16), hex_digit (unat b mod 16)]"

definition unknown_byte :: "byte list \<Rightarrow> byte list \<Rightarrow> byte list" where
  "unknown_byte text utf8 = bytes_of ''[UNK_BYTE_0x'' @ concat (map hex2 utf8) @ text @ bytes_of '']''"

fun decode_cpts :: "byte list \<Rightarrow> uint32 list \<Rightarrow> byte list option" where
  "decode_cpts text [] = Some []"
| "decode_cpts text (c # cpts) =
     Option.bind (unicode_cpt_to_utf8 c) (\<lambda>utf8.
       map_option ((@) (case unicode_utf8_to_byte utf8 of Some b \<Rightarrow> [b] | None \<Rightarrow> unknown_byte text utf8)) (decode_cpts text cpts))"

definition llama_decode_text :: "byte list \<Rightarrow> byte list option" where
  "llama_decode_text text = decode_cpts text (unicode_cpts_from_utf8 text)"

section \<open>Bits\<close>

lemma high_bits_unset: "unat c < 2 ^ k \<Longrightarrow> k \<le> n \<Longrightarrow> \<not> bit (c :: 'a::len word) n"
proof
  assume c: "unat c < 2 ^ k" and n: "k \<le> n" and bit: "bit c n"
  have "unat c < 2 ^ n" using c n by (meson less_le_trans one_le_numeral power_increasing)
  then have "\<not> bit (unat c) n" by (simp add: bit_nat_iff bit_iff_odd)
  with bit show False by (simp add: bit_unsigned_iff)
qed

lemma all_bits_32:
  assumes "list_all (\<lambda>n. bit (v :: uint32) n = bit w n)
    [0, 1, 2, 3, 4, 5, 6, 7, 8, 9, 10, 11, 12, 13, 14, 15, 16, 17, 18, 19, 20, 21, 22, 23, 24, 25, 26, 27, 28, 29, 30, 31]"
  shows "v = w"
proof (rule bit_word_eqI)
  fix n assume "n < LENGTH(32)"
  then have "n \<in> set [0..<32]" by simp
  also have "[0..<32] = [0, 1, 2, 3, 4, 5, 6, 7, 8, 9, 10, 11, 12, 13, 14, 15, 16, 17, 18, 19, 20, 21, 22, 23, 24, 25, 26, 27, 28, 29, 30, 31]"
    by (simp add: upt_rec)
  finally show "bit v n = bit w n" using assms unfolding list_all_iff by blast
qed

lemma decode_2:
  fixes c :: uint32
  assumes "unat c < 2 ^ 11"
  shows "push_bit 6 (ucast ((ucast (0xc0 OR (drop_bit 6 c AND 0x1f)) :: byte) AND 0x1f)) OR ucast ((ucast (0x80 OR (c AND 0x3f)) :: byte) AND 0x3f) = c"
  by (rule all_bits_32) (simp add: bit_simps high_bits_unset [OF assms])

lemma decode_3:
  fixes c :: uint32
  assumes "unat c < 2 ^ 16"
  shows "push_bit 12 (ucast ((ucast (0xe0 OR (drop_bit 12 c AND 0x0f)) :: byte) AND 0x0f)) OR
    push_bit 6 (ucast ((ucast (0x80 OR (drop_bit 6 c AND 0x3f)) :: byte) AND 0x3f)) OR
    ucast ((ucast (0x80 OR (c AND 0x3f)) :: byte) AND 0x3f) = c"
  by (rule all_bits_32) (simp add: bit_simps high_bits_unset [OF assms])

lemma decode_4:
  fixes c :: uint32
  assumes "unat c < 2 ^ 21"
  shows "push_bit 18 (ucast ((ucast (0xf0 OR (drop_bit 18 c AND 0x07)) :: byte) AND 0x07)) OR
    push_bit 12 (ucast ((ucast (0x80 OR (drop_bit 12 c AND 0x3f)) :: byte) AND 0x3f)) OR
    push_bit 6 (ucast ((ucast (0x80 OR (drop_bit 6 c AND 0x3f)) :: byte) AND 0x3f)) OR
    ucast ((ucast (0x80 OR (c AND 0x3f)) :: byte) AND 0x3f) = c"
  by (rule all_bits_32) (simp add: bit_simps high_bits_unset [OF assms])

lemma byte_markers:
  fixes w :: byte
  shows "(w AND 0x80 = 0) = (\<not> bit w 7)" "(w AND 0x40 = 0) = (\<not> bit w 6)" "(w AND 0x20 = 0) = (\<not> bit w 5)"
    "(w AND 0x10 = 0) = (\<not> bit w 4)" "(w AND 0x08 = 0) = (\<not> bit w 3)"
    "(w AND 0xc0 = 0x80) = (bit w 7 \<and> \<not> bit w 6)"
proof -
  show "(w AND 0x80 = 0) = (\<not> bit w 7)" using and_exp_eq_0_iff_not_bit [of w 7] by simp
  show "(w AND 0x40 = 0) = (\<not> bit w 6)" using and_exp_eq_0_iff_not_bit [of w 6] by simp
  show "(w AND 0x20 = 0) = (\<not> bit w 5)" using and_exp_eq_0_iff_not_bit [of w 5] by simp
  show "(w AND 0x10 = 0) = (\<not> bit w 4)" using and_exp_eq_0_iff_not_bit [of w 4] by simp
  show "(w AND 0x08 = 0) = (\<not> bit w 3)" using and_exp_eq_0_iff_not_bit [of w 3] by simp
  show "(w AND 0xc0 = 0x80) = (bit w 7 \<and> \<not> bit w 6)"
  proof
    assume eq: "w AND 0xc0 = 0x80"
    then have "bit (w AND 0xc0) 7 = bit (0x80 :: byte) 7" "bit (w AND 0xc0) 6 = bit (0x80 :: byte) 6" by simp_all
    then show "bit w 7 \<and> \<not> bit w 6" by (simp add: bit_and_iff)
  next
    assume "bit w 7 \<and> \<not> bit w 6"
    moreover have "n = 0 \<or> n = 1 \<or> n = 2 \<or> n = 3 \<or> n = 4 \<or> n = 5 \<or> n = 6 \<or> n = 7" if "n < 8" for n :: nat
      using that by presburger
    ultimately show "w AND 0xc0 = 0x80" by (intro bit_word_eqI) (force simp: bit_and_iff)
  qed
qed

text \<open>A code point that has an encoding is read back from it, at any place.\<close>

lemma unicode_cpt_from_to:
  assumes "unicode_cpt_to_utf8 c = Some bs"
  shows "unicode_cpt_from_utf8 (pre @ bs @ rest) (length pre) = Some (c, length pre + length bs)"
proof -
  have le: "unat c < 2 ^ k" if "c \<le> m" "unat m < 2 ^ k" for m k using that by (simp add: word_le_nat_alt)
  consider "c \<le> 0x7f" "bs = [ucast c]"
    | "c \<le> 0x7ff" "bs = [ucast (0xc0 OR (drop_bit 6 c AND 0x1f)), ucast (0x80 OR (c AND 0x3f))]"
    | "c \<le> 0xffff" "bs = [ucast (0xe0 OR (drop_bit 12 c AND 0x0f)), ucast (0x80 OR (drop_bit 6 c AND 0x3f)), ucast (0x80 OR (c AND 0x3f))]"
    | "c \<le> 0x10ffff" "bs = [ucast (0xf0 OR (drop_bit 18 c AND 0x07)), ucast (0x80 OR (drop_bit 12 c AND 0x3f)),
              ucast (0x80 OR (drop_bit 6 c AND 0x3f)), ucast (0x80 OR (c AND 0x3f))]"
    using assms by (auto simp: unicode_cpt_to_utf8_def split: if_splits)
  then show ?thesis
  proof cases
    case 1
    have "unat c < 2 ^ 7" using 1(1) by (intro le) auto
    note high = high_bits_unset [OF this]
    have "ucast (ucast c :: byte) = c"
      by (rule all_bits_32) (simp add: bit_simps high)
    moreover have "\<not> bit (ucast c :: byte) 7" by (simp add: bit_simps high)
    ultimately show ?thesis unfolding 1 by (simp add: unicode_cpt_from_utf8_def nth_append byte_markers)
  next
    case 2
    have "unat c < 2 ^ 11" using 2(1) by (intro le) auto
    from decode_2 [OF this] show ?thesis unfolding 2
      by (simp add: unicode_cpt_from_utf8_def nth_append byte_markers is_continuation_def payload_def bit_simps)
  next
    case 3
    have "unat c < 2 ^ 16" using 3(1) by (intro le) auto
    from decode_3 [OF this] show ?thesis unfolding 3
      by (simp add: unicode_cpt_from_utf8_def nth_append byte_markers is_continuation_def payload_def bit_simps)
  next
    case 4
    have "unat c < 2 ^ 21" using 4(1) by (intro le) auto
    from decode_4 [OF this] show ?thesis unfolding 4
      by (simp add: unicode_cpt_from_utf8_def nth_append
          byte_markers is_continuation_def payload_def bit_simps)
  qed
qed

lemma unicode_cpt_to_utf8_nonempty: "unicode_cpt_to_utf8 c = Some bs \<Longrightarrow> bs \<noteq> []"
  by (auto simp: unicode_cpt_to_utf8_def split: if_splits)

lemma cpts_from_to:
  "unicode_cpts_to_utf8 cps = Some bs \<Longrightarrow> cpts_from (pre @ bs) (length pre) = cps"
proof (induction cps arbitrary: pre bs)
  case Nil
  then show ?case by (simp add: cpts_from.simps)
next
  case (Cons c cps)
  then obtain b1 b2 where b: "unicode_cpt_to_utf8 c = Some b1" "unicode_cpts_to_utf8 cps = Some b2" "bs = b1 @ b2"
    by (auto simp: bind_eq_Some_conv)
  have "cpts_from (pre @ b1 @ b2) (length pre) = c # cpts_from (pre @ b1 @ b2) (length pre + length b1)"
    using unicode_cpt_from_to [OF b(1), of pre b2] unicode_cpt_to_utf8_nonempty [OF b(1)] by (subst cpts_from.simps) simp
  also have "cpts_from (pre @ b1 @ b2) (length pre + length b1) = cps"
    using Cons.IH [OF b(2), of "pre @ b1"] by simp
  finally show ?case using b(3) by simp
qed

lemma cpts_roundtrip: "unicode_cpts_to_utf8 cps = Some bs \<Longrightarrow> unicode_cpts_from_utf8 bs = cps"
  using cpts_from_to [of cps bs "[]"] by (simp add: unicode_cpts_from_utf8_def)

lemma unicode_cpt_to_utf8_inj: "unicode_cpt_to_utf8 c = Some bs \<Longrightarrow> unicode_cpt_to_utf8 d = Some bs \<Longrightarrow> c = d"
  using unicode_cpt_from_to [of c bs "[]" "[]"] unicode_cpt_from_to [of d bs "[]" "[]"] by simp

section \<open>The maps of bytes\<close>

text \<open>
  The code point that stands for each byte: those from \<open>!\<close> to \<open>~\<close>, from 0xA1 to 0xAC and from 0xAE on for
  themselves, the others in their order from 256 on.
\<close>

definition is_printable :: "nat \<Rightarrow> bool" where
  "is_printable ch = (ch \<in> {0x21..0x7E} \<union> {0xA1..0xAC} \<union> {0xAE..0xFF})"

definition byte_cpt :: "nat \<Rightarrow> nat" where
  "byte_cpt ch = (if is_printable ch then ch else 256 + length (filter (\<lambda>ch. \<not> is_printable ch) [0..<ch]))"

lemma byte_cpt_bounds: "ch < 256 \<Longrightarrow> byte_cpt ch < 512"
  using length_filter_le [of "\<lambda>ch. \<not> is_printable ch" "[0..<ch]"] by (simp add: byte_cpt_def)

lemma byte_cpt_less:
  assumes "c < d" and "\<not> is_printable c" and "\<not> is_printable d"
  shows "byte_cpt c < byte_cpt d"
proof -
  have "[0..<d] = [0..<c] @ [c..<d]" using assms(1) upt_add_eq_append [of 0 c "d - c"] by simp
  then have "[0..<d] = [0..<c] @ c # [Suc c..<d]" using assms(1) by (simp add: upt_conv_Cons)
  then show ?thesis using assms(2,3) by (simp add: byte_cpt_def)
qed

lemma is_printable_less: "is_printable c \<Longrightarrow> c < 256"
  by (auto simp: is_printable_def)

lemma byte_cpt_inj: "byte_cpt c = byte_cpt d \<Longrightarrow> c = d"
  using byte_cpt_less [of c d] byte_cpt_less [of d c] is_printable_less [of c] is_printable_less [of d]
  by (cases "is_printable c"; cases "is_printable d"; cases c d rule: linorder_cases) (auto simp: byte_cpt_def)

lemma byte_cpt_Suc:
  "byte_cpt ch = (if is_printable ch then ch else 256 + length (filter (\<lambda>ch. \<not> is_printable ch) [0..<ch]))"
  "length (filter (\<lambda>ch. \<not> is_printable ch) [0..<Suc ch]) = length (filter (\<lambda>ch. \<not> is_printable ch) [0..<ch]) + (if is_printable ch then 0 else 1)"
  by (simp_all add: byte_cpt_def)

lemma unat_byte_less: "unat (b :: byte) < 256"
proof -
  have "unat b < 2 ^ LENGTH(8)" by (rule unsigned_less)
  then show ?thesis by simp
qed

lemma unicode_cpt_to_utf8_Some: "c \<le> 0x10ffff \<Longrightarrow> \<exists>s. unicode_cpt_to_utf8 c = Some s"
  by (auto simp: unicode_cpt_to_utf8_def word_le_nat_alt)

lemma utf8_of: "c < 512 \<Longrightarrow> unicode_cpt_to_utf8 (of_nat c) = Some (utf8_of c)"
proof -
  assume "c < 512"
  then have "unat (of_nat c :: uint32) = c" by (simp add: unat_of_nat take_bit_nat_eq_self)
  then have "(of_nat c :: uint32) \<le> 0x10ffff" using \<open>c < 512\<close> by (simp add: word_le_nat_alt)
  then show ?thesis using unicode_cpt_to_utf8_Some by (fastforce simp: utf8_of_def)
qed

lemma utf8_of_inj: "c < 512 \<Longrightarrow> d < 512 \<Longrightarrow> utf8_of c = utf8_of d \<Longrightarrow> c = d"
proof -
  assume *: "c < 512" "d < 512" "utf8_of c = utf8_of d"
  then have "(of_nat c :: uint32) = of_nat d" using utf8_of unicode_cpt_to_utf8_inj by metis
  then show "c = d" using *(1,2) by (simp add: word_of_nat_eq_iff take_bit_nat_eq_self)
qed

lemma fold_entries: "fold (\<lambda>x m. m(x \<mapsto> g x)) xs m = (\<lambda>y. if y \<in> set xs then Some (g y) else m y)"
  by (induction xs arbitrary: m) (auto simp: fun_eq_iff)

lemma fold_entries_by:
  "inj_on f (set xs) \<Longrightarrow> fold (\<lambda>x m. m(f x \<mapsto> g x)) xs m s = Some b \<longleftrightarrow>
     (\<exists>x \<in> set xs. f x = s \<and> b = g x) \<or> (m s = Some b \<and> s \<notin> f ` set xs)"
proof (induction xs arbitrary: m)
  case (Cons x xs)
  then have inj: "inj_on f (set xs)" by simp
  show ?case
  proof (cases "f x \<in> f ` set xs")
    case True
    then have "x \<in> set xs" using Cons.prems by (auto dest: inj_onD)
    then show ?thesis using Cons.IH [OF inj, of "m(f x \<mapsto> g x)"] by auto
  next
    case False
    then show ?thesis using Cons.IH [OF inj, of "m(f x \<mapsto> g x)"] by auto
  qed
qed simp

lemma printable_set: "set ([0x21..<0x7E + 1] @ [0xA1..<0xAC + 1] @ [0xAE..<0xFF + 1]) = {ch. is_printable ch}"
  by (rule set_eqI) (simp only: set_append set_upt Un_iff mem_Collect_eq is_printable_def atLeastLessThan_iff atLeastAtMost_iff, arith)

text \<open>What the loop over all bytes has entered up to a byte.\<close>

abbreviation entered :: "nat \<Rightarrow> nat \<Rightarrow> bool" where
  "entered j ch \<equiv> is_printable ch \<or> ch < j"

abbreviation others :: "nat \<Rightarrow> nat" where
  "others j \<equiv> length (filter (\<lambda>ch. \<not> is_printable ch) [0..<j])"

lemma byte_to_utf8_entries:
  "fold (\<lambda>ch (m, n). if m ch = None then (m(ch \<mapsto> utf8_of (256 + n)), n + 1) else (m, n)) [0..<j]
      (\<lambda>ch. if is_printable ch then Some (utf8_of ch) else None, 0) =
   (\<lambda>ch. if entered j ch then Some (utf8_of (byte_cpt ch)) else None, others j)"
proof (induction j)
  case 0
  then show ?case by (auto simp: byte_cpt_def)
next
  case (Suc j)
  have "(\<lambda>ch. if entered (Suc j) ch then Some (utf8_of (byte_cpt ch)) else None) =
      (if is_printable j then (\<lambda>ch. if entered j ch then Some (utf8_of (byte_cpt ch)) else None)
       else (\<lambda>ch. if entered j ch then Some (utf8_of (byte_cpt ch)) else None)(j \<mapsto> utf8_of (256 + others j)))"
    by (auto simp: fun_eq_iff less_Suc_eq byte_cpt_def)
  then show ?case by (simp add: Suc)
qed

lemma byte_to_utf8_map: "unicode_byte_to_utf8_map ch = (if ch < 256 then Some (utf8_of (byte_cpt ch)) else None)"
proof -
  have "fold (\<lambda>ch m. m(ch \<mapsto> utf8_of ch)) [0xAE..<0xFF + 1] (fold (\<lambda>ch m. m(ch \<mapsto> utf8_of ch)) [0xA1..<0xAC + 1]
      (fold (\<lambda>ch m. m(ch \<mapsto> utf8_of ch)) [0x21..<0x7E + 1] Map.empty)) =
    fold (\<lambda>ch m. m(ch \<mapsto> utf8_of ch)) ([0x21..<0x7E + 1] @ [0xA1..<0xAC + 1] @ [0xAE..<0xFF + 1]) Map.empty"
    by (simp only: fold_append comp_def)
  also have "\<dots> = (\<lambda>ch. if is_printable ch then Some (utf8_of ch) else None)"
    unfolding fold_entries printable_set by simp
  finally show ?thesis
    unfolding unicode_byte_to_utf8_map_def Let_def by (simp only: byte_to_utf8_entries) (use is_printable_less in auto)
qed

lemma byte_cpt_self: "ch < 256 \<Longrightarrow> utf8_of (byte_cpt ch) = utf8_of j \<Longrightarrow> j < 256 \<Longrightarrow> is_printable j \<and> ch = j"
  using utf8_of_inj [of "byte_cpt ch" j] byte_cpt_bounds [of ch] by (auto simp: byte_cpt_def split: if_splits)

lemma utf8_to_byte_entries:
  assumes "\<And>s b. m0 s = Some b \<longleftrightarrow> (\<exists>ch. is_printable ch \<and> utf8_of (byte_cpt ch) = s \<and> b = of_nat ch)" and "j \<le> 256"
  shows "\<exists>m. fold (\<lambda>ch (m, n). if m (utf8_of ch) = None then (m(utf8_of (256 + n) \<mapsto> of_nat ch), n + 1) else (m, n)) [0..<j] (m0, 0) =
      (m, others j) \<and> (\<forall>s b. m s = Some b \<longleftrightarrow> (\<exists>ch < 256. entered j ch \<and> utf8_of (byte_cpt ch) = s \<and> b = (of_nat ch :: byte)))"
  using assms(2)
proof (induction j)
  case 0
  then show ?case using assms(1) is_printable_less by auto
next
  case (Suc j)
  then obtain m where m: "fold (\<lambda>ch (m, n). if m (utf8_of ch) = None then (m(utf8_of (256 + n) \<mapsto> of_nat ch), n + 1) else (m, n)) [0..<j] (m0, 0) =
      (m, others j)" "\<And>s b. m s = Some b \<longleftrightarrow> (\<exists>ch < 256. entered j ch \<and> utf8_of (byte_cpt ch) = s \<and> b = of_nat ch)" by auto
  have j: "j < 256" using Suc.prems by simp
  show ?case
  proof (cases "is_printable j")
    case True
    then have "utf8_of (byte_cpt j) = utf8_of j" by (simp add: byte_cpt_def)
    then have "m (utf8_of j) = Some (of_nat j)" using j True m(2) by blast
    moreover have "entered (Suc j) ch = entered j ch" for ch using True by (auto simp: less_Suc_eq)
    ultimately have "m (utf8_of j) \<noteq> None" "(\<exists>ch < 256. entered (Suc j) ch \<and> utf8_of (byte_cpt ch) = s \<and> b = (of_nat ch :: byte)) \<longleftrightarrow> m s = Some b" for s b
      using m(2) by auto
    then show ?thesis using True by (intro exI [of _ m]) (simp only: upt_Suc_append le0 fold_append comp_def m(1), simp)
  next
    case False
    then have "m (utf8_of j) \<noteq> Some b" for b unfolding m(2) using byte_cpt_self j by blast
    then have new: "m (utf8_of j) = None" by (cases "m (utf8_of j)") auto
    have cpt: "byte_cpt j = 256 + others j" using False by (simp add: byte_cpt_def)
    have same: "ch = j" if "utf8_of (byte_cpt ch) = utf8_of (byte_cpt j)" "ch < 256" for ch
      using that j utf8_of_inj byte_cpt_bounds byte_cpt_inj by metis
    define m' where "m' = m(utf8_of (byte_cpt j) \<mapsto> of_nat j)"
    have at: "m' s = Some b \<longleftrightarrow> (\<exists>ch < 256. entered (Suc j) ch \<and> utf8_of (byte_cpt ch) = s \<and> b = (of_nat ch :: byte))" for s b
    proof (cases "s = utf8_of (byte_cpt j)")
      case True
      then show ?thesis using same j by (auto simp: m'_def)
    next
      case other: False
      then have "(\<exists>ch < 256. entered (Suc j) ch \<and> utf8_of (byte_cpt ch) = s \<and> b = (of_nat ch :: byte)) \<longleftrightarrow>
          (\<exists>ch < 256. entered j ch \<and> utf8_of (byte_cpt ch) = s \<and> b = (of_nat ch :: byte))"
        by (auto simp: less_Suc_eq)
      then show ?thesis using other m(2) [of s b] by (simp add: m'_def)
    qed
    have "fold (\<lambda>ch (m, n). if m (utf8_of ch) = None then (m(utf8_of (256 + n) \<mapsto> of_nat ch), n + 1) else (m, n)) [0..<Suc j] (m0, 0) =
        (m', others (Suc j))"
      using new False cpt by (simp add: m(1) m'_def)
    then show ?thesis using at by blast
  qed
qed

lemma utf8_to_byte_map: "unicode_utf8_to_byte_map s = Some b \<longleftrightarrow> utf8_of (byte_cpt (unat b)) = s"
proof -
  define m0 :: "byte list \<rightharpoonup> byte" where "m0 = fold (\<lambda>ch m. m(utf8_of ch \<mapsto> of_nat ch)) [0xAE..<0xFF + 1] (fold (\<lambda>ch m. m(utf8_of ch \<mapsto> of_nat ch)) [0xA1..<0xAC + 1]
      (fold (\<lambda>ch m. m(utf8_of ch \<mapsto> of_nat ch)) [0x21..<0x7E + 1] Map.empty))"
  have "inj_on utf8_of {ch. is_printable ch}"
    by (rule inj_onI, rule utf8_of_inj) (auto dest: is_printable_less)
  note inj = this
  have eq: "m0 = fold (\<lambda>ch m. m(utf8_of ch \<mapsto> of_nat ch)) ([0x21..<0x7E + 1] @ [0xA1..<0xAC + 1] @ [0xAE..<0xFF + 1]) Map.empty"
    by (simp only: fold_append comp_def m0_def)
  have "m0 s = Some b \<longleftrightarrow> (\<exists>ch \<in> {ch. is_printable ch}. utf8_of ch = s \<and> b = of_nat ch)" for s b
    unfolding eq by (rule trans [OF fold_entries_by [of utf8_of "[0x21..<0x7E + 1] @ [0xA1..<0xAC + 1] @ [0xAE..<0xFF + 1]" of_nat Map.empty s b,
      unfolded printable_set, OF inj]]) simp
  then have "m0 s = Some b \<longleftrightarrow> (\<exists>ch. is_printable ch \<and> utf8_of (byte_cpt ch) = s \<and> b = of_nat ch)" for s b
    by (auto simp: byte_cpt_def)
  note entries = utf8_to_byte_entries [OF this le_refl]
  have "unicode_utf8_to_byte_map =
      fst (fold (\<lambda>ch (m, n). if m (utf8_of ch) = None then (m(utf8_of (256 + n) \<mapsto> of_nat ch), n + 1) else (m, n)) [0..<256] (m0, 0))"
    by (simp only: unicode_utf8_to_byte_map_def Let_def m0_def)
  with entries obtain m where m: "unicode_utf8_to_byte_map = m"
    "\<And>s b. m s = Some b \<longleftrightarrow> (\<exists>ch < 256. entered 256 ch \<and> utf8_of (byte_cpt ch) = s \<and> b = of_nat ch)"
    by fastforce
  show ?thesis
  proof
    assume "unicode_utf8_to_byte_map s = Some b"
    then obtain ch where "ch < 256" "utf8_of (byte_cpt ch) = s" "b = of_nat ch" unfolding m by blast
    then show "utf8_of (byte_cpt (unat b)) = s" by (simp add: unat_of_nat take_bit_nat_eq_self)
  next
    assume "utf8_of (byte_cpt (unat b)) = s"
    then show "unicode_utf8_to_byte_map s = Some b" unfolding m using unat_byte_less [of b] by (intro exI [of _ "unat b"]) simp
  qed
qed

lemma unicode_byte_to_utf8: "unicode_byte_to_utf8 b = Some (utf8_of (byte_cpt (unat b)))"
  by (simp add: unicode_byte_to_utf8_def byte_to_utf8_map unat_byte_less)

lemma unicode_utf8_to_byte: "unicode_utf8_to_byte (utf8_of (byte_cpt (unat b))) = Some b"
  by (simp add: unicode_utf8_to_byte_def utf8_to_byte_map)

section \<open>Words there and back\<close>

abbreviation byte_code :: "byte \<Rightarrow> uint32" where
  "byte_code b \<equiv> of_nat (byte_cpt (unat b))"

lemma byte_code: "unicode_cpt_to_utf8 (byte_code b) = Some (utf8_of (byte_cpt (unat b)))"
  by (rule utf8_of) (rule byte_cpt_bounds [OF unat_byte_less])

lemma bytes_to_utf8_cpts: "bytes_to_utf8 bs = unicode_cpts_to_utf8 (map byte_code bs)"
  by (induction bs) (simp_all add: unicode_byte_to_utf8 byte_code)

lemma bytes_to_utf8_Some: "\<exists>s. bytes_to_utf8 bs = Some s"
  by (induction bs) (auto simp: unicode_byte_to_utf8)

lemma decode_cpts_bytes: "decode_cpts text (map byte_code bs) = Some bs"
  by (induction bs) (simp_all add: byte_code unicode_utf8_to_byte)

lemma decode_bytes_to_utf8: "bytes_to_utf8 bs = Some s \<Longrightarrow> unicode_cpts_from_utf8 s = map byte_code bs \<and> llama_decode_text s = Some bs"
  by (simp add: llama_decode_text_def bytes_to_utf8_cpts cpts_roundtrip decode_cpts_bytes)

text \<open>
  C29. A word of the byte-pair encoding can be read back. For every word of valid UTF-8,
  \<open>unicode_byte_encoding_process\<close> gives one code point for each byte of the word, the byte itself if it is
  printable, which \<open>is_printable\<close> says, and the code point 256 plus the number of bytes before it that are not
  printable otherwise; and \<open>llama_decode_text\<close>, with its own table, turns these back into exactly the bytes of
  the word.
\<close>

theorem encoded_word_decoded:
  assumes "unicode_cpts_to_utf8 cps = Some word"
  shows "\<exists>s. unicode_byte_encoding_process [word] = Some [s] \<and>
    unicode_cpts_from_utf8 s = map (\<lambda>b. of_nat (if is_printable (unat b) then unat b
      else 256 + length (filter (\<lambda>ch. \<not> is_printable ch) [0..<unat b]))) word \<and>
    llama_decode_text s = Some word"
proof -
  obtain s where s: "bytes_to_utf8 word = Some s" using bytes_to_utf8_Some by blast
  then have "encode_word word = Some s" by (simp add: encode_word_def cpts_roundtrip [OF assms] assms)
  then show ?thesis using decode_bytes_to_utf8 [OF s] by (simp add: unicode_byte_encoding_process_def byte_cpt_def)
qed

theorem encoded_word_decoded_witness:
  "\<exists>s. unicode_byte_encoding_process [[0xC3, 0xA9, 0x20]] = Some [s] \<and> unicode_cpts_from_utf8 s = [0xC3, 0xA9, 0x120] \<and>
    llama_decode_text s = Some [0xC3, 0xA9, 0x20]"
proof -
  have cps: "unicode_cpts_to_utf8 [0xE9, 0x20] = Some [0xC3, 0xA9, 0x20]" by code_simp
  have "map (\<lambda>b :: byte. of_nat (if is_printable (unat b) then unat b
      else 256 + length (filter (\<lambda>ch. \<not> is_printable ch) [0..<unat b]))) [0xC3, 0xA9, 0x20] = [0xC3, 0xA9, 0x120 :: uint32]"
    by (simp add: is_printable_def filter_id_conv upt_rec)
  with encoded_word_decoded [OF cps] show ?thesis by metis
qed


text \<open>
  Bytes that decode to a value beyond U+10FFFF are not replaced as invalid, and encoding the value again throws:
  tokenizing the bytes F4 90 80 80 lets the exception out, which \<open>unicode_cpts_from_utf8\<close> means to avoid.
\<close>

lemma beyond_unicode_throws:
  "unicode_cpts_from_utf8 [0xF4, 0x90, 0x80, 0x80] = [0x110000] \<and> unicode_byte_encoding_process [[0xF4, 0x90, 0x80, 0x80]] = None"
  by code_simp

end
