(* ===== verification/Grammar_Text.thy ===== *)
theory Grammar_Text
  imports Llama_Grammar Unicode
begin

text \<open>
  The decoding of text that arrives in pieces. Text of the encoder of \<open>unicode.cpp\<close>, cut into
  pieces anywhere, also inside a character, is decoded to its code points; this is proved over a machine
  that reads one byte at a time.
\<close>

section \<open>One byte at a time\<close>

type_synonym utf8_state = "uint32 list \<times> uint32 \<times> int"

definition add_bits :: "uint32 \<Rightarrow> byte \<Rightarrow> uint32" where
  "add_bits v b = push_bit 6 v + ucast (and b 0x3F)"

definition first_bits :: "byte \<Rightarrow> uint32" where
  "first_bits b = ucast (and b (push_bit (nat (7 - (utf8_length b - 1))) 1 - 1))"

definition emit :: "uint32 list \<Rightarrow> uint32 \<Rightarrow> int \<Rightarrow> utf8_state" where
  "emit cs v n = (if n = 0 then cs @ [v] else cs, v, n)"

fun utf8_step :: "utf8_state \<Rightarrow> byte \<Rightarrow> utf8_state option" where
  "utf8_step (cs, v, n) b =
     (if n > 0 then (if drop_bit 6 b = 2 then Some (emit cs (add_bits v b) (n - 1)) else None)
      else if utf8_length b > 0 then Some (emit cs (first_bits b) (utf8_length b - 1)) else None)"

fun utf8_run :: "byte list \<Rightarrow> utf8_state \<Rightarrow> utf8_state option" where
  "utf8_run [] st = Some st"
| "utf8_run (b # bs) st = Option.bind (utf8_step st b) (utf8_run bs)"

lemma utf8_run_append: "utf8_run (as @ bs) st = Option.bind (utf8_run as st) (utf8_run bs)"
proof (induction as arbitrary: st)
  case (Cons b as)
  then show ?case by (cases "utf8_step st b") simp_all
qed simp

lemma emit_prefix: "emit cs v n = (cs', v', n') \<Longrightarrow> emit (ds @ cs) v n = (ds @ cs', v', n')"
  by (auto simp: emit_def split: if_splits)

lemma utf8_run_prefix:
  "utf8_run bs (cs, v, n) = Some (cs', v', n') \<Longrightarrow> utf8_run bs (ds @ cs, v, n) = Some (ds @ cs', v', n')"
proof (induction bs arbitrary: cs v n)
  case (Cons b bs)
  then obtain cs1 v1 n1 where st: "utf8_step (cs, v, n) b = Some (cs1, v1, n1)" "utf8_run bs (cs1, v1, n1) = Some (cs', v', n')"
    by (cases "utf8_step (cs, v, n) b") auto
  have "utf8_step (ds @ cs, v, n) b = Some (ds @ cs1, v1, n1)"
    using st(1) by (auto split: if_splits intro: emit_prefix)
  then show ?case using Cons.IH [OF st(2)] by simp
qed simp

lemma utf8_run_empty: "utf8_run bs (cs, v, n) = Some st \<Longrightarrow> \<exists>cs' v' n'. utf8_run bs ([], v, n) = Some (cs', v', n')"
proof (induction bs arbitrary: cs v n)
  case (Cons b bs)
  obtain cs1 v1 n1 where st: "utf8_step (cs, v, n) b = Some (cs1, v1, n1)" "utf8_run bs (cs1, v1, n1) = Some st"
    using Cons.prems by (cases "utf8_step (cs, v, n) b") auto
  have "\<exists>cs2. utf8_step ([], v, n) b = Some (cs2, v1, n1)"
    using st(1) by (auto simp: emit_def split: if_splits)
  then obtain cs2 where "utf8_step ([], v, n) b = Some (cs2, v1, n1)" by blast
  moreover obtain cs3 v3 n3 where "utf8_run bs ([], v1, n1) = Some (cs3, v3, n3)" using Cons.IH [OF st(2)] by blast
  ultimately show ?case using utf8_run_prefix [of bs "[]" v1 n1 cs3 v3 n3 cs2] by simp
qed auto

text \<open>The two inner loops of the code read the bytes that follow a first byte.\<close>

lemma utf8_run_tail:
  "0 \<le> n \<Longrightarrow> utf8_run bs (cs, v, n) = Some st \<Longrightarrow> decode_tail bs v n = (bs', v', n') \<Longrightarrow>
   decode_previous bs v n = Some (bs', v', n') \<and> 0 \<le> n' \<and> (bs' \<noteq> [] \<longrightarrow> n' = 0) \<and>
   utf8_run bs' (if 0 < n \<and> n' = 0 then cs @ [v'] else cs, v', n') = Some st"
proof (induction bs v n arbitrary: cs rule: decode_tail.induct)
  case (2 b bs v n)
  show ?case
  proof (cases "n \<le> 0")
    case False
    then have b: "drop_bit 6 b = 2" and run: "utf8_run bs (if n = 1 then cs @ [add_bits v b] else cs, add_bits v b, n - 1) = Some st"
      using "2.prems"(2) by (auto simp: emit_def split: if_splits)
    have tail: "decode_tail bs (add_bits v b) (n - 1) = (bs', v', n')"
      using "2.prems"(3) False by (simp add: add_bits_def)
    note IH = "2.IH" [OF False, folded add_bits_def, OF _ run tail]
    show ?thesis using IH False b "2.prems"
    proof (cases "n = 1")
      case True
      then have "bs' = bs" "v' = add_bits v b" "n' = 0" using tail by (cases bs; simp)+
      then show ?thesis using IH True b by (simp add: add_bits_def)
    qed (auto simp: add_bits_def split: if_splits)
  qed (use "2.prems" in auto)
qed auto

lemma decode_loop_run:
  "utf8_run bs (cs, v, n) = Some (cs', v', n') \<Longrightarrow> (bs \<noteq> [] \<longrightarrow> n = 0) \<Longrightarrow>
   decode_loop bs cs v n = (cs' @ [0], \<lparr>pu_value = v', pu_n_remain = n'\<rparr>)"
proof (induction bs cs v n rule: decode_loop.induct)
  case (2 b bs cs v n)
  have len: "0 < utf8_length b" and run: "utf8_run bs (emit cs (first_bits b) (utf8_length b - 1)) = Some (cs', v', n')"
    using "2.prems" by (auto split: if_splits)
  obtain bs1 v1 n1 where tail: "decode_tail bs (first_bits b) (utf8_length b - 1) = (bs1, v1, n1)" by (metis prod_cases3)
  let ?n = "utf8_length b - 1"
  have "utf8_run bs1 (if n1 = 0 then cs @ [v1] else cs, v1, n1) = Some (cs', v', n') \<and> (bs1 \<noteq> [] \<longrightarrow> n1 = 0)"
  proof (cases "?n = 0")
    case True
    then have "bs1 = bs" "v1 = first_bits b" "n1 = 0" using tail by (cases bs; simp)+
    then show ?thesis using run True by (simp add: emit_def)
  next
    case False
    then have "utf8_run bs (cs, first_bits b, ?n) = Some (cs', v', n')" using run by (simp add: emit_def)
    from utf8_run_tail [OF _ this tail] show ?thesis using len False by simp
  qed
  then have "decode_loop bs1 (if n1 = 0 then cs @ [v1] else cs) v1 n1 = (cs' @ [0], \<lparr>pu_value = v', pu_n_remain = n'\<rparr>)"
    using "2.IH" [of "utf8_length b - 1" "push_bit (nat (7 - (utf8_length b - 1))) 1 - 1" "(bs1, v1, n1)" bs1 "(v1, n1)" v1 n1]
      len tail by (simp add: first_bits_def)
  then show ?case using len tail by (simp add: Let_def first_bits_def)
qed simp

text \<open>A piece without errors, from any state of the decoder.\<close>

lemma decode_utf8_run:
  assumes "nul_free src" and "0 \<le> n" and "utf8_run (bytes_of src) ([], v, n) = Some (cs, v', n')"
  shows "decode_utf8 src \<lparr>pu_value = v, pu_n_remain = n\<rparr> = (cs @ [0], \<lparr>pu_value = v', pu_n_remain = n'\<rparr>)"
proof -
  obtain bs1 v1 n1 where tail: "decode_tail (bytes_of src) v n = (bs1, v1, n1)" by (metis prod_cases3)
  from utf8_run_tail [OF assms(2,3) tail] have
    prev: "decode_previous (bytes_of src) v n = Some (bs1, v1, n1)" "bs1 \<noteq> [] \<longrightarrow> n1 = 0"
    "utf8_run bs1 (if 0 < n \<and> n1 = 0 then [v1] else [], v1, n1) = Some (cs, v', n')" by auto
  then show ?thesis using decode_loop_run [OF prev(3,2)] assms(1) by (simp add: decode_utf8_def)
qed

lemma utf8_run_remain: "0 \<le> n \<Longrightarrow> utf8_run bs (cs, v, n) = Some (cs', v', n') \<Longrightarrow> 0 \<le> n'"
proof (induction bs arbitrary: cs v n)
  case (Cons b bs)
  then obtain cs1 v1 n1 where st: "utf8_step (cs, v, n) b = Some (cs1, v1, n1)" "utf8_run bs (cs1, v1, n1) = Some (cs', v', n')"
    by (cases "utf8_step (cs, v, n) b") auto
  moreover have "0 \<le> n1" using st(1) Cons.prems(1) by (auto simp: emit_def split: if_splits)
  ultimately show ?case using Cons.IH by blast
qed auto

section \<open>Pieces\<close>

text \<open>The code points of successive pieces, each decoded from where the one before ended.\<close>

fun decode_pieces :: "string list \<Rightarrow> llama_partial_utf8 \<Rightarrow> uint32 list \<times> llama_partial_utf8" where
  "decode_pieces [] partial = ([], partial)"
| "decode_pieces (p # ps) partial =
     (let (code_points, partial1) = decode_utf8 p partial; (cs, partial2) = decode_pieces ps partial1
      in (butlast code_points @ cs, partial2))"

lemma decode_pieces_run:
  "list_all nul_free ps \<Longrightarrow> 0 \<le> n \<Longrightarrow> utf8_run (bytes_of (concat ps)) ([], v, n) = Some (cs, v', n') \<Longrightarrow>
   decode_pieces ps \<lparr>pu_value = v, pu_n_remain = n\<rparr> = (cs, \<lparr>pu_value = v', pu_n_remain = n'\<rparr>)"
proof (induction ps arbitrary: v n cs)
  case Nil
  then show ?case by (simp add: bytes_of_def)
next
  case (Cons p ps)
  then obtain cs1 v1 n1 where run: "utf8_run (bytes_of p) ([], v, n) = Some (cs1, v1, n1)"
      "utf8_run (bytes_of (concat ps)) (cs1, v1, n1) = Some (cs, v', n')"
    by (auto simp: utf8_run_append bind_eq_Some_conv)
  obtain cs2 v2 n2 where run2: "utf8_run (bytes_of (concat ps)) ([], v1, n1) = Some (cs2, v2, n2)"
    using run(2) utf8_run_empty by blast
  with run(2) utf8_run_prefix [OF run2, of cs1] have eqs: "cs = cs1 @ cs2" "v2 = v'" "n2 = n'" by auto
  have "0 \<le> n1" using utf8_run_remain [OF Cons.prems(2) run(1)] .
  then show ?case
    using Cons.IH [OF _ _ run2 [unfolded eqs(2,3)]] eqs(1) decode_utf8_run [OF _ Cons.prems(2) run(1)] Cons.prems(1) by simp
qed

section \<open>Text of the encoder\<close>

lemma all_bits_8: "list_all (\<lambda>n. bit (v :: byte) n = bit w n) [0, 1, 2, 3, 4, 5, 6, 7] \<Longrightarrow> v = w"
proof (rule bit_word_eqI)
  fix n assume all: "list_all (\<lambda>n. bit v n = bit w n) [0, 1, 2, 3, 4, 5, 6, 7]" and "n < LENGTH(8)"
  then have "n = 0 \<or> n = 1 \<or> n = 2 \<or> n = 3 \<or> n = 4 \<or> n = 5 \<or> n = 6 \<or> n = 7" by (simp add: less_Suc_eq numeral_eq_Suc)
  with all show "bit v n = bit w n" by (elim disjE) simp_all
qed

lemma add_bits_or: "add_bits v b = push_bit 6 v OR ucast (b AND 0x3F)"
proof -
  have "push_bit 6 v AND ucast (b AND 0x3F) = 0"
    by (rule all_bits_32) (simp add: bit_simps)
  then show ?thesis unfolding add_bits_def by (simp add: disjunctive_add_eq_or)
qed

lemma continuation_byte: "drop_bit 6 (ucast (0x80 OR (x AND 0x3f :: uint32)) :: byte) = 2"
  by (rule all_bits_8) (simp add: bit_simps)

lemma first_byte_high:
  fixes x :: uint32
  shows "drop_bit 4 (ucast (0xc0 OR (x AND 0x1f)) :: byte) = (if bit x 4 then 13 else 12)"
    and "drop_bit 4 (ucast (0xe0 OR (x AND 0x0f)) :: byte) = 14"
    and "drop_bit 4 (ucast (0xf0 OR (x AND 0x07)) :: byte) = 15"
  by (rule all_bits_8, simp add: bit_simps)+

lemma utf8_length_ascii:
  assumes "unat b < 128"
  shows "utf8_length b = 1"
proof -
  have "unat (drop_bit 4 b) = unat b div 16" unfolding unsigned_drop_bit_eq using unat_byte_less [of b] by (simp add: drop_bit_eq_div take_bit_nat_eq_self)
  then have "unat (drop_bit 4 b) < 8" using assms by simp
  then have "unat (drop_bit 4 b) \<in> {0, 1, 2, 3, 4, 5, 6, 7}" by auto
  then show ?thesis by (auto simp: utf8_length_def)
qed

lemma utf8_length_first:
  fixes x :: uint32
  shows "utf8_length (ucast (0xc0 OR (x AND 0x1f))) = 2" "utf8_length (ucast (0xe0 OR (x AND 0x0f))) = 3"
    "utf8_length (ucast (0xf0 OR (x AND 0x07))) = 4"
  by (simp_all add: utf8_length_def first_byte_high)

text \<open>The encoding of one code point leads from one character boundary to the next.\<close>

lemma encode_run:
  assumes "unicode_cpt_to_utf8 c = Some bs"
  shows "\<exists>v. utf8_run bs (cs, v0, 0) = Some (cs @ [c], v, 0)"
proof -
  have le: "unat c < 2 ^ k" if "c \<le> m" "unat m < 2 ^ k" for m k using that by (simp add: word_le_nat_alt)
  consider "c \<le> 0x7f" "bs = [ucast c]"
    | "c \<le> 0x7ff" "bs = [ucast (0xc0 OR (drop_bit 6 c AND 0x1f)), ucast (0x80 OR (c AND 0x3f))]"
    | "c \<le> 0xffff" "bs = [ucast (0xe0 OR (drop_bit 12 c AND 0x0f)), ucast (0x80 OR (drop_bit 6 c AND 0x3f)), ucast (0x80 OR (c AND 0x3f))]"
    | "c \<le> 0x10ffff" "bs = [ucast (0xf0 OR (drop_bit 18 c AND 0x07)), ucast (0x80 OR (drop_bit 12 c AND 0x3f)),
              ucast (0x80 OR (drop_bit 6 c AND 0x3f)), ucast (0x80 OR (c AND 0x3f))]"
    using assms by (auto simp: unicode_cpt_to_utf8_def split: if_splits)
  then show ?thesis
  proof cases
    case 1
    have "unat c < 2 ^ 7" using 1(1) by (intro le) auto
    note high = high_bits_unset [OF this]
    have "unat (ucast c :: byte) < 128"
      using \<open>unat c < 2 ^ 7\<close> by (simp add: unsigned_ucast_eq take_bit_nat_eq_self)
    then have "utf8_length (ucast c) = 1" by (rule utf8_length_ascii)
    moreover have "first_bits (ucast c) = c"
      unfolding first_bits_def calculation by (rule all_bits_32) (simp add: bit_simps high)
    ultimately show ?thesis using 1(2) by (simp add: emit_def)
  next
    case 2
    have "unat c < 2 ^ 11" using 2(1) by (intro le) auto
    note high = high_bits_unset [OF this]
    have "add_bits (first_bits (ucast (0xc0 OR (drop_bit 6 c AND 0x1f)))) (ucast (0x80 OR (c AND 0x3f))) = c"
      unfolding add_bits_or first_bits_def utf8_length_first by (rule all_bits_32) (simp add: bit_simps high)
    then show ?thesis using 2(2) by (simp add: emit_def utf8_length_first continuation_byte)
  next
    case 3
    have "unat c < 2 ^ 16" using 3(1) by (intro le) auto
    note high = high_bits_unset [OF this]
    have "add_bits (add_bits (first_bits (ucast (0xe0 OR (drop_bit 12 c AND 0x0f)))) (ucast (0x80 OR (drop_bit 6 c AND 0x3f))))
        (ucast (0x80 OR (c AND 0x3f))) = c"
      unfolding add_bits_or first_bits_def utf8_length_first by (rule all_bits_32) (simp add: bit_simps high)
    then show ?thesis using 3(2) by (simp add: emit_def utf8_length_first continuation_byte)
  next
    case 4
    have "unat c < 2 ^ 21" using 4(1) by (intro le) auto
    note high = high_bits_unset [OF this]
    have "add_bits (add_bits (add_bits (first_bits (ucast (0xf0 OR (drop_bit 18 c AND 0x07)))) (ucast (0x80 OR (drop_bit 12 c AND 0x3f))))
        (ucast (0x80 OR (drop_bit 6 c AND 0x3f)))) (ucast (0x80 OR (c AND 0x3f))) = c"
      unfolding add_bits_or first_bits_def utf8_length_first by (rule all_bits_32) (simp add: bit_simps high)
    then show ?thesis using 4(2) by (simp add: emit_def utf8_length_first continuation_byte)
  qed
qed

lemma encode_all_run:
  "unicode_cpts_to_utf8 cps = Some bs \<Longrightarrow> \<exists>v. utf8_run bs (cs, v0, 0) = Some (cs @ cps, v, 0)"
proof (induction cps arbitrary: bs cs v0)
  case (Cons c cps)
  then obtain b1 b2 where b: "unicode_cpt_to_utf8 c = Some b1" "unicode_cpts_to_utf8 cps = Some b2" "bs = b1 @ b2"
    by (auto simp: bind_eq_Some_conv)
  from encode_run [OF b(1)] obtain v1 where "utf8_run b1 (cs, v0, 0) = Some (cs @ [c], v1, 0)" by blast
  moreover from Cons.IH [OF b(2)] obtain v where "utf8_run b2 (cs @ [c], v1, 0) = Some ((cs @ [c]) @ cps, v, 0)" by blast
  ultimately show ?case using b(3) by (simp add: utf8_run_append)
qed simp

text \<open>Encoded text in pieces, cut anywhere, gives its code points and ends on a boundary.\<close>

lemma decode_pieces_encoded:
  assumes "unicode_cpts_to_utf8 cps = Some (bytes_of (concat ps))" and "list_all nul_free ps"
  shows "\<exists>v. decode_pieces ps \<lparr>pu_value = v0, pu_n_remain = 0\<rparr> = (cps, \<lparr>pu_value = v, pu_n_remain = 0\<rparr>)"
  using encode_all_run [OF assms(1), of "[]" v0] decode_pieces_run [OF assms(2), of 0 v0] by auto

end
