(* ===== verification/Grammar_Props.thy ===== *)
theory Grammar_Props
  imports Grammar_Accept Grammar_Text
begin

text \<open>
  What sampling under a grammar guarantees: the text accepted is followed exactly, the end of
  generation is allowed exactly after a text of the language, and a token is rejected exactly if it
  cannot be accepted.
\<close>

section \<open>The grammar followed\<close>

definition grammar_ok :: "llama_grammar \<Rightarrow> bool" where
  "grammar_ok g = (wf_rules (gr_rules g) \<and> all_ready (gr_rules g) (gr_stacks g))"

text \<open>After a text the grammar admits what it admitted after that text before.\<close>

definition follows :: "llama_grammar \<Rightarrow> uint32 list \<Rightarrow> llama_grammar \<Rightarrow> bool" where
  "follows g cs g' = (grammar_ok g' \<and> gr_rules g' = gr_rules g \<and>
     (\<forall>w. admits (gr_rules g) (gr_stacks g') w = admits (gr_rules g) (gr_stacks g) (cs @ w)))"

lemma follows_refl: "grammar_ok g \<Longrightarrow> follows g [] g"
  by (simp add: follows_def)

lemma follows_trans: "follows g as g1 \<Longrightarrow> follows g1 bs g2 \<Longrightarrow> follows g (as @ bs) g2"
  by (auto simp: follows_def)

lemma grammar_accept_follows: "grammar_ok g \<Longrightarrow> run_ok (grammar_accept n c g) (follows g [c])"
  unfolding grammar_accept_def grammar_ok_def
  by (rule run_ok_bind [OF accept_stacks_ok]) (auto simp: follows_def grammar_ok_def)

lemma grammar_accept_all: "grammar_ok g \<Longrightarrow> run_ok (run_fold (grammar_accept n) cs g) (follows g cs)"
proof (rule run_ok_fold [where P = "\<lambda>cs. follows g cs"])
  fix ys1 y ys2 g1 assume "follows g ys1 g1"
  moreover from this have "run_ok (grammar_accept n y g1) (follows g1 [y])"
    by (intro grammar_accept_follows) (simp add: follows_def)
  ultimately show "run_ok (grammar_accept n y g1) (follows g (ys1 @ [y]))"
    by (auto intro: run_ok_mono follows_trans)
qed (simp add: follows_refl)

lemma grammar_accept_str_follows:
  assumes "grammar_ok g" and "decode_utf8 piece (gr_partial_utf8 g) = (cs @ [0], partial)"
  shows "run_ok (grammar_accept_str n piece g) (\<lambda>(ok, g'). follows g cs g' \<and> gr_partial_utf8 g' = partial \<and> ok = (gr_stacks g' \<noteq> []))"
proof -
  have "run_ok (run_bind (run_fold (grammar_accept n) cs g)
          (\<lambda>g. let g = g\<lparr>gr_partial_utf8 := partial\<rparr> in Ret (gr_stacks g \<noteq> [], g)))
      (\<lambda>(ok, g'). follows g cs g' \<and> gr_partial_utf8 g' = partial \<and> ok = (gr_stacks g' \<noteq> []))"
    by (rule run_ok_bind [OF grammar_accept_all [OF assms(1)]]) (auto simp: follows_def grammar_ok_def Let_def)
  then show ?thesis using assms(2) by (simp add: grammar_accept_str_def)
qed

text \<open>The start: the rules copied, and stacks that admit what the start rule derives.\<close>

lemma initial_stacks_ok:
  assumes "wf_rules rules" and "start < length rules"
  shows "run_ok (initial_stacks n rules start) (\<lambda>ns. all_ready rules ns \<and> (\<forall>w. admits rules ns w = derives rules [Rule start] w))"
proof -
  note alts = alternates_ok [OF assms]
  have "run_ok (initial_stacks n rules start)
      (extends rules [] (\<lambda>w. \<exists>p \<in> set (alternates rules start). derives rules (stack_symbols rules (push_pos rules p [])) w))"
    unfolding initial_stacks_def using alts(1)
    by (intro run_fold_extends advance_stack_extends assms(1) stack_ok_push) (auto simp: stack_ok_def all_ready_def)
  moreover have "(\<exists>p \<in> set (alternates rules start). derives rules (stack_symbols rules (push_pos rules p [])) w) =
      derives rules [Rule start] w" for w
  proof -
    have "stack_symbols rules (push_pos rules p []) = symbols_at rules p" if "p \<in> set (alternates rules start)" for p
      using alts(1) that by (simp add: stack_symbols_push) (simp add: stack_symbols_def)
    then show ?thesis by (simp add: derives_unfold alts(2) [symmetric])
  qed
  ultimately have "run_ok (initial_stacks n rules start) (extends rules [] (derives rules [Rule start]))" by simp
  then show ?thesis by (rule run_ok_mono) (auto simp: extends_def admits_def)
qed

definition starts_at :: "nat \<Rightarrow> llama_grammar \<Rightarrow> bool" where
  "starts_at start g = (grammar_ok g \<and> gr_partial_utf8 g = \<lparr>pu_value = 0, pu_n_remain = 0\<rparr> \<and>
     (\<forall>w. admits (gr_rules g) (gr_stacks g) w = derives (gr_rules g) [Rule start] w))"

lemma grammar_init_starts:
  assumes "grammar_init n rules start lazy patterns tokens = Ret (Some g)" and "wf_rules (map copy_rule rules)" and "start < length rules"
  shows "starts_at start g \<and> gr_rules g = map copy_rule rules"
proof -
  obtain ns where ns: "initial_stacks n (map copy_rule rules) start = Ret ns"
    and g: "gr_rules g = map copy_rule rules" "gr_stacks g = ns" "gr_partial_utf8 g = \<lparr>pu_value = 0, pu_n_remain = 0\<rparr>"
    using assms(1)
    by (cases "left_recursive n (map copy_rule rules)"; cases "initial_stacks n (map copy_rule rules) start")
       (auto simp: grammar_init_def Let_def split: if_splits)
  have "run_ok (Ret ns) (\<lambda>ns. all_ready (map copy_rule rules) ns \<and>
      (\<forall>w. admits (map copy_rule rules) ns w = derives (map copy_rule rules) [Rule start] w))"
    using initial_stacks_ok [OF assms(2), of start n] assms(3) by (simp add: ns)
  then show ?thesis using g assms(2) by (simp add: starts_at_def grammar_ok_def)
qed

section \<open>Pieces of text\<close>

text \<open>The pieces of successive tokens, until one is not admitted.\<close>

fun accept_pieces :: "nat \<Rightarrow> string list \<Rightarrow> llama_grammar \<Rightarrow> (bool \<times> llama_grammar) run" where
  "accept_pieces n [] g = Ret (True, g)"
| "accept_pieces n (p # ps) g =
     run_bind (grammar_accept_str n p g) (\<lambda>(ok, g). if ok then accept_pieces n ps g else Ret (False, g))"

lemma decode_utf8_last: "\<exists>cs. fst (decode_utf8 src partial) = cs @ [0]"
proof -
  have loop: "\<exists>cs'. fst (decode_loop bs cs v n) = cs' @ [0]" for bs cs v n
  proof (induction bs cs v n rule: decode_loop.induct)
    case (2 b bs cs v n)
    obtain bs1 v1 n1 where "decode_tail bs (first_bits b) (utf8_length b - 1) = (bs1, v1, n1)" by (metis prod_cases3)
    then show ?case using 2 by (auto simp: Let_def first_bits_def)
  qed simp
  show ?thesis
  proof (cases "decode_previous (bytes_of (c_str src)) (pu_value partial) (pu_n_remain partial)")
    case (Some a)
    obtain bs v n where "a = (bs, v, n)" by (metis prod_cases3)
    then show ?thesis using Some loop by (simp add: decode_utf8_def)
  qed (simp add: decode_utf8_def)
qed

text \<open>All pieces accepted, the grammar has followed their code points; one not, no text of the language begins so.\<close>

lemma accept_pieces_follows:
  "grammar_ok g \<Longrightarrow> gr_partial_utf8 g = partial \<Longrightarrow>
   run_ok (accept_pieces n ps g) (\<lambda>(ok, g').
     if ok then follows g (fst (decode_pieces ps partial)) g'
     else \<forall>w. \<not> admits (gr_rules g) (gr_stacks g) (fst (decode_pieces ps partial) @ w))"
proof (induction ps arbitrary: g partial)
  case Nil
  then show ?case by (simp add: follows_refl)
next
  case (Cons p ps)
  obtain cs partial1 where dec: "decode_utf8 p partial = (cs @ [0], partial1)"
    using decode_utf8_last [of p partial] by (metis prod.collapse)
  show ?case unfolding accept_pieces.simps
  proof (rule run_ok_bind [OF grammar_accept_str_follows [OF Cons.prems(1)]])
    show "decode_utf8 p (gr_partial_utf8 g) = (cs @ [0], partial1)" using dec Cons.prems(2) by simp
    fix r :: "bool \<times> llama_grammar"
    obtain ok g1 where r: "r = (ok, g1)" by fastforce
    obtain ds partial2 where rest: "decode_pieces ps partial1 = (ds, partial2)" by fastforce
    then have all: "fst (decode_pieces (p # ps) partial) = cs @ ds" using dec by simp
    assume "case r of (ok, g') \<Rightarrow> follows g cs g' \<and> gr_partial_utf8 g' = partial1 \<and> ok = (gr_stacks g' \<noteq> [])"
    then have g1: "follows g cs g1" "gr_partial_utf8 g1 = partial1" "ok = (gr_stacks g1 \<noteq> [])" using r by auto
    show "run_ok (case r of (ok, g) \<Rightarrow> if ok then accept_pieces n ps g else Ret (False, g))
        (\<lambda>(ok, g'). if ok then follows g (fst (decode_pieces (p # ps) partial)) g'
           else \<forall>w. \<not> admits (gr_rules g) (gr_stacks g) (fst (decode_pieces (p # ps) partial) @ w))"
    proof (cases ok)
      case False
      then have "\<not> admits (gr_rules g) (gr_stacks g) (cs @ w)" for w
        using g1 by (auto simp: follows_def admits_def)
      then show ?thesis using False r by (simp add: all del: decode_pieces.simps)
    next
      case True
      have "grammar_ok g1" using g1(1) by (simp add: follows_def)
      from Cons.IH [OF this g1(2)] show ?thesis
        unfolding r all using True rest g1(1)
        by (auto elim!: run_ok_mono simp: follows_trans) (auto simp: follows_def)
    qed
  qed
qed

section \<open>Tokens\<close>

text \<open>The tokens sampled, until one is not admitted.\<close>

fun accept_tokens :: "nat \<Rightarrow> grammar_env \<Rightarrow> llama_token list \<Rightarrow> llama_grammar \<Rightarrow> (bool \<times> llama_grammar) run" where
  "accept_tokens n E [] g = Ret (True, g)"
| "accept_tokens n E (t # ts) g =
     run_bind (grammar_accept_token n E t g) (\<lambda>(ok, g). if ok then accept_tokens n E ts g else Ret (False, g))"

lemma run_fold_accept_awaiting:
  "run_fold (grammar_accept n) cs g = Ret g' \<Longrightarrow> gr_awaiting_trigger g' = gr_awaiting_trigger g"
proof (induction cs arbitrary: g)
  case (Cons c cs)
  then obtain g1 where g1: "grammar_accept n c g = Ret g1" "run_fold (grammar_accept n) cs g1 = Ret g'"
    by (auto simp: run_bind_Ret)
  have "gr_awaiting_trigger g1 = gr_awaiting_trigger g" using g1(1) by (auto simp: grammar_accept_def run_bind_Ret)
  then show ?case using Cons.IH [OF g1(2)] by simp
qed simp

lemma grammar_accept_str_awaiting:
  "grammar_accept_str n piece g = Ret (ok, g') \<Longrightarrow> gr_awaiting_trigger g' = gr_awaiting_trigger g"
  by (auto simp: grammar_accept_str_def run_bind_Ret Let_def dest: run_fold_accept_awaiting split: prod.splits)

lemma accept_tokens_pieces:
  "\<not> gr_awaiting_trigger g \<Longrightarrow> list_all (\<lambda>t. \<not> en_is_eog E t) ts \<Longrightarrow>
   accept_tokens n E ts g = accept_pieces n (map (en_piece E) ts) g"
proof (induction ts arbitrary: g)
  case (Cons t ts)
  then have "grammar_accept_token n E t g = grammar_accept_str n (en_piece E t) g"
    by (simp add: grammar_accept_token_def Let_def)
  then show ?case using Cons grammar_accept_str_awaiting
    by (cases "grammar_accept_str n (en_piece E t) g") auto
qed simp

lemma grammar_init_awaiting: "grammar_init n rules start lazy patterns tokens = Ret (Some g) \<Longrightarrow> gr_awaiting_trigger g = lazy"
  by (auto simp: grammar_init_def Let_def run_bind_Ret split: if_splits)

text \<open>
  C9. Sampling under a grammar follows the language of the grammar. When the tokens sampled since the start
  spell some text, encoded in UTF-8 and cut into tokens anywhere, even inside a character, then they
  have all been accepted and the end of generation is allowed exactly if the rules derive the text from the
  start rule; and where a token is refused, no text of the language begins with the text spelled.
\<close>

theorem end_allowed_after_language:
  assumes "grammar_init n rules start False patterns triggers = Ret (Some g)"
    and "wf_rules (map copy_rule rules)" and "start < length rules"
    and "list_all (\<lambda>t. \<not> en_is_eog E t) tokens" and "list_all (\<lambda>t. nul_free (en_piece E t)) tokens"
    and "unicode_cpts_to_utf8 cps = Some (bytes_of (concat (map (en_piece E) tokens)))"
    and "accept_tokens m E tokens g = Ret (ok, g')"
  shows "(ok \<and> allows_eog g') = derives (map copy_rule rules) [Rule start] cps \<and>
    (\<not> ok \<longrightarrow> \<not> derives (map copy_rule rules) [Rule start] (cps @ w))"
proof -
  from grammar_init_starts [OF assms(1-3)] have g: "starts_at start g" "gr_rules g = map copy_rule rules" by auto
  then have ok: "grammar_ok g" and partial: "gr_partial_utf8 g = \<lparr>pu_value = 0, pu_n_remain = 0\<rparr>"
    and admits: "admits (gr_rules g) (gr_stacks g) w = derives (map copy_rule rules) [Rule start] w" for w
    by (auto simp: starts_at_def)
  have "list_all nul_free (map (en_piece E) tokens)" using assms(5) by (simp add: list_all_iff)
  from decode_pieces_encoded [OF assms(6) this] have "fst (decode_pieces (map (en_piece E) tokens) \<lparr>pu_value = 0, pu_n_remain = 0\<rparr>) = cps"
    by (metis fst_conv)
  moreover have "accept_pieces m (map (en_piece E) tokens) g = Ret (ok, g')"
    using accept_tokens_pieces [OF _ assms(4)] grammar_init_awaiting [OF assms(1)] assms(7) by metis
  ultimately have result: "if ok then follows g cps g' else \<forall>w. \<not> admits (gr_rules g) (gr_stacks g) (cps @ w)"
    using accept_pieces_follows [OF ok partial, of m "map (en_piece E) tokens"] by (simp only: run_ok.simps prod.case)
  have "(ok \<and> allows_eog g') = derives (map copy_rule rules) [Rule start] cps"
  proof (cases ok)
    case True
    with result have "follows g cps g'" by simp
    then show ?thesis
      using True admits [of cps] admits_Nil [of "gr_rules g" "gr_stacks g'"]
      by (auto simp: follows_def grammar_ok_def allows_eog_def)
  next
    case False
    with result have "\<not> admits (gr_rules g) (gr_stacks g) (cps @ [])" by metis
    then show ?thesis using False admits by simp
  qed
  moreover have "\<not> ok \<longrightarrow> \<not> derives (map copy_rule rules) [Rule start] (cps @ w)" using result admits by auto
  ultimately show ?thesis by blast
qed

text \<open>\<open>root ::= "a" root | U+00E9\<close> on three tokens, the last two of which are halves of a character.\<close>

definition sample_rules :: llama_grammar_rules where
  "sample_rules =
     [[elem LLAMA_GRETYPE_CHAR 0x61, elem LLAMA_GRETYPE_RULE_REF 0, elem LLAMA_GRETYPE_ALT 0,
       elem LLAMA_GRETYPE_CHAR 0xE9, elem LLAMA_GRETYPE_END 0]]"

definition sample_env :: grammar_env where
  "sample_env = \<lparr>en_piece = (\<lambda>t. if t = 1 then ''a'' else if t = 2 then [CHR 0xC3] else if t = 3 then [CHR 0xA9] else ''b''),
     en_is_eog = (\<lambda>t. t = 0), en_regex_match = (\<lambda>pattern text. None)\<rparr>"

lemma run_case_ex: "(case m of Ret x \<Rightarrow> P x | _ \<Rightarrow> False) = (\<exists>x. m = Ret x \<and> P x)"
  by (cases m) auto

lemma sample_run:
  "\<exists>g g'. grammar_init 3 sample_rules 0 False [] [] = Ret (Some g) \<and> accept_tokens 3 sample_env [1, 2, 3] g = Ret (True, g') \<and> allows_eog g'"
proof -
  have "(case grammar_init 3 sample_rules 0 False [] [] of
      Ret (Some g) \<Rightarrow> (case accept_tokens 3 sample_env [1, 2, 3] g of Ret (ok, g') \<Rightarrow> ok \<and> allows_eog g' | _ \<Rightarrow> False) | _ \<Rightarrow> False)"
    by code_simp
  then show ?thesis by (auto simp: run_case_ex split: option.splits simp del: accept_tokens.simps)
qed

theorem end_allowed_after_language_witness:
  "derives (map copy_rule sample_rules) [Rule 0] [0x61, 0xE9]"
proof -
  obtain g g' where run: "grammar_init 3 sample_rules 0 False [] [] = Ret (Some g)"
    "accept_tokens 3 sample_env [1, 2, 3] g = Ret (True, g')" "allows_eog g'" using sample_run by blast
  have "wf_rules (map copy_rule sample_rules)" by code_simp
  moreover have "0 < length sample_rules" by (simp add: sample_rules_def)
  moreover have "list_all (\<lambda>t. \<not> en_is_eog sample_env t) [1, 2, 3]" "list_all (\<lambda>t. nul_free (en_piece sample_env t)) [1, 2, 3]"
    by code_simp+
  moreover have "unicode_cpts_to_utf8 [0x61, 0xE9] = Some (bytes_of (concat (map (en_piece sample_env) [1, 2, 3])))" by code_simp
  ultimately show ?thesis using end_allowed_after_language [OF run(1) _ _ _ _ _ run(2)] run(3) by blast
qed

end
