(* ===== verification/Grammar_Reject.thy ===== *)
theory Grammar_Reject
  imports Grammar_Props
begin

text \<open>
  The rejection of candidates, \<open>llama_grammar_reject_candidates\<close>, against the acceptance of
  text: a candidate survives if some stack can be followed over its code points, and, when it ends
  inside a character, if the class at the top of that stack may match it.
\<close>

section \<open>Following a candidate\<close>

definition step_over :: "llama_grammar_rules \<Rightarrow> uint32 \<Rightarrow> llama_grammar_stack set \<Rightarrow> llama_grammar_stack set" where
  "step_over rules c S = {s'. \<exists>s \<in> S. consumes rules s c s'}"

definition may_end :: "llama_grammar_rules \<Rightarrow> llama_partial_utf8 \<Rightarrow> llama_grammar_stack \<Rightarrow> bool" where
  "may_end rules partial stack =
     (pu_n_remain partial = 0 \<or> (stack \<noteq> [] \<and> match_partial_char rules (last stack) partial = Ret True))"

definition survives :: "llama_grammar_rules \<Rightarrow> llama_partial_utf8 \<Rightarrow> uint32 list \<Rightarrow> llama_grammar_stack set \<Rightarrow> bool" where
  "survives rules partial cs S = (\<exists>s \<in> fold (step_over rules) cs S. may_end rules partial s)"

lemma step_over_Union: "step_over rules c (\<Union>i \<in> I. S i) = (\<Union>i \<in> I. step_over rules c (S i))"
  by (auto simp: step_over_def)

lemma fold_step_over_Union: "fold (step_over rules) cs (\<Union>i \<in> I. S i) = (\<Union>i \<in> I. fold (step_over rules) cs (S i))"
  by (induction cs arbitrary: S) (simp_all add: step_over_Union)

lemma survives_each: "survives rules partial cs S = (\<exists>s \<in> S. survives rules partial cs {s})"
  using fold_step_over_Union [of rules cs "\<lambda>s. {s}" S] by (auto simp: survives_def)

lemma survives_Nil: "survives rules partial [] {s} = may_end rules partial s"
  by (simp add: survives_def)

lemma survives_Cons: "survives rules partial (c # cs) {s} = survives rules partial cs {s'. consumes rules s c s'}"
  by (simp add: survives_def step_over_def)

text \<open>The code points a candidate has left, up to the terminating 0.\<close>

definition candidate_text :: "llama_grammar_candidate \<Rightarrow> uint32 list" where
  "candidate_text tok = takeWhile (\<lambda>c. c \<noteq> 0) (drop (gc_at tok) (gc_buffer tok))"

definition candidate_ok :: "llama_grammar_candidate \<Rightarrow> bool" where
  "candidate_ok tok = (0 \<in> set (drop (gc_at tok) (gc_buffer tok)))"

definition advance_candidate :: "llama_grammar_candidate \<Rightarrow> llama_grammar_candidate" where
  "advance_candidate tok = tok\<lparr>gc_at := gc_at tok + 1\<rparr>"

lemma candidate_text_cases:
  assumes "candidate_ok tok"
  shows "candidate_text tok =
    (if code_point tok = 0 then [] else code_point tok # candidate_text (advance_candidate tok))"
    and "code_point tok \<noteq> 0 \<Longrightarrow> candidate_ok (advance_candidate tok)"
proof -
  obtain c cs where "drop (gc_at tok) (gc_buffer tok) = c # cs"
    using assms by (cases "drop (gc_at tok) (gc_buffer tok)") (auto simp: candidate_ok_def)
  moreover from this have "drop (Suc (gc_at tok)) (gc_buffer tok) = cs" "gc_buffer tok ! gc_at tok = c"
    by (metis drop_Suc list.sel(3) tl_drop) (use calculation nth_via_drop in metis)
  ultimately show "candidate_text tok =
    (if code_point tok = 0 then [] else code_point tok # candidate_text (advance_candidate tok))"
    and "code_point tok \<noteq> 0 \<Longrightarrow> candidate_ok (advance_candidate tok)"
    using assms by (auto simp: candidate_text_def advance_candidate_def code_point_def candidate_ok_def)
qed

definition rejected_by :: "llama_grammar_rules \<Rightarrow> llama_grammar_stack \<Rightarrow> llama_grammar_candidate \<Rightarrow> bool" where
  "rejected_by rules stack tok = (\<not> survives rules (gc_partial_utf8 tok) (candidate_text tok) {stack})"

section \<open>One stack\<close>

lemma match_partial_char_Ret:
  "pos_ok rules pos \<Longrightarrow> is_char (ge_type (element_at rules pos)) \<Longrightarrow> \<exists>b. match_partial_char rules pos partial = Ret b"
  by (auto simp: match_partial_char_def Let_def is_char_def is_positive_char_def)

text \<open>The loop over the candidates: the rejected ones, and those that go on.\<close>

definition split_rejects :: "llama_grammar_rules \<Rightarrow> llama_grammar_stack \<Rightarrow> llama_grammar_candidate \<Rightarrow> bool" where
  "split_rejects rules stack tok =
     (if code_point tok = 0 then \<not> may_end rules (gc_partial_utf8 tok) stack
      else \<not> matches (class_at rules (last stack)) (code_point tok))"

definition split_continues :: "llama_grammar_rules \<Rightarrow> llama_grammar_stack \<Rightarrow> llama_grammar_candidate \<Rightarrow> bool" where
  "split_continues rules stack tok = (code_point tok \<noteq> 0 \<and> matches (class_at rules (last stack)) (code_point tok))"

lemma reject_split_ready:
  assumes "ready rules stack" and "stack \<noteq> []"
  shows "reject_split rules (last stack) tok (rejects, next_candidates) =
    Ret (rejects @ (if split_rejects rules stack tok then [tok] else []),
         next_candidates @ (if split_continues rules stack tok then [advance_candidate tok] else []))"
proof -
  note at = match_char_at [OF conjunct1 [OF ready_last [OF assms]] conjunct2 [OF ready_last [OF assms]]]
  obtain b where "match_partial_char rules (last stack) (gc_partial_utf8 tok) = Ret b"
    using match_partial_char_Ret ready_last [OF assms] by blast
  then show ?thesis
    using assms(2) by (auto simp: reject_split_def at(1) split_rejects_def split_continues_def may_end_def advance_candidate_def)
qed

lemma reject_split_fold:
  assumes "ready rules stack" and "stack \<noteq> []"
  shows "run_fold (reject_split rules (last stack)) toks (rejects, next_candidates) =
    Ret (rejects @ filter (split_rejects rules stack) toks,
         next_candidates @ map advance_candidate (filter (split_continues rules stack) toks))"
  by (induction toks arbitrary: rejects next_candidates) (simp_all add: reject_split_ready [OF assms])

section \<open>All stacks\<close>

definition rejects_exactly :: "(llama_grammar_candidate \<Rightarrow> bool) \<Rightarrow> llama_grammar_candidate list \<Rightarrow> llama_grammar_candidate list \<Rightarrow> bool" where
  "rejects_exactly P toks rejects = (set rejects = {tok \<in> set toks. P tok})"

lemma rejects_exactly_fold:
  assumes "run_fold f ys toks = Ret rejects" and "\<forall>tok \<in> set toks. Q tok"
    and "\<And>y toks rejects. y \<in> set ys \<Longrightarrow> \<forall>tok \<in> set toks. Q tok \<Longrightarrow> f y toks = Ret rejects \<Longrightarrow> rejects_exactly (P y) toks rejects"
  shows "rejects_exactly (\<lambda>tok. \<forall>y \<in> set ys. P y tok) toks rejects"
  using assms
proof (induction ys arbitrary: toks)
  case (Cons y ys)
  then obtain toks1 where step: "f y toks = Ret toks1" "run_fold f ys toks1 = Ret rejects" by (cases "f y toks") auto
  then have 1: "rejects_exactly (P y) toks toks1" using Cons.prems by simp
  then have "\<forall>tok \<in> set toks1. Q tok" using Cons.prems(2) by (auto simp: rejects_exactly_def)
  then have "rejects_exactly (\<lambda>tok. \<forall>y \<in> set ys. P y tok) toks1 rejects"
    using Cons.IH [OF step(2)] Cons.prems(3) by simp
  with 1 show ?case by (auto simp: rejects_exactly_def)
qed (simp add: rejects_exactly_def)

lemma reject_for_stack_exact:
  assumes reject: "\<And>stacks toks rejects. all_ready rules stacks \<Longrightarrow> \<forall>tok \<in> set toks. candidate_ok tok \<Longrightarrow> reject stacks toks = Ret rejects \<Longrightarrow>
      rejects_exactly (\<lambda>tok. \<forall>s \<in> set stacks. rejected_by rules s tok) toks rejects"
    and rules: "wf_rules rules" and stack: "ready rules stack" and toks: "\<forall>tok \<in> set toks. candidate_ok tok"
    and ret: "reject_for_stack reject n rules stack toks = Ret rejects"
  shows "rejects_exactly (rejected_by rules stack) toks rejects"
proof (cases "stack = []")
  case True
  have "rejected_by rules [] tok = (code_point tok \<noteq> 0 \<or> pu_n_remain (gc_partial_utf8 tok) \<noteq> 0)" if "candidate_ok tok" for tok
    by (simp add: rejected_by_def candidate_text_cases(1) [OF that] survives_Nil survives_Cons may_end_def consumes_def)
       (simp add: survives_def fold_step_over_Union [of rules _ _ "{}", simplified])
  then show ?thesis using ret True toks by (auto simp: reject_for_stack_def rejects_exactly_def)
next
  case False
  note at = match_char_at [OF conjunct1 [OF ready_last [OF stack False]] conjunct2 [OF ready_last [OF stack False]]]
  let ?next = "map advance_candidate (filter (split_continues rules stack) toks)"
  obtain next_stacks next_rejects where
    adv: "advance_stack n rules (stack_after rules stack) [] = Ret next_stacks"
    and rej: "reject next_stacks ?next = Ret next_rejects"
    and rejects: "rejects = filter (split_rejects rules stack) toks @ map (\<lambda>tok. tok\<lparr>gc_at := gc_at tok - 1\<rparr>) next_rejects"
    using ret False
    by (auto simp: reject_for_stack_def reject_split_fold [OF stack False] at(1) stack_after_def [symmetric] run_bind_Ret)
  have ready: "all_ready rules next_stacks"
    using advance_stack_extends [OF rules stack_after_ok [OF stack False], of "[]" n] adv by (simp add: extends_def all_ready_def)
  have next_set: "set next_stacks = {s. advances rules (stack_after rules stack) s}" using advance_stack_set [OF adv] by simp
  have "\<forall>tok \<in> set ?next. candidate_ok tok"
    using toks candidate_text_cases(2) by (auto simp: split_continues_def)
  from reject [OF ready this rej] have
    "set next_rejects = {tok \<in> set ?next. \<forall>s \<in> set next_stacks. rejected_by rules s tok}" by (simp add: rejects_exactly_def)
  moreover have "(advance_candidate tok)\<lparr>gc_at := gc_at (advance_candidate tok) - 1\<rparr> = tok" for tok
    by (simp add: advance_candidate_def)
  ultimately have returned: "(\<lambda>tok. tok\<lparr>gc_at := gc_at tok - 1\<rparr>) ` set next_rejects =
      {tok \<in> set toks. split_continues rules stack tok \<and> (\<forall>s \<in> set next_stacks. rejected_by rules s (advance_candidate tok))}"
    by (auto simp: image_iff) (metis (no_types, lifting))
  have "rejected_by rules stack tok = (split_rejects rules stack tok \<or>
      (split_continues rules stack tok \<and> (\<forall>s \<in> set next_stacks. rejected_by rules s (advance_candidate tok))))"
    if "tok \<in> set toks" for tok
  proof -
    have ok: "candidate_ok tok" using toks that by simp
    have partial: "gc_partial_utf8 (advance_candidate tok) = gc_partial_utf8 tok" by (simp add: advance_candidate_def)
    show ?thesis
    proof (cases "code_point tok = 0")
      case True
      then show ?thesis
        by (simp add: rejected_by_def candidate_text_cases(1) [OF ok] survives_Nil split_rejects_def split_continues_def)
    next
      case cp: False
      show ?thesis
      proof (cases "matches (class_at rules (last stack)) (code_point tok)")
        case True
        then have "{s'. consumes rules stack (code_point tok) s'} = set next_stacks"
          using False by (simp add: consumes_def next_set)
        then show ?thesis using True cp False
          by (simp add: rejected_by_def candidate_text_cases(1) [OF ok] survives_Cons split_rejects_def split_continues_def
              survives_each [of rules _ _ "set next_stacks"] partial)
      next
        case no: False
        then have "{s'. consumes rules stack (code_point tok) s'} = {}" by (simp add: consumes_def)
        then show ?thesis using no cp
          by (simp add: rejected_by_def candidate_text_cases(1) [OF ok] survives_Cons split_rejects_def
              survives_each [of rules _ _ "{}"])
      qed
    qed
  qed
  then show ?thesis unfolding rejects_exactly_def rejects set_append set_map set_filter returned by blast
qed

lemma reject_candidates_exact:
  "wf_rules rules \<Longrightarrow> all_ready rules stacks \<Longrightarrow> \<forall>tok \<in> set toks. candidate_ok tok \<Longrightarrow>
   reject_candidates d n rules stacks toks = Ret rejects \<Longrightarrow>
   rejects_exactly (\<lambda>tok. \<forall>s \<in> set stacks. rejected_by rules s tok) toks rejects"
proof (induction d arbitrary: stacks toks rejects)
  case (Suc d)
  show ?case
  proof (cases "toks = []")
    case True
    then show ?thesis using Suc.prems(4) by (auto simp: rejects_exactly_def split: if_splits)
  next
    case False
    then have "run_fold (\<lambda>stack rejects. reject_for_stack (reject_candidates d n rules) n rules stack rejects) stacks toks = Ret rejects"
      using Suc.prems(4) by (auto split: if_splits)
    then show ?thesis
      using Suc.prems(1-3) Suc.IH
      by (rule_tac rejects_exactly_fold) (auto intro!: reject_for_stack_exact [where reject = "reject_candidates d n rules"] simp: all_ready_def)
  qed
qed simp

section \<open>No assertion fails\<close>

lemma run_fold_last: "run_fold f ys x = Ret x' \<Longrightarrow> ys \<noteq> [] \<Longrightarrow> \<exists>y \<in> set ys. \<exists>x1. f y x1 = Ret x'"
proof (induction ys arbitrary: x)
  case (Cons y ys)
  then show ?case by (cases "ys = []") (auto simp: run_bind_Ret)
qed simp

lemma advance_stack_nonempty: "advance_stack n rules stack ns = Ret ns' \<Longrightarrow> ns' \<noteq> []"
proof (induction n arbitrary: stack ns)
  case (Suc n)
  consider "stack = [] \<or> is_char (ge_type (element_at rules (last stack)))"
    | "stack \<noteq> []" "ge_type (element_at rules (last stack)) = LLAMA_GRETYPE_RULE_REF"
    using Suc.prems advance_abort [of stack rules n ns] by fastforce
  then show ?case
  proof cases
    case 1
    then show ?thesis using Suc.prems by (auto simp: advance_stop add_stack_def simp del: advance_stack.simps split: if_splits)
  next
    case 2
    have "alternates rules (unat (ge_value (element_at rules (last stack)))) \<noteq> []" by (simp add: alternates_def)
    from run_fold_last [OF Suc.prems [unfolded advance_ref [OF 2]] this] show ?thesis using Suc.IH by blast
  qed
qed simp

lemma reject_for_stack_no_abort:
  assumes reject: "\<And>stacks toks. stacks \<noteq> [] \<Longrightarrow> all_ready rules stacks \<Longrightarrow> \<forall>tok \<in> set toks. candidate_ok tok \<Longrightarrow> reject stacks toks \<noteq> Abort"
    and rules: "wf_rules rules" and stack: "ready rules stack" and toks: "\<forall>tok \<in> set toks. candidate_ok tok"
  shows "reject_for_stack reject n rules stack toks \<noteq> Abort"
proof (cases "stack = []")
  case False
  note at = match_char_at [OF conjunct1 [OF ready_last [OF stack False]] conjunct2 [OF ready_last [OF stack False]]]
  have adv: "run_ok (advance_stack n rules (stack_after rules stack) []) (extends rules [] (derives rules (stack_symbols rules (stack_after rules stack))))"
    by (rule advance_stack_extends [OF rules stack_after_ok [OF stack False]]) (simp add: all_ready_def)
  have next_ok: "\<forall>tok \<in> set (map advance_candidate (filter (split_continues rules stack) toks)). candidate_ok tok"
    using toks candidate_text_cases(2) by (auto simp: split_continues_def)
  show ?thesis
  proof (cases "advance_stack n rules (stack_after rules stack) []")
    case (Ret ns)
    then have "reject ns (map advance_candidate (filter (split_continues rules stack) toks)) \<noteq> Abort"
      using reject [OF _ _ next_ok] adv advance_stack_nonempty [OF Ret] by (simp add: extends_def)
    then show ?thesis using False Ret
      by (cases "reject ns (map advance_candidate (filter (split_continues rules stack) toks))")
         (simp_all add: reject_for_stack_def reject_split_fold [OF stack False] at(1) stack_after_def [symmetric])
  qed (use False adv in \<open>simp_all add: reject_for_stack_def reject_split_fold [OF stack False] at(1) stack_after_def [symmetric]\<close>)
qed (simp add: reject_for_stack_def)

lemma run_fold_no_abort:
  assumes "\<And>y x. y \<in> set ys \<Longrightarrow> I x \<Longrightarrow> f y x \<noteq> Abort" and "\<And>y x x'. y \<in> set ys \<Longrightarrow> I x \<Longrightarrow> f y x = Ret x' \<Longrightarrow> I x'" and "I x"
  shows "run_fold f ys x \<noteq> Abort"
  using assms
proof (induction ys arbitrary: x)
  case (Cons y ys)
  have "run_fold f ys x1 \<noteq> Abort" if "f y x = Ret x1" for x1
    by (rule Cons.IH) (use Cons.prems that in \<open>auto, blast+\<close>)
  moreover have "f y x \<noteq> Abort" using Cons.prems(1,3) by simp
  ultimately show ?case by (cases "f y x") auto
qed simp

lemma reject_candidates_no_abort:
  "wf_rules rules \<Longrightarrow> stacks \<noteq> [] \<Longrightarrow> all_ready rules stacks \<Longrightarrow> \<forall>tok \<in> set toks. candidate_ok tok \<Longrightarrow>
   reject_candidates d n rules stacks toks \<noteq> Abort"
proof (induction d arbitrary: stacks toks)
  case (Suc d)
  have "run_fold (\<lambda>stack rejects. reject_for_stack (reject_candidates d n rules) n rules stack rejects) stacks toks \<noteq> Abort"
  proof (rule run_fold_no_abort [where I = "\<lambda>toks. \<forall>tok \<in> set toks. candidate_ok tok"])
    fix stack toks assume st: "stack \<in> set stacks" and toks: "\<forall>tok \<in> set toks. candidate_ok tok"
    then have ready: "ready rules stack" using Suc.prems(3) by (simp add: all_ready_def)
    show "reject_for_stack (reject_candidates d n rules) n rules stack toks \<noteq> Abort"
      by (rule reject_for_stack_no_abort [OF Suc.IH Suc.prems(1) ready toks]) (use Suc.prems(1) in auto)
    fix rejects assume "reject_for_stack (reject_candidates d n rules) n rules stack toks = Ret rejects"
    then have "rejects_exactly (rejected_by rules stack) toks rejects"
      by (rule reject_for_stack_exact [rotated -1]) (use reject_candidates_exact Suc.prems(1) ready toks in auto)
    then show "\<forall>tok \<in> set rejects. candidate_ok tok" using toks by (simp add: rejects_exactly_def)
  qed (use Suc.prems in simp)
  then show ?case using Suc.prems(2) by simp
qed simp

section \<open>The logits\<close>

definition is_blanked :: "grammar_env \<Rightarrow> llama_grammar \<Rightarrow> llama_token \<Rightarrow> bool" where
  "is_blanked E g token =
     (if en_is_eog E token then \<not> allows_eog g else en_piece E token = [] \<or> en_piece E token ! 0 = CHR 0x00)"

definition is_tested :: "grammar_env \<Rightarrow> llama_grammar \<Rightarrow> llama_token \<Rightarrow> bool" where
  "is_tested E g token = (\<not> en_is_eog E token \<and> \<not> is_blanked E g token)"

definition candidate_of :: "grammar_env \<Rightarrow> llama_grammar \<Rightarrow> (llama_token \<times> 'l option) list \<Rightarrow> nat \<Rightarrow> llama_grammar_candidate" where
  "candidate_of E g cur i =
     (let (code_points, partial) = decode_utf8 (en_piece E (fst (cur ! i))) (gr_partial_utf8 g)
      in \<lparr>gc_index = i, gc_buffer = code_points, gc_at = 0, gc_partial_utf8 = partial\<rparr>)"

lemma apply_steps:
  "k \<le> length cur \<Longrightarrow> fold (apply_step E g) [0..<k] (cur, []) =
     (map (\<lambda>i. if i < k \<and> is_blanked E g (fst (cur ! i)) then (fst (cur ! i), None) else cur ! i) [0..<length cur],
      map (candidate_of E g cur) (filter (\<lambda>i. is_tested E g (fst (cur ! i))) [0..<k]))"
proof (induction k)
  case 0
  then show ?case by (simp add: map_nth)
next
  case (Suc k)
  let ?dat = "\<lambda>k. map (\<lambda>i. if i < k \<and> is_blanked E g (fst (cur ! i)) then (fst (cur ! i), None) else cur ! i) [0..<length cur]"
  have k: "k < length cur" using Suc.prems by simp
  have dat: "?dat (Suc k) = (if is_blanked E g (fst (cur ! k)) then (?dat k)[k := (fst (cur ! k), None)] else ?dat k)"
    using k by (intro nth_equalityI) (auto simp: nth_list_update less_Suc_eq)
  have at: "?dat k ! k = cur ! k" using k by simp
  show ?case
    using Suc k by (simp add: dat at apply_step_def is_tested_def) (auto simp: is_blanked_def candidate_of_def Let_def split: prod.splits)
qed

lemma apply_rejects:
  "\<forall>tok \<in> set rejects. gc_index tok < length dat \<Longrightarrow> i < length dat \<Longrightarrow>
   fold (\<lambda>tok dat. dat[gc_index tok := (fst (dat ! gc_index tok), None)]) rejects dat ! i =
     (if i \<in> gc_index ` set rejects then (fst (dat ! i), None) else dat ! i) \<and>
   length (fold (\<lambda>tok dat. dat[gc_index tok := (fst (dat ! gc_index tok), None)]) rejects dat) = length dat"
  by (induction rejects arbitrary: dat) (auto simp: nth_list_update)

lemma candidate_of_ok: "candidate_ok (candidate_of E g cur i)"
  using decode_utf8_last [of "en_piece E (fst (cur ! i))" "gr_partial_utf8 g"]
  by (auto simp: candidate_ok_def candidate_of_def split: prod.splits)

lemma gc_index_candidate [simp]: "gc_index (candidate_of E g cur i) = i"
  by (simp add: candidate_of_def split: prod.splits)

text \<open>Each logit is kept, or made \<open>-INFINITY\<close> because the token is blanked or rejected by every stack.\<close>

lemma grammar_apply_nth:
  assumes "grammar_ok g" and "\<not> gr_awaiting_trigger g" and "grammar_apply d n E g cur = Ret cur'" and "i < length cur"
  shows "cur' ! i = (fst (cur ! i),
    if is_blanked E g (fst (cur ! i)) \<or>
       (is_tested E g (fst (cur ! i)) \<and> (\<forall>s \<in> set (gr_stacks g). rejected_by (gr_rules g) s (candidate_of E g cur i)))
    then None else snd (cur ! i))"
proof -
  let ?toks = "map (candidate_of E g cur) (filter (\<lambda>i. is_tested E g (fst (cur ! i))) [0..<length cur])"
  let ?dat = "map (\<lambda>i. if i < length cur \<and> is_blanked E g (fst (cur ! i)) then (fst (cur ! i), None) else cur ! i) [0..<length cur]"
  obtain rejects where rej: "reject_candidates d n (gr_rules g) (gr_stacks g) ?toks = Ret rejects"
    and cur': "cur' = fold (\<lambda>tok dat. dat[gc_index tok := (fst (dat ! gc_index tok), None)]) rejects ?dat"
    using assms(2,3) by (auto simp: grammar_apply_def apply_steps run_bind_Ret)
  have "\<forall>tok \<in> set ?toks. candidate_ok tok" using candidate_of_ok by auto
  from reject_candidates_exact [OF _ _ this rej] assms(1)
  have exact: "set rejects = {tok \<in> set ?toks. \<forall>s \<in> set (gr_stacks g). rejected_by (gr_rules g) s tok}"
    by (simp add: grammar_ok_def rejects_exactly_def)
  have "\<forall>tok \<in> set rejects. gc_index tok < length ?dat" unfolding exact by auto
  from apply_rejects [OF this, of i] assms(4)
  have "cur' ! i = (if i \<in> gc_index ` set rejects then (fst (?dat ! i), None) else ?dat ! i)"
    unfolding cur' by simp
  moreover have "i \<in> gc_index ` set rejects \<longleftrightarrow>
      is_tested E g (fst (cur ! i)) \<and> (\<forall>s \<in> set (gr_stacks g). rejected_by (gr_rules g) s (candidate_of E g cur i))"
    unfolding exact using assms(4) by force
  ultimately show ?thesis using assms(4) by (cases "cur ! i") (auto simp: is_tested_def)
qed

section \<open>Rejection and acceptance\<close>

lemma accept_stacks_reach:
  "grammar_ok g \<Longrightarrow> run_fold (grammar_accept n) cs g = Ret g' \<Longrightarrow>
   set (gr_stacks g') = fold (step_over (gr_rules g)) cs (set (gr_stacks g))"
proof (induction cs arbitrary: g)
  case (Cons c cs)
  then obtain g1 where g1: "grammar_accept n c g = Ret g1" "run_fold (grammar_accept n) cs g1 = Ret g'"
    by (auto simp: run_bind_Ret)
  have "follows g [c] g1" using grammar_accept_follows [OF Cons.prems(1), of n c] g1(1) by simp
  then have ok: "grammar_ok g1" "gr_rules g1 = gr_rules g" by (auto simp: follows_def)
  obtain ns where "accept_stacks n (gr_rules g) c (gr_stacks g) = Ret ns" "gr_stacks g1 = ns"
    using g1(1) by (auto simp: grammar_accept_def run_bind_Ret)
  then have "set (gr_stacks g1) = step_over (gr_rules g) c (set (gr_stacks g))"
    using accept_stacks_set Cons.prems(1) by (simp add: step_over_def grammar_ok_def)
  then show ?case using Cons.IH [OF ok(1) g1(2)] ok(2) by simp
qed simp

lemma accepts_iff_survives:
  assumes "grammar_ok g" and "decode_utf8 piece (gr_partial_utf8 g) = (cs @ [0], partial)"
    and "grammar_accept_str n piece g = Ret (ok, g')"
  shows "survives (gr_rules g) partial cs (set (gr_stacks g)) = (\<exists>s \<in> set (gr_stacks g'). may_end (gr_rules g) partial s)"
    and "ok = (gr_stacks g' \<noteq> [])"
proof -
  obtain g1 where "run_fold (grammar_accept n) cs g = Ret g1" "gr_stacks g' = gr_stacks g1" "ok = (gr_stacks g1 \<noteq> [])"
    using assms(2,3) by (auto simp: grammar_accept_str_def run_bind_Ret Let_def)
  then show "survives (gr_rules g) partial cs (set (gr_stacks g)) = (\<exists>s \<in> set (gr_stacks g'). may_end (gr_rules g) partial s)"
    and "ok = (gr_stacks g' \<noteq> [])"
    using accept_stacks_reach [OF assms(1)] by (simp_all add: survives_def)
qed

text \<open>The logit of a tested token, whatever its piece ends with.\<close>

lemma grammar_apply_tested:
  assumes "grammar_ok g" and "\<not> gr_awaiting_trigger g" and "grammar_apply d n E g cur = Ret cur'"
    and "i < length cur" and "cur ! i = (token, logit)" and "is_tested E g token"
    and "decode_utf8 (en_piece E token) (gr_partial_utf8 g) = (cs @ [0], partial)" and "0 \<notin> set cs"
    and "grammar_accept_str m (en_piece E token) g = Ret (ok, g')"
  shows "cur' ! i = (token, if \<exists>s \<in> set (gr_stacks g'). may_end (gr_rules g) partial s then logit else None)"
proof -
  have tok: "candidate_of E g cur i = \<lparr>gc_index = i, gc_buffer = cs @ [0], gc_at = 0, gc_partial_utf8 = partial\<rparr>"
    using assms(5,7) by (simp add: candidate_of_def)
  moreover have "takeWhile (\<lambda>c. c \<noteq> 0) (cs @ [0]) = cs @ takeWhile (\<lambda>c. c \<noteq> 0) [0]"
    by (rule takeWhile_append2) (use assms(8) in auto)
  ultimately have "candidate_text (candidate_of E g cur i) = cs" by (simp add: candidate_text_def)
  then have "(\<forall>s \<in> set (gr_stacks g). rejected_by (gr_rules g) s (candidate_of E g cur i)) =
      (\<not> survives (gr_rules g) partial cs (set (gr_stacks g)))"
    using survives_each [of "gr_rules g" partial cs "set (gr_stacks g)"] by (simp add: rejected_by_def tok)
  then show ?thesis
    using grammar_apply_nth [OF assms(1-4)] assms(5,6) accepts_iff_survives(1) [OF assms(1,7,9)]
    by (auto simp: is_tested_def)
qed

lemma grammar_accept_token_str:
  "\<not> gr_awaiting_trigger g \<Longrightarrow> \<not> en_is_eog E token \<Longrightarrow> grammar_accept_token n E token g = grammar_accept_str n (en_piece E token) g"
  by (simp add: grammar_accept_token_def Let_def)

text \<open>The grammars that sampling reaches: from the start, over any tokens admitted.\<close>

definition reached :: "nat \<Rightarrow> grammar_env \<Rightarrow> llama_grammar_rules \<Rightarrow> nat \<Rightarrow> llama_token list \<Rightarrow> llama_grammar \<Rightarrow> bool" where
  "reached n E rules start tokens g =
     (case grammar_init n rules start False [] [] of
        Ret (Some g0) \<Rightarrow> accept_tokens n E tokens g0 = Ret (True, g) \<and> list_all (\<lambda>t. \<not> en_is_eog E t) tokens
      | _ \<Rightarrow> False)"

lemma initial_stacks_nonempty: "initial_stacks n rules start = Ret ns \<Longrightarrow> ns \<noteq> []"
  unfolding initial_stacks_def by (drule run_fold_last) (auto simp: alternates_def dest: advance_stack_nonempty)

lemma grammar_init_stacks: "grammar_init n rules start lazy ps ts = Ret (Some g) \<Longrightarrow> gr_stacks g \<noteq> []"
  by (auto simp: grammar_init_def Let_def run_bind_Ret split: if_splits dest: initial_stacks_nonempty)

lemma accept_pieces_stacks:
  "accept_pieces n ps g = Ret (True, g') \<Longrightarrow> gr_stacks g \<noteq> [] \<Longrightarrow> gr_stacks g' \<noteq> []"
proof (induction ps arbitrary: g)
  case (Cons p ps)
  then obtain g1 where "grammar_accept_str n p g = Ret (True, g1)" "accept_pieces n ps g1 = Ret (True, g')"
    by (auto simp: run_bind_Ret split: if_splits prod.splits)
  moreover from this have "gr_stacks g1 \<noteq> []" by (auto simp: grammar_accept_str_def run_bind_Ret Let_def split: prod.splits)
  ultimately show ?case using Cons.IH by blast
qed simp

lemma accept_pieces_awaiting: "accept_pieces n ps g = Ret (ok, g') \<Longrightarrow> gr_awaiting_trigger g' = gr_awaiting_trigger g"
proof (induction ps arbitrary: g)
  case (Cons p ps)
  then obtain ok1 g1 where g1: "grammar_accept_str n p g = Ret (ok1, g1)" "(if ok1 then accept_pieces n ps g1 else Ret (False, g1)) = Ret (ok, g')"
    by (auto simp: run_bind_Ret)
  then show ?case using Cons.IH [of g1] grammar_accept_str_awaiting [OF g1(1)] by (auto split: if_splits)
qed simp

lemma reached_ok:
  assumes "reached n E rules start tokens g" and "wf_rules (map copy_rule rules)" and "start < length rules"
  shows "grammar_ok g" and "\<not> gr_awaiting_trigger g" and "gr_stacks g \<noteq> []"
proof -
  obtain g0 where g0: "grammar_init n rules start False [] [] = Ret (Some g0)" "accept_tokens n E tokens g0 = Ret (True, g)"
      "list_all (\<lambda>t. \<not> en_is_eog E t) tokens"
    using assms(1) by (auto simp: reached_def split: run.splits option.splits)
  have awaiting: "\<not> gr_awaiting_trigger g0" using grammar_init_awaiting [OF g0(1)] by simp
  then have pieces: "accept_pieces n (map (en_piece E) tokens) g0 = Ret (True, g)"
    using g0(2,3) accept_tokens_pieces by metis
  have "grammar_ok g0" using grammar_init_starts [OF g0(1) assms(2,3)] by (simp add: starts_at_def)
  then show "grammar_ok g"
    using accept_pieces_follows [OF _ refl, of g0 n "map (en_piece E) tokens"] by (simp add: pieces follows_def)
  show "\<not> gr_awaiting_trigger g" using accept_pieces_awaiting [OF pieces] awaiting by simp
  show "gr_stacks g \<noteq> []" using accept_pieces_stacks [OF pieces] grammar_init_stacks [OF g0(1)] by simp
qed

text \<open>
  C10. The mask of the sampler agrees with acceptance. At every point that sampling reaches, a token that is
  no end of generation, with a non-empty piece that holds no zero byte and completes its last character, keeps its logit under \<open>llama_grammar_apply_impl\<close> exactly if
  \<open>llama_grammar_accept_impl\<close> would admit it; the two follow the stacks by different loops.
\<close>

theorem apply_agrees_with_accept:
  assumes "reached n E rules start tokens g" and "wf_rules (map copy_rule rules)" and "start < length rules"
    and "grammar_apply d m E g cur = Ret cur'" and "i < length cur" and "cur ! i = (token, Some logit)"
    and "\<not> en_is_eog E token" and "en_piece E token \<noteq> []" and "en_piece E token ! 0 \<noteq> CHR 0x00"
    and "decode_utf8 (en_piece E token) (gr_partial_utf8 g) = (cs @ [0], partial)" and "0 \<notin> set cs" and "pu_n_remain partial = 0"
    and "grammar_accept_token k E token g = Ret (ok, g')"
  shows "cur' ! i = (token, if ok then Some logit else None)"
proof -
  note g = reached_ok [OF assms(1-3)]
  have str: "grammar_accept_str k (en_piece E token) g = Ret (ok, g')"
    using grammar_accept_token_str [OF g(2) assms(7)] assms(13) by simp
  have "is_tested E g token" using assms(7-9) by (simp add: is_tested_def is_blanked_def)
  from grammar_apply_tested [OF g(1,2) assms(4-6) this assms(10,11) str] accepts_iff_survives(2) [OF g(1) assms(10) str]
  show ?thesis using assms(12) by (cases "gr_stacks g'") (auto simp: may_end_def)
qed

lemma sample_apply:
  "\<exists>g cur' g1 g4. reached 3 sample_env sample_rules 0 [1] g \<and>
     grammar_apply 5 3 sample_env g [(1, Some (7 :: nat)), (4, Some 8)] = Ret cur' \<and>
     grammar_accept_token 3 sample_env 1 g = Ret (True, g1) \<and> grammar_accept_token 3 sample_env 4 g = Ret (False, g4) \<and>
     decode_utf8 (en_piece sample_env 1) (gr_partial_utf8 g) = ([0x61] @ [0], \<lparr>pu_value = 0x61, pu_n_remain = 0\<rparr>) \<and>
     decode_utf8 (en_piece sample_env 4) (gr_partial_utf8 g) = ([0x62] @ [0], \<lparr>pu_value = 0x62, pu_n_remain = 0\<rparr>)"
proof -
  have "(case grammar_init 3 sample_rules 0 False [] [] of
      Ret (Some g0) \<Rightarrow>
        (case accept_tokens 3 sample_env [1] g0 of
           Ret (ok, g) \<Rightarrow> ok \<and>
             (case grammar_apply 5 3 sample_env g [(1, Some (7 :: nat)), (4, Some 8)] of Ret cur' \<Rightarrow> True | _ \<Rightarrow> False) \<and>
             (case grammar_accept_token 3 sample_env 1 g of Ret (ok, g1) \<Rightarrow> ok | _ \<Rightarrow> False) \<and>
             (case grammar_accept_token 3 sample_env 4 g of Ret (ok, g4) \<Rightarrow> \<not> ok | _ \<Rightarrow> False) \<and>
             decode_utf8 (en_piece sample_env 1) (gr_partial_utf8 g) = ([0x61] @ [0], \<lparr>pu_value = 0x61, pu_n_remain = 0\<rparr>) \<and>
             decode_utf8 (en_piece sample_env 4) (gr_partial_utf8 g) = ([0x62] @ [0], \<lparr>pu_value = 0x62, pu_n_remain = 0\<rparr>)
         | _ \<Rightarrow> False)
    | _ \<Rightarrow> False)" by code_simp
  moreover have "list_all (\<lambda>t. \<not> en_is_eog sample_env t) [1]" by code_simp
  ultimately show ?thesis
    unfolding reached_def by (fastforce simp: run_case_ex split: option.splits simp del: accept_tokens.simps)
qed

theorem apply_agrees_with_accept_witness:
  "\<exists>g cur'. reached 3 sample_env sample_rules 0 [1] g \<and>
     grammar_apply 5 3 sample_env g [(1, Some (7 :: nat)), (4, Some 8)] = Ret cur' \<and> cur' ! 0 = (1, Some 7) \<and> cur' ! 1 = (4, None)"
proof -
  obtain g cur' g1 g4 where g: "reached 3 sample_env sample_rules 0 [1] g"
    "grammar_apply 5 3 sample_env g [(1, Some (7 :: nat)), (4, Some 8)] = Ret cur'"
    "grammar_accept_token 3 sample_env 1 g = Ret (True, g1)" "grammar_accept_token 3 sample_env 4 g = Ret (False, g4)"
    "decode_utf8 (en_piece sample_env 1) (gr_partial_utf8 g) = ([0x61] @ [0], \<lparr>pu_value = 0x61, pu_n_remain = 0\<rparr>)"
    "decode_utf8 (en_piece sample_env 4) (gr_partial_utf8 g) = ([0x62] @ [0], \<lparr>pu_value = 0x62, pu_n_remain = 0\<rparr>)"
    using sample_apply by blast
  have wf: "wf_rules (map copy_rule sample_rules)" by code_simp
  have len: "0 < length sample_rules" by (simp add: sample_rules_def)
  have piece: "\<not> en_is_eog sample_env t" "en_piece sample_env t \<noteq> []" "en_piece sample_env t ! 0 \<noteq> CHR 0x00" if "t = 1 \<or> t = 4" for t
    using that by (auto simp: sample_env_def)
  have "cur' ! 0 = (1, if True then Some 7 else None)"
    by (rule apply_agrees_with_accept [OF g(1) wf len g(2) _ _ _ _ _ g(5) _ _ g(3)]) (simp_all add: piece)
  moreover have "cur' ! 1 = (4, if False then Some 8 else None)"
    by (rule apply_agrees_with_accept [OF g(1) wf len g(2) _ _ _ _ _ g(6) _ _ g(4)]) (simp_all add: piece)
  ultimately show ?thesis using g(1,2) by auto
qed

text \<open>
  C26. Sampling under a grammar fails no assertion. Whatever tokens were admitted so far, neither masking the
  candidates nor accepting any further piece reaches a \<open>GGML_ASSERT\<close> or \<open>GGML_ABORT\<close>: a
  stack is never left on an end of a rule or inside a class, and there is always a stack to reject with.
\<close>

theorem grammar_never_aborts:
  assumes "reached n E rules start tokens g" and "wf_rules (map copy_rule rules)" and "start < length rules"
  shows "grammar_apply d m E g cur \<noteq> Abort \<and> grammar_accept_str k piece g \<noteq> Abort"
proof -
  note g = reached_ok [OF assms]
  have rejects: "reject_candidates d m (gr_rules g) (gr_stacks g) toks \<noteq> Abort" if "\<forall>tok \<in> set toks. candidate_ok tok" for toks
    using reject_candidates_no_abort [OF _ g(3) _ that] g(1) by (simp add: grammar_ok_def)
  have "reject_candidates d m (gr_rules g) (gr_stacks g) (map (candidate_of E g cur) idx) \<noteq> Abort" for idx
    by (rule rejects) (simp add: candidate_of_ok)
  then have "grammar_apply d m E g cur \<noteq> Abort"
    using g(2) by (simp add: grammar_apply_def apply_steps run_bind_Abort)
  moreover have "grammar_accept_str k piece g \<noteq> Abort"
  proof -
    obtain cs partial where "decode_utf8 piece (gr_partial_utf8 g) = (cs @ [0], partial)"
      using decode_utf8_last [of piece "gr_partial_utf8 g"] by (metis prod.collapse)
    from grammar_accept_str_follows [OF g(1) this, of k] show ?thesis by (cases "grammar_accept_str k piece g") auto
  qed
  ultimately show ?thesis ..
qed

theorem grammar_never_aborts_witness:
  "\<exists>g. reached 3 sample_env sample_rules 0 [1] g \<and> grammar_accept_str 3 ''zz'' g \<noteq> Abort"
proof -
  obtain g where g: "reached 3 sample_env sample_rules 0 [1] g" using sample_apply by blast
  have wf: "wf_rules (map copy_rule sample_rules)" by code_simp
  have len: "0 < length sample_rules" by (simp add: sample_rules_def)
  from grammar_never_aborts [OF g wf len, of 1 1 "[] :: (llama_token \<times> nat option) list" 3 "''zz''"] g show ?thesis by auto
qed

text \<open>
  A negated class rejects a partial character if any continuation is excluded, although others match: under
  \<open>root ::= [^U+00E9]\<close> a token that ends with the first byte of U+00E8 is masked, and U+00E8 matches.
\<close>

lemma negated_class_rejects_partial:
  "let rules = [[elem LLAMA_GRETYPE_CHAR_NOT 0xE9, elem LLAMA_GRETYPE_END 0]] in
     snd (decode_utf8 [CHR 0xC3] \<lparr>pu_value = 0, pu_n_remain = 0\<rparr>) = \<lparr>pu_value = 3, pu_n_remain = 1\<rparr> \<and>
     match_partial_char rules (0, 0) \<lparr>pu_value = 3, pu_n_remain = 1\<rparr> = Ret False \<and>
     fst (decode_utf8 [CHR 0xC3, CHR 0xA8] \<lparr>pu_value = 0, pu_n_remain = 0\<rparr>) = [0xE8, 0] \<and>
     match_char rules (0, 0) 0xE8 = Ret (True, (0, 1))"
  by code_simp

end
