(* ===== verification/Grammar_Termination.thy ===== *)
theory Grammar_Termination
  imports Grammar_Reject
begin

text \<open>
  Why the recursions over a grammar end. The check for left recursion marks a rule at each level, so
  its depth is bounded by the number of rules. The depth of \<open>llama_grammar_advance_stack\<close> has no such
  bound; it ends when the check has found nothing and the check knows all rules that derive the empty
  text. The check only knows those with an empty alternate, and there is a grammar it passes for which
  \<open>llama_grammar_advance_stack\<close> never ends.
\<close>

section \<open>The check for left recursion\<close>

definition refs_ok :: "nat \<Rightarrow> llama_grammar_element list \<Rightarrow> bool" where
  "refs_ok n es = (\<forall>e \<in> set es. ge_type e = LLAMA_GRETYPE_RULE_REF \<longrightarrow> unat (ge_value e) < n)"

lemma refs_ok_Cons [simp]:
  "refs_ok n (e # es) = ((ge_type e = LLAMA_GRETYPE_RULE_REF \<longrightarrow> unat (ge_value e) < n) \<and> refs_ok n es)"
  by (auto simp: refs_ok_def)

lemma wf_elements_refs: "wf_elements n es \<Longrightarrow> refs_ok n es"
proof (induction n es rule: wf_elements.induct)
  case (2 n e es)
  note IH = "2.IH"
  show ?case
  proof (cases "ge_type e = LLAMA_GRETYPE_CHAR \<or> ge_type e = LLAMA_GRETYPE_CHAR_NOT")
    case True
    then have wf: "wf_elements n (snd (char_ranges (e # es)))" using "2.prems"(1) by auto
    then have "es \<noteq> []" by auto
    from char_ranges_chunk [OF this] obtain xs where
      c: "e # es = e # xs @ snd (char_ranges (e # es))"
      "\<forall>x \<in> set xs. ge_type x \<in> {LLAMA_GRETYPE_CHAR_RNG_UPPER, LLAMA_GRETYPE_CHAR_ALT}" by blast
    have "refs_ok n (snd (char_ranges (e # es)))" using IH(3,4) wf True by blast
    then have "refs_ok n (e # xs @ snd (char_ranges (e # es)))" using c(2) True by (auto simp: refs_ok_def)
    then show ?thesis using c(1) by simp
  next
    case False
    show ?thesis using "2.prems" IH(1,2,5) False by (cases "ge_type e") (auto simp: refs_ok_def)
  qed
qed simp

definition state_ok :: "nat \<Rightarrow> recursion_state \<Rightarrow> bool" where
  "state_ok n st = (length (rs_visited st) = n \<and> length (rs_in_progress st) = n \<and> length (rs_may_be_empty st) = n)"

definition unmarked :: "recursion_state \<Rightarrow> nat" where
  "unmarked st = length (filter Not (rs_in_progress st))"

text \<open>The outcome of a call that ends: the state keeps its shape, and without left recursion its marks.\<close>

definition detected :: "nat \<Rightarrow> recursion_state \<Rightarrow> (bool \<times> recursion_state) run \<Rightarrow> bool" where
  "detected n st r =
     (case r of Ret (found, st') \<Rightarrow> state_ok n st' \<and> (\<not> found \<longrightarrow> rs_in_progress st' = rs_in_progress st) | _ \<Rightarrow> False)"

lemma detectedE:
  assumes "detected n st r"
  obtains found st' where "r = Ret (found, st')" "state_ok n st'" "\<not> found \<longrightarrow> rs_in_progress st' = rs_in_progress st"
  using assms by (auto simp: detected_def split: run.splits)

lemma leftmost_loop_detected:
  assumes "\<And>v st. v < n \<Longrightarrow> state_ok n st \<Longrightarrow> unmarked st < k \<Longrightarrow> detected n st (detect v st)"
    and "refs_ok n es" and "state_ok n st" and "unmarked st < k"
  shows "detected n st (leftmost_loop detect es recurse st)"
  using assms(2-)
proof (induction es arbitrary: recurse st)
  case (Cons e es)
  show ?case
  proof (cases "ge_type e = LLAMA_GRETYPE_RULE_REF \<and> recurse")
    case True
    then have "detected n st (detect (unat (ge_value e)) st)" using assms(1) Cons.prems by simp
    then obtain found st1 where st1: "detect (unat (ge_value e)) st = Ret (found, st1)" "state_ok n st1"
      "\<not> found \<longrightarrow> rs_in_progress st1 = rs_in_progress st" by (rule detectedE)
    show ?thesis
    proof (cases found)
      case False
      then have "rs_in_progress st1 = rs_in_progress st" using st1(3) by simp
      moreover from this have "unmarked st1 < k" using Cons.prems(3) by (simp add: unmarked_def)
      moreover have "refs_ok n es" using Cons.prems(1) by simp
      ultimately have "detected n st1 (leftmost_loop detect es (rs_may_be_empty st1 ! unat (ge_value e)) st1)"
        using Cons.IH [OF _ st1(2)] by blast
      then have "detected n st (leftmost_loop detect es (rs_may_be_empty st1 ! unat (ge_value e)) st1)"
        using \<open>rs_in_progress st1 = rs_in_progress st\<close> by (auto simp: detected_def split: run.splits)
      then show ?thesis using True False st1(1) by simp
    qed (use True st1 in \<open>simp add: detected_def\<close>)
  next
    case False
    then show ?thesis using Cons.IH [of st] Cons.prems by auto
  qed
qed (simp add: detected_def)

lemma unmarked_mark:
  assumes "i < length (rs_in_progress st)" and "\<not> rs_in_progress st ! i"
  shows "Suc (unmarked (st\<lparr>rs_in_progress := (rs_in_progress st)[i := True]\<rparr>)) = unmarked st"
proof -
  have "i < length bs \<Longrightarrow> \<not> bs ! i \<Longrightarrow> Suc (length (filter Not (bs[i := True]))) = length (filter Not bs)" for bs
    by (induction bs arbitrary: i) (auto simp: nth_Cons split: nat.splits)
  then show ?thesis using assms by (simp add: unmarked_def)
qed

lemma detect_left_recursion_detected:
  assumes "\<forall>rule \<in> set rules. refs_ok (length rules) rule"
  shows "i < length rules \<Longrightarrow> state_ok (length rules) st \<Longrightarrow> unmarked st < n \<Longrightarrow>
    detected (length rules) st (detect_left_recursion n rules i st)"
proof (induction n arbitrary: i st)
  case (Suc n)
  show ?case
  proof (cases "rs_in_progress st ! i")
    case True
    then show ?thesis using Suc.prems by (simp add: detected_def)
  next
    case False
    let ?st1 = "st\<lparr>rs_in_progress := (rs_in_progress st)[i := True]\<rparr>"
    let ?st = "if has_empty_alternate (rules ! i) True then ?st1\<lparr>rs_may_be_empty := (rs_may_be_empty ?st1)[i := True]\<rparr> else ?st1"
    have "Suc (unmarked ?st1) = unmarked st" using Suc.prems False by (intro unmarked_mark) (auto simp: state_ok_def)
    then have "unmarked ?st < n" using Suc.prems(3) by (simp add: unmarked_def)
    moreover have "state_ok (length rules) ?st" using Suc.prems(2) by (simp add: state_ok_def)
    moreover have "refs_ok (length rules) (rules ! i)" using assms Suc.prems(1) by simp
    ultimately have "detected (length rules) ?st (leftmost_loop (detect_left_recursion n rules) (rules ! i) True ?st)"
      using Suc.IH by (intro leftmost_loop_detected) auto
    then obtain found st2 where loop: "leftmost_loop (detect_left_recursion n rules) (rules ! i) True ?st = Ret (found, st2)"
      "state_ok (length rules) st2" "\<not> found \<longrightarrow> rs_in_progress st2 = rs_in_progress ?st" by (rule detectedE)
    have "(rs_in_progress st)[i := True, i := False] = rs_in_progress st"
      using False by (metis (full_types) list_update_id list_update_overwrite)
    moreover have "rs_in_progress ?st = (rs_in_progress st)[i := True]" by simp
    ultimately show ?thesis using False loop Suc.prems(2) by (auto simp: detected_def Let_def state_ok_def)
  qed
qed simp

lemma check_rules_ends:
  assumes "\<forall>rule \<in> set rules. refs_ok (length rules) rule" and "\<forall>i \<in> set idx. i < length rules"
    and "state_ok (length rules) st" and "unmarked st < n"
  shows "\<exists>found. check_rules n rules idx st = Ret found"
  using assms(2-)
proof (induction idx arbitrary: st)
  case (Cons i js)
  then have "detected (length rules) st (detect_left_recursion n rules i st)"
    by (intro detect_left_recursion_detected [OF assms(1)]) auto
  then obtain found st1 where "detect_left_recursion n rules i st = Ret (found, st1)" "state_ok (length rules) st1"
    "\<not> found \<longrightarrow> rs_in_progress st1 = rs_in_progress st" by (rule detectedE)
  then show ?case using Cons by (cases found) (auto simp: unmarked_def)
qed auto

section \<open>What the check finds\<close>

text \<open>
  The rules that the check takes for possibly empty, the rules on the left of the rest of an alternate
  as far as it looks, and the rules from which that leads to no cycle.
\<close>

definition declared_empty :: "llama_grammar_rules \<Rightarrow> nat \<Rightarrow> bool" where
  "declared_empty rules r = has_empty_alternate (rules ! r) True"

fun left_refs :: "(nat \<Rightarrow> bool) \<Rightarrow> llama_grammar_element list \<Rightarrow> nat set" where
  "left_refs mb [] = {}"
| "left_refs mb (e # es) =
     (if ge_type e = LLAMA_GRETYPE_RULE_REF
      then insert (unat (ge_value e)) (if mb (unat (ge_value e)) then left_refs mb es else {})
      else {})"

definition left_calls :: "llama_grammar_rules \<Rightarrow> nat \<Rightarrow> nat set" where
  "left_calls rules r = (\<Union>p \<in> set (alternates rules r). left_refs (declared_empty rules) (elements_from rules p))"

inductive left_ends :: "llama_grammar_rules \<Rightarrow> nat \<Rightarrow> bool" for rules where
  left_endsI: "(\<And>v. v \<in> left_calls rules r \<Longrightarrow> left_ends rules v) \<Longrightarrow> left_ends rules r"

text \<open>The flags of the check only ever say what is so.\<close>

definition flags_ok :: "llama_grammar_rules \<Rightarrow> recursion_state \<Rightarrow> bool" where
  "flags_ok rules st = (state_ok (length rules) st \<and> (\<forall>j < length rules.
     (rs_may_be_empty st ! j \<longrightarrow> declared_empty rules j) \<and> (rs_visited st ! j \<longrightarrow> left_ends rules j)))"

definition flags_grow :: "recursion_state \<Rightarrow> recursion_state \<Rightarrow> bool" where
  "flags_grow st st' = (\<forall>j. rs_may_be_empty st ! j \<longrightarrow> rs_may_be_empty st' ! j)"

text \<open>The references that the loop over a rule calls: after the start of an alternate, or where it may still look.\<close>

fun loop_refs :: "(nat \<Rightarrow> bool) \<Rightarrow> llama_grammar_element list \<Rightarrow> bool \<Rightarrow> nat set" where
  "loop_refs mb [] recurse = {}"
| "loop_refs mb (e # es) recurse =
     (if ge_type e = LLAMA_GRETYPE_RULE_REF \<and> recurse
      then insert (unat (ge_value e)) (loop_refs mb es (mb (unat (ge_value e))))
      else loop_refs mb es (ge_type e \<in> {LLAMA_GRETYPE_END, LLAMA_GRETYPE_ALT}))"

lemma left_refs_loop: "left_refs mb es \<subseteq> loop_refs mb es True"
proof (induction es)
  case (Cons e es)
  then show ?case by (cases "mb (unat (ge_value e))") auto
qed simp

lemma loop_refs_suffix: "ge_type a = LLAMA_GRETYPE_ALT \<Longrightarrow> loop_refs mb ys True \<subseteq> loop_refs mb (xs @ a # ys) recurse"
  by (induction xs arbitrary: recurse) auto

lemma left_calls_loop:
  assumes "wf_rules rules" and "r < length rules"
  shows "left_calls rules r \<subseteq> loop_refs (declared_empty rules) (rules ! r) True"
proof -
  have wf: "wf_elements (length rules) (rules ! r)" using assms by (simp add: wf_rules_def)
  have "left_refs (declared_empty rules) (elements_from rules p) \<subseteq> loop_refs (declared_empty rules) (rules ! r) True"
    if p: "p \<in> set (alternates rules r)" for p
  proof -
    consider "p = (r, 0)" | xs a ys where "rules ! r = xs @ a # ys" "ge_type a = LLAMA_GRETYPE_ALT" "p = (r, length xs + 1)"
      using p set_alternate_starts [of "rules ! r" 0] wf_elements_end [OF wf] by (auto simp: alternates_def)
    then show ?thesis
    proof cases
      case 1
      then show ?thesis using left_refs_loop by (simp add: elements_from_def)
    next
      case 2
      then have "elements_from rules p = ys" by (simp add: elements_from_def)
      then show ?thesis using left_refs_loop loop_refs_suffix [OF 2(2)] unfolding 2(1) by blast
    qed
  qed
  then show ?thesis by (auto simp: left_calls_def)
qed

lemma leftmost_loop_calls:
  assumes "\<And>v st st'. v < length rules \<Longrightarrow> flags_ok rules st \<Longrightarrow> detect v st = Ret (False, st') \<Longrightarrow>
      flags_ok rules st' \<and> flags_grow st st' \<and> left_ends rules v \<and> rs_may_be_empty st' ! v = declared_empty rules v"
    and "refs_ok (length rules) es" and "flags_ok rules st" and "leftmost_loop detect es recurse st = Ret (False, st')"
  shows "flags_ok rules st' \<and> flags_grow st st' \<and> (\<forall>v \<in> loop_refs (declared_empty rules) es recurse. left_ends rules v)"
  using assms(2-)
proof (induction es arbitrary: recurse st)
  case Nil
  then show ?case by (simp add: flags_grow_def)
next
  case (Cons e es)
  let ?v = "unat (ge_value e)"
  show ?case
  proof (cases "ge_type e = LLAMA_GRETYPE_RULE_REF \<and> recurse")
    case True
    then obtain st1 where st1: "detect ?v st = Ret (False, st1)" "leftmost_loop detect es (rs_may_be_empty st1 ! ?v) st1 = Ret (False, st')"
      using Cons.prems(3) by (auto simp: run_bind_Ret split: if_splits)
    have v: "flags_ok rules st1 \<and> flags_grow st st1 \<and> left_ends rules ?v \<and> rs_may_be_empty st1 ! ?v = declared_empty rules ?v"
      using assms(1) [OF _ Cons.prems(2) st1(1)] True Cons.prems(1) by simp
    moreover have "flags_ok rules st' \<and> flags_grow st1 st' \<and>
        (\<forall>v \<in> loop_refs (declared_empty rules) es (rs_may_be_empty st1 ! ?v). left_ends rules v)"
      by (rule Cons.IH [OF _ _ st1(2)]) (use Cons.prems(1) v in auto)
    ultimately show ?thesis using True by (auto simp: flags_grow_def)
  next
    case False
    then show ?thesis using Cons.IH [of st] Cons.prems by auto
  qed
qed

lemma detect_left_recursion_calls:
  assumes "wf_rules rules"
  shows "i < length rules \<Longrightarrow> flags_ok rules st \<Longrightarrow> detect_left_recursion n rules i st = Ret (False, st') \<Longrightarrow>
    flags_ok rules st' \<and> flags_grow st st' \<and> left_ends rules i \<and> rs_may_be_empty st' ! i = declared_empty rules i"
proof (induction n arbitrary: i st st')
  case (Suc n)
  let ?st1 = "st\<lparr>rs_in_progress := (rs_in_progress st)[i := True]\<rparr>"
  let ?st = "if has_empty_alternate (rules ! i) True then ?st1\<lparr>rs_may_be_empty := (rs_may_be_empty ?st1)[i := True]\<rparr> else ?st1"
  obtain st2 where loop: "leftmost_loop (detect_left_recursion n rules) (rules ! i) True ?st = Ret (False, st2)"
    and st': "st' = st2\<lparr>rs_in_progress := (rs_in_progress st2)[i := False], rs_visited := (rs_visited st2)[i := True]\<rparr>"
  proof -
    have "\<not> rs_in_progress st ! i" using Suc.prems(3) by (auto split: if_splits)
    then have "run_bind (leftmost_loop (detect_left_recursion n rules) (rules ! i) True ?st)
        (\<lambda>(found, st2). if found then Ret (True, st2)
           else Ret (False, st2\<lparr>rs_in_progress := (rs_in_progress st2)[i := False], rs_visited := (rs_visited st2)[i := True]\<rparr>)) = Ret (False, st')"
      using Suc.prems(3) unfolding detect_left_recursion.simps Let_def by simp
    then obtain r where "leftmost_loop (detect_left_recursion n rules) (rules ! i) True ?st = Ret r"
      "(case r of (found, st2) \<Rightarrow> if found then Ret (True, st2)
          else Ret (False, st2\<lparr>rs_in_progress := (rs_in_progress st2)[i := False], rs_visited := (rs_visited st2)[i := True]\<rparr>)) = Ret (False, st')"
      unfolding run_bind_Ret by blast
    then show ?thesis using that by (cases r) (simp split: if_splits)
  qed
  have may: "rs_may_be_empty ?st ! j = (rs_may_be_empty st ! j \<or> (j = i \<and> declared_empty rules i))" for j
    using Suc.prems(1,2) by (cases "j = i") (simp_all add: declared_empty_def flags_ok_def state_ok_def)
  define sti where "sti = ?st"
  have "rs_visited sti = rs_visited st" "state_ok (length rules) sti"
    using Suc.prems(2) by (simp_all add: sti_def flags_ok_def state_ok_def)
  moreover have may: "rs_may_be_empty sti ! j = (rs_may_be_empty st ! j \<or> (j = i \<and> declared_empty rules i))" for j
    using may by (simp only: sti_def)
  ultimately have ok: "flags_ok rules sti" using Suc.prems(2) by (simp add: flags_ok_def)
  have grow: "flags_grow st sti" by (simp add: flags_grow_def may)
  have declared: "declared_empty rules i \<longrightarrow> rs_may_be_empty sti ! i" by (simp add: may)
  note st = ok grow declared
  have refs: "refs_ok (length rules) (rules ! i)" using assms Suc.prems(1) by (simp add: wf_rules_def wf_elements_refs)
  have "flags_ok rules st2 \<and> flags_grow sti st2 \<and>
      (\<forall>v \<in> loop_refs (declared_empty rules) (rules ! i) True. left_ends rules v)"
  proof (rule leftmost_loop_calls [OF _ refs ok])
    show "leftmost_loop (detect_left_recursion n rules) (rules ! i) True sti = Ret (False, st2)"
      using loop unfolding sti_def .
    fix v sta stb
    assume "v < length rules" "flags_ok rules sta" "detect_left_recursion n rules v sta = Ret (False, stb)"
    then show "flags_ok rules stb \<and> flags_grow sta stb \<and> left_ends rules v \<and> rs_may_be_empty stb ! v = declared_empty rules v"
      by (rule Suc.IH)
  qed
  then have st2: "flags_ok rules st2" "flags_grow sti st2" "\<forall>v \<in> loop_refs (declared_empty rules) (rules ! i) True. left_ends rules v"
    by blast+
  have "left_ends rules i"
    using left_calls_loop [OF assms Suc.prems(1)] st2(3) by (rule_tac left_endsI) blast
  moreover from this have "flags_ok rules st'"
    using st2(1) st' Suc.prems(1) by (auto simp: flags_ok_def state_ok_def nth_list_update)
  moreover have "rs_may_be_empty st' ! i = declared_empty rules i"
    using st(3) st2(1,2) Suc.prems(1) by (auto simp: flags_grow_def flags_ok_def st')
  ultimately show ?case using st(2) st2(2) by (auto simp: flags_grow_def st')
qed simp

lemma check_rules_calls:
  "wf_rules rules \<Longrightarrow> \<forall>i \<in> set idx. i < length rules \<Longrightarrow> flags_ok rules st \<Longrightarrow> check_rules n rules idx st = Ret False \<Longrightarrow>
   \<forall>i \<in> set idx. left_ends rules i"
proof (induction idx arbitrary: st)
  case (Cons i js)
  show ?case
  proof (cases "rs_visited st ! i")
    case True
    then show ?thesis using Cons by (auto simp: flags_ok_def)
  next
    case False
    then obtain st1 where "detect_left_recursion n rules i st = Ret (False, st1)" "check_rules n rules js st1 = Ret False"
      using Cons.prems(4) by (auto simp: run_bind_Ret split: if_splits)
    then show ?thesis using Cons detect_left_recursion_calls [OF Cons.prems(1), of i st n st1] by auto
  qed
qed simp

lemma left_recursive_calls:
  assumes "wf_rules rules" and "left_recursive n rules = Ret False" and "i < length rules"
  shows "left_ends rules i"
proof -
  let ?none = "replicate (length rules) False"
  let ?st = "\<lparr>rs_visited = ?none, rs_in_progress = ?none, rs_may_be_empty = ?none\<rparr>"
  have "flags_ok rules ?st" by (simp add: flags_ok_def state_ok_def)
  moreover have "check_rules n rules [0..<length rules] ?st = Ret False" using assms(2) by (simp add: left_recursive_def Let_def)
  ultimately have "\<forall>i \<in> set [0..<length rules]. left_ends rules i" by (intro check_rules_calls [OF assms(1)]) auto
  then show ?thesis using assms(3) by simp
qed

section \<open>Advancing ends\<close>

lemma run_fold_mono:
  "run_fold f ys x \<noteq> Too_Deep \<Longrightarrow> (\<And>y x. y \<in> set ys \<Longrightarrow> f y x \<noteq> Too_Deep \<Longrightarrow> g y x = f y x) \<Longrightarrow> run_fold g ys x = run_fold f ys x"
proof (induction ys arbitrary: x)
  case (Cons y ys)
  then have y: "f y x \<noteq> Too_Deep" by (cases "f y x") auto
  then have "g y x = f y x" using Cons.prems(2) by simp
  then show ?case using Cons y by (cases "f y x") auto
qed simp

lemma run_fold_ends: "(\<And>y x. y \<in> set ys \<Longrightarrow> f y x \<noteq> Too_Deep) \<Longrightarrow> run_fold f ys x \<noteq> Too_Deep"
proof (induction ys arbitrary: x)
  case (Cons y ys)
  then show ?case by (cases "f y x") (auto dest: Cons.prems)
qed simp

lemma advance_stack_mono:
  "advance_stack n rules stack ns \<noteq> Too_Deep \<Longrightarrow> n \<le> m \<Longrightarrow> advance_stack m rules stack ns = advance_stack n rules stack ns"
proof (induction n arbitrary: m stack ns)
  case (Suc n)
  then obtain k where m: "m = Suc k" "n \<le> k" by (cases m) auto
  consider "stack = [] \<or> is_char (ge_type (element_at rules (last stack)))"
    | "stack \<noteq> []" "ge_type (element_at rules (last stack)) = LLAMA_GRETYPE_RULE_REF"
    | "stack \<noteq> []" "\<not> is_char (ge_type (element_at rules (last stack)))" "ge_type (element_at rules (last stack)) \<noteq> LLAMA_GRETYPE_RULE_REF"
    by blast
  then show ?case
  proof cases
    case 2
    show ?thesis using Suc.prems(1) unfolding m advance_ref [OF 2]
      by (rule run_fold_mono) (rule Suc.IH [OF _ m(2)])
  qed (simp_all add: m advance_stop advance_abort del: advance_stack.simps)
qed simp

text \<open>There is a depth that is enough, whatever stacks were found before.\<close>

definition advance_ends :: "llama_grammar_rules \<Rightarrow> llama_grammar_stack \<Rightarrow> bool" where
  "advance_ends rules stack = (\<exists>n. \<forall>ns. advance_stack n rules stack ns \<noteq> Too_Deep)"

lemma common_depth:
  assumes "\<And>y. y \<in> set ys \<Longrightarrow> \<exists>n :: nat. P n y" and "\<And>n m y. P n y \<Longrightarrow> n \<le> m \<Longrightarrow> P m y"
  shows "\<exists>n. \<forall>y \<in> set ys. P n y"
  using assms(1)
proof (induction ys)
  case (Cons y ys)
  then obtain n k where "\<forall>y \<in> set ys. P n y" "P k y" by (metis list.set_intros)
  then have "\<forall>z \<in> set (y # ys). P (max n k) z" using assms(2) by (metis max.cobounded1 max.cobounded2 set_ConsD)
  then show ?case by blast
qed simp

lemma advance_ends_mono: "\<forall>ns. advance_stack n rules stack ns \<noteq> Too_Deep \<Longrightarrow> n \<le> m \<Longrightarrow> \<forall>ns. advance_stack m rules stack ns \<noteq> Too_Deep"
  using advance_stack_mono by metis

lemma advance_ends_stop: "stack = [] \<or> is_char (ge_type (element_at rules (last stack))) \<Longrightarrow> advance_ends rules stack"
  unfolding advance_ends_def by (rule exI [of _ 1]) (metis One_nat_def advance_stop run.distinct(3))

lemma advance_ends_ref:
  assumes "stack \<noteq> []" and "ge_type (element_at rules (last stack)) = LLAMA_GRETYPE_RULE_REF"
    and "\<And>p. p \<in> set (alternates rules (unat (ge_value (element_at rules (last stack))))) \<Longrightarrow>
      advance_ends rules (push_pos rules p (push_pos rules (succ_pos (last stack)) (butlast stack)))"
  shows "advance_ends rules stack"
proof -
  let ?ps = "alternates rules (unat (ge_value (element_at rules (last stack))))"
  let ?next = "\<lambda>p. push_pos rules p (push_pos rules (succ_pos (last stack)) (butlast stack))"
  have "\<exists>n. \<forall>p \<in> set ?ps. \<forall>ns. advance_stack n rules (?next p) ns \<noteq> Too_Deep"
  proof (rule common_depth)
    show "\<exists>n. \<forall>ns. advance_stack n rules (?next p) ns \<noteq> Too_Deep" if "p \<in> set ?ps" for p
      using assms(3) [OF that] by (simp add: advance_ends_def)
  qed (rule advance_ends_mono)
  then obtain n where "\<forall>p \<in> set ?ps. \<forall>ns. advance_stack n rules (?next p) ns \<noteq> Too_Deep" by blast
  then have "advance_stack (Suc n) rules stack ns \<noteq> Too_Deep" for ns
    unfolding advance_ref [OF assms(1,2)] by (intro run_fold_ends) blast
  then show ?thesis unfolding advance_ends_def by blast
qed

text \<open>The rest of an alternate that the check takes for empty.\<close>

fun rest_empty :: "(nat \<Rightarrow> bool) \<Rightarrow> llama_grammar_element list \<Rightarrow> bool" where
  "rest_empty mb [] = False"
| "rest_empty mb (e # es) =
     (if ge_type e = LLAMA_GRETYPE_RULE_REF then mb (unat (ge_value e)) \<and> rest_empty mb es
      else ge_type e \<in> {LLAMA_GRETYPE_END, LLAMA_GRETYPE_ALT})"

text \<open>A rule may be called above any stack that its caller can get back to.\<close>

definition callable :: "llama_grammar_rules \<Rightarrow> nat \<Rightarrow> bool" where
  "callable rules r = (\<forall>rest. (declared_empty rules r \<longrightarrow> advance_ends rules rest) \<longrightarrow>
     (\<forall>p \<in> set (alternates rules r). advance_ends rules (push_pos rules p rest)))"

lemma advance_ends_push:
  "pos_ok rules q \<Longrightarrow> \<forall>v \<in> left_refs (declared_empty rules) (elements_from rules q). callable rules v \<Longrightarrow>
   (rest_empty (declared_empty rules) (elements_from rules q) \<Longrightarrow> advance_ends rules rest) \<Longrightarrow>
   advance_ends rules (push_pos rules q rest)"
proof (induction "length (elements_from rules q)" arbitrary: q rule: less_induct)
  case less
  from pos_ok_cases [OF less.prems(1)] obtain e es where
    e: "elements_from rules q = e # es" "element_at rules q = e" "wf_elements (length rules) (e # es)" "elements_from rules (succ_pos q) = es"
    by metis
  consider "is_end_of_sequence rules q" | "is_char (ge_type e)" | "ge_type e = LLAMA_GRETYPE_RULE_REF"
    using e(2,3) by (cases "ge_type e") (auto simp: is_end_of_sequence_def is_char_def)
  then show ?case
  proof cases
    case 1
    then have "rest_empty (declared_empty rules) (elements_from rules q)" using e(1,2) by (auto simp: is_end_of_sequence_def)
    then show ?thesis using less.prems(3) 1 by (simp add: push_pos_def)
  next
    case 2
    then have "\<not> is_end_of_sequence rules q" using e(2) by (auto simp: is_end_of_sequence_def is_char_def)
    then show ?thesis using 2 e(2) by (simp add: push_pos_def advance_ends_stop)
  next
    case 3
    let ?v = "unat (ge_value e)"
    have not_end: "\<not> is_end_of_sequence rules q" using e(2) 3 by (simp add: is_end_of_sequence_def)
    have "advance_ends rules (push_pos rules (succ_pos q) rest)" if "declared_empty rules ?v"
    proof (rule less.hyps)
      show "pos_ok rules (succ_pos q)" using succ_pos_ok [OF less.prems(1)] e(2) 3 by simp
    qed (use less.prems(2,3) e(1,4) 3 that in auto)
    moreover have "callable rules ?v" using less.prems(2) e(1) 3 by simp
    ultimately have "\<forall>p \<in> set (alternates rules ?v). advance_ends rules (push_pos rules p (push_pos rules (succ_pos q) rest))"
      by (simp add: callable_def)
    then show ?thesis using not_end e(2) 3 by (auto simp: push_pos_def [of rules q] intro: advance_ends_ref)
  qed
qed

text \<open>
  The check knows the rules that derive the empty text if each of them has an empty alternate.
\<close>

definition empties_declared :: "llama_grammar_rules \<Rightarrow> bool" where
  "empties_declared rules = (\<forall>r < length rules. derives rules [Rule r] [] \<longrightarrow> declared_empty rules r)"

lemma has_empty_alternate_suffix:
  "has_empty_alternate es b \<Longrightarrow> (b \<and> es \<noteq> [] \<and> ge_type (hd es) \<in> {LLAMA_GRETYPE_END, LLAMA_GRETYPE_ALT}) \<or>
     (\<exists>xs a y ys. es = xs @ a # y # ys \<and> ge_type a \<in> {LLAMA_GRETYPE_END, LLAMA_GRETYPE_ALT} \<and> ge_type y \<in> {LLAMA_GRETYPE_END, LLAMA_GRETYPE_ALT})"
proof (induction es b rule: has_empty_alternate.induct)
  case (2 e es b)
  show ?case
  proof (cases "ge_type e \<in> {LLAMA_GRETYPE_END, LLAMA_GRETYPE_ALT}")
    case True
    show ?thesis
    proof (cases b)
      case False
      then have "has_empty_alternate es True" using "2.prems" True by simp
      from "2.IH"(1) [OF True this] show ?thesis
      proof
        assume "True \<and> es \<noteq> [] \<and> ge_type (hd es) \<in> {LLAMA_GRETYPE_END, LLAMA_GRETYPE_ALT}"
        then have "e # es = [] @ e # hd es # tl es" "ge_type (hd es) \<in> {LLAMA_GRETYPE_END, LLAMA_GRETYPE_ALT}" by auto
        then show ?thesis using True by blast
      qed (metis append_Cons)
    qed (use True in simp)
  next
    case False
    then have "has_empty_alternate es False" using "2.prems" by simp
    from "2.IH"(2) [OF False this] show ?thesis by (metis append_Cons)
  qed
qed simp

lemma declared_empty_derives:
  assumes "wf_rules rules" and "r < length rules" and "declared_empty rules r"
  shows "derives rules [Rule r] []"
proof -
  have wf: "wf_elements (length rules) (rules ! r)" using assms(1,2) by (simp add: wf_rules_def)
  have "[] \<in> productions rules r"
    using has_empty_alternate_suffix [OF assms(3) [unfolded declared_empty_def]]
  proof (elim disjE conjE exE)
    assume "rules ! r \<noteq> []" "ge_type (hd (rules ! r)) \<in> {LLAMA_GRETYPE_END, LLAMA_GRETYPE_ALT}"
    then have "symbols_of (rules ! r) = []" by (cases "rules ! r") auto
    then show ?thesis unfolding productions_def by force
  next
    fix xs a y ys
    assume at: "rules ! r = xs @ a # y # ys" "ge_type a \<in> {LLAMA_GRETYPE_END, LLAMA_GRETYPE_ALT}"
      "ge_type y \<in> {LLAMA_GRETYPE_END, LLAMA_GRETYPE_ALT}"
    have "a \<in> set (butlast (rules ! r))" using at(1) by (simp add: butlast_append)
    then have "ge_type a = LLAMA_GRETYPE_ALT" using wf_elements_end [OF wf] at(2) by auto
    moreover have "symbols_of (y # ys) = []" using at(3) by auto
    ultimately show ?thesis using at(1) unfolding productions_def by (smt (verit) mem_Collect_eq)
  qed
  from derives.Ref [OF this derives.Nil derives.Nil] show ?thesis by simp
qed

lemma rest_empty_derives:
  "refs_ok (length rules) es \<Longrightarrow> rest_empty mb es \<Longrightarrow> (\<And>v. v < length rules \<Longrightarrow> mb v \<Longrightarrow> derives rules [Rule v] []) \<Longrightarrow>
   derives rules (symbols_of es) []"
proof (induction es)
  case (Cons e es)
  show ?case
  proof (cases "ge_type e = LLAMA_GRETYPE_RULE_REF")
    case True
    then have "derives rules [Rule (unat (ge_value e))] []" "derives rules (symbols_of es) []" using Cons by auto
    from derives_append1 [OF this] show ?thesis using True by simp
  qed (use Cons.prems(2) in \<open>auto intro: derives.Nil\<close>)
qed simp

lemma left_refs_bound: "refs_ok n es \<Longrightarrow> v \<in> left_refs mb es \<Longrightarrow> v < n"
  by (induction es) (auto split: if_splits)

lemma callable_rule:
  assumes "left_ends rules r" and "wf_rules rules" and "empties_declared rules" and "r < length rules"
  shows "callable rules r"
  using assms(1,4)
proof (induction rule: left_ends.induct)
  case (left_endsI r)
  note alts = alternates_ok [OF assms(2) left_endsI.prems]
  show ?case unfolding callable_def
  proof (intro allI impI ballI)
    fix rest p
    assume rest: "declared_empty rules r \<longrightarrow> advance_ends rules rest" and p: "p \<in> set (alternates rules r)"
    have ok: "pos_ok rules p" using alts(1) p by simp
    then have refs: "refs_ok (length rules) (elements_from rules p)" by (simp add: pos_ok_def wf_elements_refs)
    show "advance_ends rules (push_pos rules p rest)"
    proof (rule advance_ends_push [OF ok])
      show "\<forall>v \<in> left_refs (declared_empty rules) (elements_from rules p). callable rules v"
        using left_endsI.IH left_refs_bound [OF refs] p by (auto simp: left_calls_def)
      assume "rest_empty (declared_empty rules) (elements_from rules p)"
      then have "derives rules (symbols_at rules p) []"
        unfolding symbols_at_def by (rule rest_empty_derives [OF refs]) (rule declared_empty_derives [OF assms(2)])
      moreover have "symbols_at rules p \<in> productions rules r" using alts(2) p by blast
      ultimately have "derives rules [Rule r] []" using derives.Ref [of _ rules r "[]" "[]" "[]"] derives.Nil by simp
      then show "advance_ends rules rest" using rest assms(3) left_endsI.prems by (simp add: empties_declared_def)
    qed
  qed
qed

lemma advance_stack_ends:
  assumes "wf_rules rules" and "empties_declared rules" and "left_recursive k rules = Ret False" and "stack_ok rules stack"
  shows "advance_ends rules stack"
  using assms(4)
proof (induction stack rule: rev_induct)
  case Nil
  then show ?case by (simp add: advance_ends_stop)
next
  case (snoc q rest)
  have ok: "pos_ok rules q" "\<not> is_end_of_sequence rules q" and rest: "stack_ok rules rest"
    using snoc.prems by (auto simp: stack_ok_def)
  have "refs_ok (length rules) (elements_from rules q)" using ok(1) by (simp add: pos_ok_def wf_elements_refs)
  then have "\<forall>v \<in> left_refs (declared_empty rules) (elements_from rules q). callable rules v"
    using callable_rule [OF left_recursive_calls [OF assms(1,3)] assms(1,2)] left_refs_bound by blast
  from advance_ends_push [OF ok(1) this snoc.IH [OF rest]] show ?case using ok(2) by (simp add: push_pos_def)
qed

section \<open>Accepting ends\<close>

lemma accept_stack_mono:
  assumes "n \<le> m" and "accept_stack n rules c stack ns \<noteq> Too_Deep"
  shows "accept_stack m rules c stack ns = accept_stack n rules c stack ns"
proof (cases "stack = []")
  case False
  with assms(2) show ?thesis
    by (cases "match_char rules (last stack) c") (auto simp: accept_stack_def intro!: advance_stack_mono assms(1))
qed (simp add: accept_stack_def)

lemma accept_stacks_mono:
  "n \<le> m \<Longrightarrow> accept_stacks n rules c stacks \<noteq> Too_Deep \<Longrightarrow> accept_stacks m rules c stacks = accept_stacks n rules c stacks"
  unfolding accept_stacks_def by (erule run_fold_mono) (rule accept_stack_mono)

lemma accept_stacks_ends:
  assumes adv: "\<And>stack. stack_ok rules stack \<Longrightarrow> advance_ends rules stack" and "all_ready rules stacks"
  shows "\<exists>n. accept_stacks n rules c stacks \<noteq> Too_Deep"
proof -
  have "\<exists>n. \<forall>stack \<in> set stacks. \<forall>ns. accept_stack n rules c stack ns \<noteq> Too_Deep"
  proof (rule common_depth)
    fix stack assume "stack \<in> set stacks"
    then have ready: "ready rules stack" using assms(2) by (simp add: all_ready_def)
    show "\<exists>n. \<forall>ns. accept_stack n rules c stack ns \<noteq> Too_Deep"
      using adv [OF stack_after_ok [OF ready]] unfolding accept_stack_ready [OF ready] advance_ends_def by auto
  qed (use accept_stack_mono in metis)
  then obtain n where "\<forall>stack \<in> set stacks. \<forall>ns. accept_stack n rules c stack ns \<noteq> Too_Deep" by blast
  then have "run_fold (accept_stack n rules c) stacks [] \<noteq> Too_Deep" by (intro run_fold_ends) blast
  then show ?thesis unfolding accept_stacks_def by blast
qed

lemma grammar_accept_mono:
  "n \<le> m \<Longrightarrow> grammar_accept n c g \<noteq> Too_Deep \<Longrightarrow> grammar_accept m c g = grammar_accept n c g"
  using accept_stacks_mono [of n m "gr_rules g" c "gr_stacks g"]
  by (cases "accept_stacks n (gr_rules g) c (gr_stacks g)") (auto simp: grammar_accept_def)

lemma grammar_accept_all_ends:
  assumes adv: "\<And>stack. stack_ok (gr_rules g) stack \<Longrightarrow> advance_ends (gr_rules g) stack" and "grammar_ok g"
  shows "\<exists>n g'. run_fold (grammar_accept n) cs g = Ret g'"
  using assms
proof (induction cs arbitrary: g)
  case (Cons c cs)
  obtain n where "accept_stacks n (gr_rules g) c (gr_stacks g) \<noteq> Too_Deep"
    using accept_stacks_ends Cons.prems by (metis grammar_ok_def)
  then have "grammar_accept n c g \<noteq> Too_Deep" by (cases "accept_stacks n (gr_rules g) c (gr_stacks g)") (auto simp: grammar_accept_def)
  then obtain g1 where g1: "grammar_accept n c g = Ret g1" "follows g [c] g1"
    using grammar_accept_follows [OF Cons.prems(2), of n c] by (cases "grammar_accept n c g") auto
  then obtain k g' where g': "run_fold (grammar_accept k) cs g1 = Ret g'"
    using Cons.IH [of g1] Cons.prems(1) by (auto simp: follows_def)
  have "grammar_accept (max n k) c g = Ret g1" using grammar_accept_mono [of n "max n k" c g] g1(1) by simp
  moreover have "run_fold (grammar_accept (max n k)) cs g1 = run_fold (grammar_accept k) cs g1"
    using g' by (intro run_fold_mono grammar_accept_mono) auto
  ultimately show ?case using g' by (intro exI [of _ "max n k"] exI [of _ g']) simp
qed auto

lemma grammar_accept_str_ends:
  assumes "\<And>stack. stack_ok (gr_rules g) stack \<Longrightarrow> advance_ends (gr_rules g) stack" and "grammar_ok g"
  shows "\<exists>n ok g'. grammar_accept_str n piece g = Ret (ok, g')"
proof -
  obtain cs partial where dec: "decode_utf8 piece (gr_partial_utf8 g) = (cs @ [0], partial)"
    using decode_utf8_last [of piece "gr_partial_utf8 g"] by (metis prod.collapse)
  obtain n g' where "run_fold (grammar_accept n) cs g = Ret g'" using grammar_accept_all_ends [OF assms] by blast
  then show ?thesis by (intro exI [of _ n]) (simp add: grammar_accept_str_def dec Let_def)
qed

section \<open>Rejecting ends\<close>

lemma run_fold_ends_inv:
  assumes "\<And>y x. y \<in> set ys \<Longrightarrow> I x \<Longrightarrow> f y x \<noteq> Too_Deep" and "\<And>y x x'. y \<in> set ys \<Longrightarrow> I x \<Longrightarrow> f y x = Ret x' \<Longrightarrow> I x'" and "I x"
  shows "run_fold f ys x \<noteq> Too_Deep"
  using assms
proof (induction ys arbitrary: x)
  case (Cons y ys)
  have "run_fold f ys x1 \<noteq> Too_Deep" if "f y x = Ret x1" for x1
    by (rule Cons.IH) (use Cons.prems that in \<open>auto, blast+\<close>)
  moreover have "f y x \<noteq> Too_Deep" using Cons.prems(1,3) by simp
  ultimately show ?case by (cases "f y x") auto
qed simp

text \<open>Candidates with at most so many code points left.\<close>

definition candidates_within :: "nat \<Rightarrow> llama_grammar_candidate list \<Rightarrow> bool" where
  "candidates_within L toks = (\<forall>tok \<in> set toks. candidate_ok tok \<and> length (candidate_text tok) \<le> L)"

lemma continues_within:
  assumes "candidates_within L toks"
  shows "L = 0 \<Longrightarrow> filter (split_continues rules stack) toks = []"
    and "L = Suc K \<Longrightarrow> candidates_within K (map advance_candidate (filter (split_continues rules stack) toks))"
proof -
  have tok: "candidate_ok (advance_candidate tok) \<and> length (candidate_text tok) = Suc (length (candidate_text (advance_candidate tok)))"
    if "tok \<in> set toks" "split_continues rules stack tok" for tok
    using that assms candidate_text_cases [of tok] by (simp add: candidates_within_def split_continues_def)
  show "L = 0 \<Longrightarrow> filter (split_continues rules stack) toks = []"
    using tok assms by (fastforce simp: candidates_within_def filter_empty_conv)
  show "L = Suc K \<Longrightarrow> candidates_within K (map advance_candidate (filter (split_continues rules stack) toks))"
    using tok assms by (fastforce simp: candidates_within_def)
qed

lemma reject_for_stack_ends:
  assumes rules: "wf_rules rules" and ready: "ready rules stack"
    and adv: "\<And>stack. stack_ok rules stack \<Longrightarrow> advance_ends rules stack"
    and deeper: "\<And>stacks K. L = Suc K \<Longrightarrow> all_ready rules stacks \<Longrightarrow> stacks \<noteq> [] \<Longrightarrow>
      \<exists>n. \<forall>m \<ge> n. \<forall>toks. candidates_within K toks \<longrightarrow> reject_candidates (K + 2) m rules stacks toks \<noteq> Too_Deep"
  shows "\<exists>n. \<forall>m \<ge> n. \<forall>toks. candidates_within L toks \<longrightarrow>
    reject_for_stack (reject_candidates (L + 1) m rules) m rules stack toks \<noteq> Too_Deep"
proof (cases "stack = []")
  case False
  note at = match_char_at [OF conjunct1 [OF ready_last [OF ready False]] conjunct2 [OF ready_last [OF ready False]]]
  obtain n where n: "advance_stack n rules (stack_after rules stack) [] \<noteq> Too_Deep"
    using adv [OF stack_after_ok [OF ready False]] by (auto simp: advance_ends_def)
  have "run_ok (advance_stack n rules (stack_after rules stack) []) (extends rules [] (derives rules (stack_symbols rules (stack_after rules stack))))"
    by (rule advance_stack_extends [OF rules stack_after_ok [OF ready False]]) (simp add: all_ready_def)
  with n obtain ns where ns: "advance_stack n rules (stack_after rules stack) [] = Ret ns" "all_ready rules ns"
    by (cases "advance_stack n rules (stack_after rules stack) []") (auto simp: extends_def)
  have ns_nonempty: "ns \<noteq> []" using advance_stack_nonempty [OF ns(1)] .
  have advance: "advance_stack m rules (stack_after rules stack) [] = Ret ns" if "n \<le> m" for m
    using advance_stack_mono [OF n that] ns(1) by simp
  have step: "reject_for_stack (reject_candidates (L + 1) m rules) m rules stack toks \<noteq> Too_Deep"
    if "n \<le> m" "reject_candidates (L + 1) m rules ns (map advance_candidate (filter (split_continues rules stack) toks)) \<noteq> Too_Deep" for m toks
    using that(2) False
    by (cases "reject_candidates (L + 1) m rules ns (map advance_candidate (filter (split_continues rules stack) toks))")
       (simp_all add: reject_for_stack_def reject_split_fold [OF ready False] at(1) stack_after_def [symmetric] advance [OF that(1)])
  show ?thesis
  proof (cases L)
    case 0
    have "reject_candidates (L + 1) m rules ns (map advance_candidate (filter (split_continues rules stack) toks)) \<noteq> Too_Deep"
      if "candidates_within L toks" for m toks
      using continues_within(1) [OF that 0] ns_nonempty 0 by simp
    then show ?thesis using step by blast
  next
    case (Suc K)
    then obtain k where k: "\<forall>m \<ge> k. \<forall>toks. candidates_within K toks \<longrightarrow> reject_candidates (K + 2) m rules ns toks \<noteq> Too_Deep"
      using deeper [OF Suc ns(2) ns_nonempty] by blast
    have "reject_for_stack (reject_candidates (L + 1) m rules) m rules stack toks \<noteq> Too_Deep"
      if "max n k \<le> m" "candidates_within L toks" for m toks
      using step [of m toks] k continues_within(2) [OF that(2) Suc] that(1) Suc by simp
    then show ?thesis by blast
  qed
qed (simp add: reject_for_stack_def)

lemma reject_candidates_ends:
  assumes rules: "wf_rules rules" and adv: "\<And>stack. stack_ok rules stack \<Longrightarrow> advance_ends rules stack"
  shows "all_ready rules stacks \<Longrightarrow> stacks \<noteq> [] \<Longrightarrow>
    \<exists>n. \<forall>m \<ge> n. \<forall>toks. candidates_within L toks \<longrightarrow> reject_candidates (L + 2) m rules stacks toks \<noteq> Too_Deep"
proof (induction L arbitrary: stacks rule: less_induct)
  case (less L)
  let ?f = "\<lambda>m stack toks. reject_for_stack (reject_candidates (L + 1) m rules) m rules stack toks"
  have "\<exists>n. \<forall>stack \<in> set stacks. \<forall>m \<ge> n. \<forall>toks. candidates_within L toks \<longrightarrow> ?f m stack toks \<noteq> Too_Deep"
  proof (rule common_depth)
    fix stack assume "stack \<in> set stacks"
    then have "ready rules stack" using less.prems(1) by (simp add: all_ready_def)
    then show "\<exists>n. \<forall>m \<ge> n. \<forall>toks. candidates_within L toks \<longrightarrow> ?f m stack toks \<noteq> Too_Deep"
      using less.IH by (intro reject_for_stack_ends rules adv) auto
  qed (meson order_trans)
  then obtain n where n: "\<forall>stack \<in> set stacks. \<forall>m \<ge> n. \<forall>toks. candidates_within L toks \<longrightarrow> ?f m stack toks \<noteq> Too_Deep" by blast
  have "reject_candidates (L + 2) m rules stacks toks \<noteq> Too_Deep" if "n \<le> m" "candidates_within L toks" for m toks
  proof -
    have "run_fold (?f m) stacks toks \<noteq> Too_Deep"
    proof (rule run_fold_ends_inv [where I = "candidates_within L"])
      fix stack toks rejects
      assume st: "stack \<in> set stacks" and toks: "candidates_within L toks" and ret: "?f m stack toks = Ret rejects"
      have "rejects_exactly (rejected_by rules stack) toks rejects"
      proof (rule reject_for_stack_exact [OF _ rules _ _ ret])
        show "ready rules stack" "\<forall>tok \<in> set toks. candidate_ok tok"
          using less.prems(1) st toks by (auto simp: all_ready_def candidates_within_def)
      qed (rule reject_candidates_exact [OF rules])
      then show "candidates_within L rejects" using toks by (simp add: rejects_exactly_def candidates_within_def)
    qed (use n that in auto)
    then show ?thesis using less.prems(2) by simp
  qed
  then show ?case by blast
qed

section \<open>Sampling ends\<close>

lemma left_recursive_ends:
  assumes "wf_rules rules" and "length rules < n"
  shows "\<exists>found. left_recursive n rules = Ret found"
proof -
  let ?none = "replicate (length rules) False"
  have "\<exists>found. check_rules n rules [0..<length rules] \<lparr>rs_visited = ?none, rs_in_progress = ?none, rs_may_be_empty = ?none\<rparr> = Ret found"
    using assms by (intro check_rules_ends) (auto simp: wf_rules_def wf_elements_refs state_ok_def unmarked_def)
  then show ?thesis by (simp add: left_recursive_def Let_def)
qed

lemma initial_stacks_end:
  assumes rules: "wf_rules rules" "start < length rules" and adv: "\<And>stack. stack_ok rules stack \<Longrightarrow> advance_ends rules stack"
  shows "\<exists>n. \<forall>m \<ge> n. \<exists>stacks. initial_stacks m rules start = Ret stacks"
proof -
  have "\<exists>n. \<forall>p \<in> set (alternates rules start). \<forall>ns. advance_stack n rules (push_pos rules p []) ns \<noteq> Too_Deep"
  proof (rule common_depth)
    fix p assume "p \<in> set (alternates rules start)"
    then have "stack_ok rules (push_pos rules p [])"
      using alternates_ok(1) [OF rules] by (intro stack_ok_push) (auto simp: stack_ok_def)
    from adv [OF this] show "\<exists>n. \<forall>ns. advance_stack n rules (push_pos rules p []) ns \<noteq> Too_Deep" by (simp add: advance_ends_def)
  qed (rule advance_ends_mono)
  then obtain n where n: "\<forall>p \<in> set (alternates rules start). \<forall>ns. advance_stack n rules (push_pos rules p []) ns \<noteq> Too_Deep" by blast
  have "\<exists>stacks. initial_stacks m rules start = Ret stacks" if "n \<le> m" for m
  proof -
    have "initial_stacks m rules start \<noteq> Too_Deep"
      unfolding initial_stacks_def using n advance_ends_mono [OF _ that] by (intro run_fold_ends) blast
    moreover have "initial_stacks m rules start \<noteq> Abort" using initial_stacks_ok [OF rules, of m] by (cases "initial_stacks m rules start") auto
    ultimately show ?thesis by (cases "initial_stacks m rules start") auto
  qed
  then show ?thesis by blast
qed

lemma grammar_init_ends:
  assumes "wf_rules (map copy_rule rules)" and "start < length rules" and "empties_declared (map copy_rule rules)"
  shows "\<exists>n r. grammar_init n rules start lazy patterns tokens = Ret r"
proof -
  let ?rules = "map copy_rule rules" and ?N = "length rules + 1"
  obtain found where found: "left_recursive ?N ?rules = Ret found" using left_recursive_ends [OF assms(1)] by auto
  show ?thesis
  proof (cases found)
    case True
    then show ?thesis using found by (intro exI [of _ ?N] exI [of _ None]) (simp add: grammar_init_def Let_def)
  next
    case False
    then have "\<exists>n. \<forall>m \<ge> n. \<exists>stacks. initial_stacks m ?rules start = Ret stacks"
      using initial_stacks_end [OF assms(1)] advance_stack_ends [OF assms(1,3)] found assms(2) by simp
    then obtain n where n: "\<forall>m \<ge> n. \<exists>stacks. initial_stacks m ?rules start = Ret stacks" by blast
    let ?M = "max ?N n"
    obtain found2 where "left_recursive ?M ?rules = Ret found2" using left_recursive_ends [OF assms(1), of ?M] by (auto simp: less_max_iff_disj)
    moreover obtain stacks where "initial_stacks ?M ?rules start = Ret stacks" using n by (metis max.cobounded2)
    ultimately show ?thesis by (intro exI [of _ ?M]) (auto simp: grammar_init_def Let_def)
  qed
qed

lemma grammar_init_checked:
  "grammar_init n rules start lazy patterns tokens = Ret (Some g) \<Longrightarrow> left_recursive n (map copy_rule rules) = Ret False"
  by (auto simp: grammar_init_def Let_def run_bind_Ret split: if_splits)

lemma reached_rules:
  assumes "reached n E rules start tokens g" and "wf_rules (map copy_rule rules)" and "start < length rules"
  shows "gr_rules g = map copy_rule rules"
proof -
  obtain g0 where g0: "grammar_init n rules start False [] [] = Ret (Some g0)" "accept_tokens n E tokens g0 = Ret (True, g)"
      "list_all (\<lambda>t. \<not> en_is_eog E t) tokens"
    using assms(1) by (auto simp: reached_def split: run.splits option.splits)
  have "accept_pieces n (map (en_piece E) tokens) g0 = Ret (True, g)"
    using g0(2,3) grammar_init_awaiting [OF g0(1)] accept_tokens_pieces by metis
  moreover have "grammar_ok g0" "gr_rules g0 = map copy_rule rules"
    using grammar_init_starts [OF g0(1) assms(2,3)] by (simp_all add: starts_at_def)
  ultimately show ?thesis using accept_pieces_follows [OF _ refl, of g0 n "map (en_piece E) tokens"] by (simp add: follows_def)
qed

lemma grammar_apply_ends:
  assumes adv: "\<And>stack. stack_ok (gr_rules g) stack \<Longrightarrow> advance_ends (gr_rules g) stack"
    and g: "grammar_ok g" "gr_stacks g \<noteq> []"
  shows "\<exists>d n cur'. grammar_apply d n E g cur = Ret cur'"
proof (cases "gr_awaiting_trigger g")
  case False
  let ?toks = "map (candidate_of E g cur) (filter (\<lambda>i. is_tested E g (fst (cur ! i))) [0..<length cur])"
  obtain L where "\<forall>tok \<in> set ?toks. length (candidate_text tok) \<le> L"
    by (metis finite_imageI finite_set imageI Max_ge)
  then have "candidates_within L ?toks" using candidate_of_ok by (auto simp: candidates_within_def)
  moreover obtain n where "\<forall>m \<ge> n. \<forall>toks. candidates_within L toks \<longrightarrow> reject_candidates (L + 2) m (gr_rules g) (gr_stacks g) toks \<noteq> Too_Deep"
    using reject_candidates_ends [OF _ adv _ g(2)] g(1) unfolding grammar_ok_def by blast
  ultimately have "reject_candidates (L + 2) n (gr_rules g) (gr_stacks g) ?toks \<noteq> Too_Deep" by blast
  moreover have "\<forall>tok \<in> set ?toks. candidate_ok tok" using candidate_of_ok by auto
  then have "reject_candidates (L + 2) n (gr_rules g) (gr_stacks g) ?toks \<noteq> Abort"
    using g by (intro reject_candidates_no_abort) (auto simp: grammar_ok_def)
  ultimately obtain rejects where "reject_candidates (L + 2) n (gr_rules g) (gr_stacks g) ?toks = Ret rejects"
    by (cases "reject_candidates (L + 2) n (gr_rules g) (gr_stacks g) ?toks") auto
  then show ?thesis using False
    by (intro exI [of _ "L + 2"] exI [of _ n]) (simp add: grammar_apply_def apply_steps del: reject_candidates.simps)
qed (simp add: grammar_apply_def)

text \<open>
  The check for left recursion ends: on well-formed rules it goes no deeper than there are rules, since each
  level marks a rule in progress and a marked rule is not entered again.
\<close>

theorem left_recursion_check_ends:
  assumes "wf_rules rules"
  shows "\<exists>found. left_recursive (length rules + 1) rules = Ret found"
  using left_recursive_ends [OF assms] by simp

theorem left_recursion_check_ends_witness:
  "\<exists>found. left_recursive 2 (map copy_rule sample_rules) = Ret found"
  using left_recursion_check_ends [of "map copy_rule sample_rules"] by (simp add: sample_rules_def numeral_2_eq_2) code_simp

text \<open>
  C11. Sampling under a grammar ends. If every rule that derives the empty text has an empty alternate, so
  that the check for left recursion knows it, then the grammar is built or refused, and at every point that
  sampling reaches both masking the candidates and accepting a further piece return.
\<close>

theorem grammar_sampling_ends:
  assumes "wf_rules (map copy_rule rules)" and "start < length rules" and "empties_declared (map copy_rule rules)"
  shows "(\<exists>n r. grammar_init n rules start lazy patterns triggers = Ret r) \<and>
    (reached k E rules start tokens g \<longrightarrow>
       (\<exists>d n cur'. grammar_apply d n E g cur = Ret cur') \<and> (\<exists>n ok g'. grammar_accept_str n piece g = Ret (ok, g')))"
proof (intro conjI impI grammar_init_ends assms)
  assume reached: "reached k E rules start tokens g"
  note g = reached_ok [OF reached assms(1,2)]
  obtain g0 where g0: "grammar_init k rules start False [] [] = Ret (Some g0)"
    using reached by (auto simp: reached_def split: run.splits option.splits)
  have rules: "gr_rules g = map copy_rule rules" using reached_rules [OF reached assms(1,2)] .
  have adv: "advance_ends (gr_rules g) stack" if "stack_ok (gr_rules g) stack" for stack
    using that advance_stack_ends [OF assms(1,3) grammar_init_checked [OF g0]] unfolding rules by blast
  show "\<exists>d n cur'. grammar_apply d n E g cur = Ret cur'" using grammar_apply_ends [OF adv g(1,3)] by blast
  show "\<exists>n ok g'. grammar_accept_str n piece g = Ret (ok, g')" using grammar_accept_str_ends [OF adv g(1)] by blast
qed

lemma sample_empties: "empties_declared (map copy_rule sample_rules)"
proof -
  let ?rules = "map copy_rule sample_rules"
  have wf: "wf_rules ?rules" by code_simp
  have len: "length ?rules = 1" by (simp add: sample_rules_def)
  have "list_all (\<lambda>p. case symbols_at ?rules p of s # ss \<Rightarrow> is_class s | [] \<Rightarrow> False) (alternates ?rules 0)" by code_simp
  then have class_first: "case symbols_at ?rules p of s # ss \<Rightarrow> is_class s | [] \<Rightarrow> False" if "p \<in> set (alternates ?rules 0)" for p
    using that by (simp add: list_all_iff del: set_map)
  have "\<not> derives ?rules q []" if q: "q \<in> productions ?rules 0" for q
  proof -
    obtain p where "p \<in> set (alternates ?rules 0)" "q = symbols_at ?rules p"
      using q alternates_ok(2) [OF wf, of 0] len by (metis imageE zero_less_one)
    with class_first [of p] show ?thesis by (cases "symbols_at ?rules p") (auto simp: derives_class)
  qed
  then have "\<not> derives ?rules [Rule 0] []" by (auto simp: derives_Rule)
  then show ?thesis using len by (simp add: empties_declared_def)
qed

theorem grammar_sampling_ends_witness:
  "\<exists>g. reached 3 sample_env sample_rules 0 [1] g \<and> (\<exists>n ok g'. grammar_accept_str n ''aab'' g = Ret (ok, g'))"
proof -
  obtain g where g: "reached 3 sample_env sample_rules 0 [1] g" using sample_apply by blast
  have wf: "wf_rules (map copy_rule sample_rules)" by code_simp
  have len: "0 < length sample_rules" by (simp add: sample_rules_def)
  from grammar_sampling_ends [OF wf len sample_empties] g show ?thesis by blast
qed

section \<open>A left recursion that is not found\<close>

text \<open>\<open>root ::= a root | "x"\<close>, \<open>a ::= b\<close>, \<open>b ::= | "y"\<close>: the rule \<open>a\<close> has no empty alternate and derives the empty text.\<close>

definition hidden_rules :: llama_grammar_rules where
  "hidden_rules =
     [[elem LLAMA_GRETYPE_RULE_REF 1, elem LLAMA_GRETYPE_RULE_REF 0, elem LLAMA_GRETYPE_ALT 0, elem LLAMA_GRETYPE_CHAR 0x78, elem LLAMA_GRETYPE_END 0],
      [elem LLAMA_GRETYPE_RULE_REF 2, elem LLAMA_GRETYPE_END 0],
      [elem LLAMA_GRETYPE_ALT 0, elem LLAMA_GRETYPE_CHAR 0x79, elem LLAMA_GRETYPE_END 0]]"

lemma hidden_alternates:
  "alternates hidden_rules 0 = [(0, 0), (0, 3)]" "alternates hidden_rules 1 = [(1, 0)]" "alternates hidden_rules 2 = [(2, 0), (2, 1)]"
  by code_simp+

lemma hidden_elements:
  "element_at hidden_rules (0, 0) = elem LLAMA_GRETYPE_RULE_REF 1" "element_at hidden_rules (0, 1) = elem LLAMA_GRETYPE_RULE_REF 0"
  "element_at hidden_rules (1, 0) = elem LLAMA_GRETYPE_RULE_REF 2"
  by (simp_all add: hidden_rules_def element_at_def)

lemma hidden_push:
  "push_pos hidden_rules (1, 0) [(0, 1)] = [(0, 1), (1, 0)]" "push_pos hidden_rules (2, 0) [(0, 1)] = [(0, 1)]"
  "push_pos hidden_rules (0, 0) [] = [(0, 0)]" "push_pos hidden_rules (succ_pos (0, 0)) [] = [(0, 1)]"
  "push_pos hidden_rules (succ_pos (1, 0)) [(0, 1)] = [(0, 1)]" "push_pos hidden_rules (succ_pos (0, 1)) [] = []"
  by code_simp+

lemmas hidden_eval = elem_def hidden_elements [unfolded One_nat_def] hidden_push [unfolded One_nat_def] hidden_alternates [unfolded One_nat_def]

lemma hidden_advance: "advance_stack n hidden_rules [(0, 0)] ns = Too_Deep"
proof (induction n arbitrary: ns rule: less_induct)
  case (less n)
  have root: "advance_stack (Suc k) hidden_rules [(0, 0)] ns =
      run_fold (\<lambda>p. advance_stack k hidden_rules (push_pos hidden_rules p [(0, 1)])) [(1, 0)] ns" for k ns
    by (subst advance_ref) (simp_all add: hidden_eval)
  have a: "advance_stack (Suc k) hidden_rules [(0, 1), (1, 0)] ns =
      run_fold (\<lambda>p. advance_stack k hidden_rules (push_pos hidden_rules p [(0, 1)])) [(2, 0), (2, 1)] ns" for k ns
    by (subst advance_ref) (simp_all add: hidden_eval)
  have b: "advance_stack (Suc k) hidden_rules [(0, 1)] ns =
      run_fold (\<lambda>p. advance_stack k hidden_rules (push_pos hidden_rules p [])) [(0, 0), (0, 3)] ns" for k ns
    by (subst advance_ref) (simp_all add: hidden_eval)
  note push = hidden_push [unfolded One_nat_def]
  show ?case
  proof (cases n)
    case (Suc k)
    show ?thesis
    proof (cases k)
      case (Suc j)
      show ?thesis
      proof (cases j)
        case (Suc i)
        then show ?thesis using less [of i] unfolding \<open>n = Suc k\<close> \<open>k = Suc j\<close> root
          by (simp add: push a [unfolded One_nat_def] b [unfolded One_nat_def] del: advance_stack.simps)
      qed (simp add: \<open>n = Suc k\<close> \<open>k = Suc j\<close> root push a [unfolded One_nat_def] del: advance_stack.simps(2))
    qed (simp add: \<open>n = Suc k\<close> root push del: advance_stack.simps(2))
  qed simp
qed

text \<open>
  C27. The check for left recursion misses some. For the grammar \<open>root ::= a root | "x"\<close>,
  \<open>a ::= b\<close>, \<open>b ::= | "y"\<close> it reports nothing, and building the initial stacks exceeds every
  depth: the call of \<open>llama_grammar_init_impl\<close> that should refuse the grammar overflows the call stack.
\<close>

theorem hidden_left_recursion:
  "wf_rules hidden_rules \<and> left_recursive 4 hidden_rules = Ret False \<and> (\<forall>n. initial_stacks n hidden_rules 0 = Too_Deep)"
proof (intro conjI allI)
  show "wf_rules hidden_rules" by code_simp
  show "left_recursive 4 hidden_rules = Ret False" by code_simp
  fix n
  show "initial_stacks n hidden_rules 0 = Too_Deep"
    by (simp add: initial_stacks_def hidden_alternates hidden_push hidden_advance)
qed

end
