(* ===== verification/Grammar_Parser.thy ===== *)
theory Grammar_Parser
  imports Llama_Grammar "HOL-Library.AList"
begin

text \<open>
  The parser of grammars in \<open>llama.cpp/src/llama-grammar.cpp\<close>, the class
  \<open>llama_grammar_parser\<close>. A position is the rest of the text, without the terminating zero, and
  \<open>peek\<close> reads the character there. An exception, which \<open>parse\<close> catches, is \<open>Abort\<close>.
  Every loop and every nested call counts one bound down.
\<close>

section \<open>Characters and names\<close>

definition peek :: "string \<Rightarrow> char" where
  "peek s = (case s of [] \<Rightarrow> CHR 0x00 | c # _ \<Rightarrow> c)"

definition code :: "char \<Rightarrow> nat" where
  "code c = of_char c"

definition is_digit_char :: "char \<Rightarrow> bool" where
  "is_digit_char c = (code CHR ''0'' \<le> code c \<and> code c \<le> code CHR ''9'')"

definition is_word_char :: "char \<Rightarrow> bool" where
  "is_word_char c =
     ((code CHR ''a'' \<le> code c \<and> code c \<le> code CHR ''z'') \<or> (code CHR ''A'' \<le> code c \<and> code c \<le> code CHR ''Z'') \<or>
      c = CHR ''-'' \<or> is_digit_char c)"

text \<open>The first \<open>decode_utf8\<close>: one code point, without a check of the bytes that follow the first.\<close>

fun decode_rest :: "nat \<Rightarrow> uint32 \<Rightarrow> string \<Rightarrow> uint32 \<times> string" where
  "decode_rest (Suc n) v (c # s) = decode_rest n (push_bit 6 v + ucast ((of_char c :: byte) AND 0x3F)) s"
| "decode_rest n v s = (v, s)"

definition decode_first :: "string \<Rightarrow> uint32 \<times> string" where
  "decode_first src =
     (let first_byte = of_char (peek src) :: byte;
          len = [1, 1, 1, 1, 1, 1, 1, 1, 1, 1, 1, 1, 2, 2, 3, 4] ! unat (drop_bit 4 first_byte) :: nat;
          msk = push_bit (8 - len) 1 - 1
      in decode_rest (len - 1) (ucast (first_byte AND msk)) (tl src))"

definition hex_value :: "char \<Rightarrow> uint32 option" where
  "hex_value c =
     (if code CHR ''a'' \<le> code c \<and> code c \<le> code CHR ''f'' then Some (of_nat (code c - code CHR ''a'' + 10))
      else if code CHR ''A'' \<le> code c \<and> code c \<le> code CHR ''F'' then Some (of_nat (code c - code CHR ''A'' + 10))
      else if code CHR ''0'' \<le> code c \<and> code c \<le> code CHR ''9'' then Some (of_nat (code c - code CHR ''0''))
      else None)"

fun parse_hex :: "nat \<Rightarrow> uint32 \<Rightarrow> string \<Rightarrow> (uint32 \<times> string) run" where
  "parse_hex 0 v s = Ret (v, s)"
| "parse_hex (Suc n) v [] = Abort"
| "parse_hex (Suc n) v (c # s) = (case hex_value c of Some d \<Rightarrow> parse_hex n (push_bit 4 v + d) s | None \<Rightarrow> Abort)"

function parse_space :: "string \<Rightarrow> bool \<Rightarrow> string" where
  "parse_space [] newline_ok = []"
| "parse_space (c # s) newline_ok =
     (if c = CHR ''#'' then parse_space (dropWhile (\<lambda>c. c \<noteq> CHR 0x0D \<and> c \<noteq> CHR 0x0A) s) newline_ok
      else if c = CHR '' '' \<or> c = CHR 0x09 \<or> (newline_ok \<and> (c = CHR 0x0D \<or> c = CHR 0x0A)) then parse_space s newline_ok
      else c # s)"
  by pat_completeness auto
termination by (relation "measure (length \<circ> fst)") (auto simp: le_imp_less_Suc length_dropWhile_le)

definition parse_name :: "string \<Rightarrow> (string \<times> string) run" where
  "parse_name src =
     (let name = takeWhile is_word_char src in if name = [] then Abort else Ret (name, dropWhile is_word_char src))"

text \<open>\<open>parse_int\<close> and \<open>std::stoul\<close> of the digits, assigned to an \<open>int\<close>.\<close>

definition digits_value :: "string \<Rightarrow> int" where
  "digits_value ds = foldl (\<lambda>v c. 10 * v + (int (code c) - int (code CHR ''0''))) 0 ds"

definition parse_int :: "string \<Rightarrow> (int \<times> string) run" where
  "parse_int src =
     (let ds = takeWhile is_digit_char src in
      if ds = [] \<or> digits_value ds \<ge> 2 ^ 64 then Abort
      else Ret (sint (of_int (digits_value ds) :: uint32), dropWhile is_digit_char src))"

definition parse_char :: "string \<Rightarrow> (uint32 \<times> string) run" where
  "parse_char src =
     (if peek src = CHR 0x5C then
        (let c = peek (tl src); rest = tl (tl src) in
         if c = CHR ''x'' then parse_hex 2 0 rest
         else if c = CHR ''u'' then parse_hex 4 0 rest
         else if c = CHR ''U'' then parse_hex 8 0 rest
         else if c = CHR ''t'' then Ret (0x09, rest)
         else if c = CHR ''r'' then Ret (0x0D, rest)
         else if c = CHR ''n'' then Ret (0x0A, rest)
         else if c \<in> {CHR 0x5C, CHR 0x22, CHR ''['', CHR '']''} then Ret (of_nat (code c), rest)
         else Abort)
      else if src \<noteq> [] then Ret (decode_first src)
      else Abort)"

section \<open>Symbols and rules\<close>

record llama_grammar_parser =
  gp_symbol_ids :: "(string \<times> uint32) list"
  gp_rules :: llama_grammar_rules

text \<open>\<open>std::map::emplace\<close> keeps the value of a key that is there; assignment replaces it.\<close>

definition get_symbol_id :: "string \<Rightarrow> llama_grammar_parser \<Rightarrow> uint32 \<times> llama_grammar_parser" where
  "get_symbol_id name P =
     (case map_of (gp_symbol_ids P) name of
        Some v \<Rightarrow> (v, P)
      | None \<Rightarrow> (let next_id = of_nat (length (gp_symbol_ids P))
                in (next_id, P\<lparr>gp_symbol_ids := gp_symbol_ids P @ [(name, next_id)]\<rparr>)))"

fun to_string :: "nat \<Rightarrow> string" where
  "to_string n = (if n < 10 then [char_of (48 + n)] else to_string (n div 10) @ [char_of (48 + n mod 10)])"

declare to_string.simps [simp del]

definition generate_symbol_id :: "string \<Rightarrow> llama_grammar_parser \<Rightarrow> uint32 \<times> llama_grammar_parser" where
  "generate_symbol_id base_name P =
     (let next_id = of_nat (length (gp_symbol_ids P)) :: uint32
      in (next_id, P\<lparr>gp_symbol_ids := AList.update (base_name @ ''_'' @ to_string (unat next_id)) next_id (gp_symbol_ids P)\<rparr>))"

definition add_rule :: "uint32 \<Rightarrow> llama_grammar_rule \<Rightarrow> llama_grammar_parser \<Rightarrow> llama_grammar_parser" where
  "add_rule rule_id rule P =
     (let rules = gp_rules P @ replicate (unat rule_id + 1 - length (gp_rules P)) []
      in P\<lparr>gp_rules := rules[unat rule_id := rule]\<rparr>)"

section \<open>Repetitions\<close>

text \<open>The loop that makes the rules of the optional repetitions, with the number still to make.\<close>

fun optional_rules :: "nat \<Rightarrow> nat \<Rightarrow> string \<Rightarrow> llama_grammar_rule \<Rightarrow> bool \<Rightarrow> uint32 \<Rightarrow> llama_grammar_parser \<Rightarrow> uint32 \<times> llama_grammar_parser" where
  "optional_rules 0 i rule_name prev_rule unbounded last_rec_rule_id P = (last_rec_rule_id, P)"
| "optional_rules (Suc k) i rule_name prev_rule unbounded last_rec_rule_id P =
     (let (rec_rule_id, P) = generate_symbol_id rule_name P;
          rec_rule = prev_rule @
            (if i > 0 \<or> unbounded then [elem LLAMA_GRETYPE_RULE_REF (if unbounded then rec_rule_id else last_rec_rule_id)] else []) @
            [elem LLAMA_GRETYPE_ALT 0, elem LLAMA_GRETYPE_END 0]
      in optional_rules k (i + 1) rule_name prev_rule unbounded rec_rule_id (add_rule rec_rule_id rec_rule P))"

text \<open>
  How many optional repetitions are made. A bound of \<open>2 ^ 31\<close> or more is written into a negative \<open>int\<close>, and
  only for a negative \<open>min_times\<close> can the difference overflow; it wraps here (C++ leaves it undefined).
\<close>

definition optional_count :: "int \<Rightarrow> int \<Rightarrow> int" where
  "optional_count min_times max_times =
     (if max_times < 0 then 1
      else if min_times < 0 then sint (of_int (max_times - min_times) :: uint32)
      else max_times - min_times)"

definition handle_repetitions :: "int \<Rightarrow> int \<Rightarrow> string \<Rightarrow> nat \<Rightarrow> llama_grammar_rule \<Rightarrow> llama_grammar_parser \<Rightarrow>
    (llama_grammar_rule \<times> llama_grammar_parser) run" where
  "handle_repetitions min_times max_times rule_name last_sym_start rule P =
     (if last_sym_start = length rule then Abort
      else let prev_rule = drop last_sym_start rule;
               rule = (if min_times = 0 then take last_sym_start rule else rule @ concat (replicate (nat (min_times - 1)) prev_rule));
               n_opt = optional_count min_times max_times;
               (last_rec_rule_id, P) = optional_rules (nat n_opt) 0 rule_name prev_rule (max_times < 0) 0 P
           in Ret (if n_opt > 0 then rule @ [elem LLAMA_GRETYPE_RULE_REF last_rec_rule_id] else rule, P))"

text \<open>The bounds of \<open>{m}\<close>, \<open>{m,}\<close> and \<open>{m,n}\<close>, behind the brace.\<close>

definition parse_bounds :: "string \<Rightarrow> bool \<Rightarrow> ((int \<times> int) \<times> string) run" where
  "parse_bounds s is_nested =
     (let s = parse_space s is_nested in
      if \<not> is_digit_char (peek s) then Abort
      else run_bind (parse_int s) (\<lambda>(min_times, s).
        let s = parse_space s is_nested in
        if peek s = CHR ''}'' then Ret ((min_times, min_times), parse_space (tl s) is_nested)
        else if peek s = CHR '','' then
          (let s = parse_space (tl s) is_nested in
           run_bind (if is_digit_char (peek s)
                     then run_bind (parse_int s) (\<lambda>(max_times, s). Ret (max_times, parse_space s is_nested))
                     else Ret (-1, s)) (\<lambda>(max_times, s).
             if peek s \<noteq> CHR ''}'' then Abort
             else Ret ((min_times, max_times), parse_space (tl s) is_nested)))
        else Abort))"

section \<open>Sequences and alternates\<close>

text \<open>The characters of a literal, and of a class in brackets.\<close>

primrec literal_loop :: "nat \<Rightarrow> string \<Rightarrow> llama_grammar_rule \<Rightarrow> (string \<times> llama_grammar_rule) run" where
  "literal_loop 0 s rule = Too_Deep"
| "literal_loop (Suc n) s rule =
     (if peek s = CHR 0x22 then Ret (s, rule)
      else if s = [] then Abort
      else run_bind (parse_char s) (\<lambda>(c, s). literal_loop n s (rule @ [elem LLAMA_GRETYPE_CHAR c])))"

primrec class_loop :: "nat \<Rightarrow> llama_gretype \<Rightarrow> nat \<Rightarrow> string \<Rightarrow> llama_grammar_rule \<Rightarrow> (string \<times> llama_grammar_rule) run" where
  "class_loop 0 start_type last_sym_start s rule = Too_Deep"
| "class_loop (Suc n) start_type last_sym_start s rule =
     (if peek s = CHR '']'' then Ret (s, rule)
      else if s = [] then Abort
      else run_bind (parse_char s) (\<lambda>(c, s).
        let type = (if last_sym_start < length rule then LLAMA_GRETYPE_CHAR_ALT else start_type);
            rule = rule @ [elem type c]
        in if peek s = CHR ''-'' \<and> peek (tl s) \<noteq> CHR '']'' then
             (if tl s = [] then Abort
              else run_bind (parse_char (tl s)) (\<lambda>(d, s).
                class_loop n start_type last_sym_start s (rule @ [elem LLAMA_GRETYPE_CHAR_RNG_UPPER d])))
           else class_loop n start_type last_sym_start s rule))"

text \<open>
  The loop of \<open>parse_sequence\<close>, which starts with \<open>last_sym_start\<close> at the end of the rule. A
  nested group is parsed by \<open>nested\<close>, \<open>parse_alternates\<close> one level down.
\<close>

type_synonym alternates_parser = "string \<Rightarrow> string \<Rightarrow> uint32 \<Rightarrow> bool \<Rightarrow> llama_grammar_parser \<Rightarrow> (string \<times> llama_grammar_parser) run"

primrec sequence_loop :: "nat \<Rightarrow> alternates_parser \<Rightarrow> string \<Rightarrow> string \<Rightarrow> bool \<Rightarrow> nat \<Rightarrow> llama_grammar_rule \<Rightarrow> llama_grammar_parser \<Rightarrow>
    (string \<times> llama_grammar_rule \<times> llama_grammar_parser) run" where
  "sequence_loop 0 nested s rule_name is_nested last_sym_start rule P = Too_Deep"
| "sequence_loop (Suc m) nested s rule_name is_nested last_sym_start rule P =
     (let c = peek s; space = (\<lambda>s. parse_space (tl s) is_nested);
          go_on = (\<lambda>s last_sym_start rule P. sequence_loop m nested s rule_name is_nested last_sym_start rule P);
          repeat = (\<lambda>min_times max_times s.
            run_bind (handle_repetitions min_times max_times rule_name last_sym_start rule P) (\<lambda>(rule, P).
              go_on s last_sym_start rule P))
      in if s = [] then Ret (s, rule, P)
      else if c = CHR 0x22 then
        run_bind (literal_loop m (tl s) rule) (\<lambda>(s, rule'). go_on (space s) (length rule) rule' P)
      else if c = CHR ''['' then
        (let negated = (peek (tl s) = CHR ''^''); s = (if negated then tl (tl s) else tl s);
             start_type = (if negated then LLAMA_GRETYPE_CHAR_NOT else LLAMA_GRETYPE_CHAR)
         in run_bind (class_loop m start_type (length rule) s rule) (\<lambda>(s, rule'). go_on (space s) (length rule) rule' P))
      else if is_word_char c then
        run_bind (parse_name s) (\<lambda>(name, s).
          let (ref_rule_id, P) = get_symbol_id name P
          in go_on (parse_space s is_nested) (length rule) (rule @ [elem LLAMA_GRETYPE_RULE_REF ref_rule_id]) P)
      else if c = CHR ''('' then
        (let s = parse_space (tl s) True; (sub_rule_id, P) = generate_symbol_id rule_name P in
         run_bind (nested s rule_name sub_rule_id True P) (\<lambda>(s, P).
           if peek s \<noteq> CHR '')'' then Abort
           else go_on (space s) (length rule) (rule @ [elem LLAMA_GRETYPE_RULE_REF sub_rule_id]) P))
      else if c = CHR ''.'' then go_on (space s) (length rule) (rule @ [elem LLAMA_GRETYPE_CHAR_ANY 0]) P
      else if c = CHR ''*'' then repeat 0 (-1) (space s)
      else if c = CHR ''+'' then repeat 1 (-1) (space s)
      else if c = CHR ''?'' then repeat 0 1 (space s)
      else if c = CHR ''{'' then
        run_bind (parse_bounds (tl s) is_nested) (\<lambda>((min_times, max_times), s). repeat min_times max_times s)
      else Ret (s, rule, P))"

text \<open>The loop of \<open>parse_alternates\<close>, over \<open>sequence\<close>, and \<open>parse_alternates\<close> itself.\<close>

primrec alternates_loop :: "nat \<Rightarrow> (string \<Rightarrow> nat \<Rightarrow> llama_grammar_rule \<Rightarrow> llama_grammar_parser \<Rightarrow> (string \<times> llama_grammar_rule \<times> llama_grammar_parser) run) \<Rightarrow>
    string \<Rightarrow> uint32 \<Rightarrow> llama_grammar_rule \<Rightarrow> llama_grammar_parser \<Rightarrow> (string \<times> llama_grammar_parser) run" where
  "alternates_loop 0 sequence s rule_id rule P = Too_Deep"
| "alternates_loop (Suc m) sequence s rule_id rule P =
     (if peek s = CHR ''|'' then
        (let rule = rule @ [elem LLAMA_GRETYPE_ALT 0]; s = parse_space (tl s) True in
         run_bind (sequence s (length rule) rule P) (\<lambda>(s, rule, P). alternates_loop m sequence s rule_id rule P))
      else Ret (s, add_rule rule_id (rule @ [elem LLAMA_GRETYPE_END 0]) P))"

primrec parse_alternates :: "nat \<Rightarrow> nat \<Rightarrow> alternates_parser" where
  "parse_alternates 0 m src rule_name rule_id is_nested P = Too_Deep"
| "parse_alternates (Suc n) m src rule_name rule_id is_nested P =
     (let sequence = (\<lambda>s last_sym_start rule P. sequence_loop m (parse_alternates n m) s rule_name is_nested last_sym_start rule P)
      in run_bind (sequence src 0 [] P) (\<lambda>(s, rule, P). alternates_loop m sequence s rule_id rule P))"

section \<open>Grammars\<close>

definition end_of_rule :: "string \<Rightarrow> string run" where
  "end_of_rule s =
     (if peek s = CHR 0x0D then Ret (parse_space (if peek (tl s) = CHR 0x0A then tl (tl s) else tl s) True)
      else if peek s = CHR 0x0A then Ret (parse_space (tl s) True)
      else if s \<noteq> [] then Abort
      else Ret (parse_space s True))"

definition parse_rule :: "nat \<Rightarrow> nat \<Rightarrow> string \<Rightarrow> llama_grammar_parser \<Rightarrow> (string \<times> llama_grammar_parser) run" where
  "parse_rule n m src P =
     run_bind (parse_name src) (\<lambda>(name, s).
       let s = parse_space s False; (rule_id, P) = get_symbol_id name P in
       if take 3 s \<noteq> ''::='' then Abort
       else run_bind (parse_alternates n m (parse_space (drop 3 s) True) name rule_id False P) (\<lambda>(s, P).
         run_bind (end_of_rule s) (\<lambda>s. Ret (s, P))))"

primrec rules_loop :: "nat \<Rightarrow> nat \<Rightarrow> nat \<Rightarrow> string \<Rightarrow> llama_grammar_parser \<Rightarrow> llama_grammar_parser run" where
  "rules_loop 0 n m s P = Too_Deep"
| "rules_loop (Suc k) n m s P = (if s = [] then Ret P else run_bind (parse_rule n m s P) (\<lambda>(s, P). rules_loop k n m s P))"

text \<open>All rules are defined; a reference to a missing one is an error if a name is found for it.\<close>

definition undefined_ref :: "llama_grammar_parser \<Rightarrow> llama_grammar_element \<Rightarrow> bool" where
  "undefined_ref P e = (ge_type e = LLAMA_GRETYPE_RULE_REF \<and>
     (unat (ge_value e) \<ge> length (gp_rules P) \<or> gp_rules P ! unat (ge_value e) = []) \<and>
     ge_value e \<in> snd ` set (gp_symbol_ids P))"

definition validate :: "llama_grammar_parser \<Rightarrow> bool" where
  "validate P = list_all (\<lambda>rule. rule \<noteq> [] \<and> list_all (\<lambda>e. \<not> undefined_ref P e) rule) (gp_rules P)"

definition no_parser :: llama_grammar_parser where
  "no_parser = \<lparr>gp_symbol_ids = [], gp_rules = []\<rparr>"

definition parse :: "nat \<Rightarrow> string \<Rightarrow> llama_grammar_parser option run" where
  "parse n src =
     (case rules_loop n n n (parse_space (c_str src) True) no_parser of
        Ret P \<Rightarrow> Ret (if validate P then Some P else None)
      | Abort \<Rightarrow> Ret None
      | Too_Deep \<Rightarrow> Too_Deep)"

text \<open>
  \<open>llama_grammar_init_impl\<close> on the text of a grammar; \<open>None\<close> is the null pointer, and the
  root that is no symbol is the exception of \<open>std::map::at\<close>.
\<close>

definition grammar_init_str :: "nat \<Rightarrow> nat \<Rightarrow> string \<Rightarrow> string \<Rightarrow> bool \<Rightarrow> string list \<Rightarrow> llama_token list \<Rightarrow> llama_grammar option run" where
  "grammar_init_str k n grammar_str grammar_root lazy trigger_patterns trigger_tokens =
     run_bind (parse k grammar_str) (\<lambda>r. case r of
       None \<Rightarrow> Ret None
     | Some P \<Rightarrow>
         if gp_rules P = [] \<or> map_of (gp_symbol_ids P) ''root'' = None then Ret None
         else (case map_of (gp_symbol_ids P) grammar_root of
                 None \<Rightarrow> Abort
               | Some start \<Rightarrow> grammar_init n (gp_rules P) (unat start) lazy trigger_patterns trigger_tokens))"

end
