(* ===== verification/Grammar_Parser_Props.thy ===== *)
theory Grammar_Parser_Props
  imports Grammar_Parser Grammar_Termination
begin

text \<open>
  What the parser of grammars gives: rules that are well-formed, which the other properties of
  grammars assume, for every text it accepts; and it ends on every text.
\<close>

section \<open>Closed parts of a rule\<close>

text \<open>A part of a rule that any well-formed rest may follow.\<close>

definition shape_ok :: "llama_grammar_element list \<Rightarrow> bool" where
  "shape_ok es = (wf_elements (2 ^ 32) es \<and> last es = elem LLAMA_GRETYPE_END 0)"

definition closed_part :: "llama_grammar_element list \<Rightarrow> bool" where
  "closed_part xs = (\<forall>ys. shape_ok ys \<longrightarrow> shape_ok (xs @ ys))"

lemma closed_part_Nil [simp]: "closed_part []"
  by (simp add: closed_part_def)

lemma closed_part_append [intro]: "closed_part xs \<Longrightarrow> closed_part ys \<Longrightarrow> closed_part (xs @ ys)"
  by (simp add: closed_part_def)

lemma closed_part_concat: "\<forall>xs \<in> set xss. closed_part xs \<Longrightarrow> closed_part (concat xss)"
  by (induction xss) auto

lemma unat_32: "unat (v :: uint32) < 2 ^ 32"
  using unsigned_less [of v] by simp

lemma shape_ok_append: "shape_ok ys \<Longrightarrow> wf_elements (2 ^ 32) (xs @ ys) \<Longrightarrow> shape_ok (xs @ ys)"
  by (cases ys) (auto simp: shape_ok_def)

lemma closed_partI: "(\<And>ys. shape_ok ys \<Longrightarrow> wf_elements (2 ^ 32) (xs @ ys)) \<Longrightarrow> closed_part xs"
  by (simp add: closed_part_def shape_ok_append)

lemma closed_part_elem [simp]:
  "closed_part [elem LLAMA_GRETYPE_RULE_REF v]" "closed_part [elem LLAMA_GRETYPE_ALT v]" "closed_part [elem LLAMA_GRETYPE_CHAR_ANY v]"
  using unat_32 [of v] by (auto intro!: closed_partI simp: shape_ok_def elem_def)

lemma shape_ok_END [simp]: "shape_ok [elem LLAMA_GRETYPE_END 0]"
  by (simp add: shape_ok_def elem_def)

lemma shape_ok_first: "shape_ok ys \<Longrightarrow> ys \<noteq> [] \<and> ge_type (hd ys) \<notin> {LLAMA_GRETYPE_CHAR_RNG_UPPER, LLAMA_GRETYPE_CHAR_ALT}"
  by (cases ys) (auto simp: shape_ok_def)

text \<open>The further characters of a class.\<close>

inductive class_tail :: "llama_grammar_element list \<Rightarrow> bool" where
  "class_tail []"
| "class_tail es \<Longrightarrow> class_tail (elem LLAMA_GRETYPE_CHAR_ALT c # es)"
| "class_tail es \<Longrightarrow> class_tail (elem LLAMA_GRETYPE_CHAR_ALT c # elem LLAMA_GRETYPE_CHAR_RNG_UPPER d # es)"

lemma class_tail_append: "class_tail xs \<Longrightarrow> class_tail ys \<Longrightarrow> class_tail (xs @ ys)"
  by (induction rule: class_tail.induct) (auto intro: class_tail.intros)

lemma char_ranges_tail:
  assumes "class_tail es" and "ys \<noteq> []" and "ge_type (hd ys) \<notin> {LLAMA_GRETYPE_CHAR_RNG_UPPER, LLAMA_GRETYPE_CHAR_ALT}"
  shows "snd (char_ranges (e # es @ ys)) = ys \<and> (ge_type r = LLAMA_GRETYPE_CHAR_RNG_UPPER \<longrightarrow> snd (char_ranges (e # r # es @ ys)) = ys)"
  using assms
proof (induction arbitrary: e r rule: class_tail.induct)
  case 1
  then show ?case by (cases ys) auto
qed (auto simp: elem_def)

lemma closed_class:
  assumes "type = LLAMA_GRETYPE_CHAR \<or> type = LLAMA_GRETYPE_CHAR_NOT" and "class_tail es"
  shows "closed_part (elem type c # es)" and "closed_part (elem type c # elem LLAMA_GRETYPE_CHAR_RNG_UPPER d # es)"
proof -
  have "snd (char_ranges (elem type c # es @ ys)) = ys" "snd (char_ranges (elem type c # elem LLAMA_GRETYPE_CHAR_RNG_UPPER d # es @ ys)) = ys"
    if "shape_ok ys" for ys
    using char_ranges_tail [OF assms(2), of ys "elem type c" "elem LLAMA_GRETYPE_CHAR_RNG_UPPER d"] shape_ok_first [OF that]
    by (auto simp: elem_def)
  then show "closed_part (elem type c # es)" and "closed_part (elem type c # elem LLAMA_GRETYPE_CHAR_RNG_UPPER d # es)"
    using assms(1) by (auto intro!: closed_partI simp: shape_ok_def elem_def simp del: char_ranges.simps)
qed

lemma closed_chars: "closed_part (map (elem LLAMA_GRETYPE_CHAR) cs)"
proof (induction cs)
  case (Cons c cs)
  then show ?case
    using closed_part_append [OF closed_class(1) [of LLAMA_GRETYPE_CHAR "[]" c] Cons] by (simp add: class_tail.intros)
qed simp

section \<open>Literals and classes\<close>

lemma literal_loop_chars: "literal_loop m s rule = Ret (s', rule') \<Longrightarrow> \<exists>cs. rule' = rule @ map (elem LLAMA_GRETYPE_CHAR) cs"
proof (induction m arbitrary: s rule)
  case (Suc m)
  show ?case
  proof (cases "peek s = CHR 0x22")
    case False
    then obtain c s1 where "literal_loop m s1 (rule @ [elem LLAMA_GRETYPE_CHAR c]) = Ret (s', rule')"
      using Suc.prems by (auto simp: run_bind_Ret split: if_splits)
    from Suc.IH [OF this] obtain cs where "rule' = rule @ map (elem LLAMA_GRETYPE_CHAR) (c # cs)" by auto
    then show ?thesis by blast
  qed (use Suc.prems in simp)
qed simp

text \<open>The class read so far: nothing, or a first character with its tail.\<close>

inductive class_part :: "llama_gretype \<Rightarrow> llama_grammar_element list \<Rightarrow> bool" for type where
  class_part_Nil: "class_part type []"
| class_part_one: "class_tail es \<Longrightarrow> class_part type (elem type c # es)"
| class_part_range: "class_tail es \<Longrightarrow> class_part type (elem type c # elem LLAMA_GRETYPE_CHAR_RNG_UPPER d # es)"

lemma class_part_append: "class_part type cls \<Longrightarrow> cls \<noteq> [] \<Longrightarrow> class_tail es \<Longrightarrow> class_part type (cls @ es)"
  by (induction rule: class_part.induct) (auto intro: class_part.intros class_tail_append)

lemma class_part_char:
  assumes "class_part type cls"
  shows "class_part type (cls @ [elem (if cls \<noteq> [] then LLAMA_GRETYPE_CHAR_ALT else type) c])"
    and "class_part type (cls @ [elem (if cls \<noteq> [] then LLAMA_GRETYPE_CHAR_ALT else type) c, elem LLAMA_GRETYPE_CHAR_RNG_UPPER d])"
  using assms by (cases "cls = []"; auto intro: class_part_append class_part.intros class_tail.intros)+

lemma class_part_closed: "class_part type cls \<Longrightarrow> type = LLAMA_GRETYPE_CHAR \<or> type = LLAMA_GRETYPE_CHAR_NOT \<Longrightarrow> closed_part cls"
  by (induction rule: class_part.induct) (auto intro: closed_class)

lemma class_loop_class:
  "class_loop m type (length base) s (base @ cls) = Ret (s', rule') \<Longrightarrow> class_part type cls \<Longrightarrow> \<exists>cls'. rule' = base @ cls' \<and> class_part type cls'"
proof (induction m arbitrary: s cls)
  case (Suc m)
  let ?type = "if cls \<noteq> [] then LLAMA_GRETYPE_CHAR_ALT else type"
  have ty: "(if length base < length (base @ cls) then LLAMA_GRETYPE_CHAR_ALT else type) = ?type" by simp
  show ?case
  proof (cases "peek s = CHR '']''")
    case False
    then have "s \<noteq> []" using Suc.prems(1) by auto
    then obtain c s1 where "(if peek s1 = CHR ''-'' \<and> peek (tl s1) \<noteq> CHR '']'' then
             (if tl s1 = [] then Abort
              else run_bind (parse_char (tl s1)) (\<lambda>(d, s). class_loop m type (length base) s ((base @ cls @ [elem ?type c]) @ [elem LLAMA_GRETYPE_CHAR_RNG_UPPER d])))
           else class_loop m type (length base) s1 (base @ cls @ [elem ?type c])) = Ret (s', rule')"
      using Suc.prems(1) False by (auto simp: run_bind_Ret Let_def)
    then consider d s2 where "class_loop m type (length base) s2 (base @ (cls @ [elem ?type c, elem LLAMA_GRETYPE_CHAR_RNG_UPPER d])) = Ret (s', rule')"
      | "class_loop m type (length base) s1 (base @ (cls @ [elem ?type c])) = Ret (s', rule')"
      by (auto simp: run_bind_Ret split: if_splits)
    then show ?thesis
      by cases (blast intro: Suc.IH class_part_char [OF Suc.prems(2)])+
  qed (use Suc.prems in auto)
qed simp

lemma class_part_refs:
  assumes "class_part type cls" and "type \<noteq> LLAMA_GRETYPE_RULE_REF" and "e \<in> set cls"
  shows "ge_type e \<noteq> LLAMA_GRETYPE_RULE_REF"
proof -
  have tail: "class_tail es \<Longrightarrow> e \<in> set es \<Longrightarrow> ge_type e \<noteq> LLAMA_GRETYPE_RULE_REF" for es
    by (induction rule: class_tail.induct) (auto simp: elem_def)
  show ?thesis using assms(1,3) by cases (use tail assms(2) in \<open>auto simp: elem_def\<close>)
qed

section \<open>Symbols\<close>

lemma char_of_digit: "d < 10 \<Longrightarrow> (of_char (char_of (48 + d :: nat)) :: nat) = 48 + d"
  by (simp add: of_char_of take_bit_nat_eq_self)

lemma to_string_value: "foldl (\<lambda>v c. 10 * v + (of_char c - 48)) 0 (to_string n) = (n :: nat)"
proof (induction n rule: to_string.induct)
  case (1 n)
  show ?case
  proof (cases "n < 10")
    case True
    then show ?thesis by (subst to_string.simps) (simp add: char_of_digit)
  next
    case False
    then show ?thesis using 1 by (subst to_string.simps) (simp add: char_of_digit)
  qed
qed

lemma to_string_inj: "to_string m = to_string n \<Longrightarrow> m = n"
  by (metis to_string_value)

lemma char_of_digit_no_underscore: "d < 10 \<Longrightarrow> char_of (48 + d :: nat) \<noteq> CHR ''_''"
proof
  assume "d < 10" and "char_of (48 + d) = CHR ''_''"
  then have "(of_char (char_of (48 + d :: nat)) :: nat) = of_char CHR ''_''" by simp
  then show False using \<open>d < 10\<close> by (simp only: char_of_digit) simp
qed

lemma to_string_digits: "c \<in> set (to_string n) \<Longrightarrow> c \<noteq> CHR ''_''"
proof (induction n rule: to_string.induct)
  case (1 n)
  show ?case
  proof (cases "n < 10")
    case True
    then have "c = char_of (48 + n)" using "1.prems" by (simp add: to_string.simps [of n])
    then show ?thesis using char_of_digit_no_underscore [OF True] by simp
  next
    case False
    then have "c \<in> set (to_string (n div 10)) \<or> c = char_of (48 + n mod 10)" using "1.prems" by (auto simp: to_string.simps [of n])
    then show ?thesis using "1.IH" [OF False] char_of_digit_no_underscore [of "n mod 10"] by fastforce
  qed
qed

lemma split_last_underscore:
  assumes "b @ ''_'' @ to_string m = b' @ ''_'' @ to_string n"
  shows "m = n"
proof -
  have "takeWhile (\<lambda>c. c \<noteq> CHR ''_'') (rev (b @ ''_'' @ to_string m)) = rev (to_string m)" for b m
  proof -
    have "\<forall>c \<in> set (rev (to_string m)). c \<noteq> CHR ''_''" using to_string_digits by auto
    then have "takeWhile (\<lambda>c. c \<noteq> CHR ''_'') (rev (to_string m) @ CHR ''_'' # rev b) = rev (to_string m)"
      by (subst takeWhile_append2) auto
    then show ?thesis by simp
  qed
  then have "rev (to_string m) = rev (to_string n)" using assms by metis
  then show ?thesis by (auto dest: to_string_inj)
qed

text \<open>The symbols: a name with an underscore was generated, and ends with its id.\<close>

definition ids :: "llama_grammar_parser \<Rightarrow> uint32 set" where
  "ids P = snd ` set (gp_symbol_ids P)"

definition names_ok :: "llama_grammar_parser \<Rightarrow> bool" where
  "names_ok P = (\<forall>(name, v) \<in> set (gp_symbol_ids P). CHR ''_'' \<in> set name \<longrightarrow> (\<exists>b. name = b @ ''_'' @ to_string (unat v)))"

definition numbered :: "llama_grammar_parser \<Rightarrow> bool" where
  "numbered P = (map snd (gp_symbol_ids P) = map of_nat [0..<length (gp_symbol_ids P)])"

definition refs_in :: "uint32 set \<Rightarrow> llama_grammar_element list \<Rightarrow> bool" where
  "refs_in I es = (\<forall>e \<in> set es. ge_type e = LLAMA_GRETYPE_RULE_REF \<longrightarrow> ge_value e \<in> I)"

lemma refs_in_simps [simp]:
  "refs_in I []" "refs_in I (es @ fs) = (refs_in I es \<and> refs_in I fs)"
  "refs_in I (e # es) = ((ge_type e = LLAMA_GRETYPE_RULE_REF \<longrightarrow> ge_value e \<in> I) \<and> refs_in I es)"
  by (auto simp: refs_in_def)

lemma refs_in_mono: "refs_in I es \<Longrightarrow> I \<subseteq> J \<Longrightarrow> refs_in J es"
  by (auto simp: refs_in_def)

definition parser_ok :: "llama_grammar_parser \<Rightarrow> bool" where
  "parser_ok P = (names_ok P \<and> numbered P \<and> (\<forall>rule \<in> set (gp_rules P). rule = [] \<or> (shape_ok rule \<and> refs_in (ids P) rule)))"

text \<open>Symbols are only added.\<close>

definition grown :: "llama_grammar_parser \<Rightarrow> llama_grammar_parser \<Rightarrow> bool" where
  "grown P P' = (parser_ok P' \<and> ids P \<subseteq> ids P')"

lemma grown_refl: "parser_ok P \<Longrightarrow> grown P P"
  by (simp add: grown_def)

lemma grown_trans: "grown P P1 \<Longrightarrow> grown P1 P2 \<Longrightarrow> grown P P2"
  by (auto simp: grown_def)

lemma parser_ok_more_ids:
  assumes "parser_ok P" and "names_ok P'" and "numbered P'" and "ids P \<subseteq> ids P'" and "gp_rules P' = gp_rules P"
  shows "grown P P'"
  using assms refs_in_mono by (fastforce simp: grown_def parser_ok_def)

lemma get_symbol_id_grown:
  assumes "parser_ok P" and "CHR ''_'' \<notin> set name" and "get_symbol_id name P = (v, P')"
  shows "grown P P' \<and> v \<in> ids P'"
proof (cases "map_of (gp_symbol_ids P) name")
  case None
  then have P': "P' = P\<lparr>gp_symbol_ids := gp_symbol_ids P @ [(name, v)]\<rparr>" using assms(3) by (auto simp: get_symbol_id_def Let_def)
  have "names_ok P'" using assms(1,2) unfolding P' by (auto simp: parser_ok_def names_ok_def)
  moreover have "numbered P'" using assms(1,3) None unfolding P' by (auto simp: parser_ok_def numbered_def get_symbol_id_def Let_def)
  moreover have "ids P' = insert v (ids P)" unfolding P' by (simp add: ids_def)
  moreover have "gp_rules P' = gp_rules P" unfolding P' by simp
  ultimately show ?thesis using parser_ok_more_ids [OF assms(1)] by auto
next
  case (Some w)
  then have "P' = P" "w = v" using assms(3) by (auto simp: get_symbol_id_def)
  moreover have "w \<in> ids P" using map_of_SomeD [OF Some] by (force simp: ids_def)
  ultimately show ?thesis using assms(1) by (simp add: grown_refl)
qed

lemma names_okD:
  "names_ok P \<Longrightarrow> (name, v) \<in> set (gp_symbol_ids P) \<Longrightarrow> CHR ''_'' \<in> set name \<Longrightarrow> \<exists>b. name = b @ ''_'' @ to_string (unat v)"
  unfolding names_ok_def by blast

lemma set_update_values: "\<forall>w. (k, w) \<in> set al \<longrightarrow> w = v \<Longrightarrow> set (AList.update k v al) = insert (k, v) (set al)"
  by (induction al) auto

lemma update_new: "k \<notin> fst ` set al \<Longrightarrow> AList.update k v al = al @ [(k, v)]"
  by (induction al) auto

lemma numbered_update:
  assumes "numbered P" and "\<And>w. (key, w) \<in> set (gp_symbol_ids P) \<Longrightarrow> w = of_nat (length (gp_symbol_ids P))"
  shows "numbered (P\<lparr>gp_symbol_ids := AList.update key (of_nat (length (gp_symbol_ids P))) (gp_symbol_ids P)\<rparr>)"
proof (cases "key \<in> fst ` set (gp_symbol_ids P)")
  case True
  then obtain w where "map_of (gp_symbol_ids P) key = Some w" by (metis map_of_eq_None_iff not_None_eq)
  then have "AList.update key (of_nat (length (gp_symbol_ids P))) (gp_symbol_ids P) = gp_symbol_ids P"
    using assms(2) map_of_SomeD by (metis AList.update_triv)
  then show ?thesis using assms(1) by simp
next
  case False
  then show ?thesis using assms(1) by (simp add: update_new numbered_def)
qed

lemma generate_symbol_id_symbols:
  assumes "names_ok P" and "numbered P" and "generate_symbol_id base_name P = (v, P')"
  shows "names_ok P' \<and> numbered P' \<and> ids P' = insert v (ids P) \<and> gp_rules P' = gp_rules P"
proof -
  let ?key = "base_name @ ''_'' @ to_string (unat v)"
  have P': "P' = P\<lparr>gp_symbol_ids := AList.update ?key v (gp_symbol_ids P)\<rparr>" and v: "v = of_nat (length (gp_symbol_ids P))"
    using assms(3) by (auto simp: generate_symbol_id_def Let_def)
  have same: "w = v" if key: "(?key, w) \<in> set (gp_symbol_ids P)" for w
  proof -
    have "CHR ''_'' \<in> set ?key" by simp
    then obtain b where "?key = b @ ''_'' @ to_string (unat w)"
      using names_okD [OF assms(1) key] by blast
    then show ?thesis using split_last_underscore by (metis word_unat_eq_iff)
  qed
  then have set: "set (gp_symbol_ids P') = insert (?key, v) (set (gp_symbol_ids P))" unfolding P' by (simp add: set_update_values)
  have "names_ok P'" using assms(1) unfolding names_ok_def set by (auto simp: names_ok_def)
  moreover have "numbered P'" using numbered_update [of P ?key] assms(2) same unfolding P' v [symmetric] by simp
  moreover have "ids P' = insert v (ids P)" by (simp add: ids_def set)
  moreover have "gp_rules P' = gp_rules P" unfolding P' by simp
  ultimately show ?thesis by simp
qed

lemma generate_symbol_id_grown:
  assumes "parser_ok P" and "generate_symbol_id base_name P = (v, P')"
  shows "grown P P' \<and> v \<in> ids P'"
  using generate_symbol_id_symbols [OF _ _ assms(2)] parser_ok_more_ids [OF assms(1)] assms(1) by (auto simp: parser_ok_def)

lemma add_rule_grown:
  assumes "parser_ok P" and "shape_ok rule" and "refs_in (ids P) rule"
  shows "grown P (add_rule v rule P)"
proof -
  let ?P' = "add_rule v rule P"
  have ids: "ids ?P' = ids P" and names: "names_ok ?P' = names_ok P" "numbered ?P' = numbered P"
    by (simp_all add: add_rule_def ids_def names_ok_def numbered_def Let_def)
  have "set (gp_rules ?P') \<subseteq> insert rule (set (gp_rules P @ replicate (unat v + 1 - length (gp_rules P)) []))"
    by (simp add: add_rule_def Let_def set_update_subset_insert del: set_append)
  then have "r = rule \<or> r = [] \<or> r \<in> set (gp_rules P)" if "r \<in> set (gp_rules ?P')" for r
    using that by (auto simp: in_set_replicate)
  then show ?thesis using assms unfolding grown_def parser_ok_def ids names by fastforce
qed

section \<open>Repetitions\<close>

lemma optional_rules_grown:
  assumes "parser_ok P" and "closed_part prev_rule" and "refs_in (ids P) prev_rule" and "i > 0 \<Longrightarrow> last_id \<in> ids P"
    and "optional_rules k i rule_name prev_rule unbounded last_id P = (v, P')"
  shows "grown P P' \<and> (k > 0 \<or> last_id \<in> ids P \<longrightarrow> v \<in> ids P')"
  using assms
proof (induction k arbitrary: i last_id P)
  case 0
  then show ?case by (simp add: grown_refl)
next
  case (Suc k)
  obtain w P1 where gen: "generate_symbol_id rule_name P = (w, P1)" by fastforce
  then have P1: "grown P P1" "w \<in> ids P1" using generate_symbol_id_grown [OF Suc.prems(1)] by auto
  define opt where "opt = (if i > 0 \<or> unbounded then [elem LLAMA_GRETYPE_RULE_REF (if unbounded then w else last_id)] else [])"
  define rec_rule where "rec_rule = prev_rule @ opt @ [elem LLAMA_GRETYPE_ALT 0, elem LLAMA_GRETYPE_END 0]"
  have "closed_part opt" by (simp add: opt_def)
  then have "closed_part (prev_rule @ opt @ [elem LLAMA_GRETYPE_ALT 0])" using Suc.prems(2) by (blast intro: closed_part_elem)
  then have "shape_ok rec_rule" using shape_ok_END by (fastforce simp: rec_rule_def closed_part_def)
  moreover have ids: "ids P \<subseteq> ids P1" "parser_ok P1" using P1 by (auto simp: grown_def)
  then have "refs_in (ids P1) opt" using P1(2) Suc.prems(4) by (auto simp: opt_def elem_def)
  then have "refs_in (ids P1) rec_rule" using refs_in_mono [OF Suc.prems(3) ids(1)] by (simp add: rec_rule_def elem_def)
  ultimately have P2: "grown P1 (add_rule w rec_rule P1)" using add_rule_grown ids(2) by blast
  then have P2': "parser_ok (add_rule w rec_rule P1)" "ids P1 \<subseteq> ids (add_rule w rec_rule P1)" by (auto simp: grown_def)
  have "optional_rules k (i + 1) rule_name prev_rule unbounded w (add_rule w rec_rule P1) = (v, P')"
    using Suc.prems(5) gen by (simp add: rec_rule_def opt_def)
  from Suc.IH [OF P2'(1) Suc.prems(2) _ _ this] have "grown (add_rule w rec_rule P1) P' \<and> v \<in> ids P'"
    using refs_in_mono [OF Suc.prems(3)] ids P2' P1(2) by blast
  then show ?case using grown_trans P1(1) P2 by blast
qed

text \<open>The rule read so far: what comes before the last symbol, and that symbol.\<close>

definition part_ok :: "llama_grammar_parser \<Rightarrow> nat \<Rightarrow> llama_grammar_rule \<Rightarrow> bool" where
  "part_ok P k rule = (k \<le> length rule \<and> closed_part (take k rule) \<and> closed_part (drop k rule) \<and> refs_in (ids P) rule)"

lemma part_ok_closed: "part_ok P k rule \<Longrightarrow> closed_part rule"
  unfolding part_ok_def by (metis append_take_drop_id closed_part_append)

lemma part_ok_snoc: "part_ok P k rule \<Longrightarrow> closed_part cs \<Longrightarrow> refs_in (ids P') cs \<Longrightarrow> ids P \<subseteq> ids P' \<Longrightarrow> part_ok P' (length rule) (rule @ cs)"
  using part_ok_closed [of P k rule] refs_in_mono [of "ids P" rule "ids P'"] by (simp add: part_ok_def)

lemma refs_in_concat: "\<forall>xs \<in> set xss. refs_in I xs \<Longrightarrow> refs_in I (concat xss)"
  by (induction xss) auto

lemma refs_in_take_drop: "refs_in I es \<Longrightarrow> refs_in I (take k es) \<and> refs_in I (drop k es)"
  by (auto simp: refs_in_def dest: in_set_takeD in_set_dropD)

lemma handle_repetitions_grown:
  assumes "parser_ok P" and "part_ok P k rule" and "handle_repetitions min_times max_times rule_name k rule P = Ret (rule', P')"
  shows "grown P P' \<and> part_ok P' k rule'"
proof (cases "k < length rule")
  case True
  define prev where "prev = drop k rule"
  define kept where "kept = (if min_times = 0 then [] else prev @ concat (replicate (nat (min_times - 1)) prev))"
  define n_opt where "n_opt = optional_count min_times max_times"
  obtain v where opt: "optional_rules (nat n_opt) 0 rule_name prev (max_times < 0) 0 P = (v, P')"
    and rule': "rule' = take k rule @ kept @ (if n_opt > 0 then [elem LLAMA_GRETYPE_RULE_REF v] else [])"
    using assms(3) by (auto simp: handle_repetitions_def Let_def prev_def kept_def n_opt_def split: if_splits prod.splits)
  have prev: "closed_part prev" "refs_in (ids P) prev" and front: "closed_part (take k rule)" "refs_in (ids P) (take k rule)"
    using assms(2) refs_in_take_drop by (auto simp: part_ok_def prev_def)
  from optional_rules_grown [OF assms(1) prev _ opt] have P': "grown P P'" "n_opt > 0 \<longrightarrow> v \<in> ids P'" by auto
  have "closed_part kept" "refs_in (ids P) kept"
    using prev by (auto simp: kept_def intro!: closed_part_append closed_part_concat refs_in_concat)
  moreover have "closed_part (kept @ (if n_opt > 0 then [elem LLAMA_GRETYPE_RULE_REF v] else []))"
    by (rule closed_part_append) (use calculation in auto)
  moreover have "ids P \<subseteq> ids P'" using P'(1) by (simp add: grown_def)
  ultimately show ?thesis
    using P' front True refs_in_mono [of "ids P" _ "ids P'"] unfolding rule' by (auto simp: part_ok_def elem_def)
next
  case False
  then show ?thesis using assms by (auto simp: handle_repetitions_def part_ok_def Let_def split: if_splits prod.splits)
qed

section \<open>Sequences, alternates and rules\<close>

definition keeps_parser :: "alternates_parser \<Rightarrow> bool" where
  "keeps_parser nested = (\<forall>s name v nest P s' P'. parser_ok P \<and> nested s name v nest P = Ret (s', P') \<longrightarrow> grown P P')"

lemma parse_name_Ret: "parse_name s = Ret (name, s') \<Longrightarrow> CHR ''_'' \<notin> set name"
proof
  assume "parse_name s = Ret (name, s')" and "CHR ''_'' \<in> set name"
  then have "CHR ''_'' \<in> set (takeWhile is_word_char s)" by (auto simp: parse_name_def Let_def split: if_splits)
  then have "is_word_char CHR ''_''" by (rule set_takeWhileD [THEN conjunct2])
  then show False by (simp add: is_word_char_def is_digit_char_def code_def)
qed

lemma literal_loop_closed: "literal_loop m s rule = Ret (s', rule') \<Longrightarrow> \<exists>cs. rule' = rule @ cs \<and> closed_part cs \<and> refs_in I cs"
  by (drule literal_loop_chars) (auto simp: closed_chars refs_in_def elem_def)

lemma class_loop_closed:
  assumes "class_loop m type (length rule) s rule = Ret (s', rule')" and "type = LLAMA_GRETYPE_CHAR \<or> type = LLAMA_GRETYPE_CHAR_NOT"
  shows "\<exists>cs. rule' = rule @ cs \<and> closed_part cs \<and> refs_in I cs"
  using class_loop_class [of m type rule s "[]" s' rule'] assms
  by (auto simp: refs_in_def class_part_Nil dest: class_part_closed class_part_refs)

lemma get_symbol_id_part:
  assumes "parser_ok P" and "part_ok P k rule" and "CHR ''_'' \<notin> set name" and "get_symbol_id name P = (v, P')"
  shows "grown P P' \<and> part_ok P' (length rule) (rule @ [elem LLAMA_GRETYPE_RULE_REF v])"
  using get_symbol_id_grown [OF assms(1,3,4)] by (auto simp: grown_def elem_def [of LLAMA_GRETYPE_RULE_REF] intro!: part_ok_snoc [OF assms(2)] closed_part_elem(1) [unfolded elem_def])

lemma symbol_not_word: "c \<in> {CHR 0x22, CHR ''['', CHR ''('', CHR ''.'', CHR ''*'', CHR ''+'', CHR ''?'', CHR ''{''} \<Longrightarrow> \<not> is_word_char c"
  by (auto simp: is_word_char_def is_digit_char_def code_def)

text \<open>One turn of the loop of \<open>parse_sequence\<close>: it ends, or goes on with a part that is as good.\<close>

lemma sequence_loop_turn:
  assumes "parser_ok P" and "part_ok P k rule" and "keeps_parser nested"
    and "sequence_loop (Suc m) nested s rule_name is_nested k rule P = Ret (s', rule', P')"
  shows "rule' = rule \<and> P' = P \<or>
    (\<exists>s1 k1 rule1 P1. grown P P1 \<and> part_ok P1 k1 rule1 \<and> sequence_loop m nested s1 rule_name is_nested k1 rule1 P1 = Ret (s', rule', P'))"
proof -
  have snoc: "part_ok P (length rule) (rule @ cs)" if "closed_part cs" "refs_in (ids P) cs" for cs
    using part_ok_snoc [OF assms(2) that] by simp
  have again: "\<exists>rule1 P1. grown P P1 \<and> part_ok P1 k rule1 \<and> sequence_loop m nested s1 rule_name is_nested k rule1 P1 = Ret (s', rule', P')"
    if "run_bind (handle_repetitions a b rule_name k rule P) (\<lambda>(rule, P). sequence_loop m nested s1 rule_name is_nested k rule P) = Ret (s', rule', P')"
    for a b s1
    using that handle_repetitions_grown [OF assms(1,2)] by (fastforce simp: run_bind_Ret)
  note same = grown_refl [OF assms(1)]
  consider "s = []" | "s \<noteq> []" "peek s = CHR 0x22" | "s \<noteq> []" "peek s = CHR ''[''" | "s \<noteq> []" "is_word_char (peek s)" | "s \<noteq> []" "peek s = CHR ''(''"
    | "s \<noteq> []" "peek s = CHR ''.''" | "s \<noteq> []" "peek s \<in> {CHR ''*'', CHR ''+'', CHR ''?'', CHR ''{''}"
    | "s \<noteq> []" "peek s \<notin> {CHR 0x22, CHR ''['', CHR ''('', CHR ''.'', CHR ''*'', CHR ''+'', CHR ''?'', CHR ''{''}" "\<not> is_word_char (peek s)" by blast
  then show ?thesis
  proof cases
    case 1
    then show ?thesis using assms(4) by simp
  next
    case 2
    then obtain s1 rule1 where lit: "literal_loop m (tl s) rule = Ret (s1, rule1)"
      and go: "sequence_loop m nested (parse_space (tl s1) is_nested) rule_name is_nested (length rule) rule1 P = Ret (s', rule', P')"
      using assms(4) by (auto simp: run_bind_Ret)
    from literal_loop_closed [OF lit, of "ids P"] snoc have "part_ok P (length rule) rule1" by blast
    then show ?thesis using go same by blast
  next
    case 3
    then obtain s0 s1 rule1 type where cls: "class_loop m type (length rule) s0 rule = Ret (s1, rule1)" "type = LLAMA_GRETYPE_CHAR \<or> type = LLAMA_GRETYPE_CHAR_NOT"
      and go: "sequence_loop m nested (parse_space (tl s1) is_nested) rule_name is_nested (length rule) rule1 P = Ret (s', rule', P')"
      using assms(4) by (auto simp: run_bind_Ret Let_def split: if_splits)
    from class_loop_closed [OF cls, of "ids P"] snoc have "part_ok P (length rule) rule1" by blast
    then show ?thesis using go same by blast
  next
    case 4
    then have "peek s \<noteq> CHR 0x22" "peek s \<noteq> CHR ''[''" by (auto simp: is_word_char_def is_digit_char_def code_def)
    with 4 obtain name s1 where name: "parse_name s = Ret (name, s1)" and rest: "(case get_symbol_id name P of (v, P1) \<Rightarrow>
        sequence_loop m nested (parse_space s1 is_nested) rule_name is_nested (length rule) (rule @ [elem LLAMA_GRETYPE_RULE_REF v]) P1) = Ret (s', rule', P')"
      using assms(4) by (auto simp: run_bind_Ret [of "parse_name s"] Let_def)
    obtain v P1 where id: "get_symbol_id name P = (v, P1)" by fastforce
    then have "sequence_loop m nested (parse_space s1 is_nested) rule_name is_nested (length rule) (rule @ [elem LLAMA_GRETYPE_RULE_REF v]) P1 = Ret (s', rule', P')"
      using rest by simp
    then show ?thesis using get_symbol_id_part [OF assms(1,2) parse_name_Ret [OF name] id] by blast
  next
    case 5
    then obtain v P1 s1 P2 where id: "generate_symbol_id rule_name P = (v, P1)"
      and group: "nested (parse_space (tl s) True) rule_name v True P1 = Ret (s1, P2)"
      and go: "sequence_loop m nested (parse_space (tl s1) is_nested) rule_name is_nested (length rule) (rule @ [elem LLAMA_GRETYPE_RULE_REF v]) P2 = Ret (s', rule', P')"
      using assms(4) by (auto simp: run_bind_Ret Let_def symbol_not_word split: prod.split_asm if_splits)
    have P1: "grown P P1" "v \<in> ids P1" using generate_symbol_id_grown [OF assms(1) id] by auto
    then have P2: "grown P1 P2" using assms(3) group by (auto simp: keeps_parser_def grown_def)
    then have "part_ok P2 (length rule) (rule @ [elem LLAMA_GRETYPE_RULE_REF v])"
      using P1 by (intro part_ok_snoc [OF assms(2)]) (auto simp: grown_def elem_def [of LLAMA_GRETYPE_RULE_REF] intro: closed_part_elem(1) [unfolded elem_def])
    then show ?thesis using go grown_trans [OF P1(1) P2] by blast
  next
    case 6
    then have go: "sequence_loop m nested (parse_space (tl s) is_nested) rule_name is_nested (length rule) (rule @ [elem LLAMA_GRETYPE_CHAR_ANY 0]) P = Ret (s', rule', P')"
      using assms(4) by (simp add: Let_def symbol_not_word)
    have "part_ok P (length rule) (rule @ [elem LLAMA_GRETYPE_CHAR_ANY 0])" by (rule snoc) (simp_all, simp add: elem_def)
    then show ?thesis using go same by blast
  next
    case 7
    then obtain a b s1 where "run_bind (handle_repetitions a b rule_name k rule P) (\<lambda>(rule, P). sequence_loop m nested s1 rule_name is_nested k rule P) = Ret (s', rule', P')"
      using assms(4) by (auto simp: Let_def symbol_not_word run_bind_Ret [of "parse_bounds _ _"])
    then show ?thesis using again by blast
  next
    case 8
    then show ?thesis using assms(4) by (simp add: Let_def)
  qed
qed

lemma sequence_loop_grown:
  assumes "parser_ok P" and "part_ok P k rule" and "keeps_parser nested"
    and "sequence_loop m nested s rule_name is_nested k rule P = Ret (s', rule', P')"
  shows "grown P P' \<and> closed_part rule' \<and> refs_in (ids P') rule'"
  using assms
proof (induction m arbitrary: s k rule P)
  case (Suc m)
  from sequence_loop_turn [OF Suc.prems] consider "rule' = rule" "P' = P"
    | s1 k1 rule1 P1 where "grown P P1" "part_ok P1 k1 rule1" "sequence_loop m nested s1 rule_name is_nested k1 rule1 P1 = Ret (s', rule', P')"
    by blast
  then show ?case
  proof cases
    case 1
    then show ?thesis using grown_refl [OF Suc.prems(1)] part_ok_closed [OF Suc.prems(2)] Suc.prems(2) by (simp add: part_ok_def)
  next
    case 2
    then show ?thesis using Suc.IH [OF _ 2(2) Suc.prems(3) 2(3)] grown_trans [OF 2(1)] by (auto simp: grown_def)
  qed
qed simp

lemma part_ok_all: "closed_part rule \<Longrightarrow> refs_in (ids P) rule \<Longrightarrow> part_ok P (length rule) rule"
  by (simp add: part_ok_def)

lemma alternates_loop_grown:
  assumes "keeps_parser nested" and "parser_ok P" and "closed_part rule" and "refs_in (ids P) rule"
    and "alternates_loop k (\<lambda>s last_sym_start rule P. sequence_loop m nested s rule_name is_nested last_sym_start rule P) s v rule P = Ret (s', P')"
  shows "grown P P'"
  using assms(2-)
proof (induction k arbitrary: s rule P)
  case (Suc k)
  show ?case
  proof (cases "peek s = CHR ''|''")
    case True
    let ?rule = "rule @ [elem LLAMA_GRETYPE_ALT 0]"
    from True Suc.prems(4) obtain s1 rule1 P1 where
      seq: "sequence_loop m nested (parse_space (tl s) True) rule_name is_nested (length ?rule) ?rule P = Ret (s1, rule1, P1)"
      and more: "alternates_loop k (\<lambda>s last_sym_start rule P. sequence_loop m nested s rule_name is_nested last_sym_start rule P) s1 v rule1 P1 = Ret (s', P')"
      by (auto simp: run_bind_Ret Let_def)
    have "part_ok P (length ?rule) ?rule"
      by (rule part_ok_all) (use Suc.prems(2,3) in \<open>auto simp: elem_def [of LLAMA_GRETYPE_ALT] intro: closed_part_elem(2) [unfolded elem_def]\<close>)
    from sequence_loop_grown [OF Suc.prems(1) this assms(1) seq] Suc.IH [OF _ _ _ more] grown_trans show ?thesis
      by (auto simp: grown_def)
  next
    case False
    then have P': "P' = add_rule v (rule @ [elem LLAMA_GRETYPE_END 0]) P" using Suc.prems(4) by simp
    show ?thesis unfolding P'
      using Suc.prems(2,3) shape_ok_END by (intro add_rule_grown Suc.prems(1)) (auto simp: closed_part_def elem_def)
  qed
qed simp

lemma parse_alternates_grown: "keeps_parser (parse_alternates n m)"
proof (induction n)
  case 0
  then show ?case by (simp add: keeps_parser_def)
next
  case (Suc n)
  show ?case unfolding keeps_parser_def
  proof (intro allI impI, elim conjE)
    fix s name v nest P s' P'
    assume P: "parser_ok P" and run: "parse_alternates (Suc n) m s name v nest P = Ret (s', P')"
    then obtain s1 rule1 P1 where seq: "sequence_loop m (parse_alternates n m) s name nest 0 [] P = Ret (s1, rule1, P1)"
      and more: "alternates_loop m (\<lambda>s last_sym_start rule P. sequence_loop m (parse_alternates n m) s name nest last_sym_start rule P) s1 v rule1 P1 = Ret (s', P')"
      by (auto simp: run_bind_Ret)
    have "part_ok P 0 []" by (simp add: part_ok_def)
    from sequence_loop_grown [OF P this Suc seq] alternates_loop_grown [OF Suc _ _ _ more] grown_trans show "grown P P'"
      by (auto simp: grown_def)
  qed
qed

lemma parse_rule_grown:
  assumes "parser_ok P" and "parse_rule n m s P = Ret (s', P')"
  shows "grown P P'"
proof -
  from assms(2) obtain name s1 where name: "parse_name s = Ret (name, s1)" and rest: "(case get_symbol_id name P of (v, P1) \<Rightarrow>
      if take 3 (parse_space s1 False) \<noteq> ''::='' then Abort
      else run_bind (parse_alternates n m (parse_space (drop 3 (parse_space s1 False)) True) name v False P1)
        (\<lambda>(s, P). run_bind (end_of_rule s) (\<lambda>s. Ret (s, P)))) = Ret (s', P')"
    by (auto simp: parse_rule_def run_bind_Ret [of "parse_name s"] Let_def)
  obtain v P1 where id: "get_symbol_id name P = (v, P1)" by fastforce
  with rest have "run_bind (parse_alternates n m (parse_space (drop 3 (parse_space s1 False)) True) name v False P1)
        (\<lambda>(s, P). run_bind (end_of_rule s) (\<lambda>s. Ret (s, P))) = Ret (s', P')" by (simp split: if_splits)
  then obtain s2 where "parse_alternates n m (parse_space (drop 3 (parse_space s1 False)) True) name v False P1 = Ret (s2, P')"
    by (auto simp: run_bind_Ret)
  moreover have P1: "grown P P1" using get_symbol_id_grown [OF assms(1) parse_name_Ret [OF name] id] by simp
  ultimately show ?thesis using parse_alternates_grown grown_trans by (fastforce simp: keeps_parser_def grown_def)
qed

lemma rules_loop_grown: "parser_ok P \<Longrightarrow> rules_loop k n m s P = Ret P' \<Longrightarrow> grown P P'"
proof (induction k arbitrary: s P)
  case (Suc k)
  then show ?case using parse_rule_grown grown_trans
    by (auto simp: run_bind_Ret grown_refl split: if_splits) (metis grown_def)
qed simp

section \<open>Well-formed rules\<close>

lemma char_ranges_subset: "set (snd (char_ranges es)) \<subseteq> set es"
  by (induction es rule: char_ranges.induct) auto

lemma wf_elements_bounded:
  "wf_elements m es \<Longrightarrow> \<forall>e \<in> set es. ge_type e = LLAMA_GRETYPE_RULE_REF \<longrightarrow> unat (ge_value e) < n \<Longrightarrow> wf_elements n es"
proof (induction m es rule: wf_elements.induct)
  case (2 m e es)
  have "\<forall>x \<in> set (snd (char_ranges (e # es))). ge_type x = LLAMA_GRETYPE_RULE_REF \<longrightarrow> unat (ge_value x) < n"
    using "2.prems"(2) char_ranges_subset [of "e # es"] by blast
  then show ?case using 2 by (cases "ge_type e") (auto simp del: char_ranges.simps)
qed simp

text \<open>A rule ends with its only \<open>LLAMA_GRETYPE_END\<close>, so that copying keeps it but for the value there.\<close>

lemma char_ranges_last:
  assumes "wf_elements n (snd (char_ranges (e # es)))"
  shows "last (e # es) = last (snd (char_ranges (e # es)))"
proof -
  have "es \<noteq> []" "snd (char_ranges (e # es)) \<noteq> []" using assms by auto
  then show ?thesis using char_ranges_chunk [of es e] by (metis last_ConsR last_appendR append_is_Nil_conv)
qed

lemma wf_elements_last: "wf_elements n es \<Longrightarrow> ge_type (last es) = LLAMA_GRETYPE_END"
proof (induction n es rule: wf_elements.induct)
  case (2 n e es)
  show ?case
  proof (cases "ge_type e")
    case LLAMA_GRETYPE_CHAR
    then show ?thesis using 2 char_ranges_last [of n e es] by (simp del: char_ranges.simps)
  next
    case LLAMA_GRETYPE_CHAR_NOT
    then show ?thesis using 2 char_ranges_last [of n e es] by (simp del: char_ranges.simps)
  qed (use 2 in \<open>auto simp del: char_ranges.simps\<close>)
qed simp

text \<open>What a text that is accepted gives.\<close>

lemma parse_Some:
  assumes "parse n src = Ret (Some P)"
  shows "rules_loop n n n (parse_space (c_str src) True) no_parser = Ret P \<and> validate P \<and> parser_ok P"
proof -
  have loop: "rules_loop n n n (parse_space (c_str src) True) no_parser = Ret P" "validate P"
    using assms by (auto simp: parse_def split: run.splits if_splits)
  have "parser_ok no_parser" by (simp add: parser_ok_def no_parser_def names_ok_def numbered_def)
  with loop show ?thesis using rules_loop_grown by (auto simp: grown_def)
qed

lemma validated_wf:
  assumes "parser_ok P" and "validate P" and "rule \<in> set (gp_rules P)"
  shows "wf_elements (length (gp_rules P)) rule"
proof -
  have rule: "rule \<noteq> []" "\<forall>e \<in> set rule. \<not> undefined_ref P e" using assms(2,3) by (auto simp: validate_def list_all_iff)
  moreover have "shape_ok rule" "refs_in (ids P) rule" using assms(1,3) rule(1) by (auto simp: parser_ok_def)
  ultimately have "\<forall>e \<in> set rule. ge_type e = LLAMA_GRETYPE_RULE_REF \<longrightarrow> unat (ge_value e) < length (gp_rules P)"
    by (force simp: refs_in_def undefined_ref_def ids_def)
  then show ?thesis using wf_elements_bounded \<open>shape_ok rule\<close> unfolding shape_ok_def by blast
qed

lemma copy_rule_id:
  assumes "shape_ok rule"
  shows "copy_rule rule = rule"
proof -
  have wf: "wf_elements (2 ^ 32) rule" "last rule = elem LLAMA_GRETYPE_END 0" using assms by (simp_all add: shape_ok_def)
  obtain xs where "rule = xs @ [elem LLAMA_GRETYPE_END 0]" using wf_elements_end [OF wf(1)] wf(2) by (metis append_butlast_last_id)
  then show ?thesis using wf_elements_end [OF wf(1)] wf_elements_last [OF wf(1)] by (simp add: copy_rule_def)
qed

lemma parsed_rules:
  assumes "parse n src = Ret (Some P)"
  shows "map copy_rule (gp_rules P) = gp_rules P \<and> wf_rules (gp_rules P)"
proof -
  note P = parse_Some [OF assms]
  have "copy_rule rule = rule \<and> wf_elements (length (gp_rules P)) rule" if "rule \<in> set (gp_rules P)" for rule
    using P that validated_wf copy_rule_id by (fastforce simp: parser_ok_def validate_def list_all_iff)
  then show ?thesis by (simp add: wf_rules_def map_idI)
qed

text \<open>
  C13. Every text that the parser of grammars accepts gives well-formed rules: alternates of whole classes
  and of references to existing rules, each rule closed by its only end mark, so that
  \<open>llama_grammar_init_impl\<close> copies the rules as they are and what is shown of well-formed rules applies.
\<close>

theorem parsed_rules_well_formed:
  assumes "parse n src = Ret (Some P)"
  shows "wf_rules (gp_rules P) \<and> map copy_rule (gp_rules P) = gp_rules P"
  using parsed_rules [OF assms] by simp

definition sample_text :: string where
  "sample_text = ''root ::= [^b-d] (x | .)*'' @ [CHR 0x0A] @ ''x ::= \"a\"{1,2}''"

theorem parsed_rules_well_formed_witness:
  "\<exists>P. parse 50 sample_text = Ret (Some P) \<and> length (gp_rules P) = 5 \<and> wf_rules (gp_rules P)"
proof -
  have "case parse 50 sample_text of Ret (Some P) \<Rightarrow> length (gp_rules P) = 5 | _ \<Rightarrow> False" by code_simp
  then obtain P where P: "parse 50 sample_text = Ret (Some P)" "length (gp_rules P) = 5"
    by (auto split: run.splits option.splits)
  with parsed_rules_well_formed [OF P(1)] show ?thesis by blast
qed

section \<open>A root without a rule\<close>

text \<open>
  A reference that is repeated no times leaves its symbol without a rule. The validation looks at the rules
  only, so \<open>a ::= root{0}\<close> is accepted with a symbol \<open>root\<close> whose id is past the rules, and
  \<open>llama_grammar_init_impl\<close> reads \<open>vec_rules\<close> there.
\<close>

lemma root_without_rule:
  "\<exists>P v. parse 20 ''a ::= root{0}'' = Ret (Some P) \<and> map_of (gp_symbol_ids P) ''root'' = Some v \<and> length (gp_rules P) \<le> unat v"
proof -
  have "case parse 20 ''a ::= root{0}'' of
      Ret (Some P) \<Rightarrow> (case map_of (gp_symbol_ids P) ''root'' of Some v \<Rightarrow> length (gp_rules P) \<le> unat v | None \<Rightarrow> False)
    | _ \<Rightarrow> False" by code_simp
  then show ?thesis by (auto split: run.splits option.splits)
qed

text \<open>A lower bound of \<open>2 ^ 32 - 1\<close> is the \<open>int\<close> -1, and the upper bound with it: any number of copies.\<close>

lemma bound_wraps: "parse_bounds ''4294967295}'' False = Ret ((-1, -1), [])"
  by code_simp

end
