(* ===== verification/Grammar_Repetition.thy ===== *)
theory Grammar_Repetition
  imports Grammar_Parser_Props
begin

text \<open>
  What the rewriting of repetitions means: the rules that the parser makes for \<open>x{m,n}\<close>, \<open>x*\<close>, \<open>x+\<close>
  and \<open>x?\<close> derive the texts of as many copies of \<open>x\<close> as the bounds allow.
\<close>

section \<open>Parts of a sequence\<close>

text \<open>A part of a sequence: whole classes and references, without an end mark or an alternate.\<close>

definition sequence_part :: "llama_grammar_element list \<Rightarrow> bool" where
  "sequence_part xs = (wf_elements (2 ^ 32) (xs @ [elem LLAMA_GRETYPE_END 0]) \<and>
     list_all (\<lambda>e. ge_type e \<noteq> LLAMA_GRETYPE_ALT) xs)"

definition part_symbols :: "llama_grammar_element list \<Rightarrow> symbol list" where
  "part_symbols xs = symbols_of (xs @ [elem LLAMA_GRETYPE_END 0])"

definition starts_ok :: "llama_grammar_element list \<Rightarrow> bool" where
  "starts_ok ys = (ys \<noteq> [] \<and> ge_type (hd ys) \<notin> {LLAMA_GRETYPE_CHAR_RNG_UPPER, LLAMA_GRETYPE_CHAR_ALT})"

lemma char_ranges_rest:
  assumes "starts_ok ys" and "wf_elements n (snd (char_ranges (e # es @ [elem LLAMA_GRETYPE_END 0])))"
  shows "\<exists>es'. snd (char_ranges (e # es @ [elem LLAMA_GRETYPE_END 0])) = es' @ [elem LLAMA_GRETYPE_END 0] \<and> set es' \<subseteq> set es \<and>
    char_ranges (e # es @ ys) = (fst (char_ranges (e # es @ [elem LLAMA_GRETYPE_END 0])), es' @ ys) \<and> length es' \<le> length es"
  using assms(2)
proof (induction "length es" arbitrary: e es rule: less_induct)
  case less
  obtain y ys' where ys: "ys = y # ys'" "ge_type y \<notin> {LLAMA_GRETYPE_CHAR_RNG_UPPER, LLAMA_GRETYPE_CHAR_ALT}"
    using assms(1) by (cases ys) (auto simp: starts_ok_def)
  show ?case
  proof (cases es)
    case Nil
    then show ?thesis using ys by (auto simp: elem_def)
  next
    case (Cons f fs)
    consider "ge_type f = LLAMA_GRETYPE_CHAR_RNG_UPPER" "fs = []" | g gs where "ge_type f = LLAMA_GRETYPE_CHAR_RNG_UPPER" "fs = g # gs"
      | "ge_type f = LLAMA_GRETYPE_CHAR_ALT" | "ge_type f \<noteq> LLAMA_GRETYPE_CHAR_RNG_UPPER" "ge_type f \<noteq> LLAMA_GRETYPE_CHAR_ALT"
      by (cases fs) auto
    then show ?thesis
    proof cases
      case 1
      then show ?thesis using ys Cons by (auto simp: elem_def)
    next
      case 2
      then show ?thesis
        using less.hyps [of gs g] less.prems Cons by (cases "ge_type g = LLAMA_GRETYPE_CHAR_ALT") auto
    next
      case 3
      then show ?thesis using less.hyps [of fs f] less.prems Cons by auto
    next
      case 4
      then show ?thesis using Cons by auto
    qed
  qed
qed

lemma part_symbols_append:
  assumes "starts_ok ys" and "sequence_part xs"
  shows "symbols_of (xs @ ys) = part_symbols xs @ symbols_of ys"
  using assms(2)
proof (induction "length xs" arbitrary: xs rule: less_induct)
  case less
  show ?case
  proof (cases xs)
    case Nil
    then show ?thesis by (simp add: part_symbols_def elem_def)
  next
    case (Cons e es)
    have wf: "wf_elements (2 ^ 32) (e # es @ [elem LLAMA_GRETYPE_END 0])" and alts: "list_all (\<lambda>e. ge_type e \<noteq> LLAMA_GRETYPE_ALT) xs"
      using less.prems Cons by (simp_all add: sequence_part_def del: wf_elements.simps)
    have IH: "symbols_of (es' @ ys) = part_symbols es' @ symbols_of ys"
      if "length es' \<le> length es" "set es' \<subseteq> set es" "wf_elements (2 ^ 32) (es' @ [elem LLAMA_GRETYPE_END 0])" for es'
      using that less.hyps [of es'] alts Cons by (auto simp: sequence_part_def list_all_iff)
    have cls: "\<exists>es'. snd (char_ranges (e # es @ [elem LLAMA_GRETYPE_END 0])) = es' @ [elem LLAMA_GRETYPE_END 0] \<and>
        char_ranges (e # es @ ys) = (fst (char_ranges (e # es @ [elem LLAMA_GRETYPE_END 0])), es' @ ys) \<and>
        symbols_of (es' @ ys) = part_symbols es' @ symbols_of ys"
      if "wf_elements (2 ^ 32) (snd (char_ranges (e # es @ [elem LLAMA_GRETYPE_END 0])))"
      using char_ranges_rest [OF assms(1) that] that IH by fastforce
    show ?thesis
    proof (cases "ge_type e")
      case LLAMA_GRETYPE_CHAR
      then show ?thesis using cls wf Cons by (auto simp: part_symbols_def simp del: char_ranges.simps)
    next
      case LLAMA_GRETYPE_CHAR_NOT
      then show ?thesis using cls wf Cons by (auto simp: part_symbols_def simp del: char_ranges.simps)
    qed (use wf alts IH Cons in \<open>auto simp: part_symbols_def\<close>)
  qed
qed

section \<open>The rules of the optional repetitions\<close>

lemma starts_ok_elem: "ge_type e \<notin> {LLAMA_GRETYPE_CHAR_RNG_UPPER, LLAMA_GRETYPE_CHAR_ALT} \<Longrightarrow> starts_ok (e # es)"
  by (simp add: starts_ok_def)

lemma only_alternate:
  "\<forall>e \<in> set zs. ge_type e \<noteq> LLAMA_GRETYPE_ALT \<Longrightarrow> ge_type a = LLAMA_GRETYPE_ALT \<Longrightarrow> ge_type e \<noteq> LLAMA_GRETYPE_ALT \<Longrightarrow>
   zs @ [b, e] = xs @ a # ys \<Longrightarrow> ys = [e]"
proof (induction zs arbitrary: xs)
  case Nil
  then show ?case by (auto simp: Cons_eq_append_conv)
next
  case (Cons z zs)
  then show ?case by (cases xs) auto
qed

lemma two_productions:
  assumes "rules ! r = zs @ [b, e]" and "\<forall>e \<in> set zs. ge_type e \<noteq> LLAMA_GRETYPE_ALT"
    and "ge_type b = LLAMA_GRETYPE_ALT" and "ge_type e = LLAMA_GRETYPE_END"
  shows "productions rules r = {symbols_of (rules ! r), []}"
proof -
  have last: "ys = [e]" if "rules ! r = xs @ a # ys" "ge_type a = LLAMA_GRETYPE_ALT" for xs a ys
    using only_alternate [OF assms(2) that(2), of e b xs ys] that(1) assms(1,4) by simp
  have "symbols_of [e] = []" using assms(4) by simp
  then have "productions rules r \<subseteq> {symbols_of (rules ! r), []}" using last by (fastforce simp: productions_def)
  moreover have "rules ! r = zs @ b # [e]" using assms(1) by simp
  then have "symbols_of [e] \<in> productions rules r" "symbols_of (rules ! r) \<in> productions rules r"
    using assms(3) unfolding productions_def by blast+
  ultimately show ?thesis using \<open>symbols_of [e] = []\<close> by auto
qed

text \<open>The rule \<open>x r |\<close>, or \<open>x |\<close>.\<close>

lemma optional_productions:
  assumes "sequence_part prev" and "opt = [] \<or> opt = [elem LLAMA_GRETYPE_RULE_REF u]"
    and "rules ! r = prev @ opt @ [elem LLAMA_GRETYPE_ALT 0, elem LLAMA_GRETYPE_END 0]"
  shows "productions rules r = {part_symbols prev @ (if opt = [] then [] else [Rule (unat u)]), []}"
proof -
  let ?tail = "opt @ [elem LLAMA_GRETYPE_ALT 0, elem LLAMA_GRETYPE_END 0]"
  have "symbols_of (prev @ ?tail) = part_symbols prev @ symbols_of ?tail"
    using assms(1,2) by (intro part_symbols_append) (auto simp: starts_ok_def elem_def)
  moreover have "symbols_of ?tail = (if opt = [] then [] else [Rule (unat u)])"
    using assms(2) by (auto simp: elem_def)
  moreover have "\<forall>e \<in> set (prev @ opt). ge_type e \<noteq> LLAMA_GRETYPE_ALT"
    using assms(1,2) by (auto simp: sequence_part_def list_all_iff elem_def)
  then have "productions rules r = {symbols_of (rules ! r), []}"
    by (intro two_productions [of _ _ "prev @ opt" "elem LLAMA_GRETYPE_ALT 0" "elem LLAMA_GRETYPE_END 0"]) (simp_all add: assms(3) elem_def)
  ultimately show ?thesis using assms(3) by simp
qed

definition copies :: "nat \<Rightarrow> symbol list \<Rightarrow> symbol list" where
  "copies t ss = concat (replicate t ss)"

lemma copies_simps [simp]: "copies 0 ss = []" "copies (Suc t) ss = ss @ copies t ss"
  by (simp_all add: copies_def)

lemma copies_add: "copies (s + t) ss = copies s ss @ copies t ss"
  by (simp add: copies_def replicate_add)

lemma derives_one_rule: "derives rules [Rule r] w = (\<exists>p \<in> productions rules r. derives rules p w)"
  using derives_unfold [of rules r "[]" w] by simp

text \<open>A rule \<open>r ::= x r |\<close> derives any number of copies.\<close>

lemma star_rule_sound:
  assumes "productions rules r = {x @ [Rule r], []}" and "derives rules ss w"
  shows "ss = pre @ [Rule r] \<Longrightarrow> \<exists>u v t. w = u @ v \<and> derives rules pre u \<and> derives rules (copies t x) v"
  using assms(2)
proof (induction arbitrary: pre rule: derives.induct)
  case (Char s c ss w)
  then obtain pre' where pre: "pre = s # pre'" "ss = pre' @ [Rule r]" by (cases pre) auto
  then obtain u v t where "w = u @ v" "derives rules pre' u" "derives rules (copies t x) v" using Char.IH by blast
  then show ?case using pre(1) derives.Char [OF Char.hyps(1)] by (metis append_Cons)
next
  case (Ref p q u ss w)
  show ?case
  proof (cases pre)
    case Nil
    then have q: "q = r" "ss = []" "w = []" using Ref by auto
    then consider "p = x @ [Rule r]" | "p = []" using Ref.hyps(1) assms(1) by auto
    then show ?thesis
    proof cases
      case 1
      then obtain u1 v t where "u = u1 @ v" "derives rules x u1" "derives rules (copies t x) v" using Ref.IH(1) by blast
      then have "derives rules (copies (Suc t) x) u" by (simp add: derives_append1)
      then show ?thesis using Nil q by (intro exI [of _ "[]"] exI [of _ u] exI [of _ "Suc t"]) simp
    next
      case 2
      then have "derives rules (copies 0 x) (u @ w)" using Ref.hyps(2) q by simp
      then show ?thesis using Nil by (intro exI [of _ "[]"] exI [of _ "u @ w"] exI [of _ 0]) simp
    qed
  next
    case (Cons s pre')
    then have "s = Rule q" "ss = pre' @ [Rule r]" using Ref.prems by auto
    moreover from this obtain u1 v t where "w = u1 @ v" "derives rules pre' u1" "derives rules (copies t x) v" using Ref.IH(2) by blast
    ultimately show ?thesis using Cons derives.Ref [OF Ref.hyps(1,2)] by (metis append.assoc)
  qed
qed simp

lemma star_rule:
  assumes "productions rules r = {x @ [Rule r], []}"
  shows "derives rules [Rule r] w = (\<exists>t. derives rules (copies t x) w)"
proof
  show "derives rules [Rule r] w \<Longrightarrow> \<exists>t. derives rules (copies t x) w"
    using star_rule_sound [OF assms, of "[Rule r]" w "[]"] by auto
  have "derives rules (copies t x) w \<Longrightarrow> derives rules [Rule r] w" for t
  proof (induction t arbitrary: w)
    case 0
    then show ?case by (simp add: derives_one_rule assms)
  next
    case (Suc t)
    then obtain u v where "w = u @ v" "derives rules x u" "derives rules (copies t x) v" by (auto simp: derives_append)
    then show ?case using Suc.IH by (auto simp: derives_one_rule [of _ _ "u @ v"] assms intro: derives_append1)
  qed
  then show "\<exists>t. derives rules (copies t x) w \<Longrightarrow> derives rules [Rule r] w" by blast
qed

section \<open>Fresh symbols\<close>

lemma unat_of_nat32: "n < 2 ^ 32 \<Longrightarrow> unat (of_nat n :: uint32) = n"
  by (rule of_nat_inverse [OF refl]) simp

lemma generate_symbol_id_fresh:
  assumes "numbered P" and "generate_symbol_id name P = (v, P')" and "length (gp_symbol_ids P) < 2 ^ 32"
  shows "v \<notin> ids P"
proof
  let ?n = "length (gp_symbol_ids P)"
  have v: "v = of_nat ?n" using assms(2) by (simp add: generate_symbol_id_def Let_def)
  assume "v \<in> ids P"
  then have "v \<in> set (map snd (gp_symbol_ids P))" by (simp add: ids_def)
  then obtain i where i: "i < ?n" "v = of_nat i" unfolding assms(1) [unfolded numbered_def] by auto
  have "unat v = i" unfolding i(2) by (rule unat_of_nat32 [OF less_trans [OF i(1) assms(3)]])
  moreover have "unat v = ?n" unfolding v by (rule unat_of_nat32 [OF assms(3)])
  ultimately show False using i(1) by simp
qed

lemma length_update_le: "length al \<le> length (AList.update k v al)"
  by (induction al) auto

lemma generate_symbol_id_length: "generate_symbol_id name P = (v, P') \<Longrightarrow> length (gp_symbol_ids P) \<le> length (gp_symbol_ids P')"
  by (auto simp: generate_symbol_id_def Let_def length_update_le)

lemma add_rule_symbols [simp]: "gp_symbol_ids (add_rule v rule P) = gp_symbol_ids P"
  by (simp add: add_rule_def Let_def)

lemma add_rule_length: "length (gp_rules (add_rule v rule P)) = max (length (gp_rules P)) (unat v + 1)"
  by (simp add: add_rule_def Let_def max_def)

lemma add_rule_nth:
  "gp_rules (add_rule v rule P) ! unat v = rule"
  "u \<noteq> v \<Longrightarrow> unat u < length (gp_rules P) \<Longrightarrow> gp_rules (add_rule v rule P) ! unat u = gp_rules P ! unat u"
  by (simp_all add: add_rule_def Let_def nth_append word_unat_eq_iff)

lemma optional_rules_keeps:
  "names_ok P \<Longrightarrow> numbered P \<Longrightarrow> optional_rules k i name prev unbounded last_id P = (v, P') \<Longrightarrow> length (gp_symbol_ids P') < 2 ^ 32 \<Longrightarrow>
   ids P \<subseteq> ids P' \<and> length (gp_symbol_ids P) \<le> length (gp_symbol_ids P') \<and>
   (\<forall>u \<in> ids P. unat u < length (gp_rules P) \<longrightarrow> gp_rules P' ! unat u = gp_rules P ! unat u)"
proof (induction k arbitrary: i last_id P)
  case (Suc k)
  obtain w P1 where gen: "generate_symbol_id name P = (w, P1)" by fastforce
  then obtain rec where rest: "optional_rules k (i + 1) name prev unbounded w (add_rule w rec P1) = (v, P')" using Suc.prems(3) by auto
  note P1 = generate_symbol_id_symbols [OF Suc.prems(1,2) gen]
  then have "names_ok (add_rule w rec P1)" "numbered (add_rule w rec P1)" "ids (add_rule w rec P1) = insert w (ids P)"
    by (simp_all add: names_ok_def numbered_def ids_def)
  note P2 = this Suc.IH [OF this(1,2) rest Suc.prems(4)]
  then have len: "length (gp_symbol_ids P) \<le> length (gp_symbol_ids P')" using generate_symbol_id_length [OF gen] by simp
  then have "w \<notin> ids P" using generate_symbol_id_fresh [OF Suc.prems(2) gen] Suc.prems(4) by simp
  then have keeps: "gp_rules P' ! unat u = gp_rules P ! unat u" if "u \<in> ids P" "unat u < length (gp_rules P)" for u
  proof -
    have "unat u < length (gp_rules (add_rule w rec P1))"
      using that(2) P1 by (simp add: add_rule_length)
    moreover have "u \<noteq> w" using that(1) \<open>w \<notin> ids P\<close> by blast
    then have "gp_rules (add_rule w rec P1) ! unat u = gp_rules P ! unat u"
      using that(2) add_rule_nth(2) [of u w P1 rec] P1 by simp
    ultimately show ?thesis using P2(3,4) that(1) by simp
  qed
  have "ids P \<subseteq> ids P'" using P2(3,4) by auto
  then show ?case using keeps len by blast
qed simp

section \<open>The language of a repetition\<close>

lemma copies_up_to:
  "(\<exists>t \<le> Suc i. derives rules (copies t x) w) = (w = [] \<or> (\<exists>u v. w = u @ v \<and> derives rules x u \<and> (\<exists>t \<le> i. derives rules (copies t x) v)))"
proof -
  have "(\<exists>t \<le> Suc i. derives rules (copies t x) w) = (derives rules (copies 0 x) w \<or> (\<exists>t \<le> i. derives rules (copies (Suc t) x) w))"
    by (metis Suc_le_mono not0_implies_Suc le0)
  then show ?thesis by (auto simp: derives_append)
qed

lemma optional_rule_language:
  assumes "productions rules r = {x @ (if i = 0 then [] else [Rule q]), []}"
    and "i > 0 \<Longrightarrow> \<forall>w. derives rules [Rule q] w = (\<exists>t \<le> i. derives rules (copies t x) w)"
  shows "derives rules [Rule r] w = (\<exists>t \<le> Suc i. derives rules (copies t x) w)"
  unfolding copies_up_to derives_one_rule assms(1) using assms(2) by (cases "i = 0") (auto simp: derives_append)

lemma optional_rules_language:
  assumes "names_ok P" and "numbered P" and "sequence_part prev" and "optional_rules k i name prev unbounded last_id P = (v, P')" and "k > 0"
    and "length (gp_symbol_ids P') < 2 ^ 32" and "\<forall>u \<in> ids P' - ids P. rules ! unat u = gp_rules P' ! unat u"
    and "i > 0 \<and> \<not> unbounded \<Longrightarrow> \<forall>w. derives rules [Rule (unat last_id)] w = (\<exists>t \<le> i. derives rules (copies t (part_symbols prev)) w)"
  shows "derives rules [Rule (unat v)] w = (\<exists>t. (\<not> unbounded \<longrightarrow> t \<le> i + k) \<and> derives rules (copies t (part_symbols prev)) w)"
  using assms
proof (induction k arbitrary: i last_id P)
  case (Suc k)
  let ?x = "part_symbols prev"
  obtain r P1 where gen: "generate_symbol_id name P = (r, P1)" by fastforce
  define opt where "opt = (if i > 0 \<or> unbounded then [elem LLAMA_GRETYPE_RULE_REF (if unbounded then r else last_id)] else [])"
  define rec where "rec = prev @ opt @ [elem LLAMA_GRETYPE_ALT 0, elem LLAMA_GRETYPE_END 0]"
  define P2 where "P2 = add_rule r rec P1"
  have rest: "optional_rules k (i + 1) name prev unbounded r P2 = (v, P')"
    using Suc.prems(4) gen by (simp add: rec_def opt_def P2_def)
  note P1 = generate_symbol_id_symbols [OF Suc.prems(1,2) gen]
  then have ok: "names_ok P2" "numbered P2" and ids: "ids P2 = insert r (ids P)"
    by (simp_all add: names_ok_def numbered_def ids_def P2_def)
  note keeps = optional_rules_keeps [OF ok rest Suc.prems(6)]
  have "length (gp_symbol_ids P) \<le> length (gp_symbol_ids P2)" using generate_symbol_id_length [OF gen] by (simp add: P2_def)
  then have "r \<notin> ids P" using generate_symbol_id_fresh [OF Suc.prems(2) gen] keeps Suc.prems(6) by simp
  then have "rules ! unat r = rec" using Suc.prems(7) keeps ids add_rule_nth(1) [of r rec P1] by (simp add: P2_def add_rule_length)
  then have prods: "productions rules (unat r) = {?x @ (if opt = [] then [] else [Rule (unat (if unbounded then r else last_id))]), []}"
    by (intro optional_productions [OF Suc.prems(3)]) (auto simp: opt_def rec_def)
  have lang: "derives rules [Rule (unat r)] w = (\<exists>t. (\<not> unbounded \<longrightarrow> t \<le> Suc i) \<and> derives rules (copies t ?x) w)" for w
  proof (cases unbounded)
    case True
    then show ?thesis using star_rule [of rules "unat r" ?x] prods by (simp add: opt_def)
  next
    case False
    then show ?thesis using optional_rule_language [of rules "unat r" ?x i "unat last_id"] prods Suc.prems(8) by (simp add: opt_def)
  qed
  show ?case
  proof (cases "k = 0")
    case True
    then show ?thesis using rest lang by simp
  next
    case False
    have "\<forall>u \<in> ids P' - ids P2. rules ! unat u = gp_rules P' ! unat u" using Suc.prems(7) ids by auto
    from Suc.IH [OF ok Suc.prems(3) rest _ Suc.prems(6) this] lang False show ?thesis by simp
  qed
qed simp

lemma sequence_part_starts: "sequence_part xs \<Longrightarrow> starts_ok ys \<Longrightarrow> starts_ok (xs @ ys)"
  by (cases xs) (auto simp: sequence_part_def starts_ok_def)

lemma copied_symbols:
  assumes "sequence_part xs" and "starts_ok ys"
  shows "symbols_of (concat (replicate t xs) @ ys) = copies t (part_symbols xs) @ symbols_of ys"
proof -
  have "starts_ok (concat (replicate t xs) @ ys) \<and> symbols_of (concat (replicate t xs) @ ys) = copies t (part_symbols xs) @ symbols_of ys"
    by (induction t) (simp_all add: assms sequence_part_starts part_symbols_append)
  then show ?thesis by simp
qed

lemma copied_part:
  "sequence_part xs \<Longrightarrow> starts_ok (ys @ [elem LLAMA_GRETYPE_END 0]) \<Longrightarrow>
   part_symbols (concat (replicate t xs) @ ys) = copies t (part_symbols xs) @ part_symbols ys"
  by (simp add: part_symbols_def [of "_ @ _"] part_symbols_def [of ys] copied_symbols)

lemma copies_then:
  assumes "\<forall>w. derives rules ss w = (\<exists>t. Q t \<and> derives rules (copies t x) w)"
  shows "derives rules (copies m x @ ss) w = (\<exists>t. Q t \<and> derives rules (copies (m + t) x) w)"
  using assms by (auto simp: copies_add derives_append)

lemma handle_repetitions_shape:
  assumes "handle_repetitions min_times max_times name k rule P = Ret (rule', P')" and "0 \<le> min_times"
  obtains v where "optional_rules (nat (if max_times < 0 then 1 else max_times - min_times)) 0 name (drop k rule) (max_times < 0) 0 P = (v, P')"
    and "rule' = take k rule @ concat (replicate (nat min_times) (drop k rule)) @
      (if max_times < 0 \<or> max_times > min_times then [elem LLAMA_GRETYPE_RULE_REF v] else [])"
proof -
  have "concat (replicate (nat min_times) xs) = (if min_times = 0 then [] else xs @ concat (replicate (nat (min_times - 1)) xs))"
    for xs :: llama_grammar_rule
  proof (cases "min_times = 0")
    case False
    then have "nat min_times = Suc (nat (min_times - 1))" using assms(2) by linarith
    then show ?thesis using False by simp
  qed simp
  then have kept: "take k rule @ concat (replicate (nat min_times) (drop k rule)) =
      (if min_times = 0 then take k rule else rule @ concat (replicate (nat (min_times - 1)) (drop k rule)))"
    by simp
  obtain v P2 where opt: "optional_rules (nat (if max_times < 0 then 1 else max_times - min_times)) 0 name (drop k rule) (max_times < 0) 0 P = (v, P2)"
    by fastforce
  then have "P2 = P'" "rule' = take k rule @ concat (replicate (nat min_times) (drop k rule)) @
      (if max_times < 0 \<or> max_times > min_times then [elem LLAMA_GRETYPE_RULE_REF v] else [])"
    using assms unfolding append_assoc [symmetric] kept
    by (auto simp: handle_repetitions_def optional_count_def Let_def split: if_splits)
  then show ?thesis using that opt by blast
qed

text \<open>
  C12. The rewriting of repetitions means what it says. For a symbol of a sequence, the elements and the rules
  that the parser makes for \<open>x{m,n}\<close> (with \<open>x*\<close>, \<open>x+\<close>, \<open>x?\<close> and \<open>x{m,}\<close>) derive exactly the texts of
  between \<open>m\<close> and \<open>n\<close> copies of \<open>x\<close>, any number from \<open>m\<close> on if there is no upper bound, and
  of \<open>m\<close> copies if \<open>n\<close> is less; what comes before the symbol stays.
\<close>

theorem repetition_language:
  assumes "parser_ok P" and "k \<le> length rule" and "sequence_part (drop k rule)" and "0 \<le> min_times"
    and "handle_repetitions min_times max_times name k rule P = Ret (rule', P')" and "length (gp_symbol_ids P') < 2 ^ 32"
    and "\<forall>u \<in> ids P' - ids P. rules ! unat u = gp_rules P' ! unat u"
  shows "take k rule' = take k rule \<and>
    (derives rules (part_symbols (drop k rule')) w =
      (\<exists>t. min_times \<le> int t \<and> (0 \<le> max_times \<longrightarrow> int t \<le> max min_times max_times) \<and>
           derives rules (copies t (part_symbols (drop k rule))) w))"
proof -
  let ?m = "nat min_times" and ?x = "part_symbols (drop k rule)"
  obtain v where opt: "optional_rules (nat (if max_times < 0 then 1 else max_times - min_times)) 0 name (drop k rule) (max_times < 0) 0 P = (v, P')"
    and rule': "rule' = take k rule @ concat (replicate ?m (drop k rule)) @
      (if max_times < 0 \<or> max_times > min_times then [elem LLAMA_GRETYPE_RULE_REF v] else [])"
    using handle_repetitions_shape [OF assms(5,4)] .
  have drop: "drop k rule' = concat (replicate ?m (drop k rule)) @ (if max_times < 0 \<or> max_times > min_times then [elem LLAMA_GRETYPE_RULE_REF v] else [])"
    using assms(2) unfolding rule' by simp
  have front: "take k rule' = take k rule" using assms(2) unfolding rule' by simp
  show ?thesis
  proof (cases "max_times < 0 \<or> max_times > min_times")
    case False
    then have "part_symbols (drop k rule') = copies ?m ?x"
      unfolding drop using copied_part [OF assms(3), of "[]" ?m] by (simp add: starts_ok_def elem_def part_symbols_def [of "[]"])
    moreover have bounds: "min_times \<le> int t \<and> (0 \<le> max_times \<longrightarrow> int t \<le> max min_times max_times) \<longleftrightarrow> t = ?m" for t
      using False assms(4) by auto
    ultimately show ?thesis using front by (simp only: conj_assoc [symmetric] bounds) simp
  next
    case True
    then have "part_symbols (drop k rule') = copies ?m ?x @ [Rule (unat v)]"
      unfolding drop using copied_part [OF assms(3), of "[elem LLAMA_GRETYPE_RULE_REF v]" ?m]
      by (simp add: starts_ok_def elem_def part_symbols_def [of "[_]"])
    moreover have "\<forall>w. derives rules [Rule (unat v)] w = (\<exists>t. (0 \<le> max_times \<longrightarrow> t \<le> nat (max_times - min_times)) \<and> derives rules (copies t ?x) w)"
      using optional_rules_language [OF _ _ assms(3) opt _ assms(6,7)] assms(1) True by (auto simp: parser_ok_def not_less)
    moreover have "(\<exists>t. (0 \<le> max_times \<longrightarrow> t \<le> nat (max_times - min_times)) \<and> derives rules (copies (?m + t) ?x) w) =
        (\<exists>t. min_times \<le> int t \<and> (0 \<le> max_times \<longrightarrow> int t \<le> max min_times max_times) \<and> derives rules (copies t ?x) w)" (is "?l = ?r")
    proof
      show "?l \<Longrightarrow> ?r" using assms(4) True by (elim exE, intro exI [of _ "?m + _"]) auto
      show "?r \<Longrightarrow> ?l"
      proof (elim exE conjE)
        fix t assume t: "min_times \<le> int t" "0 \<le> max_times \<longrightarrow> int t \<le> max min_times max_times" "derives rules (copies t ?x) w"
        then have "t = ?m + (t - ?m)" using assms(4) by auto
        then show ?l using t True assms(4) by (intro exI [of _ "t - ?m"]) auto
      qed
    qed
    ultimately show ?thesis using front copies_then [of rules "[Rule (unat v)]" "\<lambda>t. 0 \<le> max_times \<longrightarrow> t \<le> nat (max_times - min_times)" ?x ?m w]
      by simp
  qed
qed

definition sample_parser :: llama_grammar_parser where
  "sample_parser = \<lparr>gp_symbol_ids = [(''root'', 0)], gp_rules = []\<rparr>"

definition sample_sequence :: llama_grammar_rule where
  "sample_sequence = [elem LLAMA_GRETYPE_CHAR 0x61, elem LLAMA_GRETYPE_CHAR 0x62, elem LLAMA_GRETYPE_CHAR_RNG_UPPER 0x64]"

text \<open>\<open>"a" [b-d]{1,3}\<close> derives \<open>a\<close> and then \<open>bdc\<close>.\<close>

theorem repetition_language_witness:
  "\<exists>rule' P'. handle_repetitions 1 3 ''root'' 1 sample_sequence sample_parser = Ret (rule', P') \<and>
     derives (gp_rules P') (part_symbols (drop 1 rule')) [0x62, 0x64, 0x63]"
proof -
  have "case handle_repetitions 1 3 ''root'' 1 sample_sequence sample_parser of
    Ret (rule', P') \<Rightarrow> length (gp_symbol_ids P') = 3 | _ \<Rightarrow> False" by code_simp
  then obtain rule' P' where run: "handle_repetitions 1 3 ''root'' 1 sample_sequence sample_parser = Ret (rule', P')"
    and len: "length (gp_symbol_ids P') < 2 ^ 32"
    by (auto split: run.splits)
  have ok: "parser_ok sample_parser" by (simp add: parser_ok_def names_ok_def numbered_def sample_parser_def)
  have seq: "1 \<le> length sample_sequence" "sequence_part (drop 1 sample_sequence)"
    by (simp_all add: sample_sequence_def sequence_part_def elem_def)
  have x: "part_symbols (drop 1 sample_sequence) = [Chars True [(0x62, 0x64)]]" by code_simp
  have "derives (gp_rules P') (copies 3 (part_symbols (drop 1 sample_sequence))) [0x62, 0x64, 0x63]"
    unfolding x by (simp add: copies_def numeral_3_eq_3 derives_terminal)
  then have "\<exists>t. 1 \<le> int t \<and> (0 \<le> (3 :: int) \<longrightarrow> int t \<le> max 1 3) \<and>
      derives (gp_rules P') (copies t (part_symbols (drop 1 sample_sequence))) [0x62, 0x64, 0x63]"
    by (intro exI [of _ 3]) simp
  moreover have "derives (gp_rules P') (part_symbols (drop 1 rule')) [0x62, 0x64, 0x63] =
      (\<exists>t. 1 \<le> int t \<and> (0 \<le> (3 :: int) \<longrightarrow> int t \<le> max 1 3) \<and>
      derives (gp_rules P') (copies t (part_symbols (drop 1 sample_sequence))) [0x62, 0x64, 0x63])"
    by (rule conjunct2 [OF repetition_language [OF ok seq _ run len, of "gp_rules P'"]]) simp_all
  ultimately show ?thesis using run by blast
qed

end
