(* ===== verification/Grammar_Parser_Ends.thy ===== *)
theory Grammar_Parser_Ends
  imports Grammar_Parser
begin

text \<open>
  The parser of grammars ends on every text: every turn of a loop and every nested group reads on, so
  that the length of the text bounds the turns and the depth.
\<close>

section \<open>Reading on\<close>

text \<open>A result that is not out of bounds and leaves at most \<open>k\<close> characters.\<close>

definition ends :: "('a \<Rightarrow> string) \<Rightarrow> 'a run \<Rightarrow> nat \<Rightarrow> bool" where
  "ends rest r k = (case r of Ret x \<Rightarrow> length (rest x) \<le> k | Abort \<Rightarrow> True | Too_Deep \<Rightarrow> False)"

lemma ends_simps [simp]:
  "ends rest (Ret x) k = (length (rest x) \<le> k)" "ends rest Abort k" "\<not> ends rest Too_Deep k"
  by (simp_all add: ends_def)

lemma ends_bind:
  assumes "ends rest r k" and "\<And>x. length (rest x) \<le> k \<Longrightarrow> ends rest' (f x) k'"
  shows "ends rest' (run_bind r f) k'"
  using assms by (cases r) auto

lemma ends_if: "(c \<Longrightarrow> ends rest a k) \<Longrightarrow> (\<not> c \<Longrightarrow> ends rest b k) \<Longrightarrow> ends rest (if c then a else b) k"
  by simp

lemma ends_le: "ends rest r k \<Longrightarrow> k \<le> k' \<Longrightarrow> ends rest r k'"
  by (cases r) auto

lemma parse_space_length: "length (parse_space s newline_ok) \<le> length s"
  by (induction s newline_ok rule: parse_space.induct) (auto intro: le_trans [OF _ length_dropWhile_le] le_SucI)

lemma parse_space_le: "length s \<le> k \<Longrightarrow> length (parse_space s newline_ok) \<le> k"
  using parse_space_length le_trans by blast

lemma decode_rest_length: "length (snd (decode_rest n v s)) \<le> length s"
  by (induction n v s rule: decode_rest.induct) auto

lemma parse_hex_ends: "ends snd (parse_hex n v s) (length s)"
  by (induction n v s rule: parse_hex.induct) (auto split: option.splits intro: ends_le)

lemma parse_char_ends:
  assumes "s \<noteq> []"
  shows "ends snd (parse_char s) (length s - 1)"
proof -
  have "length (tl (tl s)) \<le> length s - 1" by simp
  then have hex: "ends snd (parse_hex n v (tl (tl s))) (length s - 1)" for n v using parse_hex_ends ends_le by blast
  have "length (snd (decode_first s)) \<le> length s - 1"
    using decode_rest_length [of _ _ "tl s"] by (simp add: decode_first_def Let_def)
  moreover have "length s - Suc (Suc 0) \<le> length s - Suc 0" by simp
  ultimately show ?thesis using assms hex by (simp add: parse_char_def Let_def)
qed

lemma dropWhile_shorter: "takeWhile p s \<noteq> [] \<Longrightarrow> length (dropWhile p s) \<le> length s - 1"
  by (cases s) (auto intro: length_dropWhile_le split: if_splits)

lemma parse_name_ends: "ends snd (parse_name s) (length s - 1)"
  using dropWhile_shorter by (auto simp: parse_name_def Let_def)

lemma parse_int_ends: "ends snd (parse_int s) (length s - 1)"
  using dropWhile_shorter by (auto simp: parse_int_def Let_def)

lemma handle_repetitions_ends: "handle_repetitions min_times max_times name k rule P \<noteq> Too_Deep"
  by (auto simp: handle_repetitions_def Let_def split: prod.split)

lemma parse_int_le: "length s \<le> k \<Longrightarrow> ends snd (parse_int s) k"
  by (rule ends_le [OF parse_int_ends]) simp

lemma upper_bound_ends:
  assumes "length s \<le> k"
  shows "ends snd (if is_digit_char (peek s) then run_bind (parse_int s) (\<lambda>(max_times, s). Ret (max_times, parse_space s nest)) else Ret (-1 :: int, s)) k"
  by (rule ends_if, rule ends_bind [OF parse_int_le [OF assms]]) (use assms in \<open>simp_all add: split_beta parse_space_le\<close>)

lemma parse_space_tl: "length s \<le> k \<Longrightarrow> length (parse_space (tl s) nest) \<le> k"
  by (rule parse_space_le) simp

lemma range_ends:
  assumes "length s \<le> k"
  shows "ends snd (run_bind (if is_digit_char (peek s) then run_bind (parse_int s) (\<lambda>(max_times, s). Ret (max_times, parse_space s nest)) else Ret (-1, s))
    (\<lambda>(max_times, s). if peek s \<noteq> CHR ''}'' then Abort else Ret ((min_times, max_times :: int), parse_space (tl s) nest))) k"
  by (rule ends_bind [OF upper_bound_ends [OF assms]]) (simp add: split_beta parse_space_tl)

lemma parse_bounds_ends: "ends snd (parse_bounds s nest) (length s)"
proof -
  let ?k = "length s"
  have "length (parse_space s nest) \<le> ?k" by (rule parse_space_length)
  moreover have "ends snd (let s = parse_space s' nest in
        if peek s = CHR ''}'' then Ret ((min_times, min_times), parse_space (tl s) nest)
        else if peek s = CHR '','' then
          (let s = parse_space (tl s) nest in
           run_bind (if is_digit_char (peek s)
                     then run_bind (parse_int s) (\<lambda>(max_times, s). Ret (max_times, parse_space s nest))
                     else Ret (-1, s)) (\<lambda>(max_times, s).
             if peek s \<noteq> CHR ''}'' then Abort
             else Ret ((min_times, max_times), parse_space (tl s) nest)))
        else Abort) ?k" if "length s' \<le> ?k" for s' and min_times :: int
    unfolding Let_def by (intro ends_if range_ends) (simp_all only: ends_simps snd_conv parse_space_tl parse_space_le that)
  ultimately show ?thesis unfolding parse_bounds_def Let_def [of "parse_space s nest"]
    by (intro ends_if ends_bind [OF parse_int_le]) (simp_all only: ends_simps split_beta)
qed

section \<open>Literals and classes\<close>

lemma literal_loop_ends: "length s < m \<Longrightarrow> ends fst (literal_loop m s rule) (length s)"
proof (induction m arbitrary: s rule)
  case (Suc m)
  have "ends fst (literal_loop m s' rule') (length s)" if "length s' \<le> length s - 1" "s \<noteq> []" for s' rule'
    using that Suc.prems by (intro ends_le [OF Suc.IH]) (cases s, auto)+
  then show ?case by (auto intro!: ends_bind [OF parse_char_ends])
qed simp

lemma class_loop_ends: "length s < m \<Longrightarrow> ends fst (class_loop m type k s rule) (length s)"
proof (induction m arbitrary: s rule)
  case (Suc m)
  have go: "ends fst (class_loop m type k s' rule') (length s)" if "length s' \<le> length s - 1" "s \<noteq> []" for s' rule'
    using that Suc.prems by (intro ends_le [OF Suc.IH]) (cases s, auto)+
  have "ends fst (run_bind (parse_char s') (\<lambda>(d, s). class_loop m type k s (rule' d))) (length s)"
    if "length s' \<le> length s - 1" "s \<noteq> []" "s' \<noteq> []" for s' rule'
    using that by (intro ends_bind [OF parse_char_ends]) (auto intro!: go)
  then show ?case using go by (auto simp: Let_def intro!: ends_bind [OF parse_char_ends])
qed simp

section \<open>Sequences and alternates\<close>

definition nested_ends :: "alternates_parser \<Rightarrow> nat \<Rightarrow> bool" where
  "nested_ends nested k = (\<forall>s name v nest P. length s < k \<longrightarrow> ends fst (nested s name v nest P) (length s))"

lemma ends_repetitions:
  assumes "\<And>rule P. ends rest (f (rule, P)) k"
  shows "ends rest (run_bind (handle_repetitions min_times max_times name i rule P) f) k"
  using assms handle_repetitions_ends [of min_times max_times name i rule P]
  by (cases "handle_repetitions min_times max_times name i rule P") auto

lemma sequence_loop_ends:
  "length s < m \<Longrightarrow> nested_ends nested (length s) \<Longrightarrow> ends fst (sequence_loop m nested s name nest k rule P) (length s)"
proof (induction m arbitrary: s k rule P)
  case (Suc m)
  show ?case
  proof (cases "s = []")
    case False
    then have shorter: "length (tl s) \<le> length s - 1" "length (tl (tl s)) \<le> length s - 1" "length s - 1 < m" "length s - 1 < length s"
      using Suc.prems(1) by (cases s, auto)+
    have go: "ends fst (sequence_loop m nested s' name nest k' rule' P') (length s)" if "length s' \<le> length s - 1" for s' k' rule' P'
    proof -
      have "nested_ends nested (length s')" using Suc.prems(2) that by (auto simp: nested_ends_def)
      then show ?thesis using that shorter by (intro ends_le [OF Suc.IH]) auto
    qed
    have space: "length (parse_space s' b) \<le> length s - 1" if "length s' \<le> length s - 1" for s' b
      using that by (rule parse_space_le)
    have tls: "length (tl s') \<le> length s - 1" if "length s' \<le> length s - 1" for s' using that by simp
    have literal: "ends fst (literal_loop m (tl s) rule) (length s - 1)"
      using shorter by (intro ends_le [OF literal_loop_ends]) auto
    have cls: "ends fst (class_loop m type (length rule) s' rule) (length s - 1)" if "length s' \<le> length s - 1" for type s'
      using that shorter by (intro ends_le [OF class_loop_ends]) auto
    have group: "ends fst (nested (parse_space (tl s) True) name v True P') (length s - 1)" for v P'
    proof -
      have "length (parse_space (tl s) True) \<le> length s - 1" by (rule space [OF shorter(1)])
      moreover from this have "ends fst (nested (parse_space (tl s) True) name v True P') (length (parse_space (tl s) True))"
        using Suc.prems(2) shorter(4) unfolding nested_ends_def by simp
      ultimately show ?thesis by (rule ends_le [rotated])
    qed
    have bounds: "ends snd (parse_bounds (tl s) nest) (length s - 1)"
      by (rule ends_le [OF parse_bounds_ends]) simp
    show ?thesis using False
      by (simp only: sequence_loop.simps Let_def if_False split_beta)
         (intro ends_if ends_repetitions ends_bind [OF literal] ends_bind [OF cls] ends_bind [OF parse_name_ends] ends_bind [OF group] ends_bind [OF bounds],
          simp_all only: ends_simps go space tls shorter if_True if_False split_beta,
          auto intro!: go space tls shorter ends_repetitions)
  qed simp
qed simp

lemma alternates_loop_ends:
  assumes "\<And>s' k rule P. length s' \<le> length s \<Longrightarrow> ends fst (sequence s' k rule P) (length s')" and "length s < m"
  shows "ends fst (alternates_loop m sequence s v rule P) (length s)"
  using assms
proof (induction m arbitrary: s rule P)
  case (Suc m)
  have bar: "ends fst (alternates_loop m sequence s' v rule' P') (length s)" if "length s' \<le> length s - 1" "s \<noteq> []" for s' rule' P'
    using that Suc.prems by (intro ends_le [OF Suc.IH]) (cases s, auto)+
  have seq: "ends fst (sequence (parse_space (tl s) True) k rule' P') (length s - 1)" for k rule' P'
    using parse_space_length [of "tl s" True] by (intro ends_le [OF Suc.prems(1)]) auto
  show ?case
  proof (cases "peek s = CHR ''|''")
    case True
    then have "s \<noteq> []" by (auto simp: peek_def)
    then show ?thesis using True by (auto simp: Let_def intro!: ends_bind [OF seq] bar)
  qed simp
qed simp

lemma parse_alternates_ends:
  "length s < n \<Longrightarrow> length s < m \<Longrightarrow> ends fst (parse_alternates n m s name v nest P) (length s)"
proof (induction n arbitrary: s name v nest P)
  case (Suc n)
  have seq: "ends fst (sequence_loop m (parse_alternates n m) s' name nest k rule P') (length s')" if "length s' \<le> length s" for s' k rule P'
  proof -
    have "nested_ends (parse_alternates n m) (length s')"
      using that Suc unfolding nested_ends_def by auto
    then show ?thesis using that Suc.prems by (intro sequence_loop_ends) auto
  qed
  show ?case unfolding parse_alternates.simps Let_def
    by (rule ends_bind [OF seq [OF le_refl]])
       (use Suc.prems in \<open>auto intro!: ends_le [OF alternates_loop_ends [OF seq]]\<close>)
qed simp

section \<open>Rules\<close>

lemma end_of_rule_ends: "ends (\<lambda>s. s) (end_of_rule s) (length s)"
  by (auto simp: end_of_rule_def intro!: parse_space_le)

lemma parse_rule_ends:
  assumes "length s < n" and "length s < m"
  shows "ends fst (parse_rule n m s P) (length s - 1)"
proof -
  have body: "ends fst (parse_alternates n m (parse_space (drop 3 (parse_space s' False)) True) name v False P') (length s - 1)"
    if "length s' \<le> length s - 1" for s' name v P'
  proof -
    have "length (drop 3 (parse_space s' False)) \<le> length s - 1" using parse_space_le [OF that, of False] by simp
    then have "length (parse_space (drop 3 (parse_space s' False)) True) \<le> length s - 1" by (rule parse_space_le)
    then show ?thesis using assms by (intro ends_le [OF parse_alternates_ends]) auto
  qed
  have last: "ends fst (run_bind (end_of_rule s') (\<lambda>s. Ret (s, P'))) (length s - 1)" if "length s' \<le> length s - 1" for s' P'
    by (rule ends_bind [OF end_of_rule_ends]) (use that in simp)
  show ?thesis unfolding parse_rule_def
    by (rule ends_bind [OF parse_name_ends], simp only: split_beta Let_def)
       (intro ends_if ends_bind [OF body], simp_all only: ends_simps last split_beta)
qed

lemma rules_loop_ends: "length s < k \<Longrightarrow> length s < n \<Longrightarrow> length s < m \<Longrightarrow> rules_loop k n m s P \<noteq> Too_Deep"
proof (induction k arbitrary: s P)
  case (Suc k)
  show ?case
  proof (cases "s = []")
    case False
    have "ends (\<lambda>_. []) (run_bind (parse_rule n m s P) (\<lambda>(s, P). rules_loop k n m s P)) 0"
    proof (rule ends_bind [OF parse_rule_ends [OF Suc.prems(2,3)]])
      fix x :: "string \<times> llama_grammar_parser"
      assume "length (fst x) \<le> length s - 1"
      then have "rules_loop k n m (fst x) (snd x) \<noteq> Too_Deep" using False Suc.prems by (intro Suc.IH) (cases s, auto)+
      then show "ends (\<lambda>_. []) (case x of (s, P) \<Rightarrow> rules_loop k n m s P) 0"
        by (cases "rules_loop k n m (fst x) (snd x)") (auto simp: split_beta)
    qed
    then show ?thesis using False by (auto simp del: run_bind.simps)
  qed simp
qed simp

lemma c_str_length: "length (c_str s) \<le> length s"
  by (simp add: c_str_def length_takeWhile_le)

lemma parse_returns: "length src < n \<Longrightarrow> \<exists>r. parse n src = Ret r"
proof -
  assume n: "length src < n"
  have "length (parse_space (c_str src) True) \<le> length src" using parse_space_le [OF c_str_length] .
  then have "rules_loop n n n (parse_space (c_str src) True) no_parser \<noteq> Too_Deep" using n by (intro rules_loop_ends) auto
  then show ?thesis by (auto simp: parse_def split: run.split)
qed

section \<open>The turns of a repetition\<close>

lemma sint32_bounds: "- (2 ^ 31) \<le> sint (w :: uint32) \<and> sint w < 2 ^ 31"
  using sint_greater_eq [of w] sint_lt [of w] by simp

text \<open>The bounds are values of \<open>int\<close>, so both loops of a repetition make less than \<open>2 ^ 31\<close> turns.\<close>

definition int_result :: "int \<Rightarrow> bool" where
  "int_result i = (- (2 ^ 31) \<le> i \<and> i < 2 ^ 31)"

lemma parse_int_result: "parse_int s = Ret (i, s') \<Longrightarrow> int_result i"
  using sint32_bounds by (auto simp: parse_int_def int_result_def Let_def split: if_splits)

lemma int_result_minus_one: "int_result (- 1)"
  by (simp add: int_result_def)

lemma bind_Ret: "run_bind r f = Ret y \<longleftrightarrow> (\<exists>x. r = Ret x \<and> f x = Ret y)"
  by (cases r) auto

lemma upper_bound_result:
  assumes "(if is_digit_char (peek s) then run_bind (parse_int s) (\<lambda>(max_times, s). Ret (max_times, parse_space s nest)) else Ret (-1 :: int, s)) = Ret (i, s')"
  shows "int_result i"
  using assms by (auto simp: bind_Ret int_result_minus_one dest: parse_int_result split: if_splits)

lemma parse_bounds_result: "parse_bounds s nest = Ret ((i, j), s') \<Longrightarrow> int_result i \<and> int_result j"
  unfolding parse_bounds_def Let_def
  by (auto simp only: bind_Ret split_beta run.inject run.distinct prod.inject fst_conv snd_conv split: if_splits
      intro: int_result_minus_one dest: parse_int_result upper_bound_result [unfolded split_beta])

lemma optional_count_bound: "int_result i \<Longrightarrow> int_result j \<Longrightarrow> optional_count i j < 2 ^ 31"
  using sint32_bounds [of "of_int (j - i)"] by (auto simp: optional_count_def int_result_def)

text \<open>
  C28. Parsing a grammar ends on every text: a bound of one more than its length is enough for the turns of
  the loops along the text and for the depth of nested groups, and the result is the rules or the failure
  that the code reports. The two loops that write out a repetition count down from its bounds, whatever the
  length of the text, and make less than \<open>2 ^ 31\<close> turns each.
\<close>

theorem parse_ends:
  "(\<exists>r. parse (length src + 1 + k) src = Ret r) \<and>
   (parse_bounds s nest = Ret ((min_times, max_times), s') \<longrightarrow>
      min_times - 1 < 2 ^ 31 \<and> optional_count min_times max_times < 2 ^ 31)"
proof -
  have "min_times - 1 < 2 ^ 31 \<and> optional_count min_times max_times < 2 ^ 31"
    if "parse_bounds s nest = Ret ((min_times, max_times), s')"
    using parse_bounds_result [OF that] optional_count_bound by (auto simp: int_result_def)
  then show ?thesis using parse_returns [of src "length src + 1 + k"] by simp
qed

theorem parse_ends_witness:
  "parse_bounds ''1,1000000}'' False = Ret ((1, 1000000), []) \<and> optional_count 1 1000000 < 2 ^ 31 \<and>
   (\<exists>r. parse 17 ''root ::= [a]{2}'' = Ret r)"
proof -
  have bounds: "parse_bounds ''1,1000000}'' False = Ret ((1, 1000000), [])" by code_simp
  show ?thesis
    using bounds parse_ends [of "''root ::= [a]{2}''" 1 "''1,1000000}''" False 1 1000000 "[]"] by (simp add: eval_nat_numeral)
qed

end
