(* ===== verification/Spec2Isabelle.thy ===== *)
theory Spec2Isabelle
  imports SmolLM Gguf_Faults KV_State_Props Grammar_Termination Grammar_Repetition Grammar_Parser_Ends
begin

text \<open>
  Verification library of the native code of Smoll-Chat, an Android app that chats with small
  language models on the device. The app's own C++ (\<open>src/smollm/src/main/cpp\<close>) keeps a
  conversation and drives \<open>llama.cpp\<close> (\<open>src/llama.cpp\<close>); this library models that
  engine and the parts of \<open>llama.cpp\<close> it rests on, down to the cells of the key-value cache
  and the bytes of the model file.

  \<^bold>\<open>How the program works.\<close> \<open>GGUFReader\<close> opens a model file and tells the app its
  context size. \<open>LLMInference::loadModel\<close> makes a context of that size. A message of the user
  is a call of \<open>startCompletion\<close>: the conversation is rendered by the chat template, and the
  text behind the cursor \<open>prevLen\<close> is tokenized. Each call of \<open>completionLoop\<close>
  decodes the pending tokens, samples one token, and emits the text that is complete as UTF-8, until
  the end of the generation, a stop word, or a full context. \<open>stopCompletion\<close> stores the answer
  and moves the cursor. Decoding splits the tokens into micro-batches, finds cells for them in the
  cache, masks the cells that each token may not see, and hands the graph to a device.

  \<^bold>\<open>Theories and the code they model.\<close>
  \<^item> Prelude: numbers and strings that several parts share: 32-bit integers, C strings,
    \<open>strncpy\<close>, \<open>std::string::find\<close>, padding, folds with failure.
  \<^item> Chat\_Template: \<open>llama-chat.cpp\<close>: detection of a template by name or by its text, and the
    rendering of a conversation in each of the formats; \<open>llama_chat_apply_template\<close> with its
    buffer (\<open>llama.cpp\<close>).
  \<^item> LLM\_Inference: \<open>LLMInference.cpp\<close>: the record \<open>llm\<close> is the object, every method is a
    definition of its name; the calls into \<open>llama.h\<close>, the tokenizer and the vocabulary are the
    record \<open>engine\<close>, an argument of the methods. Exceptions are the left of a sum.
    \<open>response_loop\<close> is the loop of \<open>SmolLM.getResponse\<close>.
  \<^item> KV\_Cells: \<open>llama-kv-cells.h\<close>: the cells with their positions and sequences, and the two
    indices, the used cells and the multiset of positions of each sequence.
  \<^item> KV\_Cache: \<open>llama-kv-cache-unified.cpp\<close>: the operations on sequences, the search for slots,
    the trial placement with its rollback, applying a micro-batch, the attention mask, the index
    tensors, the shift, the plan of a defragmentation.
  \<^item> KV\_State, KV\_State\_Rows, KV\_State\_Props: saving and restoring the cache with its
    tensors (\<open>state_write\<close>, \<open>state_read\<close>), and the state of one sequence in a buffer
    or a file (\<open>llama-context.cpp\<close>). Writers give a list of items, which each class of
    \<open>llama_io_write_i\<close> consumes; readers run on the cache and the bytes ahead and keep what
    they changed when they stop. The offsets of transposed values are computed in 32 bits, as in the code:
    \<open>writable\<close> and \<open>readable\<close> are the limits below which they do not wrap around.
  \<^item> Batch: \<open>llama-batch.cpp\<close>: checking and completing a batch, and the three ways to split it.
  \<^item> Llama\_Context: \<open>llama-context.cpp\<close>: the parameters of a context, \<open>decode\<close> with its
    retry, its return codes and its clean-up, the rows of outputs and their order.
  \<^item> Chat\_Cache: the context as a single chat uses it, one sequence from position 0 on.
  \<^item> Chat\_Engine: the engine of LLM\_Inference made of the context of Llama\_Context.
  \<^item> Ggml, Gguf: the tensor types and sizes of \<open>ggml.c\<close>, and \<open>gguf.cpp\<close>: reading a model
    file, the operations on its keys and tensors, and writing it.
  \<^item> Gguf\_Props, Gguf\_Build, Gguf\_Faults: the encodings, the files, the contexts that the
    operations build (\<open>gguf_step\<close>, with \<open>tensors_size\<close> the padded sizes that the offsets add up), and the
    files that end the process.
  \<^item> GGUF\_Reader: \<open>GGUFReader.cpp\<close> and \<open>GGUFReader.kt\<close>.
  \<^item> SmolLM: \<open>smollm.cpp\<close> and \<open>SmolLM.kt\<close>: the bridge on objects by address, with the
    exceptions it translates and those that end the process, and the class with its handle. Calls of
    the class, a flow that its collector cancels among them, are the steps of \<open>smol_step\<close>.
  \<^item> Unicode: \<open>unicode.cpp\<close>: UTF-8, and the words of the byte-pair encoding as printable code
    points, with the two tables for bytes that the code builds by two loops; the generated tables of case
    and normal forms are parameters.
  \<^item> Llama\_Grammar: \<open>llama-grammar.cpp\<close>: sampling under a grammar, from its rules on: the
    stacks that follow the text, the mask of the candidates, the check for left recursion, the
    triggers. Grammar\_Language holds the context-free language of the rules, Grammar\_Text the
    decoding of text in pieces, Grammar\_Accept and Grammar\_Props the acceptance of text,
    Grammar\_Reject the mask, Grammar\_Termination the recursions.
  \<^item> Outcome: the results of recursive code: a value, a failed assertion or exception, or a depth that was not
    enough. Grammar\_Parser: the parser of the same file, from the text of a grammar to its rules, and
    \<open>llama_grammar_init_impl\<close> on a text. Grammar\_Parser\_Props holds the invariant of the symbols and rules
    and the well-formedness of what is accepted, Grammar\_Repetition the meaning of the rewriting of
    repetitions, Grammar\_Parser\_Ends that parsing ends.

  \<^bold>\<open>Interfaces.\<close> Locales state what one part relies on in another: the loop of a chat template,
  whose steps only append and keep what the user wrote (\<open>chat_loop\<close>, Chat\_Template); a pass over
  the cells that rewrites each one and keeps their indices (\<open>cell_pass\<close>, KV\_Cache); an engine
  whose calls keep its state good (\<open>engine_state\<close>) and one that counts the tokens it has seen and
  has room for more (\<open>engine_room\<close>, both in Chat\_Engine); a reader that consumes its input from
  the front (\<open>streaming\<close>), and an encoding with its decoder (\<open>codec\<close>, both in
  Gguf\_Props); a method called through the bridge, which changes the object it is given and no other
  (\<open>bridge_call\<close>, SmolLM); a part of every layer that is read as it was written
  (\<open>layer_part\<close>, KV\_State\_Rows). Each is interpreted on the definitions of the code. In particular the context of
  Llama\_Context is shown to be such an engine, and so the properties of the conversation hold of the
  whole stack.

  \<^bold>\<open>What the properties show.\<close> Of the app: from the loading of a model on, every sequence of calls of the class without a further
  load leaves a cache without gaps or a closed handle, unless the process has ended. Of the conversation: the text that the model has read is always
  a prefix of the rendered conversation, what is streamed is what is stored, stop words end a
  response, every response to a prompt within the batch size ends, and which bytes block the stream. Of the cache: its indices agree
  with its cells, removal, copying, placing, rollback and masking do what their names say, and
  along every run of the app it holds the positions of the conversation without a gap; what is saved of
  it is restored, cells and rows, and the announced size of a state is the size written. Of a batch:
  its split loses, repeats and reorders nothing. Of decoding: with room and a working device
  the row that is sampled is the one of the last token, and every return code tells what is left in
  the cache. Of model files whose alignment key, if any, is the alignment they are laid out with: what is written is read back, what is read can be written and read
  again, a cut file is refused, every tensor is where the file says, and the app reads the context
  size that was set. Of grammars: the end of generation is allowed exactly after the texts of the language,
  however they are cut into tokens, the mask agrees with acceptance, no assertion fails, the check for
  left recursion ends, and with what it knows sampling ends, but it misses rules that are empty through
  others. Of the parser of grammars: what it accepts is well-formed, a repetition \<open>x{m,n}\<close> becomes rules for exactly
  \<open>m\<close> to \<open>n\<close> copies, and it ends on every text. Of UTF-8: what is encoded is read back, and so are the words of the byte-pair encoding.

  \<^bold>\<open>Conventions.\<close> Results \<open>None\<close> of operations of \<open>llama.cpp\<close> are failed assertions, which
  end the process. Loops over data are structural recursion or folds; loops that move a pointer
  are functions with a measure. The loop of a response runs over a given number of calls, and the
  property that it ends gives a number that is enough: one call per free cell and one more. The recursions
  over a grammar count their depth down from a bound; the check for left recursion needs one more than there are
  rules, the rejection of candidates two more than the longest has code points, and for advancing a stack
  a bound is shown to exist. The loops of the parser along its text and the depth of its groups need one more
  than the length of the text. Integers have their
  width where it matters: positions and lengths of 32 bits, sizes of 64 bits. Reals, bias values
  apart, do not occur. What the device, the sampler, the tokenizer and the allocator do is a parameter,
  with hypotheses named in the properties that need them and shown satisfiable by their witnesses.

  \<^bold>\<open>Not modelled.\<close> The numeric kernels and GPU backends of ggml and the graphs built of them (floating
  point); the tables of tensors per architecture and the loading of weights; samplers (floating
  point and random numbers); tokenizers, which are a parameter; sliding-window, recurrent and hybrid
  memories, which the app does not use; the user interface and the database of the app; the choice of
  the native library by the features of the processor; threads, timings and logging; tools, examples and
  tests of \<open>llama.cpp\<close>.

  \<^bold>\<open>Open.\<close> The state of a whole context around that of its cache, the order of the outputs after
  \<open>output_reorder\<close> for batches of several sequences, and further loads of a class that holds a model are not
  the subject of a property.
\<close>

end
